(* ===== verification/Inferno_Prelude.thy ===== *)
theory Inferno_Prelude
  imports Main "HOL-Library.Word"
begin

text \<open>
  Shared vocabulary of the development: names of the machine types of the amd64 hosted build
  (\<^verbatim>\<open>src/Linux/amd64/include/lib9.h\<close>), the result type of fallible C code, and the
  generic lemmas on words, byte lists and results that the component theories use.
\<close>

unbundle bit_operations_syntax

section \<open>Machine types\<close>

type_synonym byte = "8 word"
type_synonym u16 = "16 word"
type_synonym u32 = "32 word"
type_synonym u64 = "64 word"

section \<open>Results of C code\<close>

text \<open>
  A C routine of the model ends in one of three ways: it delivers a value (\<open>Inr\<close>), it takes
  an error exit with a message (\<open>Inl (Raise m)\<close>: an error return, or \<open>error(m)\<close> of the
  emulator), or it does something that C leaves undefined, such as an access outside an object
  (\<open>Inl Undef\<close>). Keeping the last apart lets memory safety be stated as a theorem.
\<close>

datatype cerr = Undef | Raise string

type_synonym 'a cres = "cerr + 'a"

definition cbind :: "'a cres \<Rightarrow> ('a \<Rightarrow> 'b cres) \<Rightarrow> 'b cres" where
  "cbind m f = (case m of Inl e \<Rightarrow> Inl e | Inr x \<Rightarrow> f x)"

definition craise :: "bool \<Rightarrow> string \<Rightarrow> unit cres" where
  "craise b m = (if b then Inl (Raise m) else Inr ())"

definition cguard :: "bool \<Rightarrow> unit cres" where
  "cguard b = (if b then Inr () else Inl Undef)"

named_theorems cres_simps \<open>evaluation of results of C code\<close>

lemma cbind_Inr [simp, cres_simps]: "cbind (Inr x) f = f x"
  by (simp add: cbind_def)

lemma cbind_Inl [simp, cres_simps]: "cbind (Inl e) f = Inl e"
  by (simp add: cbind_def)

lemma craise_simps [simp, cres_simps]:
  "craise True m = Inl (Raise m)" "craise False m = Inr ()"
  by (simp_all add: craise_def)

lemma cguard_simps [simp, cres_simps]:
  "cguard True = Inr ()" "cguard False = Inl Undef"
  by (simp_all add: cguard_def)

lemma cbind_assoc: "cbind (cbind m f) g = cbind m (\<lambda>x. cbind (f x) g)"
  by (simp add: cbind_def split: sum.splits)

lemma cbind_eq_Inr_iff: "cbind m f = Inr y \<longleftrightarrow> (\<exists>x. m = Inr x \<and> f x = Inr y)"
  by (auto simp: cbind_def split: sum.splits)

lemma cbind_eq_Inl_iff: "cbind m f = Inl e \<longleftrightarrow> m = Inl e \<or> (\<exists>x. m = Inr x \<and> f x = Inl e)"
  by (auto simp: cbind_def split: sum.splits)

lemma cbind_cong [fundef_cong]:
  "m = m' \<Longrightarrow> (\<And>x. m' = Inr x \<Longrightarrow> f x = f' x) \<Longrightarrow> cbind m f = cbind m' f'"
  by (simp add: cbind_def split: sum.splits)

lemma craise_eq_Inr_iff [simp]: "craise b m = Inr u \<longleftrightarrow> \<not> b"
  by (simp add: craise_def)

lemma craise_not_Undef [simp]: "craise b m \<noteq> Inl Undef"
  by (simp add: craise_def)

lemma cguard_eq_Inr_iff [simp]: "cguard b = Inr u \<longleftrightarrow> b"
  by (simp add: cguard_def)

lemma cguard_eq_Undef_iff [simp]: "cguard b = Inl Undef \<longleftrightarrow> \<not> b"
  by (simp add: cguard_def)

text \<open>Memory safety composes: a sequence is free of undefined behaviour if its parts are.\<close>

lemma cbind_not_Undef:
  "m \<noteq> Inl Undef \<Longrightarrow> (\<And>x. m = Inr x \<Longrightarrow> f x \<noteq> Inl Undef) \<Longrightarrow> cbind m f \<noteq> Inl Undef"
  by (auto simp: cbind_def split: sum.splits)

text \<open>
  \<open>csafe m Q\<close>: \<open>m\<close> is free of undefined behaviour, and \<open>Q\<close> holds of the value if it
  delivers one. The rules push \<open>Q\<close> backwards through a sequence.
\<close>

definition csafe :: "'a cres \<Rightarrow> ('a \<Rightarrow> bool) \<Rightarrow> bool" where
  "csafe m Q = (case m of Inr x \<Rightarrow> Q x | Inl e \<Rightarrow> e \<noteq> Undef)"

lemma csafe_Inr [simp]: "csafe (Inr x) Q = Q x"
  by (simp add: csafe_def)

lemma csafe_Inl [simp]: "csafe (Inl e) Q \<longleftrightarrow> e \<noteq> Undef"
  by (simp add: csafe_def)

lemma csafe_cbind [simp]: "csafe (cbind m f) Q = csafe m (\<lambda>x. csafe (f x) Q)"
  by (simp add: csafe_def cbind_def split: sum.splits)

lemma csafe_craise [simp]: "csafe (craise b s) Q \<longleftrightarrow> b \<or> Q ()"
  by (simp add: craise_def)

lemma csafe_cguard [simp]: "csafe (cguard b) Q \<longleftrightarrow> b \<and> Q ()"
  by (simp add: cguard_def)

lemma csafe_mono: "csafe m P \<Longrightarrow> (\<And>x. P x \<Longrightarrow> Q x) \<Longrightarrow> csafe m Q"
  by (auto simp: csafe_def split: sum.splits)

lemma csafe_not_Undef: "csafe m (\<lambda>_. True) \<longleftrightarrow> m \<noteq> Inl Undef"
  by (auto simp: csafe_def split: sum.splits)

text \<open>
  \<open>cpost m E Q\<close> also restricts the error exits: \<open>m\<close> is free of undefined behaviour, raises only
  errors of \<open>E\<close>, and \<open>Q\<close> holds of its value if it delivers one.
\<close>

definition cpost :: "'a cres \<Rightarrow> string set \<Rightarrow> ('a \<Rightarrow> bool) \<Rightarrow> bool" where
  "cpost m E Q = (case m of Inr x \<Rightarrow> Q x | Inl Undef \<Rightarrow> False | Inl (Raise e) \<Rightarrow> e \<in> E)"

lemma cpost_Inr [simp]: "cpost (Inr x) E Q = Q x"
  by (simp add: cpost_def)

lemma cpost_Inl [simp]: "cpost (Inl Undef) E Q \<longleftrightarrow> False" "cpost (Inl (Raise e)) E Q \<longleftrightarrow> e \<in> E"
  by (simp_all add: cpost_def)

lemma cpost_cbind [simp]: "cpost (cbind m f) E Q = cpost m E (\<lambda>x. cpost (f x) E Q)"
  by (simp add: cpost_def cbind_def split: sum.splits cerr.splits)

lemma cpost_cguard [simp]: "cpost (cguard b) E Q \<longleftrightarrow> b \<and> Q ()"
  by (simp add: cguard_def)

lemma cpost_mono: "cpost m E P \<Longrightarrow> E \<subseteq> F \<Longrightarrow> (\<And>x. P x \<Longrightarrow> Q x) \<Longrightarrow> cpost m F Q"
  by (auto simp: cpost_def split: sum.splits cerr.splits)

lemma cpost_conj: "cpost m E P \<Longrightarrow> cpost m F Q \<Longrightarrow> cpost m E (\<lambda>x. P x \<and> Q x)"
  by (auto simp: cpost_def split: sum.splits cerr.splits)

lemma cpost_safe: "cpost m E Q \<Longrightarrow> m \<noteq> Inl Undef"
  by (auto simp: cpost_def)

section \<open>Little-endian words\<close>

lemma bit_byte_at:
  fixes v :: "'a::len word"
  shows "bit (push_bit k (ucast (ucast (drop_bit k v) :: byte)) :: 'b::len word) n
    \<longleftrightarrow> n < LENGTH('b) \<and> k \<le> n \<and> n < k + 8 \<and> bit v n"
  by (auto simp: bit_simps dest: bit_imp_le_length)

lemmas bit_byte_at0 = bit_byte_at [where k = 0, simplified]

lemma le16_round:
  fixes v :: "'a::len word"
  shows "(ucast (ucast v :: byte) :: 'b::len word) OR push_bit 8 (ucast (ucast (drop_bit 8 v) :: byte))
      = ucast (take_bit 16 v)"
  by (rule bit_word_eqI) (auto simp: bit_or_iff bit_byte_at bit_byte_at0 bit_take_bit_iff bit_unsigned_iff dest: bit_imp_le_length)

lemma le32_round:
  fixes v :: "'a::len word"
  shows "(ucast (ucast v :: byte) :: 'b::len word) OR push_bit 8 (ucast (ucast (drop_bit 8 v) :: byte))
      OR push_bit 16 (ucast (ucast (drop_bit 16 v) :: byte))
      OR push_bit 24 (ucast (ucast (drop_bit 24 v) :: byte)) = ucast (take_bit 32 v)"
  by (rule bit_word_eqI) (auto simp: bit_or_iff bit_byte_at bit_byte_at0 bit_take_bit_iff bit_unsigned_iff dest: bit_imp_le_length)

lemma le64_round:
  fixes v :: u64
  shows "(ucast (ucast v :: byte) :: u64) OR push_bit 8 (ucast (ucast (drop_bit 8 v) :: byte))
      OR push_bit 16 (ucast (ucast (drop_bit 16 v) :: byte))
      OR push_bit 24 (ucast (ucast (drop_bit 24 v) :: byte))
      OR push_bit 32 (ucast (ucast (drop_bit 32 v) :: byte))
      OR push_bit 40 (ucast (ucast (drop_bit 40 v) :: byte))
      OR push_bit 48 (ucast (ucast (drop_bit 48 v) :: byte))
      OR push_bit 56 (ucast (ucast (drop_bit 56 v) :: byte)) = v"
  by (rule bit_word_eqI) (auto simp: bit_or_iff bit_byte_at bit_byte_at0 bit_take_bit_iff bit_unsigned_iff dest: bit_imp_le_length)

lemma le64_halves:
  fixes v :: u64
  shows "(ucast (ucast v :: u32) :: u64) OR push_bit 32 (scast (ucast (drop_bit 32 v) :: u32)) = v"
proof (rule bit_word_eqI)
  fix n
  assume "n < LENGTH(64)"
  then have n: "n < 64" by simp
  have "min 31 (n - 32) = n - 32" using n by simp
  then have "bit (push_bit 32 (scast (ucast (drop_bit 32 v) :: u32) :: u64)) n \<longleftrightarrow> 32 \<le> n \<and> bit v n"
    using n by (auto simp: bit_simps)
  then show "bit ((ucast (ucast v :: u32) :: u64) OR push_bit 32 (scast (ucast (drop_bit 32 v) :: u32))) n
      \<longleftrightarrow> bit v n"
    using n by (auto simp: bit_or_iff bit_unsigned_iff not_le)
qed

section \<open>Casts and lengths\<close>

lemma take_bit_ucast_u32 [simp]: "(ucast (take_bit 32 (v :: 'a::len word)) :: u32) = ucast v"
  by (rule bit_word_eqI) (simp add: bit_simps)

lemma take_bit_u16 [simp]: "take_bit 16 (v :: u16) = v"
  by (rule bit_word_eqI) (auto simp: bit_simps dest: bit_imp_le_length)

lemma take_bit_u32 [simp]: "take_bit 32 (v :: u32) = v"
  by (rule bit_word_eqI) (auto simp: bit_simps dest: bit_imp_le_length)

lemma take_bit_u64 [simp]: "take_bit 64 (v :: u64) = v"
  by (rule bit_word_eqI) (auto simp: bit_simps dest: bit_imp_le_length)

lemma of_nat_unat_u32 [simp]: "(of_nat (unat (v :: 'a::len word)) :: u32) = ucast v"
  by (simp add: unsigned_of_nat)

lemma unat_bound_u32: "unat (v :: u32) < 2 ^ 32"
  using unsigned_less [of v, where 'a = nat] by simp

lemma ucast_ucast_u32 [simp]: "ucast (ucast (v :: u32) :: u64) = v"
  by (rule bit_word_eqI) (simp add: bit_simps)

lemma ucast_ucast_u16 [simp]: "ucast (ucast (v :: u16) :: u32) = v"
  by (rule bit_word_eqI) (simp add: bit_simps)

lemma unat_ucast_u16_u32 [simp]: "unat (ucast (v :: u16) :: u32) = unat v"
  by (simp add: unsigned_ucast_eq take_bit_nat_eq_self order_less_trans [OF unsigned_less])

lemma unat_ucast_u32_u64 [simp]: "unat (ucast (v :: u32) :: u64) = unat v"
  by (simp add: unsigned_ucast_eq take_bit_nat_eq_self order_less_trans [OF unsigned_less])

lemma of_nat_unat_u16 [simp]: "(of_nat (unat (v :: u16)) :: u16) = v"
  by simp

lemma take_Suc_update: "i < length xs \<Longrightarrow> take (Suc i) (xs[i := x]) = take i xs @ [x]"
  by (simp add: take_Suc_conv_app_nth)

lemma unat_len32: "n < 2 ^ 32 \<Longrightarrow> unat (of_nat n :: u32) = n"
  by (simp add: unat_of_nat)

lemma unat_len16: "n < 65536 \<Longrightarrow> unat (ucast (of_nat n :: u16) :: u32) = n"
  by (simp add: unat_of_nat)

lemma unat_take_bit_len: "n < 65536 \<Longrightarrow> unat (take_bit 16 (of_nat n :: u32)) = n"
  by (simp add: take_bit_eq_mod unat_mod unat_of_nat)

lemma take_Suc_drop:
  "i < length xs \<Longrightarrow> take (Suc k) (drop i xs) = xs ! i # take k (drop (Suc i) xs)"
  by (simp add: Cons_nth_drop_Suc [symmetric])

section \<open>Framing: an encoding read off the front of a byte stream\<close>

text \<open>
  The interface between a writer that appends encoded items to a byte stream and a reader
  that takes one item off its front. A codec that offers it is unambiguous: no two item
  sequences share a byte stream.
\<close>

locale framing =
  fixes enc :: "'a \<Rightarrow> byte list"
    and dec :: "byte list \<Rightarrow> ('a \<times> byte list) option"
    and ok :: "'a \<Rightarrow> bool"
  assumes dec_enc: "ok x \<Longrightarrow> dec (enc x @ p) = Some (x, p)"
    and enc_nonempty: "ok x \<Longrightarrow> enc x \<noteq> []"
begin

lemma enc_unique:
  assumes "ok x" and "ok y" and "enc x @ p = enc y @ q"
  shows "x = y \<and> p = q"
proof -
  have "Some (x, p) = Some (y, q)"
    using dec_enc [OF assms(1), of p] dec_enc [OF assms(2), of q] unfolding assms(3) by simp
  then show ?thesis by simp
qed

lemma stream_unique:
  assumes "list_all ok xs" and "list_all ok ys" and "concat (map enc xs) = concat (map enc ys)"
  shows "xs = ys"
  using assms
proof (induction xs arbitrary: ys)
  case Nil
  then show ?case by (cases ys) (auto dest: enc_nonempty)
next
  case (Cons x xs)
  then obtain y zs where ys: "ys = y # zs"
    by (cases ys) (auto dest: enc_nonempty)
  with Cons.prems have "x = y \<and> concat (map enc xs) = concat (map enc zs)"
    by (intro enc_unique) simp_all
  with Cons ys show ?case by simp
qed

end

end
