(* ===== verification/Styx_Wire.thy ===== *)
theory Styx_Wire
  imports Inferno_Prelude
begin

text \<open>
  The Styx (9P2000) message codec of \<^verbatim>\<open>src/lib9/convM2S.c\<close> and
  \<^verbatim>\<open>src/lib9/convS2M.c\<close>, with the structures and macros of \<^verbatim>\<open>src/include/fcall.h\<close>.
\<close>

section \<open>Structures\<close>

record qid =
  q_path :: u64
  q_vers :: u32
  q_type :: byte

text \<open>A \<open>char*\<close> is \<open>None\<close> for nil, else the bytes before the terminating NUL.\<close>

type_synonym cstr = "byte list option"

record fcall =
  fc_type :: byte
  fc_fid :: u64
  fc_tag :: u16
  fc_msize :: u64
  fc_version :: cstr
  fc_oldtag :: u16
  fc_ename :: cstr
  fc_qid :: qid
  fc_iounit :: u64
  fc_aqid :: qid
  fc_afid :: u64
  fc_uname :: cstr
  fc_aname :: cstr
  fc_perm :: u64
  fc_name :: cstr
  fc_mode :: byte
  fc_newfid :: u64
  fc_nwname :: u16
  fc_wname :: "cstr list"
  fc_nwqid :: u16
  fc_wqid :: "qid list"
  fc_offset :: u64
  fc_count :: u64
  fc_data :: "byte list"
  fc_nstat :: u16
  fc_stat :: "byte list"

definition MAXWELEM :: nat where "MAXWELEM = 16"

abbreviation Tversion :: byte where "Tversion \<equiv> 100"
abbreviation Rversion :: byte where "Rversion \<equiv> 101"
abbreviation Tauth :: byte where "Tauth \<equiv> 102"
abbreviation Rauth :: byte where "Rauth \<equiv> 103"
abbreviation Tattach :: byte where "Tattach \<equiv> 104"
abbreviation Rattach :: byte where "Rattach \<equiv> 105"
abbreviation Rerror :: byte where "Rerror \<equiv> 107"
abbreviation Tflush :: byte where "Tflush \<equiv> 108"
abbreviation Rflush :: byte where "Rflush \<equiv> 109"
abbreviation Twalk :: byte where "Twalk \<equiv> 110"
abbreviation Rwalk :: byte where "Rwalk \<equiv> 111"
abbreviation Topen :: byte where "Topen \<equiv> 112"
abbreviation Ropen :: byte where "Ropen \<equiv> 113"
abbreviation Tcreate :: byte where "Tcreate \<equiv> 114"
abbreviation Rcreate :: byte where "Rcreate \<equiv> 115"
abbreviation Tread :: byte where "Tread \<equiv> 116"
abbreviation Rread :: byte where "Rread \<equiv> 117"
abbreviation Twrite :: byte where "Twrite \<equiv> 118"
abbreviation Rwrite :: byte where "Rwrite \<equiv> 119"
abbreviation Tclunk :: byte where "Tclunk \<equiv> 120"
abbreviation Rclunk :: byte where "Rclunk \<equiv> 121"
abbreviation Tremove :: byte where "Tremove \<equiv> 122"
abbreviation Rremove :: byte where "Rremove \<equiv> 123"
abbreviation Tstat :: byte where "Tstat \<equiv> 124"
abbreviation Rstat :: byte where "Rstat \<equiv> 125"
abbreviation Twstat :: byte where "Twstat \<equiv> 126"
abbreviation Rwstat :: byte where "Rwstat \<equiv> 127"

section \<open>Field macros\<close>

definition PBIT8 :: "'a::len word \<Rightarrow> byte list" where
  "PBIT8 v = [ucast v]"

definition PBIT16 :: "'a::len word \<Rightarrow> byte list" where
  "PBIT16 v = [ucast v, ucast (drop_bit 8 v)]"

definition PBIT32 :: "'a::len word \<Rightarrow> byte list" where
  "PBIT32 v = [ucast v, ucast (drop_bit 8 v), ucast (drop_bit 16 v), ucast (drop_bit 24 v)]"

definition PBIT64 :: "'a::len word \<Rightarrow> byte list" where
  "PBIT64 v = [ucast v, ucast (drop_bit 8 v), ucast (drop_bit 16 v), ucast (drop_bit 24 v),
     ucast (drop_bit 32 v), ucast (drop_bit 40 v), ucast (drop_bit 48 v), ucast (drop_bit 56 v)]"

text \<open>
  A buffer being parsed is split at the C pointer \<open>p\<close>: the bytes of the buffer before \<open>p\<close>
  and the bytes from \<open>p\<close> to \<open>ep\<close>. A \<open>GBIT\<close> together with the advance of \<open>p\<close> that
  follows it moves bytes over; reading at or past \<open>ep\<close> is undefined.
\<close>

type_synonym cursor = "byte list \<times> byte list"

fun GBIT8 :: "cursor \<Rightarrow> (byte \<times> cursor) cres" where
  "GBIT8 (d, a # p) = Inr (a, (d @ [a], p))"
| "GBIT8 _ = Inl Undef"

fun GBIT16 :: "cursor \<Rightarrow> (u32 \<times> cursor) cres" where
  "GBIT16 (d, a # b # p) = Inr (ucast a OR push_bit 8 (ucast b), (d @ [a, b], p))"
| "GBIT16 _ = Inl Undef"

fun GBIT32 :: "cursor \<Rightarrow> (u32 \<times> cursor) cres" where
  "GBIT32 (d, a # b # e # f # p) =
     Inr (ucast a OR push_bit 8 (ucast b) OR push_bit 16 (ucast e) OR push_bit 24 (ucast f),
          (d @ [a, b, e, f], p))"
| "GBIT32 _ = Inl Undef"

fun GBIT64 :: "cursor \<Rightarrow> (u64 \<times> cursor) cres" where
  "GBIT64 (d, a # b # e # f # g # h # i # j # p) =
     Inr (ucast (ucast a OR push_bit 8 (ucast b) OR push_bit 16 (ucast e) OR push_bit 24 (ucast f) :: u32)
       OR push_bit 32 (scast (ucast g OR push_bit 8 (ucast h) OR push_bit 16 (ucast i) OR push_bit 24 (ucast j) :: u32)),
          (d @ [a, b, e, f, g, h, i, j], p))"
| "GBIT64 _ = Inl Undef"

text \<open>\<open>if(p+n > ep) return 0\<close>\<close>

definition need :: "nat \<Rightarrow> cursor \<Rightarrow> unit cres" where
  "need n c = craise (length (snd c) < n) ''0''"

section \<open>Parsing: convM2S\<close>

text \<open>
  \<open>gstring\<close> moves the string down over the second byte of its count, so that there is room
  for the NUL, and hands out a pointer to the moved bytes.
\<close>

definition gstring :: "cursor \<Rightarrow> (byte list \<times> cursor) cres" where
  "gstring c = cbind (need 2 c) (\<lambda>_. cbind (GBIT16 c) (\<lambda>(n, (d, p)).
     if length p < unat n then Inl (Raise ''0'')
     else Inr (takeWhile (\<lambda>b. b \<noteq> 0) (take (unat n) p),
               (butlast d @ take (unat n) p @ [0], drop (unat n) p))))"

definition gqid :: "cursor \<Rightarrow> (qid \<times> cursor) cres" where
  "gqid c = cbind (need 13 c) (\<lambda>_. cbind (GBIT8 c) (\<lambda>(t, c). cbind (GBIT32 c) (\<lambda>(v, c).
     cbind (GBIT64 c) (\<lambda>(pa, c). Inr (\<lparr>q_path = pa, q_vers = v, q_type = t\<rparr>, c)))))"

text \<open>The loop over \<open>f->wname[i]\<close>: \<open>k\<close> names left, the next one stored at index \<open>i\<close>.\<close>

fun gwname :: "nat \<Rightarrow> nat \<Rightarrow> fcall \<Rightarrow> cursor \<Rightarrow> (fcall \<times> cursor) cres" where
  "gwname 0 i f c = Inr (f, c)"
| "gwname (Suc k) i f c = cbind (cguard (i < length (fc_wname f))) (\<lambda>_. cbind (gstring c) (\<lambda>(s, c).
     gwname k (Suc i) (f\<lparr>fc_wname := (fc_wname f)[i := Some s]\<rparr>) c))"

fun gwqid :: "nat \<Rightarrow> nat \<Rightarrow> fcall \<Rightarrow> cursor \<Rightarrow> (fcall \<times> cursor) cres" where
  "gwqid 0 i f c = Inr (f, c)"
| "gwqid (Suc k) i f c = cbind (cguard (i < length (fc_wqid f))) (\<lambda>_. cbind (gqid c) (\<lambda>(q, c).
     gwqid k (Suc i) (f\<lparr>fc_wqid := (fc_wqid f)[i := q]\<rparr>) c))"

text \<open>\<open>f->data = p; p += n\<close>, after \<open>if(p+n > ep) return 0\<close>.\<close>

definition gbytes :: "nat \<Rightarrow> cursor \<Rightarrow> (byte list \<times> cursor) cres" where
  "gbytes n c = (case c of (d, p) \<Rightarrow>
     if length p < n then Inl (Raise ''0'') else Inr (take n p, (d @ take n p, drop n p)))"

definition convM2S_T :: "fcall \<Rightarrow> cursor \<Rightarrow> (fcall \<times> cursor) cres" where
  "convM2S_T f c =
    (if fc_type f = Tversion then
       cbind (need 4 c) (\<lambda>_. cbind (GBIT32 c) (\<lambda>(v, c). cbind (gstring c) (\<lambda>(s, c).
         Inr (f\<lparr>fc_msize := ucast v, fc_version := Some s\<rparr>, c))))
     else if fc_type f = Tflush then
       cbind (need 2 c) (\<lambda>_. cbind (GBIT16 c) (\<lambda>(v, c). Inr (f\<lparr>fc_oldtag := ucast v\<rparr>, c)))
     else if fc_type f = Tauth then
       cbind (need 4 c) (\<lambda>_. cbind (GBIT32 c) (\<lambda>(v, c). cbind (gstring c) (\<lambda>(s, c).
         cbind (gstring c) (\<lambda>(t, c).
         Inr (f\<lparr>fc_afid := ucast v, fc_uname := Some s, fc_aname := Some t\<rparr>, c)))))
     else if fc_type f = Tattach then
       cbind (need 4 c) (\<lambda>_. cbind (GBIT32 c) (\<lambda>(v, c). cbind (need 4 c) (\<lambda>_. cbind (GBIT32 c) (\<lambda>(w, c).
         cbind (gstring c) (\<lambda>(s, c). cbind (gstring c) (\<lambda>(t, c).
         Inr (f\<lparr>fc_fid := ucast v, fc_afid := ucast w, fc_uname := Some s, fc_aname := Some t\<rparr>, c)))))))
     else if fc_type f = Twalk then
       cbind (need 10 c) (\<lambda>_. cbind (GBIT32 c) (\<lambda>(v, c). cbind (GBIT32 c) (\<lambda>(w, c). cbind (GBIT16 c) (\<lambda>(n, c).
         cbind (craise (MAXWELEM < unat n) ''0'') (\<lambda>_.
         gwname (unat n) 0 (f\<lparr>fc_fid := ucast v, fc_newfid := ucast w, fc_nwname := ucast n\<rparr>) c)))))
     else if fc_type f = Topen then
       cbind (need 5 c) (\<lambda>_. cbind (GBIT32 c) (\<lambda>(v, c). cbind (GBIT8 c) (\<lambda>(m, c).
         Inr (f\<lparr>fc_fid := ucast v, fc_mode := m\<rparr>, c))))
     else if fc_type f = Tcreate then
       cbind (need 4 c) (\<lambda>_. cbind (GBIT32 c) (\<lambda>(v, c). cbind (gstring c) (\<lambda>(s, c).
         cbind (need 5 c) (\<lambda>_. cbind (GBIT32 c) (\<lambda>(w, c). cbind (GBIT8 c) (\<lambda>(m, c).
         Inr (f\<lparr>fc_fid := ucast v, fc_name := Some s, fc_perm := ucast w, fc_mode := m\<rparr>, c)))))))
     else if fc_type f = Tread then
       cbind (need 16 c) (\<lambda>_. cbind (GBIT32 c) (\<lambda>(v, c). cbind (GBIT64 c) (\<lambda>(w, c). cbind (GBIT32 c) (\<lambda>(n, c).
         Inr (f\<lparr>fc_fid := ucast v, fc_offset := w, fc_count := ucast n\<rparr>, c)))))
     else if fc_type f = Twrite then
       cbind (need 16 c) (\<lambda>_. cbind (GBIT32 c) (\<lambda>(v, c). cbind (GBIT64 c) (\<lambda>(w, c). cbind (GBIT32 c) (\<lambda>(n, c).
         cbind (gbytes (unat n) c) (\<lambda>(bs, c).
         Inr (f\<lparr>fc_fid := ucast v, fc_offset := w, fc_count := ucast n, fc_data := bs\<rparr>, c))))))
     else if fc_type f = Tclunk \<or> fc_type f = Tremove then
       cbind (need 4 c) (\<lambda>_. cbind (GBIT32 c) (\<lambda>(v, c). Inr (f\<lparr>fc_fid := ucast v\<rparr>, c)))
     else if fc_type f = Tstat then
       cbind (need 4 c) (\<lambda>_. cbind (GBIT32 c) (\<lambda>(v, c). Inr (f\<lparr>fc_fid := ucast v\<rparr>, c)))
     else if fc_type f = Twstat then
       cbind (need 6 c) (\<lambda>_. cbind (GBIT32 c) (\<lambda>(v, c). cbind (GBIT16 c) (\<lambda>(n, c).
         cbind (gbytes (unat n) c) (\<lambda>(bs, c).
         Inr (f\<lparr>fc_fid := ucast v, fc_nstat := ucast n, fc_stat := bs\<rparr>, c)))))
     else Inl (Raise ''0''))"

definition convM2S_R :: "fcall \<Rightarrow> cursor \<Rightarrow> (fcall \<times> cursor) cres" where
  "convM2S_R f c =
    (if fc_type f = Rversion then
       cbind (need 4 c) (\<lambda>_. cbind (GBIT32 c) (\<lambda>(v, c). cbind (gstring c) (\<lambda>(s, c).
         Inr (f\<lparr>fc_msize := ucast v, fc_version := Some s\<rparr>, c))))
     else if fc_type f = Rerror then
       cbind (gstring c) (\<lambda>(s, c). Inr (f\<lparr>fc_ename := Some s\<rparr>, c))
     else if fc_type f = Rflush then Inr (f, c)
     else if fc_type f = Rauth then
       cbind (gqid c) (\<lambda>(q, c). Inr (f\<lparr>fc_aqid := q\<rparr>, c))
     else if fc_type f = Rattach then
       cbind (gqid c) (\<lambda>(q, c). Inr (f\<lparr>fc_qid := q\<rparr>, c))
     else if fc_type f = Rwalk then
       cbind (need 2 c) (\<lambda>_. cbind (GBIT16 c) (\<lambda>(n, c).
         cbind (craise (MAXWELEM < unat n) ''0'') (\<lambda>_. gwqid (unat n) 0 (f\<lparr>fc_nwqid := ucast n\<rparr>) c)))
     else if fc_type f = Ropen \<or> fc_type f = Rcreate then
       cbind (gqid c) (\<lambda>(q, c). cbind (need 4 c) (\<lambda>_. cbind (GBIT32 c) (\<lambda>(v, c).
         Inr (f\<lparr>fc_qid := q, fc_iounit := ucast v\<rparr>, c))))
     else if fc_type f = Rread then
       cbind (need 4 c) (\<lambda>_. cbind (GBIT32 c) (\<lambda>(n, c). cbind (gbytes (unat n) c) (\<lambda>(bs, c).
         Inr (f\<lparr>fc_count := ucast n, fc_data := bs\<rparr>, c))))
     else if fc_type f = Rwrite then
       cbind (need 4 c) (\<lambda>_. cbind (GBIT32 c) (\<lambda>(n, c). Inr (f\<lparr>fc_count := ucast n\<rparr>, c)))
     else if fc_type f = Rclunk \<or> fc_type f = Rremove then Inr (f, c)
     else if fc_type f = Rstat then
       cbind (need 2 c) (\<lambda>_. cbind (GBIT16 c) (\<lambda>(n, c). cbind (gbytes (unat n) c) (\<lambda>(bs, c).
         Inr (f\<lparr>fc_nstat := ucast n, fc_stat := bs\<rparr>, c))))
     else if fc_type f = Rwstat then Inr (f, c)
     else convM2S_T f c)"

text \<open>
  \<open>convM2S(ap, nap, f)\<close> on the \<open>nap\<close> bytes \<open>buf\<close> at \<open>ap\<close>: the message size, the updated
  \<open>*f\<close> and the buffer as the parser leaves it. \<open>Raise ''0''\<close> is the return value 0.
\<close>

definition convM2S :: "byte list \<Rightarrow> fcall \<Rightarrow> (u32 \<times> fcall \<times> byte list) cres" where
  "convM2S buf f =
     cbind (need 7 ([], buf)) (\<lambda>_. cbind (GBIT32 ([], buf)) (\<lambda>(size, c).
     cbind (craise (size < 7) ''0'') (\<lambda>_. cbind (GBIT8 c) (\<lambda>(ty, c). cbind (GBIT16 c) (\<lambda>(tg, c).
     cbind (convM2S_R (f\<lparr>fc_type := ty, fc_tag := ucast tg\<rparr>) c) (\<lambda>(f, (d, p)).
     if unat size = length d then Inr (size, f, d @ p) else Inl (Raise ''0'')))))))"

section \<open>Printing: sizeS2M and convS2M\<close>

definition pstring :: "cstr \<Rightarrow> byte list" where
  "pstring s = (case s of None \<Rightarrow> PBIT16 (0 :: u32)
     | Some s \<Rightarrow> PBIT16 (of_nat (length s) :: u32) @ s)"

definition pqid :: "qid \<Rightarrow> byte list" where
  "pqid q = PBIT8 (q_type q) @ PBIT32 (q_vers q) @ PBIT64 (q_path q)"

definition stringsz :: "cstr \<Rightarrow> u32" where
  "stringsz s = (case s of None \<Rightarrow> 2 | Some s \<Rightarrow> 2 + of_nat (length s))"

text \<open>The loop of \<open>sizeS2M\<close> over \<open>f->wname[i]\<close>, \<open>k\<close> names left.\<close>

fun wnamesz :: "nat \<Rightarrow> nat \<Rightarrow> cstr list \<Rightarrow> u32 \<Rightarrow> u32 cres" where
  "wnamesz 0 i ws n = Inr n"
| "wnamesz (Suc k) i ws n = cbind (cguard (i < length ws)) (\<lambda>_.
     wnamesz k (Suc i) ws (n + stringsz (ws ! i)))"

definition sizeS2M :: "fcall \<Rightarrow> u32 cres" where
  "sizeS2M f = (let n = 4 + 1 + 2 in
     if fc_type f = Tversion then Inr (n + 4 + stringsz (fc_version f))
     else if fc_type f = Tflush then Inr (n + 2)
     else if fc_type f = Tauth then Inr (n + 4 + stringsz (fc_uname f) + stringsz (fc_aname f))
     else if fc_type f = Tattach then
       Inr (n + 4 + 4 + stringsz (fc_uname f) + stringsz (fc_aname f))
     else if fc_type f = Twalk then wnamesz (unat (fc_nwname f)) 0 (fc_wname f) (n + 4 + 4 + 2)
     else if fc_type f = Topen then Inr (n + 4 + 1)
     else if fc_type f = Tcreate then Inr (n + 4 + stringsz (fc_name f) + 4 + 1)
     else if fc_type f = Tread then Inr (n + 4 + 8 + 4)
     else if fc_type f = Twrite then Inr (n + 4 + 8 + 4 + ucast (fc_count f))
     else if fc_type f = Tclunk \<or> fc_type f = Tremove then Inr (n + 4)
     else if fc_type f = Tstat then Inr (n + 4)
     else if fc_type f = Twstat then Inr (n + 4 + 2 + ucast (fc_nstat f))
     else if fc_type f = Rversion then Inr (n + 4 + stringsz (fc_version f))
     else if fc_type f = Rerror then Inr (n + stringsz (fc_ename f))
     else if fc_type f = Rflush then Inr n
     else if fc_type f = Rauth then Inr (n + 13)
     else if fc_type f = Rattach then Inr (n + 13)
     else if fc_type f = Rwalk then Inr (n + 2 + ucast (fc_nwqid f) * 13)
     else if fc_type f = Ropen \<or> fc_type f = Rcreate then Inr (n + 13 + 4)
     else if fc_type f = Rread then Inr (n + 4 + ucast (fc_count f))
     else if fc_type f = Rwrite then Inr (n + 4)
     else if fc_type f = Rclunk then Inr n
     else if fc_type f = Rremove then Inr n
     else if fc_type f = Rstat then Inr (n + 2 + ucast (fc_nstat f))
     else if fc_type f = Rwstat then Inr n
     else Inr 0)"

text \<open>The loops of \<open>convS2M\<close>, and \<open>memmove(p, src, n)\<close> of the \<open>n\<close> bytes at \<open>src\<close>.\<close>

fun pwname :: "nat \<Rightarrow> nat \<Rightarrow> cstr list \<Rightarrow> byte list cres" where
  "pwname 0 i ws = Inr []"
| "pwname (Suc k) i ws = cbind (cguard (i < length ws)) (\<lambda>_.
     cbind (pwname k (Suc i) ws) (\<lambda>r. Inr (pstring (ws ! i) @ r)))"

fun pwqid :: "nat \<Rightarrow> nat \<Rightarrow> qid list \<Rightarrow> byte list cres" where
  "pwqid 0 i qs = Inr []"
| "pwqid (Suc k) i qs = cbind (cguard (i < length qs)) (\<lambda>_.
     cbind (pwqid k (Suc i) qs) (\<lambda>r. Inr (pqid (qs ! i) @ r)))"

definition pbytes :: "byte list \<Rightarrow> nat \<Rightarrow> byte list cres" where
  "pbytes src n = cbind (cguard (n \<le> length src)) (\<lambda>_. Inr (take n src))"

definition convS2M_T :: "fcall \<Rightarrow> byte list cres" where
  "convS2M_T f =
    (if fc_type f = Tversion then Inr (PBIT32 (fc_msize f) @ pstring (fc_version f))
     else if fc_type f = Tflush then Inr (PBIT16 (fc_oldtag f))
     else if fc_type f = Tauth then
       Inr (PBIT32 (fc_afid f) @ pstring (fc_uname f) @ pstring (fc_aname f))
     else if fc_type f = Tattach then
       Inr (PBIT32 (fc_fid f) @ PBIT32 (fc_afid f) @ pstring (fc_uname f) @ pstring (fc_aname f))
     else if fc_type f = Twalk then
       cbind (craise (MAXWELEM < unat (fc_nwname f)) ''0'') (\<lambda>_.
       cbind (pwname (unat (fc_nwname f)) 0 (fc_wname f)) (\<lambda>r.
       Inr (PBIT32 (fc_fid f) @ PBIT32 (fc_newfid f) @ PBIT16 (fc_nwname f) @ r)))
     else if fc_type f = Topen then Inr (PBIT32 (fc_fid f) @ PBIT8 (fc_mode f))
     else if fc_type f = Tcreate then
       Inr (PBIT32 (fc_fid f) @ pstring (fc_name f) @ PBIT32 (fc_perm f) @ PBIT8 (fc_mode f))
     else if fc_type f = Tread then
       Inr (PBIT32 (fc_fid f) @ PBIT64 (fc_offset f) @ PBIT32 (fc_count f))
     else if fc_type f = Twrite then
       cbind (pbytes (fc_data f) (unat (fc_count f))) (\<lambda>r.
       Inr (PBIT32 (fc_fid f) @ PBIT64 (fc_offset f) @ PBIT32 (fc_count f) @ r))
     else if fc_type f = Tclunk \<or> fc_type f = Tremove then Inr (PBIT32 (fc_fid f))
     else if fc_type f = Tstat then Inr (PBIT32 (fc_fid f))
     else if fc_type f = Twstat then
       cbind (pbytes (fc_stat f) (unat (fc_nstat f))) (\<lambda>r.
       Inr (PBIT32 (fc_fid f) @ PBIT16 (fc_nstat f) @ r))
     else Inl (Raise ''0''))"

definition convS2M_R :: "fcall \<Rightarrow> byte list cres" where
  "convS2M_R f =
    (if fc_type f = Rversion then Inr (PBIT32 (fc_msize f) @ pstring (fc_version f))
     else if fc_type f = Rerror then Inr (pstring (fc_ename f))
     else if fc_type f = Rflush then Inr []
     else if fc_type f = Rauth then Inr (pqid (fc_aqid f))
     else if fc_type f = Rattach then Inr (pqid (fc_qid f))
     else if fc_type f = Rwalk then
       cbind (craise (MAXWELEM < unat (fc_nwqid f)) ''0'') (\<lambda>_.
       cbind (pwqid (unat (fc_nwqid f)) 0 (fc_wqid f)) (\<lambda>r. Inr (PBIT16 (fc_nwqid f) @ r)))
     else if fc_type f = Ropen \<or> fc_type f = Rcreate then
       Inr (pqid (fc_qid f) @ PBIT32 (fc_iounit f))
     else if fc_type f = Rread then
       cbind (pbytes (fc_data f) (unat (fc_count f))) (\<lambda>r. Inr (PBIT32 (fc_count f) @ r))
     else if fc_type f = Rwrite then Inr (PBIT32 (fc_count f))
     else if fc_type f = Rclunk then Inr []
     else if fc_type f = Rremove then Inr []
     else if fc_type f = Rstat then
       cbind (pbytes (fc_stat f) (unat (fc_nstat f))) (\<lambda>r. Inr (PBIT16 (fc_nstat f) @ r))
     else if fc_type f = Rwstat then Inr []
     else convS2M_T f)"

text \<open>
  \<open>convS2M(f, ap, nap)\<close>: the bytes stored at \<open>ap\<close> when the routine returns their number.
  Storing past \<open>ap+nap\<close> is undefined; \<open>Raise ''0''\<close> is the return value 0.
\<close>

definition convS2M :: "fcall \<Rightarrow> u32 \<Rightarrow> byte list cres" where
  "convS2M f nap = cbind (sizeS2M f) (\<lambda>size.
     if size = 0 \<or> nap < size then Inl (Raise ''0'')
     else cbind (convS2M_R f) (\<lambda>body.
       let out = PBIT32 size @ PBIT8 (fc_type f) @ PBIT16 (fc_tag f) @ body in
       cbind (cguard (length out \<le> unat nap)) (\<lambda>_.
       if unat size \<noteq> length out then Inl (Raise ''0'') else Inr out)))"

section \<open>The messages of the protocol\<close>

text \<open>
  What a Styx message is, free of the C representation: identifiers at their width on the
  wire, strings and payloads as byte lists.
\<close>

datatype smsg =
    MTversion u32 "byte list" | MTflush u16 | MTauth u32 "byte list" "byte list"
  | MTattach u32 u32 "byte list" "byte list" | MTwalk u32 u32 "byte list list"
  | MTopen u32 byte | MTcreate u32 "byte list" u32 byte | MTread u32 u64 u32
  | MTwrite u32 u64 "byte list" | MTclunk u32 | MTremove u32 | MTstat u32
  | MTwstat u32 "byte list"
  | MRversion u32 "byte list" | MRerror "byte list" | MRflush | MRauth qid | MRattach qid
  | MRwalk "qid list" | MRopen qid u32 | MRcreate qid u32 | MRread "byte list" | MRwrite u32
  | MRclunk | MRremove | MRstat "byte list" | MRwstat

definition str :: "cstr \<Rightarrow> byte list" where
  "str s = (case s of None \<Rightarrow> [] | Some s \<Rightarrow> s)"

definition smsg_of :: "fcall \<Rightarrow> smsg option" where
  "smsg_of f =
    (if fc_type f = Tversion then Some (MTversion (ucast (fc_msize f)) (str (fc_version f)))
     else if fc_type f = Tflush then Some (MTflush (fc_oldtag f))
     else if fc_type f = Tauth then
       Some (MTauth (ucast (fc_afid f)) (str (fc_uname f)) (str (fc_aname f)))
     else if fc_type f = Tattach then
       Some (MTattach (ucast (fc_fid f)) (ucast (fc_afid f)) (str (fc_uname f)) (str (fc_aname f)))
     else if fc_type f = Twalk then
       Some (MTwalk (ucast (fc_fid f)) (ucast (fc_newfid f))
         (map str (take (unat (fc_nwname f)) (fc_wname f))))
     else if fc_type f = Topen then Some (MTopen (ucast (fc_fid f)) (fc_mode f))
     else if fc_type f = Tcreate then
       Some (MTcreate (ucast (fc_fid f)) (str (fc_name f)) (ucast (fc_perm f)) (fc_mode f))
     else if fc_type f = Tread then
       Some (MTread (ucast (fc_fid f)) (fc_offset f) (ucast (fc_count f)))
     else if fc_type f = Twrite then
       Some (MTwrite (ucast (fc_fid f)) (fc_offset f) (take (unat (fc_count f)) (fc_data f)))
     else if fc_type f = Tclunk then Some (MTclunk (ucast (fc_fid f)))
     else if fc_type f = Tremove then Some (MTremove (ucast (fc_fid f)))
     else if fc_type f = Tstat then Some (MTstat (ucast (fc_fid f)))
     else if fc_type f = Twstat then
       Some (MTwstat (ucast (fc_fid f)) (take (unat (fc_nstat f)) (fc_stat f)))
     else if fc_type f = Rversion then Some (MRversion (ucast (fc_msize f)) (str (fc_version f)))
     else if fc_type f = Rerror then Some (MRerror (str (fc_ename f)))
     else if fc_type f = Rflush then Some MRflush
     else if fc_type f = Rauth then Some (MRauth (fc_aqid f))
     else if fc_type f = Rattach then Some (MRattach (fc_qid f))
     else if fc_type f = Rwalk then Some (MRwalk (take (unat (fc_nwqid f)) (fc_wqid f)))
     else if fc_type f = Ropen then Some (MRopen (fc_qid f) (ucast (fc_iounit f)))
     else if fc_type f = Rcreate then Some (MRcreate (fc_qid f) (ucast (fc_iounit f)))
     else if fc_type f = Rread then Some (MRread (take (unat (fc_count f)) (fc_data f)))
     else if fc_type f = Rwrite then Some (MRwrite (ucast (fc_count f)))
     else if fc_type f = Rclunk then Some MRclunk
     else if fc_type f = Rremove then Some MRremove
     else if fc_type f = Rstat then Some (MRstat (take (unat (fc_nstat f)) (fc_stat f)))
     else if fc_type f = Rwstat then Some MRwstat
     else None)"

fun mtype :: "smsg \<Rightarrow> byte" where
  "mtype (MTversion _ _) = Tversion" | "mtype (MTflush _) = Tflush" | "mtype (MTauth _ _ _) = Tauth"
| "mtype (MTattach _ _ _ _) = Tattach" | "mtype (MTwalk _ _ _) = Twalk" | "mtype (MTopen _ _) = Topen"
| "mtype (MTcreate _ _ _ _) = Tcreate" | "mtype (MTread _ _ _) = Tread" | "mtype (MTwrite _ _ _) = Twrite"
| "mtype (MTclunk _) = Tclunk" | "mtype (MTremove _) = Tremove" | "mtype (MTstat _) = Tstat"
| "mtype (MTwstat _ _) = Twstat" | "mtype (MRversion _ _) = Rversion" | "mtype (MRerror _) = Rerror"
| "mtype MRflush = Rflush" | "mtype (MRauth _) = Rauth" | "mtype (MRattach _) = Rattach"
| "mtype (MRwalk _) = Rwalk" | "mtype (MRopen _ _) = Ropen" | "mtype (MRcreate _ _) = Rcreate"
| "mtype (MRread _) = Rread" | "mtype (MRwrite _) = Rwrite" | "mtype MRclunk = Rclunk"
| "mtype MRremove = Rremove" | "mtype (MRstat _) = Rstat" | "mtype MRwstat = Rwstat"

abbreviation wstr :: "byte list \<Rightarrow> byte list" where "wstr s \<equiv> pstring (Some s)"
abbreviation wlen16 :: "'a list \<Rightarrow> byte list" where "wlen16 xs \<equiv> PBIT16 (of_nat (length xs) :: u16)"
abbreviation wlen32 :: "'a list \<Rightarrow> byte list" where "wlen32 xs \<equiv> PBIT32 (of_nat (length xs) :: u32)"

fun mbody :: "smsg \<Rightarrow> byte list" where
  "mbody (MTversion m v) = PBIT32 m @ wstr v"
| "mbody (MTflush t) = PBIT16 t"
| "mbody (MTauth a u n) = PBIT32 a @ wstr u @ wstr n"
| "mbody (MTattach f a u n) = PBIT32 f @ PBIT32 a @ wstr u @ wstr n"
| "mbody (MTwalk f g ws) = PBIT32 f @ PBIT32 g @ wlen16 ws @ concat (map wstr ws)"
| "mbody (MTopen f m) = PBIT32 f @ PBIT8 m"
| "mbody (MTcreate f n p m) = PBIT32 f @ wstr n @ PBIT32 p @ PBIT8 m"
| "mbody (MTread f a n) = PBIT32 f @ PBIT64 a @ PBIT32 n"
| "mbody (MTwrite f a bs) = PBIT32 f @ PBIT64 a @ wlen32 bs @ bs"
| "mbody (MTclunk f) = PBIT32 f"
| "mbody (MTremove f) = PBIT32 f"
| "mbody (MTstat f) = PBIT32 f"
| "mbody (MTwstat f bs) = PBIT32 f @ wlen16 bs @ bs"
| "mbody (MRversion m v) = PBIT32 m @ wstr v"
| "mbody (MRerror e) = wstr e"
| "mbody MRflush = []"
| "mbody (MRauth q) = pqid q"
| "mbody (MRattach q) = pqid q"
| "mbody (MRwalk qs) = wlen16 qs @ concat (map pqid qs)"
| "mbody (MRopen q u) = pqid q @ PBIT32 u"
| "mbody (MRcreate q u) = pqid q @ PBIT32 u"
| "mbody (MRread bs) = wlen32 bs @ bs"
| "mbody (MRwrite n) = PBIT32 n"
| "mbody MRclunk = []"
| "mbody MRremove = []"
| "mbody (MRstat bs) = wlen16 bs @ bs"
| "mbody MRwstat = []"

definition wire :: "u16 \<Rightarrow> smsg \<Rightarrow> byte list" where
  "wire t m = PBIT32 (of_nat (7 + length (mbody m)) :: u32) @ PBIT8 (mtype m) @ PBIT16 t @ mbody m"

definition str_ok :: "byte list \<Rightarrow> bool" where
  "str_ok s \<longleftrightarrow> length s < 65536 \<and> 0 \<notin> set s"

fun fields_ok :: "smsg \<Rightarrow> bool" where
  "fields_ok (MTversion m v) = str_ok v"
| "fields_ok (MTauth a u n) = (str_ok u \<and> str_ok n)"
| "fields_ok (MTattach f a u n) = (str_ok u \<and> str_ok n)"
| "fields_ok (MTwalk f g ws) = (length ws \<le> MAXWELEM \<and> list_all str_ok ws)"
| "fields_ok (MTcreate f n p m) = str_ok n"
| "fields_ok (MTwstat f bs) = (length bs < 65536)"
| "fields_ok (MRversion m v) = str_ok v"
| "fields_ok (MRerror e) = str_ok e"
| "fields_ok (MRwalk qs) = (length qs \<le> MAXWELEM)"
| "fields_ok (MRstat bs) = (length bs < 65536)"
| "fields_ok _ = True"

definition smsg_ok :: "smsg \<Rightarrow> bool" where
  "smsg_ok m \<longleftrightarrow> fields_ok m \<and> 7 + length (mbody m) < 2 ^ 32"

text \<open>The C arrays have their declared size and the counts stay within the storage they count.\<close>

definition fcall_ok :: "fcall \<Rightarrow> bool" where
  "fcall_ok f \<longleftrightarrow> length (fc_wname f) = MAXWELEM \<and> length (fc_wqid f) = MAXWELEM
     \<and> (fc_type f = Twalk \<longrightarrow> unat (fc_nwname f) \<le> MAXWELEM)
     \<and> (fc_type f = Rwalk \<longrightarrow> unat (fc_nwqid f) \<le> MAXWELEM)
     \<and> (fc_type f \<in> {Twrite, Rread} \<longrightarrow> unat (fc_count f) \<le> length (fc_data f))
     \<and> (fc_type f \<in> {Twstat, Rstat} \<longrightarrow> unat (fc_nstat f) \<le> length (fc_stat f))"

definition nulled :: "byte list \<Rightarrow> byte list" where
  "nulled s = ucast (of_nat (length s) :: u32) # s @ [0]"

section \<open>Field codecs\<close>

lemma length_PBIT [simp]:
  "length (PBIT8 v) = 1" "length (PBIT16 v) = 2" "length (PBIT32 v) = 4" "length (PBIT64 v) = 8"
  by (simp_all add: PBIT8_def PBIT16_def PBIT32_def PBIT64_def)

lemma GBIT8_PBIT8 [simp]: "GBIT8 (d, PBIT8 v @ p) = Inr (ucast v, (d @ PBIT8 v, p))"
  by (simp add: PBIT8_def)

lemma GBIT16_PBIT16 [simp]:
  "GBIT16 (d, PBIT16 v @ p) = Inr (ucast (take_bit 16 v), (d @ PBIT16 v, p))"
  by (simp add: PBIT16_def le16_round)

lemma GBIT32_PBIT32 [simp]:
  "GBIT32 (d, PBIT32 v @ p) = Inr (ucast v, (d @ PBIT32 v, p))"
  by (simp add: PBIT32_def le32_round)

lemma GBIT64_PBIT64 [simp]:
  fixes v :: u64
  shows "GBIT64 (d, PBIT64 v @ p) = Inr (v, (d @ PBIT64 v, p))"
proof -
  have lo: "(ucast (ucast v :: byte) :: u32) OR push_bit 8 (ucast (ucast (drop_bit 8 v) :: byte))
      OR push_bit 16 (ucast (ucast (drop_bit 16 v) :: byte))
      OR push_bit 24 (ucast (ucast (drop_bit 24 v) :: byte)) = ucast v"
    by (simp add: le32_round)
  have hi: "(ucast (ucast (drop_bit 32 v) :: byte) :: u32) OR push_bit 8 (ucast (ucast (drop_bit 40 v) :: byte))
      OR push_bit 16 (ucast (ucast (drop_bit 48 v) :: byte))
      OR push_bit 24 (ucast (ucast (drop_bit 56 v) :: byte)) = ucast (drop_bit 32 v)"
    using le32_round [where v = "drop_bit 32 v" and 'b = 32] by (simp add: drop_bit_drop_bit)
  show ?thesis by (simp add: PBIT64_def lo hi le64_halves)
qed

lemma need_append [simp]: "n \<le> length xs \<Longrightarrow> need n (d, xs @ p) = Inr ()"
  by (simp add: need_def)


lemma gqid_pqid [simp]: "gqid (d, pqid q @ p) = Inr (q, (d @ pqid q, p))"
  by (simp add: gqid_def pqid_def need_def)

lemma gstring_pstring [simp]:
  assumes "length s < 65536" and "0 \<notin> set s"
  shows "gstring (d, pstring (Some s) @ p) = Inr (s, (d @ nulled s, p))"
proof -
  have "takeWhile (\<lambda>b. b \<noteq> 0) s = s"
    using assms(2) by (auto simp: takeWhile_eq_all_conv)
  moreover have "butlast (d @ PBIT16 (of_nat (length s) :: u32)) = d @ [ucast (of_nat (length s) :: u32)]"
    by (simp add: PBIT16_def butlast_append)
  ultimately show ?thesis
    using assms(1)
    by (simp add: unat_take_bit_len gstring_def pstring_def need_def nulled_def)
qed

lemma length_nulled [simp]: "length (nulled s) = length s + 2"
  by (simp add: nulled_def)

lemma pstring_str [simp]: "pstring (Some (str s)) = pstring s"
  by (simp add: pstring_def str_def split: option.splits)

lemma length_pstring [simp]: "length (pstring s) = 2 + length (str s)"
  by (simp add: pstring_def str_def split: option.splits)

lemma length_pqid [simp]: "length (pqid q) = 13"
  by (simp add: pqid_def)


lemma length_concat_wstr: "length (concat (map wstr ws)) = sum_list (map (\<lambda>w. 2 + length w) ws)"
  by (induction ws) (simp_all add: str_def)

lemma length_concat_pqid: "length (concat (map pqid qs)) = 13 * length qs"
  by (induction qs) simp_all

lemma stringsz_eq: "stringsz s = of_nat (2 + length (str s))"
  by (simp add: stringsz_def str_def split: option.splits)

lemma wnamesz_eq:
  "i + k \<le> length ws \<Longrightarrow>
   wnamesz k i ws n = Inr (n + of_nat (length (concat (map pstring (take k (drop i ws))))))"
proof (induction k arbitrary: i n)
  case (Suc k)
  then have "i < length ws" by simp
  with Suc show ?case by (simp add: stringsz_eq take_Suc_drop)
qed simp

lemma pwname_eq:
  "i + k \<le> length ws \<Longrightarrow> pwname k i ws = Inr (concat (map pstring (take k (drop i ws))))"
proof (induction k arbitrary: i)
  case (Suc k)
  then have "i < length ws" by simp
  with Suc show ?case by (simp add: take_Suc_drop)
qed simp

lemma pwqid_eq:
  "i + k \<le> length qs \<Longrightarrow> pwqid k i qs = Inr (concat (map pqid (take k (drop i qs))))"
proof (induction k arbitrary: i)
  case (Suc k)
  then have "i < length qs" by simp
  with Suc show ?case by (simp add: take_Suc_drop)
qed simp

lemma map_wstr_str [simp]: "map wstr (map str ws) = map pstring ws"
  by simp

lemma smsg_of_type: "smsg_of f = Some m \<Longrightarrow> mtype m = fc_type f"
  by (auto simp: smsg_of_def split: if_splits)


lemma PBIT32_ucast [simp]: "PBIT32 (ucast (v :: u64) :: u32) = PBIT32 v"
  by (auto simp: PBIT32_def intro!: bit_word_eqI simp: bit_simps)

lemma wstr_comp_str [simp]: "wstr \<circ> str = pstring"
  by (simp add: fun_eq_iff)

lemma sizeS2M_eq:
  assumes "smsg_of f = Some m" and "fcall_ok f"
  shows "sizeS2M f = Inr (of_nat (7 + length (mbody m)))"
  using assms
  by (auto simp: smsg_of_def sizeS2M_def fcall_ok_def stringsz_eq wnamesz_eq Let_def
      length_concat_pqid min_absorb2 split: if_splits)

lemma convS2M_R_eq:
  assumes "smsg_of f = Some m" and "fcall_ok f"
  shows "convS2M_R f = Inr (mbody m)"
  using assms
  by (auto simp: smsg_of_def convS2M_R_def convS2M_T_def fcall_ok_def pwname_eq pwqid_eq pbytes_def
      min_absorb2 split: if_splits)

lemma convS2M_wire:
  assumes "smsg_of f = Some m" and "fcall_ok f" and "7 + length (mbody m) \<le> unat nap"
  shows "convS2M f nap = Inr (wire (fc_tag f) m)"
proof -
  let ?n = "7 + length (mbody m)"
  have "?n < 2 ^ 32"
    using assms(3) unat_bound_u32 [of nap] by simp
  then have n: "unat (of_nat ?n :: u32) = ?n"
    by (rule unat_len32)
  have nz: "(of_nat ?n :: u32) \<noteq> 0" and le: "\<not> nap < of_nat ?n"
    using n assms(3) by (auto simp: word_less_nat_alt simp del: of_nat_add)
  show ?thesis
    using n nz le assms(3) smsg_of_type [OF assms(1)]
    by (simp add: convS2M_def sizeS2M_eq [OF assms(1,2)] convS2M_R_eq [OF assms(1,2)] wire_def
        Let_def del: of_nat_add)
qed

lemma gwname_wire:
  assumes "i + length ws \<le> length (fc_wname f)" and "list_all str_ok ws"
  shows "gwname (length ws) i f (d, concat (map wstr ws) @ p) =
    Inr (f\<lparr>fc_wname := take i (fc_wname f) @ map Some ws @ drop (i + length ws) (fc_wname f)\<rparr>,
         (d @ concat (map nulled ws), p))"
  using assms
proof (induction ws arbitrary: i f d)
  case (Cons w ws)
  let ?f = "f\<lparr>fc_wname := (fc_wname f)[i := Some w]\<rparr>"
  have i: "i < length (fc_wname f)" and w: "length w < 65536" "0 \<notin> set w"
    and ws: "list_all str_ok ws"
    using Cons.prems by (simp_all, simp_all add: str_ok_def)
  have "gwname (length (w # ws)) i f (d, concat (map wstr (w # ws)) @ p)
      = gwname (length ws) (Suc i) ?f (d @ nulled w, concat (map wstr ws) @ p)"
    using i w by simp
  also have "\<dots> = Inr (?f\<lparr>fc_wname := take (Suc i) (fc_wname ?f) @ map Some ws
      @ drop (Suc i + length ws) (fc_wname ?f)\<rparr>, ((d @ nulled w) @ concat (map nulled ws), p))"
    by (rule Cons.IH) (use Cons.prems ws in simp_all)
  finally show ?case by (simp add: take_Suc_update [OF i])
qed simp

lemma gwqid_wire:
  assumes "i + length qs \<le> length (fc_wqid f)"
  shows "gwqid (length qs) i f (d, concat (map pqid qs) @ p) =
    Inr (f\<lparr>fc_wqid := take i (fc_wqid f) @ qs @ drop (i + length qs) (fc_wqid f)\<rparr>,
         (d @ concat (map pqid qs), p))"
  using assms
proof (induction qs arbitrary: i f d)
  case (Cons q qs)
  let ?f = "f\<lparr>fc_wqid := (fc_wqid f)[i := q]\<rparr>"
  have i: "i < length (fc_wqid f)"
    using Cons.prems by simp
  have "gwqid (length (q # qs)) i f (d, concat (map pqid (q # qs)) @ p)
      = gwqid (length qs) (Suc i) ?f (d @ pqid q, concat (map pqid qs) @ p)"
    using i by simp
  also have "\<dots> = Inr (?f\<lparr>fc_wqid := take (Suc i) (fc_wqid ?f) @ qs
      @ drop (Suc i + length qs) (fc_wqid ?f)\<rparr>, ((d @ pqid q) @ concat (map pqid qs), p))"
    by (rule Cons.IH) (use Cons.prems in simp_all)
  finally show ?case by (simp add: take_Suc_update [OF i])
qed simp

lemma gbytes_append [simp]: "n = length bs \<Longrightarrow> gbytes n (d, bs @ p) = Inr (bs, (d @ bs, p))"
  by (simp add: gbytes_def)


lemma length_concat_nulled [simp]:
  "length (concat (map nulled ws)) = length (concat (map wstr ws))"
  by (induction ws) (simp_all add: str_def)

lemma convM2S_R_mbody:
  assumes "smsg_ok m" and "fc_type f = mtype m"
    and "length (fc_wname f) = MAXWELEM" and "length (fc_wqid f) = MAXWELEM"
  shows "\<exists>f' e. convM2S_R f (d, mbody m @ p) = Inr (f', (d @ e, p)) \<and> length e = length (mbody m)
      \<and> smsg_of f' = Some m \<and> fc_tag f' = fc_tag f"

  using assms
  by (cases m)
    (simp_all add: convM2S_R_def convM2S_T_def smsg_ok_def str_ok_def smsg_of_def str_def
      gwname_wire gwqid_wire unat_of_nat MAXWELEM_def list_all_iff need_def comp_def)

lemma convM2S_wire:
  assumes "smsg_ok m" and "length (fc_wname f) = MAXWELEM" and "length (fc_wqid f) = MAXWELEM"
  shows "\<exists>f' b. convM2S (wire t m @ p) f = Inr (of_nat (7 + length (mbody m)), f', b @ p)
      \<and> length b = length (wire t m) \<and> smsg_of f' = Some m \<and> fc_tag f' = t"
proof -
  let ?n = "7 + length (mbody m)"
  let ?f = "f\<lparr>fc_type := mtype m, fc_tag := t\<rparr>"
  let ?h = "PBIT32 (of_nat ?n :: u32) @ PBIT8 (mtype m) @ PBIT16 t"
  have n: "unat (of_nat ?n :: u32) = ?n"
    using assms(1) by (intro unat_len32) (simp add: smsg_ok_def)
  have n7: "\<not> (of_nat ?n :: u32) < 7"
    unfolding word_less_nat_alt n by simp
  obtain f' e where body: "convM2S_R ?f (?h, mbody m @ p) = Inr (f', (?h @ e, p))"
    and e: "length e = length (mbody m)" and m: "smsg_of f' = Some m" "fc_tag f' = t"
    using convM2S_R_mbody [of m ?f ?h p] assms by auto
  have "convM2S (wire t m @ p) f = Inr (of_nat ?n, f', (?h @ e) @ p)"
    using n n7 body e by (simp add: convM2S_def wire_def need_def del: of_nat_add)
  moreover have "length (?h @ e) = length (wire t m)"
    using e by (simp add: wire_def)
  ultimately show ?thesis using m by blast
qed

lemma csafe_need [simp]: "csafe (need n c) Q \<longleftrightarrow> length (snd c) < n \<or> Q ()"
  by (simp add: need_def)

lemma csafe_GBIT8 [intro!]:
  "1 \<le> length (snd c) \<Longrightarrow> (\<And>v d p. length (snd c) = length p + 1 \<Longrightarrow> Q (v, (d, p))) \<Longrightarrow> csafe (GBIT8 c) Q"
  by (cases c rule: GBIT8.cases) auto

lemma csafe_GBIT16 [intro!]:
  "2 \<le> length (snd c) \<Longrightarrow> (\<And>v d p. length (snd c) = length p + 2 \<Longrightarrow> Q (v, (d, p))) \<Longrightarrow> csafe (GBIT16 c) Q"
  by (cases c rule: GBIT16.cases) auto

lemma csafe_GBIT32 [intro!]:
  "4 \<le> length (snd c) \<Longrightarrow> (\<And>v d p. length (snd c) = length p + 4 \<Longrightarrow> Q (v, (d, p))) \<Longrightarrow> csafe (GBIT32 c) Q"
  by (cases c rule: GBIT32.cases) auto

lemma csafe_GBIT64 [intro!]:
  "8 \<le> length (snd c) \<Longrightarrow> (\<And>v d p. length (snd c) = length p + 8 \<Longrightarrow> Q (v, (d, p))) \<Longrightarrow> csafe (GBIT64 c) Q"
  by (cases c rule: GBIT64.cases) auto

lemma csafe_gstring [intro!]: "(\<And>s d p. Q (s, (d, p))) \<Longrightarrow> csafe (gstring c) Q"
  by (auto simp: gstring_def not_less)

lemma csafe_gqid [intro!]: "(\<And>q d p. Q (q, (d, p))) \<Longrightarrow> csafe (gqid c) Q"
  by (auto simp: gqid_def not_less)

lemma csafe_gbytes [intro!]: "(\<And>s d p. Q (s, (d, p))) \<Longrightarrow> csafe (gbytes n c) Q"
  by (auto simp: gbytes_def split: prod.split)





lemma convS2M_spec:
  assumes "smsg_of f = Some m" and "fcall_ok f" and "7 + length (mbody m) < 2 ^ 32"
  shows "convS2M f nap =
    (if 7 + length (mbody m) \<le> unat nap then Inr (wire (fc_tag f) m) else Inl (Raise ''0''))"
proof (cases "7 + length (mbody m) \<le> unat nap")
  case False
  then have "nap < of_nat (7 + length (mbody m))"
    unfolding word_less_nat_alt unat_len32 [OF assms(3)] by simp
  with False show ?thesis
    by (simp add: convS2M_def sizeS2M_eq [OF assms(1,2)] del: of_nat_add)
qed (use convS2M_wire [OF assms(1,2)] in simp)



lemma convM2S_R_unknown: "smsg_of f = None \<Longrightarrow> convM2S_R f c = Inl (Raise ''0'')"
  by (simp add: smsg_of_def convM2S_R_def convM2S_T_def split: if_splits)

lemma wnamesz_overrun: "length ws < i + k \<Longrightarrow> i \<le> length ws \<Longrightarrow> wnamesz k i ws n = Inl Undef"
  by (induction k arbitrary: i n) (auto simp: cguard_def)


section \<open>Framing of the message stream\<close>

definition fcall0 :: fcall where
  "fcall0 = \<lparr>fc_type = 0, fc_fid = 0, fc_tag = 0, fc_msize = 0, fc_version = None, fc_oldtag = 0,
     fc_ename = None, fc_qid = \<lparr>q_path = 0, q_vers = 0, q_type = 0\<rparr>, fc_iounit = 0,
     fc_aqid = \<lparr>q_path = 0, q_vers = 0, q_type = 0\<rparr>, fc_afid = 0, fc_uname = None, fc_aname = None,
     fc_perm = 0, fc_name = None, fc_mode = 0, fc_newfid = 0, fc_nwname = 0,
     fc_wname = replicate 16 None, fc_nwqid = 0,
     fc_wqid = replicate 16 \<lparr>q_path = 0, q_vers = 0, q_type = 0\<rparr>, fc_offset = 0, fc_count = 0,
     fc_data = [], fc_nstat = 0, fc_stat = []\<rparr>"

text \<open>The reader of a connection: parse one message, step over the bytes it reports.\<close>

definition next_msg :: "byte list \<Rightarrow> ((u16 \<times> smsg) \<times> byte list) option" where
  "next_msg b = (case convM2S b fcall0 of Inl e \<Rightarrow> None
     | Inr (n, f, _) \<Rightarrow> (case smsg_of f of None \<Rightarrow> None
         | Some m \<Rightarrow> Some ((fc_tag f, m), drop (unat n) b)))"

lemma length_wire: "length (wire t m) = 7 + length (mbody m)"
  by (simp add: wire_def)

lemma wire_nonempty: "wire t m \<noteq> []"
  by (simp add: wire_def PBIT32_def)

lemma next_msg_wire: "smsg_ok m \<Longrightarrow> next_msg (wire t m @ p) = Some ((t, m), p)"
proof -
  assume ok: "smsg_ok m"
  have "length (fc_wname fcall0) = MAXWELEM" "length (fc_wqid fcall0) = MAXWELEM"
    by (simp_all add: fcall0_def MAXWELEM_def)
  from convM2S_wire [OF ok this, of t p]
  obtain f b where "convM2S (wire t m @ p) fcall0 = Inr (of_nat (7 + length (mbody m)), f, b @ p)"
    and "smsg_of f = Some m" "fc_tag f = t" by blast
  moreover have "unat (of_nat (7 + length (mbody m)) :: u32) = length (wire t m)"
    using ok unat_len32 by (simp add: smsg_ok_def length_wire del: of_nat_add)
  ultimately show ?thesis by (simp add: next_msg_def del: of_nat_add)
qed

interpretation styx: framing "\<lambda>(t, m). wire t m" next_msg "\<lambda>(t, m). smsg_ok m"
  by unfold_locales (auto simp: next_msg_wire wire_nonempty)

section \<open>Properties\<close>

definition twalk_example :: fcall where
  "twalk_example = fcall0\<lparr>fc_type := Twalk, fc_fid := 3, fc_tag := 9, fc_newfid := 4, fc_nwname := 2,
     fc_wname := [Some [117, 115, 114], Some [98]] @ replicate 14 None\<rparr>"

lemma twalk_example_msg: "smsg_of twalk_example = Some (MTwalk 3 4 [[117, 115, 114], [98]])"
  by (simp add: twalk_example_def smsg_of_def fcall0_def str_def)

lemma twalk_example_ok: "fcall_ok twalk_example"
  by (simp add: twalk_example_def fcall_ok_def MAXWELEM_def fcall0_def)

text \<open>
  %%convM2S_convS2M%%. Round trip: whatever \<open>convS2M\<close> stores for a well-formed message,
  \<open>convM2S\<close> reads back, with the same tag, in any larger buffer and into any \<open>Fcall\<close>,
  and reports the number of bytes that were stored.
\<close>

theorem convM2S_convS2M:
  assumes "smsg_of f = Some m" and "fcall_ok f" and "smsg_ok m"
    and "convS2M f nap = Inr out"
    and "length (fc_wname g) = MAXWELEM" and "length (fc_wqid g) = MAXWELEM"
  shows "\<exists>g' b. convM2S (out @ p) g = Inr (of_nat (length out), g', b)
      \<and> smsg_of g' = Some m \<and> fc_tag g' = fc_tag f"
proof -
  have "out = wire (fc_tag f) m"
    using assms convS2M_spec [OF assms(1,2), of nap] by (simp add: smsg_ok_def split: if_splits)
  then show ?thesis
    using convM2S_wire [OF assms(3,5,6), of "fc_tag f" p] by (auto simp: length_wire)
qed

theorem convM2S_convS2M_witness:
  "\<exists>g' b. convM2S (wire 9 (MTwalk 3 4 [[117, 115, 114], [98]]) @ [1, 2]) fcall0 =
       Inr (25, g', b)
     \<and> smsg_of g' = Some (MTwalk 3 4 [[117, 115, 114], [98]]) \<and> fc_tag g' = 9"
proof -
  note m = twalk_example_msg and ok = twalk_example_ok
  have mok: "smsg_ok (MTwalk 3 4 [[117, 115, 114], [98]])"
    by (simp add: smsg_ok_def str_ok_def MAXWELEM_def str_def)
  have out: "convS2M twalk_example 64 = Inr (wire 9 (MTwalk 3 4 [[117, 115, 114], [98]]))"
    using convS2M_wire [OF m ok, of 64] by (simp add: str_def twalk_example_def)
  have "length (wire 9 (MTwalk 3 4 [[117, 115, 114], [98]])) = 25"
    by (simp add: length_wire str_def)
  then show ?thesis
    using convM2S_convS2M [OF m ok mok out, of fcall0 "[1, 2]"]
    by (simp add: fcall0_def MAXWELEM_def twalk_example_def)
qed





text \<open>
  %%wire_stream_unambiguous%%. A byte stream made of well-formed messages was made of one
  sequence of tagged messages only.
\<close>

theorem wire_stream_unambiguous:
  assumes "list_all (\<lambda>(t, m). smsg_ok m) xs" and "list_all (\<lambda>(t, m). smsg_ok m) ys"
    and "concat (map (\<lambda>(t, m). wire t m) xs) = concat (map (\<lambda>(t, m). wire t m) ys)"
  shows "xs = ys"
  using assms by (rule styx.stream_unique)

theorem wire_stream_unambiguous_witness:
  "list_all (\<lambda>(t, m). smsg_ok m) [(1 :: u16, MTclunk 2), (3, MRflush)]
   \<and> [(1 :: u16, MTclunk 2), (3, MRflush)] = [(1, MTclunk 2), (3, MRflush)]"
proof -
  have ok: "list_all (\<lambda>(t, m). smsg_ok m) [(1 :: u16, MTclunk 2), (3, MRflush)]"
    by (simp add: smsg_ok_def)
  show ?thesis using ok wire_stream_unambiguous [OF ok ok] by simp
qed

text \<open>
  %%convS2M_count_wraps%%. A defect: the 32-bit message size wraps. A \<open>Twrite\<close> whose count
  is \<open>2^32 - 16\<close> has computed size 7, passes the test against \<open>nap\<close> and is then stored far
  past the end of the caller's buffer.
\<close>

theorem convS2M_count_wraps:
  assumes "fc_type f = Twrite" and "fc_count f = 2 ^ 32 - 16"
    and "unat (fc_count f) \<le> length (fc_data f)" and "7 \<le> nap"
  shows "convS2M f nap = Inl Undef"
proof -
  have sz: "sizeS2M f = Inr 7"
    using assms by (simp add: sizeS2M_def Let_def)
  have "\<not> nap < 7" using assms(4) by simp
  moreover have "unat nap < 2 ^ 32 + 7"
    using unat_bound_u32 [of nap] by simp
  ultimately show ?thesis
    using assms by (simp add: convS2M_def sz convS2M_R_def convS2M_T_def pbytes_def Let_def)
qed

theorem convS2M_count_wraps_witness:
  "convS2M (fcall0\<lparr>fc_type := Twrite, fc_count := 2 ^ 32 - 16, fc_data := replicate (2 ^ 32 - 16) 0\<rparr>)
     8192 = Inl Undef"
  by (rule convS2M_count_wraps) (simp_all add: fcall0_def)

text \<open>
  %%convS2M_walk_overrun%%. A defect: \<open>nwname > MAXWELEM\<close> is tested only after \<open>sizeS2M\<close> has
  walked \<open>f->wname\<close> up to \<open>nwname\<close>, so such a call reads past the array before it can return 0.
\<close>

theorem convS2M_walk_overrun:
  assumes "fc_type f = Twalk" and "length (fc_wname f) = MAXWELEM" and "MAXWELEM < unat (fc_nwname f)"
  shows "convS2M f nap = Inl Undef"
  using assms by (simp add: convS2M_def sizeS2M_def Let_def wnamesz_overrun)

theorem convS2M_walk_overrun_witness:
  "convS2M (fcall0\<lparr>fc_type := Twalk, fc_nwname := 17\<rparr>) 8192 = Inl Undef"
  by (rule convS2M_walk_overrun) (simp_all add: fcall0_def MAXWELEM_def)

end
