(* ===== verification/Styx_Dir.thy ===== *)
theory Styx_Dir
  imports Styx_Wire
begin

text \<open>
  The directory entry codec of \<^verbatim>\<open>src/lib9/convD2M.c\<close> and \<^verbatim>\<open>src/lib9/convM2D.c\<close>:
  \<open>sizeD2M\<close>, \<open>convD2M\<close>, \<open>statcheck\<close> and \<open>convM2D\<close>.
\<close>

section \<open>Model\<close>

record dir =
  d_type :: u16
  d_dev :: u32
  d_qid :: qid
  d_mode :: u32
  d_atime :: u32
  d_mtime :: u32
  d_length :: u64
  d_name :: cstr
  d_uid :: cstr
  d_gid :: cstr
  d_muid :: cstr

definition STATFIXLEN :: nat where "STATFIXLEN = 2 + 13 + 5 * 2 + 4 * 4 + 8"

definition dir_strs :: "dir \<Rightarrow> byte list list" where
  "dir_strs d = map str [d_name d, d_uid d, d_gid d, d_muid d]"

text \<open>\<open>ns\<close> is an \<open>int\<close>: adding up to more than it holds is undefined.\<close>

definition dir_strlen :: "dir \<Rightarrow> nat cres" where
  "dir_strlen d = (let ns = sum_list (map length (dir_strs d)) in
     cbind (cguard (STATFIXLEN + ns < 2 ^ 31)) (\<lambda>_. Inr ns))"

definition sizeD2M :: "dir \<Rightarrow> u32 cres" where
  "sizeD2M d = cbind (dir_strlen d) (\<lambda>ns. Inr (of_nat (STATFIXLEN + ns)))"

text \<open>The last loop of \<open>convD2M\<close>; \<open>p\<close> is the number of bytes stored so far.\<close>

fun putstrs :: "byte list list \<Rightarrow> nat \<Rightarrow> nat \<Rightarrow> byte list cres" where
  "putstrs [] p nbuf = Inr []"
| "putstrs (s # ss) p nbuf = cbind (craise (nbuf < p + length s + 2) ''0'') (\<lambda>_.
     cbind (putstrs ss (p + 2 + length s) nbuf) (\<lambda>r. Inr (PBIT16 (of_nat (length s) :: u32) @ s @ r)))"

text \<open>
  The bytes stored at \<open>buf\<close>; their number is the return value. With a buffer that is too small
  only the size is stored and the return value is \<open>BIT16SZ\<close>.
\<close>

definition convD2M :: "dir \<Rightarrow> u32 \<Rightarrow> byte list cres" where
  "convD2M d nbuf =
     cbind (craise (nbuf < 2) ''0'') (\<lambda>_.
     cbind (dir_strlen d) (\<lambda>ns.
     let ss = STATFIXLEN + ns; sz = PBIT16 (of_nat (ss - 2) :: u32) in
     if unat nbuf < ss then Inr sz
     else
       let fixed = sz @ PBIT16 (d_type d) @ PBIT32 (d_dev d) @ PBIT8 (q_type (d_qid d))
         @ PBIT32 (q_vers (d_qid d)) @ PBIT64 (q_path (d_qid d)) @ PBIT32 (d_mode d)
         @ PBIT32 (d_atime d) @ PBIT32 (d_mtime d) @ PBIT64 (d_length d) in
       cbind (putstrs (dir_strs d) (length fixed) (unat nbuf)) (\<lambda>r.
       let out = fixed @ r in
       cbind (cguard (length out \<le> unat nbuf)) (\<lambda>_.
       if ss \<noteq> length out then Inl (Raise ''0'') else Inr out))))"

text \<open>The loop of \<open>statcheck\<close>: \<open>p\<close> is \<open>buf\<close> as an offset, \<open>k\<close> strings left.\<close>

fun statcheck_loop :: "nat \<Rightarrow> byte list \<Rightarrow> nat \<Rightarrow> nat cres" where
  "statcheck_loop 0 b p = Inr p"
| "statcheck_loop (Suc k) b p = cbind (craise (length b < p + 2) ''-1'') (\<lambda>_.
     cbind (GBIT16 (take p b, drop p b)) (\<lambda>(n, _). statcheck_loop k b (p + (2 + unat n))))"

definition statcheck :: "byte list \<Rightarrow> unit cres" where
  "statcheck b = cbind (craise (length b < STATFIXLEN) ''-1'') (\<lambda>_.
     cbind (GBIT16 ([], b)) (\<lambda>(n, _).
     cbind (craise (length b \<noteq> 2 + unat n) ''-1'') (\<lambda>_.
     cbind (statcheck_loop 4 b (STATFIXLEN - 4 * 2)) (\<lambda>p.
     craise (p \<noteq> length b) ''-1''))))"

text \<open>
  The loop of \<open>convM2D\<close>: \<open>k\<close> strings left; \<open>room\<close> is the space left at \<open>strs\<close>, or \<open>None\<close>
  when \<open>strs\<close> is nil. Collects \<open>sv[i]\<close>.
\<close>

fun getstrs :: "nat \<Rightarrow> nat option \<Rightarrow> cursor \<Rightarrow> (byte list list \<times> cursor) cres" where
  "getstrs 0 room c = Inr ([], c)"
| "getstrs (Suc k) room c = cbind (need 2 c) (\<lambda>_. cbind (GBIT16 c) (\<lambda>(ns, (e, p)).
     cbind (craise (length p < unat ns) ''0'') (\<lambda>_.
     cbind (case room of None \<Rightarrow> Inr None
            | Some r \<Rightarrow> cbind (cguard (unat ns + 1 \<le> r)) (\<lambda>_. Inr (Some (r - (unat ns + 1))))) (\<lambda>room'.
     cbind (getstrs k room' (e @ take (unat ns) p, drop (unat ns) p)) (\<lambda>(ss, c).
     Inr (takeWhile (\<lambda>b. b \<noteq> 0) (take (unat ns) p) # ss, c))))))"

text \<open>\<open>d->name = sv[0]\<close> and so on, or the empty string when \<open>strs\<close> is nil.\<close>

definition setstrs :: "dir \<Rightarrow> nat option \<Rightarrow> byte list list \<Rightarrow> dir" where
  "setstrs d room ss = (let sv = (\<lambda>i. Some (if room = None then [] else ss ! i)) in
     d\<lparr>d_name := sv 0, d_uid := sv 1, d_gid := sv 2, d_muid := sv 3\<rparr>)"

definition convM2D :: "byte list \<Rightarrow> nat option \<Rightarrow> (nat \<times> dir) cres" where
  "convM2D b room =
     cbind (craise (length b < STATFIXLEN) ''0'') (\<lambda>_.
     cbind (GBIT16 ([], b)) (\<lambda>(_, c). cbind (GBIT16 c) (\<lambda>(ty, c). cbind (GBIT32 c) (\<lambda>(dev, c).
     cbind (GBIT8 c) (\<lambda>(qt, c). cbind (GBIT32 c) (\<lambda>(qv, c). cbind (GBIT64 c) (\<lambda>(qp, c).
     cbind (GBIT32 c) (\<lambda>(mo, c). cbind (GBIT32 c) (\<lambda>(at, c). cbind (GBIT32 c) (\<lambda>(mt, c).
     cbind (GBIT64 c) (\<lambda>(len, c). cbind (getstrs 4 room c) (\<lambda>(ss, (e, p)).
     Inr (length e, setstrs \<lparr>d_type = ucast ty, d_dev = dev,
       d_qid = \<lparr>q_path = qp, q_vers = qv, q_type = qt\<rparr>, d_mode = mo, d_atime = at, d_mtime = mt,
       d_length = len, d_name = None, d_uid = None, d_gid = None, d_muid = None\<rparr> room ss)))))))))))))"

section \<open>Lemmas\<close>

lemma length_dir_strs [simp]: "length (dir_strs d) = 4"
  by (simp add: dir_strs_def)

lemma putstrs_ok:
  "p + sum_list (map (\<lambda>s. 2 + length s) ss) \<le> nbuf \<Longrightarrow>
   putstrs ss p nbuf = Inr (concat (map wstr ss))"
  by (induction ss arbitrary: p) (simp_all add: craise_def pstring_def)

lemma length_dir_wstrs:
  "length (concat (map wstr (dir_strs d))) = 8 + sum_list (map length (dir_strs d))"
  by (simp add: dir_strs_def str_def)

definition dir_fixed :: "dir \<Rightarrow> byte list" where
  "dir_fixed d = PBIT16 (d_type d) @ PBIT32 (d_dev d) @ PBIT8 (q_type (d_qid d))
     @ PBIT32 (q_vers (d_qid d)) @ PBIT64 (q_path (d_qid d)) @ PBIT32 (d_mode d)
     @ PBIT32 (d_atime d) @ PBIT32 (d_mtime d) @ PBIT64 (d_length d)"

definition dir_wire :: "dir \<Rightarrow> byte list" where
  "dir_wire d = PBIT16 (of_nat (47 + sum_list (map length (dir_strs d))) :: u32) @ dir_fixed d
     @ concat (map wstr (dir_strs d))"

lemma length_dir_fixed [simp]: "length (dir_fixed d) = 39"
  by (simp add: dir_fixed_def)

lemma length_dir_wire: "length (dir_wire d) = STATFIXLEN + sum_list (map length (dir_strs d))"
  by (simp add: dir_wire_def length_dir_wstrs STATFIXLEN_def)


lemma convD2M_spec:
  assumes "STATFIXLEN + sum_list (map length (dir_strs d)) < 2 ^ 31"
  shows "convD2M d nbuf = (if nbuf < 2 then Inl (Raise ''0'')
    else if unat nbuf < STATFIXLEN + sum_list (map length (dir_strs d))
    then Inr (take 2 (dir_wire d)) else Inr (dir_wire d))"
proof -
  let ?ns = "sum_list (map length (dir_strs d))"
  have ns: "dir_strlen d = Inr ?ns"
    using assms by (simp add: dir_strlen_def Let_def)
  have sum: "sum_list (map (\<lambda>s. 2 + length s) (dir_strs d)) = 8 + ?ns"
    by (simp add: dir_strs_def)
  have put: "putstrs (dir_strs d) 41 (unat nbuf) = Inr (concat (map wstr (dir_strs d)))"
    if "STATFIXLEN + ?ns \<le> unat nbuf"
    by (rule putstrs_ok) (use that sum in \<open>simp add: STATFIXLEN_def\<close>)
  show ?thesis
  proof (cases "nbuf < 2")
    case False
    then show ?thesis
      using put
      by (simp add: convD2M_def ns Let_def dir_wire_def dir_fixed_def STATFIXLEN_def
          length_dir_wstrs craise_def)
  qed (simp add: convD2M_def craise_def)
qed

lemma getstrs_wire:
  assumes "list_all str_ok ss"
    and "case room of None \<Rightarrow> True | Some r \<Rightarrow> sum_list (map (\<lambda>s. 1 + length s) ss) \<le> r"
  shows "getstrs (length ss) room (e, concat (map wstr ss) @ p)
    = Inr (ss, (e @ concat (map wstr ss), p))"
  using assms
proof (induction ss arbitrary: room e)
  case (Cons s ss)
  then have s: "length s < 65536" "takeWhile (\<lambda>b. b \<noteq> 0) s = s" and ss: "list_all str_ok ss"
    by (simp_all, auto simp: str_ok_def takeWhile_eq_all_conv)
  have w: "wstr s = PBIT16 (of_nat (length s) :: u32) @ s"
    by (simp add: pstring_def)
  have IH: "case room' of None \<Rightarrow> True | Some r \<Rightarrow> sum_list (map (\<lambda>s. 1 + length s) ss) \<le> r \<Longrightarrow>
      getstrs (length ss) room' (e', concat (map wstr ss) @ p)
      = Inr (ss, (e' @ concat (map wstr ss), p))" for room' e'
    using ss by (rule Cons.IH)
  show ?case
    using Cons.prems(2) s(1)
    by (simp add: w s(2) need_def unat_take_bit_len IH split: option.splits)
qed simp

definition dir_strings_set :: "dir \<Rightarrow> dir" where
  "dir_strings_set d = d\<lparr>d_name := Some (str (d_name d)), d_uid := Some (str (d_uid d)),
     d_gid := Some (str (d_gid d)), d_muid := Some (str (d_muid d))\<rparr>"

lemma setstrs_strs:
  "setstrs \<lparr>d_type = d_type d, d_dev = d_dev d,
     d_qid = \<lparr>q_path = q_path (d_qid d), q_vers = q_vers (d_qid d), q_type = q_type (d_qid d)\<rparr>,
     d_mode = d_mode d, d_atime = d_atime d, d_mtime = d_mtime d, d_length = d_length d,
     d_name = None, d_uid = None, d_gid = None, d_muid = None\<rparr> (Some r) (dir_strs d)
   = dir_strings_set d"
  by (simp add: setstrs_def Let_def dir_strings_set_def dir_strs_def numeral_3_eq_3 numeral_2_eq_2)

lemma convM2D_dir_wire:
  assumes "list_all str_ok (dir_strs d)"
    and "sum_list (map (\<lambda>s. 1 + length s) (dir_strs d)) \<le> r"
  shows "convM2D (dir_wire d @ p) (Some r) = Inr (length (dir_wire d), dir_strings_set d)"
proof -
  have g: "getstrs 4 (Some r) (e, concat (map wstr (dir_strs d)) @ p)
      = Inr (dir_strs d, (e @ concat (map wstr (dir_strs d)), p))" for e
    using getstrs_wire [OF assms(1), of "Some r" e p] assms(2) by simp
  show ?thesis
    using length_dir_wire [of d]
    by (simp add: convM2D_def g STATFIXLEN_def dir_wire_def dir_fixed_def setstrs_strs)
qed

lemma statcheck_loop_wire:
  assumes "list_all str_ok ss"
  shows "statcheck_loop (length ss) (e @ concat (map wstr ss)) (length e)
    = Inr (length (e @ concat (map wstr ss)))"
  using assms
proof (induction ss arbitrary: e)
  case (Cons s ss)
  have "length s < 65536" using Cons.prems by (simp add: str_ok_def)
  with Cons.prems Cons.IH [of "e @ wstr s"] show ?case
    by (simp add: pstring_def unat_take_bit_len)
qed simp

lemma statcheck_dir_wire:
  assumes "list_all str_ok (dir_strs d)" and "47 + sum_list (map length (dir_strs d)) < 65536"
  shows "statcheck (dir_wire d) = Inr ()"
proof -
  let ?e = "PBIT16 (of_nat (47 + sum_list (map length (dir_strs d))) :: u32) @ dir_fixed d"
  have "statcheck_loop 4 (dir_wire d) 41 = Inr (length (dir_wire d))"
    using statcheck_loop_wire [OF assms(1), of ?e] by (simp add: dir_wire_def)
  moreover have "GBIT16 ([], dir_wire d) = Inr (ucast (take_bit 16 (of_nat (47 + sum_list (map length (dir_strs d))) :: u32)),
      (PBIT16 (of_nat (47 + sum_list (map length (dir_strs d))) :: u32), dir_fixed d @ concat (map wstr (dir_strs d))))"
    unfolding dir_wire_def by simp
  ultimately show ?thesis
    using length_dir_wire [of d] unat_take_bit_len [OF assms(2)]
    by (simp add: statcheck_def STATFIXLEN_def del: of_nat_add)
qed

lemma statcheck_loop_mono: "statcheck_loop k b p = Inr q \<Longrightarrow> p \<le> q"
proof (induction k arbitrary: p)
  case (Suc k)
  from Suc.prems obtain n c where "statcheck_loop k b (p + (2 + unat (n :: u32))) = Inr q"
    by (auto simp: cbind_eq_Inr_iff)
  from Suc.IH [OF this] show ?case by simp
qed simp

definition has_room :: "nat option \<Rightarrow> nat \<Rightarrow> bool" where
  "has_room room n \<longleftrightarrow> (case room of None \<Rightarrow> True | Some r \<Rightarrow> n \<le> r)"

lemma GBIT16_at:
  assumes "GBIT16 (d, p) = Inr (n, c)"
  shows "2 \<le> length p \<and> c = (d @ take 2 p, drop 2 p)"
  using assms by (cases "(d, p)" rule: GBIT16.cases) auto

lemma GBIT16_value_indep: "GBIT16 (d, p) = Inr (n, c) \<Longrightarrow> GBIT16 (d', p) = Inr (n, (d' @ take 2 p, drop 2 p))"
  by (cases "(d, p)" rule: GBIT16.cases) auto

lemma statcheck_getstrs:
  assumes "statcheck_loop k b p = Inr (length b)" and "has_room room (length b - p)"
  shows "\<exists>ss e'. getstrs k room (e, drop p b) = Inr (ss, (e', [])) \<and> length e' = length e + (length b - p)"
  using assms
proof (induction k arbitrary: p room e)
  case 0
  then show ?case by simp
next
  case (Suc k)
  from Suc.prems(1) obtain n c where p2: "p + 2 \<le> length b"
    and g: "GBIT16 (take p b, drop p b) = Inr (n, c)"
    and l: "statcheck_loop k b (p + (2 + unat n)) = Inr (length b)"
    by (auto simp: cbind_eq_Inr_iff craise_def split: if_splits)
  let ?p = "p + (2 + unat n)"
  have le: "?p \<le> length b" using statcheck_loop_mono [OF l] .
  let ?room = "map_option (\<lambda>r. r - (unat n + 1)) room"
  let ?e = "(e @ take 2 (drop p b)) @ take (unat n) (drop (p + 2) b)"
  have "has_room ?room (length b - ?p)"
    using Suc.prems(2) le by (auto simp: has_room_def split: option.splits)
  from Suc.IH [OF l this, of ?e] obtain ss e' where
    IH: "getstrs k ?room (?e, drop ?p b) = Inr (ss, (e', []))" and
    e': "length e' = length ?e + (length b - ?p)" by blast
  have r: "(case room of None \<Rightarrow> Inr None
      | Some r \<Rightarrow> cbind (cguard (unat n + 1 \<le> r)) (\<lambda>_. Inr (Some (r - (unat n + 1))))) = Inr ?room"
    using Suc.prems(2) le by (auto simp: has_room_def cguard_def split: option.splits)
  have "need 2 (e, drop p b) = Inr ()" and "\<not> length (drop (p + 2) b) < unat n"
    using p2 le by (simp_all add: need_def)
  then have "getstrs (Suc k) room (e, drop p b)
      = Inr (takeWhile (\<lambda>b. b \<noteq> 0) (take (unat n) (drop (p + 2) b)) # ss, (e', []))"
    using GBIT16_value_indep [OF g, of e] IH by (simp add: r ac_simps)
  moreover have "length e' = length e + (length b - p)"
    using e' le by simp
  ultimately show ?case by blast
qed

lemma csafe_getstrs:
  "has_room room (length p) \<Longrightarrow> csafe (getstrs k room (e, p)) (\<lambda>_. True)"
proof (induction k arbitrary: room e p)
  case (Suc k)
  show ?case
    using Suc.prems
    by (auto simp: has_room_def not_less split: option.splits intro!: csafe_mono [OF Suc.IH])
qed simp

definition rd8 :: "byte list \<Rightarrow> byte" where "rd8 p = fst (projr (GBIT8 ([], p)))"
definition rd16 :: "byte list \<Rightarrow> u32" where "rd16 p = fst (projr (GBIT16 ([], p)))"
definition rd32 :: "byte list \<Rightarrow> u32" where "rd32 p = fst (projr (GBIT32 ([], p)))"
definition rd64 :: "byte list \<Rightarrow> u64" where "rd64 p = fst (projr (GBIT64 ([], p)))"

lemma GBIT_rd:
  "1 \<le> length p \<Longrightarrow> GBIT8 (d, p) = Inr (rd8 p, (d @ take 1 p, drop 1 p))"
  "2 \<le> length p \<Longrightarrow> GBIT16 (d, p) = Inr (rd16 p, (d @ take 2 p, drop 2 p))"
  "4 \<le> length p \<Longrightarrow> GBIT32 (d, p) = Inr (rd32 p, (d @ take 4 p, drop 4 p))"
  "8 \<le> length p \<Longrightarrow> GBIT64 (d, p) = Inr (rd64 p, (d @ take 8 p, drop 8 p))"
  subgoal by (cases "(d, p)" rule: GBIT8.cases) (simp_all add: rd8_def)
  subgoal by (cases "(d, p)" rule: GBIT16.cases) (simp_all add: rd16_def)
  subgoal by (cases "(d, p)" rule: GBIT32.cases) (simp_all add: rd32_def)
  subgoal by (cases "(d, p)" rule: GBIT64.cases) (simp_all add: rd64_def)
  done

lemma convM2D_head:
  assumes "49 \<le> length b"
  shows "\<exists>d0 e. length e = 41 \<and> convM2D b room =
    cbind (getstrs 4 room (e, drop 41 b)) (\<lambda>(ss, (e, p)). Inr (length e, setstrs d0 room ss))"
  using assms by (simp add: convM2D_def STATFIXLEN_def GBIT_rd) (rule exI, rule exI, rule conjI [OF _ refl], simp)

lemma csafe_convM2D:
  assumes "has_room room (length b)"
  shows "csafe (convM2D b room) (\<lambda>_. True)"
proof (cases "49 \<le> length b")
  case True
  obtain d0 e where "convM2D b room =
      cbind (getstrs 4 room (e, drop 41 b)) (\<lambda>(ss, (e, p)). Inr (length e, setstrs d0 room ss))"
    using convM2D_head [OF True] by blast
  moreover have "has_room room (length (drop 41 b))"
    using assms by (auto simp: has_room_def split: option.splits)
  ultimately show ?thesis
    by (simp add: csafe_mono [OF csafe_getstrs] split_def)
qed (simp add: convM2D_def STATFIXLEN_def)

lemma csafe_statcheck_loop: "csafe (statcheck_loop k b p) (\<lambda>_. True)"
  by (induction k arbitrary: p) (auto simp: not_less)

lemma csafe_statcheck: "csafe (statcheck b) (\<lambda>_. True)"
  unfolding statcheck_def STATFIXLEN_def
  by (auto simp: not_less intro!: csafe_mono [OF csafe_statcheck_loop])

lemma statcheck_convM2D_lemma:
  assumes "statcheck b = Inr ()" and "has_room room (length b)"
  shows "\<exists>d. convM2D b room = Inr (length b, d)"
proof -
  have len: "49 \<le> length b" and l: "statcheck_loop 4 b 41 = Inr (length b)"
    using assms(1) by (auto simp: statcheck_def STATFIXLEN_def cbind_eq_Inr_iff)
  obtain d0 e where e: "length e = 41" and c: "convM2D b room =
      cbind (getstrs 4 room (e, drop 41 b)) (\<lambda>(ss, (e, p)). Inr (length e, setstrs d0 room ss))"
    using convM2D_head [OF len] by blast
  have "has_room room (length b - 41)"
    using assms(2) by (auto simp: has_room_def split: option.splits)
  from statcheck_getstrs [OF l this, of e] c e len show ?thesis by auto
qed

section \<open>Properties\<close>

text \<open>
  %%convD2M_total%%. What \<open>convD2M\<close> does for every directory entry: a buffer that cannot hold
  the size field returns 0, one that cannot hold the entry gets the two bytes of its size, any
  other gets the whole entry, of the length that \<open>sizeD2M\<close> announces.
\<close>

theorem convD2M_total:
  assumes "STATFIXLEN + sum_list (map length (dir_strs d)) < 2 ^ 31"
  shows "sizeD2M d = Inr (of_nat (length (dir_wire d)))
    \<and> convD2M d nbuf = (if nbuf < 2 then Inl (Raise ''0'')
      else if unat nbuf < length (dir_wire d) then Inr (take 2 (dir_wire d)) else Inr (dir_wire d))"
  using assms convD2M_spec [OF assms, of nbuf]
  by (simp add: sizeD2M_def dir_strlen_def Let_def length_dir_wire)

definition dir_example :: dir where
  "dir_example = \<lparr>d_type = 77, d_dev = 3, d_qid = \<lparr>q_path = 2 ^ 40, q_vers = 1, q_type = 128\<rparr>,
     d_mode = 2 ^ 31, d_atime = 5, d_mtime = 6, d_length = 4096, d_name = Some [117, 115, 114],
     d_uid = Some [98], d_gid = None, d_muid = Some []\<rparr>"

theorem convD2M_total_witness:
  "sizeD2M dir_example = Inr 53 \<and> convD2M dir_example 52 = Inr (take 2 (dir_wire dir_example))
   \<and> convD2M dir_example 53 = Inr (dir_wire dir_example)"
proof -
  have "STATFIXLEN + sum_list (map length (dir_strs dir_example)) < 2 ^ 31"
    by (simp add: STATFIXLEN_def dir_strs_def dir_example_def str_def)
  then show ?thesis
    using convD2M_total [of dir_example 52] convD2M_total [of dir_example 53]
    by (simp add: length_dir_wire STATFIXLEN_def dir_strs_def dir_example_def str_def)
qed

text \<open>
  %%convM2D_convD2M%%. Round trip of a directory entry: what \<open>convD2M\<close> stores passes
  \<open>statcheck\<close> and is read back by \<open>convM2D\<close> with every field intact, a nil string as the
  empty string, as long as the entry's size fits its 16-bit size field.
\<close>

theorem convM2D_convD2M:
  assumes "list_all str_ok (dir_strs d)" and "length (dir_wire d) < 65538"
    and "convD2M d nbuf = Inr out" and "length (dir_wire d) \<le> unat nbuf"
    and "sum_list (map (\<lambda>s. 1 + length s) (dir_strs d)) \<le> r"
  shows "statcheck out = Inr () \<and> convM2D out (Some r) = Inr (length out, dir_strings_set d)"
proof -
  have ns: "47 + sum_list (map length (dir_strs d)) < 65536"
    using assms(2) by (simp add: length_dir_wire STATFIXLEN_def)
  then have "STATFIXLEN + sum_list (map length (dir_strs d)) < 2 ^ 31"
    by (simp add: STATFIXLEN_def)
  moreover have "\<not> nbuf < 2"
    using assms(4) by (simp add: word_less_nat_alt length_dir_wire STATFIXLEN_def)
  ultimately have "out = dir_wire d"
    using convD2M_spec [of d nbuf] assms(3,4) by (simp add: length_dir_wire)
  then show ?thesis
    using statcheck_dir_wire [OF assms(1) ns] convM2D_dir_wire [OF assms(1,5), of "[]"] by simp
qed

theorem convM2D_convD2M_witness:
  "statcheck (dir_wire dir_example) = Inr ()
   \<and> convM2D (dir_wire dir_example) (Some 64) = Inr (53, dir_example\<lparr>d_gid := Some []\<rparr>)"
proof -
  note ev = length_dir_wire STATFIXLEN_def dir_strs_def dir_example_def str_def
  have ok: "list_all str_ok (dir_strs dir_example)" and len: "length (dir_wire dir_example) = 53"
    by (simp_all add: ev str_ok_def)
  have out: "convD2M dir_example 64 = Inr (dir_wire dir_example)"
    by (subst convD2M_spec) (simp_all add: ev)
  have "sum_list (map (\<lambda>s. 1 + length s) (dir_strs dir_example)) \<le> 64"
    by (simp add: ev)
  from convM2D_convD2M [OF ok _ out _ this] len show ?thesis
    by (simp add: dir_strings_set_def) (simp add: dir_example_def str_def)
qed

text \<open>
  %%statcheck_convM2D%%. \<open>statcheck\<close> is enough: a buffer that passes it is parsed by
  \<open>convM2D\<close> to its last byte, given \<open>nbuf\<close> bytes at \<open>strs\<close> or none at all.
\<close>

theorem statcheck_convM2D:
  assumes "statcheck b = Inr ()" and "has_room room (length b)"
  shows "\<exists>d. convM2D b room = Inr (length b, d)"
  using assms by (rule statcheck_convM2D_lemma)

theorem statcheck_convM2D_witness:
  "\<exists>d. convM2D (dir_wire dir_example) None = Inr (length (dir_wire dir_example), d)"
  by (rule statcheck_convM2D [OF statcheck_dir_wire])
    (simp_all add: has_room_def dir_strs_def dir_example_def str_def str_ok_def)

text \<open>
  %%stat_memory_safe%%. Memory safety on arbitrary bytes: neither \<open>statcheck\<close> nor \<open>convM2D\<close>
  reads outside the buffer, and the strings \<open>convM2D\<close> copies stay inside \<open>nbuf\<close> bytes at
  \<open>strs\<close>.
\<close>

theorem stat_memory_safe:
  "statcheck b \<noteq> Inl Undef \<and> convM2D b None \<noteq> Inl Undef \<and> convM2D b (Some (length b)) \<noteq> Inl Undef"
  using csafe_statcheck [of b] csafe_convM2D [of None b] csafe_convM2D [of "Some (length b)" b]
  by (simp add: csafe_not_Undef has_room_def)

end
