(* ===== verification/Rune.thy ===== *)
theory Rune
  imports Inferno_Prelude
begin

text \<open>
  UTF-8 conversion, \<^verbatim>\<open>src/lib9/rune.c\<close>: the conversions \<open>chartorune\<close> and \<open>runetochar\<close>
  with their bit masks as written, the length routines, and a proof that they are RFC 3629 UTF-8
  on numbers (\<open>utf8_enc\<close>), with invalid runes replaced by the error rune.
\<close>

section \<open>Constants\<close>

definition UTFmax :: nat where "UTFmax = 4"
definition Runeself :: u32 where "Runeself = 0x80"
definition Runesync :: u32 where "Runesync = 0x80"
definition Runeerror :: u32 where "Runeerror = 0xFFFD"
definition Runemax :: u32 where "Runemax = 0x10FFFF"

definition Bit :: "nat \<Rightarrow> nat" where "Bit i = 7 - i"
definition T :: "nat \<Rightarrow> u32" where "T i = (push_bit (Bit i + 1) 1 - 1) XOR 0xFF"
definition Bitx :: nat where "Bitx = Bit 1"
definition RuneX :: "nat \<Rightarrow> u32" where "RuneX i = push_bit (Bit i + (i - 1) * Bitx) 1 - 1"
definition Tx :: u32 where "Tx = T 1"
definition Rune1 :: u32 where "Rune1 = push_bit (Bit 0 + 0 * Bitx) 1 - 1"
definition Maskx :: u32 where "Maskx = push_bit Bitx 1 - 1"
definition Testx :: u32 where "Testx = Maskx XOR 0xFF"
definition SurrogateMin :: u32 where "SurrogateMin = 0xD800"
definition SurrogateMax :: u32 where "SurrogateMax = 0xDFFF"
definition Bad :: u32 where "Bad = Runeerror"

section \<open>Conversion\<close>

text \<open>
  The loop of \<open>chartorune\<close> from \<open>i\<close> on, with \<open>c[0]\<close> and \<open>l\<close>. The string is what can be
  read from \<open>str\<close> on; the result is the rune and the number of bytes it took.
\<close>

function chartorune_loop :: "nat \<Rightarrow> u32 \<Rightarrow> u32 \<Rightarrow> byte list \<Rightarrow> (u32 \<times> nat) cres" where
  "chartorune_loop i c0 l str =
    (if i < UTFmax then
       cbind (cguard (i < length str)) (\<lambda>_.
       let c = ucast (str ! i) XOR Tx in
       if c AND Testx \<noteq> 0 then Inr (Bad, 1)
       else
         let l = push_bit Bitx l OR c in
         if c0 < T (i + 2) then
           let l = l AND RuneX (i + 1) in
           if (if i = 1 then c0 < T 2 \<or> l \<le> Rune1 else l \<le> RuneX i \<or> l > Runemax) then Inr (Bad, 1)
           else if i = 2 \<and> SurrogateMin \<le> l \<and> l \<le> SurrogateMax then Inr (Bad, 1)
           else Inr (l, i + 1)
         else chartorune_loop (i + 1) c0 l str)
     else Inr (Bad, 1))"
  by pat_completeness auto
termination
  by (relation "measure (\<lambda>(i, _). UTFmax - i)") auto

definition chartorune :: "byte list \<Rightarrow> (u32 \<times> nat) cres" where
  "chartorune str = cbind (cguard (0 < length str)) (\<lambda>_.
     let c0 = ucast (str ! 0) in
     if c0 < Tx then Inr (c0, 1) else chartorune_loop 1 c0 c0 str)"

text \<open>The bytes \<open>runetochar\<close> stores at \<open>str\<close>; their number is its return value.\<close>

function runetochar_loop :: "nat \<Rightarrow> u32 \<Rightarrow> byte list" where
  "runetochar_loop i c =
    (if i < UTFmax + 1 then
       let c = (if i = 3 then
                  let c = (if c > Runemax then Runeerror else c) in
                  if SurrogateMin \<le> c \<and> c \<le> SurrogateMax then Runeerror else c
                else c) in
       if c \<le> RuneX i \<or> i = UTFmax then
         ucast (T i OR drop_bit ((i - 1) * Bitx) c)
           # map (\<lambda>j. ucast (Tx OR (drop_bit ((i - j - 1) * Bitx) c AND Maskx))) [1..<i]
       else runetochar_loop (i + 1) c
     else [])"
  by pat_completeness auto
termination
  by (relation "measure (\<lambda>(i, _). UTFmax + 1 - i)") (auto simp: Let_def)

definition runetochar :: "u32 \<Rightarrow> byte list" where
  "runetochar c = (if c \<le> Rune1 then [ucast c] else runetochar_loop 2 c)"

definition runelen :: "u64 \<Rightarrow> nat" where
  "runelen c = length (runetochar (ucast c))"

text \<open>The inner loop of \<open>runenlen\<close>.\<close>

function runenlen_loop :: "nat \<Rightarrow> u32 \<Rightarrow> nat" where
  "runenlen_loop i c =
    (if i < UTFmax + 1 then
       if c \<le> RuneX i \<or> i = UTFmax then i else runenlen_loop (i + 1) c
     else 0)"
  by pat_completeness auto
termination
  by (relation "measure (\<lambda>(i, _). UTFmax + 1 - i)") auto

fun runenlen :: "u32 list \<Rightarrow> nat" where
  "runenlen [] = 0"
| "runenlen (c # r) = (if c \<le> Rune1 then 1 else runenlen_loop 2 c) + runenlen r"

function fullrune_loop :: "nat \<Rightarrow> u32 \<Rightarrow> nat \<Rightarrow> bool" where
  "fullrune_loop i c n =
    (if i < UTFmax + 1 then
       if c < T i then n \<ge> i - 1 else fullrune_loop (i + 1) c n
     else n \<ge> UTFmax)"
  by pat_completeness auto
termination
  by (relation "measure (\<lambda>(i, _). UTFmax + 1 - i)") auto

definition fullrune :: "byte list \<Rightarrow> nat \<Rightarrow> bool cres" where
  "fullrune str n = (if n = 0 then Inr False
     else cbind (cguard (0 < length str)) (\<lambda>_.
       let c = ucast (str ! 0) in
       if c < Tx then Inr True else Inr (fullrune_loop 3 c n)))"

section \<open>Reference codec\<close>

text \<open>UTF-8 as RFC 3629 defines it, on numbers.\<close>

definition scalar :: "nat \<Rightarrow> bool" where
  "scalar r \<longleftrightarrow> r < 0x110000 \<and> \<not> (0xD800 \<le> r \<and> r < 0xE000)"

definition utf8_enc :: "nat \<Rightarrow> nat list" where
  "utf8_enc r =
    (if r < 0x80 then [r]
     else if r < 0x800 then [192 + r div 64, 128 + r mod 64]
     else if r < 0x10000 then [224 + r div 4096, 128 + r div 64 mod 64, 128 + r mod 64]
     else [240 + r div 262144, 128 + r div 4096 mod 64, 128 + r div 64 mod 64, 128 + r mod 64])"

section \<open>Evaluation of the constants\<close>

lemmas rune_consts = Bit_def T_def Bitx_def RuneX_def Tx_def Rune1_def Maskx_def Testx_def UTFmax_def
  SurrogateMin_def SurrogateMax_def Bad_def Runeerror_def Runemax_def

lemma rune_values [simp]:
  "Tx = 0x80" "T 1 = 0x80" "T 2 = 0xC0" "T 3 = 0xE0" "T 4 = 0xF0" "T 5 = 0xF8" "Rune1 = 0x7F" "RuneX 2 = 0x7FF"
  "RuneX 3 = 0xFFFF" "RuneX 4 = 0x1FFFFF" "Maskx = 0x3F" "Testx = 0xC0" "Bitx = 6" "UTFmax = 4"
  by (simp_all add: rune_consts)

declare chartorune_loop.simps [simp del] runetochar_loop.simps [simp del]
  runenlen_loop.simps [simp del] fullrune_loop.simps [simp del]

section \<open>Bit operations as arithmetic\<close>

lemma or_eq_add_nat:
  fixes m n k :: nat
  assumes "n < 2 ^ k"
  shows "m * 2 ^ k OR n = m * 2 ^ k + n"
proof -
  have "n = take_bit k n" using assms by (simp add: take_bit_nat_eq_self)
  then have "bit n i \<Longrightarrow> i < k" for i by (metis bit_take_bit_iff)
  then have "push_bit k m AND n = 0"
    by (auto intro!: bit_eqI simp: bit_simps dest!: leD)
  then have "push_bit k m + n = push_bit k m OR n" by (rule disjunctive_add_eq_or)
  then show ?thesis by (simp add: push_bit_eq_mult)
qed

lemma or_prefix_nat:
  "n < 64 \<Longrightarrow> (128 :: nat) OR n = 128 + n" "n < 32 \<Longrightarrow> (192 :: nat) OR n = 192 + n"
  "n < 16 \<Longrightarrow> (224 :: nat) OR n = 224 + n" "n < 8 \<Longrightarrow> (240 :: nat) OR n = 240 + n"
  using or_eq_add_nat [of n 6 2] or_eq_add_nat [of n 5 6] or_eq_add_nat [of n 4 14] or_eq_add_nat [of n 3 30]
  by simp_all

lemma and_mask_nat:
  "(n :: nat) AND 63 = n mod 64" "n AND 2047 = n mod 2048" "n AND 65535 = n mod 65536"
  "n AND 2097151 = n mod 2097152"
  using take_bit_eq_mask [of 6 n] take_bit_eq_mask [of 11 n] take_bit_eq_mask [of 16 n]
    take_bit_eq_mask [of 21 n]
  by (simp_all add: take_bit_eq_mod mask_eq_exp_minus_1)

lemmas unat_bits = unsigned_or_eq unsigned_and_eq unat_drop_bit_eq unsigned_push_bit_eq unsigned_ucast_eq
  and_mask_nat drop_bit_eq_div [where 'a = nat] push_bit_eq_mult [where 'a = nat]
  take_bit_eq_mod [where 'a = nat] mod_mod_cancel

lemma unat_byte_lt [simp]: "unat (b :: byte) < 256"
  using unsigned_less [of b, where 'a = nat] by simp

lemma unat_bytes_enc:
  "unat (c :: u32) < 0x800 \<Longrightarrow> unat (ucast (0xC0 OR drop_bit 6 c) :: byte) = 192 + unat c div 64"
  "unat c < 0x10000 \<Longrightarrow> unat (ucast (0xE0 OR drop_bit 12 c) :: byte) = 224 + unat c div 4096"
  "unat c < 0x200000 \<Longrightarrow> unat (ucast (0xF0 OR drop_bit 18 c) :: byte) = 240 + unat c div 262144"
  "unat (ucast (0x80 OR (c AND 0x3F)) :: byte) = 128 + unat c mod 64"
  "unat (ucast (0x80 OR (drop_bit 6 c AND 0x3F)) :: byte) = 128 + unat c div 64 mod 64"
  "unat (ucast (0x80 OR (drop_bit 12 c AND 0x3F)) :: byte) = 128 + unat c div 4096 mod 64"
  by (simp_all add: unat_bits or_prefix_nat less_mult_imp_div_less)

lemma upt_from_1 [simp]:
  "[Suc 0..<2] = [1]" "[Suc 0..<3] = [1, 2]" "[Suc 0..<4] = [1, 2, 3]"
  by (simp_all add: upt_rec)

definition repaired :: "u32 \<Rightarrow> nat" where
  "repaired c = (if scalar (unat c) then unat c else 0xFFFD)"

lemma unat_leq_consts:
  "(c :: u32) \<le> 0x7F \<longleftrightarrow> unat c < 0x80" "c \<le> 0x7FF \<longleftrightarrow> unat c < 0x800"
  "c \<le> 0xFFFF \<longleftrightarrow> unat c < 0x10000" "c \<le> 0x1FFFFF \<longleftrightarrow> unat c < 0x200000" "c > 0x10FFFF \<longleftrightarrow> unat c \<ge> 0x110000"
  "0xD800 \<le> c \<longleftrightarrow> 0xD800 \<le> unat c" "c \<le> 0xDFFF \<longleftrightarrow> unat c < 0xE000"
  by (auto simp: word_le_nat_alt word_less_nat_alt)

lemma runetochar_loop_3:
  assumes "0x800 \<le> unat c"
  shows "map unat (runetochar_loop 3 c) = utf8_enc (repaired c)"
proof -
  let ?c = "of_nat (repaired c) :: u32"
  have c: "unat ?c = repaired c" and lt: "repaired c < 0x110000" and ge: "0x800 \<le> repaired c"
    using assms unat_bound_u32 [of c] by (auto simp: repaired_def scalar_def unat_of_nat)
  have "runetochar_loop 3 c = (if unat ?c < 0x10000
      then [ucast (0xE0 OR drop_bit 12 ?c), ucast (0x80 OR (drop_bit 6 ?c AND 0x3F)), ucast (0x80 OR (?c AND 0x3F))]
      else [ucast (0xF0 OR drop_bit 18 ?c), ucast (0x80 OR (drop_bit 12 ?c AND 0x3F)),
            ucast (0x80 OR (drop_bit 6 ?c AND 0x3F)), ucast (0x80 OR (?c AND 0x3F))])"
    by (simp add: runetochar_loop.simps [of 3] runetochar_loop.simps [of 4] Let_def repaired_def scalar_def
        unat_leq_consts Runeerror_def Runemax_def SurrogateMin_def SurrogateMax_def)
  with c lt ge show ?thesis
    by (simp add: unat_bytes_enc utf8_enc_def unat_drop_bit_eq drop_bit_eq_div [where 'a = nat])
qed

lemma runetochar_enc: "map unat (runetochar c) = utf8_enc (repaired c)"
proof (cases "unat c < 0x800")
  case True
  then show ?thesis
    by (auto simp: runetochar_def runetochar_loop.simps [of 2] Let_def unat_leq_consts utf8_enc_def
        repaired_def scalar_def unat_bytes_enc unat_bits less_mult_imp_div_less or_prefix_nat)
next
  case False
  then show ?thesis
    using runetochar_loop_3 [of c]
    by (simp add: runetochar_def runetochar_loop.simps [of 2] Let_def unat_leq_consts)
qed

definition cont :: "nat \<Rightarrow> bool" where "cont b \<longleftrightarrow> 128 \<le> b \<and> b < 192"

lemma cont_diff_le: "cont b \<Longrightarrow> b - 128 \<le> 63"
  by (auto simp: cont_def)

lemma unat_byte_le: "unat (b :: byte) \<le> 255"
  using unat_byte_lt [of b] by linarith

lemma word_eq_of_nat: "unat (w :: u32) = n \<Longrightarrow> w = of_nat n"
  by auto

lemma shifted_bounds:
  fixes x y z :: nat
  assumes "x \<le> 255" and "y \<le> 63"
  shows "64 * x + y < 16384" and "z \<le> 63 \<Longrightarrow> 64 * (64 * x + y) + z < 1048576"
  using assms by simp_all

lemma bit_192_iff: "bit (192 :: nat) i \<longleftrightarrow> i = 6 \<or> i = 7"
proof -
  have "bit (192 :: nat) i \<longleftrightarrow> bit (push_bit 6 (mask 2 :: nat)) i"
    by (simp add: push_bit_eq_mult mask_eq_exp_minus_1)
  then show ?thesis by (auto simp: bit_simps)
qed

lemma and_192_iff: "(n :: nat) AND 192 = 0 \<longleftrightarrow> \<not> bit n 6 \<and> \<not> bit n 7"
proof -
  have "n AND 192 = 0 \<longleftrightarrow> (\<forall>i. \<not> bit (n AND 192) i)" by (auto intro: bit_eqI)
  then show ?thesis by (auto simp: bit_and_iff bit_192_iff)
qed

lemma bit_128_iff: "bit (128 :: nat) i \<longleftrightarrow> i = 7"
  using bit_exp_iff [where 'a = nat, of 7 i] by simp

lemma cont_xor:
  assumes "n < 256"
  shows "(n XOR 128) AND 192 = (0 :: nat) \<longleftrightarrow> cont n" and "cont n \<Longrightarrow> n XOR 128 = n - 128"
proof -
  have "(n XOR 128) AND 192 = 0 \<longleftrightarrow> \<not> bit n 6 \<and> bit n 7"
    unfolding and_192_iff bit_xor_iff bit_128_iff by simp
  also have "\<dots> \<longleftrightarrow> even (n div 64) \<and> odd (n div 128)"
    by (simp add: bit_iff_odd)
  also have "\<dots> \<longleftrightarrow> cont n"
  proof -
    have "n div 128 = n div 64 div 2" by (simp add: div_mult2_eq [symmetric])
    moreover have "n div 64 \<in> {0, 1, 2, 3}" using assms by auto
    moreover have "n div 64 = 2 \<longleftrightarrow> cont n" unfolding cont_def by auto
    ultimately show ?thesis by auto
  qed
  finally show "(n XOR 128) AND 192 = (0 :: nat) \<longleftrightarrow> cont n" .
next
  assume "cont n"
  then have n: "n = (n - 128) + 128" and lt: "n - 128 < 2 ^ 7" by (auto simp: cont_def)
  have "n - 128 = take_bit 7 (n - 128)" using lt by (simp add: take_bit_nat_eq_self)
  then have "\<not> bit (n - 128) 7" by (metis bit_take_bit_iff less_irrefl)
  then have "(n - 128) AND 128 = 0"
    by (auto intro!: bit_eqI simp: bit_and_iff bit_128_iff)
  then have "(n - 128) + 128 = (n - 128) XOR 128" by (rule disjunctive_add_eq_xor)
  with n show "n XOR 128 = n - 128" by (metis xor.assoc xor.right_neutral xor_self_eq)
qed

lemma cont_byte:
  fixes b :: byte
  shows "(ucast b XOR 0x80 :: u32) AND 0xC0 = 0 \<longleftrightarrow> cont (unat b)"
    and "cont (unat b) \<Longrightarrow> unat (ucast b XOR 0x80 :: u32) = unat b - 128"
proof -
  have u: "unat (ucast b XOR 0x80 :: u32) = unat b XOR 128"
    by (simp add: unsigned_xor_eq unsigned_ucast_eq take_bit_nat_eq_self order_less_trans [OF unat_byte_lt])
  have "(ucast b XOR 0x80 :: u32) AND 0xC0 = 0 \<longleftrightarrow> unat ((ucast b XOR 0x80 :: u32) AND 0xC0) = 0"
    by (simp add: unat_eq_zero)
  also have "\<dots> \<longleftrightarrow> (unat b XOR 128) AND 192 = 0"
    by (simp only: unsigned_and_eq u) simp
  finally show "(ucast b XOR 0x80 :: u32) AND 0xC0 = 0 \<longleftrightarrow> cont (unat b)"
    by (simp add: cont_xor(1))
  show "cont (unat b) \<Longrightarrow> unat (ucast b XOR 0x80 :: u32) = unat b - 128"
    by (simp add: u cont_xor(2))
qed

lemma unat_shift_in:
  fixes l c :: u32
  assumes "unat c < 64" and "unat l < 2 ^ 26"
  shows "unat (push_bit 6 l OR c) = 64 * unat l + unat c"
proof -
  have "unat (push_bit 6 l) = take_bit 32 (push_bit 6 (unat l))"
    by (simp only: unsigned_push_bit_eq) simp
  also have "\<dots> = unat l * 2 ^ 6"
    using assms(2) by (simp add: push_bit_eq_mult take_bit_nat_eq_self)
  finally have "unat (push_bit 6 l) = unat l * 2 ^ 6" .
  then show ?thesis
    unfolding unsigned_or_eq using or_eq_add_nat [of "unat c" 6 "unat l"] assms(1) by simp
qed

text \<open>One accepted continuation byte, and a rejected one.\<close>

lemma shift_cont:
  fixes b :: byte
  assumes "cont (unat b)" and "unat l < 2 ^ 26"
  shows "unat (push_bit 6 l OR (ucast b XOR 0x80) :: u32) = 64 * unat l + (unat b - 128)"
  using assms by (subst unat_shift_in) (auto simp: cont_byte(2) cont_def)

definition dec_nat :: "nat list \<Rightarrow> (nat \<times> nat) option" where
  "dec_nat bs = (case bs of
     [] \<Rightarrow> None
   | b0 # s1 \<Rightarrow>
       if b0 < 128 then Some (b0, 1)
       else case s1 of [] \<Rightarrow> None
       | b1 # s2 \<Rightarrow>
         if \<not> cont b1 then Some (0xFFFD, 1)
         else if b0 < 224 then
           let l = (64 * b0 + (b1 - 128)) mod 2048
           in if b0 < 192 \<or> l < 128 then Some (0xFFFD, 1) else Some (l, 2)
         else case s2 of [] \<Rightarrow> None
         | b2 # s3 \<Rightarrow>
           if \<not> cont b2 then Some (0xFFFD, 1)
           else if b0 < 240 then
             let l = (64 * (64 * b0 + (b1 - 128)) + (b2 - 128)) mod 65536
             in if l < 2048 \<or> 0xD800 \<le> l \<and> l < 0xE000 then Some (0xFFFD, 1) else Some (l, 3)
           else case s3 of [] \<Rightarrow> None
           | b3 # _ \<Rightarrow>
             if \<not> cont b3 then Some (0xFFFD, 1)
             else if b0 < 248 then
               let l = (64 * (64 * (64 * b0 + (b1 - 128)) + (b2 - 128)) + (b3 - 128)) mod 2097152
               in if l < 65536 \<or> 0x10FFFF < l then Some (0xFFFD, 1) else Some (l, 4)
             else Some (0xFFFD, 1))"

lemma unat_lt_T:
  "(ucast (b :: byte) :: u32) < 0x80 \<longleftrightarrow> unat b < 128" "(ucast b :: u32) < 0xC0 \<longleftrightarrow> unat b < 192"
  "(ucast b :: u32) < 0xE0 \<longleftrightarrow> unat b < 224"
  "(ucast b :: u32) < 0xF0 \<longleftrightarrow> unat b < 240" "(ucast b :: u32) < 0xF8 \<longleftrightarrow> unat b < 248"
  by (simp_all add: word_less_nat_alt unsigned_ucast_eq take_bit_nat_eq_self order_less_trans [OF unat_byte_lt])

lemma unat_ucast_byte [simp]: "unat (ucast (b :: byte) :: u32) = unat b"
  by (simp add: unsigned_ucast_eq take_bit_nat_eq_self order_less_trans [OF unat_byte_lt])

definition of_dec :: "(nat \<times> nat) option \<Rightarrow> (u32 \<times> nat) cres" where
  "of_dec r = (case r of None \<Rightarrow> Inl Undef | Some (l, n) \<Rightarrow> Inr (of_nat l, n))"

lemma chartorune_loop_3:
  assumes s: "s = b0 # b1 # b2 # s3" and c: "cont (unat b1)" "cont (unat b2)" "240 \<le> unat b0"
    and l: "unat l = 64 * (64 * unat b0 + (unat b1 - 128)) + (unat b2 - 128)"
  shows "chartorune_loop 3 (ucast b0) l s = of_dec (dec_nat (map unat s))"
proof (cases s3)
  case Nil
  with assms show ?thesis
    by (simp add: chartorune_loop.simps [of 3] dec_nat_def of_dec_def)
next
  case (Cons b3 s4)
  show ?thesis
  proof (cases "cont (unat b3)")
    case True
    let ?l = "push_bit 6 l OR (ucast b3 XOR 0x80) :: u32"
    have lt: "unat l < 1048576"
      unfolding l by (intro shifted_bounds cont_diff_le c unat_byte_le)
    have ul: "unat ?l = 64 * unat l + (unat b3 - 128)"
      using True lt by (intro shift_cont) simp_all
    have uand: "unat (?l AND 0x1FFFFF) = (64 * unat l + (unat b3 - 128)) mod 2097152"
      unfolding unsigned_and_eq ul by (simp add: and_mask_nat)
    then have w: "?l AND 0x1FFFFF = of_nat ((64 * unat l + (unat b3 - 128)) mod 2097152)"
      by (rule word_eq_of_nat)
    show ?thesis
      using s c Cons True uand w
      by (simp add: chartorune_loop.simps [of 3] chartorune_loop.simps [of 4] dec_nat_def of_dec_def
          Let_def cont_byte(1) unat_lt_T unat_leq_consts Bad_def Runeerror_def Runemax_def
          l)
  next
    case False
    with assms Cons show ?thesis
      by (simp add: chartorune_loop.simps [of 3] dec_nat_def of_dec_def Let_def cont_byte(1)
          Bad_def Runeerror_def)
  qed
qed


lemma chartorune_loop_2:
  assumes s: "s = b0 # b1 # s2" and c: "cont (unat b1)" "224 \<le> unat b0"
    and l: "unat l = 64 * unat b0 + (unat b1 - 128)"
  shows "chartorune_loop 2 (ucast b0) l s = of_dec (dec_nat (map unat s))"
proof (cases s2)
  case Nil
  with assms show ?thesis
    by (simp add: chartorune_loop.simps [of 2] dec_nat_def of_dec_def)
next
  case (Cons b2 s3)
  let ?l = "push_bit 6 l OR (ucast b2 XOR 0x80) :: u32"
  have lt: "unat l < 16384"
    unfolding l by (intro shifted_bounds cont_diff_le c unat_byte_le)
  have ul: "unat ?l = 64 * unat l + (unat b2 - 128)" if "cont (unat b2)"
    using that lt by (intro shift_cont) simp_all
  consider "\<not> cont (unat b2)" | "cont (unat b2)" "unat b0 < 240" | "cont (unat b2)" "240 \<le> unat b0"
    by linarith
  then show ?thesis
  proof cases
    case 1
    with assms Cons show ?thesis
      by (simp add: chartorune_loop.simps [of 2] dec_nat_def of_dec_def Let_def cont_byte(1)
          Bad_def Runeerror_def)
  next
    case 2
    have uand: "unat (?l AND 0xFFFF) = (64 * unat l + (unat b2 - 128)) mod 65536"
      unfolding unsigned_and_eq ul [OF 2(1)] by (simp add: and_mask_nat)
    then have w: "?l AND 0xFFFF = of_nat ((64 * unat l + (unat b2 - 128)) mod 65536)"
      by (rule word_eq_of_nat)
    have "\<not> 0x110000 \<le> (64 * unat l + (unat b2 - 128)) mod 65536"
      by (simp add: not_le less_trans [of _ 65536])
    with s Cons 2 c uand w show ?thesis
      by (simp add: chartorune_loop.simps [of 2] dec_nat_def of_dec_def Let_def cont_byte(1) unat_lt_T
          unat_leq_consts Bad_def Runeerror_def Runemax_def SurrogateMin_def SurrogateMax_def
          l [symmetric])
  next
    case 3
    have "chartorune_loop 3 (ucast b0) ?l s = of_dec (dec_nat (map unat s))"
      by (rule chartorune_loop_3) (use assms Cons 3 ul in auto)
    with assms Cons 3 show ?thesis
      by (simp add: chartorune_loop.simps [of 2] Let_def cont_byte(1) unat_lt_T)
  qed
qed

lemma chartorune_dec: "chartorune s = of_dec (dec_nat (map unat s))"
proof (cases s rule: list.exhaust [case_names Nil Cons])
  case Nil
  then show ?thesis by (simp add: chartorune_def dec_nat_def of_dec_def)
next
  case (Cons b0 s1)
  have "chartorune_loop 1 (ucast b0) (ucast b0) s = of_dec (dec_nat (map unat s))" if b0: "128 \<le> unat b0"
  proof (cases s1)
    case Nil
    with Cons b0 show ?thesis
      by (simp add: chartorune_loop.simps [of "Suc 0"] dec_nat_def of_dec_def)
  next
    case (Cons b1 s2)
    note s = \<open>s = b0 # s1\<close> Cons
    let ?l = "push_bit 6 (ucast b0) OR (ucast b1 XOR 0x80) :: u32"
    have ul: "unat ?l = 64 * unat b0 + (unat b1 - 128)" if "cont (unat b1)"
      using that shift_cont [of b1 "ucast b0"] unat_byte_lt [of b0] by simp
    consider "\<not> cont (unat b1)" | "cont (unat b1)" "unat b0 < 224" | "cont (unat b1)" "224 \<le> unat b0"
      by linarith
    then show ?thesis
    proof cases
      case 1
      with s b0 show ?thesis
        by (simp add: chartorune_loop.simps [of "Suc 0"] dec_nat_def of_dec_def Let_def cont_byte(1)
            Bad_def Runeerror_def)
    next
      case 2
      have uand: "unat (?l AND 0x7FF) = (64 * unat b0 + (unat b1 - 128)) mod 2048"
        unfolding unsigned_and_eq ul [OF 2(1)] by (simp add: and_mask_nat)
      with s b0 2 show ?thesis
        by (simp add: chartorune_loop.simps [of "Suc 0"] dec_nat_def of_dec_def Let_def cont_byte(1) unat_lt_T
            unat_leq_consts Bad_def Runeerror_def numeral_2_eq_2 [symmetric] numeral_3_eq_3 [symmetric]
            flip: uand)
    next
      case 3
      have "chartorune_loop 2 (ucast b0) ?l s = of_dec (dec_nat (map unat s))"
        by (rule chartorune_loop_2) (use s 3 ul in auto)
      with s b0 3 show ?thesis
        by (simp add: chartorune_loop.simps [of "Suc 0"] Let_def cont_byte(1) unat_lt_T
            numeral_2_eq_2 [symmetric] numeral_3_eq_3 [symmetric])
    qed
  qed
  with Cons show ?thesis
    by (cases "unat b0 < 128") (simp_all add: chartorune_def Let_def unat_lt_T dec_nat_def of_dec_def)
qed

section \<open>The codec on numbers\<close>

lemma base64_digits:
  fixes r :: nat
  shows "64 * (r div 64) + r mod 64 = r"
    and "64 * (64 * (r div 4096) + r div 64 mod 64) + r mod 64 = r"
    and "64 * (64 * (64 * (r div 262144) + r div 4096 mod 64) + r div 64 mod 64) + r mod 64 = r"
proof -
  have d: "64 * (n div 64) + n mod 64 = n" for n :: nat by simp
  have e: "r div 4096 = r div 64 div 64" "r div 262144 = r div 4096 div 64"
    by (simp_all add: div_mult2_eq [symmetric])
  show "64 * (r div 64) + r mod 64 = r" by (rule d)
  show f: "64 * (64 * (r div 4096) + r div 64 mod 64) + r mod 64 = r"
    by (simp only: e(1) d)
  have "64 * (r div 262144) + r div 4096 mod 64 = r div 4096" by (simp only: e(2) d)
  then show "64 * (64 * (64 * (r div 262144) + r div 4096 mod 64) + r div 64 mod 64) + r mod 64 = r"
    using f by simp
qed

lemma cont_enc [simp]: "cont (128 + n mod 64)"
  by (simp add: cont_def)

lemma lead_mod:
  fixes r :: nat
  shows "r < 2048 \<Longrightarrow> (64 * (192 + r div 64) + r mod 64) mod 2048 = r"
    and "r < 65536 \<Longrightarrow> (64 * (64 * (224 + r div 4096) + r div 64 mod 64) + r mod 64) mod 65536 = r"
    and "r < 2097152 \<Longrightarrow>
      (64 * (64 * (64 * (240 + r div 262144) + r div 4096 mod 64) + r div 64 mod 64) + r mod 64) mod 2097152 = r"
proof -
  have "64 * (192 + r div 64) + r mod 64 = r + 6 * 2048"
    and "64 * (64 * (224 + r div 4096) + r div 64 mod 64) + r mod 64 = r + 14 * 65536"
    and "64 * (64 * (64 * (240 + r div 262144) + r div 4096 mod 64) + r div 64 mod 64) + r mod 64 = r + 30 * 2097152"
    using base64_digits [of r] by simp_all
  then show "r < 2048 \<Longrightarrow> (64 * (192 + r div 64) + r mod 64) mod 2048 = r"
    and "r < 65536 \<Longrightarrow> (64 * (64 * (224 + r div 4096) + r div 64 mod 64) + r mod 64) mod 65536 = r"
    and "r < 2097152 \<Longrightarrow>
      (64 * (64 * (64 * (240 + r div 262144) + r div 4096 mod 64) + r div 64 mod 64) + r mod 64) mod 2097152 = r"
    by (simp_all only: mod_mult_self1 mod_less)
qed

lemma dec_enc_nat:
  assumes "scalar r"
  shows "dec_nat (utf8_enc r @ p) = Some (r, length (utf8_enc r))"
proof -
  consider "r < 128" | "128 \<le> r" "r < 2048" | "2048 \<le> r" "r < 65536" | "65536 \<le> r" "r < 1114112"
    using assms unfolding scalar_def by linarith
  then show ?thesis
  proof cases
    case 1
    then show ?thesis by (simp add: utf8_enc_def dec_nat_def)
  next
    case 2
    have d: "192 + r div 64 < 224" using 2 by (simp add: less_mult_imp_div_less)
    show ?thesis
      using 2 d lead_mod(1) [OF 2(2)] by (simp add: utf8_enc_def dec_nat_def Let_def del: distrib_left_numeral)
  next
    case 3
    have d: "224 + r div 4096 < 240" using 3 by (simp add: less_mult_imp_div_less)
    show ?thesis
      using 3 d lead_mod(2) [OF 3(2)] assms
      by (simp add: utf8_enc_def dec_nat_def Let_def scalar_def del: distrib_left_numeral)
  next
    case 4
    have d: "240 + r div 262144 < 248" using 4 by (simp add: less_mult_imp_div_less)
    show ?thesis
      using 4 d lead_mod(3) by (simp add: utf8_enc_def dec_nat_def Let_def del: distrib_left_numeral)
  qed
qed

lemma digits_64:
  fixes x y z w :: nat
  assumes "x < 64" and "y < 64" and "z < 64"
  shows "(64 * w + x) div 64 = w" and "(64 * w + x) mod 64 = x"
    and "(64 * (64 * w + y) + x) div 4096 = w" and "(64 * (64 * w + y) + x) div 64 = 64 * w + y"
    and "(64 * (64 * w + y) + x) mod 64 = x"
    and "(64 * (64 * (64 * w + z) + y) + x) div 262144 = w"
    and "(64 * (64 * (64 * w + z) + y) + x) div 4096 = 64 * w + z"
    and "(64 * (64 * (64 * w + z) + y) + x) div 64 = 64 * (64 * w + z) + y"
    and "(64 * (64 * (64 * w + z) + y) + x) mod 64 = x"
proof -
  have d: "(64 * v + u) div 64 = v" "(64 * v + u) mod 64 = u" if "u < 64" for u v :: nat
    using that by simp_all
  have e: "n div 4096 = n div 64 div 64" "n div 262144 = n div 64 div 64 div 64" for n :: nat
    by (simp_all add: div_mult2_eq [symmetric])
  show "(64 * w + x) div 64 = w" "(64 * w + x) mod 64 = x"
    "(64 * (64 * w + y) + x) div 4096 = w" "(64 * (64 * w + y) + x) div 64 = 64 * w + y"
    "(64 * (64 * w + y) + x) mod 64 = x"
    "(64 * (64 * (64 * w + z) + y) + x) div 262144 = w"
    "(64 * (64 * (64 * w + z) + y) + x) div 4096 = 64 * w + z"
    "(64 * (64 * (64 * w + z) + y) + x) div 64 = 64 * (64 * w + z) + y"
    "(64 * (64 * (64 * w + z) + y) + x) mod 64 = x"
    by (simp_all only: e d assms)
qed

lemma lead_strip:
  fixes w x y z :: nat
  assumes "x < 64" "y < 64" "z < 64"
  shows "w < 32 \<Longrightarrow> (64 * (192 + w) + x) mod 2048 = 64 * w + x"
    and "w < 16 \<Longrightarrow> (64 * (64 * (224 + w) + y) + x) mod 65536 = 64 * (64 * w + y) + x"
    and "w < 8 \<Longrightarrow> (64 * (64 * (64 * (240 + w) + z) + y) + x) mod 2097152 = 64 * (64 * (64 * w + z) + y) + x"
proof -
  have e: "64 * (192 + w) + x = 64 * w + x + 6 * 2048"
    "64 * (64 * (224 + w) + y) + x = 64 * (64 * w + y) + x + 14 * 65536"
    "64 * (64 * (64 * (240 + w) + z) + y) + x = 64 * (64 * (64 * w + z) + y) + x + 30 * 2097152"
    by simp_all
  show "w < 32 \<Longrightarrow> (64 * (192 + w) + x) mod 2048 = 64 * w + x"
    unfolding e mod_mult_self1 by (rule mod_less) (use assms in simp)
  show "w < 16 \<Longrightarrow> (64 * (64 * (224 + w) + y) + x) mod 65536 = 64 * (64 * w + y) + x"
    unfolding e mod_mult_self1 by (rule mod_less) (use assms in simp)
  show "w < 8 \<Longrightarrow> (64 * (64 * (64 * (240 + w) + z) + y) + x) mod 2097152 = 64 * (64 * (64 * w + z) + y) + x"
    unfolding e mod_mult_self1 by (rule mod_less) (use assms in simp)
qed

lemma contE:
  assumes "cont b"
  obtains x where "x < 64" "b = 128 + x"
  using assms that [of "b - 128"] unfolding cont_def by simp

definition sound_dec :: "nat list \<Rightarrow> nat \<Rightarrow> nat \<Rightarrow> bool" where
  "sound_dec bs r n \<longleftrightarrow> r = 0xFFFD \<and> n = 1 \<or> scalar r \<and> take n bs = utf8_enc r"

lemma dec_nat_sound_2:
  assumes "dec_nat (b0 # b1 # s) = Some (r, n)" and "cont b1" and "192 \<le> b0" "b0 < 224"
  shows "sound_dec (b0 # b1 # s) r n"
proof -
  obtain x w where x: "x < 64" "b1 = 128 + x" and w: "w < 32" "b0 = 192 + w"
    using assms(2) that [of _ "b0 - 192"] assms(3,4) by (elim contE) simp
  let ?l = "64 * w + x"
  have "r = 0xFFFD \<and> n = 1 \<or> r = ?l \<and> n = 2 \<and> 128 \<le> ?l"
    using assms x w lead_strip(1) [of x 0 0 w]
    by (simp add: dec_nat_def Let_def del: distrib_left_numeral split: if_splits)
  moreover have "?l < 2048" using x w by linarith
  ultimately show ?thesis
    using x w digits_64 [of x 0 0 w] by (auto simp: sound_dec_def scalar_def utf8_enc_def)
qed

lemma dec_nat_sound_3:
  assumes "dec_nat (b0 # b1 # b2 # s) = Some (r, n)" and "cont b1" "cont b2" and "224 \<le> b0" "b0 < 240"
  shows "sound_dec (b0 # b1 # b2 # s) r n"
proof -
  obtain x y w where x: "x < 64" "b2 = 128 + x" and y: "y < 64" "b1 = 128 + y" and w: "w < 16" "b0 = 224 + w"
    using assms(2,3) that [of _ _ "b0 - 224"] assms(4,5) by (elim contE) simp
  let ?l = "64 * (64 * w + y) + x"
  have "r = 0xFFFD \<and> n = 1 \<or> r = ?l \<and> n = 3 \<and> 2048 \<le> ?l \<and> \<not> (0xD800 \<le> ?l \<and> ?l < 0xE000)"
    using assms x y w lead_strip(2) [of x y 0 w]
    by (simp add: dec_nat_def Let_def del: distrib_left_numeral split: if_splits)
  moreover have "?l < 65536" using x y w by simp
  ultimately show ?thesis
    using x y w digits_64 [of x y 0 w]
    by (auto simp: sound_dec_def scalar_def utf8_enc_def simp del: distrib_left_numeral)
qed

lemma dec_nat_sound_4:
  assumes "dec_nat (b0 # b1 # b2 # b3 # s) = Some (r, n)" and "cont b1" "cont b2" "cont b3" and "240 \<le> b0" "b0 < 248"
  shows "sound_dec (b0 # b1 # b2 # b3 # s) r n"
proof -
  obtain x y z w where x: "x < 64" "b3 = 128 + x" and y: "y < 64" "b2 = 128 + y" and z: "z < 64" "b1 = 128 + z"
    and w: "w < 8" "b0 = 240 + w"
    using assms(2-4) that [of _ _ _ "b0 - 240"] assms(5,6) by (elim contE) simp
  let ?l = "64 * (64 * (64 * w + z) + y) + x"
  have "r = 0xFFFD \<and> n = 1 \<or> r = ?l \<and> n = 4 \<and> 65536 \<le> ?l \<and> ?l \<le> 0x10FFFF"
    using assms x y z w lead_strip(3) [of x y z w]
    by (simp add: dec_nat_def Let_def del: distrib_left_numeral split: if_splits)
  then show ?thesis
    using x y z w digits_64 [of x y z w]
    by (auto simp: sound_dec_def scalar_def utf8_enc_def simp del: distrib_left_numeral)
qed

lemma dec_nat_sound:
  assumes "dec_nat bs = Some (r, n)"
  shows "sound_dec bs r n"
proof -
  have e: "sound_dec bs r n" if "dec_nat bs = Some (0xFFFD, 1)"
    using that assms by (simp add: sound_dec_def)
  obtain b0 s1 where s: "bs = b0 # s1" using assms by (cases bs) (simp_all add: dec_nat_def)
  show ?thesis
  proof (cases "b0 < 128")
    case True
    with s assms show ?thesis by (auto simp: dec_nat_def sound_dec_def scalar_def utf8_enc_def)
  next
    case b0: False
    then obtain b1 s2 where s1: "s1 = b1 # s2" using assms s by (cases s1) (simp_all add: dec_nat_def)
    consider "\<not> cont b1 \<or> b0 < 192" | "cont b1" "192 \<le> b0" "b0 < 224" | "cont b1" "224 \<le> b0" by linarith
    then show ?thesis
    proof cases
      case 1
      with b0 s s1 show ?thesis by (intro e) (auto simp: dec_nat_def)
    next
      case 2
      with dec_nat_sound_2 [of b0 b1 s2] s s1 assms show ?thesis by simp
    next
      case 3
      then obtain b2 s3 where s2: "s2 = b2 # s3" using assms s s1 b0 by (cases s2) (simp_all add: dec_nat_def)
      consider "\<not> cont b2" | "cont b2" "b0 < 240" | "cont b2" "240 \<le> b0" by linarith
      then show ?thesis
      proof cases
        case 1
        with 3 s s1 s2 show ?thesis by (intro e) (auto simp: dec_nat_def)
      next
        case 2
        with 3 dec_nat_sound_3 [of b0 b1 b2 s3] s s1 s2 assms show ?thesis by simp
      next
        case b2: 3
        then obtain b3 s4 where s3: "s3 = b3 # s4"
          using assms s s1 s2 3 by (cases s3) (simp_all add: dec_nat_def)
        show ?thesis
        proof (cases "cont b3 \<and> b0 < 248")
          case True
          with 3 b2 dec_nat_sound_4 [of b0 b1 b2 b3 s4] s s1 s2 s3 assms show ?thesis by simp
        next
          case False
          with 3 b2 s s1 s2 s3 show ?thesis by (intro e) (auto simp: dec_nat_def)
        qed
      qed
    qed
  qed
qed

section \<open>The codec of the code\<close>

lemma runetochar_bytes: "runetochar c = map of_nat (utf8_enc (repaired c))"
  by (simp add: runetochar_enc [symmetric] comp_def)

lemma scalar_repaired [simp]: "scalar (repaired c)"
  by (simp add: repaired_def) (simp add: scalar_def)

lemma repaired_lt: "repaired c < 0x110000"
  using scalar_repaired [of c] by (simp add: scalar_def)

lemma repaired_of_scalar: "scalar n \<Longrightarrow> repaired (of_nat n) = n"
  by (simp add: repaired_def scalar_def unat_of_nat)

lemma length_utf8_enc: "0 < length (utf8_enc r)" "length (utf8_enc r) \<le> 4"
  by (simp_all add: utf8_enc_def)

lemma length_runetochar: "length (runetochar c) = length (utf8_enc (repaired c))"
  by (simp add: runetochar_bytes)

lemma runetochar_nonempty [simp]: "runetochar c \<noteq> []"
  using length_utf8_enc(1) [of "repaired c"] by (auto simp: runetochar_bytes)

lemma chartorune_enc: "chartorune (runetochar c @ p) = Inr (of_nat (repaired c), length (runetochar c))"
  by (simp add: chartorune_dec runetochar_enc dec_enc_nat of_dec_def length_runetochar)

lemma chartorune_Inr:
  assumes "chartorune s = Inr (r, n)"
  shows "r = Runeerror \<and> n = 1 \<and> s \<noteq> [] \<or> scalar (unat r) \<and> take n s = runetochar r \<and> n = length (runetochar r)"
proof -
  from assms obtain m where m: "dec_nat (map unat s) = Some (m, n)" "r = of_nat m"
    by (auto simp: chartorune_dec of_dec_def split: option.splits)
  then have "sound_dec (map unat s) m n" by (intro dec_nat_sound)
  moreover have "s \<noteq> []" using assms by (auto simp: chartorune_def)
  moreover have "unat r = m \<and> take n s = runetochar r \<and> n = length (runetochar r)"
    if sc: "scalar m" and t: "take n (map unat s) = utf8_enc m"
  proof -
    have u: "unat r = m" using sc m(2) by (simp add: scalar_def unat_of_nat)
    then have rep: "repaired r = m" using sc by (simp add: repaired_def)
    have "take n s = map of_nat (take n (map unat s))" by (simp add: take_map comp_def)
    then have ts: "take n s = runetochar r" by (simp add: t runetochar_bytes rep)
    have n: "n \<le> 4 \<and> n \<le> length s"
      using m(1) by (auto simp: dec_nat_def Let_def split: list.splits if_splits)
    with ts show ?thesis using u by (metis length_take min_absorb2)
  qed
  ultimately show ?thesis using m(2) by (auto simp: sound_dec_def Runeerror_def)
qed

lemma chartorune_pos: "chartorune s = Inr (r, n) \<Longrightarrow> 0 < n \<and> n \<le> length s"
proof -
  assume a: "chartorune s = Inr (r, n)"
  then have "n \<le> length s \<and> 0 < n"
    using chartorune_Inr [OF a] by (auto simp: Suc_le_eq dest: arg_cong [where f = length])
  then show ?thesis by simp
qed

definition next_rune :: "byte list \<Rightarrow> (u32 \<times> byte list) option" where
  "next_rune s = (case chartorune s of Inl e \<Rightarrow> None | Inr (r, n) \<Rightarrow> Some (r, drop n s))"

definition valid_rune :: "u32 \<Rightarrow> bool" where
  "valid_rune r = scalar (unat r)"

interpretation runes: framing runetochar next_rune valid_rune
  by unfold_locales (simp_all add: next_rune_def chartorune_enc valid_rune_def repaired_def)

lemma runenlen_rune:
  "runenlen [c] = length (runetochar c) + (if c > Runemax then 1 else 0)"
  by (auto simp: runenlen_loop.simps [of 2] runenlen_loop.simps [of 3] runenlen_loop.simps [of 4]
      length_runetochar utf8_enc_def repaired_def scalar_def unat_leq_consts Runemax_def)

lemma runenlen_exact':
  "runenlen r = length (concat (map runetochar r)) + length (filter (\<lambda>c. c > Runemax) r)"
proof (induction r)
  case (Cons c r)
  have "runenlen (c # r) = runenlen [c] + runenlen r" by simp
  with Cons show ?case unfolding runenlen_rune by simp
qed simp

lemma fullrune_eq:
  "s \<noteq> [] \<Longrightarrow> 0 < n \<Longrightarrow> fullrune s n = Inr (n \<ge> (let b = unat (s ! 0) in
     if b < 128 then 1 else if b < 224 then 2 else if b < 240 then 3 else 4))"
  by (auto simp: fullrune_def fullrune_loop.simps [of 3] fullrune_loop.simps [of 4] fullrune_loop.simps [of 5]
      Let_def unat_lt_T)

lemma chartorune_needs:
  assumes "fullrune s n = Inr True" and "n \<le> length s"
  shows "\<exists>r k. chartorune s = Inr (r, k) \<and> k \<le> n"
proof -
  have nz: "s \<noteq> []" "0 < n" using assms by (auto simp: fullrune_def split: if_splits)
  then obtain b0 s1 where s: "s = b0 # s1" by (cases s) auto
  have f: "n \<ge> (if unat b0 < 128 then 1 else if unat b0 < 224 then 2 else if unat b0 < 240 then 3 else 4)"
    using fullrune_eq [OF nz] assms(1) s by (simp add: Let_def)
  then have "\<exists>l k. dec_nat (map unat s) = Some (l, k) \<and> k \<le> n"
    using assms(2) s
    by (auto simp: dec_nat_def Let_def split: if_splits list.splits)
  then show ?thesis by (auto simp: chartorune_dec of_dec_def)
qed

section \<open>Properties\<close>

text \<open>
  C13: UTF-8 round trip. What \<open>runetochar\<close> stores for a rune, \<open>chartorune\<close> reads back, taking
  exactly the stored bytes whatever follows them; a rune that is not a Unicode scalar value
  (a surrogate, or above \<open>Runemax\<close>) comes back as \<open>Runeerror\<close>. The stored bytes are the RFC
  3629 encoding, of one to four bytes.
\<close>

theorem chartorune_runetochar:
  "chartorune (runetochar c @ p) =
     Inr (if valid_rune c then c else Runeerror, length (runetochar c))
   \<and> map unat (runetochar c) = utf8_enc (if valid_rune c then unat c else unat Runeerror)
   \<and> 1 \<le> length (runetochar c) \<and> length (runetochar c) \<le> UTFmax"
  using chartorune_enc [of c p] length_utf8_enc [of "repaired c"]
  by (simp add: runetochar_enc length_runetochar valid_rune_def repaired_def Runeerror_def Suc_le_eq)

text \<open>
  C38: Soundness of the decoder on arbitrary bytes. Whenever \<open>chartorune\<close> returns, the result is
  either the error rune after one byte, or a valid rune whose canonical encoding is exactly
  the bytes taken: overlong forms, surrogates and values above \<open>Runemax\<close> are never accepted.
  Unless the input ends inside a sequence, it does return.
\<close>

theorem chartorune_canonical:
  "(case chartorune s of
      Inl e \<Rightarrow> e = Undef \<and> length s < UTFmax
    | Inr (r, n) \<Rightarrow> r = Runeerror \<and> n = 1 \<and> s \<noteq> []
        \<or> valid_rune r \<and> take n s = runetochar r \<and> n = length (runetochar r))"
proof (cases "chartorune s")
  case (Inl e)
  then have "dec_nat (map unat s) = None \<and> e = Undef"
    by (auto simp: chartorune_dec of_dec_def split: option.splits)
  then have "length s < 4"
    by (auto simp: dec_nat_def Let_def split: list.splits if_splits)
  with Inl \<open>_ \<and> e = Undef\<close> show ?thesis by simp
next
  case (Inr x)
  then show ?thesis using chartorune_Inr [of s "fst x" "snd x"] by (auto simp: valid_rune_def split: prod.splits)
qed

text \<open>
  Two sequences of valid runes with the same UTF-8 bytes are equal.
\<close>

theorem runetochar_stream_unambiguous:
  "inj_on (\<lambda>rs. concat (map runetochar rs)) {rs. list_all valid_rune rs}"
  by (rule inj_onI) (auto intro: runes.stream_unique)

text \<open>
  \<open>runenlen\<close> counts the bytes \<open>runetochar\<close> stores, except that every rune above \<open>Runemax\<close>, stored
  as the three-byte error rune, is counted as four.
\<close>

theorem runenlen_exact:
  "runenlen r = length (concat (map runetochar r)) + length (filter (\<lambda>c. c > Runemax) r)"
  by (rule runenlen_exact')

text \<open>
  \<open>fullrune\<close> guards \<open>chartorune\<close>: when it says that \<open>n\<close> readable bytes hold a full rune,
  \<open>chartorune\<close> returns without reading beyond them; \<open>n\<close> of at least \<open>UTFmax\<close> is always enough.
\<close>

theorem fullrune_chartorune:
  assumes "n \<le> length s"
  shows "(fullrune s n = Inr True \<longrightarrow> (\<exists>r k. chartorune (take n s) = Inr (r, k) \<and> k \<le> n))
    \<and> (fullrune s n = Inr True \<or> fullrune s n = Inr False \<and> n < UTFmax)"
proof (cases "n = 0")
  case True
  then show ?thesis by (simp add: fullrune_def)
next
  case False
  then have nz: "s \<noteq> []" "0 < n" using assms by auto
  have t: "fullrune (take n s) n = fullrune s n" using nz by (simp add: fullrune_eq)
  show ?thesis
    using chartorune_needs [of "take n s" n] t assms fullrune_eq [OF nz] nz by (auto simp: Let_def)
qed

theorem fullrune_chartorune_witness:
  "\<exists>r k. chartorune (take 3 [0xE2, 0x82, 0xAC, 0]) = Inr (r, k) \<and> k \<le> 3"
  using fullrune_chartorune [of 3 "[0xE2, 0x82, 0xAC, 0]"] by (simp add: fullrune_eq)

end
