(* ===== verification/Utf_String.thy ===== *)
theory Utf_String
  imports Rune
begin

text \<open>
  The string walkers of lib9 over UTF-8: \<^verbatim>\<open>utflen.c\<close>, \<^verbatim>\<open>utfnlen.c\<close>,
  \<^verbatim>\<open>utfrune.c\<close>, \<^verbatim>\<open>utfrrune.c\<close>, \<^verbatim>\<open>utfecpy.c\<close>, \<^verbatim>\<open>runestrlen.c\<close>,
  \<^verbatim>\<open>runestrchr.c\<close>.
\<close>

section \<open>Walking over strings\<close>

text \<open>
  A C string is the list of bytes that can be read from its pointer on; reading past the
  list is undefined. The position a routine returns is an offset into that list.
\<close>

function utflen_loop :: "byte list \<Rightarrow> u64 \<Rightarrow> u64 cres" where
  "utflen_loop s n = cbind (cguard (0 < length s)) (\<lambda>_.
     let c = ucast (s ! 0) in
     if c < Runeself then
       if c = 0 then Inr n else utflen_loop (drop 1 s) (n + 1)
     else cbind (chartorune s) (\<lambda>(rune, k). utflen_loop (drop k s) (n + 1)))"
  by pat_completeness auto
termination
  by (relation "measure (\<lambda>(s, _). length s)") (auto dest: chartorune_pos)

text \<open>The result type of \<open>utflen\<close> is \<open>int\<close>.\<close>

definition utflen :: "byte list \<Rightarrow> u32 cres" where
  "utflen s = cbind (utflen_loop s 0) (\<lambda>n. Inr (ucast n))"

function utfnlen_loop :: "byte list \<Rightarrow> nat \<Rightarrow> u64 \<Rightarrow> u64 cres" where
  "utfnlen_loop s m n =
    (if 0 < m then
       cbind (cguard (0 < length s)) (\<lambda>_.
       let c = ucast (s ! 0) in
       if c < Runeself then
         if c = 0 then Inr n else utfnlen_loop (drop 1 s) (m - 1) (n + 1)
       else
         cbind (fullrune s m) (\<lambda>f.
         if \<not> f then Inr n
         else cbind (chartorune s) (\<lambda>(rune, k). utfnlen_loop (drop k s) (m - k) (n + 1))))
     else Inr n)"
  by pat_completeness auto
termination
  by (relation "measure (\<lambda>(s, m, _). m)") (auto dest: chartorune_pos)

definition utfnlen :: "byte list \<Rightarrow> nat \<Rightarrow> u32 cres" where
  "utfnlen s m = cbind (utfnlen_loop s m 0) (\<lambda>n. Inr (ucast n))"

text \<open>\<open>strchr\<close> and \<open>strrchr\<close> of the C library, on offsets.\<close>

fun strchr_from :: "nat \<Rightarrow> byte list \<Rightarrow> byte \<Rightarrow> nat option cres" where
  "strchr_from k [] c = Inl Undef"
| "strchr_from k (b # s) c =
    (if b = c then Inr (Some k) else if b = 0 then Inr None else strchr_from (k + 1) s c)"

fun strrchr_from :: "nat \<Rightarrow> nat option \<Rightarrow> byte list \<Rightarrow> byte \<Rightarrow> nat option cres" where
  "strrchr_from k l [] c = Inl Undef"
| "strrchr_from k l (b # s) c =
    (let l = (if b = c then Some k else l) in if b = 0 then Inr l else strrchr_from (k + 1) l s c)"

function utfrune_loop :: "nat \<Rightarrow> byte list \<Rightarrow> u64 \<Rightarrow> nat option cres" where
  "utfrune_loop k s c = cbind (cguard (0 < length s)) (\<lambda>_.
     let c1 = ucast (s ! 0) in
     if c1 < 0x80 then
       if c1 = 0 then Inr None
       else if c1 = c then Inr (Some k)
       else utfrune_loop (k + 1) (drop 1 s) c
     else cbind (chartorune s) (\<lambda>(r, n).
       if ucast r = c then Inr (Some k) else utfrune_loop (k + n) (drop n s) c))"
  by pat_completeness auto
termination
  by (relation "measure (\<lambda>(_, s, _). length s)") (auto dest: chartorune_pos)

definition utfrune :: "byte list \<Rightarrow> u64 \<Rightarrow> nat option cres" where
  "utfrune s c = (if sint c < sint (ucast Runesync :: u64) then strchr_from 0 s (ucast c) else utfrune_loop 0 s c)"

function utfrrune_loop :: "nat \<Rightarrow> nat option \<Rightarrow> byte list \<Rightarrow> u64 \<Rightarrow> nat option cres" where
  "utfrrune_loop k s1 s c = cbind (cguard (0 < length s)) (\<lambda>_.
     let c1 = ucast (s ! 0) in
     if c1 < 0x80 then
       if c1 = 0 then Inr s1
       else utfrrune_loop (k + 1) (if c1 = c then Some k else s1) (drop 1 s) c
     else cbind (chartorune s) (\<lambda>(r, n).
       utfrrune_loop (k + n) (if ucast r = c then Some k else s1) (drop n s) c))"
  by pat_completeness auto
termination
  by (relation "measure (\<lambda>(_, _, s, _). length s)") (auto dest: chartorune_pos)

definition utfrrune :: "byte list \<Rightarrow> u64 \<Rightarrow> nat option cres" where
  "utfrrune s c = (if sint c < sint (ucast Runesync :: u64) then strrchr_from 0 None s (ucast c)
     else utfrrune_loop 0 None s c)"

fun runestrlen :: "u32 list \<Rightarrow> u32 cres" where
  "runestrlen [] = Inl Undef"
| "runestrlen (c # s) = (if c = 0 then Inr 0 else cbind (runestrlen s) (\<lambda>i. Inr (i + 1)))"

fun runestrchr_from :: "nat \<Rightarrow> u32 list \<Rightarrow> u32 \<Rightarrow> nat option cres" where
  "runestrchr_from k [] c = Inl Undef"
| "runestrchr_from k (c1 # s) c =
    (if c = 0 then if c1 = 0 then Inr (Some k) else runestrchr_from (k + 1) s c
     else if c1 = 0 then Inr None
     else if c1 = c then Inr (Some k) else runestrchr_from (k + 1) s c)"

definition runestrchr :: "u32 list \<Rightarrow> u32 \<Rightarrow> nat option cres" where
  "runestrchr s c = runestrchr_from 0 s c"

text \<open>
  \<open>utfecpy\<close>: \<open>buf\<close> is the memory from \<open>to\<close> up to \<open>e\<close>. The result is that memory afterwards
  and the offset of the returned pointer. \<open>memccpy\<close> copies up to and including a zero byte and
  yields the offset after it, or None when \<open>n\<close> bytes held no zero byte.
\<close>

fun memccpy :: "byte list \<Rightarrow> nat \<Rightarrow> (byte list \<times> nat option) cres" where
  "memccpy from 0 = Inr ([], None)"
| "memccpy [] (Suc n) = Inl Undef"
| "memccpy (b # from) (Suc n) =
    (if b = 0 then Inr ([b], Some 1)
     else cbind (memccpy from n) (\<lambda>(bs, r). Inr (b # bs, map_option Suc r)))"

function utfecpy_back :: "byte list \<Rightarrow> nat \<Rightarrow> nat" where
  "utfecpy_back buf end' =
    (if 0 < end' then if buf ! (end' - 1) AND 0xC0 = 0x80 then utfecpy_back buf (end' - 1) else end' - 1
     else end')"
  by pat_completeness auto
termination
  by (relation "measure (\<lambda>(_, e). e)") auto

definition utfecpy :: "byte list \<Rightarrow> byte list \<Rightarrow> (byte list \<times> nat) cres" where
  "utfecpy buf from = (if buf = [] then Inr (buf, 0) else
     cbind (memccpy from (length buf)) (\<lambda>(bs, r).
     let buf = bs @ drop (length bs) buf in
     case r of
       None \<Rightarrow> let end' = utfecpy_back buf (length buf) in Inr (buf[end' := 0], end')
     | Some end' \<Rightarrow> Inr (buf, end' - 1)))"

declare utflen_loop.simps [simp del] utfnlen_loop.simps [simp del] utfrune_loop.simps [simp del]
  utfrrune_loop.simps [simp del] utfecpy_back.simps [simp del]

section \<open>Encoded strings\<close>

abbreviation enc_runes :: "u32 list \<Rightarrow> byte list" where
  "enc_runes rs \<equiv> concat (map runetochar rs)"

lemma runetochar_ascii:
  assumes "unat r < 128"
  shows "runetochar r = [ucast r]"
  using assms by (simp add: runetochar_def unat_leq_consts)

lemma runetochar_wide:
  assumes "128 \<le> unat r"
  obtains b bs where "runetochar r = b # bs" "192 \<le> unat b" "\<forall>c\<in>set bs. cont (unat c)"
proof -
  have "128 \<le> repaired r" using assms by (simp add: repaired_def)
  then have "\<exists>x xs. utf8_enc (repaired r) = x # xs \<and> 192 \<le> x \<and> (\<forall>c\<in>set xs. cont c)"
    by (simp add: utf8_enc_def)
  then obtain x xs where e: "map unat (runetochar r) = x # xs" "192 \<le> x" "\<forall>c\<in>set xs. cont c"
    unfolding runetochar_enc by blast
  then show ?thesis using that by (cases "runetochar r") auto
qed

lemma repaired_wide: "128 \<le> unat r \<Longrightarrow> of_nat (repaired r) = (if valid_rune r then r else Runeerror)"
  by (simp add: repaired_def valid_rune_def Runeerror_def)

lemma runetochar_no_zero: "r \<noteq> 0 \<Longrightarrow> 0 \<notin> set (runetochar r)"
proof (cases "unat r < 128")
  case True
  moreover assume "r \<noteq> 0"
  ultimately show ?thesis
    by (auto simp: runetochar_ascii word_unat_eq_iff unat_bits take_bit_nat_eq_self)
next
  case False
  then obtain b bs where "runetochar r = b # bs" "192 \<le> unat b" "\<forall>c\<in>set bs. cont (unat c)"
    by (metis not_less runetochar_wide)
  then show ?thesis by (auto simp: cont_def)
qed

lemma enc_no_zero: "0 \<notin> set rs \<Longrightarrow> 0 \<notin> set (enc_runes rs)"
  by (induction rs) (auto dest: runetochar_no_zero)

text \<open>One rune of a string: either a byte below \<open>Runeself\<close>, or \<open>chartorune\<close> takes it.\<close>

lemma rune_step:
  assumes "r \<noteq> 0"
  obtains (ascii) b where "runetochar r = [b]" "unat b < 128" "b \<noteq> 0" "r = ucast b"
  | (wide) b bs where "runetochar r = b # bs" "192 \<le> unat b" "\<And>t. chartorune (b # bs @ t)
      = Inr (if valid_rune r then r else Runeerror, Suc (length bs))"
proof (cases "unat r < 128")
  case True
  have u: "unat (ucast r :: byte) = unat r"
    using True by (simp add: unat_bits take_bit_nat_eq_self)
  have "r = ucast (ucast r :: byte)"
    by (simp only: word_unat_eq_iff unat_ucast_byte u)
  moreover have "(ucast r :: byte) \<noteq> 0" using assms u by (metis unat_eq_zero)
  ultimately show ?thesis using True u by (intro ascii [of "ucast r"]) (simp_all add: runetochar_ascii)
next
  case False
  then obtain b bs where "runetochar r = b # bs" "192 \<le> unat b" by (metis not_less runetochar_wide)
  with chartorune_enc [of r] False show ?thesis
    by (intro wide [of b bs]) (simp_all add: repaired_wide)
qed

lemma byte_self_iff: "(ucast (b :: byte) :: u32) < Runeself \<longleftrightarrow> unat b < 128"
  by (simp add: Runeself_def unat_lt_T)

lemma ucast_byte_0_iff: "(ucast (b :: byte) :: u32) = 0 \<longleftrightarrow> b = 0" "(ucast b :: u64) = 0 \<longleftrightarrow> b = 0"
  by (simp_all add: word_unat_eq_iff unsigned_ucast_eq take_bit_nat_eq_self order_less_trans [OF unat_byte_lt])

lemma zero_self [simp]: "0 < Runeself"
  by (simp add: Runeself_def)

lemma utflen_loop_rune:
  assumes "r \<noteq> 0"
  shows "utflen_loop (runetochar r @ t) n = utflen_loop t (n + 1)"
  using assms
proof (cases rule: rune_step)
  case (ascii b)
  then show ?thesis by (simp add: utflen_loop.simps [of "b # t"] byte_self_iff ucast_byte_0_iff)
next
  case (wide b bs)
  then show ?thesis by (simp add: utflen_loop.simps [of "b # bs @ t"] byte_self_iff)
qed

lemma utflen_loop_enc:
  "0 \<notin> set rs \<Longrightarrow> utflen_loop (enc_runes rs @ 0 # p) n = Inr (n + of_nat (length rs))"
proof (induction rs arbitrary: n)
  case Nil
  then show ?case by (simp add: utflen_loop.simps [of "0 # p"] byte_self_iff)
next
  case (Cons r rs)
  then show ?case by (simp add: utflen_loop_rune ac_simps)
qed


lemma fullrune_enc:
  "r \<noteq> 0 \<Longrightarrow> length (runetochar r) \<le> n \<Longrightarrow> fullrune (runetochar r @ t) n = Inr True"
proof -
  assume a: "length (runetochar r) \<le> n"
  obtain b bs where r: "runetochar r = b # bs" by (cases "runetochar r") simp_all
  have "unat b = utf8_enc (repaired r) ! 0"
    using r runetochar_enc [of r] by (metis list.simps(9) nth_Cons_0)
  then have "length (runetochar r) \<ge> (if unat b < 128 then 1 else if unat b < 224 then 2 else if unat b < 240 then 3 else 4)"
    using repaired_lt [of r] by (auto simp: length_runetochar utf8_enc_def less_mult_imp_div_less not_less)
  with a r show ?thesis by (subst fullrune_eq) (auto simp: Let_def)
qed

lemma utfnlen_loop_rune:
  assumes "r \<noteq> 0" and "length (runetochar r) \<le> m"
  shows "utfnlen_loop (runetochar r @ t) m n = utfnlen_loop t (m - length (runetochar r)) (n + 1)"
  using assms(1)
proof (cases rule: rune_step)
  case (ascii b)
  then show ?thesis using assms by (simp add: utfnlen_loop.simps [of "b # t"] byte_self_iff ucast_byte_0_iff)
next
  case (wide b bs)
  then show ?thesis
    using assms fullrune_enc [OF assms, of t] by (simp add: utfnlen_loop.simps [of "b # bs @ t"] byte_self_iff)
qed

lemma utfnlen_loop_enc:
  "0 \<notin> set rs \<Longrightarrow> utfnlen_loop (enc_runes rs @ p) (length (enc_runes rs)) n = Inr (n + of_nat (length rs))"
proof (induction rs arbitrary: n)
  case Nil
  then show ?case by (simp add: utfnlen_loop.simps [of p])
next
  case (Cons r rs)
  then show ?case by (simp add: utfnlen_loop_rune ac_simps)
qed

lemma utfnlen_loop_safe:
  "m \<le> length s \<Longrightarrow> utfnlen_loop s m n \<noteq> Inl Undef"
proof (induction s m n rule: utfnlen_loop.induct)
  case (1 s m n)
  show ?case
  proof (cases "m = 0 \<or> ucast (s ! 0) < Runeself")
    case True
    have "0 < m \<Longrightarrow> s \<noteq> []" using 1(3) by auto
    with True 1 show ?thesis by (auto simp: utfnlen_loop.simps [of s m] split: if_splits)
  next
    case False
    with 1(3) have ne: "s \<noteq> []" "0 < m" by auto
    then obtain f where f: "fullrune s m = Inr f" by (simp add: fullrune_eq)
    show ?thesis
    proof (cases f)
      case True
      then obtain r k where c: "chartorune s = Inr (r, k)" "k \<le> m"
        using chartorune_needs [of s m] f 1(3) by auto
      have "utfnlen_loop (drop k s) (m - k) (n + 1) \<noteq> Inl Undef"
        by (rule 1(2)) (use ne False f True c 1(3) in \<open>auto\<close>)
      with ne False f True c show ?thesis by (simp add: utfnlen_loop.simps [of s m])
    qed (use ne False f in \<open>simp add: utfnlen_loop.simps [of s m]\<close>)
  qed
qed

text \<open>The position of the first and of the last occurrence of a rune.\<close>

fun first_rune :: "nat \<Rightarrow> u32 list \<Rightarrow> u32 \<Rightarrow> nat option" where
  "first_rune k [] c = None"
| "first_rune k (r # rs) c = (if r = c then Some k else first_rune (k + length (runetochar r)) rs c)"

fun last_rune :: "nat \<Rightarrow> nat option \<Rightarrow> u32 list \<Rightarrow> u32 \<Rightarrow> nat option" where
  "last_rune k l [] c = l"
| "last_rune k l (r # rs) c = last_rune (k + length (runetochar r)) (if r = c then Some k else l) rs c"

lemma ucast_u32_u64_inj: "(ucast (a :: u32) :: u64) = ucast b \<longleftrightarrow> a = b"
  by (metis ucast_ucast_u32)

lemma ucast_byte_u64: "(ucast (b :: byte) :: u64) = ucast (ucast b :: u32)"
  by (rule bit_word_eqI) (auto simp: bit_simps dest: bit_imp_le_length)

lemma byte_eq_u64: "(ucast (b :: byte) :: u64) = ucast (c :: u32) \<longleftrightarrow> ucast b = c"
  unfolding ucast_byte_u64 by (rule ucast_u32_u64_inj)

lemma byte_lt_u64: "(ucast (b :: byte) :: u64) < 0x80 \<longleftrightarrow> unat b < 128"
  by (simp add: word_less_nat_alt unsigned_ucast_eq take_bit_nat_eq_self order_less_trans [OF unat_byte_lt])

lemma sint_u32: "sint (ucast (c :: u32) :: u64) = uint c"
proof -
  have "uint (ucast c :: u64) = uint c"
    by (simp add: unsigned_ucast_eq take_bit_int_eq_self order_less_trans [OF unsigned_less])
  moreover have "signed_take_bit 63 (uint c) = uint c"
    using unsigned_less [of c, where 'a = int]
    by (intro signed_take_bit_int_eq_self order_trans [OF _ unsigned_greater_eq]) simp_all
  ultimately show ?thesis by (simp add: sint_uint)
qed

lemma utfrune_loop_enc:
  assumes "list_all (\<lambda>r. valid_rune r \<and> r \<noteq> 0) rs"
  shows "utfrune_loop k (enc_runes rs @ 0 # p) (ucast c) = Inr (first_rune k rs c)"
  using assms
proof (induction rs arbitrary: k)
  case Nil
  then show ?case by (simp add: utfrune_loop.simps [of k "0 # p"])
next
  case (Cons r rs)
  from Cons.prems have "r \<noteq> 0" by simp
  then show ?case
  proof (cases rule: rune_step)
    case (ascii b)
    with Cons show ?thesis
      by (simp add: utfrune_loop.simps [of k "b # x" for x] Let_def byte_lt_u64 byte_eq_u64 ucast_byte_0_iff)
  next
    case (wide b bs)
    with Cons show ?thesis
      by (simp add: utfrune_loop.simps [of k "b # x" for x] byte_lt_u64 ucast_u32_u64_inj)
  qed
qed

lemma utfrrune_loop_enc:
  assumes "list_all (\<lambda>r. valid_rune r \<and> r \<noteq> 0) rs"
  shows "utfrrune_loop k l (enc_runes rs @ 0 # p) (ucast c) = Inr (last_rune k l rs c)"
  using assms
proof (induction rs arbitrary: k l)
  case Nil
  then show ?case by (simp add: utfrrune_loop.simps [of k l "0 # p"])
next
  case (Cons r rs)
  from Cons.prems have "r \<noteq> 0" by simp
  then show ?case
  proof (cases rule: rune_step)
    case (ascii b)
    with Cons show ?thesis
      by (simp add: utfrrune_loop.simps [of k l "b # x" for x] Let_def byte_lt_u64 byte_eq_u64 ucast_byte_0_iff)
  next
    case (wide b bs)
    with Cons show ?thesis
      by (simp add: utfrrune_loop.simps [of k l "b # x" for x] byte_lt_u64 ucast_u32_u64_inj)
  qed
qed


section \<open>Truncating copy\<close>

lemma memccpy_zero:
  "0 \<notin> set bs \<Longrightarrow> memccpy (bs @ 0 # p) n =
    (if length bs < n then Inr (bs @ [0], Some (Suc (length bs))) else Inr (take n bs, None))"
proof (induction bs arbitrary: n)
  case Nil
  then show ?case by (cases n) simp_all
next
  case (Cons b bs)
  then show ?case by (cases n) (auto simp: memccpy.simps)
qed

lemma xor_zero_iff: "(a :: byte) XOR c = 0 \<longleftrightarrow> a = c"
proof
  assume "a XOR c = 0"
  then have "(a XOR c) XOR c = c" by simp
  then show "a = c" by (simp add: xor.assoc)
qed simp

lemma cont_mask: "(b :: byte) AND 0xC0 = 0x80 \<longleftrightarrow> cont (unat b)"
proof -
  have *: "(b :: byte) AND 0xC0 = 0x80 \<longleftrightarrow> (b XOR 0x80) AND 0xC0 = 0"
  proof -
    have "(b XOR 0x80) AND 0xC0 = (b AND 0xC0) XOR 0x80"
      by (simp add: bit.conj_xor_distrib2)
    then show ?thesis by (simp add: xor_zero_iff)
  qed
  have u: "unat (b XOR 0x80) = unat b XOR 128" by (simp add: unsigned_xor_eq)
  have "(b XOR 0x80) AND 0xC0 = 0 \<longleftrightarrow> (unat b XOR 128) AND 192 = 0"
    by (simp only: word_unat_eq_iff [of _ 0] unsigned_and_eq u) simp
  with * show ?thesis by (simp add: cont_xor(1))
qed


text \<open>Going back from inside an encoded rune reaches its first byte.\<close>

lemma utfecpy_back_lead:
  assumes "0 < e" "\<not> cont (unat (buf ! (e - 1)))"
  shows "utfecpy_back buf e = e - 1"
  using assms by (simp add: utfecpy_back.simps [of buf e] cont_mask)

lemma utfecpy_back_cont:
  assumes "\<forall>i. m \<le> i \<and> i < m + n \<longrightarrow> cont (unat (buf ! i))"
  shows "utfecpy_back buf (m + n) = utfecpy_back buf m"
  using assms by (induction n) (simp_all add: utfecpy_back.simps [of buf "Suc x" for x] cont_mask)

lemma utfecpy_back_rune:
  assumes "buf = E @ take i (runetochar r)" and "0 < i" "i \<le> length (runetochar r)" and "r \<noteq> 0"
  shows "utfecpy_back buf (length E + i) = length E"
proof -
  obtain b bs where r: "runetochar r = b # bs" and b: "\<not> cont (unat b)" and bs: "\<forall>c\<in>set bs. cont (unat c)"
  proof (cases "unat r < 128")
    case True
    then have "unat (ucast r :: byte) = unat r" by (simp add: unat_bits take_bit_nat_eq_self)
    with True show ?thesis by (intro that [of "ucast r" "[]"]) (simp_all add: runetochar_ascii cont_def)
  next
    case False
    then obtain b bs where "runetochar r = b # bs" "192 \<le> unat b" "\<forall>c\<in>set bs. cont (unat c)"
      by (metis not_less runetochar_wide)
    with that show ?thesis by (simp add: cont_def)
  qed
  obtain j where j: "i = Suc j" using assms(2) by (cases i) simp_all
  have nth: "buf ! (length E + k) = runetochar r ! k" if "k < i" for k
    using that assms(1,3) by (simp add: nth_append)
  have "\<forall>k. Suc (length E) \<le> k \<and> k < Suc (length E) + j \<longrightarrow> cont (unat (buf ! k))"
  proof (intro allI impI)
    fix k
    assume k: "Suc (length E) \<le> k \<and> k < Suc (length E) + j"
    define d where "d = k - Suc (length E)"
    have d: "k = length E + Suc d" "d < j" using k unfolding d_def by linarith+
    have "buf ! k = bs ! d" using nth [of "Suc d"] d j r by simp
    with bs assms(3) d j r show "cont (unat (buf ! k))" by simp
  qed
  then have "utfecpy_back buf (Suc (length E) + j) = utfecpy_back buf (Suc (length E))"
    by (rule utfecpy_back_cont)
  also have "\<dots> = length E"
    using nth [of 0] assms(2) r b by (subst utfecpy_back_lead) simp_all
  finally show ?thesis using j by simp
qed

lemma take_enc_split:
  assumes "0 < k" "k \<le> length (enc_runes rs)"
  obtains j i r where "j < length rs" "r = rs ! j" "take k (enc_runes rs) = enc_runes (take j rs) @ take i (runetochar r)"
    "0 < i" "i \<le> length (runetochar r)" "k = length (enc_runes (take j rs)) + i"
proof -
  have "\<exists>j i. j < length rs \<and> take k (enc_runes rs) = enc_runes (take j rs) @ take i (runetochar (rs ! j)) \<and>
      0 < i \<and> i \<le> length (runetochar (rs ! j)) \<and> k = length (enc_runes (take j rs)) + i"
    using assms
  proof (induction rs arbitrary: k)
    case (Cons r rs)
    show ?case
    proof (cases "k \<le> length (runetochar r)")
      case True
      with Cons.prems show ?thesis by (intro exI [of _ 0] exI [of _ k]) simp
    next
      case False
      then have le: "0 < k - length (runetochar r)" "k - length (runetochar r) \<le> length (enc_runes rs)"
        using Cons.prems by simp_all
      obtain j i where "j < length rs" "take (k - length (runetochar r)) (enc_runes rs)
          = enc_runes (take j rs) @ take i (runetochar (rs ! j))" "0 < i" "i \<le> length (runetochar (rs ! j))"
          "k - length (runetochar r) = length (enc_runes (take j rs)) + i"
        using Cons.IH [OF le] by blast
      with False show ?thesis by (intro exI [of _ "Suc j"] exI [of _ i]) simp
    qed
  qed simp
  with that show ?thesis by blast
qed

section \<open>Properties\<close>

text \<open>
  The length routines count runes: on a string without zero runes, \<open>utflen\<close> up to the
  terminating zero byte and \<open>utfnlen\<close> up to the given byte length return the number of runes
  (as an \<open>int\<close>). And \<open>utfnlen\<close> never reads beyond the \<open>m\<close> bytes it was given, even when they
  end in the middle of a rune.
\<close>

theorem utflen_counts_runes:
  "(0 \<notin> set rs \<longrightarrow> utflen (enc_runes rs @ 0 # p) = Inr (of_nat (length rs))
     \<and> utfnlen (enc_runes rs @ p) (length (enc_runes rs)) = Inr (of_nat (length rs)))
   \<and> (m \<le> length s \<longrightarrow> utfnlen s m \<noteq> Inl Undef)"
proof -
  have "(ucast (of_nat (length rs) :: u64) :: u32) = of_nat (length rs)"
    by (simp add: unsigned_of_nat take_bit_eq_mod word_of_nat_eq_iff mod_mod_cancel)
  moreover have "utfnlen s m \<noteq> Inl Undef" if "m \<le> length s"
    using utfnlen_loop_safe [OF that, of 0] by (auto simp: utfnlen_def cbind_eq_Inl_iff)
  ultimately show ?thesis
    by (simp add: utflen_def utfnlen_def utflen_loop_enc utfnlen_loop_enc)
qed

theorem utflen_counts_runes_witness:
  "utflen (enc_runes [0x68, 0x20AC] @ 0 # []) = Inr 2 \<and> utfnlen [0x68, 0xE2, 0x82] 3 \<noteq> Inl Undef"
  using utflen_counts_runes [of "[0x68, 0x20AC]" "[]" 3 "[0x68, 0xE2, 0x82]"] by simp

text \<open>
  \<open>utfrune\<close> and \<open>utfrrune\<close> return the byte offset of the first and of the last occurrence of a
  rune in a string of valid runes, or no position when it does not occur.
\<close>

theorem utfrune_finds:
  assumes "list_all (\<lambda>r. valid_rune r \<and> r \<noteq> 0) rs" and "Runesync \<le> c"
  shows "utfrune (enc_runes rs @ 0 # p) (ucast c) = Inr (first_rune 0 rs c)
    \<and> utfrrune (enc_runes rs @ 0 # p) (ucast c) = Inr (last_rune 0 None rs c)"
proof -
  have "\<not> sint (ucast c :: u64) < sint (ucast Runesync :: u64)"
    using assms(2) by (simp add: sint_u32 Runesync_def word_le_def)
  then show ?thesis
    by (simp add: utfrune_def utfrrune_def utfrune_loop_enc [OF assms(1)] utfrrune_loop_enc [OF assms(1)])
qed

theorem utfrune_finds_witness:
  "utfrune (enc_runes [0x68, 0x20AC, 0x20AC] @ 0 # []) (ucast (0x20AC :: u32)) = Inr (Some 1)"
  using utfrune_finds [of "[0x68, 0x20AC, 0x20AC]" "0x20AC" "[]"]
  by (simp add: valid_rune_def scalar_def Runesync_def length_runetochar repaired_def utf8_enc_def)

text \<open>
  The truncating copy never cuts a rune in half: \<open>utfecpy\<close> leaves in the buffer the longest
  prefix of the source, in whole runes, that fits together with the terminating zero byte,
  and returns the position of that zero byte; it stays within the buffer.
\<close>

theorem utfecpy_whole_runes:
  assumes "0 \<notin> set rs" and "buf \<noteq> []"
  shows "\<exists>j buf'. j \<le> length rs
    \<and> utfecpy buf (enc_runes rs @ 0 # p) = Inr (buf', length (enc_runes (take j rs)))
    \<and> length buf' = length buf \<and> length (enc_runes (take j rs)) < length buf
    \<and> take (Suc (length (enc_runes (take j rs)))) buf' = enc_runes (take j rs) @ [0]
    \<and> (j < length rs \<longrightarrow> length buf \<le> length (enc_runes (take (Suc j) rs)))"
proof (cases "length (enc_runes rs) < length buf")
  case True
  with assms(2) show ?thesis
    by (intro exI [of _ "length rs"])
      (simp add: utfecpy_def memccpy_zero [OF enc_no_zero [OF assms(1)]] Let_def)
next
  case False
  then have le: "0 < length buf" "length buf \<le> length (enc_runes rs)" using assms(2) by simp_all
  obtain j i r where j: "j < length rs" "r = rs ! j"
      "take (length buf) (enc_runes rs) = enc_runes (take j rs) @ take i (runetochar r)"
      "0 < i" "i \<le> length (runetochar r)" "length buf = length (enc_runes (take j rs)) + i"
    using take_enc_split [OF le] by blast
  let ?E = "enc_runes (take j rs)" and ?b = "take (length buf) (enc_runes rs)"
  have "r \<noteq> 0" using j assms(1) by (metis nth_mem)
  then have lead: "utfecpy_back ?b (length buf) = length ?E"
    using utfecpy_back_rune [of ?b ?E i r] j by simp
  have u: "utfecpy buf (enc_runes rs @ 0 # p) = Inr (?b[length ?E := 0], length ?E)"
    using False assms(2) lead
    by (simp add: utfecpy_def memccpy_zero [OF enc_no_zero [OF assms(1)]] Let_def)
  have "take (Suc (length ?E)) (?b[length ?E := 0]) = ?E @ [0]"
    using j by (subst take_Suc_update) auto
  moreover have "length buf \<le> length (enc_runes (take (Suc j) rs))"
    using j by (simp add: take_Suc_conv_app_nth)
  ultimately show ?thesis
    using u j False by (intro exI [of _ j] exI [of _ "?b[length ?E := 0]"]) simp
qed

theorem utfecpy_whole_runes_witness:
  "\<exists>j buf'. utfecpy [1, 1, 1] (enc_runes [0x68, 0x20AC] @ 0 # []) =
      Inr (buf', length (enc_runes (take j [0x68, 0x20AC]))) \<and> length buf' = length [1 :: byte, 1, 1]"
proof -
  have "(0 :: u32) \<notin> set [0x68, 0x20AC]" and "[1 :: byte, 1, 1] \<noteq> []" by simp_all
  from utfecpy_whole_runes [OF this, of "[]"] show ?thesis by blast
qed

end
