(* ===== verification/Dis_Memory.thy ===== *)
theory Dis_Memory
  imports Inferno_Prelude
begin

text \<open>
  Memory of the Dis virtual machine on the amd64 host: the bytes of one object as a list,
  loads and stores of little-endian words at byte offsets (an access outside the object is
  undefined), and C integer conversions on \<open>int\<close>. The error messages are those of
  \<^verbatim>\<open>src/libinterp/raise.c\<close>.
\<close>

section \<open>Error strings\<close>

abbreviation exNilref :: string where "exNilref \<equiv> ''dereference of nil''"
abbreviation exBounds :: string where "exBounds \<equiv> ''array bounds error''"
abbreviation exHeap :: string where "exHeap \<equiv> ''out of memory: heap''"
abbreviation exNomem :: string where "exNomem \<equiv> ''out of memory: main''"
abbreviation exNegsize :: string where "exNegsize \<equiv> ''negative array size''"
abbreviation exZdiv :: string where "exZdiv \<equiv> ''zero divide''"

section \<open>C conversions\<close>

text \<open>The value of an expression converted to \<open>int\<close> (32 bits) and to \<open>u32\<close>.\<close>

definition c_int :: "int \<Rightarrow> int" where "c_int x = signed_take_bit 31 x"
definition c_u32 :: "int \<Rightarrow> int" where "c_u32 x = take_bit 32 x"

lemma c_int_id [simp]: "- 2147483648 \<le> x \<Longrightarrow> x < 2147483648 \<Longrightarrow> c_int x = x"
  by (simp add: c_int_def signed_take_bit_int_eq_self)

lemma c_u32_id [simp]: "0 \<le> x \<Longrightarrow> x < 4294967296 \<Longrightarrow> c_u32 x = x"
  by (simp add: c_u32_def take_bit_int_eq_self)

lemma c_u32_bounds: "0 \<le> c_u32 x" "c_u32 x < 4294967296"
  using take_bit_int_less_exp [of 32 x] by (simp_all add: c_u32_def)

section \<open>Little-endian bytes of a word\<close>

primrec enc_le :: "nat \<Rightarrow> 'a::len word \<Rightarrow> byte list" where
  "enc_le 0 w = []"
| "enc_le (Suc n) w = ucast w # enc_le n (drop_bit 8 w)"

primrec dec_le :: "byte list \<Rightarrow> 'a::len word" where
  "dec_le [] = 0"
| "dec_le (b # bs) = ucast b OR push_bit 8 (dec_le bs)"

lemma length_enc_le [simp]: "length (enc_le n w) = n"
  by (induction n arbitrary: w) simp_all

lemma dec_enc_le: "(dec_le (enc_le n w) :: 'a::len word) = take_bit (8 * n) w"
proof (induction n arbitrary: w)
  case (Suc n)
  show ?case
    by (rule bit_word_eqI) (auto simp: Suc bit_simps dest: bit_imp_le_length)
qed simp

lemma dec_enc_le_full [simp]: "LENGTH('a) \<le> 8 * n \<Longrightarrow> dec_le (enc_le n (w :: 'a::len word)) = w"
  by (simp add: dec_enc_le) (rule bit_word_eqI, auto simp: bit_simps dest: bit_imp_le_length)

lemma enc_le_take: "8 * n \<le> k \<Longrightarrow> enc_le n (take_bit k (w :: 'a::len word)) = enc_le n w"
proof (induction n arbitrary: w k)
  case (Suc n)
  have "(ucast (take_bit k w) :: byte) = ucast w"
    using Suc.prems by (intro bit_word_eqI) (simp add: bit_simps)
  moreover have "drop_bit 8 (take_bit k w) = take_bit (k - 8) (drop_bit 8 w)"
    by (rule bit_word_eqI) (auto simp: bit_simps)
  ultimately show ?case using Suc by simp
qed simp

lemma enc_dec_le:
  "8 * length bs \<le> LENGTH('a) \<Longrightarrow> enc_le (length bs) (dec_le bs :: 'a::len word) = bs"
proof (induction bs)
  case (Cons b bs)
  let ?r = "dec_le bs :: 'a word"
  have "(ucast (ucast b OR push_bit 8 ?r) :: byte) = b"
    using Cons.prems by (intro bit_word_eqI) (simp add: bit_simps)
  moreover have "drop_bit 8 (ucast b OR push_bit 8 ?r) = take_bit (LENGTH('a) - 8) ?r"
    by (rule bit_word_eqI) (auto simp: bit_simps dest: bit_imp_le_length)
  moreover have "enc_le (length bs) (take_bit (LENGTH('a) - 8) ?r) = enc_le (length bs) ?r"
    using Cons.prems by (intro enc_le_take) simp
  ultimately show ?case using Cons by simp
qed simp

section \<open>Reading and writing an object\<close>

definition rd :: "byte list \<Rightarrow> int \<Rightarrow> int \<Rightarrow> byte list cres" where
  "rd mem off n = cbind (cguard (0 \<le> off \<and> 0 \<le> n \<and> off + n \<le> int (length mem)))
     (\<lambda>_. Inr (take (nat n) (drop (nat off) mem)))"

definition wr :: "byte list \<Rightarrow> int \<Rightarrow> byte list \<Rightarrow> byte list cres" where
  "wr mem off bs = cbind (cguard (0 \<le> off \<and> off + int (length bs) \<le> int (length mem)))
     (\<lambda>_. Inr (take (nat off) mem @ bs @ drop (nat off + length bs) mem))"

definition put_at :: "int \<Rightarrow> byte list \<Rightarrow> byte list \<Rightarrow> byte list" where
  "put_at off bs mem = take (nat off) mem @ bs @ drop (nat off + length bs) mem"

lemma cpost_rd [simp]: "cpost (rd mem off n) E Q \<longleftrightarrow>
    0 \<le> off \<and> 0 \<le> n \<and> off + n \<le> int (length mem) \<and> Q (take (nat n) (drop (nat off) mem))"
  by (auto simp: rd_def)

lemma cpost_wr [simp]: "cpost (wr mem off bs) E Q \<longleftrightarrow>
    0 \<le> off \<and> off + int (length bs) \<le> int (length mem) \<and> Q (put_at off bs mem)"
  by (auto simp: wr_def put_at_def)

lemma length_put_at [simp]:
  "0 \<le> off \<Longrightarrow> off + int (length bs) \<le> int (length mem) \<Longrightarrow> length (put_at off bs mem) = length mem"
  by (auto simp: put_at_def min_def nat_le_iff)

lemma put_at_0 [simp]: "put_at 0 bs mem = bs @ drop (length bs) mem"
  by (simp add: put_at_def)

lemma rd_Inr: "off + n \<le> length mem \<Longrightarrow> rd mem (int off) (int n) = Inr (take n (drop off mem))"
  by (simp add: rd_def)

lemma wr_Inr:
  "off + length bs \<le> length mem \<Longrightarrow> wr mem (int off) bs = Inr (take off mem @ bs @ drop (off + length bs) mem)"
  by (simp add: wr_def)

lemma wr_length: "wr mem off bs = Inr mem' \<Longrightarrow> length mem' = length mem"
  by (auto simp: wr_def cbind_eq_Inr_iff min_def nat_le_iff)

section \<open>Arrays of runes\<close>

primrec get_runes :: "nat \<Rightarrow> byte list \<Rightarrow> u32 list" where
  "get_runes 0 mem = []"
| "get_runes (Suc n) mem = dec_le (take 4 mem) # get_runes n (drop 4 mem)"

definition put_runes :: "u32 list \<Rightarrow> byte list" where
  "put_runes rs = concat (map (enc_le 4) rs)"

lemma length_get_runes [simp]: "length (get_runes n mem) = n"
  by (induction n arbitrary: mem) simp_all

lemma put_runes_simps [simp]:
  "put_runes [] = []" "put_runes (r # rs) = enc_le 4 r @ put_runes rs"
  "put_runes (rs @ qs) = put_runes rs @ put_runes qs"
  by (simp_all add: put_runes_def)

lemma length_put_runes [simp]: "length (put_runes rs) = 4 * length rs"
  by (induction rs) simp_all

lemma get_put_runes [simp]: "get_runes (length rs) (put_runes rs @ mem) = rs"
  by (induction rs) simp_all

lemma get_runes_add: "get_runes (m + n) mem = get_runes m mem @ get_runes n (drop (4 * m) mem)"
  by (induction m arbitrary: mem) (simp_all add: ac_simps)

lemma get_runes_take: "4 * n \<le> k \<Longrightarrow> get_runes n (take k mem) = get_runes n mem"
  by (induction n arbitrary: mem k) (simp_all add: drop_take min_def)

lemma get_runes_append: "4 * n \<le> length a \<Longrightarrow> get_runes n (a @ b) = get_runes n a"
  using get_runes_take [of n "length a" "a @ b"] by simp

lemma put_get_runes: "4 * n \<le> length mem \<Longrightarrow> put_runes (get_runes n mem) = take (4 * n) mem"
proof (induction n arbitrary: mem)
  case (Suc n)
  have e: "enc_le 4 (dec_le (take 4 mem) :: u32) = take 4 mem"
  proof -
    have "length (take 4 mem) = 4" using Suc.prems by simp
    then show ?thesis using enc_dec_le [of "take 4 mem", where 'a = 32] by simp
  qed
  show ?case using Suc e by (simp add: take_add)
qed simp

lemma get_runes_nth: "i < n \<Longrightarrow> get_runes n mem ! i = dec_le (take 4 (drop (4 * i) mem))"
proof (induction n arbitrary: i mem)
  case (Suc n)
  then show ?case by (cases i) (simp_all add: ac_simps)
qed simp

lemma get_runes_put:
  assumes "0 \<le> l1" "0 \<le> l2" "l1 * 4 \<le> int (length d)" "int (length bs) = l2 * 4"
  shows "get_runes (nat (l1 + l2)) (put_at (l1 * 4) bs d) = get_runes (nat l1) d @ get_runes (nat l2) bs"
proof -
  obtain m n where n: "l1 = int m" "l2 = int n" using assms(1,2) zero_le_imp_eq_int by metis
  then have "get_runes (m + n) (put_at (int (4 * m)) bs d) = get_runes m d @ get_runes n bs"
    using assms(3,4) unfolding put_at_def nat_int
    by (simp add: get_runes_add get_runes_append get_runes_take)
  with n show ?thesis by (simp add: nat_int_add mult.commute)
qed

lemma take_put:
  assumes "0 \<le> l1" "0 \<le> l2" "l1 \<le> int (length d)" "int (length bs) = l2"
  shows "take (nat (l1 + l2)) (put_at l1 bs d) = take (nat l1) d @ bs"
proof -
  obtain m where "l1 = int m" using assms(1) zero_le_imp_eq_int by metis
  with assms show ?thesis by (auto simp: put_at_def nat_int_add)
qed

lemma get_put_runes_int: "int (length rs) = n \<Longrightarrow> get_runes (nat n) (put_runes rs) = rs"
  using get_put_runes [of rs "[]"] by auto

lemma put_at_append: "int (length a) = off \<Longrightarrow> put_at off bs (a @ d) = a @ bs @ drop (length bs) d"
  by (auto simp: put_at_def)

lemma put_runes_update:
  assumes "v < length rs"
  shows "put_at (int v * 4) (enc_le 4 r) (put_runes rs @ d) = put_runes (rs[v := r]) @ d"
proof -
  have rs: "rs = take v rs @ rs ! v # drop (Suc v) rs" using assms by (simp add: id_take_nth_drop)
  have n: "nat (int v * 4) = 4 * v" by simp
  have p: "put_runes rs = put_runes (take v rs) @ enc_le 4 (rs ! v) @ put_runes (drop (Suc v) rs)"
    by (subst rs) simp
  have "take (4 * v) (put_runes rs) = put_runes (take v rs)" "drop (4 * v + 4) (put_runes rs) = put_runes (drop (Suc v) rs)"
    using assms unfolding p by simp_all
  moreover have "4 * v + 4 \<le> length (put_runes rs)" using assms by simp
  ultimately show ?thesis
    using assms by (simp add: put_at_def n upd_conv_take_nth_drop)
qed

lemma get_runes_update:
  assumes "0 \<le> v" "v < n" "n * 4 \<le> int (length d)"
  shows "get_runes (nat n) (put_at (v * 4) (enc_le 4 r) d) = (get_runes (nat n) d)[nat v := r]"
proof -
  define rs where "rs = get_runes (nat n) d"
  obtain i where i: "v = int i" using assms(1) zero_le_imp_eq_int by blast
  have "4 * nat n \<le> length d" using assms by simp
  then have d: "d = put_runes rs @ drop (4 * nat n) d" by (simp add: rs_def put_get_runes)
  have len: "length rs = nat n" by (simp add: rs_def)
  have "put_at (v * 4) (enc_le 4 r) d = put_runes (rs[i := r]) @ drop (4 * nat n) d"
    using assms i len by (subst d) (simp add: put_runes_update)
  then show ?thesis using get_put_runes [of "rs[i := r]"] len i by (simp add: rs_def [symmetric])
qed

lemma put_at_byte: "0 \<le> v \<Longrightarrow> v < int (length d) \<Longrightarrow> put_at v [b] d = d[nat v := b]"
  by (simp add: put_at_def upd_conv_take_nth_drop nat_less_iff)

end
