(* ===== verification/Dis_String.thy ===== *)
theory Dis_String
  imports Dis_Memory Utf_String
begin

text \<open>
  Strings of the Dis virtual machine, \<^verbatim>\<open>src/libinterp/string.c\<close>. A string is a heap object
  whose data holds bytes (length not negative) or runes of four bytes (length negated). The
  store keeps the objects by address and the pointer slots that instructions operate on, so
  that sharing, reference counts and in-place updates are those of the code.
\<close>

section \<open>Data\<close>

text \<open>
  A string object: the reference count of its heap header, the fields of \<open>struct String\<close>, and
  the bytes from \<open>data\<close> to the end of the block.
\<close>

record dstring =
  s_ref :: u64
  s_len :: int
  s_max :: int
  s_tmp :: "byte list option"
  s_data :: "byte list"

type_synonym ptr = "nat option"

abbreviation H :: ptr where "H \<equiv> None"

record store =
  strs :: "nat \<Rightarrow> dstring option"
  nxt :: nat
  slot :: "nat \<Rightarrow> ptr"

definition sizeof_Heap :: int where "sizeof_Heap = 32"
definition sizeof_String :: int where "sizeof_String = 32"
definition sizeof_Array :: int where "sizeof_Array = 32"
definition sizeof_Rune :: int where "sizeof_Rune = 4"

text \<open>
  The pool allocator under the heap: the contents of the block it grants for a request, with
  the number of the request; it may refuse, and it may grant more than was asked for.
\<close>

type_synonym alloc = "nat \<Rightarrow> int \<Rightarrow> byte list option"

section \<open>Access to objects\<close>

definition str :: "store \<Rightarrow> nat \<Rightarrow> dstring cres" where
  "str h a = (case strs h a of None \<Rightarrow> Inl Undef | Some s \<Rightarrow> Inr s)"

definition upd :: "store \<Rightarrow> nat \<Rightarrow> dstring \<Rightarrow> store" where
  "upd h a s = h\<lparr>strs := (strs h)(a \<mapsto> s)\<rparr>"

definition mem_get :: "store \<Rightarrow> nat \<Rightarrow> int \<Rightarrow> int \<Rightarrow> byte list cres" where
  "mem_get h a off n = cbind (str h a) (\<lambda>s. rd (s_data s) off n)"

definition mem_put :: "store \<Rightarrow> nat \<Rightarrow> int \<Rightarrow> byte list \<Rightarrow> store cres" where
  "mem_put h a off bs = cbind (str h a) (\<lambda>s. cbind (wr (s_data s) off bs) (\<lambda>d. Inr (upd h a (s\<lparr>s_data := d\<rparr>))))"

definition set_len :: "store \<Rightarrow> nat \<Rightarrow> int \<Rightarrow> store cres" where
  "set_len h a l = cbind (str h a) (\<lambda>s. Inr (upd h a (s\<lparr>s_len := l\<rparr>)))"

definition set_max :: "store \<Rightarrow> nat \<Rightarrow> int \<Rightarrow> store cres" where
  "set_max h a m = cbind (str h a) (\<lambda>s. Inr (upd h a (s\<lparr>s_max := m\<rparr>)))"

definition set_slot :: "store \<Rightarrow> nat \<Rightarrow> ptr \<Rightarrow> store" where
  "set_slot h r p = h\<lparr>slot := (slot h)(r := p)\<rparr>"

section \<open>Allocation and release\<close>

definition nheap :: "alloc \<Rightarrow> int \<Rightarrow> store \<Rightarrow> byte list cres" where
  "nheap pa n h = (case pa (nxt h) (sizeof_Heap + c_int n) of None \<Rightarrow> Inl (Raise exHeap) | Some b \<Rightarrow> Inr b)"

text \<open>\<open>destroy\<close> of a string: \<open>freestring\<close> holds no further references.\<close>

definition destroy :: "store \<Rightarrow> ptr \<Rightarrow> store cres" where
  "destroy h p = (case p of None \<Rightarrow> Inr h
   | Some a \<Rightarrow> cbind (str h a) (\<lambda>s.
       if s_ref s - 1 > 0 then Inr (upd h a (s\<lparr>s_ref := s_ref s - 1\<rparr>))
       else Inr (h\<lparr>strs := (strs h)(a := None)\<rparr>)))"

definition newstring :: "alloc \<Rightarrow> int \<Rightarrow> store \<Rightarrow> (nat \<times> store) cres" where
  "newstring pa nb h = (let nb = c_int nb in
     cbind (nheap pa (sizeof_String + nb) h) (\<lambda>b.
     Inr (nxt h, h\<lparr>strs := (strs h)(nxt h \<mapsto>
        \<lparr>s_ref = 1, s_len = nb, s_max = c_int (int (length b)) - (sizeof_String + sizeof_Heap), s_tmp = None,
         s_data = drop 56 b\<rparr>), nxt := nxt h + 1\<rparr>)))"

definition newrunes :: "alloc \<Rightarrow> int \<Rightarrow> store \<Rightarrow> (nat \<times> store) cres" where
  "newrunes pa nr h = (let nr = c_int nr in
     if nr = 0 then newstring pa nr h
     else
       let nr = (if nr < 0 then c_int (- nr) else nr) in
       cbind (nheap pa (sizeof_String + nr * sizeof_Rune) h) (\<lambda>b.
       Inr (nxt h, h\<lparr>strs := (strs h)(nxt h \<mapsto>
          \<lparr>s_ref = 1, s_len = - nr, s_max = (c_int (int (length b)) - (sizeof_String + sizeof_Heap)) div sizeof_Rune,
           s_tmp = None, s_data = drop 56 b\<rparr>), nxt := nxt h + 1\<rparr>)))"

definition stringdup :: "alloc \<Rightarrow> ptr \<Rightarrow> store \<Rightarrow> (ptr \<times> store) cres" where
  "stringdup pa p h = (case p of None \<Rightarrow> Inr (H, h)
   | Some a \<Rightarrow> cbind (str h a) (\<lambda>s.
       if s_len s \<ge> 0 then
         cbind (newstring pa (s_len s) h) (\<lambda>(n, h).
         cbind (mem_get h a 0 (s_len s)) (\<lambda>bs.
         cbind (mem_put h n 0 bs) (\<lambda>h. Inr (Some n, h))))
       else
         cbind (newrunes pa (- s_len s) h) (\<lambda>(n, h).
         cbind (mem_get h a 0 (- s_len s * sizeof_Rune)) (\<lambda>bs.
         cbind (mem_put h n 0 bs) (\<lambda>h. Inr (Some n, h))))))"

text \<open>\<open>cvtup\<close> widens the bytes of string \<open>a\<close> into the runes of string \<open>n\<close> from index \<open>i\<close> on.\<close>

definition cvtup :: "nat \<Rightarrow> int \<Rightarrow> nat \<Rightarrow> store \<Rightarrow> store cres" where
  "cvtup n i a h = cbind (str h a) (\<lambda>s.
     cbind (mem_get h a 0 (s_len s)) (\<lambda>bs.
     mem_put h n (i * sizeof_Rune) (put_runes (map ucast bs))))"

definition splitc :: "alloc \<Rightarrow> nat \<Rightarrow> bool \<Rightarrow> store \<Rightarrow> (nat \<times> store) cres" where
  "splitc pa r expand h = (case slot h r of None \<Rightarrow> Inl Undef
   | Some ss \<Rightarrow> cbind (str h ss) (\<lambda>s.
       cbind (if expand \<and> s_len s > 0 then
                cbind (newrunes pa (s_len s) h) (\<lambda>(n, h). cbind (cvtup n 0 ss h) (\<lambda>h. Inr (Some n, h)))
              else stringdup pa (Some ss) h) (\<lambda>(ns, h).
       cbind (destroy h (Some ss)) (\<lambda>h.
       case ns of None \<Rightarrow> Inl Undef | Some n \<Rightarrow> Inr (n, set_slot h r ns)))))"

section \<open>Instructions\<close>

text \<open>Indexing: the operands are \<open>W(m)\<close> and \<open>S(s)\<close>, the result is stored in \<open>W(d)\<close>.\<close>

definition indc :: "store \<Rightarrow> int \<Rightarrow> ptr \<Rightarrow> int cres" where
  "indc h v p = (case p of None \<Rightarrow> Inl (Raise exNilref)
   | Some a \<Rightarrow> cbind (str h a) (\<lambda>ss.
       let l = s_len ss in
       if l < 0 then
         if v \<ge> - l then Inl (Raise exBounds)
         else cbind (rd (s_data ss) (v * sizeof_Rune) sizeof_Rune) (\<lambda>bs. Inr (uint (dec_le bs :: u32)))
       else
         if v \<ge> l then Inl (Raise exBounds)
         else cbind (rd (s_data ss) v 1) (\<lambda>bs. Inr (sint (dec_le bs :: byte)))))"

text \<open>
  Character assignment: the operands are \<open>W(s)\<close>, \<open>W(m)\<close> and the slot \<open>R.d\<close>. A nil string
  enters the rune branch with \<open>l = 0\<close>, which is also the negated length of the new string.
\<close>

definition insc_rune :: "alloc \<Rightarrow> int \<Rightarrow> int \<Rightarrow> nat \<Rightarrow> int \<Rightarrow> store \<Rightarrow> (nat \<times> store) cres" where
  "insc_rune pa r v ss l h = cbind (str h ss) (\<lambda>s.
     if v < l then cbind (mem_put h ss (v * sizeof_Rune) (enc_le 4 (word_of_int r :: u32))) (\<lambda>h. Inr (ss, h))
     else if v = l \<and> v < s_max s then
       cbind (set_len h ss (- (v + 1))) (\<lambda>h.
       cbind (mem_put h ss (v * sizeof_Rune) (enc_le 4 (word_of_int r :: u32))) (\<lambda>h. Inr (ss, h)))
     else if v \<noteq> l then Inl (Raise exBounds)
     else
       cbind (newstring pa (c_u32 (v + 1 + v div 4) * sizeof_Rune) h) (\<lambda>(ns, h).
       cbind (mem_get h ss 0 (l * sizeof_Rune)) (\<lambda>bs.
       cbind (mem_put h ns 0 bs) (\<lambda>h.
       cbind (mem_put h ns (v * sizeof_Rune) (enc_le 4 (word_of_int r :: u32))) (\<lambda>h.
       cbind (set_len h ns (- (v + 1))) (\<lambda>h.
       cbind (str h ns) (\<lambda>n.
       cbind (set_max h ns (s_max n div sizeof_Rune)) (\<lambda>h. Inr (ns, h)))))))))"

definition insc_ascii :: "alloc \<Rightarrow> int \<Rightarrow> int \<Rightarrow> nat \<Rightarrow> int \<Rightarrow> store \<Rightarrow> (nat \<times> store) cres" where
  "insc_ascii pa r v ss l h = cbind (str h ss) (\<lambda>s.
     if v < l then cbind (mem_put h ss v [word_of_int r]) (\<lambda>h. Inr (ss, h))
     else if v = l \<and> v < s_max s then
       cbind (set_len h ss (c_u32 (v + 1))) (\<lambda>h.
       cbind (mem_put h ss v [word_of_int r]) (\<lambda>h. Inr (ss, h)))
     else if v \<noteq> l then Inl (Raise exBounds)
     else
       cbind (newstring pa (c_u32 (v + 1 + v div 4)) h) (\<lambda>(ns, h).
       cbind (mem_get h ss 0 l) (\<lambda>bs.
       cbind (mem_put h ns 0 bs) (\<lambda>h.
       cbind (mem_put h ns v [word_of_int r]) (\<lambda>h.
       cbind (set_len h ns (c_u32 (v + 1))) (\<lambda>h. Inr (ns, h)))))))"

definition insc :: "alloc \<Rightarrow> int \<Rightarrow> int \<Rightarrow> nat \<Rightarrow> store \<Rightarrow> store cres" where
  "insc pa r v d h =
    (let v = c_u32 v; expand = (r \<ge> uint Runeself) in
     cbind (case slot h d of
         None \<Rightarrow> cbind (newstring pa 0 h) (\<lambda>(ss, h).
           if expand then cbind (str h ss) (\<lambda>s. cbind (set_max h ss (s_max s div sizeof_Rune)) (\<lambda>h. Inr (ss, h)))
           else Inr (ss, h))
       | Some ss \<Rightarrow> cbind (str h ss) (\<lambda>s.
           if s_ref s > 1 \<or> expand \<and> s_len s > 0 then splitc pa d expand h else Inr (ss, h))) (\<lambda>(ss, h).
     cbind (str h ss) (\<lambda>s.
     let l = s_len s in
     cbind (if l < 0 \<or> expand then insc_rune pa r v ss (- l) h else insc_ascii pa r v ss l h) (\<lambda>(ss, h).
     if Some ss \<noteq> slot h d then cbind (destroy h (slot h d)) (\<lambda>h. Inr (set_slot h d (Some ss)))
     else Inr h))))"

definition slicer :: "alloc \<Rightarrow> int \<Rightarrow> int \<Rightarrow> ptr \<Rightarrow> store \<Rightarrow> (ptr \<times> store) cres" where
  "slicer pa start v ds h = (let start = c_u32 start; v = c_u32 v in
     case ds of None \<Rightarrow> if start = 0 \<and> v = 0 then Inr (H, h) else Inl (Raise exBounds)
   | Some a \<Rightarrow> cbind (str h a) (\<lambda>s.
       let nc = c_u32 (v - start) in
       if s_len s < 0 then
         let l = - s_len s in
         if v < start \<or> v > l then Inl (Raise exBounds)
         else if nc = 0 then Inr (H, h)
         else
           cbind (newrunes pa nc h) (\<lambda>(ns, h).
           cbind (mem_get h a (start * sizeof_Rune) (nc * sizeof_Rune)) (\<lambda>bs.
           cbind (mem_put h ns 0 bs) (\<lambda>h. Inr (Some ns, h))))
       else
         let l = s_len s in
         if v < start \<or> v > l then Inl (Raise exBounds)
         else if nc = 0 then Inr (H, h)
         else
           cbind (newstring pa nc h) (\<lambda>(ns, h).
           cbind (mem_get h a start nc) (\<lambda>bs.
           cbind (mem_put h ns 0 bs) (\<lambda>h. Inr (Some ns, h))))))"

definition slicec :: "alloc \<Rightarrow> int \<Rightarrow> int \<Rightarrow> nat \<Rightarrow> store \<Rightarrow> store cres" where
  "slicec pa start v d h = cbind (slicer pa start v (slot h d) h) (\<lambda>(ns, h).
     cbind (destroy h (slot h d)) (\<lambda>h. Inr (set_slot h d ns)))"

text \<open>
  Concatenation. The length of the second string is read again for the copy, after the length
  of the result was set; with \<open>s1 = s2\<close> and an update in place these are the same object.
\<close>

definition grown :: "bool \<Rightarrow> int \<Rightarrow> int" where
  "grown app l = (if app then l + l div 4 else l)"

definition add_second :: "nat \<Rightarrow> int \<Rightarrow> int \<Rightarrow> nat \<Rightarrow> store \<Rightarrow> (ptr \<times> store) cres" where
  "add_second ns l1 l a2 h = cbind (set_len h ns (- l)) (\<lambda>h.
     cbind (str h a2) (\<lambda>o2.
     if s_len o2 < 0 then
       cbind (mem_get h a2 0 (- s_len o2 * sizeof_Rune)) (\<lambda>bs.
       cbind (mem_put h ns (l1 * sizeof_Rune) bs) (\<lambda>h. Inr (Some ns, h)))
     else cbind (cvtup ns l1 a2 h) (\<lambda>h. Inr (Some ns, h))))"

definition add_runes :: "alloc \<Rightarrow> nat \<Rightarrow> nat \<Rightarrow> bool \<Rightarrow> store \<Rightarrow> (ptr \<times> store) cres" where
  "add_runes pa a1 a2 app h = cbind (str h a1) (\<lambda>o1. cbind (str h a2) (\<lambda>o2.
     let l1 = - s_len o1;
         l = (if s_len o2 < 0 then l1 - s_len o2 else l1 + s_len o2) in
     cbind (if app \<and> l \<le> s_max o1 then Inr (a1, h)
            else cbind (newrunes pa (grown app l) h) (\<lambda>(ns, h).
              cbind (mem_get h a1 0 (l1 * sizeof_Rune)) (\<lambda>bs.
              cbind (mem_put h ns 0 bs) (\<lambda>h. Inr (ns, h))))) (\<lambda>(ns, h).
     add_second ns l1 l a2 h)))"

definition add_widen :: "alloc \<Rightarrow> nat \<Rightarrow> nat \<Rightarrow> bool \<Rightarrow> store \<Rightarrow> (ptr \<times> store) cres" where
  "add_widen pa a1 a2 app h = cbind (str h a1) (\<lambda>o1. cbind (str h a2) (\<lambda>o2.
     let l2 = - s_len o2; l = s_len o1 + l2 in
     cbind (newrunes pa (grown app l) h) (\<lambda>(ns, h).
     cbind (set_len h ns (- l)) (\<lambda>h.
     cbind (cvtup ns 0 a1 h) (\<lambda>h.
     cbind (mem_get h a2 0 (l2 * sizeof_Rune)) (\<lambda>bs.
     cbind (mem_put h ns (s_len o1 * sizeof_Rune) bs) (\<lambda>h. Inr (Some ns, h))))))))"

definition add_ascii :: "alloc \<Rightarrow> nat \<Rightarrow> nat \<Rightarrow> bool \<Rightarrow> store \<Rightarrow> (ptr \<times> store) cres" where
  "add_ascii pa a1 a2 app h = cbind (str h a1) (\<lambda>o1. cbind (str h a2) (\<lambda>o2.
     let l1 = s_len o1; l = l1 + s_len o2 in
     cbind (if app \<and> l \<le> s_max o1 then Inr (a1, h)
            else cbind (newstring pa (grown app l) h) (\<lambda>(ns, h).
              cbind (mem_get h a1 0 l1) (\<lambda>bs.
              cbind (mem_put h ns 0 bs) (\<lambda>h. Inr (ns, h))))) (\<lambda>(ns, h).
     cbind (set_len h ns l) (\<lambda>h.
     cbind (str h a2) (\<lambda>o2.
     cbind (mem_get h a2 0 (s_len o2)) (\<lambda>bs.
     cbind (mem_put h ns l1 bs) (\<lambda>h. Inr (Some ns, h))))))))"

definition addstring :: "alloc \<Rightarrow> ptr \<Rightarrow> ptr \<Rightarrow> bool \<Rightarrow> store \<Rightarrow> (ptr \<times> store) cres" where
  "addstring pa s1 s2 app h = (case s1 of
     None \<Rightarrow> (case s2 of None \<Rightarrow> Inr (H, h) | Some _ \<Rightarrow> stringdup pa s2 h)
   | Some a1 \<Rightarrow> cbind (str h a1) (\<lambda>o1.
       let app = (if s_ref o1 > 1 then False else app) in
       case s2 of
         None \<Rightarrow> if app then Inr (s1, h) else stringdup pa s1 h
       | Some a2 \<Rightarrow> cbind (str h a2) (\<lambda>o2.
           if s_len o1 < 0 then add_runes pa a1 a2 app h
           else if s_len o2 < 0 then add_widen pa a1 a2 app h
           else add_ascii pa a1 a2 app h)))"

definition addc :: "alloc \<Rightarrow> nat \<Rightarrow> nat \<Rightarrow> nat \<Rightarrow> store \<Rightarrow> store cres" where
  "addc pa rs rm d h = cbind (addstring pa (slot h rm) (slot h rs) (rm = d) h) (\<lambda>(ns, h).
     if ns \<noteq> slot h d then cbind (destroy h (slot h d)) (\<lambda>h. Inr (set_slot h d ns)) else Inr h)"

definition lenc :: "store \<Rightarrow> ptr \<Rightarrow> int cres" where
  "lenc h p = (case p of None \<Rightarrow> Inr 0
   | Some a \<Rightarrow> cbind (str h a) (\<lambda>ss. let l = s_len ss in Inr (if l < 0 then - l else l)))"

section \<open>Conversion\<close>

text \<open>\<open>mem2array\<close> of \<^verbatim>\<open>runt.c\<close>: the bytes of the new array.\<close>

definition mem2array :: "alloc \<Rightarrow> byte list option \<Rightarrow> int \<Rightarrow> store \<Rightarrow> byte list cres" where
  "mem2array pa va n h = (let n = (if c_int n < 0 then 0 else c_int n) in
     cbind (nheap pa (sizeof_Array + n) h) (\<lambda>b.
     cbind (rd b (sizeof_Heap + sizeof_Array) n) (\<lambda>bs.
     case va of None \<Rightarrow> Inr bs | Some v \<Rightarrow> rd v 0 n)))"

text \<open>The loop of \<open>cvtca\<close>: runes stored from position \<open>p\<close> on.\<close>

fun fill_utf :: "u32 list \<Rightarrow> int \<Rightarrow> byte list \<Rightarrow> byte list cres" where
  "fill_utf [] p a = Inr a"
| "fill_utf (r # rs) p a =
    cbind (wr a p (runetochar r)) (\<lambda>a. fill_utf rs (p + int (length (runetochar r))) a)"

definition cvtca :: "alloc \<Rightarrow> ptr \<Rightarrow> store \<Rightarrow> byte list cres" where
  "cvtca pa p h = (case p of None \<Rightarrow> mem2array pa None 0 h
   | Some a \<Rightarrow> cbind (str h a) (\<lambda>ss.
       if s_len ss < 0 then
         let l = - s_len ss in
         cbind (rd (s_data ss) 0 (l * sizeof_Rune)) (\<lambda>bs.
         let rs = get_runes (nat l) bs in
         cbind (mem2array pa None (int (runenlen rs)) h) (\<lambda>a. fill_utf rs 0 a))
       else mem2array pa (Some (s_data ss)) (s_len ss) h))"

text \<open>
  \<open>string2c\<close>: the C string it returns, as the bytes from its pointer on. A string of runes is
  encoded into \<open>s_tmp\<close>, which grows when it is too small; \<open>c\<close> is an \<open>int\<close>.
\<close>

fun string2c_loop :: "u32 list \<Rightarrow> int \<Rightarrow> byte list \<Rightarrow> (int \<times> byte list) cres" where
  "string2c_loop [] p t = Inr (p, t)"
| "string2c_loop (r # rs) p t =
    (let c = sint r in
     if c < uint Runeself then cbind (wr t p [word_of_int c]) (\<lambda>t. string2c_loop rs (p + 1) t)
     else cbind (wr t p (runetochar r)) (\<lambda>t. string2c_loop rs (p + int (length (runetochar r))) t))"

definition string2c_tmp :: "alloc \<Rightarrow> int \<Rightarrow> dstring \<Rightarrow> store \<Rightarrow> byte list cres" where
  "string2c_tmp pa l s h = (case s_tmp s of
     Some t \<Rightarrow> if int (length t) < l
       then (case pa (nxt h) l of None \<Rightarrow> Inl (Raise exNomem) | Some t \<Rightarrow> Inr t) else Inr t
   | None \<Rightarrow> (case pa (nxt h) l of None \<Rightarrow> Inl (Raise exNomem) | Some t \<Rightarrow> Inr t))"

definition string2c :: "alloc \<Rightarrow> ptr \<Rightarrow> store \<Rightarrow> (byte list \<times> store) cres" where
  "string2c pa p h = (case p of None \<Rightarrow> Inr ([0], h)
   | Some a \<Rightarrow> cbind (str h a) (\<lambda>s.
       if s_len s \<ge> 0 then
         cbind (mem_put h a (s_len s) [0]) (\<lambda>h. cbind (str h a) (\<lambda>s. Inr (s_data s, h)))
       else
         let nc = c_int (- s_len s); l = c_int (nc * int UTFmax + int UTFmax) in
         cbind (string2c_tmp pa l s h) (\<lambda>t.
         cbind (rd (s_data s) 0 (nc * sizeof_Rune)) (\<lambda>bs.
         cbind (string2c_loop (get_runes (nat nc) bs) 0 t) (\<lambda>(p, t).
         cbind (wr t p [0]) (\<lambda>t. Inr (t, upd h a (s\<lparr>s_tmp := Some t\<rparr>))))))))"

text \<open>
  \<open>c2string\<close>: the first loop looks for a byte that is not ASCII, the second counts the runes
  from there on, \<open>n\<close> bytes being left, and the last decodes.
\<close>

fun c2s_ascii :: "byte list \<Rightarrow> nat \<Rightarrow> nat option cres" where
  "c2s_ascii s 0 = Inr None"
| "c2s_ascii [] (Suc n) = Inl Undef"
| "c2s_ascii (c # s) (Suc n) =
    (if ucast c \<ge> Runeself then Inr (Some 0) else cbind (c2s_ascii s n) (\<lambda>r. Inr (map_option Suc r)))"

function c2s_count :: "byte list \<Rightarrow> nat \<Rightarrow> nat \<Rightarrow> nat cres" where
  "c2s_count s n nc =
    (if 0 < n then
       cbind (cguard (0 < length s)) (\<lambda>_.
       if ucast (s ! 0) < Runeself then c2s_count (drop 1 s) (n - 1) (nc + 1)
       else
         cbind (if UTFmax \<le> n then Inr True else fullrune s n) (\<lambda>f.
         if f then cbind (chartorune s) (\<lambda>(junk, k). c2s_count (drop k s) (n - k) (nc + 1))
         else Inr nc))
     else Inr nc)"
  by pat_completeness auto
termination
  by (relation "measure (\<lambda>(s, n, _). n)") (auto dest: chartorune_pos)

declare c2s_count.simps [simp del]

fun c2s_decode :: "nat \<Rightarrow> byte list \<Rightarrow> u32 list cres" where
  "c2s_decode 0 cs = Inr []"
| "c2s_decode (Suc nc) cs =
    cbind (chartorune cs) (\<lambda>(r, k). cbind (c2s_decode nc (drop k cs)) (\<lambda>rs. Inr (r # rs)))"

definition c2string :: "alloc \<Rightarrow> byte list \<Rightarrow> nat \<Rightarrow> store \<Rightarrow> (nat \<times> store) cres" where
  "c2string pa cs len h = cbind (c2s_ascii cs len) (\<lambda>isrune.
     case isrune of
       None \<Rightarrow>
         cbind (newstring pa (int len) h) (\<lambda>(s, h).
         cbind (rd cs 0 (int len)) (\<lambda>bs.
         cbind (mem_put h s 0 bs) (\<lambda>h. Inr (s, h))))
     | Some i \<Rightarrow>
         cbind (c2s_count (drop i cs) (len - i) i) (\<lambda>nc.
         cbind (newrunes pa (int nc) h) (\<lambda>(s, h).
         cbind (c2s_decode nc cs) (\<lambda>rs.
         cbind (mem_put h s 0 (put_runes rs)) (\<lambda>h. Inr (s, h))))))"

text \<open>The operand of \<open>cvtac\<close> is nil or the bytes of an array.\<close>

definition cvtac :: "alloc \<Rightarrow> byte list option \<Rightarrow> nat \<Rightarrow> store \<Rightarrow> store cres" where
  "cvtac pa arr d h =
    cbind (case arr of None \<Rightarrow> Inr (H, h)
           | Some bs \<Rightarrow> cbind (c2string pa bs (length bs) h) (\<lambda>(s, h). Inr (Some s, h))) (\<lambda>(ds, h).
    cbind (destroy h (slot h d)) (\<lambda>h. Inr (set_slot h d ds)))"

section \<open>Comparison\<close>

text \<open>The sign of \<open>memcmp\<close>.\<close>

fun memcmp :: "byte list \<Rightarrow> byte list \<Rightarrow> int" where
  "memcmp (a # as) (b # bs) = (if a < b then -1 else if b < a then 1 else memcmp as bs)"
| "memcmp _ _ = 0"

text \<open>The loops: characters are compared as \<open>int\<close>, bytes as signed \<open>char\<close>.\<close>

fun cmp_loop :: "int list \<Rightarrow> int list \<Rightarrow> int" where
  "cmp_loop (c1 # r1) (c2 # r2) = (if c1 \<noteq> c2 then (if c1 < c2 then -1 else 1) else cmp_loop r1 r2)"
| "cmp_loop _ _ = 0"

definition load_string :: "store \<Rightarrow> ptr \<Rightarrow> (int \<times> byte list) cres" where
  "load_string h p = (case p of None \<Rightarrow> Inr (0, [])
   | Some a \<Rightarrow> cbind (str h a) (\<lambda>s. Inr (s_len s, s_data s)))"

definition stringcmp :: "store \<Rightarrow> ptr \<Rightarrow> ptr \<Rightarrow> int cres" where
  "stringcmp h s1 s2 = cbind (load_string h s1) (\<lambda>(len1, d1). cbind (load_string h s2) (\<lambda>(len2, d2).
     if s1 = s2 then Inr 0
     else
       let n1 = c_int len1; n2 = c_int len2; v1 = n1 < 0; v2 = n2 < 0;
           n1 = (if v1 then - n1 else n1); n2 = (if v2 then - n2 else n2);
           n = min n1 n2 in
       if \<not> v1 \<and> \<not> v2 then
         cbind (rd d1 0 n) (\<lambda>a1. cbind (rd d2 0 n) (\<lambda>a2.
         let c = memcmp a1 a2 in Inr (if c = 0 then n1 - n2 else c)))
       else
         cbind (if v1 then cbind (rd d1 0 (n * sizeof_Rune)) (\<lambda>b. Inr (map sint (get_runes (nat n) b)))
                else cbind (rd d1 0 n) (\<lambda>b. Inr (map sint b))) (\<lambda>c1.
         cbind (if v2 then cbind (rd d2 0 (n * sizeof_Rune)) (\<lambda>b. Inr (map sint (get_runes (nat n) b)))
                else cbind (rd d2 0 n) (\<lambda>b. Inr (map sint b))) (\<lambda>c2.
         let c = cmp_loop c1 c2 in Inr (if c = 0 then n1 - n2 else c)))))"

end
