(* ===== verification/Dis_String_Proofs.thy ===== *)
theory Dis_String_Proofs
  imports Dis_String
begin

text \<open>
  Correctness of the string instructions: the invariant of string objects and of the store
  (room, representation, reference counts), and that every instruction gives its destination
  the value a pure string operation computes while all other slots keep theirs. In-place
  updates are invisible: strings have value semantics.
\<close>

section \<open>Well-formed strings and their value\<close>

definition chars :: "dstring \<Rightarrow> u32 list" where
  "chars s = (if s_len s < 0 then get_runes (nat (- s_len s)) (s_data s)
     else map ucast (take (nat (s_len s)) (s_data s)))"

text \<open>
  Room: \<open>s_max\<close> counts characters of the current representation, and eight bytes (the union in
  the header) remain behind them. Byte strings hold only ASCII.
\<close>

definition max_block :: int where "max_block = 0x10000000"

definition wf_string :: "dstring \<Rightarrow> bool" where
  "wf_string s \<longleftrightarrow> 1 \<le> s_ref s \<and> int (length (s_data s)) \<le> max_block
     \<and> (if s_len s < 0 then - s_len s \<le> s_max s \<and> 4 * s_max s + 8 \<le> int (length (s_data s))
        else s_len s \<le> s_max s \<and> s_max s + 8 \<le> int (length (s_data s))
          \<and> list_all (\<lambda>b. b < 0x80) (take (nat (s_len s)) (s_data s)))"

text \<open>What the code relies on of the pool: a granted block is large enough, and no block exceeds 256 MB.\<close>

definition pool_ok :: "alloc \<Rightarrow> bool" where
  "pool_ok pa \<longleftrightarrow> (\<forall>k n b. pa k n = Some b \<longrightarrow> 0 \<le> n \<and> n \<le> int (length b) \<and> int (length b) \<le> max_block)"

definition alloc_str :: "store \<Rightarrow> dstring \<Rightarrow> store" where
  "alloc_str h s = h\<lparr>strs := (strs h)(nxt h \<mapsto> s), nxt := nxt h + 1\<rparr>"

lemma length_chars: "length (chars s) = nat \<bar>s_len s\<bar>" if "wf_string s"
  using that by (auto simp: chars_def wf_string_def nat_le_iff)

lemma store_simps [simp]:
  "strs (alloc_str h s) = (strs h)(nxt h \<mapsto> s)" "nxt (alloc_str h s) = nxt h + 1" "slot (alloc_str h s) = slot h"
  "strs (upd h a s) = (strs h)(a \<mapsto> s)" "nxt (upd h a s) = nxt h" "slot (upd h a s) = slot h"
  "strs (set_slot h d p) = strs h" "nxt (set_slot h d p) = nxt h" "slot (set_slot h d p) = (slot h)(d := p)"
  "upd (alloc_str h s) (nxt h) s' = alloc_str h s'" "upd (upd h a s) a s' = upd h a s'"
  by (simp_all add: alloc_str_def upd_def set_slot_def)

lemma str_Some [simp]: "strs h a = Some s \<Longrightarrow> str h a = Inr s"
  by (simp add: str_def)

lemma mem_simps:
  assumes "strs h a = Some s"
  shows "mem_get h a off n = rd (s_data s) off n"
    and "mem_put h a off bs = cbind (wr (s_data s) off bs) (\<lambda>d. Inr (upd h a (s\<lparr>s_data := d\<rparr>)))"
    and "set_len h a l = Inr (upd h a (s\<lparr>s_len := l\<rparr>))"
    and "set_max h a l = Inr (upd h a (s\<lparr>s_max := l\<rparr>))"
  using assms by (simp_all add: mem_get_def mem_put_def set_len_def set_max_def)

lemma mem_fresh [simp]:
  "mem_put (alloc_str h s) (nxt h) off bs = cbind (wr (s_data s) off bs) (\<lambda>d. Inr (alloc_str h (s\<lparr>s_data := d\<rparr>)))"
  "mem_get (alloc_str h s) (nxt h) off n = rd (s_data s) off n"
  "set_len (alloc_str h s) (nxt h) l = Inr (alloc_str h (s\<lparr>s_len := l\<rparr>))"
  "set_max (alloc_str h s) (nxt h) l = Inr (alloc_str h (s\<lparr>s_max := l\<rparr>))"
  "str (alloc_str h s) (nxt h) = Inr s"
  by (simp_all add: mem_simps)

lemma mem_old [simp]:
  "a < nxt h \<Longrightarrow> mem_get (alloc_str h s) a off n = mem_get h a off n"
  "a < nxt h \<Longrightarrow> str (alloc_str h s) a = str h a"
  by (simp_all add: mem_get_def str_def)

lemmas sizes = sizeof_Heap_def sizeof_String_def sizeof_Array_def sizeof_Rune_def max_block_def

text \<open>A fresh object of \<open>newstring\<close> and \<open>newrunes\<close>.\<close>

lemma newstring_post:
  assumes "pool_ok pa" "0 \<le> nb" "nb < 0x70000000"
    and "\<And>s. s_ref s = 1 \<Longrightarrow> s_len s = nb \<Longrightarrow> nb \<le> s_max s \<Longrightarrow> s_tmp s = None \<Longrightarrow>
       int (length (s_data s)) = s_max s + 8 \<Longrightarrow> int (length (s_data s)) \<le> max_block \<Longrightarrow> Q (nxt h, alloc_str h s)"
  shows "cpost (newstring pa nb h) {exHeap} Q"
proof (cases "pa (nxt h) (64 + nb)")
  case None
  then show ?thesis using assms(2,3) by (simp add: newstring_def nheap_def sizes Let_def)
next
  case (Some b)
  then have "64 + nb \<le> int (length b)" "int (length b) \<le> 0x10000000"
    using assms(1) unfolding pool_ok_def max_block_def by blast+
  then show ?thesis
    using Some assms(2,3) assms(4) [of "\<lparr>s_ref = 1, s_len = nb, s_max = int (length b) - 64, s_tmp = None, s_data = drop 56 b\<rparr>"]
    by (simp add: newstring_def nheap_def sizes Let_def alloc_str_def)
qed

lemma newrunes_post:
  assumes "pool_ok pa" "0 < nr" "nr < 0x1C000000"
    and "\<And>s. s_ref s = 1 \<Longrightarrow> s_len s = - nr \<Longrightarrow> nr \<le> s_max s \<Longrightarrow> s_tmp s = None \<Longrightarrow>
       4 * s_max s + 8 \<le> int (length (s_data s)) \<Longrightarrow> int (length (s_data s)) \<le> max_block \<Longrightarrow> Q (nxt h, alloc_str h s)"
  shows "cpost (newrunes pa nr h) {exHeap} Q"
proof (cases "pa (nxt h) (64 + nr * 4)")
  case None
  then show ?thesis using assms(2,3) by (simp add: newrunes_def nheap_def sizes Let_def)
next
  case (Some b)
  then have "64 + nr * 4 \<le> int (length b)" "int (length b) \<le> 0x10000000"
    using assms(1) unfolding pool_ok_def max_block_def by blast+
  moreover from this have "nr \<le> (int (length b) - 64) div 4" "4 * ((int (length b) - 64) div 4) + 64 \<le> int (length b)"
    by linarith+
  ultimately show ?thesis
    using Some assms(2,3) assms(4) [of "\<lparr>s_ref = 1, s_len = - nr, s_max = (int (length b) - 64) div 4, s_tmp = None, s_data = drop 56 b\<rparr>"]
    by (simp add: newrunes_def nheap_def sizes Let_def alloc_str_def)
qed

definition is_fresh :: "store \<Rightarrow> u32 list \<Rightarrow> nat \<Rightarrow> store \<Rightarrow> bool" where
  "is_fresh h cs n h' \<longleftrightarrow> n = nxt h \<and> (\<exists>s. h' = alloc_str h s \<and> wf_string s \<and> s_ref s = 1 \<and> chars s = cs)"

lemma is_freshI:
  "wf_string s \<Longrightarrow> s_ref s = 1 \<Longrightarrow> chars s = cs \<Longrightarrow> is_fresh h cs (nxt h) (alloc_str h s)"
  by (auto simp: is_fresh_def)

lemma stringdup_post:
  assumes "pool_ok pa" and s: "strs h a = Some s" and "wf_string s" and "a < nxt h"
  shows "cpost (stringdup pa (Some a) h) {exHeap} (\<lambda>(p, h'). \<exists>n. p = Some n \<and> is_fresh h (chars s) n h')"
proof (cases "s_len s < 0")
  case False
  with assms show ?thesis
    by (auto simp: stringdup_def wf_string_def max_block_def mem_simps [where s = s] nat_le_iff chars_def
        intro!: newstring_post is_freshI)
next
  case True
  with assms show ?thesis
    by (auto simp: stringdup_def wf_string_def max_block_def mem_simps [where s = s] nat_le_iff chars_def sizes
        get_runes_append get_runes_take
        intro!: newrunes_post is_freshI)
qed

definition is_updated :: "store \<Rightarrow> nat \<Rightarrow> u32 list \<Rightarrow> store \<Rightarrow> bool" where
  "is_updated h a cs h' \<longleftrightarrow> (\<exists>s s'. strs h a = Some s \<and> h' = upd h a s' \<and> wf_string s' \<and> s_ref s' = s_ref s \<and> chars s' = cs)"

lemma is_updatedI:
  "strs h a = Some s \<Longrightarrow> wf_string s' \<Longrightarrow> s_ref s' = s_ref s \<Longrightarrow> chars s' = cs \<Longrightarrow> is_updated h a cs (upd h a s')"
  by (auto simp: is_updated_def)

lemma wf_runes_iff:
  "s_len s = - l \<Longrightarrow> 0 < l \<Longrightarrow> wf_string s \<longleftrightarrow> 1 \<le> s_ref s \<and> int (length (s_data s)) \<le> 0x10000000
    \<and> l \<le> s_max s \<and> 4 * s_max s + 8 \<le> int (length (s_data s))"
  "s_len s = - l \<Longrightarrow> 0 < l \<Longrightarrow> chars s = get_runes (nat l) (s_data s)"
  by (simp_all add: wf_string_def chars_def max_block_def)

lemma wf_ascii_iff:
  "0 \<le> s_len s \<Longrightarrow> wf_string s \<longleftrightarrow> 1 \<le> s_ref s \<and> int (length (s_data s)) \<le> 0x10000000
    \<and> s_len s \<le> s_max s \<and> s_max s + 8 \<le> int (length (s_data s))
    \<and> list_all (\<lambda>b. b < 0x80) (take (nat (s_len s)) (s_data s))"
  "0 \<le> s_len s \<Longrightarrow> chars s = map ucast (take (nat (s_len s)) (s_data s))"
  by (simp_all add: wf_string_def chars_def max_block_def)

definition adds :: "store \<Rightarrow> nat \<Rightarrow> bool \<Rightarrow> u32 list \<Rightarrow> ptr \<times> store \<Rightarrow> bool" where
  "adds h a1 app cs = (\<lambda>(p, h'). (\<exists>n. p = Some n \<and> is_fresh h cs n h')
     \<or> app \<and> p = Some a1 \<and> is_updated h a1 cs h')"

lemma addsI:
  "is_fresh h cs n h' \<Longrightarrow> adds h a1 app cs (Some n, h')"
  "app \<Longrightarrow> is_updated h a1 cs h' \<Longrightarrow> adds h a1 app cs (Some a1, h')"
  by (simp_all add: adds_def)

lemma grown_bounds:
  assumes "0 \<le> l"
  shows "l \<le> grown app l" "4 * grown app l \<le> 5 * l"
proof -
  have "4 * (l div 4) \<le> l" "0 \<le> l div 4" using assms by linarith+
  then show "l \<le> grown app l" "4 * grown app l \<le> 5 * l" using assms by (simp_all add: grown_def)
qed

text \<open>The characters of a string, as the bytes that a copy of runes moves.\<close>

lemma get_as_runes:
  assumes "strs h a = Some s" "wf_string s" "s_len s < 0"
  shows "mem_get h a 0 (- (s_len s * 4)) = Inr (put_runes (chars s))"
proof -
  obtain n where n: "s_len s = - int n" using assms(3) by (metis less_imp_le neg_le_0_iff_le minus_minus zero_le_imp_eq_int)
  have "4 * n \<le> length (s_data s)" using assms n by (auto simp: wf_string_def)
  moreover have "nat (int n * 4) = 4 * n" by simp
  ultimately show ?thesis
    using assms n by (simp add: mem_simps chars_def put_get_runes rd_def)
qed

lemma cvtup_runes:
  assumes "strs h a = Some s" "wf_string s" "0 \<le> s_len s"
  shows "cvtup n i a h = mem_put h n (i * 4) (put_runes (chars s))"
  using assms by (simp add: cvtup_def mem_simps rd_def chars_def sizes wf_string_def)

lemma runes_extended:
  assumes "1 \<le> s_ref s" "0 \<le> l1" "0 \<le> l2" "0 < l1 + l2" "l1 + l2 \<le> s_max s" "4 * s_max s + 8 \<le> int (length d)"
    "int (length d) \<le> max_block" "length c2 = nat l2"
  shows "wf_string (s\<lparr>s_len := - l1 - l2, s_data := put_at (l1 * 4) (put_runes c2) d\<rparr>)"
    and "chars (s\<lparr>s_len := - l1 - l2, s_data := put_at (l1 * 4) (put_runes c2) d\<rparr>) = get_runes (nat l1) d @ c2"
proof -
  have p: "get_runes (nat (l1 + l2)) (put_at (l1 * 4) (put_runes c2) d) = get_runes (nat l1) d @ c2"
    using assms by (subst get_runes_put) (simp_all add: get_put_runes_int)
  show "wf_string (s\<lparr>s_len := - l1 - l2, s_data := put_at (l1 * 4) (put_runes c2) d\<rparr>)"
    using assms by (simp add: wf_string_def max_block_def)
  show "chars (s\<lparr>s_len := - l1 - l2, s_data := put_at (l1 * 4) (put_runes c2) d\<rparr>) = get_runes (nat l1) d @ c2"
    using p assms by (simp add: chars_def add.commute)
qed

lemma ascii_extended:
  assumes "1 \<le> s_ref s" "0 \<le> l1" "0 \<le> l2" "l1 + l2 \<le> s_max s" "s_max s + 8 \<le> int (length d)"
    "int (length d) \<le> max_block" "length c2 = nat l2" "list_all (\<lambda>b. b < 0x80) (take (nat l1) d)" "list_all (\<lambda>b. b < 0x80) c2"
  shows "wf_string (s\<lparr>s_len := l1 + l2, s_data := put_at l1 c2 d\<rparr>)"
    and "chars (s\<lparr>s_len := l1 + l2, s_data := put_at l1 c2 d\<rparr>) = map ucast (take (nat l1) d @ c2)"
proof -
  have p: "take (nat (l1 + l2)) (put_at l1 c2 d) = take (nat l1) d @ c2"
    using assms by (intro take_put) simp_all
  show "wf_string (s\<lparr>s_len := l1 + l2, s_data := put_at l1 c2 d\<rparr>)"
    using assms p by (simp add: wf_string_def max_block_def)
  show "chars (s\<lparr>s_len := l1 + l2, s_data := put_at l1 c2 d\<rparr>) = map ucast (take (nat l1) d @ c2)"
    using p assms by (simp add: chars_def)
qed

lemma get_put_prefix: "int (length rs) = n \<Longrightarrow> get_runes (nat n) (put_runes rs @ mem) = rs"
  using get_put_runes [of rs mem] by auto

lemma add_runes_post:
  assumes pa: "pool_ok pa" and s1: "strs h a1 = Some o1" "wf_string o1" "a1 < nxt h" "s_len o1 = - l1" "0 < l1"
    and s2: "strs h a2 = Some o2" "wf_string o2" "a2 < nxt h" and ne: "app \<Longrightarrow> a1 \<noteq> a2"
  shows "cpost (add_runes pa a1 a2 app h) {exHeap} (adds h a1 app (chars o1 @ chars o2))"
proof -
  define l2 where "l2 = \<bar>s_len o2\<bar>"
  have l2: "s_len o2 < 0 \<and> s_len o2 = - l2 \<and> 0 < l2 \<or> \<not> s_len o2 < 0 \<and> s_len o2 = l2 \<and> 0 \<le> l2" "0 \<le> l2"
    by (auto simp: l2_def)
  have g: "l1 + l2 \<le> grown app (l1 + l2)" "4 * grown app (l1 + l2) \<le> 5 * (l1 + l2)"
    using grown_bounds [of "l1 + l2"] s1 l2 by auto
  have w: "l1 * 4 + 8 \<le> int (length (s_data o1))" "l2 + 8 \<le> int (length (s_data o2))" "4 * s_max o1 + 8 \<le> int (length (s_data o1))"
    "int (length (s_data o1)) \<le> 0x10000000" "int (length (s_data o2)) \<le> 0x10000000" "1 \<le> s_ref o1"
    using s1 s2 l2 by (auto simp: wf_string_def max_block_def)
  have len: "length (chars o1) = nat l1" "length (chars o2) = nat l2"
    using length_chars s1 s2 l2 by auto
  have get1: "mem_get h a1 0 (l1 * 4) = Inr (put_runes (chars o1))"
    using get_as_runes [of h a1 o1] s1 by simp
  have second: "cpost (add_second n l1 (l1 + l2) a2 h') {exHeap}
     (\<lambda>r. r = (Some n, upd h' n (s\<lparr>s_len := - l1 - l2, s_data := put_at (l1 * 4) (put_runes (chars o2)) (s_data s)\<rparr>)))"
    if "strs h' n = Some s" "strs h' a2 = Some o2" "n \<noteq> a2" "(l1 + l2) * 4 \<le> int (length (s_data s))" for n s h'
    using that s1 s2 l2 len get_as_runes [of "upd h' n (s\<lparr>s_len := - l1 - l2\<rparr>)" a2 o2]
      cvtup_runes [of "upd h' n (s\<lparr>s_len := - l1 - l2\<rparr>)" a2 o2]
    by (auto simp: add_second_def mem_simps sizes)
  have l: "(if s_len o2 < 0 then l1 - s_len o2 else l1 + s_len o2) = l1 + l2" by (simp add: l2_def)
  have "add_runes pa a1 a2 app h = cbind (if app \<and> l1 + l2 \<le> s_max o1 then Inr (a1, h)
      else cbind (newrunes pa (grown app (l1 + l2)) h) (\<lambda>(ns, h).
        cbind (mem_get h a1 0 (l1 * 4)) (\<lambda>bs. cbind (mem_put h ns 0 bs) (\<lambda>h. Inr (ns, h)))))
      (\<lambda>(ns, h). add_second ns l1 (l1 + l2) a2 h)"
    by (simp only: add_runes_def str_Some [OF s1(1)] str_Some [OF s2(1)] cbind_Inr Let_def s1(4) minus_minus l sizes)
  moreover have "cpost (add_second a1 l1 (l1 + l2) a2 h) {exHeap} (adds h a1 app (chars o1 @ chars o2))"
    if "app" "l1 + l2 \<le> s_max o1"
  proof -
    have "chars o1 = get_runes (nat l1) (s_data o1)" using s1 by (simp add: chars_def)
    then have res: "adds h a1 app (chars o1 @ chars o2) (Some a1, upd h a1 (o1\<lparr>s_len := - l1 - l2,
        s_data := put_at (l1 * 4) (put_runes (chars o2)) (s_data o1)\<rparr>))"
      using that w s1 l2 len
      by (intro addsI is_updatedI) (auto intro!: runes_extended simp: runes_extended max_block_def)
    have "a1 \<noteq> a2" "(l1 + l2) * 4 \<le> int (length (s_data o1))" using that ne w by simp_all
    from cpost_mono [OF second [OF s1(1) s2(1) this]] res show ?thesis by blast
  qed
  moreover have "cpost (newrunes pa (grown app (l1 + l2)) h) {exHeap} (\<lambda>(ns, h').
        cpost (mem_get h' a1 0 (l1 * 4)) {exHeap} (\<lambda>bs. cpost (mem_put h' ns 0 bs) {exHeap} (\<lambda>h'.
        cpost (add_second ns l1 (l1 + l2) a2 h') {exHeap} (adds h a1 app (chars o1 @ chars o2)))))"
  proof (rule newrunes_post [OF pa], goal_cases)
    case (3 s)
    let ?d = "put_runes (chars o1) @ drop (4 * length (chars o1)) (s_data s)"
    let ?h = "alloc_str h (s\<lparr>s_data := ?d\<rparr>)"
    have r1: "l1 + l2 \<le> s_max s" using 3(3) g(1) by linarith
    then have r: "l1 + l2 \<le> s_max s" "(l1 + l2) * 4 \<le> int (length (s_data s))" "l1 * 4 \<le> int (length (s_data s))" "0 < l1 + l2"
      using 3(5) s1(5) l2(2) by simp_all
    have d: "get_runes (nat l1) ?d = chars o1" "length ?d = length (s_data s)"
      using len s1(5) r get_put_runes [of "chars o1"] by simp_all
    have "cpost (add_second (nxt h) l1 (l1 + l2) a2 ?h) {exHeap} (adds h a1 app (chars o1 @ chars o2))"
    proof (rule cpost_mono [OF second [of ?h "nxt h" "s\<lparr>s_data := ?d\<rparr>"]], goal_cases)
      case (6 x)
      then show ?case using 3 r d len l2 s1
        by (auto intro!: addsI is_freshI runes_extended simp: runes_extended)
    qed (use s2 r d in auto)
    then show ?case using s1 get1 r len by simp
  qed (use g w s1 l2 in simp_all)
  ultimately show ?thesis by (auto simp: case_prod_beta')
qed

lemma add_widen_post:
  assumes pa: "pool_ok pa" and s1: "strs h a1 = Some o1" "wf_string o1" "a1 < nxt h" "0 \<le> s_len o1"
    and s2: "strs h a2 = Some o2" "wf_string o2" "a2 < nxt h" "s_len o2 < 0"
  shows "cpost (add_widen pa a1 a2 app h) {exHeap} (adds h a1 app (chars o1 @ chars o2))"
proof -
  define l1 l2 where "l1 = s_len o1" and "l2 = - s_len o2"
  have l: "s_len o1 = l1" "s_len o2 = - l2" "0 \<le> l1" "0 < l2" using s1 s2 by (simp_all add: l1_def l2_def)
  have g: "l1 + l2 \<le> grown app (l1 + l2)" "4 * grown app (l1 + l2) \<le> 5 * (l1 + l2)"
    using grown_bounds [of "l1 + l2"] l by auto
  have w: "l1 + 8 \<le> int (length (s_data o1))" "l2 * 4 + 8 \<le> int (length (s_data o2))"
    "int (length (s_data o1)) \<le> 0x10000000" "int (length (s_data o2)) \<le> 0x10000000"
    using s1 s2 l by (auto simp: wf_string_def max_block_def)
  have len: "length (chars o1) = nat l1" "length (chars o2) = nat l2"
    using length_chars s1 s2 l by auto
  have "cpost (newrunes pa (grown app (l1 + l2)) h) {exHeap} (\<lambda>(ns, h').
     cpost (set_len h' ns (- (l1 + l2))) {exHeap} (\<lambda>h'.
     cpost (cvtup ns 0 a1 h') {exHeap} (\<lambda>h'.
     cpost (mem_get h' a2 0 (l2 * sizeof_Rune)) {exHeap} (\<lambda>bs.
     cpost (mem_put h' ns (l1 * sizeof_Rune) bs) {exHeap} (\<lambda>h'. adds h a1 app (chars o1 @ chars o2) (Some ns, h'))))))"
  proof (rule newrunes_post [OF pa], goal_cases)
    case (3 s)
    let ?d = "put_runes (chars o1) @ drop (4 * length (chars o1)) (s_data s)"
    have r1: "l1 + l2 \<le> s_max s" using 3(3) g(1) by linarith
    then have r: "l1 + l2 \<le> s_max s" "(l1 + l2) * 4 \<le> int (length (s_data s))" "0 < l1 + l2"
      using 3(5) l by simp_all
    have d: "get_runes (nat l1) ?d = chars o1" "length ?d = length (s_data s)"
      using len l r get_put_runes [of "chars o1"] by simp_all
    have get2: "mem_get h a2 0 (l2 * 4) = Inr (put_runes (chars o2))"
      using get_as_runes [of h a2 o2] s2 l by simp
    have res: "adds h a1 app (chars o1 @ chars o2) (Some (nxt h), alloc_str h (s\<lparr>s_len := - l1 - l2,
        s_data := put_at (l1 * 4) (put_runes (chars o2)) ?d\<rparr>))"
      using 3 r d len l
      by (intro addsI is_freshI) (auto intro!: runes_extended simp: runes_extended)
    show ?case
      using s1 s2 r d len l res get2 cvtup_runes [of "alloc_str h (s\<lparr>s_len := - l1 - l2\<rparr>)" a1 o1 "nxt h" 0]
      by (simp add: sizes)
  qed (use g w l in simp_all)
  then show ?thesis
    by (simp only: add_widen_def str_Some [OF s1(1)] str_Some [OF s2(1)] Let_def l minus_minus
        cbind_Inr cpost_cbind cpost_Inr case_prod_beta')
qed

lemma add_ascii_post:
  assumes pa: "pool_ok pa" and s1: "strs h a1 = Some o1" "wf_string o1" "a1 < nxt h" "0 \<le> s_len o1"
    and s2: "strs h a2 = Some o2" "wf_string o2" "a2 < nxt h" "0 \<le> s_len o2" and ne: "app \<Longrightarrow> a1 \<noteq> a2"
  shows "cpost (add_ascii pa a1 a2 app h) {exHeap} (adds h a1 app (chars o1 @ chars o2))"
proof -
  define l1 l2 where "l1 = s_len o1" and "l2 = s_len o2"
  have l: "s_len o1 = l1" "s_len o2 = l2" "0 \<le> l1" "0 \<le> l2" using s1 s2 by (simp_all add: l1_def l2_def)
  have g: "l1 + l2 \<le> grown app (l1 + l2)" "4 * grown app (l1 + l2) \<le> 5 * (l1 + l2)"
    using grown_bounds [of "l1 + l2"] l by auto
  let ?b1 = "take (nat l1) (s_data o1)" and ?b2 = "take (nat l2) (s_data o2)"
  have w: "l1 + 8 \<le> int (length (s_data o1))" "l2 + 8 \<le> int (length (s_data o2))" "s_max o1 + 8 \<le> int (length (s_data o1))"
    "int (length (s_data o1)) \<le> 0x10000000" "int (length (s_data o2)) \<le> 0x10000000" "1 \<le> s_ref o1"
    "list_all (\<lambda>b. b < 0x80) ?b1" "list_all (\<lambda>b. b < 0x80) ?b2"
    using s1 s2 l by (auto simp: wf_string_def max_block_def)
  have cs: "chars o1 = map ucast ?b1" "chars o2 = map ucast ?b2" using l by (simp_all add: chars_def)
  have get: "mem_get h a1 0 l1 = Inr ?b1" "mem_get h a2 0 l2 = Inr ?b2"
    using s1 s2 l w by (simp_all add: mem_simps rd_def)
  have "cpost (newstring pa (grown app (l1 + l2)) h) {exHeap} (\<lambda>(ns, h').
        cpost (mem_get h' a1 0 l1) {exHeap} (\<lambda>bs. cpost (mem_put h' ns 0 bs) {exHeap} (\<lambda>h'.
        cpost (set_len h' ns (l1 + l2)) {exHeap} (\<lambda>h'. cpost (str h' a2) {exHeap} (\<lambda>o2.
        cpost (mem_get h' a2 0 (s_len o2)) {exHeap} (\<lambda>bs. cpost (mem_put h' ns l1 bs) {exHeap} (\<lambda>h'.
        adds h a1 app (chars o1 @ chars x2) (Some ns, h'))))))))" if "x2 = o2" for x2
  proof (rule newstring_post [OF pa], goal_cases)
    case (3 s)
    let ?d = "?b1 @ drop (nat l1) (s_data s)"
    have r: "l1 + l2 \<le> s_max s" "l1 + l2 \<le> int (length (s_data s))" using 3 g by - linarith+
    have d: "take (nat l1) ?d = ?b1" "length ?d = length (s_data s)" "length ?b1 = nat l1" "length ?b2 = nat l2"
      using w l r by (simp_all add: nat_le_iff)
    have res: "adds h a1 app (chars o1 @ chars o2) (Some (nxt h), alloc_str h (s\<lparr>s_len := l1 + l2,
        s_data := put_at l1 ?b2 ?d\<rparr>))"
      using 3 r d w l ascii_extended [of s l1 l2 ?d ?b2]
      by (intro addsI is_freshI) (simp_all add: cs)
    have "l1 \<le> int (length (s_data s))" "l2 \<le> int (length (s_data o2))" using r l w by - linarith+
    then show ?case
      using s1 s2 r d l res get that by (simp add: mem_simps nat_le_iff)
  qed (use g w l in simp_all)
  moreover have "cpost (set_len h a1 (l1 + l2)) {exHeap} (\<lambda>h'. cpost (str h' a2) {exHeap} (\<lambda>o2.
        cpost (mem_get h' a2 0 (s_len o2)) {exHeap} (\<lambda>bs. cpost (mem_put h' a1 l1 bs) {exHeap} (\<lambda>h'.
        adds h a1 app (chars o1 @ chars x2) (Some a1, h')))))" if "app" "l1 + l2 \<le> s_max o1" "x2 = o2" for x2
  proof -
    have "adds h a1 app (chars o1 @ chars o2) (Some a1, upd h a1 (o1\<lparr>s_len := l1 + l2, s_data := put_at l1 ?b2 (s_data o1)\<rparr>))"
      using that w s1 l ascii_extended [of o1 l1 l2 "s_data o1" ?b2]
      by (intro addsI is_updatedI) (simp_all add: cs max_block_def)
    then show ?thesis
      using that ne s1 s2 l w by (simp add: mem_simps)
  qed
  ultimately show ?thesis
    by (auto simp: add_ascii_def s1(1) s2(1) Let_def l case_prod_beta')
qed

section \<open>The store\<close>

text \<open>
  Every object is well-formed, its reference count is at least the number of slots that hold
  it (other objects may hold it too), and slots hold only live objects.
\<close>

definition holders :: "store \<Rightarrow> nat \<Rightarrow> nat set" where
  "holders h a = {r. slot h r = Some a}"

definition wf_store :: "store \<Rightarrow> bool" where
  "wf_store h \<longleftrightarrow> (\<forall>a s. strs h a = Some s \<longrightarrow>
       a < nxt h \<and> wf_string s \<and> finite (holders h a) \<and> card (holders h a) \<le> unat (s_ref s))
     \<and> (\<forall>r a. slot h r = Some a \<longrightarrow> strs h a \<noteq> None)"

definition value_of :: "store \<Rightarrow> ptr \<Rightarrow> u32 list" where
  "value_of h p = (case p of None \<Rightarrow> [] | Some a \<Rightarrow> (case strs h a of None \<Rightarrow> [] | Some s \<Rightarrow> chars s))"

abbreviation text_at :: "store \<Rightarrow> nat \<Rightarrow> u32 list" where
  "text_at h r \<equiv> value_of h (slot h r)"

text \<open>Assignment of \<open>cs\<close> to slot \<open>d\<close>: the other slots keep their values.\<close>

definition assigned :: "store \<Rightarrow> nat \<Rightarrow> u32 list \<Rightarrow> store \<Rightarrow> bool" where
  "assigned h d cs h' \<longleftrightarrow> wf_store h' \<and> text_at h' d = cs \<and> (\<forall>r. r \<noteq> d \<longrightarrow> text_at h' r = text_at h r)"

lemma wf_storeD:
  "wf_store h \<Longrightarrow> strs h a = Some s \<Longrightarrow> a < nxt h \<and> wf_string s \<and> finite (holders h a) \<and> card (holders h a) \<le> unat (s_ref s)"
  "wf_store h \<Longrightarrow> slot h r = Some a \<Longrightarrow> \<exists>s. strs h a = Some s"
  by (auto simp: wf_store_def)

lemma sole_holder:
  assumes "wf_store h" "slot h d = Some a" "strs h a = Some s" "\<not> s_ref s > 1"
  shows "holders h a = {d}" "s_ref s = 1"
proof -
  have "finite (holders h a)" "card (holders h a) \<le> unat (s_ref s)" "1 \<le> s_ref s"
    using wf_storeD(1) [OF assms(1,3)] by (auto simp: wf_string_def)
  moreover have r: "s_ref s = 1" using assms(4) calculation(3) by simp
  moreover have "d \<in> holders h a" using assms(2) by (simp add: holders_def)
  ultimately show "holders h a = {d}" "s_ref s = 1" by (auto simp: card_le_Suc0_iff_eq)
qed

text \<open>Update in place through the only holder.\<close>

lemma assigned_updated:
  assumes h: "wf_store h" "slot h d = Some a" "strs h a = Some s" "\<not> s_ref s > 1" and u: "is_updated h a cs h'"
  shows "assigned h d cs h'"
proof -
  from u h(3) obtain s' where s': "h' = upd h a s'" "wf_string s'" "s_ref s' = s_ref s" "chars s' = cs"
    by (auto simp: is_updated_def)
  have "holders h' b = holders h b" for b by (simp add: s' holders_def)
  then have "wf_store h'" using h s' by (auto simp: wf_store_def)
  moreover have "slot h r \<noteq> Some a" if "r \<noteq> d" for r
    using sole_holder(1) [OF h] that by (auto simp: holders_def)
  ultimately show ?thesis using h s' by (auto simp: assigned_def value_of_def split: option.splits)
qed

text \<open>A new object, or nil, stored in a slot whose former object is released.\<close>

lemma holders_simps [simp]:
  "holders (set_slot h d n) b = (if n = Some b then insert d (holders h b) else holders h b - {d})"
  "holders (alloc_str h s) b = holders h b" "holders (upd h a s) b = holders h b"
  "holders (h\<lparr>strs := m\<rparr>) b = holders h b"
  by (auto simp: holders_def)

text \<open>The counts after slot \<open>d\<close> has given up its object.\<close>

lemma destroy_slot:
  assumes h: "wf_store h" and old: "\<And>b. b \<noteq> nxt h \<Longrightarrow> strs h' b = strs h b" "slot h' = slot h"
  shows "cpost (destroy h' (slot h d)) {} (\<lambda>h''. slot h'' = slot h \<and> nxt h'' = nxt h' \<and> strs h'' (nxt h) = strs h' (nxt h)
    \<and> (\<forall>b. b \<noteq> nxt h \<longrightarrow> Some b \<noteq> slot h d \<longrightarrow> strs h'' b = strs h b)
    \<and> (\<forall>a s. slot h d = Some a \<longrightarrow> strs h a = Some s \<longrightarrow>
         strs h'' a = (if s_ref s = 1 then None else Some (s\<lparr>s_ref := s_ref s - 1\<rparr>))))"
proof (cases "slot h d")
  case None
  with old show ?thesis by (simp add: destroy_def)
next
  case (Some a)
  then obtain s where s: "strs h a = Some s" using wf_storeD(2) [OF h] by blast
  with wf_storeD(1) [OF h s] have "a < nxt h" "1 \<le> s_ref s" by (auto simp: wf_string_def)
  then have "s_ref s - 1 > 0 \<longleftrightarrow> s_ref s \<noteq> 1" by (auto simp: word_gt_0)
  with Some s old \<open>a < nxt h\<close> show ?thesis by (auto simp: destroy_def upd_def str_def)
qed

lemma release_post:
  assumes h: "wf_store h" and n: "n = None \<and> h' = h \<and> cs = [] \<or> (\<exists>m. n = Some m \<and> is_fresh h cs m h')"
  shows "cpost (destroy h' (slot h' d)) {} (\<lambda>h''. assigned h d cs (set_slot h'' d n))"
proof -
  have sl: "slot h' = slot h" and nn: "n = None \<and> nxt h' = nxt h \<or> n = Some (nxt h) \<and> nxt h' = nxt h + 1"
    using n by (auto simp: is_fresh_def)
  have st: "b \<noteq> nxt h \<Longrightarrow> strs h' b = strs h b" for b
    using n by (auto simp: is_fresh_def)
  have live: "slot h r \<noteq> Some (nxt h)" for r
    using wf_storeD [OF h] by (metis less_irrefl)
  have unused: "strs h (nxt h) = None"
    using wf_storeD(1) [OF h] by (metis less_irrefl not_None_eq)
  have new: "strs h' (nxt h) = Some s \<Longrightarrow> n = Some (nxt h) \<and> wf_string s \<and> s_ref s = 1 \<and> chars s = cs" for s
    using n unused by (auto simp: is_fresh_def)
  have new2: "n = Some (nxt h) \<Longrightarrow> \<exists>s. strs h' (nxt h) = Some s"
    using n by (auto simp: is_fresh_def)
  have "assigned h d cs (set_slot h'' d n)"
    if p: "slot h'' = slot h" "nxt h'' = nxt h'" "strs h'' (nxt h) = strs h' (nxt h)"
      "\<forall>b. b \<noteq> nxt h \<longrightarrow> Some b \<noteq> slot h d \<longrightarrow> strs h'' b = strs h b"
      "\<forall>a s. slot h d = Some a \<longrightarrow> strs h a = Some s \<longrightarrow>
         strs h'' a = (if s_ref s = 1 then None else Some (s\<lparr>s_ref := s_ref s - 1\<rparr>))" for h''
  proof -
    let ?h = "set_slot h'' d n"
    have hold: "holders h'' b = holders h b" for b using p(1) by (simp add: holders_def)
    have old: "s_ref s \<noteq> 1" if "r \<noteq> d" "slot h r = Some a" "slot h d = Some a" "strs h a = Some s" for r a s
      using sole_holder(1) [OF h that(3,4)] that by (auto simp: holders_def)
    have obj: "a < nxt ?h \<and> wf_string s \<and> finite (holders ?h a) \<and> card (holders ?h a) \<le> unat (s_ref s)"
      if s: "strs ?h a = Some s" for a s
    proof -
      consider "a = nxt h" | "a \<noteq> nxt h" "slot h d = Some a" | "a \<noteq> nxt h" "slot h d \<noteq> Some a" by blast
      then show ?thesis
      proof cases
        case 1
        have "holders h (nxt h) = {}" using live by (auto simp: holders_def)
        with 1 s new [of s] p nn hold show ?thesis by auto
      next
        case 2
        then obtain s0 where s0: "strs h a = Some s0" using wf_storeD(2) [OF h] by blast
        have "s_ref s0 \<noteq> 1" "s = s0\<lparr>s_ref := s_ref s0 - 1\<rparr>" using p(5) 2 s s0 by (auto split: if_splits)
        moreover have w: "a < nxt h" "wf_string s0" "finite (holders h a)" "card (holders h a) \<le> unat (s_ref s0)"
          using wf_storeD(1) [OF h s0] by auto
        moreover have "d \<in> holders h a" using 2 by (simp add: holders_def)
        moreover have "1 \<le> s_ref s0" using w(2) by (simp add: wf_string_def)
        moreover from this have u: "unat (s_ref s0 - 1) = unat (s_ref s0) - 1" by (simp add: unat_sub)
        moreover have "1 \<le> s_ref s0 - 1"
          using u \<open>1 \<le> s_ref s0\<close> \<open>s_ref s0 \<noteq> 1\<close> by (auto simp: word_le_nat_alt word_unat_eq_iff)
        ultimately show ?thesis using 2 nn p hold by (auto simp: wf_string_def)
      next
        case 3
        then have "strs h a = Some s" using p(4) s by auto
        with wf_storeD(1) [OF h this] 3 nn p hold show ?thesis
          by (auto simp: le_trans [OF card_Diff1_le])
      qed
    qed
    have "strs ?h a \<noteq> None" if "slot ?h r = Some a" for r a
    proof (cases "r = d")
      case True
      with that nn new2 p(3) show ?thesis by auto
    next
      case False
      with that p(1) have r: "slot h r = Some a" by simp
      then obtain s where s: "strs h a = Some s" using wf_storeD(2) [OF h] by blast
      have "a \<noteq> nxt h" using live r by auto
      with p(4,5) s old [OF False r _ s] show ?thesis by (cases "slot h d = Some a") auto
    qed
    with obj have "wf_store ?h" by (auto simp: wf_store_def)
    moreover have "text_at ?h d = cs"
      using n nn new new2 p(3) by (auto simp: value_of_def split: option.splits)
    moreover have "text_at ?h r = text_at h r" if "r \<noteq> d" for r
    proof (cases "slot h r")
      case None
      with that p(1) show ?thesis by (simp add: value_of_def)
    next
      case (Some a)
      then obtain s where s: "strs h a = Some s" using wf_storeD(2) [OF h] by blast
      have "a \<noteq> nxt h" using live Some by auto
      with Some that p s old [OF that Some _ s] show ?thesis
        by (cases "slot h d = Some a") (auto simp: value_of_def chars_def)
    qed
    ultimately show ?thesis by (simp add: assigned_def)
  qed
  then show ?thesis
    unfolding sl by (intro cpost_mono [OF destroy_slot [OF h st sl, of d]]) auto
qed

lemma release_fresh:
  "wf_store h \<Longrightarrow> is_fresh h cs m h' \<Longrightarrow>
   cpost (destroy h' (slot h' d)) E (\<lambda>h''. assigned h d cs (set_slot h'' d (Some m)))"
  using release_post [of h "Some m" h' cs d] by (auto elim: cpost_mono)

lemma release_nil:
  "wf_store h \<Longrightarrow> cpost (destroy h (slot h d)) E (\<lambda>h''. assigned h d [] (set_slot h'' d None))"
  using release_post [of h None h "[]" d] by (auto elim: cpost_mono)

lemma value_of_Some: "strs h a = Some s \<Longrightarrow> value_of h (Some a) = chars s"
  by (simp add: value_of_def)

lemma addstring_post:
  assumes pa: "pool_ok pa" and h: "wf_store h" "slot h rm = s1" "slot h rs = s2"
    and ne: "rm = d \<Longrightarrow> rs \<noteq> d"
  shows "cpost (addstring pa s1 s2 (rm = d) h) {exHeap} (\<lambda>(p, h').
     p = None \<and> h' = h \<and> value_of h s1 @ value_of h s2 = []
     \<or> (\<exists>n. p = Some n \<and> is_fresh h (value_of h s1 @ value_of h s2) n h')
     \<or> (\<exists>a s. p = Some a \<and> slot h d = Some a \<and> strs h a = Some s \<and> \<not> s_ref s > 1
          \<and> is_updated h a (value_of h s1 @ value_of h s2) h'))"
    (is "cpost _ _ ?Q")
proof (cases s1)
  case None
  show ?thesis
  proof (cases s2)
    case None
    with \<open>s1 = None\<close> show ?thesis by (simp add: addstring_def value_of_def)
  next
    case (Some a)
    then obtain s where s: "strs h a = Some s" using wf_storeD(2) [OF h(1)] h(3) by blast
    with \<open>s1 = None\<close> Some wf_storeD(1) [OF h(1) s] show ?thesis
      by (auto simp: addstring_def value_of_def intro!: cpost_mono [OF stringdup_post [OF pa s]])
  qed
next
  case (Some a1)
  then obtain o1 where o1: "strs h a1 = Some o1" using wf_storeD(2) [OF h(1)] h(2) by blast
  then have w1: "wf_string o1" "a1 < nxt h" using wf_storeD(1) [OF h(1)] by auto
  define app where "app = (if s_ref o1 > 1 then False else rm = d)"
  have app: "app \<Longrightarrow> rm = d \<and> \<not> s_ref o1 > 1" by (simp add: app_def split: if_splits)
  show ?thesis
  proof (cases s2)
    case None
    have "is_updated h a1 (chars o1) h"
      using o1 w1 is_updatedI [OF o1 w1(1)] by (simp add: upd_def fun_upd_idem)
    with \<open>s1 = _\<close> None o1 w1 h app show ?thesis
      by (auto simp: addstring_def value_of_def app_def [symmetric] Let_def
          intro!: cpost_mono [OF stringdup_post [OF pa o1]])
  next
    case s2: (Some a2)
    then obtain o2 where o2: "strs h a2 = Some o2" using wf_storeD(2) [OF h(1)] h(3) by blast
    then have w2: "wf_string o2" "a2 < nxt h" using wf_storeD(1) [OF h(1)] by auto
    have ne': "app \<Longrightarrow> a1 \<noteq> a2"
      using sole_holder(1) [OF h(1) _ o1, of rm] ne app Some s2 h(2,3) by (auto simp: holders_def)
    have Q: "?Q r" if "adds h a1 app (chars o1 @ chars o2) r" for r
      using that app Some s2 o1 o2 h(2) by (auto simp: adds_def value_of_def)
    consider "s_len o1 < 0" | "0 \<le> s_len o1" "s_len o2 < 0" | "0 \<le> s_len o1" "0 \<le> s_len o2" by linarith
    then show ?thesis
    proof cases
      case 1
      then have "cpost (add_runes pa a1 a2 app h) {exHeap} (adds h a1 app (chars o1 @ chars o2))"
        using add_runes_post [OF pa o1 w1 _ _ o2 w2 ne', of "- s_len o1"] by simp
      with 1 Some s2 o1 o2 Q show ?thesis by (auto simp: addstring_def Let_def app_def [symmetric] elim!: cpost_mono)
    next
      case 2
      then show ?thesis
        using Some s2 o1 o2 cpost_mono [OF add_widen_post [OF pa o1 w1 _ o2 w2, of app] order_refl Q]
        by (simp add: addstring_def Let_def app_def [symmetric])
    next
      case 3
      then show ?thesis
        using Some s2 o1 o2 cpost_mono [OF add_ascii_post [OF pa o1 w1 _ o2 w2 _ ne'] order_refl Q]
        by (simp add: addstring_def Let_def app_def [symmetric])
    qed
  qed
qed

text \<open>Filling a new object.\<close>

lemma fresh_runes:
  assumes "s_ref f = 1" "s_len f = - n" "n \<le> s_max f" "4 * s_max f + 8 \<le> int (length (s_data f))"
    "int (length (s_data f)) \<le> max_block" "0 < n" "length cs = nat n"
  shows "is_fresh h cs (nxt h) (alloc_str h (f\<lparr>s_data := put_runes cs @ drop (4 * nat n) (s_data f)\<rparr>))"
  using assms get_put_prefix [of cs n] by (intro is_freshI) (simp_all add: wf_string_def chars_def)

lemma fresh_ascii:
  assumes "s_ref f = 1" "s_len f = n" "n \<le> s_max f" "s_max f + 8 \<le> int (length (s_data f))"
    "int (length (s_data f)) \<le> max_block" "0 \<le> n" "length bs = nat n" "list_all (\<lambda>b. b < 0x80) bs"
  shows "is_fresh h (map ucast bs) (nxt h) (alloc_str h (f\<lparr>s_data := bs @ drop (nat n) (s_data f)\<rparr>))"
  using assms by (intro is_freshI) (simp_all add: wf_string_def chars_def)

text \<open>A part of a string.\<close>

lemma slice_runes:
  assumes "wf_string s" "s_len s < 0" "0 \<le> i" "i \<le> j" "j \<le> - s_len s"
  shows "take (nat ((j - i) * 4)) (drop (nat (i * 4)) (s_data s)) = put_runes (take (nat (j - i)) (drop (nat i) (chars s)))"
proof -
  obtain m n k where mn: "i = int m" "j = int (m + n)" "s_len s = - int (m + n + k)"
  proof -
    have "i = int (nat i)" "j = int (nat i + nat (j - i))" "s_len s = - int (nat i + nat (j - i) + nat (- s_len s - j))"
      using assms by simp_all
    with that show ?thesis by blast
  qed
  let ?d = "drop (4 * m) (s_data s)"
  have room: "4 * (m + n + k) \<le> length (s_data s)" using assms mn by (auto simp: wf_string_def)
  have "chars s = get_runes m (s_data s) @ get_runes n ?d @ get_runes k (drop (4 * n) ?d)"
  proof -
    have "nat (- s_len s) = m + (n + k)" using mn by simp
    then show ?thesis using assms(2) by (simp add: chars_def get_runes_add)
  qed
  then have "take n (drop m (chars s)) = get_runes n ?d" by simp
  then have "put_runes (take n (drop m (chars s))) = take (4 * n) ?d"
    using room by (simp add: put_get_runes)
  moreover have "nat (int m * 4) = 4 * m" "nat (int n * 4) = 4 * n" by simp_all
  ultimately show ?thesis using mn by simp
qed

lemma slicer_post:
  assumes pa: "pool_ok pa" and h: "wf_store h" "slot h d = p"
    and r: "0 \<le> i" "i \<le> j" "j \<le> int (length (value_of h p))"
  shows "cpost (slicer pa i j p h) {exHeap} (\<lambda>(q, h').
     q = None \<and> h' = h \<and> i = j \<or> (\<exists>n. q = Some n \<and> is_fresh h (take (nat (j - i)) (drop (nat i) (value_of h p))) n h'))"
proof (cases p)
  case None
  with r show ?thesis by (simp add: slicer_def value_of_def)
next
  case (Some a)
  then obtain s where s: "strs h a = Some s" using wf_storeD(2) [OF h(1)] h(2) by blast
  then have w: "wf_string s" "a < nxt h" using wf_storeD(1) [OF h(1)] by auto
  have j: "j \<le> \<bar>s_len s\<bar>" using r(3) s w Some length_chars by (simp add: value_of_def)
  have b: "\<bar>s_len s\<bar> \<le> int (length (s_data s))" "int (length (s_data s)) \<le> 0x10000000"
    using w by (auto simp: wf_string_def max_block_def split: if_splits)
  have u: "c_u32 i = i" "c_u32 j = j" "c_u32 (j - i) = j - i" using r j b by simp_all
  have val: "value_of h p = chars s" using Some s by (simp add: value_of_def)
  show ?thesis
  proof (cases "i = j")
    case True
    with Some s u j show ?thesis by (auto simp: slicer_def Let_def abs_if split: if_splits)
  next
    case False
    define n where "n = j - i"
    have n: "0 < n" "n < 0x1C000000" "i + n \<le> \<bar>s_len s\<bar>" "j - i = n" using False r j b by (simp_all add: n_def)
    show ?thesis
    proof (cases "s_len s < 0")
      case True
      let ?cs = "take (nat n) (drop (nat i) (chars s))"
      have mv: "take (nat (n * 4)) (drop (nat (i * 4)) (s_data s)) = put_runes ?cs"
        using slice_runes [OF w(1) True r(1,2)] j True n by simp
      have len: "length ?cs = nat n"
        using n w True length_chars [OF w(1)] r by (simp add: min_def) linarith
      have room: "(i + n) * 4 \<le> int (length (s_data s))" using w True n by (auto simp: wf_string_def)
      have "cpost (newrunes pa n h) {exHeap} (\<lambda>(ns, h').
           cpost (mem_get h' a (i * 4) (n * 4)) {exHeap} (\<lambda>bs. cpost (mem_put h' ns 0 bs) {exHeap} (\<lambda>h'.
           is_fresh h ?cs ns h')))"
      proof (rule newrunes_post [OF pa n(1,2)], goal_cases)
        case (1 f)
        then have "is_fresh h ?cs (nxt h) (alloc_str h (f\<lparr>s_data := put_runes ?cs @ drop (4 * nat n) (s_data f)\<rparr>))"
          using n(1) len by (intro fresh_runes)
        with 1 s w n r room mv len show ?case by (simp add: mem_simps)
      qed
      with False True Some s u n j r show ?thesis
        by (auto simp: slicer_def Let_def sizes value_of_Some [OF s] case_prod_beta' elim!: cpost_mono)
    next
      case asc: False
      let ?bs = "take (nat n) (drop (nat i) (s_data s))"
      have room: "i + n \<le> int (length (s_data s))" using n b by simp
      have cs: "take (nat n) (drop (nat i) (chars s)) = map ucast ?bs"
        using asc n r by (simp add: chars_def drop_map take_map drop_take min_def)
      have "set ?bs \<subseteq> set (take (nat (s_len s)) (s_data s))"
      proof -
        have "nat n + nat i \<le> nat (s_len s)" using asc n r by simp
        then have "?bs = take (nat n) (drop (nat i) (take (nat (s_len s)) (s_data s)))" by (simp add: drop_take)
        then show ?thesis by (metis set_take_subset set_drop_subset subset_trans)
      qed
      then have ok: "list_all (\<lambda>b. b < 0x80) ?bs" using w asc by (auto simp: wf_string_def list_all_iff)
      have len: "length ?bs = nat n" using room r n by simp
      have "cpost (newstring pa n h) {exHeap} (\<lambda>(ns, h').
           cpost (mem_get h' a i n) {exHeap} (\<lambda>bs. cpost (mem_put h' ns 0 bs) {exHeap} (\<lambda>h'.
           is_fresh h (map ucast ?bs) ns h')))"
      proof (rule newstring_post [OF pa], goal_cases)
        case (3 f)
        then have "is_fresh h (map ucast ?bs) (nxt h) (alloc_str h (f\<lparr>s_data := ?bs @ drop (nat n) (s_data f)\<rparr>))"
          using n(1) len ok by (intro fresh_ascii) simp_all
        with 3 s w n r room len show ?case by (simp add: mem_simps)
      qed (use n in simp_all)
      with False asc Some s u n j r cs show ?thesis
        by (auto simp: slicer_def Let_def value_of_Some [OF s] case_prod_beta' elim!: cpost_mono)
    qed
  qed
qed

section \<open>Character assignment\<close>

definition put_char :: "u32 list \<Rightarrow> int \<Rightarrow> u32 \<Rightarrow> u32 list" where
  "put_char cs v c = (if v < int (length cs) then cs[nat v := c] else cs @ [c])"

definition inserted :: "store \<Rightarrow> nat \<Rightarrow> u32 list \<Rightarrow> nat \<times> store \<Rightarrow> bool" where
  "inserted h ss cs = (\<lambda>(n, h'). n = ss \<and> is_updated h ss cs h' \<or> n = nxt h \<and> is_fresh h cs n h')"

lemma insc_rune_post:
  assumes pa: "pool_ok pa" and s: "strs h ss = Some s" "ss < nxt h" "s_len s = - l" "0 \<le> l" "1 \<le> s_ref s"
    and room: "l \<le> s_max s" "4 * s_max s + 8 \<le> int (length (s_data s))" "int (length (s_data s)) \<le> 0x10000000"
    and v: "0 \<le> v" "v \<le> l"
  shows "cpost (insc_rune pa r v ss l h) {exHeap} (inserted h ss (put_char (chars s) v (word_of_int r)))"
proof -
  let ?c = "word_of_int r :: u32"
  have cs: "chars s = get_runes (nat l) (s_data s)" using s by (cases "l = 0") (simp_all add: chars_def)
  have len: "length (chars s) = nat l" by (simp add: cs)
  consider "v < l" | "v = l" "v < s_max s" | "v = l" "\<not> v < s_max s" using v by linarith
  then show ?thesis
  proof cases
    case 1
    let ?s = "s\<lparr>s_data := put_at (v * 4) (enc_le 4 ?c) (s_data s)\<rparr>"
    have "l * 4 \<le> int (length (s_data s))" using room by simp
    then have "chars ?s = (chars s)[nat v := ?c]"
      using get_runes_update [of v l "s_data s" ?c] 1 v s by (simp add: chars_def)
    moreover have "wf_string ?s" using 1 v s room by (simp add: wf_string_def max_block_def)
    ultimately have "is_updated h ss (put_char (chars s) v ?c) (upd h ss ?s)"
      using 1 s v len by (intro is_updatedI [OF s(1)]) (simp_all add: put_char_def)
    with 1 v s room show ?thesis by (simp add: insc_rune_def sizes mem_simps inserted_def)
  next
    case 2
    let ?s = "s\<lparr>s_len := - l - 1, s_data := put_at (l * 4) (put_runes [?c]) (s_data s)\<rparr>"
    have "is_updated h ss (put_char (chars s) v ?c) (upd h ss ?s)"
      using 2 s v len room runes_extended [of s l 1 "s_data s" "[?c]"]
      by (intro is_updatedI [OF s(1)]) (simp_all add: put_char_def cs max_block_def)
    with 2 v s room show ?thesis by (simp add: insc_rune_def sizes mem_simps inserted_def)
  next
    case 3
    then have l: "s_max s = l" using room by simp
    define k where "k = l + 1 + l div 4"
    have k: "l + 1 \<le> k" "4 * k \<le> 5 * l + 4" "0 \<le> l div 4" using s(4) by (auto simp: k_def)
    have lb: "4 * l + 8 \<le> 0x10000000" using room l by simp
    have u: "c_u32 k = k" using k lb by simp
    have get: "mem_get h ss 0 (l * 4) = Inr (put_runes (chars s))"
      using s room l by (simp add: mem_simps rd_def cs put_get_runes nat_mult_distrib mult.commute)
    have "cpost (newstring pa (k * 4) h) {exHeap} (\<lambda>(ns, h').
       cpost (mem_get h' ss 0 (l * 4)) {exHeap} (\<lambda>bs.
       cpost (mem_put h' ns 0 bs) {exHeap} (\<lambda>h'.
       cpost (mem_put h' ns (l * 4) (enc_le 4 ?c)) {exHeap} (\<lambda>h'.
       cpost (set_len h' ns (- l - 1)) {exHeap} (\<lambda>h'.
       cpost (str h' ns) {exHeap} (\<lambda>n.
       cpost (set_max h' ns (s_max n div 4)) {exHeap} (\<lambda>h'.
       inserted h ss (put_char (chars s) l ?c) (ns, h'))))))))"
    proof (rule newstring_post [OF pa], goal_cases)
      case (3 f)
      let ?d = "put_runes (chars s) @ drop (4 * nat l) (s_data f)"
      have r: "l + 1 \<le> s_max f div 4" "4 * (s_max f div 4) + 8 \<le> int (length (s_data f))"
        "(l + 1) * 4 \<le> int (length (s_data f))"
        using 3(3,5) k by auto
      have d: "length ?d = length (s_data f)" "get_runes (nat l) ?d = chars s"
        using len r s(4) get_put_runes [of "chars s"] by simp_all
      have "is_fresh h (chars s @ [?c]) (nxt h) (alloc_str h (f\<lparr>s_max := s_max f div 4, s_len := - l - 1,
           s_data := put_at (l * 4) (put_runes [?c]) ?d\<rparr>))"
        using 3 r d s runes_extended [of "f\<lparr>s_max := s_max f div 4\<rparr>" l 1 ?d "[?c]"]
        by (intro is_freshI) simp_all
      moreover have eq: "f\<lparr>s_data := x, s_len := y, s_max := z\<rparr> = f\<lparr>s_max := z, s_len := y, s_data := x\<rparr>" for x y z
        by simp
      ultimately show ?case using 3 s r d len get by (simp add: inserted_def put_char_def eq)
    qed (use k lb s in simp_all)
    with 3 u s show ?thesis
      by (simp add: insc_rune_def sizes k_def [symmetric] add.commute [of 1] case_prod_beta')
  qed
qed

lemma insc_ascii_post:
  assumes pa: "pool_ok pa" and s: "strs h ss = Some s" "ss < nxt h" "wf_string s" "s_len s = l" "0 \<le> l"
    and r: "0 \<le> r" "r < 0x80" and v: "0 \<le> v" "v \<le> l"
  shows "cpost (insc_ascii pa r v ss l h) {exHeap} (inserted h ss (put_char (chars s) v (word_of_int r)))"
proof -
  let ?b = "word_of_int r :: byte"
  have room: "l \<le> s_max s" "s_max s + 8 \<le> int (length (s_data s))" "int (length (s_data s)) \<le> 0x10000000"
    "1 \<le> s_ref s" "list_all (\<lambda>b. b < 0x80) (take (nat l) (s_data s))"
    using s by (auto simp: wf_string_def max_block_def)
  have bb: "?b < 0x80" "ucast ?b = (word_of_int r :: u32)"
    using r by (simp_all add: word_less_def uint_word_of_int word_uint_eq_iff unsigned_ucast_eq take_bit_int_eq_self)
  have len: "length (chars s) = nat l" "chars s = map ucast (take (nat l) (s_data s))"
    using length_chars [OF s(3)] s by (simp_all add: chars_def)
  consider "v < l" | "v = l" "v < s_max s" | "v = l" "\<not> v < s_max s" using v by linarith
  then show ?thesis
  proof cases
    case 1
    let ?s = "s\<lparr>s_data := (s_data s)[nat v := ?b]\<rparr>"
    have t: "take (nat l) (s_data ?s) = (take (nat l) (s_data s))[nat v := ?b]" by (simp add: take_update_swap)
    then have "chars ?s = (chars s)[nat v := word_of_int r]" using s len bb by (simp add: chars_def map_update)
    moreover have "wf_string ?s"
      using s room t bb set_update_subset_insert [of "take (nat l) (s_data s)" "nat v" ?b]
      by (auto simp: wf_string_def max_block_def list_all_iff)
    ultimately have "is_updated h ss (put_char (chars s) v (word_of_int r)) (upd h ss ?s)"
      using 1 s v len by (intro is_updatedI [OF s(1)]) (simp_all add: put_char_def)
    with 1 v s room show ?thesis by (simp add: insc_ascii_def mem_simps inserted_def put_at_byte)
  next
    case 2
    let ?s = "s\<lparr>s_len := l + 1, s_data := put_at l [?b] (s_data s)\<rparr>"
    have "is_updated h ss (put_char (chars s) v (word_of_int r)) (upd h ss ?s)"
      using 2 s v len room bb ascii_extended [of s l 1 "s_data s" "[?b]"]
      by (intro is_updatedI [OF s(1)]) (simp_all add: put_char_def max_block_def)
    with 2 v s room show ?thesis by (simp add: insc_ascii_def mem_simps inserted_def)
  next
    case 3
    then have l: "s_max s = l" using room by simp
    define k where "k = l + 1 + l div 4"
    have k: "l + 1 \<le> k" "4 * k \<le> 5 * l + 4" "0 \<le> l div 4" using s(5) by (auto simp: k_def)
    have lb: "l + 8 \<le> 0x10000000" using room l by simp
    have u: "c_u32 k = k" "c_u32 (l + 1) = l + 1" using k lb s by simp_all
    let ?bs = "take (nat l) (s_data s)"
    have get: "mem_get h ss 0 l = Inr ?bs" using s room l by (simp add: mem_simps rd_def)
    have "cpost (newstring pa k h) {exHeap} (\<lambda>(ns, h').
       cpost (mem_get h' ss 0 l) {exHeap} (\<lambda>bs.
       cpost (mem_put h' ns 0 bs) {exHeap} (\<lambda>h'.
       cpost (mem_put h' ns l [?b]) {exHeap} (\<lambda>h'.
       cpost (set_len h' ns (l + 1)) {exHeap} (\<lambda>h'.
       inserted h ss (put_char (chars s) l (word_of_int r)) (ns, h'))))))"
    proof (rule newstring_post [OF pa], goal_cases)
      case (3 f)
      let ?d = "?bs @ drop (nat l) (s_data f)"
      have rm: "l + 1 \<le> s_max f" "l + 1 \<le> int (length (s_data f))" "length ?bs = nat l"
        using 3(3,5) k room l by auto
      have d: "length ?d = length (s_data f)" "take (nat l) ?d = ?bs" using rm s(5) by simp_all
      have "is_fresh h (chars s @ [word_of_int r]) (nxt h) (alloc_str h (f\<lparr>s_len := l + 1, s_data := put_at l [?b] ?d\<rparr>))"
        using 3 rm d s bb room len ascii_extended [of f l 1 ?d "[?b]"]
        by (intro is_freshI) simp_all
      moreover have eq: "f\<lparr>s_data := x, s_len := y\<rparr> = f\<lparr>s_len := y, s_data := x\<rparr>" for x y
        by simp
      ultimately show ?case using 3 s rm d len get by (simp add: inserted_def put_char_def eq)
    qed (use k lb s in simp_all)
    with 3 u s show ?thesis
      by (simp add: insc_ascii_def k_def [symmetric] case_prod_beta')
  qed
qed

text \<open>The private copy that is made before a shared string is changed, and the widening.\<close>

lemma assigned_trans: "assigned h d cs h1 \<Longrightarrow> assigned h1 d cs' h2 \<Longrightarrow> assigned h d cs' h2"
  by (simp add: assigned_def)

lemma stringdup_len:
  assumes pa: "pool_ok pa" and s: "strs h a = Some s" "wf_string s" "a < nxt h"
  shows "cpost (stringdup pa (Some a) h) {exHeap} (\<lambda>(p, h'). \<exists>f. strs h' (nxt h) = Some f \<and> s_len f = s_len s)"
  using assms
  by (cases "s_len s < 0") (auto simp: stringdup_def wf_string_def max_block_def mem_simps [where s = s] sizes
      intro!: newstring_post newrunes_post)

lemma split_copy:
  assumes pa: "pool_ok pa" and s: "strs h a = Some s" "wf_string s" "a < nxt h"
  shows "cpost (if expand \<and> s_len s > 0 then
       cbind (newrunes pa (s_len s) h) (\<lambda>(n, h). cbind (cvtup n 0 a h) (\<lambda>h. Inr (Some n, h)))
     else stringdup pa (Some a) h) {exHeap}
     (\<lambda>(p, h'). p = Some (nxt h) \<and> is_fresh h (chars s) (nxt h) h'
       \<and> (\<forall>f. strs h' (nxt h) = Some f \<longrightarrow> expand \<longrightarrow> chars s \<noteq> [] \<longrightarrow> s_len f < 0))"
    (is "cpost _ _ ?Q")
proof (cases "expand \<and> s_len s > 0")
  case True
  define l where "l = s_len s"
  have l: "0 < l" "l < 0x1C000000" "length (chars s) = nat l"
    using True s length_chars [OF s(2)] by (auto simp: l_def wf_string_def max_block_def)
  have "cpost (newrunes pa l h) {exHeap} (\<lambda>(n, h). cpost (cvtup n 0 a h) {exHeap} (\<lambda>h. ?Q (Some n, h)))"
  proof (rule newrunes_post [OF pa l(1,2)], goal_cases)
    case (1 f)
    let ?f = "f\<lparr>s_data := put_runes (chars s) @ drop (4 * nat l) (s_data f)\<rparr>"
    have "is_fresh h (chars s) (nxt h) (alloc_str h ?f)"
      using 1 l by (intro fresh_runes) simp_all
    with 1 s l True show ?case by (simp add: cvtup_runes [of _ _ s] l_def)
  qed
  with True show ?thesis by (simp add: l_def case_prod_beta')
next
  case False
  have "?Q (p, h')" if "(\<exists>n. p = Some n \<and> is_fresh h (chars s) n h') \<and> (\<exists>f. strs h' (nxt h) = Some f \<and> s_len f = s_len s)" for p h'
    using that False by (auto simp: is_fresh_def chars_def split: if_splits)
  then have "?Q r" if "(case r of (p, h') \<Rightarrow> \<exists>n. p = Some n \<and> is_fresh h (chars s) n h')
      \<and> (case r of (p, h') \<Rightarrow> \<exists>f. strs h' (nxt h) = Some f \<and> s_len f = s_len s)" for r
    using that by (cases r) blast
  with cpost_mono [OF cpost_conj [OF stringdup_post [OF pa s] stringdup_len [OF pa s]] order_refl] False
  show ?thesis by (simp only: if_False)
qed

lemma splitc_post:
  assumes pa: "pool_ok pa" and h: "wf_store h" "slot h d = Some a" "strs h a = Some s"
  shows "cpost (splitc pa d expand h) {exHeap} (\<lambda>(n, h'). assigned h d (chars s) h' \<and> slot h' d = Some n
     \<and> (\<exists>f. strs h' n = Some f \<and> s_ref f = 1 \<and> chars f = chars s \<and> (expand \<longrightarrow> chars s \<noteq> [] \<longrightarrow> s_len f < 0)))"
    (is "cpost _ _ ?Q")
proof -
  have s: "wf_string s" "a < nxt h" using wf_storeD(1) [OF h(1,3)] by auto
  have step: "cpost (destroy h1 (Some a)) {exHeap} (\<lambda>h2. ?Q (nxt h, set_slot h2 d (Some (nxt h))))"
    if f: "is_fresh h (chars s) (nxt h) h1"
      and neg: "\<forall>f. strs h1 (nxt h) = Some f \<longrightarrow> expand \<longrightarrow> chars s \<noteq> [] \<longrightarrow> s_len f < 0" for h1
  proof -
    have sl: "slot h1 = slot h" "\<And>b. b \<noteq> nxt h \<Longrightarrow> strs h1 b = strs h b" using f by (auto simp: is_fresh_def)
    have "cpost (destroy h1 (Some a)) {exHeap} (\<lambda>h2. assigned h d (chars s) (set_slot h2 d (Some (nxt h))))"
      using release_fresh [OF h(1) f, of d] sl h(2) by simp
    moreover have "cpost (destroy h1 (Some a)) {} (\<lambda>h2. strs h2 (nxt h) = strs h1 (nxt h))"
      using destroy_slot [OF h(1) sl(2) sl(1), of d] h(2) by (auto elim!: cpost_mono)
    ultimately have "cpost (destroy h1 (Some a)) {exHeap} (\<lambda>h2. assigned h d (chars s) (set_slot h2 d (Some (nxt h)))
        \<and> strs h2 (nxt h) = strs h1 (nxt h))" by (rule cpost_conj)
    then show ?thesis
    proof (rule cpost_mono [OF _ order_refl], goal_cases)
      case (1 h2)
      moreover obtain g where "strs h1 (nxt h) = Some g" "s_ref g = 1" "chars g = chars s"
        using f by (auto simp: is_fresh_def)
      ultimately show ?case using neg by simp
    qed
  qed
  show ?thesis
    unfolding splitc_def h(2) option.case str_Some [OF h(3)] cbind_Inr cpost_cbind
  proof (rule cpost_mono [OF split_copy [OF pa h(3) s, of expand] order_refl], goal_cases)
    case (1 r)
    then obtain h1 where r: "r = (Some (nxt h), h1)" and f: "is_fresh h (chars s) (nxt h) h1"
      and neg: "\<forall>f. strs h1 (nxt h) = Some f \<longrightarrow> expand \<longrightarrow> chars s \<noteq> [] \<longrightarrow> s_len f < 0"
      by (cases r) auto
    show ?case using step [OF f neg] by (simp add: r)
  qed
qed

end
