(* ===== verification/Dis_String_Values.thy ===== *)
theory Dis_String_Values
  imports Dis_String_Proofs
begin

text \<open>
  The string instructions as operations on values: assignment of a character, concatenation,
  slices, length, comparison and conversion to and from UTF-8, with the defects that bound them.
\<close>

section \<open>Assignment of a character\<close>






text \<open>What follows the choice of the object that is changed.\<close>

definition insc_rest :: "alloc \<Rightarrow> int \<Rightarrow> int \<Rightarrow> nat \<Rightarrow> nat \<times> store \<Rightarrow> store cres" where
  "insc_rest pa r v d = (\<lambda>(ss, h). cbind (str h ss) (\<lambda>s.
     cbind (if s_len s < 0 \<or> r \<ge> 0x80 then insc_rune pa r v ss (- s_len s) h else insc_ascii pa r v ss (s_len s) h) (\<lambda>(ss, h).
     if Some ss \<noteq> slot h d then cbind (destroy h (slot h d)) (\<lambda>h. Inr (set_slot h d (Some ss)))
     else Inr h)))"

lemma uint_Runeself: "uint Runeself = 0x80"
  by (simp add: Runeself_def)

lemma insc_unfold:
  "insc pa r v d h = cbind (case slot h d of
         None \<Rightarrow> cbind (newstring pa 0 h) (\<lambda>(ss, h).
           if r \<ge> 0x80 then cbind (str h ss) (\<lambda>s. cbind (set_max h ss (s_max s div 4)) (\<lambda>h. Inr (ss, h)))
           else Inr (ss, h))
       | Some ss \<Rightarrow> cbind (str h ss) (\<lambda>s.
           if s_ref s > 1 \<or> r \<ge> 0x80 \<and> s_len s > 0 then splitc pa d (r \<ge> 0x80) h else Inr (ss, h)))
     (insc_rest pa r (c_u32 v) d)"
  unfolding insc_def insc_rest_def Let_def sizeof_Rune_def uint_Runeself by (rule refl)




section \<open>A concrete machine\<close>

text \<open>
  A pool that grants 32 bytes more than requested, zeroed, and a store with the byte string
  \<open>hi\<close> in slots 0 and 2 and a rune string of one euro sign in slot 1.
\<close>

definition demo_pool :: alloc where
  "demo_pool k n = (if 0 \<le> n \<and> n \<le> 0x100000 then Some (replicate (nat n + 32) 0) else None)"

definition demo_hi :: dstring where
  "demo_hi = \<lparr>s_ref = 2, s_len = 2, s_max = 8, s_tmp = None, s_data = [0x68, 0x69] @ replicate 14 0\<rparr>"

definition demo_euro :: dstring where
  "demo_euro = \<lparr>s_ref = 1, s_len = -1, s_max = 2, s_tmp = None, s_data = [0xAC, 0x20, 0, 0] @ replicate 12 0\<rparr>"

definition demo_store :: store where
  "demo_store = \<lparr>strs = [0 \<mapsto> demo_hi, 1 \<mapsto> demo_euro], nxt = 2,
     slot = \<lambda>r. if r = 0 \<or> r = 2 then Some 0 else if r = 1 then Some 1 else None\<rparr>"

lemma demo_pool_ok: "pool_ok demo_pool"
  by (auto simp: pool_ok_def demo_pool_def max_block_def split: if_splits)

lemma demo_text:
  "text_at demo_store 0 = [0x68, 0x69]" "text_at demo_store 1 = [0x20AC]" "text_at demo_store 2 = [0x68, 0x69]"
  "text_at demo_store 3 = []" "slot demo_store 3 = None"
  by (simp_all add: demo_store_def demo_hi_def demo_euro_def value_of_def chars_def)

lemma demo_store_ok: "wf_store demo_store"
proof -
  have "holders demo_store 0 = {0, 2}" "holders demo_store (Suc 0) = {1}"
    by (auto simp: holders_def demo_store_def split: if_splits)
  then show ?thesis
    by (auto simp: wf_store_def demo_store_def wf_string_def demo_hi_def demo_euro_def max_block_def
        split: if_splits)
qed


section \<open>Concatenation and slices\<close>





lemma sint_ascii:
  fixes b :: byte
  assumes "b < 0x80"
  shows "sint b = uint (ucast b :: u32)" "sint b = uint b"
proof -
  have lt: "uint b < 128" "0 \<le> uint b" using assms by (simp_all add: word_less_def)
  have "signed_take_bit 7 (uint b) = uint b"
    using lt by (intro signed_take_bit_int_eq_self order_trans [OF _ unsigned_greater_eq]) simp_all
  then show "sint b = uint b" by (simp add: sint_uint)
  then show "sint b = uint (ucast b :: u32)"
    using lt by (simp add: unsigned_ucast_eq take_bit_int_eq_self)
qed

text \<open>
  %%indc_lenc%%. Length and indexing: \<open>lenc\<close> returns the number of characters. \<open>indc\<close> returns the character at an index
  in range, raises the bounds error at or beyond the end, and raises the nil error on a nil
  string (a nil string has length 0).
\<close>

theorem indc_lenc:
  assumes h: "wf_store h" and v: "0 \<le> v"
  shows "lenc h (slot h d) = Inr (int (length (text_at h d)))
    \<and> indc h v (slot h d) = (if slot h d = None then Inl (Raise exNilref)
        else if v < int (length (text_at h d)) then Inr (uint (text_at h d ! nat v)) else Inl (Raise exBounds))"
proof (cases "slot h d")
  case None
  then show ?thesis by (simp add: lenc_def indc_def value_of_def)
next
  case (Some a)
  then obtain s where s: "strs h a = Some s" using wf_storeD(2) [OF h] by blast
  have w: "wf_string s" using wf_storeD(1) [OF h s] by simp
  have tx: "text_at h d = chars s" using Some s by (simp add: value_of_def)
  have len: "length (chars s) = nat \<bar>s_len s\<bar>" by (rule length_chars [OF w])
  have "indc h v (slot h d) = Inr (uint (chars s ! nat v))" if lt: "v < \<bar>s_len s\<bar>"
  proof (cases "s_len s < 0")
    case True
    obtain i where i: "v = int i" using v zero_le_imp_eq_int by blast
    have n: "nat (int i * 4) = 4 * i" by simp
    have "int i * 4 + 4 \<le> int (length (s_data s))" using w True lt i by (auto simp: wf_string_def)
    with True lt i Some s show ?thesis
      by (simp add: indc_def Let_def sizes rd_def chars_def get_runes_nth n)
  next
    case False
    have "(s_data s ! nat v) < 0x80"
      using w False lt v by (auto simp: wf_string_def list_all_length)
    then have "sint (s_data s ! nat v) = uint (ucast (s_data s ! nat v) :: u32)"
      by (rule sint_ascii)
    moreover have "v + 1 \<le> int (length (s_data s))" "nat v < length (s_data s)" using w False lt v by (auto simp: wf_string_def)
    moreover from this have "take (nat 1) (drop (nat v) (s_data s)) = [s_data s ! nat v]"
      by (simp add: take_Suc_conv_app_nth take_Suc_drop)
    ultimately show ?thesis
      using False lt v Some s by (simp add: indc_def Let_def rd_def chars_def)
  qed
  with Some s tx len show ?thesis by (auto simp: lenc_def indc_def Let_def)
qed

theorem indc_lenc_witness:
  "lenc demo_store (slot demo_store 0) = Inr 2 \<and> indc demo_store 1 (slot demo_store 0) = Inr 0x69"
  using indc_lenc [OF demo_store_ok, of 1 0] by (simp add: demo_text) (simp add: demo_store_def)

section \<open>Comparison\<close>

fun text_cmp :: "u32 list \<Rightarrow> u32 list \<Rightarrow> int" where
  "text_cmp [] [] = 0"
| "text_cmp [] (b # bs) = -1"
| "text_cmp (a # as) [] = 1"
| "text_cmp (a # as) (b # bs) = (if a < b then -1 else if b < a then 1 else text_cmp as bs)"

lemma text_cmp_loop:
  "text_cmp xs ys = (let c = cmp_loop (map uint xs) (map uint ys) in
     if c = 0 then sgn (int (length xs) - int (length ys)) else c)"
  by (induction xs ys rule: text_cmp.induct) (auto simp: word_less_def word_uint_eq_iff Let_def)

lemma text_cmp_eq_0: "text_cmp xs ys = 0 \<longleftrightarrow> xs = ys"
  by (induction xs ys rule: text_cmp.induct) auto

lemma cmp_loop_take: "min (length xs) (length ys) \<le> n \<Longrightarrow> cmp_loop (take n xs) (take n ys) = cmp_loop xs ys"
proof (induction xs arbitrary: ys n)
  case (Cons x xs)
  then show ?case by (cases ys; cases n) auto
qed simp

lemma memcmp_loop: "memcmp xs ys = cmp_loop (map uint xs) (map uint ys)"
  by (induction xs ys rule: memcmp.induct) (auto simp: word_less_def word_uint_eq_iff)

lemma cmp_loop_sgn: "sgn (cmp_loop xs ys) = cmp_loop xs ys"
  by (induction xs ys rule: cmp_loop.induct) auto

lemma sint_small: "uint r < 0x80000000 \<Longrightarrow> sint (r :: u32) = uint r"
proof -
  assume "uint r < 0x80000000"
  then have "signed_take_bit 31 (uint r) = uint r"
    by (intro signed_take_bit_int_eq_self order_trans [OF _ unsigned_greater_eq]) simp_all
  then show ?thesis by (simp add: sint_uint)
qed

text \<open>The characters that a comparison loop reads, as integers.\<close>

lemma load_chars:
  assumes h: "wf_store h" and small: "list_all (\<lambda>r. uint r < 0x80000000) (text_at h d)"
  obtains len dat where "load_string h (slot h d) = Inr (len, dat)" "c_int len = len"
    "\<bar>len\<bar> = int (length (text_at h d))" "\<bar>len\<bar> \<le> 0x10000000"
    "\<And>n. 0 \<le> n \<Longrightarrow> n \<le> \<bar>len\<bar> \<Longrightarrow> len < 0 \<Longrightarrow>
       cbind (rd dat 0 (n * 4)) (\<lambda>b. Inr (map sint (get_runes (nat n) b))) = Inr (map uint (take (nat n) (text_at h d)))"
    "\<And>n. 0 \<le> n \<Longrightarrow> n \<le> \<bar>len\<bar> \<Longrightarrow> 0 \<le> len \<Longrightarrow> rd dat 0 n = Inr (take (nat n) dat)
       \<and> map sint (take (nat n) dat) = map uint (take (nat n) (text_at h d))
       \<and> map uint (take (nat n) dat) = map uint (take (nat n) (text_at h d))"
proof (cases "slot h d")
  case None
  then show ?thesis by (intro that [of 0 "[]"]) (simp_all add: load_string_def value_of_def rd_def)
next
  case (Some a)
  then obtain s where s: "strs h a = Some s" using wf_storeD(2) [OF h] by blast
  have w: "wf_string s" using wf_storeD(1) [OF h s] by simp
  have tx: "text_at h d = chars s" using Some s by (simp add: value_of_def)
  have len: "length (chars s) = nat \<bar>s_len s\<bar>" by (rule length_chars [OF w])
  have b: "\<bar>s_len s\<bar> \<le> int (length (s_data s))" "int (length (s_data s)) \<le> 0x10000000"
    using w by (auto simp: wf_string_def max_block_def split: if_splits)
  show ?thesis
  proof (intro that [of "s_len s" "s_data s"], goal_cases)
    case 1
    then show ?case using Some s by (simp add: load_string_def)
  next
    case (5 n)
    obtain m where m: "n = int m" using 5 zero_le_imp_eq_int by blast
    have nm: "nat (int m * 4) = 4 * m" by simp
    obtain k where k: "nat (- s_len s) = m + k" using 5 m by (metis nat_int nat_mono abs_of_neg le_Suc_ex)
    have t: "take m (chars s) = get_runes m (s_data s)" using 5 k by (simp add: chars_def get_runes_add)
    have "m * 4 \<le> length (s_data s)" using w 5 m by (auto simp: wf_string_def)
    moreover have "map sint (get_runes m (s_data s)) = map uint (get_runes m (s_data s))"
      using small tx t set_take_subset [of m "chars s"] by (auto simp: list_all_iff intro!: sint_small)
    ultimately show ?case using m t by (simp add: rd_def nm tx get_runes_take)
  next
    case (6 n)
    have t: "take (nat n) (chars s) = map ucast (take (nat n) (s_data s))" using 6 by (simp add: chars_def take_map)
    have asc: "\<forall>x\<in>set (take (nat n) (s_data s)). x < 0x80"
      using w 6 set_take_subset_set_take [OF nat_mono [of n "s_len s"], of "s_data s"]
      by (auto simp: wf_string_def list_all_iff)
    have "map sint (take (nat n) (s_data s)) = map uint (take (nat n) (chars s))"
      "map uint (take (nat n) (s_data s)) = map uint (take (nat n) (chars s))"
      unfolding t using asc sint_ascii by auto
    moreover have "rd (s_data s) 0 n = Inr (take (nat n) (s_data s))" using 6 b by (simp add: rd_def)
    ultimately show ?case by (simp add: tx)
  qed (use len tx b in auto)
qed

text \<open>
  %%stringcmp_order%%. Comparison: for strings of runes below \<open>2^31\<close>, in either representation, the sign of \<open>stringcmp\<close> is the
  lexicographic order of the two strings by code point; in particular it is 0 exactly for equal
  strings, and a nil string compares as the empty string.
\<close>

theorem stringcmp_order:
  assumes h: "wf_store h" and small: "list_all (\<lambda>r. uint r < 0x80000000) (text_at h d1)" "list_all (\<lambda>r. uint r < 0x80000000) (text_at h d2)"
  shows "\<exists>n. stringcmp h (slot h d1) (slot h d2) = Inr n \<and> sgn n = text_cmp (text_at h d1) (text_at h d2)
    \<and> (n = 0 \<longleftrightarrow> text_at h d1 = text_at h d2)"
proof -
  let ?t1 = "text_at h d1" and ?t2 = "text_at h d2"
  let ?n = "min (int (length ?t1)) (int (length ?t2))"
  let ?c = "cmp_loop (map uint ?t1) (map uint ?t2)"
  let ?r = "if ?c = 0 then int (length ?t1) - int (length ?t2) else ?c"
  obtain len1 dat1 where l1: "load_string h (slot h d1) = Inr (len1, dat1)" "c_int len1 = len1"
    "\<bar>len1\<bar> = int (length ?t1)" "\<bar>len1\<bar> \<le> 0x10000000"
    "\<And>n. 0 \<le> n \<Longrightarrow> n \<le> \<bar>len1\<bar> \<Longrightarrow> len1 < 0 \<Longrightarrow>
       cbind (rd dat1 0 (n * 4)) (\<lambda>b. Inr (map sint (get_runes (nat n) b))) = Inr (map uint (take (nat n) ?t1))"
    "\<And>n. 0 \<le> n \<Longrightarrow> n \<le> \<bar>len1\<bar> \<Longrightarrow> 0 \<le> len1 \<Longrightarrow> rd dat1 0 n = Inr (take (nat n) dat1)
       \<and> map sint (take (nat n) dat1) = map uint (take (nat n) ?t1) \<and> map uint (take (nat n) dat1) = map uint (take (nat n) ?t1)"
    using load_chars [OF h small(1)] by metis
  obtain len2 dat2 where l2: "load_string h (slot h d2) = Inr (len2, dat2)" "c_int len2 = len2"
    "\<bar>len2\<bar> = int (length ?t2)" "\<bar>len2\<bar> \<le> 0x10000000"
    "\<And>n. 0 \<le> n \<Longrightarrow> n \<le> \<bar>len2\<bar> \<Longrightarrow> len2 < 0 \<Longrightarrow>
       cbind (rd dat2 0 (n * 4)) (\<lambda>b. Inr (map sint (get_runes (nat n) b))) = Inr (map uint (take (nat n) ?t2))"
    "\<And>n. 0 \<le> n \<Longrightarrow> n \<le> \<bar>len2\<bar> \<Longrightarrow> 0 \<le> len2 \<Longrightarrow> rd dat2 0 n = Inr (take (nat n) dat2)
       \<and> map sint (take (nat n) dat2) = map uint (take (nat n) ?t2) \<and> map uint (take (nat n) dat2) = map uint (take (nat n) ?t2)"
    using load_chars [OF h small(2)] by metis
  have abs: "(if len1 < 0 then - len1 else len1) = int (length ?t1)" "(if len2 < 0 then - len2 else len2) = int (length ?t2)"
    using l1(3) l2(3) by auto
  have n: "0 \<le> ?n" "?n \<le> \<bar>len1\<bar>" "?n \<le> \<bar>len2\<bar>" using l1(3) l2(3) by simp_all
  have tk: "cmp_loop (map uint (take (nat ?n) ?t1)) (map uint (take (nat ?n) ?t2)) = ?c"
    using cmp_loop_take [of "map uint ?t1 :: int list" "map uint ?t2" "nat ?n"] by (simp add: take_map min_def)
  have sg: "sgn ?r = text_cmp ?t1 ?t2"
    unfolding text_cmp_loop Let_def using cmp_loop_sgn [of "map uint ?t1" "map uint ?t2"] by auto
  have "stringcmp h (slot h d1) (slot h d2) = Inr (if slot h d1 = slot h d2 then 0 else ?r)"
  proof (cases "slot h d1 = slot h d2")
    case True
    then show ?thesis using l1(1) l2(1) by (simp add: stringcmp_def)
  next
    case False
    then show ?thesis
      using l1(5,6) [OF n(1,2)] l2(5,6) [OF n(1,3)] tk
      unfolding stringcmp_def l1(1) l2(1) cbind_Inr prod.case Let_def l1(2) l2(2) abs sizeof_Rune_def
      by (cases "len1 < 0"; cases "len2 < 0") (simp_all add: memcmp_loop)
  qed
  moreover have "?r = 0" if "slot h d1 = slot h d2"
  proof -
    have "text_cmp ?t1 ?t2 = 0" using that text_cmp_eq_0 by simp
    with sg show ?thesis by (simp only: sgn_0_0)
  qed
  ultimately have "stringcmp h (slot h d1) (slot h d2) = Inr ?r" by presburger
  moreover have "?r = 0 \<longleftrightarrow> ?t1 = ?t2"
    unfolding text_cmp_eq_0 [symmetric] sg [symmetric] by (rule sgn_0_0 [symmetric])
  ultimately show ?thesis using sg by blast
qed

theorem stringcmp_order_witness:
  "\<exists>n. stringcmp demo_store (slot demo_store 0) (slot demo_store 1) = Inr n \<and> sgn n = -1"
  using stringcmp_order [OF demo_store_ok, of 0 1] by (auto simp: demo_text simp del: One_nat_def)

section \<open>Conversion to and from UTF-8\<close>

lemma c2s_ascii_enc:
  "c2s_ascii (bs @ p) (length bs) = (if list_all (\<lambda>b. b < 0x80) bs then Inr None
     else Inr (Some (length (takeWhile (\<lambda>b. b < 0x80) bs))))"
proof (induction bs)
  case (Cons b bs)
  have "Runeself \<le> ucast b \<longleftrightarrow> \<not> b < 0x80"
    by (simp add: Runeself_def not_less [symmetric] unat_lt_T word_less_nat_alt)
  with Cons show ?case by auto
qed simp

lemma c2s_decode_enc:
  "list_all valid_rune rs \<Longrightarrow> c2s_decode (length rs) (enc_runes rs @ p) = Inr rs"
  by (induction rs) (simp_all add: chartorune_enc repaired_def valid_rune_def)

lemma rune_bytes:
  obtains (ascii) "unat r < 128" "runetochar r = [ucast r]" "unat (ucast r :: byte) = unat r" "ucast (ucast r :: byte) = r"
  | (wide) b bs where "128 \<le> unat r" "runetochar r = b # bs" "192 \<le> unat b"
proof (cases "unat r < 128")
  case True
  then have u: "unat (ucast r :: byte) = unat r" by (simp add: unat_bits take_bit_nat_eq_self)
  have "ucast (ucast r :: byte) = r" by (simp only: word_unat_eq_iff unat_ucast_byte u)
  with True u runetochar_ascii ascii show ?thesis by blast
next
  case False
  with runetochar_wide [of r] wide show ?thesis by (metis not_less)
qed

lemma fullrune_enc':
  "length (runetochar r) \<le> n \<Longrightarrow> fullrune (runetochar r @ t) n = Inr True"
proof (cases "r = 0")
  case True
  moreover assume "length (runetochar r) \<le> n"
  ultimately show ?thesis by (subst fullrune_eq) (auto simp: runetochar_ascii Let_def)
qed (rule fullrune_enc)

lemma c2s_count_rune:
  assumes "length (runetochar r) \<le> n"
  shows "c2s_count (runetochar r @ t) n nc = c2s_count t (n - length (runetochar r)) (nc + 1)"
proof (cases r rule: rune_bytes)
  case ascii
  moreover from this have "r < Runeself" by (simp add: Runeself_def word_less_nat_alt)
  ultimately show ?thesis using assms by (simp add: c2s_count.simps [of "ucast r # t"])
next
  case (wide b bs)
  have "chartorune (b # bs @ t) = Inr (of_nat (repaired r), Suc (length bs))"
    using chartorune_enc [of r t] wide by simp
  moreover have "fullrune (b # bs @ t) n = Inr True" using fullrune_enc' [OF assms, of t] wide by simp
  moreover have "(if UTFmax \<le> n then Inr True else Inr True) = (Inr True :: bool cres)" by simp
  ultimately show ?thesis using wide assms by (simp add: c2s_count.simps [of "b # bs @ t"] byte_self_iff)
qed

lemma c2s_count_enc:
  "c2s_count (enc_runes rs @ p) (length (enc_runes rs)) nc = Inr (nc + length rs)"
proof (induction rs arbitrary: nc)
  case Nil
  then show ?case by (simp add: c2s_count.simps [of p])
next
  case (Cons r rs)
  then show ?case by (simp add: c2s_count_rune)
qed

text \<open>The ASCII prefix of an encoded string.\<close>

lemma ascii_prefix:
  "takeWhile (\<lambda>b. b < 0x80) (enc_runes rs) = enc_runes (takeWhile (\<lambda>r. unat r < 128) rs)"
  "length (enc_runes (takeWhile (\<lambda>r. unat r < 128) rs)) = length (takeWhile (\<lambda>r. unat r < 128) rs)"
  "list_all (\<lambda>b. b < 0x80) (enc_runes rs) \<longleftrightarrow> list_all (\<lambda>r. unat r < 128) rs"
proof (induction rs)
  case (Cons r rs)
  have b: "b < 0x80 \<longleftrightarrow> unat b < 128" for b :: byte by (simp add: word_less_nat_alt)
  { case 1 show ?case using Cons(1) by (cases r rule: rune_bytes) (auto simp: b) }
  { case 2 show ?case using Cons(2) by (cases r rule: rune_bytes) auto }
  { case 3 show ?case using Cons(3) by (cases r rule: rune_bytes) (auto simp: b) }
qed simp_all

lemma ascii_chars: "list_all (\<lambda>r. unat r < 128) rs \<Longrightarrow> map ucast (enc_runes rs) = rs \<and> length (enc_runes rs) = length rs"
proof (induction rs)
  case (Cons r rs)
  then show ?case by (cases r rule: rune_bytes) auto
qed simp

lemma c2string_post:
  assumes pa: "pool_ok pa" and rs: "list_all valid_rune rs" "length (enc_runes rs) \<le> 0x10000000"
  shows "cpost (c2string pa (enc_runes rs) (length (enc_runes rs)) h) {exHeap} (\<lambda>(n, h'). is_fresh h rs n h')"
proof (cases "list_all (\<lambda>r. unat r < 128) rs")
  case True
  let ?bs = "enc_runes rs"
  have c: "c2s_ascii ?bs (length ?bs) = Inr None" using c2s_ascii_enc [of ?bs "[]"] True ascii_prefix(3) by simp
  have "cpost (newstring pa (int (length ?bs)) h) {exHeap} (\<lambda>(s, h').
      cpost (rd ?bs 0 (int (length ?bs))) {exHeap} (\<lambda>bs. cpost (mem_put h' s 0 bs) {exHeap} (\<lambda>h'. is_fresh h rs s h')))"
  proof (rule newstring_post [OF pa], goal_cases)
    case (3 f)
    have "is_fresh h (map ucast ?bs) (nxt h) (alloc_str h (f\<lparr>s_data := ?bs @ drop (nat (int (length ?bs))) (s_data f)\<rparr>))"
      using 3 True ascii_prefix(3) by (intro fresh_ascii) simp_all
    with 3 ascii_chars [OF True] show ?case by simp
  qed (use rs in simp_all)
  with c show ?thesis by (simp add: c2string_def case_prod_beta')
next
  case False
  let ?bs = "enc_runes rs" and ?a = "takeWhile (\<lambda>r. unat r < 128) rs"
  have i: "length (takeWhile (\<lambda>b. b < 0x80) ?bs) = length ?a" by (simp add: ascii_prefix)
  have c: "c2s_ascii ?bs (length ?bs) = Inr (Some (length ?a))"
    using c2s_ascii_enc [of ?bs "[]"] False ascii_prefix(3) i by simp
  have d: "?bs = enc_runes ?a @ enc_runes (dropWhile (\<lambda>r. unat r < 128) rs)"
    by (metis concat_append map_append takeWhile_dropWhile_id)
  have "drop (length ?a) ?bs = enc_runes (dropWhile (\<lambda>r. unat r < 128) rs)"
    using ascii_prefix(2) [of rs] by (subst d) simp
  moreover have "length ?bs - length ?a = length (enc_runes (dropWhile (\<lambda>r. unat r < 128) rs))"
    using ascii_prefix(2) [of rs] by (subst d) simp
  moreover have "length ?a + length (dropWhile (\<lambda>r. unat r < 128) rs) = length rs"
    by (metis length_append takeWhile_dropWhile_id)
  ultimately have cnt: "c2s_count (drop (length ?a) ?bs) (length ?bs - length ?a) (length ?a) = Inr (length rs)"
    using c2s_count_enc [of "dropWhile (\<lambda>r. unat r < 128) rs" "[]"] by simp
  have dec: "c2s_decode (length rs) ?bs = Inr rs" using c2s_decode_enc [OF rs(1), of "[]"] by simp
  have le: "length rs \<le> length ?bs"
  proof (induction rs)
    case (Cons r rs)
    have "0 < length (runetochar r)" by simp
    with Cons show ?case by (simp only: list.map concat.simps length_append list.size)
  qed simp
  have "cpost (newrunes pa (int (length rs)) h) {exHeap} (\<lambda>(s, h').
      cpost (mem_put h' s 0 (put_runes rs)) {exHeap} (\<lambda>h'. is_fresh h rs s h'))"
  proof (rule newrunes_post [OF pa], goal_cases)
    case (3 f)
    have "is_fresh h rs (nxt h) (alloc_str h (f\<lparr>s_data := put_runes rs @ drop (4 * nat (int (length rs))) (s_data f)\<rparr>))"
      using 3 False by (intro fresh_runes) auto
    with 3 show ?case by simp
  qed (use rs le False in auto)
  with c cnt dec show ?thesis by (simp add: c2string_def case_prod_beta')
qed

lemma fill_utf_enc:
  "p + length (enc_runes rs) \<le> length a \<Longrightarrow>
   fill_utf rs (int p) a = Inr (take p a @ enc_runes rs @ drop (p + length (enc_runes rs)) a)"
proof (induction rs arbitrary: p a)
  case (Cons r rs)
  let ?n = "length (runetochar r)" and ?a = "take p a @ runetochar r @ drop (p + length (runetochar r)) a"
  have "wr a (int p) (runetochar r) = Inr ?a" using Cons.prems by (simp add: wr_Inr)
  moreover have "fill_utf rs (int (p + ?n)) ?a = Inr (take (p + ?n) ?a @ enc_runes rs @ drop (p + ?n + length (enc_runes rs)) ?a)"
    using Cons.prems by (intro Cons.IH) simp
  moreover have "take (p + ?n) ?a = take p a @ runetochar r"
    "drop (p + ?n + length (enc_runes rs)) ?a = drop (p + length (enc_runes (r # rs))) a"
    using Cons.prems by (simp_all add: ac_simps)
  ultimately show ?case by simp
qed simp

lemma mem2array_post:
  assumes "pool_ok pa" "0 \<le> n" "n \<le> 0x40000000"
  shows "cpost (mem2array pa None n h) {exHeap} (\<lambda>a. int (length a) = n)"
    and "n \<le> int (length v) \<Longrightarrow> cpost (mem2array pa (Some v) n h) {exHeap} (\<lambda>a. a = take (nat n) v)"
proof -
  have ok: "64 + n \<le> int (length b)" if "pa (nxt h) (64 + n) = Some b" for b
    using assms(1) that unfolding pool_ok_def by blast
  then show "cpost (mem2array pa None n h) {exHeap} (\<lambda>a. int (length a) = n)"
    using assms(2,3) by (auto simp: mem2array_def nheap_def sizes Let_def split: option.splits)
  show "cpost (mem2array pa (Some v) n h) {exHeap} (\<lambda>a. a = take (nat n) v)" if "n \<le> int (length v)"
    using ok that assms(2,3) by (auto simp: mem2array_def nheap_def sizes Let_def split: option.splits)
qed

lemma enc_ascii: "list_all (\<lambda>b. b < 0x80) bs \<Longrightarrow> enc_runes (map ucast bs) = bs"
proof (induction bs)
  case (Cons b bs)
  have "unat (ucast b :: u32) < 128" using Cons.prems by (simp add: word_less_nat_alt)
  then have "runetochar (ucast b) = [ucast (ucast b :: u32)]" by (rule runetochar_ascii)
  moreover have "ucast (ucast b :: u32) = b" by (rule bit_word_eqI) (simp add: bit_simps)
  ultimately show ?case using Cons by simp
qed simp

lemma length_enc_runes: "length (enc_runes rs) \<le> 4 * length rs"
proof (induction rs)
  case (Cons r rs)
  with length_utf8_enc(2) [of "repaired r"] show ?case by (simp add: length_runetochar)
qed simp

lemma cvtca_post:
  assumes pa: "pool_ok pa" and h: "wf_store h" and v: "list_all valid_rune (text_at h r)"
  shows "cpost (cvtca pa (slot h r) h) {exHeap} (\<lambda>a. a = enc_runes (text_at h r))"
proof (cases "slot h r")
  case None
  with cpost_mono [OF mem2array_post(1) [OF pa, of 0 h] order_refl] show ?thesis by (simp add: cvtca_def value_of_def)
next
  case (Some a)
  then obtain s where s: "strs h a = Some s" using wf_storeD(2) [OF h] by blast
  have w: "wf_string s" using wf_storeD(1) [OF h s] by simp
  have tx: "text_at h r = chars s" using Some s by (simp add: value_of_def)
  show ?thesis
  proof (cases "s_len s < 0")
    case True
    let ?rs = "chars s"
    have n: "0 \<le> - s_len s * 4" "- s_len s * 4 \<le> int (length (s_data s))" "- s_len s * 4 \<le> 0x10000000"
      using w True by (auto simp: wf_string_def max_block_def)
    have m: "nat (- (s_len s * 4)) = 4 * nat (- s_len s)" using True by simp
    have rs: "get_runes (nat (- s_len s)) (take (4 * nat (- s_len s)) (s_data s)) = ?rs"
      using True by (simp add: chars_def get_runes_take)
    have len: "runenlen ?rs = length (enc_runes ?rs)"
    proof -
      have "filter (\<lambda>c. c > Runemax) ?rs = []"
        using v by (auto simp: tx filter_empty_conv list_all_iff valid_rune_def scalar_def Runemax_def
            word_less_nat_alt)
      then show ?thesis using runenlen_exact' [of ?rs] by simp
    qed
    have "length (enc_runes ?rs) \<le> 0x10000000"
      using length_enc_runes [of ?rs] length_chars [OF w] n True by simp
    then have "cpost (mem2array pa None (int (length (enc_runes ?rs))) h) {exHeap} (\<lambda>a. length a = length (enc_runes ?rs))"
      using mem2array_post(1) [OF pa, of "int (length (enc_runes ?rs))" h] by simp
    moreover have "fill_utf ?rs 0 a = Inr (enc_runes ?rs)" if "length a = length (enc_runes ?rs)" for a
      using fill_utf_enc [of 0 ?rs a] that by simp
    ultimately have "cpost (mem2array pa None (int (length (enc_runes ?rs))) h) {exHeap}
        (\<lambda>a. cpost (fill_utf ?rs 0 a) {exHeap} (\<lambda>a. a = enc_runes ?rs))"
      by (auto elim!: cpost_mono)
    with True Some s n len m rs show ?thesis by (simp add: cvtca_def Let_def sizes tx value_of_Some [OF s])
  next
    case False
    have "s_len s \<le> int (length (s_data s))" "s_len s \<le> 0x40000000" "list_all (\<lambda>b. b < 0x80) (take (nat (s_len s)) (s_data s))"
      using w False by (auto simp: wf_string_def max_block_def)
    moreover from this have "enc_runes (chars s) = take (nat (s_len s)) (s_data s)"
      using False enc_ascii by (simp add: chars_def del: map_map)
    ultimately show ?thesis
      using False Some s mem2array_post(2) [OF pa, of "s_len s" "s_data s" h]
      by (simp add: cvtca_def value_of_Some [OF s])
  qed
qed

text \<open>
  %%string_utf8%%. Conversion between strings and arrays of bytes: \<open>cvtca\<close> yields the UTF-8 encoding of a string of
  valid runes, and \<open>cvtac\<close> of the encoding of any sequence of valid runes assigns exactly that
  string, leaving all other slots alone: the two conversions are inverse.
\<close>

theorem string_utf8:
  assumes pa: "pool_ok pa" and h: "wf_store h" and v: "list_all valid_rune (text_at h r)"
    and rs: "list_all valid_rune rs" "length (enc_runes rs) \<le> 0x10000000"
  shows "cpost (cvtca pa (slot h r) h) {exHeap} (\<lambda>a. a = enc_runes (text_at h r))
    \<and> cpost (cvtac pa (Some (enc_runes rs)) d h) {exHeap} (assigned h d rs)"
proof
  show "cpost (cvtca pa (slot h r) h) {exHeap} (\<lambda>a. a = enc_runes (text_at h r))"
    by (rule cvtca_post [OF pa h v])
  have "cpost (c2string pa (enc_runes rs) (length (enc_runes rs)) h) {exHeap}
      (\<lambda>(n, h'). cpost (destroy h' (slot h' d)) {exHeap} (\<lambda>h. assigned h0 d rs (set_slot h d (Some n))))" if "h0 = h" for h0
    by (rule cpost_mono [OF c2string_post [OF pa rs] order_refl]) (use release_fresh [OF h, of rs] that in auto)
  then show "cpost (cvtac pa (Some (enc_runes rs)) d h) {exHeap} (assigned h d rs)"
    by (simp add: cvtac_def case_prod_beta')
qed

theorem string_utf8_witness:
  "cpost (cvtca demo_pool (slot demo_store 1) demo_store) {exHeap} (\<lambda>a. a = enc_runes [0x20AC])
   \<and> cpost (cvtac demo_pool (Some (enc_runes [0x41, 0x20AC])) 3 demo_store) {exHeap} (assigned demo_store 3 [0x41, 0x20AC])"
  using string_utf8 [OF demo_pool_ok demo_store_ok, of 1 "[0x41, 0x20AC]" 3]
  by (simp add: demo_text valid_rune_def scalar_def length_runetochar utf8_enc_def repaired_def del: One_nat_def)

section \<open>C strings\<close>

lemma string2c_loop_enc:
  "p + length (enc_runes rs) \<le> length t \<Longrightarrow> list_all (\<lambda>r. uint r < 0x80000000) rs \<Longrightarrow>
   string2c_loop rs (int p) t
     = Inr (int (p + length (enc_runes rs)), take p t @ enc_runes rs @ drop (p + length (enc_runes rs)) t)"
proof (induction rs arbitrary: p t)
  case (Cons r rs)
  let ?n = "length (runetochar r)" and ?t = "take p t @ runetochar r @ drop (p + length (runetochar r)) t"
  have sr: "sint r = uint r" using Cons.prems by (intro sint_small) simp
  have one: "runetochar r = [word_of_int (uint r)]" if "uint r < 128"
  proof -
    have "unat r < 128" using that by (simp add: nat_less_iff flip: nat_uint_eq)
    then show ?thesis using runetochar_ascii [of r] by simp
  qed
  have step: "string2c_loop (r # rs) (int p) t = cbind (wr t (int p) (runetochar r)) (\<lambda>t. string2c_loop rs (int (p + ?n)) t)"
    using one by (auto simp: sr uint_Runeself Let_def ac_simps)
  have "wr t (int p) (runetochar r) = Inr ?t" using Cons.prems by (simp add: wr_Inr)
  moreover have "string2c_loop rs (int (p + ?n)) ?t
      = Inr (int (p + ?n + length (enc_runes rs)), take (p + ?n) ?t @ enc_runes rs @ drop (p + ?n + length (enc_runes rs)) ?t)"
    using Cons.prems by (intro Cons.IH) simp_all
  moreover have "take (p + ?n) ?t = take p t @ runetochar r"
    "drop (p + ?n + length (enc_runes rs)) ?t = drop (p + length (enc_runes (r # rs))) t"
    using Cons.prems by (simp_all add: ac_simps)
  ultimately show ?case unfolding step by (simp add: ac_simps)
qed simp

lemma take_put_0: "0 \<le> n \<Longrightarrow> n < int (length d) \<Longrightarrow> take (Suc (nat n)) (put_at n [x] d) = take (nat n) d @ [x]"
  by (simp add: put_at_def nat_less_iff)

text \<open>A change of an object that keeps its count, its characters and its invariant keeps the store.\<close>

lemma wf_store_same:
  assumes "wf_store h" "strs h a = Some s" "wf_string s'" "s_ref s' = s_ref s" "chars s' = chars s"
  shows "wf_store (upd h a s') \<and> (\<forall>r. text_at (upd h a s') r = text_at h r)"
  using assms by (auto simp: wf_store_def value_of_def split: option.splits)

lemma temp_post:
  assumes "pool_ok pa" "0 < l"
  shows "cpost (string2c_tmp pa l s h) {exNomem} (\<lambda>t. l \<le> int (length t))"
proof -
  have "l \<le> int (length t)" if "pa (nxt h) l = Some t" for t using assms(1) that unfolding pool_ok_def by blast
  then show ?thesis by (auto simp: string2c_tmp_def split: option.splits)
qed

text \<open>
  %%string2c_utf8%%. \<open>string2c\<close> delivers the UTF-8 encoding of a string, terminated by a zero byte, without running out of
  its temporary buffer or of the string's own block (the zero byte goes into the eight bytes
  that every block has behind \<open>s_max\<close>); no value in the store changes.
\<close>

theorem string2c_utf8:
  assumes pa: "pool_ok pa" and h: "wf_store h" and small: "list_all (\<lambda>r. uint r < 0x80000000) (text_at h d)"
  shows "cpost (string2c pa (slot h d) h) {exNomem} (\<lambda>(t, h').
     take (Suc (length (enc_runes (text_at h d)))) t = enc_runes (text_at h d) @ [0]
     \<and> wf_store h' \<and> (\<forall>r. text_at h' r = text_at h r))"
proof (cases "slot h d")
  case None
  with h show ?thesis by (simp add: string2c_def value_of_def)
next
  case (Some a)
  then obtain s where s: "strs h a = Some s" using wf_storeD(2) [OF h] by blast
  have w: "wf_string s" using wf_storeD(1) [OF h s] by simp
  have tx: "text_at h d = chars s" using Some s by (simp add: value_of_def)
  let ?e = "enc_runes (chars s)"
  show ?thesis
  proof (cases "s_len s < 0")
    case True
    define nc where "nc = - s_len s"
    have nc: "s_len s = - nc" "0 < nc" "nc * 4 + 8 \<le> int (length (s_data s))" "int (length (s_data s)) \<le> 0x10000000"
      using w True by (auto simp: nc_def wf_string_def max_block_def)
    have i: "c_int nc = nc" "c_int (nc * 4 + 4) = nc * 4 + 4" using nc by simp_all
    obtain m where m: "nc = int m" using nc(2) zero_le_imp_eq_int [of nc] by auto
    have nm: "nat (int m * 4) = 4 * m" by simp
    have rs: "get_runes m (take (4 * m) (s_data s)) = chars s" using nc m by (simp add: chars_def get_runes_take)
    have el: "length ?e \<le> 4 * m" using length_enc_runes [of "chars s"] length_chars [OF w] nc m by simp
    have "cpost (string2c_tmp pa (nc * 4 + 4) s h) {exNomem} (\<lambda>t. cpost (string2c_loop (chars s) 0 t) {exNomem} (\<lambda>(p, t). cpost (wr t p [0]) {exNomem} (\<lambda>t.
        take (Suc (length ?e)) t = ?e @ [0] \<and> wf_store (upd h a (s\<lparr>s_tmp := Some t\<rparr>))
        \<and> (\<forall>r. text_at (upd h a (s\<lparr>s_tmp := Some t\<rparr>)) r = text_at h r))))"
    proof (rule cpost_mono [OF temp_post [OF pa] order_refl], goal_cases)
      case (2 t)
      then have tl: "length ?e + 1 \<le> length t" using el m by simp
      have "string2c_loop (chars s) 0 t = Inr (int (length ?e), ?e @ drop (length ?e) t)"
        using string2c_loop_enc [of 0 "chars s" t] tl small tx by simp
      moreover have "wf_store (upd h a (s\<lparr>s_tmp := Some t'\<rparr>)) \<and> (\<forall>r. text_at (upd h a (s\<lparr>s_tmp := Some t'\<rparr>)) r = text_at h r)" for t'
        using w by (intro wf_store_same [OF h s]) (simp_all add: wf_string_def chars_def)
      ultimately show ?case using tl by (simp add: put_at_append)
    qed (use nc in simp)
    with True Some s nc i m nm rs show ?thesis
      by (simp add: string2c_def Let_def tx value_of_Some [OF s] sizes case_prod_beta')
  next
    case False
    have b: "s_len s < int (length (s_data s))" "list_all (\<lambda>b. b < 0x80) (take (nat (s_len s)) (s_data s))"
      using w False by (auto simp: wf_string_def)
    then have e: "?e = take (nat (s_len s)) (s_data s)" "length ?e = nat (s_len s)"
      using False enc_ascii by (simp_all add: chars_def del: map_map)
    have "take (nat (s_len s)) (put_at (s_len s) [0] (s_data s)) = take (nat (s_len s)) (s_data s)"
      using False b by (simp add: put_at_def)
    then have "wf_store (upd h a (s\<lparr>s_data := put_at (s_len s) [0] (s_data s)\<rparr>))
        \<and> (\<forall>r. text_at (upd h a (s\<lparr>s_data := put_at (s_len s) [0] (s_data s)\<rparr>)) r = text_at h r)"
      using w b False by (intro wf_store_same [OF h s]) (simp_all add: wf_string_def chars_def)
    with False Some s b e take_put_0 [of "s_len s" "s_data s" 0] show ?thesis
      by (simp add: string2c_def mem_simps value_of_Some [OF s])
  qed
qed

theorem string2c_utf8_witness:
  "cpost (string2c demo_pool (slot demo_store 1) demo_store) {exNomem} (\<lambda>(t, h').
     take (Suc (length (enc_runes [0x20AC]))) t = enc_runes [0x20AC] @ [0] \<and> wf_store h' \<and> (\<forall>r. text_at h' r = text_at demo_store r))"
  using string2c_utf8 [OF demo_pool_ok demo_store_ok, of 1] by (simp add: demo_text del: One_nat_def)

section \<open>Defects\<close>

text \<open>
  %%indc_negative%%. A negative index is not caught: \<open>indc\<close> compares the signed index only with the length, so
  every negative index of a non-nil string reads outside the object.
\<close>

theorem indc_negative:
  assumes "wf_store h" and "slot h d = Some a" and "v < 0"
  shows "indc h v (slot h d) = Inl Undef"
proof -
  obtain s where "strs h a = Some s" using wf_storeD(2) [OF assms(1,2)] by blast
  with assms(2,3) show ?thesis by (auto simp: indc_def Let_def sizes rd_def)
qed

theorem indc_negative_witness: "indc demo_store (-1) (slot demo_store 0) = Inl Undef"
  by (rule indc_negative [OF demo_store_ok, of _ 0]) (simp_all add: demo_store_def)

text \<open>
  %%addc_self_overflow%%. Appending a string to itself in place overruns the block: the length is doubled before the copy
  reads it again as the number of bytes to move, so twice the string is written behind it.
\<close>

theorem addc_self_overflow:
  assumes "slot h d = Some a" and "strs h a = Some s" and "s_ref s = 1"
    and "0 \<le> s_len s" and "2 * s_len s \<le> s_max s" and "int (length (s_data s)) < 3 * s_len s"
  shows "addc pa d d d h = Inl Undef"
proof -
  have "add_ascii pa a a True h = Inl Undef"
    using assms(2-6)
    by (cases "2 * s_len s \<le> int (length (s_data s))") (simp_all add: add_ascii_def Let_def mem_simps rd_def wr_def min_def)
  with assms show ?thesis by (simp add: addc_def addstring_def Let_def)
qed

text \<open>The witness: a well-formed store whose slot 0 holds 23 characters in a block with room for 48.\<close>

definition long_store :: store where
  "long_store = \<lparr>strs = [0 \<mapsto> \<lparr>s_ref = 1, s_len = 23, s_max = 48, s_tmp = None, s_data = replicate 56 0x61\<rparr>], nxt = 1,
     slot = \<lambda>r. if r = 0 then Some 0 else None\<rparr>"

lemma long_store_ok: "wf_store long_store"
proof -
  have "holders long_store 0 = {0}" by (auto simp: holders_def long_store_def split: if_splits)
  then show ?thesis
    by (auto simp: wf_store_def long_store_def wf_string_def max_block_def list_all_iff split: if_splits)
qed

theorem addc_self_overflow_witness: "wf_store long_store \<and> addc demo_pool 0 0 0 long_store = Inl Undef"
  using long_store_ok addc_self_overflow [of long_store 0 0 "the (strs long_store 0)" demo_pool]
  by (simp add: long_store_def)

text \<open>
  %%insc_room_lost%%. Storing a character beyond ASCII into a non-nil empty string switches its representation but
  keeps \<open>s_max\<close> counted in bytes, which breaks the room invariant whenever there is room at all: later
  assignments below \<open>s_max\<close> write up to four times as far as the block reaches.
\<close>

theorem insc_room_lost:
  assumes s: "slot h d = Some a" "strs h a = Some s" "s_ref s = 1" "s_len s = 0"
    and m: "0 < s_max s" "int (length (s_data s)) = s_max s + 8" and r: "0x80 \<le> r"
  shows "\<exists>s'. insc pa r 0 d h = Inr (upd h a s') \<and> s_len s' = -1 \<and> s_max s' = s_max s
    \<and> length (s_data s') = length (s_data s) \<and> \<not> wf_string s'"
proof -
  let ?s = "s\<lparr>s_len := -1, s_data := put_at 0 (enc_le 4 (word_of_int r :: u32)) (s_data s)\<rparr>"
  have w: "wr (s_data s) 0 (enc_le 4 (word_of_int r :: u32)) = Inr (put_at 0 (enc_le 4 (word_of_int r :: u32)) (s_data s))"
    using m by (simp add: wr_def)
  have "insc pa r 0 d h = Inr (upd h a ?s)"
    using s m r w by (simp add: insc_unfold insc_rest_def insc_rune_def sizes mem_simps)
  moreover have "\<not> wf_string ?s" using m by (simp add: wf_string_def)
  ultimately show ?thesis using m by (intro exI [of _ ?s]) simp
qed

text \<open>The witness: the empty string that \<open>cvtac\<close> makes of an array of no bytes.\<close>

theorem insc_room_lost_witness:
  "\<exists>h s'. cvtac demo_pool (Some []) 3 demo_store = Inr h \<and> insc demo_pool 0xE9 0 3 h = Inr (upd h 2 s') \<and> \<not> wf_string s'"
proof -
  let ?s = "\<lparr>s_ref = 1, s_len = 0, s_max = 32, s_tmp = None, s_data = replicate 40 0\<rparr> :: dstring"
  let ?h = "set_slot (alloc_str demo_store ?s) 3 (Some 2)"
  have nx: "nxt demo_store = 2" "slot demo_store 3 = None" by (simp_all add: demo_store_def)
  have "cvtac demo_pool (Some []) 3 demo_store = Inr ?h"
    using nx
    by (simp add: cvtac_def c2string_def newstring_def nheap_def sizes Let_def demo_pool_def rd_def mem_put_def str_def
        wr_def upd_def alloc_str_def destroy_def set_slot_def)
  moreover have "\<exists>s'. insc demo_pool 0xE9 0 3 ?h = Inr (upd ?h 2 s') \<and> s_len s' = -1 \<and> s_max s' = s_max ?s
    \<and> length (s_data s') = length (s_data ?s) \<and> \<not> wf_string s'"
    by (rule insc_room_lost) (simp_all add: nx)
  ultimately show ?thesis by blast
qed

text \<open>
  %%index_truncated%%. Indices are reduced modulo \<open>2^32\<close> before they are checked: character assignment and slicing
  with an index \<open>2^32\<close> too large are not bounds errors but act on the reduced index.
\<close>

theorem index_truncated:
  "insc pa r (v + 0x100000000) d h = insc pa r v d h
   \<and> slicec pa (i + 0x100000000) j d h = slicec pa i j d h \<and> slicec pa i (j + 0x100000000) d h = slicec pa i j d h"
proof -
  have "c_u32 (x + 0x100000000) = c_u32 x" for x :: int
    by (simp add: c_u32_def take_bit_eq_mod)
  then show ?thesis by (simp add: insc_unfold slicec_def slicer_def)
qed

end
