(* ===== verification/Mp_Vec.thy ===== *)
theory Mp_Vec
  imports Inferno_Prelude
begin

text \<open>
  Digit vectors of the multiple precision library, \<^verbatim>\<open>src/libmp/port\<close>: addition, subtraction,
  comparison, the product of two digits, multiply-and-add, multiply-and-subtract, and the
  division of two digits by one. A vector is a list of 32-bit digits, least significant first.
  The result vector may be the vector of an operand at the same place: each loop reads a digit
  of an operand before it writes the result digit of the same index, and never reads it again.
\<close>

type_synonym mpdigit = u32

definition Dbits :: nat where "Dbits = 32"

section \<open>The loops\<close>

text \<open>\<open>mpvecadd\<close>: the digits stored at \<open>sum\<close>, the final carry last.\<close>

fun mpvecadd_loop :: "mpdigit \<Rightarrow> mpdigit list \<Rightarrow> mpdigit list \<Rightarrow> mpdigit list" where
  "mpvecadd_loop carry (x # a) (y # b) =
    (let x = x + carry;
         carry = (if x < carry then 1 else 0);
         x = x + y;
         carry = (if x < y then carry + 1 else carry)
     in x # mpvecadd_loop carry a b)"
| "mpvecadd_loop carry (x # a) [] =
    (let x = x + carry;
         carry = (if x < carry then 1 else 0)
     in x # mpvecadd_loop carry a [])"
| "mpvecadd_loop carry [] b = [carry]"

definition mpvecadd :: "mpdigit list \<Rightarrow> mpdigit list \<Rightarrow> mpdigit list" where
  "mpvecadd a b = mpvecadd_loop 0 a b"

text \<open>\<open>mpvecsub\<close>: the digits stored at \<open>diff\<close>.\<close>

fun mpvecsub_loop :: "mpdigit \<Rightarrow> mpdigit list \<Rightarrow> mpdigit list \<Rightarrow> mpdigit list" where
  "mpvecsub_loop borrow (x # a) (y # b) =
    (let y = y + borrow;
         borrow = (if y < borrow then 1 else 0);
         borrow = (if x < y then borrow + 1 else borrow)
     in (x - y) # mpvecsub_loop borrow a b)"
| "mpvecsub_loop borrow (x # a) [] =
    (let y = x - borrow;
         borrow = (if y > x then 1 else 0)
     in y # mpvecsub_loop borrow a [])"
| "mpvecsub_loop borrow [] b = []"

definition mpvecsub :: "mpdigit list \<Rightarrow> mpdigit list \<Rightarrow> mpdigit list" where
  "mpvecsub a b = mpvecsub_loop 0 a b"

text \<open>\<open>mpveccmp\<close> looks at the digits from the most significant end.\<close>

function mpveccmp_loop :: "mpdigit list \<Rightarrow> nat \<Rightarrow> mpdigit list \<Rightarrow> nat \<Rightarrow> int" where
  "mpveccmp_loop a alen b blen =
    (if alen > blen then if a ! (alen - 1) \<noteq> 0 then 1 else mpveccmp_loop a (alen - 1) b blen
     else if blen > alen then if b ! (blen - 1) \<noteq> 0 then -1 else mpveccmp_loop a alen b (blen - 1)
     else if alen > 0 then
       let x = a ! (alen - 1) - b ! (alen - 1) in
       if x = 0 then mpveccmp_loop a (alen - 1) b (blen - 1)
       else if x > a ! (alen - 1) then -1 else 1
     else 0)"
  by pat_completeness auto
termination
  by (relation "measure (\<lambda>(a, alen, b, blen). alen + blen)") auto

definition mpveccmp :: "mpdigit list \<Rightarrow> mpdigit list \<Rightarrow> int" where
  "mpveccmp a b = mpveccmp_loop a (length a) b (length b)"

section \<open>Products\<close>

definition LO :: "mpdigit \<Rightarrow> mpdigit" where "LO x = x AND (push_bit (Dbits div 2) 1 - 1)"
definition HI :: "mpdigit \<Rightarrow> mpdigit" where "HI x = drop_bit (Dbits div 2) x"

text \<open>The low and the high digit of a product.\<close>

definition mpdigmul :: "mpdigit \<Rightarrow> mpdigit \<Rightarrow> mpdigit \<times> mpdigit" where
  "mpdigmul a b =
    (let ah = HI a; al = LO a; bh = HI b; bl = LO b;
         p1 = ah * bl; p2 = bh * al; p3 = bl * al; p4 = ah * bh;
         carry = 0;
         x = push_bit (Dbits div 2) p1;
         p3 = p3 + x;
         carry = (if p3 < x then carry + 1 else carry);
         x = push_bit (Dbits div 2) p2;
         p3 = p3 + x;
         carry = (if p3 < x then carry + 1 else carry);
         p4 = p4 + (carry + HI p1 + HI p2)
     in (p3, p4))"

text \<open>
  \<open>mpvecdigmuladd\<close> and \<open>mpvecdigmulsub\<close>: the digits stored at \<open>p\<close>, which has one digit more
  than \<open>b\<close>; \<open>hi\<close> is \<open>part[1]\<close>.
\<close>

fun mpvecdigmuladd_loop :: "mpdigit \<Rightarrow> mpdigit \<Rightarrow> mpdigit list \<Rightarrow> mpdigit \<Rightarrow> mpdigit list \<Rightarrow> mpdigit list" where
  "mpvecdigmuladd_loop carry hi (d # b) m (y # p) =
    (let x = hi + carry;
         carry = (if x < carry then 1 else 0);
         (lo, hi) = mpdigmul d m;
         x = x + lo;
         carry = (if x < lo then carry + 1 else carry);
         x = x + y;
         carry = (if x < y then carry + 1 else carry)
     in x # mpvecdigmuladd_loop carry hi b m p)"
| "mpvecdigmuladd_loop carry hi [] m p = (hi + carry) # tl p"
| "mpvecdigmuladd_loop carry hi b m [] = []"

definition mpvecdigmuladd :: "mpdigit list \<Rightarrow> mpdigit \<Rightarrow> mpdigit list \<Rightarrow> mpdigit list" where
  "mpvecdigmuladd b m p = mpvecdigmuladd_loop 0 0 b m p"

fun mpvecdigmulsub_loop :: "mpdigit \<Rightarrow> mpdigit \<Rightarrow> mpdigit list \<Rightarrow> mpdigit \<Rightarrow> mpdigit list \<Rightarrow> mpdigit list \<times> int" where
  "mpvecdigmulsub_loop borrow hi (d # b) m (x # p) =
    (let y = x - borrow;
         borrow = (if y > x then 1 else 0);
         (lo, hi') = mpdigmul d m;
         x = hi + lo;
         borrow = (if x < lo then borrow + 1 else borrow);
         x = y - x;
         borrow = (if x > y then borrow + 1 else borrow);
         (r, s) = mpvecdigmulsub_loop borrow hi' b m p
     in (x # r, s))"
| "mpvecdigmulsub_loop borrow hi [] m (x # p) =
    (let y = x - borrow - hi in (y # p, if y > x then -1 else 1))"
| "mpvecdigmulsub_loop borrow hi b m [] = ([], 1)"

definition mpvecdigmulsub :: "mpdigit list \<Rightarrow> mpdigit \<Rightarrow> mpdigit list \<Rightarrow> mpdigit list \<times> int" where
  "mpvecdigmulsub b m p = mpvecdigmulsub_loop 0 0 b m p"

section \<open>Two digits by one\<close>

text \<open>The loop of \<open>mpdigdiv\<close>, \<open>i\<close> counting down to 0; \<open>k = i + 1\<close>.\<close>

fun mpdigdiv_loop :: "nat \<Rightarrow> mpdigit \<Rightarrow> mpdigit \<Rightarrow> mpdigit \<Rightarrow> mpdigit \<Rightarrow> mpdigit \<Rightarrow> mpdigit \<times> mpdigit \<times> mpdigit" where
  "mpdigdiv_loop 0 divisor x hi lo q = (hi, lo, q)"
| "mpdigdiv_loop (Suc i) divisor x hi lo q =
    (if hi > 0 then
       let x = drop_bit 1 x in
       if x > hi then mpdigdiv_loop i divisor x hi lo q
       else
         let y = push_bit i divisor in
         if x = hi \<and> y > lo then mpdigdiv_loop i divisor x hi lo q
         else
           let hi = (if y > lo then hi - 1 else hi) in
           mpdigdiv_loop i divisor x (hi - x) (lo - y) (q OR push_bit i 1)
     else (hi, lo, q))"

definition mpdigdiv :: "mpdigit \<Rightarrow> mpdigit \<Rightarrow> mpdigit \<Rightarrow> mpdigit" where
  "mpdigdiv hi lo divisor =
    (if hi \<ge> divisor \<or> divisor = 0 then NOT 0
     else let (hi, lo, q) = mpdigdiv_loop Dbits divisor divisor hi lo 0 in q + lo div divisor)"

section \<open>Value of a vector\<close>

abbreviation radix :: nat where "radix \<equiv> 4294967296"

fun val :: "mpdigit list \<Rightarrow> nat" where
  "val [] = 0"
| "val (d # ds) = unat d + radix * val ds"

declare mpveccmp_loop.simps [simp del]

lemma val_append: "val (a @ b) = val a + radix ^ length a * val b"
  by (induction a) (simp_all add: algebra_simps)

lemma val_bound: "val a < radix ^ length a"
proof (induction a)
  case (Cons d a)
  have "unat d < radix" using unat_bound_u32 [of d] by simp
  with Cons have "unat d + radix * val a < radix + radix * (radix ^ length a - 1)"
    by (intro add_less_le_mono) auto
  also have "\<dots> = radix ^ length (d # a)" by (simp add: diff_mult_distrib2)
  finally show ?case by simp
qed simp

lemma val_replicate_0 [simp]: "val (replicate n 0) = 0"
  by (induction n) simp_all

section \<open>Single steps\<close>

lemma unat_digit: "unat (x :: mpdigit) < radix"
  using unat_bound_u32 [of x] by simp

text \<open>Overflow of an addition and of a subtraction, as the code detects them.\<close>

lemma add_carry:
  fixes x y :: mpdigit
  shows "unat (x + y) + (if x + y < y then radix else 0) = unat x + unat y"
    and "unat (x + y) + (if x + y < x then radix else 0) = unat x + unat y"
proof -
  have "unat (x + y) = (unat x + unat y) mod radix" by (simp add: unat_word_ariths)
  moreover have "unat x < radix" "unat y < radix" by (rule unat_digit)+
  moreover have "(unat x + unat y) mod radix = (if unat x + unat y < radix then unat x + unat y else unat x + unat y - radix)"
    using calculation by (simp add: mod_if)
  ultimately show "unat (x + y) + (if x + y < y then radix else 0) = unat x + unat y"
    "unat (x + y) + (if x + y < x then radix else 0) = unat x + unat y"
    by (auto simp: word_less_nat_alt)
qed

lemma sub_borrow:
  fixes x y :: mpdigit
  shows "unat (x - y) + unat y = unat x + (if x < y then radix else 0)"
    and "x < x - y \<longleftrightarrow> x < y"
proof -
  have *: "unat (x - y) + unat y = unat x + (if x - y + y < y then radix else 0)"
    using add_carry(1) [of "x - y" y] by simp
  then show "unat (x - y) + unat y = unat x + (if x < y then radix else 0)" by simp
  with unat_digit [of y] unat_digit [of "x - y"] unat_digit [of x] show "x < x - y \<longleftrightarrow> x < y"
    by (auto simp: word_less_nat_alt split: if_splits)
qed

lemma unat_Suc_small: "unat (c :: mpdigit) < 4 \<Longrightarrow> unat (c + 1) = unat c + 1"
  using add_carry(1) [of c 1] by (auto simp: word_less_nat_alt split: if_splits)

lemma add_step:
  fixes x y c :: mpdigit
  assumes "unat c \<le> 1"
  defines "x1 \<equiv> x + c"
  defines "c1 \<equiv> if x1 < c then 1 else 0 :: mpdigit"
  defines "x2 \<equiv> x1 + y"
  defines "c2 \<equiv> if x2 < y then c1 + 1 else c1"
  shows "unat x2 + radix * unat c2 = unat x + unat y + unat c" and "unat c2 \<le> 1"
proof -
  have 1: "unat x1 + radix * unat c1 = unat x + unat c"
    using add_carry(1) [of x c] by (auto simp: x1_def c1_def split: if_splits)
  have c1: "unat c1 \<le> 1" by (simp add: c1_def)
  have "unat x2 + (if x2 < y then radix else 0) = unat x1 + unat y"
    using add_carry(1) [of x1 y] unfolding x2_def .
  moreover have "unat c2 = unat c1 + (if x2 < y then 1 else 0)"
    using c1 by (simp add: c2_def unat_Suc_small)
  ultimately show 2: "unat x2 + radix * unat c2 = unat x + unat y + unat c"
    using 1 by (auto split: if_splits)
  show "unat c2 \<le> 1"
    using 2 assms(1) unat_digit [of x] unat_digit [of y] by linarith
qed

lemma val_mpvecadd_loop:
  "length b \<le> length a \<Longrightarrow> unat carry \<le> 1 \<Longrightarrow> val (mpvecadd_loop carry a b) = val a + val b + unat carry"
proof (induction carry a b rule: mpvecadd_loop.induct)
  case (1 carry x a y b)
  define c1 where "c1 = (if x + carry < carry then 1 else 0 :: mpdigit)"
  define x2 where "x2 = x + carry + y"
  define c2 where "c2 = (if x2 < y then c1 + 1 else c1)"
  have st: "unat x2 + radix * unat c2 = unat x + unat y + unat carry" "unat c2 \<le> 1"
    using add_step [OF 1(3), of x y] by (simp_all only: x2_def c2_def c1_def)
  have "val (mpvecadd_loop c2 a b) = val a + val b + unat c2"
    using 1(2) st(2) by (intro 1(1) [OF refl refl refl refl, folded x2_def c1_def, folded c2_def]) simp_all
  moreover have "mpvecadd_loop carry (x # a) (y # b) = x2 # mpvecadd_loop c2 a b"
    by (simp only: mpvecadd_loop.simps Let_def x2_def c2_def c1_def)
  ultimately show ?case using st(1) by (simp add: algebra_simps)
next
  case (2 carry x a)
  define c1 where "c1 = (if x + carry < carry then 1 else 0 :: mpdigit)"
  have "val (mpvecadd_loop c1 a []) = val a + val [] + unat c1"
    by (intro 2(1) [OF refl refl, folded c1_def]) (simp_all add: c1_def)
  moreover have "unat (x + carry) + radix * unat c1 = unat x + unat carry"
    using add_carry(1) [of x carry] by (auto simp: c1_def split: if_splits)
  moreover have "mpvecadd_loop carry (x # a) [] = (x + carry) # mpvecadd_loop c1 a []"
    by (simp only: mpvecadd_loop.simps Let_def c1_def)
  ultimately show ?case by (simp add: algebra_simps)
qed simp

lemma length_mpvecadd_loop [simp]: "length (mpvecadd_loop carry a b) = length a + 1"
  by (induction carry a b rule: mpvecadd_loop.induct) (simp_all add: Let_def)

lemma val_mpvecadd: "length b \<le> length a \<Longrightarrow> val (mpvecadd a b) = val a + val b"
  by (simp add: mpvecadd_def val_mpvecadd_loop)

lemma length_mpvecadd [simp]: "length (mpvecadd a b) = length a + 1"
  by (simp add: mpvecadd_def)

lemma sub_step:
  fixes x y c :: mpdigit
  assumes "unat c \<le> 1"
  defines "y1 \<equiv> y + c"
  defines "c1 \<equiv> if y1 < c then 1 else 0 :: mpdigit"
  defines "c2 \<equiv> if x < y1 then c1 + 1 else c1"
  shows "unat (x - y1) + unat y + unat c = unat x + radix * unat c2" and "unat c2 \<le> 1"
proof -
  have 1: "unat y1 + radix * unat c1 = unat y + unat c"
    using add_carry(1) [of y c] by (auto simp: y1_def c1_def split: if_splits)
  have c1: "unat c1 \<le> 1" by (simp add: c1_def)
  have "unat (x - y1) + unat y1 = unat x + (if x < y1 then radix else 0)"
    by (rule sub_borrow(1))
  moreover have "unat c2 = unat c1 + (if x < y1 then 1 else 0)"
    using c1 by (simp add: c2_def unat_Suc_small)
  ultimately show 2: "unat (x - y1) + unat y + unat c = unat x + radix * unat c2"
    using 1 by (auto split: if_splits)
  show "unat c2 \<le> 1"
    using 2 assms(1) unat_digit [of y] unat_digit [of "x - y1"] by linarith
qed

text \<open>What a subtraction leaves: the difference, up to the weight of the final borrow.\<close>

lemma val_mpvecsub_loop:
  "length b \<le> length a \<Longrightarrow> unat borrow \<le> 1 \<Longrightarrow>
   \<exists>k\<le>1. val (mpvecsub_loop borrow a b) + val b + unat borrow = val a + radix ^ length a * k"
proof (induction borrow a b rule: mpvecsub_loop.induct)
  case (1 borrow x a y b)
  define y1 where "y1 = y + borrow"
  define c1 where "c1 = (if y1 < borrow then 1 else 0 :: mpdigit)"
  define c2 where "c2 = (if x < y1 then c1 + 1 else c1)"
  have st: "unat (x - y1) + unat y + unat borrow = unat x + radix * unat c2" "unat c2 \<le> 1"
    using sub_step [OF 1(3), of x y] by (simp_all only: y1_def c2_def c1_def)
  obtain k where k: "k \<le> 1" "val (mpvecsub_loop c2 a b) + val b + unat c2 = val a + radix ^ length a * k"
    using 1(1) [OF refl refl refl, folded y1_def, folded c1_def, folded c2_def] 1(2) st(2) by auto
  moreover have "mpvecsub_loop borrow (x # a) (y # b) = (x - y1) # mpvecsub_loop c2 a b"
    by (simp only: mpvecsub_loop.simps Let_def y1_def c2_def c1_def)
  ultimately show ?case using st(1) by (intro exI [of _ k]) (simp add: algebra_simps)
next
  case (2 borrow x a)
  define c where "c = (if x - borrow > x then 1 else 0 :: mpdigit)"
  have "unat c \<le> 1" by (simp add: c_def)
  then obtain k where k: "k \<le> 1" "val (mpvecsub_loop c a []) + val [] + unat c = val a + radix ^ length a * k"
    using 2(1) [OF refl refl, folded c_def] by auto
  moreover have "unat (x - borrow) + unat borrow = unat x + radix * unat c"
    using sub_borrow [of x borrow] by (auto simp: c_def)
  moreover have "mpvecsub_loop borrow (x # a) [] = (x - borrow) # mpvecsub_loop c a []"
    by (simp only: mpvecsub_loop.simps Let_def c_def)
  ultimately show ?case by (intro exI [of _ k]) (simp add: algebra_simps)
qed auto

lemma length_mpvecsub_loop [simp]: "length (mpvecsub_loop borrow a b) = length a"
  by (induction borrow a b rule: mpvecsub_loop.induct) (simp_all add: Let_def)

lemma length_mpvecsub [simp]: "length (mpvecsub a b) = length a"
  by (simp add: mpvecsub_def)

lemma val_mpvecsub:
  assumes "length b \<le> length a" "val b \<le> val a"
  shows "val (mpvecsub a b) = val a - val b"
proof -
  obtain k where k: "k \<le> 1" "val (mpvecsub a b) + val b = val a + radix ^ length a * k"
    using val_mpvecsub_loop [of b a 0] assms(1) by (auto simp: mpvecsub_def)
  have "val (mpvecsub a b) < radix ^ length a" using val_bound [of "mpvecsub a b"] by simp
  with k assms(2) show ?thesis by (cases k) auto
qed

section \<open>Comparison\<close>

lemma val_take_Suc: "k < length a \<Longrightarrow> val (take (Suc k) a) = val (take k a) + radix ^ k * unat (a ! k)"
  by (simp add: take_Suc_conv_app_nth val_append)

lemma val_take_bound: "val (take k a) < radix ^ k"
proof -
  have "val (take k a) < radix ^ length (take k a)" by (rule val_bound)
  also have "\<dots> \<le> radix ^ k" by (intro power_increasing) simp_all
  finally show ?thesis .
qed

text \<open>The digit that differs decides: what is below it is less than one unit of it.\<close>

lemma digit_decides:
  assumes "u < w" "l < (r :: nat)"
  shows "l + r * u < m + r * w"
proof -
  have "l + r * u < r * Suc u" using assms(2) by simp
  also have "\<dots> \<le> r * w" using assms(1) by (intro mult_le_mono2) simp
  finally show ?thesis by simp
qed

lemma sgn_int_diff:
  "(m :: nat) < n \<Longrightarrow> sgn (int m - int n) = -1"
  "n < m \<Longrightarrow> sgn (int m - int n) = 1"
  by simp_all

lemma mpveccmp_loop_correct:
  "n \<le> length a \<Longrightarrow> m \<le> length b \<Longrightarrow>
   mpveccmp_loop a n b m = sgn (int (val (take n a)) - int (val (take m b)))"
proof (induction a n b m rule: mpveccmp_loop.induct)
  case (1 a n b m)
  consider (gt) "n > m" | (lt) "m > n" | (eq) "n = m" "n > 0" | (nil) "n = 0" "m = 0" by linarith
  then show ?case
  proof cases
    case gt
    then obtain k where k: "n = Suc k" "m \<le> k" by (cases n) auto
    have t: "val (take n a) = val (take k a) + radix ^ k * unat (a ! k)"
      using "1.prems" k(1) by (simp add: val_take_Suc)
    have "val (take m b) < radix ^ k"
      using k by (intro order_less_le_trans [OF val_take_bound power_increasing]) simp_all
    then have nz: "a ! k \<noteq> 0 \<Longrightarrow> sgn (int (val (take n a)) - int (val (take m b))) = 1"
      using digit_decides [of 0 "unat (a ! k)" "val (take m b)" "radix ^ k" "val (take k a)"] t
      by (intro sgn_int_diff) (simp add: unat_gt_0)
    have z: "a ! k = 0 \<Longrightarrow> val (take n a) = val (take k a)" using t by simp
    show ?thesis
    proof (cases "a ! k = 0")
      case True
      then show ?thesis using gt k(1) z [OF True] "1.IH"(1) "1.prems" by (subst mpveccmp_loop.simps) simp
    next
      case False
      then show ?thesis using gt k(1) nz [OF False] by (subst mpveccmp_loop.simps) simp
    qed
  next
    case lt
    then obtain k where k: "m = Suc k" "n \<le> k" by (cases m) auto
    have t: "val (take m b) = val (take k b) + radix ^ k * unat (b ! k)"
      using "1.prems" k(1) by (simp add: val_take_Suc)
    have "val (take n a) < radix ^ k"
      using k by (intro order_less_le_trans [OF val_take_bound power_increasing]) simp_all
    then have nz: "b ! k \<noteq> 0 \<Longrightarrow> sgn (int (val (take n a)) - int (val (take m b))) = -1"
      using digit_decides [of 0 "unat (b ! k)" "val (take n a)" "radix ^ k" "val (take k b)"] t
      by (intro sgn_int_diff) (simp add: unat_gt_0)
    have z: "b ! k = 0 \<Longrightarrow> val (take m b) = val (take k b)" using t by simp
    show ?thesis
    proof (cases "b ! k = 0")
      case True
      then show ?thesis using lt k(1) z [OF True] "1.IH"(2) "1.prems" by (subst mpveccmp_loop.simps) simp
    next
      case False
      then show ?thesis using lt k(1) nz [OF False] by (subst mpveccmp_loop.simps) simp
    qed
  next
    case eq
    then obtain k where k: "n = Suc k" "m = Suc k" by (cases n) auto
    have t: "val (take n a) = val (take k a) + radix ^ k * unat (a ! k)"
      "val (take m b) = val (take k b) + radix ^ k * unat (b ! k)"
      using "1.prems" k by (simp_all add: val_take_Suc)
    have b: "val (take k a) < radix ^ k" "val (take k b) < radix ^ k" by (rule val_take_bound)+
    have x: "a ! k < a ! k - b ! k \<longleftrightarrow> a ! k < b ! k" by (rule sub_borrow(2))
    have step: "mpveccmp_loop a n b m =
        (if a ! k = b ! k then mpveccmp_loop a k b k else if a ! k < b ! k then -1 else 1)"
      using eq k x by (subst mpveccmp_loop.simps) (simp add: Let_def)
    consider (e) "a ! k = b ! k" | (l) "a ! k < b ! k" | (g) "b ! k < a ! k" by fastforce
    then show ?thesis
    proof cases
      case e
      have "mpveccmp_loop a k b k = sgn (int (val (take k a)) - int (val (take k b)))"
        using "1.IH"(3) e k "1.prems" by simp
      then show ?thesis unfolding step using e t by simp
    next
      case l
      then have "val (take n a) < val (take m b)"
        unfolding t using digit_decides b by (simp add: word_less_nat_alt)
      then show ?thesis unfolding step using l less_imp_neq [OF l] sgn_int_diff by simp
    next
      case g
      then have "val (take m b) < val (take n a)"
        unfolding t using digit_decides b by (simp add: word_less_nat_alt)
      then show ?thesis unfolding step using g less_imp_neq [OF g] less_not_sym [OF g] sgn_int_diff by simp
    qed
  next
    case nil
    then show ?thesis by (subst mpveccmp_loop.simps) simp
  qed
qed

lemma mpveccmp_correct: "mpveccmp a b = sgn (int (val a) - int (val b))"
  by (simp add: mpveccmp_def mpveccmp_loop_correct)

section \<open>Products\<close>

lemma unat_LO: "unat (LO x) = unat x mod 65536"
proof -
  have "LO x = take_bit 16 x"
    by (simp add: LO_def Dbits_def take_bit_eq_mask mask_eq_exp_minus_1)
  then show ?thesis by (simp add: take_bit_eq_mod unat_mod)
qed

lemma unat_HI: "unat (HI x) = unat x div 65536"
  by (simp add: HI_def Dbits_def drop_bit_eq_div unat_div)

lemma unat_shift_half: "unat (push_bit 16 (x :: mpdigit)) = 65536 * (unat x mod 65536)"
proof -
  have "unat (push_bit 16 x) = (unat x * 65536) mod (65536 * 65536)"
    by (simp add: push_bit_eq_mult unat_word_ariths)
  also have "\<dots> = (unat x mod 65536) * 65536" by (subst mult_mod_left [symmetric]) simp
  finally show ?thesis by simp
qed

lemma unat_mult_half:
  assumes "unat x < 65536" "unat y < 65536"
  shows "unat (x * y :: mpdigit) = unat x * unat y"
proof -
  have "unat x * unat y < 65536 * 65536" using assms by (intro mult_strict_mono) simp_all
  then show ?thesis by (simp add: unat_word_ariths)
qed

text \<open>The product is exact, and its high digit leaves room for a carry.\<close>

lemma mpdigmul_correct:
  assumes "mpdigmul a b = (lo, hi)"
  shows "unat lo + radix * unat hi = unat a * unat b"
proof -
  define ah al bh bl where "ah = HI a" and "al = LO a" and "bh = HI b" and "bl = LO b"
  define p1 p2 p3 p4 where "p1 = ah * bl" and "p2 = bh * al" and "p3 = bl * al" and "p4 = ah * bh"
  define q1 q2 where "q1 = p3 + push_bit 16 p1" and "q2 = q1 + push_bit 16 p2"
  define c1 where "c1 = (if q1 < push_bit 16 p1 then 0 + 1 else 0 :: mpdigit)"
  define c2 where "c2 = (if q2 < push_bit 16 p2 then c1 + 1 else c1)"
  have "Dbits div 2 = 16" by (simp add: Dbits_def)
  then have "mpdigmul a b = (q2, p4 + (c2 + HI p1 + HI p2))"
    by (simp only: mpdigmul_def Let_def ah_def al_def bh_def bl_def p1_def p2_def
        p3_def p4_def q1_def q2_def c1_def c2_def)
  then have r: "lo = q2" "hi = p4 + (c2 + HI p1 + HI p2)" using assms by simp_all
  have h: "unat ah < 65536" "unat al < 65536" "unat bh < 65536" "unat bl < 65536"
    using unat_digit [of a] unat_digit [of b] by (simp_all add: ah_def al_def bh_def bl_def unat_HI unat_LO)
  have a: "unat a = 65536 * unat ah + unat al" "unat b = 65536 * unat bh + unat bl"
    by (simp_all add: ah_def al_def bh_def bl_def unat_HI unat_LO)
  have p: "unat p1 = unat ah * unat bl" "unat p2 = unat bh * unat al" "unat p3 = unat bl * unat al"
    "unat p4 = unat ah * unat bh"
    using h by (simp_all add: p1_def p2_def p3_def p4_def unat_mult_half)
  have c1: "unat q1 + radix * unat c1 = unat p3 + 65536 * (unat p1 mod 65536)" "unat c1 \<le> 1"
    using add_carry(1) [of p3 "push_bit 16 p1"] by (auto simp: q1_def c1_def unat_shift_half split: if_splits)
  have "unat c2 = unat c1 + (if q2 < push_bit 16 p2 then 1 else 0)"
    using c1(2) by (simp add: c2_def unat_Suc_small)
  then have c2: "unat q2 + radix * unat c2 = unat q1 + radix * unat c1 + 65536 * (unat p2 mod 65536)"
    using add_carry(1) [of q1 "push_bit 16 p2"] by (auto simp: q2_def unat_shift_half split: if_splits)
  define H where "H = unat p4 + (unat c2 + unat p1 div 65536 + unat p2 div 65536)"
  have "unat q2 + radix * H =
      unat p3 + 65536 * unat p1 + 65536 * unat p2 + radix * unat p4"
  proof -
    define h1 l1 where "h1 = unat p1 div 65536" and "l1 = unat p1 mod 65536"
    define h2 l2 where "h2 = unat p2 div 65536" and "l2 = unat p2 mod 65536"
    have "unat p1 = 65536 * h1 + l1" "unat p2 = 65536 * h2 + l2" by (simp_all add: h1_def l1_def h2_def l2_def)
    then have "65536 * unat p1 = radix * h1 + 65536 * l1" "65536 * unat p2 = radix * h2 + 65536 * l2"
      by simp_all
    with c1 c2 show ?thesis
      unfolding H_def h1_def [symmetric] l1_def [symmetric] h2_def [symmetric] l2_def [symmetric] distrib_left
      by linarith
  qed
  also have "\<dots> = unat a * unat b" unfolding p a by (simp add: algebra_simps)
  finally have H: "unat q2 + radix * H = unat a * unat b" .
  moreover have "unat a * unat b < radix * radix"
    using unat_digit by (intro mult_strict_mono) simp_all
  ultimately have "H < radix" by linarith
  moreover have "unat hi = H mod radix"
    unfolding r H_def by (simp add: unat_word_ariths unat_HI mod_simps)
  ultimately show ?thesis using H r by simp
qed

text \<open>
  The amount carried into a digit is \<open>part[1]\<close> and the carry together; it always fits a digit.
\<close>

lemma muladd_bound:
  fixes d m h c y :: mpdigit
  assumes "unat h + unat c < radix" "unat d * unat m + (unat h + unat c) + unat y = u + radix * w"
  shows "w < radix"
proof -
  have "unat d * unat m \<le> (radix - 1) * (radix - 1)"
    using unat_digit [of d] unat_digit [of m] by (intro mult_le_mono) auto
  then have "u + radix * w < radix * radix"
    using assms unat_digit [of y] by simp
  then show ?thesis by simp
qed

lemma muladd_step:
  fixes d m y h c lo h' :: mpdigit
  assumes "unat h + unat c < radix" "mpdigmul d m = (lo, h')"
  defines "x1 \<equiv> h + c"
  defines "c1 \<equiv> if x1 < c then 1 else 0 :: mpdigit"
  defines "x2 \<equiv> x1 + lo"
  defines "c2 \<equiv> if x2 < lo then c1 + 1 else c1"
  defines "x3 \<equiv> x2 + y"
  defines "c3 \<equiv> if x3 < y then c2 + 1 else c2"
  shows "unat x3 + radix * (unat h' + unat c3) = unat d * unat m + (unat h + unat c) + unat y"
    and "unat h' + unat c3 < radix"
proof -
  have 1: "unat x1 + radix * unat c1 = unat h + unat c" "unat c1 \<le> 1"
    using add_carry(1) [of h c] by (auto simp: x1_def c1_def split: if_splits)
  have "unat c2 = unat c1 + (if x2 < lo then 1 else 0)"
    using 1(2) by (simp add: c2_def unat_Suc_small)
  then have 2: "unat x2 + radix * unat c2 = unat x1 + unat lo + radix * unat c1" "unat c2 \<le> 2"
    using add_carry(1) [of x1 lo, folded x2_def] 1(2) by (auto split: if_splits)
  have "unat c3 = unat c2 + (if x3 < y then 1 else 0)"
    using 2(2) by (simp add: c3_def unat_Suc_small)
  then have 3: "unat x3 + radix * unat c3 = unat x2 + unat y + radix * unat c2"
    using add_carry(1) [of x2 y, folded x3_def] by (auto split: if_splits)
  show 4: "unat x3 + radix * (unat h' + unat c3) = unat d * unat m + (unat h + unat c) + unat y"
    using 1 2 3 mpdigmul_correct [OF assms(2)] by simp
  show "unat h' + unat c3 < radix" using muladd_bound [OF assms(1) 4 [symmetric]] .
qed

text \<open>A digit in front of a vector: the equation for the rest, scaled, and the one for the digit.\<close>

lemma digit_step:
  fixes r :: nat
  assumes "X + A = V + M + w" "x + r * w = D + c + y"
  shows "x + r * X + r * A = y + r * V + (D + r * M) + c"
proof -
  have "r * (X + A) = r * (V + M + w)" using assms(1) by simp
  with assms(2) show ?thesis unfolding distrib_left by linarith
qed

lemma digit_step_sub:
  fixes r :: nat
  assumes "X + M + w = V + A" "x + D + c = y + r * w"
  shows "x + r * X + (D + r * M) + c = y + r * V + r * A"
proof -
  have "r * (X + M + w) = r * (V + A)" using assms(1) by simp
  with assms(2) show ?thesis unfolding distrib_left by linarith
qed

lemma length_mpvecdigmuladd_loop [simp]:
  "length b < length p \<Longrightarrow> length (mpvecdigmuladd_loop c h b m p) = length p"
  by (induction c h b m p rule: mpvecdigmuladd_loop.induct) (auto simp: Let_def split: prod.splits)

text \<open>\<open>p[n]\<close> is overwritten; the digits beyond it stay.\<close>

lemma val_mpvecdigmuladd_loop:
  "length b < length p \<Longrightarrow> unat h + unat c < radix \<Longrightarrow>
   val (mpvecdigmuladd_loop c h b m p) + radix ^ length b * unat (p ! length b) =
     val p + unat m * val b + (unat h + unat c)"
proof (induction c h b m p rule: mpvecdigmuladd_loop.induct)
  case (1 c h d b m y p)
  obtain lo h' where dm: "mpdigmul d m = (lo, h')" by (cases "mpdigmul d m")
  define c1 where "c1 = (if h + c < c then 1 else 0 :: mpdigit)"
  define x2 where "x2 = h + c + lo"
  define c2 where "c2 = (if x2 < lo then c1 + 1 else c1)"
  define x3 where "x3 = x2 + y"
  define c3 where "c3 = (if x3 < y then c2 + 1 else c2)"
  have st: "unat x3 + radix * (unat h' + unat c3) = unat d * unat m + (unat h + unat c) + unat y"
    "unat h' + unat c3 < radix"
    using muladd_step [OF 1(3) dm, of y, folded c1_def x2_def, folded c2_def x3_def, folded c3_def] by simp_all
  have "val (mpvecdigmuladd_loop c3 h' b m p) + radix ^ length b * unat (p ! length b) =
      val p + unat m * val b + (unat h' + unat c3)"
    using "1.IH" [OF refl refl dm [symmetric] refl refl refl refl refl, folded c1_def x2_def,
        folded c2_def x3_def, folded c3_def] 1(2) st(2) by simp
  moreover have "mpvecdigmuladd_loop c h (d # b) m (y # p) = x3 # mpvecdigmuladd_loop c3 h' b m p"
    by (simp only: mpvecdigmuladd_loop.simps Let_def dm prod.case x2_def c2_def c1_def x3_def c3_def)
  moreover have "unat m * val (d # b) = unat d * unat m + radix * (unat m * val b)"
    by (simp add: algebra_simps)
  moreover have "radix ^ length (d # b) * unat ((y # p) ! length (d # b)) = radix * (radix ^ length b * unat (p ! length b))"
    by simp
  ultimately show ?case using digit_step [OF _ st(1)] by (simp only: val.simps)
next
  case (2 c h m p)
  then have "unat (h + c) = unat h + unat c"
    using add_carry(1) [of h c] unat_digit [of "h + c"] by (auto split: if_splits)
  with 2 show ?case by (cases p) simp_all
qed simp

lemma val_mpvecdigmuladd:
  assumes "length b < length p" "p ! length b = 0"
  shows "val (mpvecdigmuladd b m p) = val p + unat m * val b"
  using val_mpvecdigmuladd_loop [of b p 0 0 m] assms by (simp add: mpvecdigmuladd_def)

lemma length_mpvecdigmuladd [simp]: "length b < length p \<Longrightarrow> length (mpvecdigmuladd b m p) = length p"
  by (simp add: mpvecdigmuladd_def)

lemma mulsub_step:
  fixes d m x h b lo h' :: mpdigit
  assumes "unat h + unat b < radix" "unat b \<le> 3" "mpdigmul d m = (lo, h')"
  defines "y1 \<equiv> x - b"
  defines "b1 \<equiv> if y1 > x then 1 else 0 :: mpdigit"
  defines "x2 \<equiv> h + lo"
  defines "b2 \<equiv> if x2 < lo then b1 + 1 else b1"
  defines "x3 \<equiv> y1 - x2"
  defines "b3 \<equiv> if x3 > y1 then b2 + 1 else b2"
  shows "unat x3 + unat d * unat m + (unat h + unat b) = unat x + radix * (unat h' + unat b3)"
    and "unat h' + unat b3 < radix" and "unat b3 \<le> 3"
proof -
  have 1: "unat y1 + unat b = unat x + radix * unat b1" "unat b1 \<le> 1"
    using sub_borrow [of x b] by (auto simp: y1_def b1_def split: if_splits)
  have "unat b2 = unat b1 + (if x2 < lo then 1 else 0)"
    using 1(2) by (simp add: b2_def unat_Suc_small)
  then have 2: "unat x2 + radix * unat b2 = unat h + unat lo + radix * unat b1" "unat b2 \<le> 2"
    using add_carry(1) [of h lo, folded x2_def] 1(2) by (auto split: if_splits)
  have b3: "unat b3 = unat b2 + (if y1 < x2 then 1 else 0)"
    using 2(2) sub_borrow(2) [of y1 x2] by (simp add: b3_def x3_def unat_Suc_small)
  then have 3: "unat x3 + unat x2 + radix * unat b2 = unat y1 + radix * unat b3"
    using sub_borrow(1) [of y1 x2, folded x3_def] by (auto split: if_splits)
  show "unat b3 \<le> 3" using b3 2(2) by simp
  show 4: "unat x3 + unat d * unat m + (unat h + unat b) = unat x + radix * (unat h' + unat b3)"
    using 1 2 3 mpdigmul_correct [OF assms(3)] by simp
  have "unat d * unat m + (unat h + unat b) + unat x3 = unat x + radix * (unat h' + unat b3)"
    using 4 by simp
  then show "unat h' + unat b3 < radix" by (rule muladd_bound [OF assms(1)])
qed

lemma val_mpvecdigmulsub_loop:
  "length b < length p \<Longrightarrow> unat h + unat c < radix \<Longrightarrow> unat c \<le> 3 \<Longrightarrow>
   mpvecdigmulsub_loop c h b m p = (r, s) \<Longrightarrow>
   length r = length p \<and> s \<in> {1, -1} \<and>
   val r + unat m * val b + (unat h + unat c) = val p + (if s = -1 then radix ^ (length b + 1) else 0)"
proof (induction c h b m p arbitrary: r rule: mpvecdigmulsub_loop.induct)
  case (1 c h d b m x p)
  obtain lo h' where dm: "mpdigmul d m = (lo, h')" by (cases "mpdigmul d m")
  define y1 where "y1 = x - c"
  define b1 where "b1 = (if y1 > x then 1 else 0 :: mpdigit)"
  define x2 where "x2 = h + lo"
  define b2 where "b2 = (if x2 < lo then b1 + 1 else b1)"
  define x3 where "x3 = y1 - x2"
  define b3 where "b3 = (if x3 > y1 then b2 + 1 else b2)"
  have st: "unat x3 + unat d * unat m + (unat h + unat c) = unat x + radix * (unat h' + unat b3)"
    "unat h' + unat b3 < radix" "unat b3 \<le> 3"
    using mulsub_step [OF 1(3) 1(4) dm, of x, folded y1_def x2_def, folded b1_def x3_def, folded b2_def, folded b3_def]
    by simp_all
  obtain r' where r': "mpvecdigmulsub_loop b3 h' b m p = (r', s)" "r = x3 # r'"
    using 1(5) by (auto simp only: mpvecdigmulsub_loop.simps Let_def dm prod.case y1_def x2_def b1_def b2_def x3_def b3_def
        split: prod.splits)
  have "length r' = length p \<and> s \<in> {1, -1} \<and>
      val r' + unat m * val b + (unat h' + unat b3) = val p + (if s = -1 then radix ^ (length b + 1) else 0)"
    using 1(2) by (intro "1.IH" [OF refl refl dm [symmetric] refl refl refl refl refl, folded y1_def x2_def,
        folded b1_def x3_def, folded b2_def, folded b3_def] st(2,3) r'(1)) simp
  moreover have "unat m * val (d # b) = unat d * unat m + radix * (unat m * val b)"
    by (simp add: algebra_simps)
  moreover have "(if s = -1 then radix ^ (length (d # b) + 1) else 0) =
      radix * (if s = -1 then radix ^ (length b + 1) else 0)"
    by simp
  ultimately show ?case using digit_step_sub [OF _ st(1)] unfolding r'(2) by (simp only: val.simps list.size)
next
  case (2 c h m x p)
  then have hc: "unat (c + h) = unat h + unat c"
    using add_carry(1) [of c h] unat_digit [of "c + h"] by (auto split: if_splits)
  define y where "y = x - (c + h)"
  have r: "r = y # p" "s = (if y > x then -1 else 1)" using 2 by (simp_all add: y_def Let_def diff_diff_eq)
  have "unat y + (unat h + unat c) = unat x + (if y > x then radix else 0)"
    using sub_borrow [of x "c + h", folded y_def] hc by simp
  then show ?case unfolding r by (auto split: if_splits)
qed simp

lemma val_mpvecdigmulsub:
  assumes "length b < length p" "mpvecdigmulsub b m p = (r, s)"
  shows "length r = length p" and "s = 1 \<or> s = -1"
    and "val r + unat m * val b = val p + (if s = -1 then radix ^ (length b + 1) else 0)"
  using val_mpvecdigmulsub_loop [of b p 0 0 m r s] assms by (auto simp: mpvecdigmulsub_def)

section \<open>Two digits by one\<close>

text \<open>
  With \<open>k\<close> steps to go, \<open>q\<close> has its bits from \<open>k\<close> up, what is left of the dividend is less than
  the divisor shifted by \<open>k\<close>, and \<open>x\<close> is the high digit of the divisor shifted by \<open>k\<close>.
\<close>

definition digdiv_inv :: "nat \<Rightarrow> nat \<Rightarrow> mpdigit \<Rightarrow> mpdigit \<Rightarrow> mpdigit \<Rightarrow> mpdigit \<Rightarrow> nat \<Rightarrow> bool" where
  "digdiv_inv k n d hi lo q m \<longleftrightarrow>
    unat q = 2 ^ k * m \<and> n = unat q * unat d + (unat lo + radix * unat hi) \<and>
    unat lo + radix * unat hi < unat d * 2 ^ k"

lemma or_bit_add:
  assumes "unat (q :: mpdigit) = 2 ^ Suc i * m" "i < 32"
  shows "unat (q OR push_bit i 1) = 2 ^ i * (2 * m + 1)"
proof -
  have "bit q i \<longleftrightarrow> bit (unat q) i" by (simp add: bit_unsigned_iff)
  also have "\<dots> \<longleftrightarrow> odd (2 * (2 ^ i * m) div 2 ^ i)" using assms(1) by (simp add: bit_iff_odd mult.assoc)
  also have "2 * (2 ^ i * m) div 2 ^ i = 2 * m" by (simp add: mult.left_commute [of 2])
  finally have "\<not> bit q i" by simp
  then have "q OR push_bit i 1 = q + push_bit i 1"
    by (intro disjunctive_add [symmetric]) (auto simp: bit_simps)
  moreover have p: "unat (push_bit i 1 :: mpdigit) = 2 ^ i"
  proof -
    have "(2 :: nat) ^ i < 2 ^ 32" using assms(2) by (intro power_strict_increasing) simp_all
    then have "unat (of_nat (2 ^ i) :: mpdigit) = 2 ^ i" by (intro unat_len32)
    then show ?thesis by simp
  qed
  moreover have "unat (q + push_bit i 1) = unat q + 2 ^ i"
  proof -
    have "2 ^ Suc i * m < 2 ^ Suc i * 2 ^ (31 - i)"
      using unat_digit [of q] assms by (simp flip: power_add power_Suc)
    then have "m < 2 ^ (31 - i)" by simp
    then have "2 ^ Suc i * Suc m \<le> 2 ^ Suc i * 2 ^ (31 - i)" by (intro mult_le_mono2) simp
    also have "\<dots> = radix" using assms(2) by (simp flip: power_add power_Suc)
    finally have "unat q + 2 ^ Suc i \<le> radix" using assms(1) by simp
    moreover have "(0 :: nat) < 2 ^ i" by simp
    ultimately have "unat q + 2 ^ i < radix" unfolding power_Suc by linarith
    then have "\<not> q + push_bit i 1 < push_bit i 1"
      using add_carry(1) [of q "push_bit i 1"] p by (auto split: if_splits)
    then show ?thesis using add_carry(1) [of q "push_bit i 1"] p by simp
  qed
  ultimately show ?thesis using assms(1) by (simp add: algebra_simps)
qed

lemma unat_drop_bit: "unat (drop_bit n (d :: mpdigit)) = unat d div 2 ^ n"
proof -
  have "unat (drop_bit n d) = drop_bit n (unat d)" by (rule bit_eqI) (auto simp: bit_simps)
  then show ?thesis by (simp only: drop_bit_eq_div)
qed

text \<open>The divisor shifted by \<open>i\<close>, as the two digits \<open>x\<close> and \<open>y\<close> of the loop.\<close>

lemma shifted_divisor:
  fixes d :: mpdigit
  assumes "i < 32"
  shows "unat (push_bit i d) + radix * unat (drop_bit (32 - i) d) = unat d * 2 ^ i"
proof -
  have r: "radix = 2 ^ i * 2 ^ (32 - i)" using assms by (simp flip: power_add)
  have "unat (push_bit i d) = take_bit 32 (push_bit i (unat d))" by (simp add: unsigned_push_bit_eq)
  then have "unat (push_bit i d) = (unat d * 2 ^ i) mod radix"
    by (simp add: take_bit_eq_mod push_bit_eq_mult)
  moreover have "unat (drop_bit (32 - i) d) = unat d div 2 ^ (32 - i)" by (rule unat_drop_bit)
  moreover have "unat d div 2 ^ (32 - i) = (unat d * 2 ^ i) div radix"
    unfolding r by (simp add: mult.commute)
  ultimately show ?thesis by (simp only: mod_mult_div_eq)
qed

lemma borrow_pair:
  fixes r :: nat
  assumes "a + x = h" "h + k = H" "b + y = l + r * k" "y + r * x = D"
  shows "b + r * a + D = l + r * H"
proof -
  have "r * H = r * a + r * x + r * k" using assms(1,2) by (auto simp flip: distrib_left)
  with assms(3,4) show ?thesis by linarith
qed

lemma digdiv_step:
  fixes d hi lo q :: mpdigit
  assumes inv: "digdiv_inv (Suc i) n d hi lo q m" and i: "i < 32"
  defines "x \<equiv> drop_bit (32 - i) d" and "y \<equiv> push_bit i d"
  shows "x > hi \<or> x = hi \<and> y > lo \<Longrightarrow> digdiv_inv i n d hi lo q (2 * m)"
    and "\<not> (x > hi \<or> x = hi \<and> y > lo) \<Longrightarrow>
      digdiv_inv i n d ((if y > lo then hi - 1 else hi) - x) (lo - y) (q OR push_bit i 1) (2 * m + 1)"
proof -
  have dv: "unat y + radix * unat x = unat d * 2 ^ i"
    unfolding x_def y_def by (rule shifted_divisor [OF i])
  have q: "unat q = 2 ^ Suc i * m" and n: "n = unat q * unat d + (unat lo + radix * unat hi)"
    and b: "unat lo + radix * unat hi < 2 * (unat d * 2 ^ i)"
    using inv by (simp_all add: digdiv_inv_def)
  {
    assume "x > hi \<or> x = hi \<and> y > lo"
    then have "unat hi < unat x \<or> unat hi = unat x \<and> unat lo < unat y" by (auto simp: word_less_nat_alt)
    then have "unat lo + radix * unat hi < unat y + radix * unat x"
      using unat_digit [of lo] digit_decides by auto
    then show "digdiv_inv i n d hi lo q (2 * m)"
      using q n dv by (simp add: digdiv_inv_def)
  next
    assume le: "\<not> (x > hi \<or> x = hi \<and> y > lo)"
    define h where "h = (if y > lo then hi - 1 else hi)"
    define k :: nat where "k = (if y > lo then 1 else 0)"
    have "y > lo \<Longrightarrow> x < hi" using le by auto
    then have h: "unat h + k = unat hi" "unat x \<le> unat h"
      using le sub_borrow(1) [of hi 1] by (auto simp: h_def k_def word_less_nat_alt word_le_nat_alt split: if_splits)
    have "unat (h - x) + unat x = unat h"
      using sub_borrow(1) [of h x] h(2) by (simp add: word_less_nat_alt)
    moreover have "unat (lo - y) + unat y = unat lo + radix * k"
      using sub_borrow(1) [of lo y] by (simp add: k_def)
    ultimately have N: "unat (lo - y) + radix * unat (h - x) + unat d * 2 ^ i = unat lo + radix * unat hi"
      using dv h(1) by (intro borrow_pair)
    have q': "unat (q OR push_bit i 1) = 2 ^ i * (2 * m + 1)" by (rule or_bit_add [OF q i])
    have "unat (q OR push_bit i 1) * unat d = unat q * unat d + unat d * 2 ^ i"
      unfolding q' q by (simp add: algebra_simps)
    then show "digdiv_inv i n d ((if y > lo then hi - 1 else hi) - x) (lo - y) (q OR push_bit i 1) (2 * m + 1)"
      using N n b q' unfolding digdiv_inv_def h_def by linarith
  }
qed

lemma mpdigdiv_loop_step:
  assumes "0 < hi"
  shows "mpdigdiv_loop (Suc i) d x hi lo q =
    (if drop_bit 1 x > hi \<or> drop_bit 1 x = hi \<and> push_bit i d > lo then mpdigdiv_loop i d (drop_bit 1 x) hi lo q
     else mpdigdiv_loop i d (drop_bit 1 x) ((if push_bit i d > lo then hi - 1 else hi) - drop_bit 1 x)
       (lo - push_bit i d) (q OR push_bit i 1))"
  using assms unfolding mpdigdiv_loop.simps Let_def by (auto simp only: if_True if_False split: if_split)

lemma mpdigdiv_loop_correct:
  "k \<le> 32 \<Longrightarrow> x = drop_bit (32 - k) d \<Longrightarrow> digdiv_inv k n d hi lo q m \<Longrightarrow>
   \<exists>lo' q'. mpdigdiv_loop k d x hi lo q = (0, lo', q') \<and> n = unat q' * unat d + unat lo'"
proof (induction k arbitrary: x hi lo q m)
  case 0
  then have "unat lo + radix * unat hi < unat d" by (simp add: digdiv_inv_def)
  then have "radix * unat hi < radix" using unat_digit [of d] by linarith
  then have "hi = 0" by (simp add: unat_eq_zero)
  with 0 show ?case by (simp add: digdiv_inv_def)
next
  case (Suc i)
  have "32 - i = 1 + (32 - Suc i)" using Suc.prems(1) by linarith
  then have x: "drop_bit 1 x = drop_bit (32 - i) d" using Suc.prems(2) by (simp only: drop_bit_drop_bit)
  have i: "i < 32" "i \<le> 32" using Suc.prems(1) by simp_all
  note st = digdiv_step [OF Suc.prems(3) i(1)]
  show ?case
  proof (cases "hi = 0")
    case True
    then show ?thesis using Suc.prems(3) by (simp add: digdiv_inv_def)
  next
    case False
    then have "0 < hi" by (simp add: word_neq_0_conv)
    then show ?thesis
      unfolding mpdigdiv_loop_step [OF \<open>0 < hi\<close>] x
      using Suc.IH [OF i(2) refl] st by (cases "drop_bit (32 - i) d > hi \<or> drop_bit (32 - i) d = hi \<and> push_bit i d > lo") (simp_all only: if_True if_False, blast+)
  qed
qed

text \<open>The quotient of two digits by one is exact when it fits a digit.\<close>

lemma mpdigdiv_correct:
  assumes "hi < d"
  shows "unat (mpdigdiv hi lo d) = (unat lo + radix * unat hi) div unat d"
proof -
  define n where "n = unat lo + radix * unat hi"
  have d: "0 < unat d" using assms by (auto simp: word_less_nat_alt)
  have "Suc (unat hi) \<le> unat d" using assms by (simp add: word_less_nat_alt)
  then have "radix * Suc (unat hi) \<le> radix * unat d" by (rule mult_le_mono2)
  then have n: "n < unat d * radix" using unat_digit [of lo] unfolding n_def by simp
  then have "digdiv_inv 32 n d hi lo 0 0" by (simp add: digdiv_inv_def n_def)
  then obtain lo' q where l: "mpdigdiv_loop 32 d d hi lo 0 = (0, lo', q)" "n = unat q * unat d + unat lo'"
    using mpdigdiv_loop_correct [of 32 d d n hi lo 0 0] by auto
  have dv: "n div unat d = unat q + unat lo' div unat d" using l(2) d by simp
  moreover have "n div unat d < radix" using n d by (simp add: less_mult_imp_div_less mult.commute)
  moreover have "mpdigdiv hi lo d = q + lo' div d"
    using assms l(1) by (auto simp: mpdigdiv_def Dbits_def word_less_nat_alt word_le_nat_alt)
  ultimately show ?thesis
    using add_carry(1) [of q "lo' div d"] unat_digit [of "q + lo' div d"]
    by (auto simp: n_def unat_div split: if_splits)
qed

end
