(* ===== verification/Mp_Mul.thy ===== *)
theory Mp_Mul
  imports Mp_Vec
begin

text \<open>
  Products of digit vectors, \<^verbatim>\<open>src/libmp/port/mpmul.c\<close>: the schoolbook loop for short vectors
  and Karatsuba's method for long ones. A store outside the vector it is meant for is \<open>Undef\<close>.
\<close>

section \<open>The routines\<close>

text \<open>Digits stored at an offset of a vector.\<close>

definition vput :: "mpdigit list \<Rightarrow> nat \<Rightarrow> mpdigit list \<Rightarrow> mpdigit list cres" where
  "vput xs off p =
    (if off + length xs \<le> length p then Inr (take off p @ xs @ drop (off + length xs) p) else Inl Undef)"

definition KARATSUBAMIN :: nat where "KARATSUBAMIN = 32"

text \<open>The loop of \<open>mpvecmul\<close>; \<open>d # b\<close> are the digits of the shorter vector from index \<open>i\<close> on.\<close>

fun mpvecmul_loop :: "mpdigit list \<Rightarrow> nat \<Rightarrow> mpdigit list \<Rightarrow> mpdigit list \<Rightarrow> mpdigit list cres" where
  "mpvecmul_loop a i [] p = Inr p"
| "mpvecmul_loop a i (d # b) p =
    (if d \<noteq> 0 then
       cbind (cguard (i + length a < length p)) (\<lambda>_.
         mpvecmul_loop a (i + 1) b (take i p @ mpvecdigmuladd a d (drop i p)))
     else mpvecmul_loop a (i + 1) b p)"

text \<open>
  The work area \<open>t\<close> of \<open>mpkaratsuba\<close> is divided into \<open>u0v0\<close>, \<open>u1v1\<close> and \<open>diffprod\<close>, of \<open>2n + 1\<close>
  digits each, and \<open>res\<close>, of the remaining \<open>4n + 2\<close>. The parts are kept as vectors of their own.
  First come the differences of the halves, in the place of \<open>u0v0\<close> and \<open>u1v1\<close>, and their sign.
\<close>

definition karatsuba_diffs ::
    "mpdigit list \<Rightarrow> mpdigit list \<Rightarrow> mpdigit list \<Rightarrow> mpdigit list \<Rightarrow> mpdigit list \<Rightarrow> (mpdigit list \<times> mpdigit list \<times> int) cres" where
  "karatsuba_diffs u0 u1 v0 v1 area =
    cbind (if mpveccmp u1 u0 < 0
        then cbind (vput (mpvecsub u0 u1) 0 area) (\<lambda>t. Inr (t, -1))
        else cbind (vput (mpvecsub u1 (take (length u1) u0)) 0 area) (\<lambda>t. Inr (t, 1))) (\<lambda>(du, sign).
    if mpveccmp v0 v1 < 0
    then cbind (vput (mpvecsub v1 (take (length v1) v0)) 0 area) (\<lambda>dv. Inr (du, dv, - sign))
    else cbind (vput (mpvecsub v0 v1) 0 area) (\<lambda>dv. Inr (du, dv, sign)))"

text \<open>Then the products are added up in \<open>res\<close>.\<close>

definition mpvecadd_at :: "nat \<Rightarrow> mpdigit list \<Rightarrow> nat \<Rightarrow> mpdigit list \<Rightarrow> mpdigit list cres" where
  "mpvecadd_at off x reslen res = vput (mpvecadd (take (reslen - off) (drop off res)) x) off res"

definition mpvecsub_at :: "nat \<Rightarrow> mpdigit list \<Rightarrow> nat \<Rightarrow> mpdigit list \<Rightarrow> mpdigit list cres" where
  "mpvecsub_at off x reslen res = vput (mpvecsub (take (reslen - off) (drop off res)) x) off res"

definition karatsuba_sum ::
    "nat \<Rightarrow> nat \<Rightarrow> nat \<Rightarrow> nat \<Rightarrow> int \<Rightarrow> mpdigit list \<Rightarrow> mpdigit list \<Rightarrow> mpdigit list \<Rightarrow> mpdigit list cres" where
  "karatsuba_sum n u1len v0len v1len sign u0v0 u1v1 diffprod =
    (let reslen = 4 * n + 1;
         lo = take (n + v0len) u0v0; hi = take (u1len + v1len) u1v1; mid = take (n + v0len) diffprod
     in
     cbind (mpvecadd_at 0 lo reslen (replicate (reslen + 1) 0)) (\<lambda>res.
     cbind (mpvecadd_at n lo reslen res) (\<lambda>res.
     cbind (if v1len > 0
       then cbind (mpvecadd_at n hi reslen res) (mpvecadd_at (2 * n) hi reslen)
       else Inr res) (\<lambda>res.
     if sign < 0 then mpvecsub_at n mid reslen res else mpvecadd_at n mid reslen res))))"

text \<open>Each half is shorter; the measure also counts the step from \<open>mpvecmul\<close> to \<open>mpkaratsuba\<close>.\<close>

fun mul_measure :: "mpdigit list \<times> mpdigit list \<times> mpdigit list + mpdigit list \<times> mpdigit list \<times> mpdigit list \<Rightarrow> nat" where
  "mul_measure (Inl (a, b, p)) = 2 * (length a + length b) + 1"
| "mul_measure (Inr (a, b, p)) = 2 * (length a + length b) + (if length a \<ge> 2 then 0 else 2)"

lemma half_len: "(2 :: nat) \<le> l \<Longrightarrow> l div 2 + l mod 2 < l" "(l :: nat) div 2 + l mod 2 \<le> l" "1 \<le> l \<Longrightarrow> 1 \<le> l div 2 + l mod 2"
  by presburger+

lemma mul_measure_lo:
  assumes "n = length a div 2 + length a mod 2" "v = (if length b > n then n else length b)"
  shows "mul_measure (Inl (take n x, take v y, q)) < mul_measure (Inr (a, b, p))"
proof -
  have "2 \<le> length a \<longrightarrow> n < length a" "n \<le> length a" "v \<le> length b"
    using half_len [of "length a"] assms by auto
  then show ?thesis by auto
qed

lemma mul_measure_hi:
  assumes "n = length a div 2 + length a mod 2" "v = (if length b > n then n else length b)"
  shows "mul_measure (Inl (drop n a, drop v b, q)) < mul_measure (Inr (a, b, p))"
proof -
  have "1 \<le> length a \<longrightarrow> 1 \<le> n" "n \<le> length a" "v \<le> length b"
    using half_len [of "length a"] assms by auto
  then show ?thesis by auto
qed

lemma mul_measure_swap:
  assumes "(a', b') = (if length a < length b then (b, a) else (a, b))" "KARATSUBAMIN \<le> length a'"
  shows "mul_measure (Inr (a', b', p)) < mul_measure (Inl (a, b, p))"
  using assms by (auto simp: KARATSUBAMIN_def split: if_splits)

function
  mpvecmul :: "mpdigit list \<Rightarrow> mpdigit list \<Rightarrow> mpdigit list \<Rightarrow> mpdigit list cres" and
  mpkaratsuba :: "mpdigit list \<Rightarrow> mpdigit list \<Rightarrow> mpdigit list \<Rightarrow> mpdigit list cres" where
  "mpvecmul a b p =
    (let (a, b) = (if length a < length b then (b, a) else (a, b)) in
     if length b = 0 then vput (replicate (length a + length b) 0) 0 p
     else if length a \<ge> KARATSUBAMIN \<and> length b > 1 then mpkaratsuba a b p
     else mpvecmul_loop a 0 b p)"
| "mpkaratsuba a b p =
    (let n = length a div 2 + length a mod 2;
         v0len = (if length b > n then n else length b);
         v1len = (if length b > n then length b - n else 0);
         area = replicate (2 * n + 1) 0
     in
     cbind (karatsuba_diffs (take n a) (drop n a) (take v0len b) (drop v0len b) area) (\<lambda>(du, dv, sign).
     cbind (mpvecmul (take n du) (take v0len dv) area) (\<lambda>diffprod.
     cbind (if v1len > 0 then mpvecmul (drop n a) (drop v0len b) area else Inr area) (\<lambda>u1v1.
     cbind (mpvecmul (take n a) (take v0len b) area) (\<lambda>u0v0.
     cbind (karatsuba_sum n (length a - n) v0len v1len sign u0v0 u1v1 diffprod) (\<lambda>res.
     vput (take (length a + length b) res) 0 p))))))"
  by pat_completeness auto
termination
proof (relation "measure mul_measure", goal_cases)
  case (2 a b p x a' b')
  then show ?case unfolding in_measure by (intro mul_measure_swap) simp_all
qed (simp_all only: in_measure wf_measure mul_measure_lo [OF refl refl] mul_measure_hi [OF refl refl])

declare mpvecmul.simps [simp del] mpkaratsuba.simps [simp del]

section \<open>Vectors of bounded value\<close>

lemma val_split: "k \<le> length p \<Longrightarrow> val p = val (take k p) + radix ^ k * val (drop k p)"
  using val_append [of "take k p" "drop k p"] by simp

lemma val_drop_0: "val p < radix ^ k \<Longrightarrow> val (drop k p) = 0"
proof (cases "k \<le> length p")
  case True
  assume "val p < radix ^ k"
  then show ?thesis using val_split [OF True] by (cases "val (drop k p)") simp_all
qed simp

lemma val_take_eq: "val p < radix ^ k \<Longrightarrow> val (take k p) = val p"
proof (cases "k \<le> length p")
  case True
  assume "val p < radix ^ k"
  then show ?thesis using val_split [OF True] val_drop_0 by simp
qed simp

lemma nth_0_of_val: "val p < radix ^ k \<Longrightarrow> k < length p \<Longrightarrow> p ! k = 0"
  using val_drop_0 [of p k] by (cases "drop k p") (auto simp: Cons_nth_drop_Suc [symmetric] unat_eq_zero)

lemma vput_0:
  assumes "length xs \<le> k"
  shows "\<exists>r. vput xs 0 (replicate k 0) = Inr r \<and> length r = k \<and> val r = val xs"
  using assms by (simp add: vput_def val_append)

section \<open>The schoolbook loop\<close>

lemma partial_product_bound:
  assumes "v < radix ^ (i + l)" "x < radix ^ l" "d < radix"
  shows "v + radix ^ i * (d * x) < radix ^ (Suc i + l)"
proof -
  have "d * x \<le> (radix - 1) * radix ^ l" using assms(2,3) by (intro mult_le_mono) simp_all
  then have "radix ^ i * (d * x) \<le> radix ^ i * ((radix - 1) * radix ^ l)" by (rule mult_le_mono2)
  also have "\<dots> = (radix - 1) * radix ^ (i + l)" by (simp only: power_add mult.left_commute)
  finally have "v + radix ^ i * (d * x) < radix ^ (i + l) + (radix - 1) * radix ^ (i + l)"
    using assms(1) by linarith
  then show ?thesis by simp
qed

lemma val_muladd_at:
  assumes "i + length a < length p" "val p < radix ^ (i + length a)"
  shows "val (take i p @ mpvecdigmuladd a d (drop i p)) = val p + radix ^ i * (unat d * val a)"
proof -
  have "drop i p ! length a = 0" using nth_0_of_val [OF assms(2,1)] assms(1) by simp
  then have "val (mpvecdigmuladd a d (drop i p)) = val (drop i p) + unat d * val a"
    using assms(1) by (intro val_mpvecdigmuladd) simp_all
  then show ?thesis using assms(1) val_split [of i p] by (simp add: val_append distrib_left)
qed

lemma mpvecmul_loop_correct:
  "i + length a + length b \<le> length p \<Longrightarrow> val p < radix ^ (i + length a) \<Longrightarrow>
   \<exists>r. mpvecmul_loop a i b p = Inr r \<and> length r = length p \<and> val r = val p + radix ^ i * (val a * val b)"
proof (induction a i b p rule: mpvecmul_loop.induct)
  case (2 a i d b p)
  define q where "q = (if d \<noteq> 0 then take i p @ mpvecdigmuladd a d (drop i p) else p)"
  have la: "i + length a < length p" using "2.prems"(1) by simp
  have q: "val q = val p + radix ^ i * (unat d * val a)" "length q = length p"
    using val_muladd_at [OF la "2.prems"(2)] la by (auto simp: q_def)
  have "val q < radix ^ (Suc i + length a)"
    unfolding q(1) using "2.prems"(2) val_bound unat_digit by (rule partial_product_bound)
  then have "\<exists>r. mpvecmul_loop a (i + 1) b q = Inr r \<and> length r = length p \<and>
      val r = val q + radix ^ (i + 1) * (val a * val b)"
    using "2.IH" "2.prems"(1) la q(2) by (cases "d = 0") (auto simp: q_def)
  moreover have "mpvecmul_loop a i (d # b) p = mpvecmul_loop a (i + 1) b q"
    using la by (simp add: q_def)
  moreover have "radix ^ i * (unat d * val a) + radix ^ (i + 1) * (val a * val b) = radix ^ i * (val a * val (d # b))"
    by (simp add: algebra_simps)
  ultimately show ?case using q(1) by auto
qed simp

section \<open>Karatsuba's method\<close>

lemma mpvecadd_at_correct:
  assumes "length res = L + 1" "off \<le> L" "length x \<le> L - off" "val res < radix ^ L"
  shows "\<exists>r. mpvecadd_at off x L res = Inr r \<and> length r = L + 1 \<and> val r = val res + radix ^ off * val x"
proof -
  define m where "m = take (L - off) (drop off res)"
  have m: "length m = L - off" using assms(1) by (simp add: m_def)
  have "take L res = take off res @ m"
    using assms(2) by (simp add: m_def take_add [symmetric])
  then have "val res = val (take off res) + radix ^ off * val m"
    using val_take_eq [OF assms(4)] assms(1,2) by (simp add: val_append)
  moreover have "val (mpvecadd m x) = val m + val x" using assms(3) m by (intro val_mpvecadd) simp
  ultimately show ?thesis
    unfolding mpvecadd_at_def m_def [symmetric] vput_def using m assms(1,2)
    by (simp add: val_append distrib_left)
qed

lemma mpvecsub_at_correct:
  assumes "length res = L + 1" "off \<le> L" "length x \<le> L - off" "val res < radix ^ L"
    and "radix ^ off * val x \<le> val res"
  shows "\<exists>r. mpvecsub_at off x L res = Inr r \<and> length r = L + 1 \<and> val r = val res - radix ^ off * val x"
proof -
  define m where "m = take (L - off) (drop off res)"
  have m: "length m = L - off" using assms(1) by (simp add: m_def)
  have "take L res = take off res @ m"
    using assms(2) by (simp add: m_def take_add [symmetric])
  then have v: "val res = val (take off res) + radix ^ off * val m"
    using val_take_eq [OF assms(4)] assms(1,2) by (simp add: val_append)
  have xm: "val x \<le> val m"
  proof (rule ccontr)
    assume "\<not> val x \<le> val m"
    then have "val (take off res) + radix ^ off * val m < 0 + radix ^ off * val x"
      using val_take_bound by (intro digit_decides) simp_all
    with v assms(5) show False by simp
  qed
  then have "val (mpvecsub m x) = val m - val x" using assms(3) m by (intro val_mpvecsub) simp_all
  moreover have "val (drop L res) = 0" by (rule val_drop_0 [OF assms(4)])
  moreover have "radix ^ off * (val m - val x) + radix ^ off * val x = radix ^ off * val m"
    using xm by (simp flip: distrib_left)
  ultimately show ?thesis
    unfolding mpvecsub_at_def m_def [symmetric] vput_def using m v assms(1,2)
    by (simp add: val_append)
qed

lemma val_diff_lo: "length y \<le> length x \<Longrightarrow> val y \<le> val x \<Longrightarrow> int (val (mpvecsub x y)) = int (val x) - int (val y)"
  by (simp add: val_mpvecsub)

lemma val_diff_hi:
  assumes "val x \<le> val y"
  shows "int (val (mpvecsub y (take (length y) x))) = int (val y) - int (val x)"
proof -
  have "val (take (length y) x) = val x"
    using assms val_bound [of y] by (intro val_take_eq) simp
  with assms show ?thesis by (simp add: val_mpvecsub)
qed

lemma vput_area:
  assumes "length xs \<le> l" "l \<le> k"
  shows "\<exists>r. vput xs 0 (replicate k 0) = Inr r \<and> val (take l r) = val xs \<and> l \<le> length r"
proof -
  obtain r where r: "vput xs 0 (replicate k 0) = Inr r" "length r = k" "val r = val xs"
    using vput_0 [of xs k] assms by auto
  have "val xs < radix ^ length xs" by (rule val_bound)
  also have "\<dots> \<le> radix ^ l" using assms(1) by (intro power_increasing) simp_all
  finally have "val (take l r) = val r" using r(3) by (intro val_take_eq) simp
  with r assms(2) show ?thesis by auto
qed

lemma karatsuba_diffs_correct:
  assumes "length u1 \<le> length u0" "length v1 \<le> length v0" "length u0 \<le> k" "length v0 \<le> k"
  shows "\<exists>du dv sign. karatsuba_diffs u0 u1 v0 v1 (replicate k 0) = Inr (du, dv, sign) \<and>
    (sign = 1 \<or> sign = -1) \<and> length u0 \<le> length du \<and> length v0 \<le> length dv \<and>
    sign * (int (val (take (length u0) du)) * int (val (take (length v0) dv))) =
      (int (val u1) - int (val u0)) * (int (val v0) - int (val v1))"
proof -
  define su :: int where "su = (if val u1 < val u0 then -1 else 1)"
  define sv :: int where "sv = (if val v0 < val v1 then -1 else 1)"
  define xu where "xu = (if val u1 < val u0 then mpvecsub u0 u1 else mpvecsub u1 (take (length u1) u0))"
  define xv where "xv = (if val v0 < val v1 then mpvecsub v1 (take (length v1) v0) else mpvecsub v0 v1)"
  have vx: "su * int (val xu) = int (val u1) - int (val u0)" "sv * int (val xv) = int (val v0) - int (val v1)"
    using assms(1,2) val_diff_lo val_diff_hi by (auto simp: su_def sv_def xu_def xv_def)
  have l: "length xu \<le> length u0" "length xv \<le> length v0" using assms(1,2) by (auto simp: xu_def xv_def)
  obtain du where du: "vput xu 0 (replicate k 0) = Inr du" "val (take (length u0) du) = val xu" "length u0 \<le> length du"
    using vput_area [OF l(1) assms(3)] by auto
  obtain dv where dv: "vput xv 0 (replicate k 0) = Inr dv" "val (take (length v0) dv) = val xv" "length v0 \<le> length dv"
    using vput_area [OF l(2) assms(4)] by auto
  have "karatsuba_diffs u0 u1 v0 v1 (replicate k 0) = Inr (du, dv, su * sv)"
    using du(1) dv(1) by (auto simp: karatsuba_diffs_def mpveccmp_correct sgn_if xu_def xv_def su_def sv_def)
  moreover have "su * sv * (int (val xu) * int (val xv)) = (su * int (val xu)) * (sv * int (val xv))" by simp
  then have "su * sv * (int (val xu) * int (val xv)) = (int (val u1) - int (val u0)) * (int (val v0) - int (val v1))"
    unfolding vx .
  moreover have "su * sv = 1 \<or> su * sv = -1" by (simp add: su_def sv_def)
  ultimately show ?thesis using du dv by auto
qed

text \<open>The sums never leave the \<open>4n + 1\<close> digits of the result.\<close>

lemma karatsuba_room:
  fixes L H D :: nat
  assumes "L < radix ^ (2 * n)" "H < radix ^ (2 * n)" "D < radix ^ (2 * n)"
  shows "L + radix ^ n * (L + H + D) + radix ^ (2 * n) * H < radix ^ (4 * n + 1)"
proof -
  define p where "p = radix ^ n"
  have p: "1 \<le> p" by (simp add: p_def)
  have q: "radix ^ (2 * n) = p * p" "radix ^ (4 * n + 1) = radix * (p * p * (p * p))"
    by (simp_all add: p_def power_add mult_2 flip: power_mult power_add) 
  define f where "f = p * p * (p * p)"
  have "p * p * 1 \<le> p * p * (p * p)" "p * (p * p) * 1 \<le> p * (p * p) * p" using p by (intro mult_le_mono2, simp)+
  then have f: "p * p \<le> f" "p * (p * p) \<le> f" by (simp_all add: f_def mult.assoc)
  have "p * (L + H + D) \<le> p * (3 * (p * p))" "p * p * H \<le> p * p * (p * p)"
    using assms unfolding q by (intro mult_le_mono2, linarith)+
  moreover have "p * (3 * (p * p)) = 3 * (p * (p * p))" by simp
  ultimately have "p * (L + H + D) \<le> 3 * f" "p * p * H \<le> f" using f(2) by (linarith, simp only: f_def)
  moreover have "L < f" using assms(1) f(1) unfolding q by linarith
  ultimately have "L + p * (L + H + D) + p * p * H < radix * f" by linarith
  then show ?thesis unfolding q f_def [symmetric] p_def [symmetric] .
qed

lemma karatsuba_sum_correct:
  fixes n u1len v0len v1len :: nat
  defines "l \<equiv> n + v0len" and "h \<equiv> u1len + v1len"
  assumes len: "u1len \<le> n" "v0len \<le> n" "v1len \<le> v0len"
    and vals: "val u0v0 < radix ^ l" "val u1v1 < radix ^ h" "val dp < radix ^ l"
    and s: "sign = 1 \<or> sign = -1" and v1: "v1len = 0 \<Longrightarrow> val u1v1 = 0"
    and tot: "int t = int (val u0v0) + int (radix ^ n) * (int (val u0v0) + int (val u1v1) + sign * int (val dp))
        + int (radix ^ (2 * n)) * int (val u1v1)"
  shows "\<exists>r. karatsuba_sum n u1len v0len v1len sign u0v0 u1v1 dp = Inr r \<and> length r = 4 * n + 2 \<and> val r = t"
proof -
  define reslen where "reslen = 4 * n + 1"
  define lo hi mid where "lo = take l u0v0" and "hi = take h u1v1" and "mid = take l dp"
  have v: "val lo = val u0v0" "val hi = val u1v1" "val mid = val dp"
    unfolding lo_def hi_def mid_def using vals by (simp_all add: val_take_eq)
  have le: "l \<le> 2 * n" "h \<le> 2 * n" using len by (simp_all add: l_def h_def)
  have lens: "length lo \<le> 2 * n" "length hi \<le> 2 * n" "length mid \<le> 2 * n"
    using le by (auto simp: lo_def hi_def mid_def)
  have up: "radix ^ l \<le> radix ^ (2 * n)" "radix ^ h \<le> radix ^ (2 * n)" using le by (intro power_increasing; simp)+
  then have b: "val lo < radix ^ (2 * n)" "val hi < radix ^ (2 * n)" "val mid < radix ^ (2 * n)"
    using vals unfolding v by linarith+
  note room = karatsuba_room [OF b, folded reslen_def, unfolded distrib_left]
  obtain r1 where r1: "mpvecadd_at 0 lo reslen (replicate (reslen + 1) 0) = Inr r1" "length r1 = reslen + 1"
      "val r1 = val lo"
    using mpvecadd_at_correct [of "replicate (reslen + 1) 0" reslen 0 lo] lens by (auto simp: reslen_def)
  obtain r2 where r2: "mpvecadd_at n lo reslen r1 = Inr r2" "length r2 = reslen + 1"
      "val r2 = val lo + radix ^ n * val lo"
    using mpvecadd_at_correct [of r1 reslen n lo] lens r1 room by (auto simp: reslen_def)
  have "\<exists>r3. (if v1len > 0 then cbind (mpvecadd_at n hi reslen r2) (mpvecadd_at (2 * n) hi reslen) else Inr r2) = Inr r3 \<and>
      length r3 = reslen + 1 \<and> val r3 = val lo + radix ^ n * val lo + radix ^ n * val hi + radix ^ (2 * n) * val hi"
  proof (cases "v1len > 0")
    case True
    obtain r where r: "mpvecadd_at n hi reslen r2 = Inr r" "length r = reslen + 1" "val r = val r2 + radix ^ n * val hi"
      using mpvecadd_at_correct [of r2 reslen n hi] lens r2 room by (auto simp: reslen_def)
    then show ?thesis
      using True mpvecadd_at_correct [of r reslen "2 * n" hi] lens r2 room by (auto simp: reslen_def)
  next
    case False
    then show ?thesis using v1 v r2 by simp
  qed
  then obtain r3 where r3: "(if v1len > 0 then cbind (mpvecadd_at n hi reslen r2) (mpvecadd_at (2 * n) hi reslen) else Inr r2) = Inr r3"
      "length r3 = reslen + 1" "val r3 = val lo + radix ^ n * val lo + radix ^ n * val hi + radix ^ (2 * n) * val hi"
    by blast
  have t: "int t = int (val r3) + sign * int (radix ^ n * val mid)"
    unfolding tot r3(3) v by (simp add: algebra_simps)
  have "\<exists>r. (if sign < 0 then mpvecsub_at n mid reslen r3 else mpvecadd_at n mid reslen r3) = Inr r \<and>
      length r = reslen + 1 \<and> val r = t"
    using s
  proof
    assume "sign = 1"
    then show ?thesis using t mpvecadd_at_correct [of r3 reslen n mid] r3 lens room by (auto simp: reslen_def simp flip: of_nat_add of_nat_mult)
  next
    assume sg: "sign = -1"
    then have "int t + int (radix ^ n * val mid) = int (val r3)" using t by simp
    then have "t + radix ^ n * val mid = val r3" by (simp only: of_nat_add [symmetric] of_nat_eq_iff)
    then show ?thesis using sg mpvecsub_at_correct [of r3 reslen n mid] r3 lens room by (auto simp: reslen_def)
  qed
  then show ?thesis
    unfolding karatsuba_sum_def Let_def l_def [symmetric] h_def [symmetric] lo_def [symmetric] hi_def [symmetric]
      mid_def [symmetric] reslen_def [symmetric] using r1(1) r2(1) r3(1) by (simp add: reslen_def)
qed

lemma mpkaratsuba_correct:
  assumes IH: "\<And>x y m. length x + length y < length a + length b \<Longrightarrow> length x + length y \<le> m \<Longrightarrow>
      \<exists>r. mpvecmul x y (replicate m 0) = Inr r \<and> length r = m \<and> val r = val x * val y"
    and len: "2 \<le> length a" "length b \<le> length a" "length a + length b \<le> k"
  shows "\<exists>r. mpkaratsuba a b (replicate k 0) = Inr r \<and> length r = k \<and> val r = val a * val b"
proof -
  define n where "n = length a div 2 + length a mod 2"
  define v0len where "v0len = (if length b > n then n else length b)"
  define v1len where "v1len = (if length b > n then length b - n else 0)"
  define u0 u1 v0 v1 where "u0 = take n a" and "u1 = drop n a" and "v0 = take v0len b" and "v1 = drop v0len b"
  have n: "n < length a" "length a \<le> 2 * n" "1 \<le> n"
    using half_len [of "length a"] len(1) by (simp_all add: n_def) presburger
  have ls: "length u0 = n" "length u1 = length a - n" "length v0 = v0len" "length v1 = v1len" "length u1 \<le> n"
      "v0len \<le> n" "v1len \<le> v0len" "v0len \<le> length b" "length b = v0len + v1len"
    using n len by (auto simp: u0_def u1_def v0_def v1_def v0len_def v1len_def)
  have va: "val a = val u0 + radix ^ n * val u1"
    using n(1) val_append [of u0 u1] ls(1) by (simp add: u0_def u1_def)
  have vb: "val b = val v0 + radix ^ n * val v1"
    using val_append [of v0 v1] ls(3) by (auto simp: v0_def v1_def v0len_def)
  obtain du dv sign where df: "karatsuba_diffs u0 u1 v0 v1 (replicate (2 * n + 1) 0) = Inr (du, dv, sign)"
      "sign = 1 \<or> sign = -1" "n \<le> length du" "v0len \<le> length dv"
      "sign * (int (val (take n du)) * int (val (take v0len dv))) =
        (int (val u1) - int (val u0)) * (int (val v0) - int (val v1))"
    using karatsuba_diffs_correct [of u1 u0 v1 v0 "2 * n + 1"] ls by auto
  obtain dp where dp: "mpvecmul (take n du) (take v0len dv) (replicate (2 * n + 1) 0) = Inr dp"
      "val dp = val (take n du) * val (take v0len dv)"
    using IH [of "take n du" "take v0len dv" "2 * n + 1"] df(3,4) n ls by auto
  obtain hi where hi: "(if v1len > 0 then mpvecmul u1 v1 (replicate (2 * n + 1) 0) else Inr (replicate (2 * n + 1) 0)) = Inr hi"
      "val hi = val u1 * val v1" "v1len = 0 \<Longrightarrow> val hi = 0"
  proof (cases "v1len > 0")
    case True
    have "length u1 + length v1 < length a + length b" "length u1 + length v1 \<le> 2 * n + 1" using n ls by linarith+
    then show ?thesis using IH [of u1 v1 "2 * n + 1"] True that by auto
  next
    case False
    then show ?thesis using ls(4) that by simp
  qed
  obtain lo where lo: "mpvecmul u0 v0 (replicate (2 * n + 1) 0) = Inr lo" "val lo = val u0 * val v0"
    using IH [of u0 v0 "2 * n + 1"] n ls by auto
  have pb: "val x * val y < radix ^ (length x + length y)" for x y
    unfolding power_add using val_bound by (intro mult_strict_mono) simp_all
  obtain r where r: "karatsuba_sum n (length a - n) v0len v1len sign lo hi dp = Inr r" "length r = 4 * n + 2"
      "val r = val a * val b"
  proof -
    have "int (val a * val b) = int (val lo) + int (radix ^ n) * (int (val lo) + int (val hi) + sign * int (val dp))
        + int (radix ^ (2 * n)) * int (val hi)"
      unfolding dp(2) of_nat_mult df(5) hi(2) lo(2) va vb mult_2 power_add
      by (simp add: algebra_simps)
    then show ?thesis
      using karatsuba_sum_correct [of "length a - n" n v0len v1len lo hi dp sign "val a * val b"] that
        pb [of u0 v0] pb [of u1 v1] pb [of "take n du" "take v0len dv"] ls df lo hi dp(2) by auto
  qed
  have "val (take (length a + length b) r) = val a * val b"
    using pb [of a b] r(3) by (simp add: val_take_eq)
  moreover have "length (take (length a + length b) r) \<le> k" using len(3) by simp
  ultimately obtain z where "vput (take (length a + length b) r) 0 (replicate k 0) = Inr z" "length z = k" "val z = val a * val b"
    using vput_0 by metis
  moreover have "mpkaratsuba a b (replicate k 0) = vput (take (length a + length b) r) 0 (replicate k 0)"
    unfolding mpkaratsuba.simps Let_def n_def [symmetric] v0len_def [symmetric] v1len_def [symmetric]
      u0_def [symmetric] u1_def [symmetric] v0_def [symmetric] v1_def [symmetric]
    by (simp only: df(1) dp(1) hi(1) lo(1) r(1) cbind_Inr prod.case)
  ultimately show ?thesis by simp
qed

lemma mpvecmul_correct:
  "length a + length b \<le> k \<Longrightarrow>
   \<exists>r. mpvecmul a b (replicate k 0) = Inr r \<and> length r = k \<and> val r = val a * val b"
proof (induction "length a + length b" arbitrary: a b k rule: less_induct)
  case less
  define x y where "x = (if length a < length b then b else a)" and "y = (if length a < length b then a else b)"
  have xy: "length x + length y = length a + length b" "length y \<le> length x" "val x * val y = val a * val b"
    by (auto simp: x_def y_def)
  have eq: "mpvecmul a b (replicate k 0) =
      (if length y = 0 then vput (replicate (length x + length y) 0) 0 (replicate k 0)
       else if length x \<ge> KARATSUBAMIN \<and> length y > 1 then mpkaratsuba x y (replicate k 0)
       else mpvecmul_loop x 0 y (replicate k 0))"
    by (simp add: mpvecmul.simps x_def y_def)
  have kar: "2 \<le> length x \<Longrightarrow> \<exists>r. mpkaratsuba x y (replicate k 0) = Inr r \<and> length r = k \<and> val r = val x * val y"
    using less xy by (intro mpkaratsuba_correct) auto
  have loop: "\<exists>r. mpvecmul_loop x 0 y (replicate k 0) = Inr r \<and> length r = k \<and> val r = val x * val y"
    using mpvecmul_loop_correct [of 0 x y "replicate k 0"] less.prems xy(1) by simp
  show ?case
  proof (cases "length y = 0")
    case True
    then show ?thesis using vput_0 [of "replicate (length x + length y) 0" k] less.prems xy unfolding eq by auto
  next
    case False
    then show ?thesis using kar loop xy(3) unfolding eq by (auto simp: KARATSUBAMIN_def)
  qed
qed

end
