(* ===== verification/Mp_Int.thy ===== *)
theory Mp_Int
  imports Mp_Mul
begin

text \<open>
  Multiple precision integers, \<^verbatim>\<open>src/libmp/port\<close>: \<open>mpint\<close> objects in a store (\<open>mpaux.c\<close>), and the
  operations that compare, add, subtract and multiply them (\<open>mpcmp.c\<close>, \<open>mpadd.c\<close>, \<open>mpsub.c\<close>,
  \<open>mpmul.c\<close>). Operands and result are addresses, so that the result may be an operand. Numbers of
  bits are unbounded integers. \<open>sysfatal\<close> is an error exit; memory does not run out.
\<close>

section \<open>Objects and the store\<close>

record mpint =
  mp_sign :: int
  mp_size :: nat
  mp_top :: nat
  mp_p :: "mpdigit list"
  MPstatic :: bool

record mpstate =
  objs :: "mpint option list"
  mpmindigits :: nat

type_synonym mpaddr = nat

definition obj :: "mpstate \<Rightarrow> mpaddr \<Rightarrow> mpint option" where
  "obj st a = (if a < length (objs st) then objs st ! a else None)"

definition mpget :: "mpaddr \<Rightarrow> mpstate \<Rightarrow> mpint cres" where
  "mpget a st = (case obj st a of Some B \<Rightarrow> Inr B | None \<Rightarrow> Inl Undef)"

definition mpset :: "mpaddr \<Rightarrow> mpint \<Rightarrow> mpstate \<Rightarrow> mpstate cres" where
  "mpset a B st = (case obj st a of Some _ \<Rightarrow> Inr (st\<lparr>objs := (objs st)[a := Some B]\<rparr>) | None \<Rightarrow> Inl Undef)"

text \<open>\<open>n\<close> digits of a vector, from an offset.\<close>

definition vget :: "nat \<Rightarrow> nat \<Rightarrow> mpdigit list \<Rightarrow> mpdigit list cres" where
  "vget off n p = cbind (cguard (off + n \<le> length p)) (\<lambda>_. Inr (take n (drop off p)))"

text \<open>The constants.\<close>

definition mpzero :: mpaddr where "mpzero = 0"
definition mpone :: mpaddr where "mpone = 1"
definition mptwo :: mpaddr where "mptwo = 2"

definition mpzero_obj :: mpint where
  "mpzero_obj = \<lparr>mp_sign = 1, mp_size = 1, mp_top = 0, mp_p = [0], MPstatic = True\<rparr>"
definition mpone_obj :: mpint where
  "mpone_obj = \<lparr>mp_sign = 1, mp_size = 1, mp_top = 1, mp_p = [1], MPstatic = True\<rparr>"
definition mptwo_obj :: mpint where
  "mptwo_obj = \<lparr>mp_sign = 1, mp_size = 1, mp_top = 1, mp_p = [2], MPstatic = True\<rparr>"

definition mpinit :: mpstate where
  "mpinit = \<lparr>objs = [Some mpzero_obj, Some mpone_obj, Some mptwo_obj], mpmindigits = 33\<rparr>"

section \<open>mpaux.c\<close>

text \<open>\<open>DIGITS\<close>; a negative count is no digits, which \<open>mpbits\<close> treats like 0.\<close>

definition DIGITS :: "int \<Rightarrow> nat" where
  "DIGITS x = nat ((int Dbits - 1 + x) div int Dbits)"

definition mpsetminbits :: "int \<Rightarrow> mpstate \<Rightarrow> mpstate cres" where
  "mpsetminbits n st =
    cbind (craise (n < 0) ''mpsetminbits: n < 0'') (\<lambda>_.
      Inr (st\<lparr>mpmindigits := DIGITS (if n = 0 then 1 else n)\<rparr>))"

definition mpnew :: "int \<Rightarrow> mpstate \<Rightarrow> (mpaddr \<times> mpstate) cres" where
  "mpnew n st =
    cbind (craise (n < 0) ''mpsetminbits: n < 0'') (\<lambda>_.
      let n = max (DIGITS n) (mpmindigits st);
          b = \<lparr>mp_sign = 1, mp_size = n, mp_top = 0, mp_p = replicate n 0, MPstatic = False\<rparr>
      in Inr (length (objs st), st\<lparr>objs := objs st @ [Some b]\<rparr>))"

definition mpbits :: "mpaddr \<Rightarrow> int \<Rightarrow> mpstate \<Rightarrow> mpstate cres" where
  "mpbits b m st =
    cbind (mpget b st) (\<lambda>B.
      let n = DIGITS m in
      if mp_size B \<ge> n then
        if mp_top B \<ge> n then Inr st
        else cbind (vput (replicate (n - mp_top B) 0) (mp_top B) (mp_p B)) (\<lambda>p.
          mpset b (B\<lparr>mp_p := p, mp_top := n\<rparr>) st)
      else cbind (vget 0 (mp_top B) (mp_p B)) (\<lambda>old.
        mpset b (B\<lparr>mp_p := old @ replicate (n - mp_top B) 0, mp_size := n, mp_top := n\<rparr>) st))"

definition mpfree :: "mpaddr \<Rightarrow> mpstate \<Rightarrow> mpstate cres" where
  "mpfree b st =
    cbind (mpget b st) (\<lambda>B.
      cbind (craise (MPstatic B) ''freeing mp constant'') (\<lambda>_.
        Inr (st\<lparr>objs := (objs st)[b := None]\<rparr>)))"

fun mpnorm_loop :: "nat \<Rightarrow> mpdigit list \<Rightarrow> nat" where
  "mpnorm_loop 0 p = 0"
| "mpnorm_loop (Suc i) p = (if p ! i \<noteq> 0 then Suc i else mpnorm_loop i p)"

definition mpnorm :: "mpaddr \<Rightarrow> mpstate \<Rightarrow> mpstate cres" where
  "mpnorm b st =
    cbind (mpget b st) (\<lambda>B.
      cbind (cguard (mp_top B \<le> length (mp_p B))) (\<lambda>_.
        let t = mpnorm_loop (mp_top B) (mp_p B) in
        mpset b (B\<lparr>mp_top := t, mp_sign := if t = 0 then 1 else mp_sign B\<rparr>) st))"

definition mpcopy :: "mpaddr \<Rightarrow> mpstate \<Rightarrow> (mpaddr \<times> mpstate) cres" where
  "mpcopy old st =
    cbind (mpget old st) (\<lambda>B.
      cbind (mpnew (int (Dbits * mp_size B)) st) (\<lambda>(new, st).
        cbind (mpget new st) (\<lambda>N.
        cbind (vget 0 (mp_top B) (mp_p B)) (\<lambda>ds.
        cbind (vput ds 0 (mp_p N)) (\<lambda>p.
        cbind (mpset new (N\<lparr>mp_top := mp_top B, mp_sign := mp_sign B, mp_p := p\<rparr>) st) (\<lambda>st.
          Inr (new, st)))))))"

definition mpassign :: "mpaddr \<Rightarrow> mpaddr \<Rightarrow> mpstate \<Rightarrow> mpstate cres" where
  "mpassign old new st =
    cbind (mpget old st) (\<lambda>B.
      cbind (mpbits new (int (Dbits * mp_top B)) st) (\<lambda>st.
        cbind (mpget old st) (\<lambda>B.
        cbind (mpget new st) (\<lambda>N.
        cbind (vget 0 (mp_top B) (mp_p B)) (\<lambda>ds.
        cbind (vput ds 0 (mp_p N)) (\<lambda>p.
          mpset new (N\<lparr>mp_sign := mp_sign B, mp_top := mp_top B, mp_p := p\<rparr>) st))))))"

fun mpsignif_bit :: "nat \<Rightarrow> mpdigit \<Rightarrow> nat option" where
  "mpsignif_bit 0 d = None"
| "mpsignif_bit (Suc j) d = (if d AND push_bit j 1 \<noteq> 0 then Some (j + 1) else mpsignif_bit j d)"

fun mpsignif_loop :: "nat \<Rightarrow> mpdigit list \<Rightarrow> nat" where
  "mpsignif_loop 0 p = 0"
| "mpsignif_loop (Suc i) p =
    (case mpsignif_bit Dbits (p ! i) of Some k \<Rightarrow> i * Dbits + k | None \<Rightarrow> mpsignif_loop i p)"

definition mpsignif :: "mpaddr \<Rightarrow> mpstate \<Rightarrow> nat cres" where
  "mpsignif n st =
    cbind (mpget n st) (\<lambda>B.
      if mp_top B = 0 then Inr 0
      else cbind (cguard (mp_top B \<le> length (mp_p B))) (\<lambda>_. Inr (mpsignif_loop (mp_top B) (mp_p B))))"

text \<open>\<open>mplowbits0\<close>: \<open>rest\<close> are the digits above the one at hand.\<close>

function mplowbits0_loop :: "mpdigit \<Rightarrow> nat \<Rightarrow> nat \<Rightarrow> mpdigit list \<Rightarrow> nat" where
  "mplowbits0_loop d j k rest =
    (if d AND push_bit j 1 \<noteq> 0 then k
     else if j + 1 \<ge> Dbits then
       (case rest of [] \<Rightarrow> 0 | d' # rest' \<Rightarrow> mplowbits0_loop d' 0 (k + 1) rest')
     else mplowbits0_loop d (j + 1) (k + 1) rest)"
  by pat_completeness auto
termination
  by (relation "measures [\<lambda>(d, j, k, rest). length rest, \<lambda>(d, j, k, rest). Dbits - j]") auto

definition mplowbits0 :: "mpaddr \<Rightarrow> mpstate \<Rightarrow> nat cres" where
  "mplowbits0 n st =
    cbind (mpget n st) (\<lambda>B.
      if mp_top B = 0 then Inr 0
      else cbind (vget 0 (mp_top B) (mp_p B)) (\<lambda>ds. Inr (mplowbits0_loop (hd ds) 0 0 (tl ds))))"

section \<open>mpcmp.c\<close>

definition mpmagcmp :: "mpaddr \<Rightarrow> mpaddr \<Rightarrow> mpstate \<Rightarrow> int cres" where
  "mpmagcmp b1 b2 st =
    cbind (mpget b1 st) (\<lambda>B1.
    cbind (mpget b2 st) (\<lambda>B2.
      let i = int (mp_top B1) - int (mp_top B2) in
      if i \<noteq> 0 then Inr i
      else cbind (vget 0 (mp_top B1) (mp_p B1)) (\<lambda>d1.
        cbind (vget 0 (mp_top B2) (mp_p B2)) (\<lambda>d2. Inr (mpveccmp d1 d2)))))"

definition mpcmp :: "mpaddr \<Rightarrow> mpaddr \<Rightarrow> mpstate \<Rightarrow> int cres" where
  "mpcmp b1 b2 st =
    cbind (mpget b1 st) (\<lambda>B1.
    cbind (mpget b2 st) (\<lambda>B2.
      if mp_sign B1 \<noteq> mp_sign B2 then Inr (mp_sign B1 - mp_sign B2)
      else if mp_sign B1 < 0 then mpmagcmp b2 b1 st
      else mpmagcmp b1 b2 st))"

section \<open>mpadd.c and mpsub.c\<close>

definition mpmagadd :: "mpaddr \<Rightarrow> mpaddr \<Rightarrow> mpaddr \<Rightarrow> mpstate \<Rightarrow> mpstate cres" where
  "mpmagadd b1 b2 res st =
    cbind (mpget b1 st) (\<lambda>B1.
    cbind (mpget b2 st) (\<lambda>B2.
      let (b1, n, b2, m) = (if mp_top B2 > mp_top B1 then (b2, mp_top B2, b1, mp_top B1)
                            else (b1, mp_top B1, b2, mp_top B2)) in
      if n = 0 then mpassign mpzero res st
      else if m = 0 then mpassign b1 res st
      else
        cbind (mpbits res (int ((n + 1) * Dbits)) st) (\<lambda>st.
        cbind (mpget b1 st) (\<lambda>B1.
        cbind (mpget b2 st) (\<lambda>B2.
        cbind (mpget res st) (\<lambda>S.
        cbind (vget 0 n (mp_p B1)) (\<lambda>d1.
        cbind (vget 0 m (mp_p B2)) (\<lambda>d2.
        cbind (vput (mpvecadd d1 d2) 0 (mp_p S)) (\<lambda>p.
        cbind (mpset res (S\<lparr>mp_top := n + 1, mp_p := p, mp_sign := 1\<rparr>) st) (\<lambda>st.
          mpnorm res st))))))))))"

definition mpmagsub :: "mpaddr \<Rightarrow> mpaddr \<Rightarrow> mpaddr \<Rightarrow> mpstate \<Rightarrow> mpstate cres" where
  "mpmagsub b1 b2 diff st =
    cbind (mpmagcmp b1 b2 st) (\<lambda>c.
      let (sign, b1, b2) = (if c < 0 then (-1, b2, b1) else (1, b1, b2)) in
      cbind (mpget b1 st) (\<lambda>B1.
      cbind (mpget b2 st) (\<lambda>B2.
        let n = mp_top B1; m = mp_top B2 in
        if m = 0 then
          cbind (mpassign b1 diff st) (\<lambda>st.
          cbind (mpget diff st) (\<lambda>D. mpset diff (D\<lparr>mp_sign := sign\<rparr>) st))
        else
          cbind (mpbits diff (int (n * Dbits)) st) (\<lambda>st.
          cbind (mpget b1 st) (\<lambda>B1.
          cbind (mpget b2 st) (\<lambda>B2.
          cbind (mpget diff st) (\<lambda>D.
          cbind (vget 0 n (mp_p B1)) (\<lambda>d1.
          cbind (vget 0 m (mp_p B2)) (\<lambda>d2.
          cbind (vput (mpvecsub d1 d2) 0 (mp_p D)) (\<lambda>p.
          cbind (mpset diff (D\<lparr>mp_sign := sign, mp_top := n, mp_p := p\<rparr>) st) (\<lambda>st.
            mpnorm diff st)))))))))))"

definition mpadd :: "mpaddr \<Rightarrow> mpaddr \<Rightarrow> mpaddr \<Rightarrow> mpstate \<Rightarrow> mpstate cres" where
  "mpadd b1 b2 res st =
    cbind (mpget b1 st) (\<lambda>B1.
    cbind (mpget b2 st) (\<lambda>B2.
      if mp_sign B1 \<noteq> mp_sign B2 then
        if mp_sign B1 < 0 then mpmagsub b2 b1 res st else mpmagsub b1 b2 res st
      else
        let sign = mp_sign B1 in
        cbind (mpmagadd b1 b2 res st) (\<lambda>st.
        cbind (mpget res st) (\<lambda>S.
          if mp_top S \<noteq> 0 then mpset res (S\<lparr>mp_sign := sign\<rparr>) st else Inr st))))"

definition mpsub :: "mpaddr \<Rightarrow> mpaddr \<Rightarrow> mpaddr \<Rightarrow> mpstate \<Rightarrow> mpstate cres" where
  "mpsub b1 b2 diff st =
    cbind (mpget b1 st) (\<lambda>B1.
    cbind (mpget b2 st) (\<lambda>B2.
      let sign = mp_sign B1 in
      if mp_sign B1 \<noteq> mp_sign B2 then
        cbind (mpmagadd b1 b2 diff st) (\<lambda>st.
        cbind (mpget diff st) (\<lambda>D. mpset diff (D\<lparr>mp_sign := sign\<rparr>) st))
      else
        cbind (mpmagsub b1 b2 diff st) (\<lambda>st.
        cbind (mpget diff st) (\<lambda>D.
          if mp_top D \<noteq> 0 then mpset diff (D\<lparr>mp_sign := mp_sign D * sign\<rparr>) st else Inr st))))"

section \<open>mpmul.c\<close>

definition mpmul_into :: "mpaddr \<Rightarrow> mpaddr \<Rightarrow> mpaddr \<Rightarrow> mpstate \<Rightarrow> mpstate cres" where
  "mpmul_into b1 b2 prd st =
    cbind (mpget prd st) (\<lambda>P.
    cbind (mpset prd (P\<lparr>mp_top := 0\<rparr>) st) (\<lambda>st.
    cbind (mpget b1 st) (\<lambda>B1.
    cbind (mpget b2 st) (\<lambda>B2.
    cbind (mpbits prd (int ((mp_top B1 + mp_top B2 + 1) * Dbits)) st) (\<lambda>st.
    cbind (mpget prd st) (\<lambda>P.
    cbind (vget 0 (mp_top B1) (mp_p B1)) (\<lambda>d1.
    cbind (vget 0 (mp_top B2) (mp_p B2)) (\<lambda>d2.
    cbind (vget 0 (mp_top B1 + mp_top B2 + 1) (mp_p P)) (\<lambda>room.
    cbind (mpvecmul d1 d2 room) (\<lambda>ds.
    cbind (vput ds 0 (mp_p P)) (\<lambda>p.
    cbind (mpset prd (P\<lparr>mp_top := mp_top B1 + mp_top B2 + 1, mp_sign := mp_sign B1 * mp_sign B2, mp_p := p\<rparr>) st) (\<lambda>st.
      mpnorm prd st))))))))))))"

definition mpmul :: "mpaddr \<Rightarrow> mpaddr \<Rightarrow> mpaddr \<Rightarrow> mpstate \<Rightarrow> mpstate cres" where
  "mpmul b1 b2 prd st =
    (if prd = b1 \<or> prd = b2 then
       cbind (mpnew 0 st) (\<lambda>(tmp, st).
       cbind (mpmul_into b1 b2 tmp st) (\<lambda>st.
       cbind (mpassign tmp prd st) (\<lambda>st.
         mpfree tmp st)))
     else mpmul_into b1 b2 prd st)"

end
