(* ===== verification/Mp_Arith.thy ===== *)
theory Mp_Arith
  imports Mp_Int
begin

text \<open>
  The integers that \<open>mpint\<close> objects stand for, and what the operations of \<open>Mp_Int\<close> do to them:
  comparison, addition, subtraction and multiplication compute the integer result, whether or not the
  result object is an operand, touch no other object, and leave the result in canonical form.
\<close>

section \<open>Well-formed objects and their values\<close>

definition digits :: "mpint \<Rightarrow> mpdigit list" where
  "digits B = take (mp_top B) (mp_p B)"

definition mag :: "mpint \<Rightarrow> nat" where "mag B = val (digits B)"

definition mpval :: "mpint \<Rightarrow> int" where "mpval B = mp_sign B * int (mag B)"

definition mp_ok :: "mpint \<Rightarrow> bool" where
  "mp_ok B \<longleftrightarrow> (mp_sign B = 1 \<or> mp_sign B = -1) \<and> mp_size B = length (mp_p B) \<and> mp_top B \<le> mp_size B \<and> 1 \<le> mp_size B"

text \<open>No leading zeros, and zero is positive.\<close>

definition canon_digits :: "mpdigit list \<Rightarrow> bool" where
  "canon_digits ds \<longleftrightarrow> ds = [] \<or> last ds \<noteq> 0"

definition mp_canon :: "mpint \<Rightarrow> bool" where
  "mp_canon B \<longleftrightarrow> mp_ok B \<and> canon_digits (digits B) \<and> (mp_top B = 0 \<longrightarrow> mp_sign B = 1)"

text \<open>The result of an operation: one object is replaced, all others stay.\<close>

definition updated :: "mpstate \<Rightarrow> mpaddr \<Rightarrow> mpint \<Rightarrow> mpstate \<Rightarrow> bool" where
  "updated st b B st' \<longleftrightarrow> obj st' = (obj st)(b \<mapsto> B) \<and> mpmindigits st' = mpmindigits st"

named_theorems mp_simps \<open>accesses to the store\<close>

lemma cpost_mpget [mp_simps]: "cpost (mpget a st) E Q \<longleftrightarrow> (\<exists>B. obj st a = Some B \<and> Q B)"
  by (simp add: mpget_def split: option.splits)

lemma mpget_obj: "obj st a = Some B \<Longrightarrow> mpget a st = Inr B"
  by (simp add: mpget_def)

lemma cpost_seq: "cpost m E P \<Longrightarrow> (\<And>x. P x \<Longrightarrow> cpost (f x) E Q) \<Longrightarrow> cpost (cbind m f) E Q"
  unfolding cpost_cbind by (erule cpost_mono) auto

lemma obj_mpset: "obj st a = Some A \<Longrightarrow> updated st a B (st\<lparr>objs := (objs st)[a := Some B]\<rparr>)"
  by (auto simp: updated_def obj_def fun_eq_iff split: if_splits)

lemma cpost_mpset: "obj st a = Some A \<Longrightarrow> (\<And>st'. updated st a B st' \<Longrightarrow> Q st') \<Longrightarrow> cpost (mpset a B st) E Q"
  using obj_mpset by (simp add: mpset_def)

lemma cpost_vput [mp_simps]:
  "cpost (vput xs off p) E Q \<longleftrightarrow> off + length xs \<le> length p \<and> Q (take off p @ xs @ drop (off + length xs) p)"
  by (simp add: vput_def)

lemma cpost_vget [mp_simps]: "cpost (vget off n p) E Q \<longleftrightarrow> off + n \<le> length p \<and> Q (take n (drop off p))"
  by (simp add: vget_def)

lemma cpost_craise [simp]: "cpost (craise b m) E Q \<longleftrightarrow> (if b then m \<in> E else Q ())"
  by (simp add: craise_def)

lemma updated_obj [simp]: "updated st b B st' \<Longrightarrow> obj st' b = Some B"
  "updated st b B st' \<Longrightarrow> c \<noteq> b \<Longrightarrow> obj st' c = obj st c"
  by (auto simp: updated_def)

lemma updated_trans: "updated st b B st' \<Longrightarrow> updated st' b C st'' \<Longrightarrow> updated st b C st''"
  by (auto simp: updated_def)

lemma length_digits: "mp_ok B \<Longrightarrow> length (digits B) = mp_top B"
  by (simp add: digits_def mp_ok_def)

lemma vget_digits: "mp_ok B \<Longrightarrow> vget 0 (mp_top B) (mp_p B) = Inr (digits B)"
  by (simp add: vget_def digits_def mp_ok_def)

lemma mag_0_iff: "mp_canon B \<Longrightarrow> mag B = 0 \<longleftrightarrow> mp_top B = 0"
proof -
  have "canon_digits ds \<Longrightarrow> val ds = 0 \<longleftrightarrow> ds = []" for ds
    by (cases ds rule: rev_cases) (auto simp: canon_digits_def val_append unat_eq_zero)
  then show "mp_canon B \<Longrightarrow> mag B = 0 \<longleftrightarrow> mp_top B = 0"
    using length_digits [of B] by (auto simp: mp_canon_def mag_def)
qed

lemma canon_digits_less:
  assumes "canon_digits es" "length ds < length es"
  shows "val ds < val es"
proof -
  obtain xs x where es: "es = xs @ [x]" using assms(2) by (cases es rule: rev_cases) auto
  then have "0 < unat x" using assms(1) by (auto simp: canon_digits_def unat_gt_0)
  moreover have "val ds < radix ^ length xs"
    using assms(2) es by (intro order_less_le_trans [OF val_bound power_increasing]) simp_all
  ultimately have "val ds + radix ^ length xs * 0 < val xs + radix ^ length xs * unat x"
    by (rule digit_decides)
  then show ?thesis by (simp add: es val_append)
qed

section \<open>mpaux.c\<close>

lemma DIGITS_nat [simp]: "DIGITS (int (n * Dbits)) = n" "DIGITS (int (Dbits * n)) = n"
  by (simp_all add: DIGITS_def Dbits_def)

lemma mpbits_post:
  assumes "obj st b = Some B" "mp_ok B"
  shows "cpost (mpbits b m st) E (\<lambda>st'. \<exists>B'. updated st b B' st' \<and> mp_ok B' \<and> mp_sign B' = mp_sign B \<and>
    MPstatic B' = MPstatic B \<and> mp_top B' = max (mp_top B) (DIGITS m) \<and>
    digits B' = digits B @ replicate (DIGITS m - mp_top B) 0 \<and> mp_size B \<le> mp_size B')"
proof -
  define n where "n = DIGITS m"
  have ok: "mp_size B = length (mp_p B)" "mp_top B \<le> length (mp_p B)" using assms(2) by (auto simp: mp_ok_def)
  consider "n \<le> mp_top B" | "mp_top B < n" "n \<le> mp_size B" | "mp_size B < n" by linarith
  then show ?thesis
  proof cases
    case 1
    have "updated st b B st" using assms(1) by (auto simp: updated_def)
    then show ?thesis using assms 1 ok by (auto simp: mpbits_def Let_def n_def mp_simps)
  next
    case 2
    then show ?thesis using assms ok
      by (auto simp: mpbits_def Let_def n_def mp_simps digits_def mp_ok_def intro!: cpost_mpset [OF assms(1)] exI)
  next
    case 3
    then show ?thesis using assms ok
      by (auto simp: mpbits_def Let_def n_def mp_simps digits_def mp_ok_def intro!: cpost_mpset [OF assms(1)] exI)
  qed
qed

lemma mpnorm_loop_le: "mpnorm_loop n p \<le> n"
  by (induction n p rule: mpnorm_loop.induct) auto

lemma mpnorm_loop_correct:
  "n \<le> length p \<Longrightarrow> canon_digits (take (mpnorm_loop n p) p) \<and> val (take (mpnorm_loop n p) p) = val (take n p)"
  by (induction n p rule: mpnorm_loop.induct) (auto simp: canon_digits_def take_Suc_conv_app_nth val_append)

lemma mpnorm_post:
  assumes "obj st b = Some B" "mp_ok B"
  shows "cpost (mpnorm b st) E (\<lambda>st'. \<exists>B'. updated st b B' st' \<and> mp_canon B' \<and> mag B' = mag B \<and>
    mp_sign B' = (if mag B = 0 then 1 else mp_sign B) \<and> MPstatic B' = MPstatic B)"
proof -
  define t where "t = mpnorm_loop (mp_top B) (mp_p B)"
  define B' where "B' = B\<lparr>mp_top := t, mp_sign := if t = 0 then 1 else mp_sign B\<rparr>"
  have ok: "mp_top B \<le> length (mp_p B)" using assms(2) by (simp add: mp_ok_def)
  have c: "mp_canon B'" "mag B' = mag B"
    using mpnorm_loop_correct [OF ok] mpnorm_loop_le [of "mp_top B" "mp_p B"] assms(2)
    by (auto simp: B'_def mp_canon_def mp_ok_def digits_def mag_def t_def)
  then have "t = 0 \<longleftrightarrow> mag B = 0" using mag_0_iff [OF c(1)] by (simp add: B'_def)
  then show ?thesis
    unfolding mpnorm_def Let_def using assms ok c
    by (auto simp: mp_simps B'_def t_def intro!: cpost_mpset [OF assms(1)] exI [of _ B'])
qed

text \<open>A new object is zero, at an address not in use; freeing it restores the store.\<close>

lemma mpnew_post:
  assumes "0 \<le> n" "1 \<le> mpmindigits st"
  shows "cpost (mpnew n st) E (\<lambda>(b, st'). obj st b = None \<and> (\<exists>B. updated st b B st' \<and> mp_canon B \<and> mag B = 0 \<and>
    mp_sign B = 1 \<and> mp_top B = 0 \<and> \<not> MPstatic B \<and> DIGITS n \<le> mp_size B \<and> mp_p B = replicate (mp_size B) 0))"
  using assms by (auto simp: mpnew_def Let_def obj_def updated_def fun_eq_iff nth_append mp_canon_def mp_ok_def
      digits_def canon_digits_def mag_def)

lemma mpfree_post:
  assumes "obj st b = Some B" "\<not> MPstatic B"
  shows "cpost (mpfree b st) E (\<lambda>st'. obj st' = (obj st)(b := None) \<and> mpmindigits st' = mpmindigits st)"
  using assms by (auto simp: mpfree_def mp_simps obj_def fun_eq_iff nth_list_update split: if_splits)

lemma mpassign_post:
  assumes "obj st old = Some A" "obj st new = Some N" "mp_ok A" "mp_ok N"
  shows "cpost (mpassign old new st) E (\<lambda>st'. \<exists>N'. updated st new N' st' \<and> mp_ok N' \<and> digits N' = digits A \<and>
    mp_sign N' = mp_sign A \<and> mp_top N' = mp_top A \<and> MPstatic N' = MPstatic N \<and> mp_size N \<le> mp_size N')"
proof -
  let ?Q = "\<lambda>st'. \<exists>N'. updated st new N' st' \<and> mp_ok N' \<and> digits N' = digits A \<and>
    mp_sign N' = mp_sign A \<and> mp_top N' = mp_top A \<and> MPstatic N' = MPstatic N \<and> mp_size N \<le> mp_size N'"
  let ?rest = "\<lambda>st. cbind (mpget old st) (\<lambda>B. cbind (mpget new st) (\<lambda>N. cbind (vget 0 (mp_top B) (mp_p B)) (\<lambda>ds.
    cbind (vput ds 0 (mp_p N)) (\<lambda>p. mpset new (N\<lparr>mp_sign := mp_sign B, mp_top := mp_top B, mp_p := p\<rparr>) st))))"
  have rest: "cpost (?rest st1) E ?Q"
    if u: "updated st new N1 st1" and N1: "mp_ok N1" "MPstatic N1 = MPstatic N" "mp_sign N1 = mp_sign N"
      "mp_top N1 = max (mp_top N) (mp_top A)" "digits N1 = digits N @ replicate (mp_top A - mp_top N) 0"
      "mp_size N \<le> mp_size N1" for st1 N1
  proof -
    define A1 where "A1 = (if old = new then N1 else A)"
    have A1: "obj st1 old = Some A1" "digits A1 = digits A" "mp_top A1 = mp_top A" "mp_sign A1 = mp_sign A" "mp_ok A1"
      using u N1 assms by (auto simp: A1_def)
    have l: "mp_top A \<le> length (mp_p A1)" "mp_top A \<le> length (mp_p N1)"
      using A1 N1 by (auto simp: mp_ok_def)
    define N2 where "N2 = N1\<lparr>mp_sign := mp_sign A, mp_top := mp_top A, mp_p := digits A @ drop (mp_top A) (mp_p N1)\<rparr>"
    have d: "take (mp_top A) (mp_p A1) = digits A" using A1(2,3) by (simp add: digits_def)
    have "length (digits A) = mp_top A" using assms(3) by (rule length_digits)
    then have "mp_ok N2" "digits N2 = digits A" "mp_sign N2 = mp_sign A" "mp_top N2 = mp_top A" "MPstatic N2 = MPstatic N"
        "mp_size N \<le> mp_size N2"
      using N1(1,2,6) assms(3) l(2) by (auto simp: N2_def mp_ok_def digits_def)
    moreover have "cpost (mpset new N2 st1) E (\<lambda>st'. updated st new N2 st')"
      by (rule cpost_mpset [OF updated_obj(1) [OF u]]) (rule updated_trans [OF u])
    ultimately have "cpost (mpset new N2 st1) E ?Q" by (auto elim: cpost_mono)
    then show ?thesis
      using A1 l u d by (auto simp: mp_simps N2_def)
  qed
  have "mpassign old new st = cbind (mpbits new (int (Dbits * mp_top A)) st) ?rest"
    unfolding mpassign_def by (simp only: mpget_obj [OF assms(1)] cbind_Inr)
  then show ?thesis
    by (simp only:) (rule cpost_seq [OF mpbits_post [OF assms(2,4)]], elim exE conjE, rule rest, simp_all only: DIGITS_nat)
qed

text \<open>Making room in the result does not disturb the digits of an operand, even of the result itself.\<close>

lemma operand_kept:
  assumes "updated st r S' st1" "mp_ok S'" "digits S' = digits S @ zs" "obj st r = Some S" "mp_ok S"
    and "obj st x = Some X" "mp_ok X"
  shows "\<exists>X'. obj st1 x = Some X' \<and> vget 0 (mp_top X) (mp_p X') = Inr (digits X)"
proof (cases "x = r")
  case True
  then have X: "X = S" using assms by simp
  have "length (digits S') = mp_top S + length zs" using assms(3) length_digits [OF assms(5)] by simp
  then have "mp_top S \<le> mp_top S'" using length_digits [OF assms(2)] by simp
  then have "take (mp_top S) (mp_p S') = take (mp_top S) (digits S')" by (simp add: digits_def min_def)
  then have "take (mp_top S) (mp_p S') = digits S" using assms(3) length_digits [OF assms(5)] by simp
  then show ?thesis using True X assms \<open>mp_top S \<le> mp_top S'\<close> by (auto simp: vget_def mp_ok_def)
next
  case False
  then show ?thesis using assms by (auto simp: vget_def mp_ok_def digits_def)
qed

text \<open>Storing a vector of the new top, then normalising.\<close>

lemma store_norm_post:
  assumes "updated st r S' st1" "mp_ok S'" "length ds \<le> mp_size S'" "ds \<noteq> []" "sg = 1 \<or> sg = -1"
  shows "cpost (cbind (vput ds 0 (mp_p S')) (\<lambda>p. cbind (mpset r (S'\<lparr>mp_sign := sg, mp_top := length ds, mp_p := p\<rparr>) st1) (\<lambda>st. mpnorm r st))) E
    (\<lambda>st'. \<exists>R. updated st r R st' \<and> mp_canon R \<and> mag R = val ds \<and>
      mp_sign R = (if val ds = 0 then 1 else sg) \<and> MPstatic R = MPstatic S')"
proof -
  define T where "T = S'\<lparr>mp_sign := sg, mp_top := length ds, mp_p := ds @ drop (length ds) (mp_p S')\<rparr>"
  have T: "mp_ok T" "mag T = val ds" "mp_sign T = sg" "MPstatic T = MPstatic S'"
    using assms by (auto simp: T_def mp_ok_def mag_def digits_def)
  have "cpost (mpset r T st1) E (\<lambda>st2. updated st r T st2)"
    by (rule cpost_mpset [OF updated_obj(1) [OF assms(1)]]) (rule updated_trans [OF assms(1)])
  then have "cpost (cbind (mpset r T st1) (\<lambda>st. mpnorm r st)) E (\<lambda>st'. \<exists>R. updated st r R st' \<and> mp_canon R \<and> mag R = val ds \<and>
      mp_sign R = (if val ds = 0 then 1 else sg) \<and> MPstatic R = MPstatic S')"
  proof (rule cpost_seq)
    fix st2
    assume u: "updated st r T st2"
    show "cpost (mpnorm r st2) E (\<lambda>st'. \<exists>R. updated st r R st' \<and> mp_canon R \<and> mag R = val ds \<and>
      mp_sign R = (if val ds = 0 then 1 else sg) \<and> MPstatic R = MPstatic S')"
      by (rule cpost_mono [OF mpnorm_post [OF updated_obj(1) [OF u] T(1)] subset_refl])
        (unfold T, use updated_trans [OF u] in blast)
  qed
  moreover have "vput ds 0 (mp_p S') = Inr (ds @ drop (length ds) (mp_p S'))"
    using assms(2,3) by (simp add: vput_def mp_ok_def)
  ultimately show ?thesis by (simp only: cbind_Inr T_def)
qed

section \<open>Comparison\<close>

lemma mpmagcmp_post:
  assumes "obj st b1 = Some B1" "obj st b2 = Some B2" "mp_canon B1" "mp_canon B2"
  shows "\<exists>c. mpmagcmp b1 b2 st = Inr c \<and> sgn c = sgn (int (mag B1) - int (mag B2))"
proof -
  have ok: "mp_ok B1" "mp_ok B2" "canon_digits (digits B1)" "canon_digits (digits B2)"
    using assms(3,4) by (auto simp: mp_canon_def)
  note l = length_digits [OF ok(1)] length_digits [OF ok(2)]
  have "mp_top B1 < mp_top B2 \<Longrightarrow> mag B1 < mag B2" "mp_top B2 < mp_top B1 \<Longrightarrow> mag B2 < mag B1"
    unfolding mag_def using canon_digits_less ok l by simp_all
  then show ?thesis
    using assms(1,2) vget_digits [OF ok(1)] vget_digits [OF ok(2)]
    by (intro exI [of _ "if mp_top B1 = mp_top B2 then mpveccmp (digits B1) (digits B2) else int (mp_top B1) - int (mp_top B2)"])
      (cases "mp_top B1" "mp_top B2" rule: linorder_cases,
        simp_all add: mpmagcmp_def mpget_def Let_def mpveccmp_correct sgn_if mag_def)
qed

lemma mpcmp_post:
  assumes "obj st b1 = Some B1" "obj st b2 = Some B2" "mp_canon B1" "mp_canon B2"
  shows "\<exists>c. mpcmp b1 b2 st = Inr c \<and> sgn c = sgn (mpval B1 - mpval B2)"
proof -
  obtain c12 c21 where c: "mpmagcmp b1 b2 st = Inr c12" "sgn c12 = sgn (int (mag B1) - int (mag B2))"
      "mpmagcmp b2 b1 st = Inr c21" "sgn c21 = sgn (int (mag B2) - int (mag B1))"
    using mpmagcmp_post [OF assms] mpmagcmp_post [OF assms(2,1,4,3)] by blast
  have s: "mp_sign B1 = 1 \<or> mp_sign B1 = -1 \<and> mag B1 \<noteq> 0" "mp_sign B2 = 1 \<or> mp_sign B2 = -1 \<and> mag B2 \<noteq> 0"
    using assms(3,4) mag_0_iff by (auto simp: mp_canon_def mp_ok_def)
  from s show ?thesis
    using c assms(1,2) by (auto simp: mpcmp_def mpget_def mpval_def sgn_if split: if_splits)
qed

section \<open>Addition and subtraction\<close>

text \<open>What the operations need of the store: the constants, and no new object of zero digits.\<close>

definition mp_store :: "mpstate \<Rightarrow> bool" where
  "mp_store st \<longleftrightarrow> obj st mpzero = Some mpzero_obj \<and> obj st mpone = Some mpone_obj \<and>
    obj st mptwo = Some mptwo_obj \<and> 1 \<le> mpmindigits st"

lemma mp_consts [simp]: "mp_canon mpzero_obj" "mpval mpzero_obj = 0" "mag mpzero_obj = 0"
    "mp_canon mpone_obj" "mpval mpone_obj = 1" "mag mpone_obj = 1"
    "mp_canon mptwo_obj" "mpval mptwo_obj = 2"
  by (simp_all add: mpzero_obj_def mpone_obj_def mptwo_obj_def mp_canon_def mp_ok_def digits_def canon_digits_def
      mpval_def mag_def)

lemma mp_canon_ok: "mp_canon B \<Longrightarrow> mp_ok B"
  by (simp add: mp_canon_def)

lemma canon_assigned:
  "mp_canon A \<Longrightarrow> mp_ok N \<Longrightarrow> digits N = digits A \<Longrightarrow> mp_sign N = mp_sign A \<Longrightarrow> mp_top N = mp_top A \<Longrightarrow>
   mp_canon N \<and> mag N = mag A \<and> mpval N = mpval A"
  by (auto simp: mp_canon_def mag_def mpval_def)

text \<open>\<open>mpassign\<close> copies the number.\<close>

lemma mpassign_canon:
  assumes "obj st old = Some A" "obj st new = Some N" "mp_canon A" "mp_ok N"
  shows "cpost (mpassign old new st) E (\<lambda>st'. \<exists>N'. updated st new N' st' \<and> mp_canon N' \<and> mag N' = mag A \<and>
    mp_sign N' = mp_sign A \<and> MPstatic N' = MPstatic N \<and> mp_size N \<le> mp_size N')"
  by (rule cpost_mono [OF mpassign_post [OF assms(1,2) mp_canon_ok [OF assms(3)] assms(4)] subset_refl])
    (use canon_assigned [OF assms(3)] in blast)

lemma magadd_step:
  assumes "obj st b1 = Some B1" "obj st b2 = Some B2" "obj st r = Some S" "mp_ok B1" "mp_ok B2" "mp_ok S"
    and "mp_top B2 \<le> mp_top B1"
  shows "cpost (cbind (mpbits r (int ((mp_top B1 + 1) * Dbits)) st) (\<lambda>st.
        cbind (mpget b1 st) (\<lambda>B1'. cbind (mpget b2 st) (\<lambda>B2'. cbind (mpget r st) (\<lambda>S.
        cbind (vget 0 (mp_top B1) (mp_p B1')) (\<lambda>d1. cbind (vget 0 (mp_top B2) (mp_p B2')) (\<lambda>d2.
        cbind (vput (mpvecadd d1 d2) 0 (mp_p S)) (\<lambda>p.
        cbind (mpset r (S\<lparr>mp_top := mp_top B1 + 1, mp_p := p, mp_sign := 1\<rparr>) st) (\<lambda>st. mpnorm r st))))))))) E
    (\<lambda>st'. \<exists>R. updated st r R st' \<and> mp_canon R \<and> mag R = mag B1 + mag B2 \<and> MPstatic R = MPstatic S)"
proof (rule cpost_seq [OF mpbits_post [OF assms(3,6)]], elim exE conjE)
  fix st1 S'
  assume u: "updated st r S' st1" and S': "mp_ok S'" "MPstatic S' = MPstatic S"
    "mp_top S' = max (mp_top S) (DIGITS (int ((mp_top B1 + 1) * Dbits)))"
    "digits S' = digits S @ replicate (DIGITS (int ((mp_top B1 + 1) * Dbits)) - mp_top S) 0"
  note kept = operand_kept [OF u S'(1,4) assms(3,6)]
  obtain X1 where X1: "obj st1 b1 = Some X1" "vget 0 (mp_top B1) (mp_p X1) = Inr (digits B1)"
    using kept [OF assms(1,4)] by blast
  obtain X2 where X2: "obj st1 b2 = Some X2" "vget 0 (mp_top B2) (mp_p X2) = Inr (digits B2)"
    using kept [OF assms(2,5)] by blast
  define ds where "ds = mpvecadd (digits B1) (digits B2)"
  have ds: "length ds = mp_top B1 + 1" "val ds = mag B1 + mag B2" "ds \<noteq> []"
    using assms(7) length_digits [OF assms(4)] length_digits [OF assms(5)]
    by (auto simp: ds_def mag_def val_mpvecadd simp flip: length_0_conv)
  have sz: "length ds \<le> mp_size S'" using S'(1) S'(3) [unfolded DIGITS_nat] ds(1) by (simp add: mp_ok_def)
  have upd: "S'\<lparr>mp_top := mp_top B1 + 1, mp_p := p, mp_sign := 1\<rparr> = S'\<lparr>mp_sign := 1, mp_top := length ds, mp_p := p\<rparr>" for p
    by (simp add: ds(1))
  show "cpost (cbind (mpget b1 st1) (\<lambda>B1'. cbind (mpget b2 st1) (\<lambda>B2'. cbind (mpget r st1) (\<lambda>S.
        cbind (vget 0 (mp_top B1) (mp_p B1')) (\<lambda>d1. cbind (vget 0 (mp_top B2) (mp_p B2')) (\<lambda>d2.
        cbind (vput (mpvecadd d1 d2) 0 (mp_p S)) (\<lambda>p.
        cbind (mpset r (S\<lparr>mp_top := mp_top B1 + 1, mp_p := p, mp_sign := 1\<rparr>) st1) (\<lambda>st. mpnorm r st)))))))) E
    (\<lambda>st'. \<exists>R. updated st r R st' \<and> mp_canon R \<and> mag R = mag B1 + mag B2 \<and> MPstatic R = MPstatic S)"
    unfolding mpget_obj [OF X1(1)] mpget_obj [OF X2(1)] mpget_obj [OF updated_obj(1) [OF u]] cbind_Inr X1(2) X2(2)
      ds_def [symmetric] upd
    by (rule cpost_mono [OF store_norm_post [OF u S'(1) sz ds(3)] subset_refl]) (auto simp: ds(2) S'(2))
qed

lemma mpmagadd_ordered:
  assumes "mp_store st" "obj st b1 = Some B1" "obj st b2 = Some B2" "obj st r = Some S" "mp_canon B1" "mp_canon B2" "mp_ok S"
    and le: "mp_top B2 \<le> mp_top B1"
  shows "cpost (if mp_top B1 = 0 then mpassign mpzero r st else if mp_top B2 = 0 then mpassign b1 r st
      else cbind (mpbits r (int ((mp_top B1 + 1) * Dbits)) st) (\<lambda>st.
        cbind (mpget b1 st) (\<lambda>B1'. cbind (mpget b2 st) (\<lambda>B2'. cbind (mpget r st) (\<lambda>S.
        cbind (vget 0 (mp_top B1) (mp_p B1')) (\<lambda>d1. cbind (vget 0 (mp_top B2) (mp_p B2')) (\<lambda>d2.
        cbind (vput (mpvecadd d1 d2) 0 (mp_p S)) (\<lambda>p.
        cbind (mpset r (S\<lparr>mp_top := mp_top B1 + 1, mp_p := p, mp_sign := 1\<rparr>) st) (\<lambda>st. mpnorm r st))))))))) E
    (\<lambda>st'. \<exists>R. updated st r R st' \<and> mp_canon R \<and> mag R = mag B1 + mag B2 \<and> MPstatic R = MPstatic S)"
proof -
  have z: "obj st mpzero = Some mpzero_obj" using assms(1) by (simp add: mp_store_def)
  note ok = mp_canon_ok [OF assms(5)] mp_canon_ok [OF assms(6)]
  note m0 = mag_0_iff [OF assms(5)] mag_0_iff [OF assms(6)]
  consider "mp_top B1 = 0" | "mp_top B1 \<noteq> 0" "mp_top B2 = 0" | "mp_top B1 \<noteq> 0" "mp_top B2 \<noteq> 0" by blast
  then show ?thesis
  proof cases
    case 1
    then have "mag B1 + mag B2 = 0" using m0 le by simp
    then show ?thesis unfolding if_P [OF 1]
      by (intro cpost_mono [OF mpassign_canon [OF z assms(4) mp_consts(1) assms(7)] subset_refl]) auto
  next
    case 2
    then have "mag B1 + mag B2 = mag B1" using m0 by simp
    then show ?thesis unfolding if_not_P [OF 2(1)] if_P [OF 2(2)]
      by (intro cpost_mono [OF mpassign_canon [OF assms(2,4,5,7)] subset_refl]) auto
  next
    case 3
    show ?thesis unfolding if_not_P [OF 3(1)] if_not_P [OF 3(2)]
      by (rule magadd_step [OF assms(2-4) ok assms(7) le])
  qed
qed

lemma mpmagadd_post:
  assumes "mp_store st" "obj st b1 = Some B1" "obj st b2 = Some B2" "obj st r = Some S" "mp_canon B1" "mp_canon B2" "mp_ok S"
  shows "cpost (mpmagadd b1 b2 r st) E (\<lambda>st'. \<exists>R. updated st r R st' \<and> mp_canon R \<and>
    mag R = mag B1 + mag B2 \<and> MPstatic R = MPstatic S)"
proof (cases "mp_top B2 > mp_top B1")
  case True
  show ?thesis
    unfolding mpmagadd_def mpget_obj [OF assms(2)] mpget_obj [OF assms(3)] cbind_Inr Let_def if_P [OF True] prod.case
    by (rule cpost_mono [OF mpmagadd_ordered [OF assms(1,3,2,4,6,5,7)] subset_refl]) (use True in \<open>auto simp: add.commute\<close>)
next
  case False
  show ?thesis
    unfolding mpmagadd_def mpget_obj [OF assms(2)] mpget_obj [OF assms(3)] cbind_Inr Let_def if_not_P [OF False] prod.case
    by (rule mpmagadd_ordered [OF assms]) (use False in simp)
qed

lemma magsub_step:
  assumes "obj st b1 = Some B1" "obj st b2 = Some B2" "obj st r = Some S" "mp_canon B1" "mp_canon B2" "mp_ok S"
    and le: "mag B2 \<le> mag B1" and m: "mp_top B2 \<noteq> 0" and sg: "sg = 1 \<or> sg = -1"
  shows "cpost (cbind (mpbits r (int (mp_top B1 * Dbits)) st) (\<lambda>st.
        cbind (mpget b1 st) (\<lambda>B1'. cbind (mpget b2 st) (\<lambda>B2'. cbind (mpget r st) (\<lambda>S.
        cbind (vget 0 (mp_top B1) (mp_p B1')) (\<lambda>d1. cbind (vget 0 (mp_top B2) (mp_p B2')) (\<lambda>d2.
        cbind (vput (mpvecsub d1 d2) 0 (mp_p S)) (\<lambda>p.
        cbind (mpset r (S\<lparr>mp_sign := sg, mp_top := mp_top B1, mp_p := p\<rparr>) st) (\<lambda>st. mpnorm r st))))))))) E
    (\<lambda>st'. \<exists>R. updated st r R st' \<and> mp_canon R \<and> mag R = mag B1 - mag B2 \<and>
      mp_sign R = (if mag B1 - mag B2 = 0 then 1 else sg) \<and> MPstatic R = MPstatic S)"
proof (rule cpost_seq [OF mpbits_post [OF assms(3,6)]], elim exE conjE)
  fix st1 S'
  assume u: "updated st r S' st1" and S': "mp_ok S'" "MPstatic S' = MPstatic S"
    "mp_top S' = max (mp_top S) (DIGITS (int (mp_top B1 * Dbits)))"
    "digits S' = digits S @ replicate (DIGITS (int (mp_top B1 * Dbits)) - mp_top S) 0"
  note kept = operand_kept [OF u S'(1,4) assms(3,6)]
  note ok = mp_canon_ok [OF assms(4)] mp_canon_ok [OF assms(5)]
  obtain X1 where X1: "obj st1 b1 = Some X1" "vget 0 (mp_top B1) (mp_p X1) = Inr (digits B1)"
    using kept [OF assms(1) ok(1)] by blast
  obtain X2 where X2: "obj st1 b2 = Some X2" "vget 0 (mp_top B2) (mp_p X2) = Inr (digits B2)"
    using kept [OF assms(2) ok(2)] by blast
  define ds where "ds = mpvecsub (digits B1) (digits B2)"
  have tops: "mp_top B2 \<le> mp_top B1"
    using canon_digits_less [of "digits B2" "digits B1"] le assms(5) length_digits [OF ok(1)] length_digits [OF ok(2)]
    by (fastforce simp: mp_canon_def mag_def)
  have ds: "length ds = mp_top B1" "val ds = mag B1 - mag B2" "ds \<noteq> []"
    using tops m le length_digits [OF ok(1)] length_digits [OF ok(2)]
    by (auto simp: ds_def mag_def val_mpvecsub simp flip: length_0_conv)
  have sz: "length ds \<le> mp_size S'" using S'(1) S'(3) [unfolded DIGITS_nat] ds(1) by (simp add: mp_ok_def)
  show "cpost (cbind (mpget b1 st1) (\<lambda>B1'. cbind (mpget b2 st1) (\<lambda>B2'. cbind (mpget r st1) (\<lambda>S.
        cbind (vget 0 (mp_top B1) (mp_p B1')) (\<lambda>d1. cbind (vget 0 (mp_top B2) (mp_p B2')) (\<lambda>d2.
        cbind (vput (mpvecsub d1 d2) 0 (mp_p S)) (\<lambda>p.
        cbind (mpset r (S\<lparr>mp_sign := sg, mp_top := mp_top B1, mp_p := p\<rparr>) st1) (\<lambda>st. mpnorm r st)))))))) E
    (\<lambda>st'. \<exists>R. updated st r R st' \<and> mp_canon R \<and> mag R = mag B1 - mag B2 \<and>
      mp_sign R = (if mag B1 - mag B2 = 0 then 1 else sg) \<and> MPstatic R = MPstatic S)"
    unfolding mpget_obj [OF X1(1)] mpget_obj [OF X2(1)] mpget_obj [OF updated_obj(1) [OF u]] cbind_Inr X1(2) X2(2)
      ds_def [symmetric] unfolding ds(1) [symmetric]
    by (rule cpost_mono [OF store_norm_post [OF u S'(1) sz ds(3) sg] subset_refl]) (simp only: ds(2) S'(2))
qed

text \<open>Setting the sign of the result that an operation has just left.\<close>

lemma set_sign_post:
  assumes "updated st r R st1" "mp_canon R" "sg = 1 \<or> sg = -1" "mag R = 0 \<Longrightarrow> sg = 1"
  shows "cpost (cbind (mpget r st1) (\<lambda>D. mpset r (D\<lparr>mp_sign := sg\<rparr>) st1)) E
    (\<lambda>st'. \<exists>R'. updated st r R' st' \<and> mp_canon R' \<and> mag R' = mag R \<and> mp_sign R' = sg \<and> MPstatic R' = MPstatic R)"
proof -
  define R' where "R' = R\<lparr>mp_sign := sg\<rparr>"
  have R': "mp_canon R'" "mag R' = mag R" "mp_sign R' = sg" "MPstatic R' = MPstatic R"
    using assms(2-4) mag_0_iff [OF assms(2)] by (auto simp: R'_def mp_canon_def mp_ok_def digits_def mag_def)
  have "cpost (mpset r R' st1) E (\<lambda>st2. updated st r R' st2)"
    by (rule cpost_mpset [OF updated_obj(1) [OF assms(1)]]) (rule updated_trans [OF assms(1)])
  then have "cpost (mpset r R' st1) E (\<lambda>st'. \<exists>R'. updated st r R' st' \<and> mp_canon R' \<and> mag R' = mag R \<and>
      mp_sign R' = sg \<and> MPstatic R' = MPstatic R)"
    using R' by (auto elim: cpost_mono)
  then show ?thesis unfolding mpget_obj [OF updated_obj(1) [OF assms(1)]] cbind_Inr R'_def .
qed

lemma magsub_ordered:
  assumes "obj st b1 = Some B1" "obj st b2 = Some B2" "obj st r = Some S" "mp_canon B1" "mp_canon B2" "mp_ok S"
    and le: "mag B2 \<le> mag B1" and sg: "sg = 1 \<or> sg = -1" and sg1: "mag B1 = 0 \<Longrightarrow> sg = 1"
  shows "cpost (if mp_top B2 = 0 then cbind (mpassign b1 r st) (\<lambda>st.
          cbind (mpget r st) (\<lambda>D. mpset r (D\<lparr>mp_sign := sg\<rparr>) st))
      else cbind (mpbits r (int (mp_top B1 * Dbits)) st) (\<lambda>st.
        cbind (mpget b1 st) (\<lambda>B1'. cbind (mpget b2 st) (\<lambda>B2'. cbind (mpget r st) (\<lambda>S.
        cbind (vget 0 (mp_top B1) (mp_p B1')) (\<lambda>d1. cbind (vget 0 (mp_top B2) (mp_p B2')) (\<lambda>d2.
        cbind (vput (mpvecsub d1 d2) 0 (mp_p S)) (\<lambda>p.
        cbind (mpset r (S\<lparr>mp_sign := sg, mp_top := mp_top B1, mp_p := p\<rparr>) st) (\<lambda>st. mpnorm r st))))))))) E
    (\<lambda>st'. \<exists>R. updated st r R st' \<and> mp_canon R \<and> mag R = mag B1 - mag B2 \<and>
      mp_sign R = (if mag B1 - mag B2 = 0 then 1 else sg) \<and> MPstatic R = MPstatic S)"
proof (cases "mp_top B2 = 0")
  case True
  then have m: "mag B1 - mag B2 = mag B1" using mag_0_iff [OF assms(5)] by simp
  show ?thesis
    unfolding if_P [OF True] m
  proof (rule cpost_seq [OF mpassign_canon [OF assms(1,3,4,6)]], elim exE conjE)
    fix st1 N
    assume N: "updated st r N st1" "mp_canon N" "mag N = mag B1" "MPstatic N = MPstatic S"
    show "cpost (cbind (mpget r st1) (\<lambda>D. mpset r (D\<lparr>mp_sign := sg\<rparr>) st1)) E
      (\<lambda>st'. \<exists>R. updated st r R st' \<and> mp_canon R \<and> mag R = mag B1 \<and>
        mp_sign R = (if mag B1 = 0 then 1 else sg) \<and> MPstatic R = MPstatic S)"
      by (rule cpost_mono [OF set_sign_post [OF N(1,2) sg] subset_refl]) (use N sg1 in auto)
  qed
next
  case False
  show ?thesis unfolding if_not_P [OF False] by (rule magsub_step [OF assms(1-7) False sg])
qed

lemma mpmagsub_post:
  assumes "obj st b1 = Some B1" "obj st b2 = Some B2" "obj st r = Some S" "mp_canon B1" "mp_canon B2" "mp_ok S"
  shows "cpost (mpmagsub b1 b2 r st) E (\<lambda>st'. \<exists>R. updated st r R st' \<and> mp_canon R \<and>
    mpval R = int (mag B1) - int (mag B2) \<and> MPstatic R = MPstatic S)"
proof -
  obtain c where c: "mpmagcmp b1 b2 st = Inr c" "sgn c = sgn (int (mag B1) - int (mag B2))"
    using mpmagcmp_post [OF assms(1,2,4,5)] by blast
  show ?thesis
  proof (cases "c < 0")
    case True
    then have lt: "mag B1 < mag B2" using c(2) by (auto simp: sgn_if split: if_splits)
    show ?thesis
      unfolding mpmagsub_def c(1) cbind_Inr Let_def if_P [OF True] prod.case mpget_obj [OF assms(1)] mpget_obj [OF assms(2)]
      by (rule cpost_mono [OF magsub_ordered [OF assms(2,1,3,5,4,6)] subset_refl]) (use lt in \<open>auto simp: mpval_def\<close>)
  next
    case False
    then have le: "mag B2 \<le> mag B1" using c(2) by (auto simp: sgn_if split: if_splits)
    show ?thesis
      unfolding mpmagsub_def c(1) cbind_Inr Let_def if_not_P [OF False] prod.case mpget_obj [OF assms(1)] mpget_obj [OF assms(2)]
      by (rule cpost_mono [OF magsub_ordered [OF assms] subset_refl]) (use le in \<open>auto simp: mpval_def\<close>)
  qed
qed

lemma canon_sign: "mp_canon B \<Longrightarrow> mp_sign B = 1 \<or> mp_sign B = -1 \<and> mag B \<noteq> 0"
  using mag_0_iff by (auto simp: mp_canon_def mp_ok_def)

lemma mpadd_post:
  assumes "mp_store st" "obj st b1 = Some B1" "obj st b2 = Some B2" "obj st r = Some S" "mp_canon B1" "mp_canon B2" "mp_ok S"
  shows "cpost (mpadd b1 b2 r st) E (\<lambda>st'. \<exists>R. updated st r R st' \<and> mp_canon R \<and>
    mpval R = mpval B1 + mpval B2 \<and> MPstatic R = MPstatic S)"
proof (cases "mp_sign B1 = mp_sign B2")
  case True
  have add: "cpost (cbind (mpmagadd b1 b2 r st) (\<lambda>st. cbind (mpget r st) (\<lambda>S.
      if mp_top S \<noteq> 0 then mpset r (S\<lparr>mp_sign := mp_sign B1\<rparr>) st else Inr st))) E
    (\<lambda>st'. \<exists>R. updated st r R st' \<and> mp_canon R \<and> mpval R = mpval B1 + mpval B2 \<and> MPstatic R = MPstatic S)"
  proof (rule cpost_seq [OF mpmagadd_post [OF assms]], elim exE conjE)
    fix st1 R
    assume R: "updated st r R st1" "mp_canon R" "mag R = mag B1 + mag B2" "MPstatic R = MPstatic S"
    show "cpost (cbind (mpget r st1) (\<lambda>S. if mp_top S \<noteq> 0 then mpset r (S\<lparr>mp_sign := mp_sign B1\<rparr>) st1 else Inr st1)) E
      (\<lambda>st'. \<exists>R. updated st r R st' \<and> mp_canon R \<and> mpval R = mpval B1 + mpval B2 \<and> MPstatic R = MPstatic S)"
    proof (cases "mp_top R = 0")
      case t: True
      then have "mag B1 = 0" "mag B2 = 0" "mag R = 0" using mag_0_iff [OF R(2)] R(3) by auto
      then show ?thesis using t R by (auto simp: mpget_obj [OF updated_obj(1) [OF R(1)]] mpval_def)
    next
      case False
      have s: "mp_sign B1 = 1 \<or> mp_sign B1 = -1" using canon_sign [OF assms(5)] by auto
      have "mag R \<noteq> 0" using False mag_0_iff [OF R(2)] by simp
      then have "cpost (cbind (mpget r st1) (\<lambda>D. mpset r (D\<lparr>mp_sign := mp_sign B1\<rparr>) st1)) E
        (\<lambda>st'. \<exists>R. updated st r R st' \<and> mp_canon R \<and> mpval R = mpval B1 + mpval B2 \<and> MPstatic R = MPstatic S)"
        by (intro cpost_mono [OF set_sign_post [OF R(1,2) s] subset_refl])
          (use R True in \<open>auto simp: mpval_def distrib_left\<close>)
      then show ?thesis using False by (simp add: mpget_obj [OF updated_obj(1) [OF R(1)]])
    qed
  qed
  have "mpadd b1 b2 r st = cbind (mpmagadd b1 b2 r st) (\<lambda>st. cbind (mpget r st) (\<lambda>S.
      if mp_top S \<noteq> 0 then mpset r (S\<lparr>mp_sign := mp_sign B1\<rparr>) st else Inr st))"
    by (simp add: mpadd_def mpget_obj assms(2,3) Let_def True cong: if_cong)
  with add show ?thesis by (simp only:)
next
  case False
  show ?thesis
  proof (cases "mp_sign B1 < 0")
    case neg: True
    have "mpval B1 + mpval B2 = int (mag B2) - int (mag B1)"
      using neg False canon_sign [OF assms(5)] canon_sign [OF assms(6)] by (auto simp: mpval_def)
    then show ?thesis
      using False neg mpmagsub_post [OF assms(3,2,4,6,5,7)] by (simp add: mpadd_def mpget_obj assms)
  next
    case pos: False
    have "mpval B1 + mpval B2 = int (mag B1) - int (mag B2)"
      using pos False canon_sign [OF assms(5)] canon_sign [OF assms(6)] by (auto simp: mpval_def)
    then show ?thesis
      using False pos mpmagsub_post [OF assms(2,3,4,5,6,7)] by (simp add: mpadd_def mpget_obj assms)
  qed
qed

lemma mpsub_post:
  assumes "mp_store st" "obj st b1 = Some B1" "obj st b2 = Some B2" "obj st r = Some S" "mp_canon B1" "mp_canon B2" "mp_ok S"
  shows "cpost (mpsub b1 b2 r st) E (\<lambda>st'. \<exists>R. updated st r R st' \<and> mp_canon R \<and>
    mpval R = mpval B1 - mpval B2 \<and> MPstatic R = MPstatic S)"
proof (cases "mp_sign B1 = mp_sign B2")
  case True
  have s: "mp_sign B1 = 1 \<or> mp_sign B1 = -1" using canon_sign [OF assms(5)] by auto
  have "cpost (cbind (mpmagsub b1 b2 r st) (\<lambda>st. cbind (mpget r st) (\<lambda>D.
      if mp_top D \<noteq> 0 then mpset r (D\<lparr>mp_sign := mp_sign D * mp_sign B1\<rparr>) st else Inr st))) E
    (\<lambda>st'. \<exists>R. updated st r R st' \<and> mp_canon R \<and> mpval R = mpval B1 - mpval B2 \<and> MPstatic R = MPstatic S)"
  proof (rule cpost_seq [OF mpmagsub_post [OF assms(2-7)]], elim exE conjE)
    fix st1 R
    assume R: "updated st r R st1" "mp_canon R" "mpval R = int (mag B1) - int (mag B2)" "MPstatic R = MPstatic S"
    have v: "mp_sign B1 * mpval R = mpval B1 - mpval B2"
      unfolding R(3) using True by (simp add: mpval_def right_diff_distrib)
    show "cpost (cbind (mpget r st1) (\<lambda>D. if mp_top D \<noteq> 0 then mpset r (D\<lparr>mp_sign := mp_sign D * mp_sign B1\<rparr>) st1 else Inr st1)) E
      (\<lambda>st'. \<exists>R. updated st r R st' \<and> mp_canon R \<and> mpval R = mpval B1 - mpval B2 \<and> MPstatic R = MPstatic S)"
    proof (cases "mp_top R = 0")
      case t: True
      then have "mpval R = 0" using mag_0_iff [OF R(2)] by (simp add: mpval_def)
      then have "mpval R = mpval B1 - mpval B2" using v by simp
      then show ?thesis using t R by (auto simp: mpget_obj [OF updated_obj(1) [OF R(1)]])
    next
      case False
      have s': "mp_sign R * mp_sign B1 = 1 \<or> mp_sign R * mp_sign B1 = -1" using s canon_sign [OF R(2)] by auto
      have "mag R \<noteq> 0" using False mag_0_iff [OF R(2)] by simp
      then have "cpost (cbind (mpget r st1) (\<lambda>D. mpset r (D\<lparr>mp_sign := mp_sign R * mp_sign B1\<rparr>) st1)) E
        (\<lambda>st'. \<exists>R. updated st r R st' \<and> mp_canon R \<and> mpval R = mpval B1 - mpval B2 \<and> MPstatic R = MPstatic S)"
        by (intro cpost_mono [OF set_sign_post [OF R(1,2) s'] subset_refl])
          (use R v in \<open>auto simp: mpval_def mult.left_commute mult.assoc\<close>)
      then show ?thesis using False by (simp add: mpget_obj [OF updated_obj(1) [OF R(1)]])
    qed
  qed
  then show ?thesis using True by (simp add: mpsub_def mpget_obj assms Let_def)
next
  case False
  have s: "mp_sign B1 = 1 \<or> mp_sign B1 = -1" "mp_sign B2 = - mp_sign B1" "mag B1 + mag B2 \<noteq> 0"
    using False canon_sign [OF assms(5)] canon_sign [OF assms(6)] by auto
  have "cpost (cbind (mpmagadd b1 b2 r st) (\<lambda>st. cbind (mpget r st) (\<lambda>D. mpset r (D\<lparr>mp_sign := mp_sign B1\<rparr>) st))) E
    (\<lambda>st'. \<exists>R. updated st r R st' \<and> mp_canon R \<and> mpval R = mpval B1 - mpval B2 \<and> MPstatic R = MPstatic S)"
  proof (rule cpost_seq [OF mpmagadd_post [OF assms]], elim exE conjE)
    fix st1 R
    assume R: "updated st r R st1" "mp_canon R" "mag R = mag B1 + mag B2" "MPstatic R = MPstatic S"
    show "cpost (cbind (mpget r st1) (\<lambda>D. mpset r (D\<lparr>mp_sign := mp_sign B1\<rparr>) st1)) E
      (\<lambda>st'. \<exists>R. updated st r R st' \<and> mp_canon R \<and> mpval R = mpval B1 - mpval B2 \<and> MPstatic R = MPstatic S)"
      by (rule cpost_mono [OF set_sign_post [OF R(1,2) s(1)] subset_refl])
        (use R s in \<open>auto simp: mpval_def distrib_left\<close>)
  qed
  then show ?thesis using False by (simp add: mpsub_def mpget_obj assms Let_def)
qed

section \<open>Multiplication\<close>

lemma mpmul_into_post:
  assumes "obj st b1 = Some B1" "obj st b2 = Some B2" "obj st r = Some S" "mp_ok B1" "mp_ok B2" "mp_ok S"
    and ne: "r \<noteq> b1" "r \<noteq> b2"
  shows "cpost (mpmul_into b1 b2 r st) E (\<lambda>st'. \<exists>R. updated st r R st' \<and> mp_canon R \<and>
    mag R = mag B1 * mag B2 \<and> mp_sign R = (if mag R = 0 then 1 else mp_sign B1 * mp_sign B2) \<and> MPstatic R = MPstatic S)"
proof -
  define N where "N = mp_top B1 + mp_top B2 + 1"
  define S0 where "S0 = S\<lparr>mp_top := 0\<rparr>"
  have S0: "mp_ok S0" "mp_top S0 = 0" "digits S0 = []" "MPstatic S0 = MPstatic S"
    using assms(6) by (auto simp: S0_def mp_ok_def digits_def)
  obtain ds where ds: "mpvecmul (digits B1) (digits B2) (replicate N 0) = Inr ds" "length ds = N" "val ds = mag B1 * mag B2"
    using mpvecmul_correct [of "digits B1" "digits B2" N] length_digits assms(4,5) by (auto simp: N_def mag_def)
  have sg: "mp_sign B1 * mp_sign B2 = 1 \<or> mp_sign B1 * mp_sign B2 = -1" using assms(4,5) by (auto simp: mp_ok_def)
  show ?thesis
    unfolding mpmul_into_def mpget_obj [OF assms(3)] cbind_Inr S0_def [symmetric]
  proof (rule cpost_seq [OF cpost_mpset [OF assms(3), where B = S0 and Q = "updated st r S0"]])
    fix st1
    assume u1: "updated st r S0 st1"
    have b: "obj st1 b1 = Some B1" "obj st1 b2 = Some B2" using u1 ne assms(1,2) by simp_all
    show "cpost (cbind (mpget b1 st1) (\<lambda>B1. cbind (mpget b2 st1) (\<lambda>B2.
      cbind (mpbits r (int ((mp_top B1 + mp_top B2 + 1) * Dbits)) st1) (\<lambda>st.
      cbind (mpget r st) (\<lambda>P. cbind (vget 0 (mp_top B1) (mp_p B1)) (\<lambda>d1. cbind (vget 0 (mp_top B2) (mp_p B2)) (\<lambda>d2.
      cbind (vget 0 (mp_top B1 + mp_top B2 + 1) (mp_p P)) (\<lambda>room. cbind (mpvecmul d1 d2 room) (\<lambda>ds.
      cbind (vput ds 0 (mp_p P)) (\<lambda>p.
      cbind (mpset r (P\<lparr>mp_top := mp_top B1 + mp_top B2 + 1, mp_sign := mp_sign B1 * mp_sign B2, mp_p := p\<rparr>) st) (\<lambda>st.
        mpnorm r st))))))))))) E (\<lambda>st'. \<exists>R. updated st r R st' \<and> mp_canon R \<and>
      mag R = mag B1 * mag B2 \<and> mp_sign R = (if mag R = 0 then 1 else mp_sign B1 * mp_sign B2) \<and> MPstatic R = MPstatic S)"
      unfolding mpget_obj [OF b(1)] mpget_obj [OF b(2)] cbind_Inr N_def [symmetric]
    proof (rule cpost_seq [OF mpbits_post [OF updated_obj(1) [OF u1] S0(1)]], elim exE conjE)
      fix st2 P
      assume u: "updated st1 r P st2" and P: "mp_ok P" "MPstatic P = MPstatic S0" "mp_top P = max (mp_top S0) (DIGITS (int (N * Dbits)))"
        "digits P = digits S0 @ replicate (DIGITS (int (N * Dbits)) - mp_top S0) 0"
      have P': "mp_top P = N" "digits P = replicate N 0" using P(3,4) S0 unfolding DIGITS_nat by simp_all
      have room: "vget 0 N (mp_p P) = Inr (replicate N 0)" using vget_digits [OF P(1)] P' by simp
      have upd: "P\<lparr>mp_top := N, mp_sign := sg, mp_p := p\<rparr> = P\<lparr>mp_sign := sg, mp_top := length ds, mp_p := p\<rparr>" for p sg
        by (simp add: ds(2))
      have ne: "ds \<noteq> []" "length ds \<le> mp_size P" using ds(2) P(1) P'(1) by (auto simp: N_def mp_ok_def)
      show "cpost (cbind (mpget r st2) (\<lambda>P. cbind (vget 0 (mp_top B1) (mp_p B1)) (\<lambda>d1. cbind (vget 0 (mp_top B2) (mp_p B2)) (\<lambda>d2.
        cbind (vget 0 N (mp_p P)) (\<lambda>room. cbind (mpvecmul d1 d2 room) (\<lambda>ds. cbind (vput ds 0 (mp_p P)) (\<lambda>p.
        cbind (mpset r (P\<lparr>mp_top := N, mp_sign := mp_sign B1 * mp_sign B2, mp_p := p\<rparr>) st2) (\<lambda>st. mpnorm r st)))))))) E
        (\<lambda>st'. \<exists>R. updated st r R st' \<and> mp_canon R \<and> mag R = mag B1 * mag B2 \<and>
          mp_sign R = (if mag R = 0 then 1 else mp_sign B1 * mp_sign B2) \<and> MPstatic R = MPstatic S)"
        unfolding mpget_obj [OF updated_obj(1) [OF u]] vget_digits [OF assms(4)] vget_digits [OF assms(5)] room ds(1) cbind_Inr upd
        by (rule cpost_mono [OF store_norm_post [OF updated_trans [OF u1 u] P(1) ne(2,1) sg] subset_refl])
          (auto simp: ds(3) P(2) S0(4))
    qed
  qed simp_all
qed

lemma temp_freed:
  assumes "obj st t = None" "t \<noteq> r" "updated st t T st1" "updated st1 t R st2" "updated st2 r R' st3"
    and "obj st4 = (obj st3)(t := None)" "mpmindigits st4 = mpmindigits st3"
  shows "updated st r R' st4"
proof -
  have "obj st4 = ((((obj st)(t \<mapsto> T))(t \<mapsto> R))(r \<mapsto> R'))(t := None)"
    using assms(3-6) by (simp add: updated_def)
  also have "\<dots> = ((obj st)(t := None))(r \<mapsto> R')" using assms(2) by (auto simp: fun_upd_twist)
  also have "(obj st)(t := None) = obj st" using assms(1) by (rule fun_upd_idem)
  finally have "obj st4 = (obj st)(r \<mapsto> R')" .
  moreover have "mpmindigits st4 = mpmindigits st" using assms(3-5,7) by (simp add: updated_def)
  ultimately show ?thesis unfolding updated_def by blast
qed

lemma mpmul_post:
  assumes "mp_store st" "obj st b1 = Some B1" "obj st b2 = Some B2" "obj st r = Some S" "mp_canon B1" "mp_canon B2" "mp_ok S"
  shows "cpost (mpmul b1 b2 r st) E (\<lambda>st'. \<exists>R. updated st r R st' \<and> mp_canon R \<and>
    mpval R = mpval B1 * mpval B2 \<and> MPstatic R = MPstatic S)"
proof -
  note ok = mp_canon_ok [OF assms(5)] mp_canon_ok [OF assms(6)]
  have v: "mpval R = mpval B1 * mpval B2"
    if "mag R = mag B1 * mag B2" "mp_sign R = (if mag R = 0 then 1 else mp_sign B1 * mp_sign B2)" for R
    using that by (auto simp: mpval_def)
  show ?thesis
  proof (cases "r = b1 \<or> r = b2")
    case False
    then show ?thesis
      unfolding mpmul_def if_not_P [OF False]
      by (intro cpost_mono [OF mpmul_into_post [OF assms(2-4) ok assms(7)] subset_refl]) (use v in auto)
  next
    case True
    have "1 \<le> mpmindigits st" using assms(1) by (simp add: mp_store_def)
    then have new: "cpost (mpnew 0 st) E (\<lambda>(b, st'). obj st b = None \<and> (\<exists>B. updated st b B st' \<and> mp_canon B \<and> mag B = 0 \<and>
      mp_sign B = 1 \<and> mp_top B = 0 \<and> \<not> MPstatic B \<and> DIGITS 0 \<le> mp_size B \<and> mp_p B = replicate (mp_size B) 0))"
      by (intro mpnew_post) simp_all
    have tail: "cpost (cbind (mpmul_into b1 b2 t st1) (\<lambda>st. cbind (mpassign t r st) (\<lambda>st. mpfree t st))) E
      (\<lambda>st'. \<exists>R. updated st r R st' \<and> mp_canon R \<and> mpval R = mpval B1 * mpval B2 \<and> MPstatic R = MPstatic S)"
      if t: "obj st t = None" "updated st t T st1" "mp_canon T" "\<not> MPstatic T" for t T st1
    proof -
      have ne: "t \<noteq> b1" "t \<noteq> b2" "t \<noteq> r" using t(1) assms(2-4) by auto
      have o1: "obj st1 b1 = Some B1" "obj st1 b2 = Some B2" "obj st1 t = Some T"
        using t(2) ne assms(2-4) by simp_all
      show ?thesis
      proof (rule cpost_seq [OF mpmul_into_post [OF o1 ok mp_canon_ok [OF t(3)] ne(1,2)]], elim exE conjE)
        fix st2 R
        assume R: "updated st1 t R st2" "mp_canon R" "mag R = mag B1 * mag B2"
          "mp_sign R = (if mag R = 0 then 1 else mp_sign B1 * mp_sign B2)" "MPstatic R = MPstatic T"
        have o2: "obj st2 t = Some R" "obj st2 r = Some S"
          using R(1) t(2) ne assms(4) by (simp_all add: updated_def)
        show "cpost (cbind (mpassign t r st2) (\<lambda>st. mpfree t st)) E
          (\<lambda>st'. \<exists>R. updated st r R st' \<and> mp_canon R \<and> mpval R = mpval B1 * mpval B2 \<and> MPstatic R = MPstatic S)"
        proof (rule cpost_seq [OF mpassign_canon [OF o2 R(2) assms(7)]], elim exE conjE)
          fix st3 R'
          assume R': "updated st2 r R' st3" "mp_canon R'" "mag R' = mag R" "mp_sign R' = mp_sign R" "MPstatic R' = MPstatic S"
          have o3: "obj st3 t = Some R" using R'(1) ne(3) o2(1) by simp
          have "\<not> MPstatic R" using R(5) t(4) by simp
          from mpfree_post [OF o3 this]
          show "cpost (mpfree t st3) E
            (\<lambda>st'. \<exists>R. updated st r R st' \<and> mp_canon R \<and> mpval R = mpval B1 * mpval B2 \<and> MPstatic R = MPstatic S)"
          proof (rule cpost_mono [OF _ subset_refl])
            fix st4
            assume f: "obj st4 = (obj st3)(t := None) \<and> mpmindigits st4 = mpmindigits st3"
            have "updated st r R' st4"
              using temp_freed [OF t(1) ne(3) t(2) R(1) R'(1)] f by blast
            moreover have "mpval R' = mpval B1 * mpval B2"
              using R'(3,4) v [OF R(3,4)] unfolding mpval_def [of R'] mpval_def [of R] by simp
            ultimately show "\<exists>R. updated st r R st4 \<and> mp_canon R \<and> mpval R = mpval B1 * mpval B2 \<and> MPstatic R = MPstatic S"
              using R' by blast
          qed
        qed
      qed
    qed
    show ?thesis
      unfolding mpmul_def if_P [OF True]
    proof (rule cpost_seq [OF new])
      fix x :: "mpaddr \<times> mpstate"
      obtain t st1 where x: "x = (t, st1)" by (cases x)
      assume "case x of (b, st') \<Rightarrow> obj st b = None \<and> (\<exists>B. updated st b B st' \<and> mp_canon B \<and> mag B = 0 \<and>
        mp_sign B = 1 \<and> mp_top B = 0 \<and> \<not> MPstatic B \<and> DIGITS 0 \<le> mp_size B \<and> mp_p B = replicate (mp_size B) 0)"
      then obtain T where "obj st t = None" "updated st t T st1" "mp_canon T" "\<not> MPstatic T"
        unfolding x prod.case by blast
      from tail [OF this]
      show "cpost (case x of (tmp, st) \<Rightarrow> cbind (mpmul_into b1 b2 tmp st) (\<lambda>st. cbind (mpassign tmp r st) (\<lambda>st. mpfree tmp st))) E
        (\<lambda>st'. \<exists>R. updated st r R st' \<and> mp_canon R \<and> mpval R = mpval B1 * mpval B2 \<and> MPstatic R = MPstatic S)"
        unfolding x prod.case .
    qed
  qed
qed

end
