(* ===== verification/Mp_Shift.thy ===== *)
theory Mp_Shift
  imports Mp_Arith
begin

text \<open>
  Shifts of multiple precision integers, \<^verbatim>\<open>src/libmp/port/mpleft.c\<close> and \<^verbatim>\<open>mpright.c\<close>. The loops move
  digits within one array when the result is the operand; \<open>al\<close> says so, and then the digits read
  are those of the array being written.
\<close>

section \<open>The loops\<close>

text \<open>\<open>mpleft\<close>, downwards: by whole digits, and by \<open>l\<close> further bits.\<close>

fun left_copy :: "bool \<Rightarrow> nat \<Rightarrow> nat \<Rightarrow> mpdigit list \<Rightarrow> mpdigit list \<Rightarrow> mpdigit list cres" where
  "left_copy al 0 d src res = Inr res"
| "left_copy al (Suc i) d src res =
    (let s = (if al then res else src) in
     cbind (cguard (i < length s \<and> i + d < length res)) (\<lambda>_.
       left_copy al i d src (res[i + d := s ! i])))"

fun left_bits :: "bool \<Rightarrow> nat \<Rightarrow> nat \<Rightarrow> nat \<Rightarrow> mpdigit \<Rightarrow> mpdigit list \<Rightarrow> mpdigit list \<Rightarrow> mpdigit list cres" where
  "left_bits al 0 d l lst src res =
    cbind (cguard (d < length res)) (\<lambda>_. Inr (res[d := push_bit l lst]))"
| "left_bits al (Suc i) d l lst src res =
    (let s = (if al then res else src) in
     cbind (cguard (i < length s \<and> i + d + 1 < length res)) (\<lambda>_.
       left_bits al i d l (s ! i) src (res[i + d + 1 := push_bit l lst OR drop_bit (Dbits - l) (s ! i)])))"

text \<open>\<open>mpright\<close>, upwards from \<open>i\<close>, with \<open>n\<close> digits to go.\<close>

fun right_copy :: "bool \<Rightarrow> nat \<Rightarrow> nat \<Rightarrow> nat \<Rightarrow> mpdigit list \<Rightarrow> mpdigit list \<Rightarrow> mpdigit list cres" where
  "right_copy al i 0 d src res = Inr res"
| "right_copy al i (Suc n) d src res =
    (let s = (if al then res else src) in
     cbind (cguard (i + d < length s \<and> i < length res)) (\<lambda>_.
       right_copy al (i + 1) n d src (res[i := s ! (i + d)])))"

fun right_bits :: "bool \<Rightarrow> nat \<Rightarrow> nat \<Rightarrow> nat \<Rightarrow> nat \<Rightarrow> mpdigit \<Rightarrow> mpdigit list \<Rightarrow> mpdigit list \<Rightarrow> mpdigit list cres" where
  "right_bits al i 0 d r lst src res =
    cbind (cguard (i < length res)) (\<lambda>_. Inr (res[i := drop_bit r lst]))"
| "right_bits al i (Suc n) d r lst src res =
    (let s = (if al then res else src) in
     cbind (cguard (i + d + 1 < length s \<and> i < length res)) (\<lambda>_.
       right_bits al (i + 1) n d r (s ! (i + d + 1)) src
         (res[i := push_bit (Dbits - r) (s ! (i + d + 1)) OR drop_bit r lst])))"

section \<open>The operations\<close>

text \<open>The head that both share; the boolean says that the operand is zero.\<close>

definition shift_head :: "mpaddr \<Rightarrow> mpaddr \<Rightarrow> mpstate \<Rightarrow> (bool \<times> mpstate) cres" where
  "shift_head b res st =
    cbind (mpget b st) (\<lambda>B.
    cbind (mpget res st) (\<lambda>R.
    cbind (mpset res (R\<lparr>mp_sign := mp_sign B\<rparr>) st) (\<lambda>st.
    cbind (mpget b st) (\<lambda>B.
    cbind (mpget res st) (\<lambda>R.
      if mp_top B = 0 then cbind (mpset res (R\<lparr>mp_top := 0\<rparr>) st) (\<lambda>st. Inr (True, st))
      else Inr (False, st))))))"

definition mpleft_move :: "mpaddr \<Rightarrow> nat \<Rightarrow> mpaddr \<Rightarrow> mpstate \<Rightarrow> mpstate cres" where
  "mpleft_move b shift res st =
    cbind (mpget b st) (\<lambda>B.
      let otop = mp_top B; d = shift div Dbits; l = shift - d * Dbits in
      cbind (mpbits res (int (otop * Dbits + shift)) st) (\<lambda>st.
      cbind (mpget b st) (\<lambda>B.
      cbind (mpget res st) (\<lambda>R.
      cbind (if l = 0 then left_copy (b = res) otop d (mp_p B) (mp_p R)
             else left_bits (b = res) otop d l 0 (mp_p B) (mp_p R)) (\<lambda>p.
      cbind (vput (replicate d 0) 0 p) (\<lambda>p.
      cbind (cguard (DIGITS (int (otop * Dbits + shift)) \<le> length p)) (\<lambda>_.
        mpset res (R\<lparr>mp_p := p, mp_top := mpnorm_loop (DIGITS (int (otop * Dbits + shift))) p\<rparr>) st)))))))"

definition mpright_move :: "mpaddr \<Rightarrow> nat \<Rightarrow> mpaddr \<Rightarrow> mpstate \<Rightarrow> mpstate cres" where
  "mpright_move b shift res st =
    cbind (mpget b st) (\<lambda>B.
    cbind (if res \<noteq> b then mpbits res (int (mp_top B * Dbits) - int shift) st else Inr st) (\<lambda>st.
    cbind (mpget res st) (\<lambda>R.
      let d = shift div Dbits; r = shift - d * Dbits in
      if d \<ge> mp_top B then mpset res (R\<lparr>mp_top := 0\<rparr>) st
      else
        cbind (if r = 0 then right_copy (b = res) 0 (mp_top B - d) d (mp_p B) (mp_p R)
               else cbind (cguard (d < length (mp_p B))) (\<lambda>_.
                 right_bits (b = res) 0 (mp_top B - d - 1) d r (mp_p B ! d) (mp_p B) (mp_p R))) (\<lambda>p.
        let i = mpnorm_loop (mp_top B - d) p in
        mpset res (R\<lparr>mp_p := p, mp_top := i, mp_sign := if i = 0 then 1 else mp_sign R\<rparr>) st))))"

function
  mpleft :: "mpaddr \<Rightarrow> int \<Rightarrow> mpaddr \<Rightarrow> mpstate \<Rightarrow> mpstate cres" and
  mpright :: "mpaddr \<Rightarrow> int \<Rightarrow> mpaddr \<Rightarrow> mpstate \<Rightarrow> mpstate cres" where
  "mpleft b shift res st =
    cbind (shift_head b res st) (\<lambda>(zero, st).
      if zero then Inr st
      else if shift < 0 then mpright b (- shift) res st
      else mpleft_move b (nat shift) res st)"
| "mpright b shift res st =
    cbind (shift_head b res st) (\<lambda>(zero, st).
      if zero then Inr st
      else if shift < 0 then mpleft b (- shift) res st
      else mpright_move b (nat shift) res st)"
  by pat_completeness auto
termination
  by (relation "measure (\<lambda>x. case x of Inl (b, s, r, st) \<Rightarrow> if s < 0 then 1 else 0
      | Inr (b, s, r, st) \<Rightarrow> if s < 0 then 1 else 0)") auto

declare mpleft.simps [simp del] mpright.simps [simp del]

section \<open>The loops move digits as if operand and result were apart\<close>

lemma left_copy_result:
  "n \<le> length src \<Longrightarrow> n + d \<le> length res \<Longrightarrow> (al \<Longrightarrow> take n res = take n src) \<Longrightarrow>
   left_copy al n d src res = Inr (take d res @ take n src @ drop (d + n) res)"
proof (induction n arbitrary: res)
  case (Suc i)
  define s where "s = (if al then res else src)"
  have "al \<Longrightarrow> res ! i = src ! i" using Suc.prems by (metis lessI nth_take)
  then have si: "s ! i = src ! i" "i < length s" using Suc.prems(1,2) by (auto simp: s_def)
  let ?r = "res[i + d := src ! i]"
  have "al \<Longrightarrow> take i ?r = take i src"
  proof -
    assume al
    then have "take i (take (Suc i) res) = take i (take (Suc i) src)" using Suc.prems(3) by simp
    then show ?thesis by simp
  qed
  then have "left_copy al i d src ?r = Inr (take d ?r @ take i src @ drop (d + i) ?r)"
    using Suc.prems by (intro Suc.IH) simp_all
  moreover have "take d ?r @ take i src @ drop (d + i) ?r = take d res @ take (Suc i) src @ drop (d + Suc i) res"
    using Suc.prems(1,2) by (simp add: take_Suc_conv_app_nth drop_update_cancel add.commute
        flip: Cons_nth_drop_Suc)
  ultimately show ?case using si Suc.prems(2) by (simp add: Let_def flip: s_def)
qed simp

text \<open>The digits of a vector shifted left by \<open>l\<close> bits, without the lowest, \<open>lst\<close> above them.\<close>

definition shl_digits :: "nat \<Rightarrow> mpdigit \<Rightarrow> mpdigit list \<Rightarrow> mpdigit list" where
  "shl_digits l lst xs = map2 (\<lambda>x y. push_bit l y OR drop_bit (Dbits - l) x) xs (tl xs @ [lst])"

lemma shl_digits_snoc:
  "shl_digits l lst (xs @ [x]) = shl_digits l x xs @ [push_bit l lst OR drop_bit (Dbits - l) x]"
proof (cases xs)
  case (Cons a ys)
  have "zip ((a # ys) @ [x]) ((ys @ [x]) @ [lst]) = zip (a # ys) (ys @ [x]) @ [(x, lst)]" by (subst zip_append) simp_all
  then show ?thesis by (simp add: shl_digits_def Cons)
qed (simp add: shl_digits_def)

lemma left_bits_result:
  "n \<le> length src \<Longrightarrow> n + d < length res \<Longrightarrow> (al \<Longrightarrow> take n res = take n src) \<Longrightarrow>
   left_bits al n d l lst src res =
     Inr (take d res @ push_bit l (hd (take n src @ [lst])) # shl_digits l lst (take n src) @ drop (d + n + 1) res)"
proof (induction n arbitrary: res lst)
  case 0
  then show ?case by (simp add: shl_digits_def upd_conv_take_nth_drop)
next
  case (Suc i)
  define s where "s = (if al then res else src)"
  have "al \<Longrightarrow> res ! i = src ! i" using Suc.prems by (metis lessI nth_take)
  then have si: "s ! i = src ! i" "i < length s" using Suc.prems(1,2) by (auto simp: s_def)
  let ?w = "push_bit l lst OR drop_bit (Dbits - l) (src ! i)"
  let ?r = "res[i + d + 1 := ?w]"
  have al: "al \<Longrightarrow> take i ?r = take i src"
  proof -
    assume al
    then have "take i (take (Suc i) res) = take i (take (Suc i) src)" using Suc.prems(3) by simp
    then show ?thesis by simp
  qed
  have "left_bits al i d l (src ! i) src ?r = Inr (take d ?r @ push_bit l (hd (take i src @ [src ! i])) #
      shl_digits l (src ! i) (take i src) @ drop (d + i + 1) ?r)"
    using Suc.prems al by (intro Suc.IH) simp_all
  moreover have "drop (d + i + 1) ?r = ?w # drop (d + Suc i + 1) res"
    using Suc.prems(2) by (simp add: add.commute flip: Cons_nth_drop_Suc)
  moreover have "take (Suc i) src = take i src @ [src ! i]" using Suc.prems(1) by (simp add: take_Suc_conv_app_nth)
  moreover have "hd (take i src @ [src ! i]) = hd ((take i src @ [src ! i]) @ [lst])" by (simp add: hd_append)
  ultimately show ?case using si Suc.prems(2) by (simp add: Let_def shl_digits_snoc flip: s_def)
qed

lemma right_copy_result:
  "i + d + n \<le> length src \<Longrightarrow> i + n \<le> length res \<Longrightarrow> (al \<Longrightarrow> drop i res = drop i src) \<Longrightarrow>
   right_copy al i n d src res = Inr (take i res @ take n (drop (i + d) src) @ drop (i + n) res)"
proof (induction n arbitrary: i res)
  case (Suc n)
  define s where "s = (if al then res else src)"
  have eq: "al \<Longrightarrow> res ! (i + d) = src ! (i + d) \<and> length res = length src"
  proof -
    assume al
    then have e: "drop i res = drop i src" using Suc.prems(3) by simp
    then have "drop i res ! d = drop i src ! d" "length (drop i res) = length (drop i src)" by simp_all
    then show ?thesis using Suc.prems(1,2) by simp
  qed
  then have si: "s ! (i + d) = src ! (i + d)" "i + d < length s" using Suc.prems(1,2) by (auto simp: s_def)
  let ?r = "res[i := src ! (i + d)]"
  have al: "al \<Longrightarrow> drop (i + 1) ?r = drop (i + 1) src"
  proof -
    assume al
    then have "drop 1 (drop i res) = drop 1 (drop i src)" using Suc.prems(3) by simp
    then show ?thesis by (simp add: add.commute)
  qed
  have "right_copy al (i + 1) n d src ?r = Inr (take (i + 1) ?r @ take n (drop (i + 1 + d) src) @ drop (i + 1 + n) ?r)"
    using Suc.prems al by (intro Suc.IH) simp_all
  moreover have "take (i + 1) ?r = take i res @ [src ! (i + d)]" using Suc.prems(2) by (simp add: take_Suc_update)
  moreover have "take (Suc n) (drop (i + d) src) = src ! (i + d) # take n (drop (i + 1 + d) src)"
    using Suc.prems(1) by (simp add: take_Suc_drop)
  ultimately show ?case using si Suc.prems(2) by (simp add: Let_def flip: s_def)
qed simp

fun rsh_digits :: "nat \<Rightarrow> mpdigit list \<Rightarrow> mpdigit list" where
  "rsh_digits r [] = []"
| "rsh_digits r [x] = [drop_bit r x]"
| "rsh_digits r (x # y # ys) = (push_bit (Dbits - r) y OR drop_bit r x) # rsh_digits r (y # ys)"

lemma length_rsh_digits [simp]: "length (rsh_digits r xs) = length xs"
  by (induction r xs rule: rsh_digits.induct) simp_all

lemma right_bits_result:
  "i + d + n + 1 \<le> length src \<Longrightarrow> i + n + 1 \<le> length res \<Longrightarrow> (al \<Longrightarrow> drop i res = drop i src) \<Longrightarrow>
   right_bits al i n d r lst src res =
     Inr (take i res @ rsh_digits r (lst # take n (drop (i + d + 1) src)) @ drop (i + n + 1) res)"
proof (induction n arbitrary: i res lst)
  case 0
  then show ?case by (simp add: upd_conv_take_nth_drop)
next
  case (Suc n)
  define s where "s = (if al then res else src)"
  let ?y = "src ! (i + d + 1)"
  have eq: "al \<Longrightarrow> res ! (i + d + 1) = ?y \<and> length res = length src"
  proof -
    assume al
    then have e: "drop i res = drop i src" using Suc.prems(3) by simp
    then have "drop i res ! (d + 1) = drop i src ! (d + 1)" "length (drop i res) = length (drop i src)" by simp_all
    then show ?thesis using Suc.prems(1,2) by simp
  qed
  then have si: "s ! (i + d + 1) = ?y" "i + d + 1 < length s" using Suc.prems(1,2) by (auto simp: s_def)
  let ?w = "push_bit (Dbits - r) ?y OR drop_bit r lst"
  let ?r = "res[i := ?w]"
  have al: "al \<Longrightarrow> drop (i + 1) ?r = drop (i + 1) src"
  proof -
    assume al
    then have "drop 1 (drop i res) = drop 1 (drop i src)" using Suc.prems(3) by simp
    then show ?thesis by (simp add: add.commute)
  qed
  have "right_bits al (i + 1) n d r ?y src ?r =
      Inr (take (i + 1) ?r @ rsh_digits r (?y # take n (drop (i + 1 + d + 1) src)) @ drop (i + 1 + n + 1) ?r)"
    using Suc.prems al by (intro Suc.IH) simp_all
  moreover have "take (i + 1) ?r = take i res @ [?w]" using Suc.prems(2) by (simp add: take_Suc_update)
  moreover have "take (Suc n) (drop (i + d + 1) src) = ?y # take n (drop (i + 1 + d + 1) src)"
    using Suc.prems(1) by (simp add: take_Suc_drop)
  ultimately show ?case using si Suc.prems(2) by (simp add: Let_def flip: s_def)
qed

section \<open>Values\<close>

lemma unat_push_bit_mod:
  assumes "l < 32"
  shows "unat (push_bit l (y :: mpdigit)) = 2 ^ l * (unat y mod 2 ^ (32 - l))"
proof -
  have r: "radix = 2 ^ l * 2 ^ (32 - l)" using assms by (simp flip: power_add)
  have "unat (push_bit l y) = take_bit 32 (push_bit l (unat y))" by (simp add: unsigned_push_bit_eq)
  then have "unat (push_bit l y) = (2 ^ l * unat y) mod radix"
    by (simp add: take_bit_eq_mod push_bit_eq_mult mult.commute)
  then show ?thesis unfolding r by (simp only: mult_mod_right)
qed

lemma unat_shift_join:
  assumes "l < 32"
  shows "unat (push_bit l y OR drop_bit (32 - l) (x :: mpdigit)) = unat (push_bit l y) + unat (drop_bit (32 - l) x)"
proof -
  have "push_bit l y OR drop_bit (32 - l) x = push_bit l y + drop_bit (32 - l) x"
  proof (rule disjunctive_add [symmetric])
    fix n
    show "\<not> bit (push_bit l y) n \<or> \<not> bit (drop_bit (32 - l) x) n"
    proof (cases "l \<le> n")
      case True
      have "\<not> bit x (32 - l + n)" using True bit_imp_le_length [of x "32 - l + n"] assms by auto
      then show ?thesis by (simp add: bit_drop_bit_eq)
    qed (simp add: bit_push_bit_iff)
  qed
  moreover have "unat (push_bit l y) + unat (drop_bit (32 - l) x) < radix"
  proof -
    have r: "radix = 2 ^ l * 2 ^ (32 - l)" using assms by (simp flip: power_add)
    have "unat y mod 2 ^ (32 - l) + 1 \<le> 2 ^ (32 - l)" by (simp add: Suc_leI)
    then have "2 ^ l * (unat y mod 2 ^ (32 - l) + 1) \<le> radix" unfolding r by (rule mult_le_mono2)
    moreover have "unat (drop_bit (32 - l) x) < 2 ^ l"
      unfolding unat_drop_bit using unat_digit [of x] r by (simp add: less_mult_imp_div_less)
    ultimately show ?thesis using unat_push_bit_mod [OF assms] by simp
  qed
  ultimately show ?thesis using add_carry(1) [of "push_bit l y" "drop_bit (32 - l) x"] by (auto split: if_splits)
qed

lemma val_shl_digits:
  assumes "l < 32"
  shows "val (push_bit l (hd (xs @ [0])) # shl_digits l 0 xs) = val xs * 2 ^ l"
proof (induction xs)
  case Nil
  show ?case by (simp add: shl_digits_def)
next
  case (Cons x ys)
  have "shl_digits l 0 (x # ys) = (push_bit l (hd (ys @ [0])) OR drop_bit (32 - l) x) # shl_digits l 0 ys"
    by (cases ys) (simp_all add: shl_digits_def Dbits_def)
  then have "val (push_bit l x # shl_digits l 0 (x # ys)) =
      (unat (push_bit l x) + radix * unat (drop_bit (32 - l) x)) + radix * val (push_bit l (hd (ys @ [0])) # shl_digits l 0 ys)"
    by (simp add: unat_shift_join [OF assms] distrib_left)
  also have "\<dots> = val (x # ys) * 2 ^ l"
    unfolding Cons.IH shifted_divisor [OF assms] by (simp add: algebra_simps)
  finally show ?case by simp
qed

lemma val_rsh_digits:
  "0 < r \<Longrightarrow> r < 32 \<Longrightarrow> val (rsh_digits r xs) = val xs div 2 ^ r"
proof (induction r xs rule: rsh_digits.induct)
  case (2 r x)
  show ?case by (simp add: unat_drop_bit)
next
  case (3 r x y ys)
  define V where "V = val (y # ys)"
  have l: "32 - r < 32" "32 - (32 - r) = r" using "3.prems" by simp_all
  have rd: "radix = 2 ^ r * 2 ^ (32 - r)" using "3.prems"(2) by (simp flip: power_add)
  have "V mod 2 ^ r = unat y mod 2 ^ r"
    unfolding V_def val.simps rd by (simp add: mult.assoc)
  then have "unat (push_bit (32 - r) y) = 2 ^ (32 - r) * (V mod 2 ^ r)"
    using unat_push_bit_mod [OF l(1), of y] l(2) by simp
  then have "val (rsh_digits r (x # y # ys)) = 2 ^ (32 - r) * (V mod 2 ^ r) + unat x div 2 ^ r + radix * (V div 2 ^ r)"
    using 3 unat_shift_join [OF l(1), of y x] l(2) by (simp add: Dbits_def unat_drop_bit V_def)
  also have "\<dots> = unat x div 2 ^ r + 2 ^ (32 - r) * (V mod 2 ^ r + 2 ^ r * (V div 2 ^ r))"
    unfolding rd distrib_left by (simp only: ac_simps)
  also have "V mod 2 ^ r + 2 ^ r * (V div 2 ^ r) = V" by simp
  also have "unat x div 2 ^ r + 2 ^ (32 - r) * V = (unat x + 2 ^ r * (2 ^ (32 - r) * V)) div 2 ^ r" by simp
  also have "unat x + 2 ^ r * (2 ^ (32 - r) * V) = val (x # y # ys)" unfolding V_def val.simps(2) [of x] rd by simp
  finally show ?case .
qed simp

section \<open>What the shifts do\<close>

lemma shift_head_post:
  assumes "obj st b = Some B" "obj st r = Some R" "mp_ok B" "mp_ok R"
  shows "cpost (shift_head b r st) E (\<lambda>(z, st'). z = (mp_top B = 0) \<and> (\<exists>R'. updated st r R' st' \<and> mp_ok R' \<and>
    mp_sign R' = mp_sign B \<and> (if z then mp_top R' = 0 else mp_top R' = mp_top R \<and> mp_p R' = mp_p R) \<and> MPstatic R' = MPstatic R \<and> mp_size R' = mp_size R))"
proof -
  define R1 where "R1 = R\<lparr>mp_sign := mp_sign B\<rparr>"
  show ?thesis
    unfolding shift_head_def mpget_obj [OF assms(1)] mpget_obj [OF assms(2)] cbind_Inr R1_def [symmetric]
  proof (rule cpost_seq [OF cpost_mpset [OF assms(2), where B = R1 and Q = "updated st r R1"]])
    fix st1
    assume u: "updated st r R1 st1"
    obtain B1 where B1: "obj st1 b = Some B1" "mp_top B1 = mp_top B"
      using u assms(1,2) by (cases "b = r") (auto simp: R1_def)
    have R1: "mp_ok R1" "mp_ok (R1\<lparr>mp_top := 0\<rparr>)" using assms(3,4) by (auto simp: R1_def mp_ok_def)
    have "cpost (mpset r (R1\<lparr>mp_top := 0\<rparr>) st1) E (\<lambda>st2. updated st r (R1\<lparr>mp_top := 0\<rparr>) st2)"
      by (rule cpost_mpset [OF updated_obj(1) [OF u]]) (rule updated_trans [OF u])
    then have "cpost (mpset r (R1\<lparr>mp_top := 0\<rparr>) st1) E (\<lambda>st2. \<exists>R'. updated st r R' st2 \<and> mp_ok R' \<and>
        mp_sign R' = mp_sign B \<and> mp_top R' = 0 \<and> MPstatic R' = MPstatic R \<and> mp_size R' = mp_size R)"
      by (rule cpost_mono [OF _ subset_refl]) (use R1 in \<open>auto simp: R1_def intro!: exI\<close>)
    then show "cpost (cbind (mpget b st1) (\<lambda>B. cbind (mpget r st1) (\<lambda>R.
        if mp_top B = 0 then cbind (mpset r (R\<lparr>mp_top := 0\<rparr>) st1) (\<lambda>st. Inr (True, st)) else Inr (False, st1)))) E
      (\<lambda>(z, st'). z = (mp_top B = 0) \<and> (\<exists>R'. updated st r R' st' \<and> mp_ok R' \<and>
        mp_sign R' = mp_sign B \<and> (if z then mp_top R' = 0 else mp_top R' = mp_top R \<and> mp_p R' = mp_p R) \<and> MPstatic R' = MPstatic R \<and> mp_size R' = mp_size R))"
      using u R1 B1 unfolding mpget_obj [OF B1(1)] mpget_obj [OF updated_obj(1) [OF u]] cbind_Inr
      by (cases "mp_top B = 0") (auto simp: R1_def)
  qed simp_all
qed

lemma vget_Inr_iff: "vget 0 n p = Inr ds \<longleftrightarrow> n \<le> length p \<and> take n p = ds"
  by (cases "n \<le> length p") (simp_all add: vget_def)

lemma shift_split: "shift div 32 * 32 + (shift - shift div 32 * 32) = (shift :: nat)" "shift - shift div 32 * 32 < (32 :: nat)"
  by presburger+

lemma radix_power: "radix ^ d = 2 ^ (32 * d)"
  by (simp add: power_mult)

lemma left_loop_result:
  assumes "length ds = t" "take t src = ds" "t \<le> length src" "al \<Longrightarrow> src = P" "l < 32" "t + d + (if l = 0 then 0 else 1) \<le> length P"
  shows "\<exists>ys. (if l = 0 then left_copy al t d src P else left_bits al t d l 0 src P) = Inr (take d P @ ys @ drop (d + length ys) P) \<and>
    length ys = t + (if l = 0 then 0 else 1) \<and> val ys = val ds * 2 ^ l"
proof (cases "l = 0")
  case True
  then show ?thesis
    using assms left_copy_result [of t src d P al] by (intro exI [of _ ds]) auto
next
  case False
  let ?ys = "push_bit l (hd (ds @ [0])) # shl_digits l 0 ds"
  have "length ?ys = t + 1" using assms(1) by (simp add: shl_digits_def)
  then show ?thesis
    using assms False left_bits_result [of t src d P al l 0] val_shl_digits [OF assms(5), of ds]
    by (intro exI [of _ ?ys]) auto
qed

lemma mpleft_move_post:
  assumes "obj st b = Some B" "obj st r = Some S" "mp_ok B" "mp_ok S"
  shows "cpost (mpleft_move b shift r st) E (\<lambda>st'. \<exists>R. updated st r R st' \<and> mp_ok R \<and> canon_digits (digits R) \<and>
    mag R = mag B * 2 ^ shift \<and> mp_sign R = mp_sign S \<and> MPstatic R = MPstatic S \<and> mp_size S \<le> mp_size R)"
proof -
  define t d l where "t = mp_top B" and "d = shift div Dbits" and "l = shift - d * Dbits"
  define n where "n = DIGITS (int (t * Dbits + shift))"
  have l: "l < 32" "d * 32 + l = shift" using shift_split [of shift] by (simp_all add: d_def l_def Dbits_def)
  then have n: "n = t + d + (if l = 0 then 0 else 1)" by (auto simp: n_def DIGITS_def Dbits_def)
  have ds: "length (digits B) = t" using length_digits [OF assms(3)] by (simp add: t_def)
  show ?thesis
    unfolding mpleft_move_def mpget_obj [OF assms(1)] cbind_Inr Let_def t_def [symmetric] d_def [symmetric]
      l_def [symmetric] n_def [symmetric]
  proof (rule cpost_seq [OF mpbits_post [OF assms(2,4)]], elim exE conjE, fold n_def)
    fix st1 S'
    assume u: "updated st r S' st1" and S': "mp_ok S'" "mp_sign S' = mp_sign S" "MPstatic S' = MPstatic S"
      "mp_top S' = max (mp_top S) n" "digits S' = digits S @ replicate (n - mp_top S) 0" "mp_size S \<le> mp_size S'"
    obtain X where X: "obj st1 b = Some X" "vget 0 (mp_top B) (mp_p X) = Inr (digits B)"
      using operand_kept [OF u S'(1,5) assms(2,4,1,3)] by blast
    have src: "take t (mp_p X) = digits B" "t \<le> length (mp_p X)" using X(2) by (simp_all add: vget_Inr_iff t_def)
    have al: "b = r \<Longrightarrow> mp_p X = mp_p S'" using X(1) u by simp
    have nP: "n \<le> length (mp_p S')" using S'(1,4) by (simp add: mp_ok_def)
    obtain ys where ys: "(if l = 0 then left_copy (b = r) t d (mp_p X) (mp_p S') else left_bits (b = r) t d l 0 (mp_p X) (mp_p S')) =
        Inr (take d (mp_p S') @ ys @ drop (d + length ys) (mp_p S'))" "length ys = t + (if l = 0 then 0 else 1)" "val ys = mag B * 2 ^ l"
      using left_loop_result [OF ds src, of "b = r" "mp_p S'" l d] al l(1) nP [unfolded n] unfolding mag_def by blast
    define p where "p = replicate d 0 @ ys @ drop n (mp_p S')"
    have p: "vput (replicate d 0) 0 (take d (mp_p S') @ ys @ drop (d + length ys) (mp_p S')) = Inr p" "length p = length (mp_p S')"
      using nP n ys(2) by (auto simp: vput_def p_def add.commute add.left_commute)
    have v: "val (take n p) = mag B * 2 ^ shift"
    proof -
      have "take n p = replicate d 0 @ ys" using n ys(2) by (simp add: p_def)
      then have "val (take n p) = 2 ^ (32 * d) * (mag B * 2 ^ l)"
        using ys(3) by (simp add: val_append radix_power)
      then show ?thesis using l(2) by (simp add: power_add mult.commute flip: l(2))
    qed
    define R where "R = S'\<lparr>mp_p := p, mp_top := mpnorm_loop n p\<rparr>"
    have R: "mp_ok R" "canon_digits (digits R)" "mag R = mag B * 2 ^ shift" "mp_sign R = mp_sign S" "MPstatic R = MPstatic S"
        "mp_size S \<le> mp_size R"
      using mpnorm_loop_correct [of n p] mpnorm_loop_le [of n p] nP p(2) S'(1-3,6) v
      by (auto simp: R_def mp_ok_def mag_def digits_def)
    have "cpost (mpset r R st1) E (\<lambda>st2. updated st r R st2)"
      by (rule cpost_mpset [OF updated_obj(1) [OF u]]) (rule updated_trans [OF u])
    then have "cpost (mpset r R st1) E (\<lambda>st'. \<exists>R. updated st r R st' \<and> mp_ok R \<and> canon_digits (digits R) \<and>
        mag R = mag B * 2 ^ shift \<and> mp_sign R = mp_sign S \<and> MPstatic R = MPstatic S \<and> mp_size S \<le> mp_size R)"
      by (rule cpost_mono [OF _ subset_refl]) (use R in blast)
    then show "cpost (cbind (mpget b st1) (\<lambda>B. cbind (mpget r st1) (\<lambda>R.
        cbind (if l = 0 then left_copy (b = r) t d (mp_p B) (mp_p R) else left_bits (b = r) t d l 0 (mp_p B) (mp_p R)) (\<lambda>p.
        cbind (vput (replicate d 0) 0 p) (\<lambda>p. cbind (cguard (n \<le> length p)) (\<lambda>_.
        mpset r (R\<lparr>mp_p := p, mp_top := mpnorm_loop n p\<rparr>) st1)))))) E
      (\<lambda>st'. \<exists>R. updated st r R st' \<and> mp_ok R \<and> canon_digits (digits R) \<and>
        mag R = mag B * 2 ^ shift \<and> mp_sign R = mp_sign S \<and> MPstatic R = MPstatic S \<and> mp_size S \<le> mp_size R)"
      unfolding mpget_obj [OF X(1)] mpget_obj [OF updated_obj(1) [OF u]] cbind_Inr ys(1) p(1) p(2)
      using nP unfolding R_def by simp
  qed
qed

lemma right_loop_result:
  assumes "d < t" "t \<le> length src" "al \<Longrightarrow> src = P" "r < 32" "t - d \<le> length P"
  shows "\<exists>ys. (if r = 0 then right_copy al 0 (t - d) d src P
      else cbind (cguard (d < length src)) (\<lambda>_. right_bits al 0 (t - d - 1) d r (src ! d) src P)) = Inr (ys @ drop (t - d) P) \<and>
    length ys = t - d \<and> val ys = val (drop d (take t src)) div 2 ^ r"
proof (cases "r = 0")
  case True
  have "right_copy al 0 (t - d) d src P = Inr (take (t - d) (drop d src) @ drop (t - d) P)"
    using right_copy_result [of 0 d "t - d" src P al] assms by simp
  then show ?thesis using True assms by (intro exI [of _ "take (t - d) (drop d src)"]) (simp add: drop_take)
next
  case False
  let ?xs = "src ! d # take (t - d - 1) (drop (d + 1) src)"
  have xs: "?xs = drop d (take t src)"
    using assms(1,2) by (simp add: drop_take take_Suc_drop [symmetric] Suc_diff_Suc)
  have td: "t - d - 1 + 1 = t - d" using assms(1) by simp
  have "right_bits al 0 (t - d - 1) d r (src ! d) src P = Inr (rsh_digits r ?xs @ drop (t - d - 1 + 1) P)"
    using right_bits_result [of 0 d "t - d - 1" src P al r "src ! d"] assms by simp
  from this [unfolded td] show ?thesis
    using False assms val_rsh_digits [of r ?xs] unfolding xs by (intro exI [of _ "rsh_digits r (drop d (take t src))"]) simp
qed

lemma mag_drop_div:
  assumes "d * 32 + r = shift" "d \<le> length ds"
  shows "val (drop d ds) div 2 ^ r = val ds div 2 ^ shift"
proof -
  have "val ds div radix ^ d = val (drop d ds)"
    using val_split [OF assms(2)] val_take_bound [of d ds] by simp
  then have "val (drop d ds) div 2 ^ r = val ds div (2 ^ (32 * d) * 2 ^ r)"
    by (simp only: radix_power div_mult2_eq)
  moreover have "32 * d + r = shift" using assms(1) by simp
  ultimately show ?thesis by (simp only: power_add [symmetric])
qed

text \<open>
  A shift by all digits of the operand leaves the sign of the operand; otherwise a zero result is made
  positive.
\<close>

lemma mpright_move_post:
  assumes "obj st b = Some B" "obj st r = Some S" "mp_ok B" "mp_ok S"
  shows "cpost (mpright_move b shift r st) E (\<lambda>st'. \<exists>R. updated st r R st' \<and> mp_ok R \<and> canon_digits (digits R) \<and>
    mag R = mag B div 2 ^ shift \<and> (mp_top R = 0 \<longleftrightarrow> mag R = 0) \<and>
    mp_sign R = (if mag R = 0 \<and> shift div 32 < mp_top B then 1 else mp_sign S) \<and> MPstatic R = MPstatic S)"
proof -
  define t d l where "t = mp_top B" and "d = shift div Dbits" and "l = shift - d * Dbits"
  have l: "l < 32" "d * 32 + l = shift" "d = shift div 32" using shift_split [of shift] by (simp_all add: d_def l_def Dbits_def)
  have ds: "length (digits B) = t" using length_digits [OF assms(3)] by (simp add: t_def)
  define N where "N = int (t * Dbits) - int shift"
  have N: "d < t \<Longrightarrow> DIGITS N = t - d"
  proof -
    assume "d < t"
    have "int Dbits - 1 + N = 31 + int t * 32 - int (d * 32 + l)" unfolding N_def l(2) by (simp add: Dbits_def)
    also have "\<dots> = (31 - int l) + (int t - int d) * 32" by simp
    finally have "(int Dbits - 1 + N) div int Dbits = int t - int d"
      using l(1) by (simp add: Dbits_def)
    then show ?thesis using \<open>d < t\<close> by (simp add: DIGITS_def)
  qed
  let ?rest = "\<lambda>st. cbind (mpget r st) (\<lambda>R. if d \<ge> t then mpset r (R\<lparr>mp_top := 0\<rparr>) st
      else cbind (if l = 0 then right_copy (b = r) 0 (t - d) d (mp_p B) (mp_p R)
         else cbind (cguard (d < length (mp_p B))) (\<lambda>_. right_bits (b = r) 0 (t - d - 1) d l (mp_p B ! d) (mp_p B) (mp_p R))) (\<lambda>p.
        mpset r (R\<lparr>mp_p := p, mp_top := mpnorm_loop (t - d) p, mp_sign := if mpnorm_loop (t - d) p = 0 then 1 else mp_sign R\<rparr>) st))"
  let ?Q = "\<lambda>st'. \<exists>R. updated st r R st' \<and> mp_ok R \<and> canon_digits (digits R) \<and>
    mag R = mag B div 2 ^ shift \<and> (mp_top R = 0 \<longleftrightarrow> mag R = 0) \<and>
    mp_sign R = (if mag R = 0 \<and> shift div 32 < mp_top B then 1 else mp_sign S) \<and> MPstatic R = MPstatic S"
  have rest: "cpost (?rest st1) E ?Q"
    if u: "updated st r S' st1" and S': "mp_ok S'" "mp_sign S' = mp_sign S" "MPstatic S' = MPstatic S"
      "d < t \<Longrightarrow> t - d \<le> length (mp_p S')" "b = r \<Longrightarrow> mp_p B = mp_p S'" for st1 S'
  proof -
    have set: "cpost (mpset r R st1) E ?Q" if "mp_ok R" "canon_digits (digits R)" "mag R = mag B div 2 ^ shift" "mp_top R = 0 \<longleftrightarrow> mag R = 0"
      "mp_sign R = (if mag R = 0 \<and> shift div 32 < mp_top B then 1 else mp_sign S)" "MPstatic R = MPstatic S" for R
    proof (rule cpost_mpset [OF updated_obj(1) [OF u]])
      fix st2
      assume "updated st1 r R st2"
      from updated_trans [OF u this] that show "?Q st2" by (intro exI [of _ R] conjI)
    qed
    show ?thesis
    proof (cases "d \<ge> t")
      case True
      have "mag B < radix ^ t" unfolding mag_def ds [symmetric] by (rule val_bound)
      also have "\<dots> \<le> 2 ^ shift" unfolding radix_power using True l(2) by (intro power_increasing) auto
      finally have z: "mag B div 2 ^ shift = 0" by simp
      have "cpost (mpset r (S'\<lparr>mp_top := 0\<rparr>) st1) E ?Q"
        by (rule set) (use S' z True l(3) in \<open>auto simp: mp_ok_def canon_digits_def digits_def mag_def t_def\<close>)
      then show ?thesis unfolding mpget_obj [OF updated_obj(1) [OF u]] cbind_Inr if_P [OF True] .
    next
      case False
      then have dt: "d < t" by simp
      have src: "take t (mp_p B) = digits B" "t \<le> length (mp_p B)"
        using vget_digits [OF assms(3)] by (simp_all add: vget_Inr_iff t_def)
      obtain ys where ys: "(if l = 0 then right_copy (b = r) 0 (t - d) d (mp_p B) (mp_p S')
           else cbind (cguard (d < length (mp_p B))) (\<lambda>_. right_bits (b = r) 0 (t - d - 1) d l (mp_p B ! d) (mp_p B) (mp_p S'))) =
             Inr (ys @ drop (t - d) (mp_p S'))" "length ys = t - d" "val ys = val (drop d (digits B)) div 2 ^ l"
        using right_loop_result [OF dt src(2), of "b = r" "mp_p S'" l] S'(4) [OF dt] S'(5) l(1) unfolding src(1) by blast
      have v: "val ys = mag B div 2 ^ shift"
        unfolding ys(3) mag_def by (rule mag_drop_div [OF l(2)]) (use dt ds in simp)
      define p where "p = ys @ drop (t - d) (mp_p S')"
      define i where "i = mpnorm_loop (t - d) p"
      have p: "length p = length (mp_p S')" "take (t - d) p = ys" using ys(2) S'(4) [OF dt] by (simp_all add: p_def)
      have i: "canon_digits (take i p)" "val (take i p) = val ys" "i \<le> length p"
        using mpnorm_loop_correct [of "t - d" p] mpnorm_loop_le [of "t - d" p] S'(4) [OF dt] p by (auto simp: i_def)
      have i0: "i = 0 \<longleftrightarrow> val ys = 0"
        using i by (cases "take i p" rule: rev_cases) (auto simp: canon_digits_def val_append unat_eq_zero)
      have "cpost (mpset r (S'\<lparr>mp_p := p, mp_top := i, mp_sign := if i = 0 then 1 else mp_sign S'\<rparr>) st1) E ?Q"
        by (rule set) (use S'(1-3) p(1) i i0 v dt l(3) in \<open>auto simp: mp_ok_def digits_def mag_def t_def\<close>)
      then show ?thesis
        unfolding mpget_obj [OF updated_obj(1) [OF u]] cbind_Inr if_not_P [OF False] ys(1) p_def [symmetric] i_def [symmetric] .
    qed
  qed
  have eq: "mpright_move b shift r st = cbind (if r \<noteq> b then mpbits r N st else Inr st) ?rest"
    unfolding mpright_move_def mpget_obj [OF assms(1)] cbind_Inr Let_def t_def [symmetric] d_def [symmetric]
      l_def [symmetric] N_def [symmetric] by (rule refl)
  show ?thesis
  proof (cases "r = b")
    case True
    then have "S = B" using assms(1,2) by simp
    have "updated st r B st" using assms(1) True by (auto simp: updated_def)
    moreover have "t \<le> length (mp_p B)" using assms(3) by (simp add: mp_ok_def t_def)
    then have "d < t \<Longrightarrow> t - d \<le> length (mp_p B)" by linarith
    ultimately have "cpost (?rest st) E ?Q"
      by (intro rest [of B]) (simp_all only: assms(3) \<open>S = B\<close>)
    then show ?thesis unfolding eq using True by (simp only: simp_thms if_False cbind_Inr)
  next
    case False
    then show ?thesis unfolding eq if_P [OF False]
    proof (intro cpost_seq [OF mpbits_post [OF assms(2,4)]], elim exE conjE)
      fix st1 S'
      assume u: "updated st r S' st1" "mp_ok S'" "mp_sign S' = mp_sign S" "MPstatic S' = MPstatic S"
        "mp_top S' = max (mp_top S) (DIGITS N)"
      show "cpost (?rest st1) E ?Q"
        using u(1-4) by (rule rest) (use u(2,5) N False in \<open>auto simp: mp_ok_def\<close>)
    qed
  qed
qed

lemma shift_seq:
  assumes "obj st b = Some B" "obj st r = Some S" "mp_ok B" "mp_ok S"
    and zero: "\<And>R st1. updated st r R st1 \<Longrightarrow> mp_ok R \<Longrightarrow> mp_top B = 0 \<Longrightarrow> mp_top R = 0 \<Longrightarrow> mp_sign R = mp_sign B \<Longrightarrow>
      MPstatic R = MPstatic S \<Longrightarrow> mp_size R = mp_size S \<Longrightarrow> Q st1"
    and move: "\<And>R B1 st1. updated st r R st1 \<Longrightarrow> mp_ok R \<Longrightarrow> obj st1 b = Some B1 \<Longrightarrow> mp_ok B1 \<Longrightarrow> mp_top B1 = mp_top B \<Longrightarrow>
      mag B1 = mag B \<Longrightarrow> mp_sign R = mp_sign B \<Longrightarrow> MPstatic R = MPstatic S \<Longrightarrow> mp_size R = mp_size S \<Longrightarrow> cpost (f st1) E Q"
  shows "cpost (cbind (shift_head b r st) (\<lambda>(zero, st). if zero then Inr st else f st)) E Q"
proof (rule cpost_seq [OF shift_head_post [OF assms(1-4)]])
  fix x :: "bool \<times> mpstate"
  obtain z st1 where x: "x = (z, st1)" by (cases x)
  assume "case x of (z, st') \<Rightarrow> z = (mp_top B = 0) \<and> (\<exists>R'. updated st r R' st' \<and> mp_ok R' \<and>
    mp_sign R' = mp_sign B \<and> (if z then mp_top R' = 0 else mp_top R' = mp_top S \<and> mp_p R' = mp_p S) \<and> MPstatic R' = MPstatic S \<and>
    mp_size R' = mp_size S)"
  then obtain R where R: "z = (mp_top B = 0)" "updated st r R st1" "mp_ok R" "mp_sign R = mp_sign B"
      "if z then mp_top R = 0 else mp_top R = mp_top S \<and> mp_p R = mp_p S" "MPstatic R = MPstatic S" "mp_size R = mp_size S"
    unfolding x prod.case by blast
  show "cpost (case x of (zero, st) \<Rightarrow> if zero then Inr st else f st) E Q"
  proof (cases z)
    case True
    then show ?thesis using R zero [OF R(2,3)] by (simp add: x)
  next
    case False
    define B1 where "B1 = (if b = r then R else B)"
    have B1: "obj st1 b = Some B1" "mp_ok B1" "mp_top B1 = mp_top B" "mag B1 = mag B"
      using R False assms(1-3) by (auto simp: B1_def mag_def digits_def)
    show ?thesis using move [OF R(2,3) B1 R(4,6,7)] False by (simp add: x)
  qed
qed

lemma mag_top_0: "mp_top R = 0 \<Longrightarrow> mag R = 0 \<and> canon_digits (digits R)"
  by (simp add: mag_def digits_def canon_digits_def)

lemma mpleft_post:
  assumes "obj st b = Some B" "obj st r = Some S" "mp_canon B" "mp_ok S" "0 \<le> shift"
  shows "cpost (mpleft b shift r st) E (\<lambda>st'. \<exists>R. updated st r R st' \<and> mp_canon R \<and>
    mag R = mag B * 2 ^ nat shift \<and> mp_sign R = mp_sign B \<and> MPstatic R = MPstatic S \<and> mp_size S \<le> mp_size R)"
proof -
  have canon: "mp_canon R" if "mp_ok R" "canon_digits (digits R)" "mag R = mag B * 2 ^ nat shift" "mp_sign R = mp_sign B" for R
  proof -
    have "mp_top R = 0 \<Longrightarrow> mp_top B = 0" using mag_top_0 [of R] that(3) mag_0_iff [OF assms(3)] by simp
    with that assms(3) show ?thesis by (simp add: mp_canon_def)
  qed
  have "mpleft b shift r st = cbind (shift_head b r st) (\<lambda>(zero, st). if zero then Inr st else mpleft_move b (nat shift) r st)"
    using assms(5) by (simp add: mpleft.simps cong: if_cong)
  also have "cpost \<dots> E (\<lambda>st'. \<exists>R. updated st r R st' \<and> mp_canon R \<and>
    mag R = mag B * 2 ^ nat shift \<and> mp_sign R = mp_sign B \<and> MPstatic R = MPstatic S \<and> mp_size S \<le> mp_size R)"
  proof (rule shift_seq [OF assms(1,2) mp_canon_ok [OF assms(3)] assms(4)])
    fix R st1
    assume R: "updated st r R st1" "mp_ok R" "mp_top B = 0" "mp_top R = 0" "mp_sign R = mp_sign B" "MPstatic R = MPstatic S" "mp_size R = mp_size S"
    then have "mag R = mag B * 2 ^ nat shift" using mag_top_0 [OF R(3)] mag_top_0 [OF R(4)] by simp
    with R canon [of R] mag_top_0 [OF R(4)]
    show "\<exists>R. updated st r R st1 \<and> mp_canon R \<and> mag R = mag B * 2 ^ nat shift \<and> mp_sign R = mp_sign B \<and> MPstatic R = MPstatic S \<and> mp_size S \<le> mp_size R"
      by (intro exI [of _ R]) simp
  next
    fix R B1 st1
    assume R: "updated st r R st1" "mp_ok R" "obj st1 b = Some B1" "mp_ok B1" "mag B1 = mag B" "mp_sign R = mp_sign B" "MPstatic R = MPstatic S" "mp_size R = mp_size S"
    show "cpost (mpleft_move b (nat shift) r st1) E (\<lambda>st'. \<exists>R. updated st r R st' \<and> mp_canon R \<and>
      mag R = mag B * 2 ^ nat shift \<and> mp_sign R = mp_sign B \<and> MPstatic R = MPstatic S \<and> mp_size S \<le> mp_size R)"
      by (rule cpost_mono [OF mpleft_move_post [OF R(3) updated_obj(1) [OF R(1)] R(4,2)] subset_refl])
        (use R(5-8) updated_trans [OF R(1)] canon in metis)
  qed
  finally show ?thesis .
qed

text \<open>The operand may have leading zeros.\<close>

lemma mpright_post:
  assumes "obj st b = Some B" "obj st r = Some S" "mp_ok B" "mp_ok S" "0 \<le> shift"
  shows "cpost (mpright b shift r st) E (\<lambda>st'. \<exists>R. updated st r R st' \<and> mp_ok R \<and> canon_digits (digits R) \<and>
    mag R = mag B div 2 ^ nat shift \<and> (mp_top R = 0 \<longleftrightarrow> mag R = 0) \<and>
    mp_sign R = (if mag R = 0 \<and> nat shift div 32 < mp_top B then 1 else mp_sign B) \<and> MPstatic R = MPstatic S)"
proof -
  have "mpright b shift r st = cbind (shift_head b r st) (\<lambda>(zero, st). if zero then Inr st else mpright_move b (nat shift) r st)"
    using assms(5) by (simp add: mpright.simps cong: if_cong)
  also have "cpost \<dots> E (\<lambda>st'. \<exists>R. updated st r R st' \<and> mp_ok R \<and> canon_digits (digits R) \<and>
    mag R = mag B div 2 ^ nat shift \<and> (mp_top R = 0 \<longleftrightarrow> mag R = 0) \<and>
    mp_sign R = (if mag R = 0 \<and> nat shift div 32 < mp_top B then 1 else mp_sign B) \<and> MPstatic R = MPstatic S)"
  proof (rule shift_seq [OF assms(1-4)])
    fix R st1
    assume R: "updated st r R st1" "mp_ok R" "mp_top B = 0" "mp_top R = 0" "mp_sign R = mp_sign B" "MPstatic R = MPstatic S"
    show "\<exists>R. updated st r R st1 \<and> mp_ok R \<and> canon_digits (digits R) \<and>
      mag R = mag B div 2 ^ nat shift \<and> (mp_top R = 0 \<longleftrightarrow> mag R = 0) \<and>
      mp_sign R = (if mag R = 0 \<and> nat shift div 32 < mp_top B then 1 else mp_sign B) \<and> MPstatic R = MPstatic S"
      using R mag_top_0 [OF R(3)] mag_top_0 [OF R(4)] by (intro exI [of _ R]) simp
  next
    fix R B1 st1
    assume R: "updated st r R st1" "mp_ok R" "obj st1 b = Some B1" "mp_ok B1" "mp_top B1 = mp_top B" "mag B1 = mag B"
      "mp_sign R = mp_sign B" "MPstatic R = MPstatic S"
    show "cpost (mpright_move b (nat shift) r st1) E (\<lambda>st'. \<exists>R. updated st r R st' \<and> mp_ok R \<and> canon_digits (digits R) \<and>
      mag R = mag B div 2 ^ nat shift \<and> (mp_top R = 0 \<longleftrightarrow> mag R = 0) \<and>
      mp_sign R = (if mag R = 0 \<and> nat shift div 32 < mp_top B then 1 else mp_sign B) \<and> MPstatic R = MPstatic S)"
      by (rule cpost_mono [OF mpright_move_post [OF R(3) updated_obj(1) [OF R(1)] R(4,2)] subset_refl])
        (unfold R(5-8), use updated_trans [OF R(1)] in metis)
  qed
  finally show ?thesis .
qed

end
