(* ===== verification/Mp_Div.thy ===== *)
theory Mp_Div
  imports Mp_Shift
begin

text \<open>
  Division of multiple precision integers, \<^verbatim>\<open>src/libmp/port/mpdiv.c\<close> (Knuth's algorithm D) and
  \<^verbatim>\<open>mpmod.c\<close>: the quotient digits found by trial, and the whole operation on the store.
\<close>

section \<open>One quotient digit\<close>

text \<open>
  D3a: the trial digit is lowered while its product with the two high digits of the divisor exceeds
  the three high digits of the dividend.
\<close>

lemma val_muladd2: "val (mpvecdigmuladd [vlo, vhi] qd [0, 0, 0]) = unat qd * val [vlo, vhi]"
  by (simp add: val_mpvecdigmuladd)

lemma mpveccmp_pos: "0 < mpveccmp a b \<longleftrightarrow> val b < val a"
  by (simp add: mpveccmp_correct sgn_if)

lemma trial_exceeds:
  "0 < mpveccmp (mpvecdigmuladd [vlo, vhi] qd [0, 0, 0]) u3 \<longleftrightarrow> val u3 < unat qd * val [vlo, vhi]"
  unfolding mpveccmp_pos val_muladd2 ..

function mpdiv_trial :: "mpdigit \<Rightarrow> mpdigit \<Rightarrow> mpdigit list \<Rightarrow> mpdigit \<Rightarrow> mpdigit" where
  "mpdiv_trial vlo vhi u3 qd =
    (if mpveccmp (mpvecdigmuladd [vlo, vhi] qd [0, 0, 0]) u3 > 0 then mpdiv_trial vlo vhi u3 (qd - 1) else qd)"
  by pat_completeness auto
termination
proof (relation "measure (\<lambda>(vlo, vhi, u3, qd). unat qd)")
  fix vlo vhi qd :: mpdigit and u3
  assume "0 < mpveccmp (mpvecdigmuladd [vlo, vhi] qd [0, 0, 0]) u3"
  then have "val u3 < unat qd * val [vlo, vhi]" unfolding trial_exceeds .
  then have "qd \<noteq> 0" by (cases "qd = 0") simp_all
  then show "((vlo, vhi, u3, qd - 1), vlo, vhi, u3, qd) \<in> measure (\<lambda>(vlo, vhi, u3, qd). unat qd)"
    by (simp add: unat_minus_one unat_gt_0 word_neq_0_conv)
qed simp

declare mpdiv_trial.simps [simp del]

text \<open>D3 to D6 at \<open>j\<close>: the quotient digit, and the dividend less the divisor times the digit.\<close>

definition mpdiv_digit :: "mpdigit list \<Rightarrow> nat \<Rightarrow> mpdigit list \<Rightarrow> (mpdigit \<times> mpdigit list) cres" where
  "mpdiv_digit v j up =
    (let vn = length v in
     cbind (cguard (1 \<le> vn \<and> vn < j \<and> j \<le> length up)) (\<lambda>_.
       let qd = mpdigdiv (up ! (j - 1)) (up ! (j - 2)) (v ! (vn - 1));
           qd = (if vn > 1 then mpdiv_trial (v ! (vn - 2)) (v ! (vn - 1)) (take 3 (drop (j - 3) up)) qd else qd);
           (w, sign) = mpvecdigmulsub v qd (take (vn + 1) (drop (j - 1 - vn) up))
       in
       if sign < 0
       then cbind (vput (mpvecadd w v) (j - 1 - vn) up) (\<lambda>up. Inr (qd - 1, up))
       else cbind (vput w (j - 1 - vn) up) (\<lambda>up. Inr (qd, up))))"

text \<open>D2, D7: \<open>k\<close> digits to go; the digits of the quotient, low first.\<close>

fun mpdiv_loop :: "nat \<Rightarrow> mpdigit list \<Rightarrow> mpdigit list \<Rightarrow> (mpdigit list \<times> mpdigit list) cres" where
  "mpdiv_loop 0 v up = Inr ([], up)"
| "mpdiv_loop (Suc k) v up =
    cbind (mpdiv_digit v (length v + Suc k) up) (\<lambda>(qd, up).
      cbind (mpdiv_loop k v (up[length v + k := 0])) (\<lambda>(qs, up). Inr (qs @ [qd], up)))"

text \<open>D1: the shift that brings the high bit of the divisor up; 0 would be shifted for ever.\<close>

definition mpdighi :: mpdigit where "mpdighi = push_bit (Dbits - 1) 1"

fun mpdiv_shift :: "nat \<Rightarrow> nat \<Rightarrow> mpdigit \<Rightarrow> nat cres" where
  "mpdiv_shift 0 s qd = Inl Undef"
| "mpdiv_shift (Suc k) s qd = (if qd AND mpdighi = 0 then mpdiv_shift k (s + 1) (push_bit 1 qd) else Inr s)"

section \<open>mpdiv.c\<close>

text \<open>An operation on a result that may be absent.\<close>

definition if_some :: "'a option \<Rightarrow> ('a \<Rightarrow> mpstate \<Rightarrow> mpstate cres) \<Rightarrow> mpstate \<Rightarrow> mpstate cres" where
  "if_some x f st = (case x of None \<Rightarrow> Inr st | Some a \<Rightarrow> f a st)"

text \<open>D1: copies of dividend and divisor, shifted; the divisor itself serves when it can.\<close>

definition mpdiv_copy :: "mpaddr \<Rightarrow> mpaddr \<Rightarrow> bool \<Rightarrow> nat \<Rightarrow> mpstate \<Rightarrow> (mpaddr \<times> mpaddr \<times> mpstate) cres" where
  "mpdiv_copy dividend divisor overwritten s st =
    cbind (mpget dividend st) (\<lambda>A.
    cbind (mpget divisor st) (\<lambda>D.
    cbind (mpnew (int ((mp_top A + 2) * Dbits + s)) st) (\<lambda>(u, st).
      if s = 0 \<and> \<not> overwritten then
        cbind (mpassign dividend u st) (\<lambda>st. Inr (u, divisor, st))
      else
        cbind (mpleft dividend (int s) u st) (\<lambda>st.
        cbind (mpnew (int (mp_top D * Dbits)) st) (\<lambda>(v, st).
        cbind (mpleft divisor (int s) v st) (\<lambda>st. Inr (u, v, st)))))))"

text \<open>D1a: the high digit of the dividend is made less than that of the divisor.\<close>

definition mpdiv_extend :: "mpaddr \<Rightarrow> mpaddr \<Rightarrow> mpstate \<Rightarrow> mpstate cres" where
  "mpdiv_extend u v st =
    cbind (mpget u st) (\<lambda>U.
    cbind (mpget v st) (\<lambda>V.
    cbind (cguard (1 \<le> mp_top U \<and> mp_top U \<le> length (mp_p U) \<and> 1 \<le> mp_top V \<and> mp_top V \<le> length (mp_p V))) (\<lambda>_.
      if mp_p U ! (mp_top U - 1) \<ge> mp_p V ! (mp_top V - 1) then
        cbind (cguard (mp_top U < length (mp_p U))) (\<lambda>_.
          mpset u (U\<lparr>mp_p := (mp_p U)[mp_top U := 0], mp_top := mp_top U + 1\<rparr>) st)
      else Inr st)))"

text \<open>The digits of the quotient, its sign, and the remainder, which is what is left of the dividend.\<close>

definition mpdiv_quotient :: "mpaddr \<Rightarrow> nat \<Rightarrow> mpstate \<Rightarrow> mpstate cres" where
  "mpdiv_quotient q n st =
    cbind (mpbits q (int (n * Dbits)) st) (\<lambda>st.
    cbind (mpget q st) (\<lambda>Q. mpset q (Q\<lparr>mp_top := n\<rparr>) st))"

definition mpdiv_store :: "mpaddr \<Rightarrow> mpaddr \<Rightarrow> mpdigit list \<Rightarrow> mpaddr \<Rightarrow> mpstate \<Rightarrow> mpstate cres" where
  "mpdiv_store dividend divisor qs q st =
    cbind (mpget q st) (\<lambda>Q.
    cbind (vput qs 0 (mp_p Q)) (\<lambda>p.
    cbind (mpset q (Q\<lparr>mp_p := p\<rparr>) st) (\<lambda>st.
    cbind (mpnorm q st) (\<lambda>st.
    cbind (mpget dividend st) (\<lambda>A.
    cbind (mpget divisor st) (\<lambda>D.
    cbind (mpget q st) (\<lambda>Q.
      if mp_sign A \<noteq> mp_sign D then mpset q (Q\<lparr>mp_sign := -1\<rparr>) st else Inr st)))))))"

definition mpdiv_remainder :: "mpaddr \<Rightarrow> mpaddr \<Rightarrow> nat \<Rightarrow> mpaddr \<Rightarrow> mpstate \<Rightarrow> mpstate cres" where
  "mpdiv_remainder dividend u s r st =
    cbind (mpright u (int s) r st) (\<lambda>st.
    cbind (mpget dividend st) (\<lambda>A.
    cbind (mpget r st) (\<lambda>R. mpset r (R\<lparr>mp_sign := mp_sign A\<rparr>) st)))"

definition mpdiv_finish ::
    "mpaddr \<Rightarrow> mpaddr \<Rightarrow> mpaddr option \<Rightarrow> mpaddr option \<Rightarrow> nat \<Rightarrow> mpaddr \<Rightarrow> mpaddr \<Rightarrow> mpaddr \<Rightarrow> mpdigit list \<Rightarrow> mpstate \<Rightarrow> mpstate cres" where
  "mpdiv_finish dividend divisor quot rmd s t u v qs st =
    cbind (if_some quot (mpdiv_store dividend divisor qs) st) (\<lambda>st.
    cbind (if_some rmd (mpdiv_remainder dividend u s) st) (\<lambda>st.
    cbind (mpfree t st) (\<lambda>st.
    cbind (mpfree u st) (\<lambda>st.
      if v \<noteq> divisor then mpfree v st else Inr st))))"

definition mpdiv_main :: "mpaddr \<Rightarrow> mpaddr \<Rightarrow> mpaddr option \<Rightarrow> mpaddr option \<Rightarrow> nat \<Rightarrow> mpstate \<Rightarrow> mpstate cres" where
  "mpdiv_main dividend divisor quot rmd s st =
    cbind (mpdiv_copy dividend divisor (quot = Some divisor \<or> rmd = Some divisor) s st) (\<lambda>(u, v, st).
    cbind (mpdiv_extend u v st) (\<lambda>st.
    cbind (mpnew (int (4 * Dbits)) st) (\<lambda>(t, st).
    cbind (mpget u st) (\<lambda>U.
    cbind (mpget v st) (\<lambda>V.
    cbind (if_some quot (\<lambda>q. mpdiv_quotient q (mp_top U - mp_top V)) st) (\<lambda>st.
    cbind (vget 0 (mp_top V) (mp_p V)) (\<lambda>vd.
    cbind (mpdiv_loop (mp_top U - mp_top V) vd (mp_p U)) (\<lambda>(qs, up).
    cbind (mpset u (U\<lparr>mp_p := up, mp_top := mp_top V\<rparr>) st) (\<lambda>st.
      mpdiv_finish dividend divisor quot rmd s t u v qs st)))))))))"

definition mpdiv :: "mpaddr \<Rightarrow> mpaddr \<Rightarrow> mpaddr option \<Rightarrow> mpaddr option \<Rightarrow> mpstate \<Rightarrow> mpstate cres" where
  "mpdiv dividend divisor quot rmd st =
    cbind (mpget divisor st) (\<lambda>D.
    cbind (craise (mp_top D = 0) ''mpdiv: divide by zero'') (\<lambda>_.
    cbind (mpmagcmp dividend divisor st) (\<lambda>c.
      if c < 0 then
        cbind (if_some rmd (mpassign dividend) st) (\<lambda>st.
          if_some quot (mpassign mpzero) st)
      else
        cbind (cguard (mp_top D \<le> length (mp_p D))) (\<lambda>_.
        cbind (mpdiv_shift Dbits 0 (mp_p D ! (mp_top D - 1))) (\<lambda>s.
          mpdiv_main dividend divisor quot rmd s st)))))"

section \<open>mpmod.c\<close>

definition mpmod :: "mpaddr \<Rightarrow> mpaddr \<Rightarrow> mpaddr \<Rightarrow> mpstate \<Rightarrow> mpstate cres" where
  "mpmod b m remainder st =
    cbind (mpdiv b m None (Some remainder) st) (\<lambda>st.
    cbind (mpget remainder st) (\<lambda>R.
      if mp_sign R < 0 then mpadd m remainder remainder st else Inr st))"

section \<open>The trial digit\<close>

lemma mpdiv_trial_le:
  assumes "q * val [vlo, vhi] \<le> val u3" "q \<le> unat qd"
  shows "q \<le> unat (mpdiv_trial vlo vhi u3 qd)"
    and "unat (mpdiv_trial vlo vhi u3 qd) * val [vlo, vhi] \<le> val u3"
  using assms
proof (induction vlo vhi u3 qd rule: mpdiv_trial.induct)
  case (1 vlo vhi u3 qd)
  define V where "V = val [vlo, vhi]"
  have cmp: "0 < mpveccmp (mpvecdigmuladd [vlo, vhi] qd [0, 0, 0]) u3 \<longleftrightarrow> val u3 < unat qd * V"
    unfolding trial_exceeds V_def ..
  {
    case 1
    then show ?case
    proof (cases "val u3 < unat qd * V")
      case True
      then have "q * V < unat qd * V" using 1(1) unfolding V_def by linarith
      then have "q < unat qd" by simp
      moreover then have "unat (qd - 1) = unat qd - 1" by (intro unat_minus_one) auto
      ultimately show ?thesis
        using True cmp "1.IH"(1) 1 by (subst mpdiv_trial.simps) simp
    next
      case False
      then show ?thesis using cmp 1 by (subst mpdiv_trial.simps) simp
    qed
  next
    case 2
    then show ?case
    proof (cases "val u3 < unat qd * V")
      case True
      then have "q * V < unat qd * V" using 2(1) unfolding V_def by linarith
      then have "q < unat qd" by simp
      moreover then have "unat (qd - 1) = unat qd - 1" by (intro unat_minus_one) auto
      ultimately show ?thesis
        using True cmp "1.IH"(2) 2 by (subst mpdiv_trial.simps) simp
    next
      case False
      then show ?thesis using cmp 2 unfolding V_def by (subst mpdiv_trial.simps) simp
    qed
  }
qed

text \<open>
  Knuth's bounds. The window \<open>w\<close> is less than \<open>B\<close> times the divisor \<open>v\<close>. The trial digit from the two
  high digits is not too small; one that passes the test on three digits is too large by one at most.
\<close>

lemma trial_not_small:
  fixes w v :: nat
  assumes "w < (h * r + l + 1) * p" "vh * p \<le> v" "0 < vh" "0 < p"
  shows "w div v \<le> (h * r + l) div vh"
proof -
  have "w div v \<le> w div (p * vh)" using assms(2-4) by (intro div_le_mono2) (simp_all add: mult.commute)
  also have "\<dots> = w div p div vh" by (rule div_mult2_eq)
  also have "\<dots> \<le> (h * r + l) div vh"
    using assms(1) by (intro div_le_mono) (metis less_Suc_eq_le less_mult_imp_div_less Suc_eq_plus1)
  finally show ?thesis .
qed

lemma trial_not_large:
  fixes w v q :: nat
  assumes "v < (v2 + 1) * p" "u3 * p \<le> w" "q * v2 \<le> u3" "q * p \<le> v" "0 < v"
  shows "q \<le> w div v + 1"
proof (cases "q = 0")
  case False
  have "q * v < q * ((v2 + 1) * p)" using assms(1) False by simp
  also have "\<dots> = q * v2 * p + q * p" by (simp add: algebra_simps)
  also have "\<dots> \<le> w + v"
    using mult_le_mono1 [OF assms(3), of p] assms(2,4) by linarith
  finally have "q * v < w + v" .
  moreover have "w = w div v * v + w mod v" by simp
  ultimately have "q * v < (w div v + 2) * v"
    using mod_less_divisor [OF assms(5), of w] unfolding add_mult_distrib by linarith
  then have "q < w div v + 2" by (rule mult_less_cancel2 [THEN iffD1, THEN conjunct2])
  then show ?thesis by simp
qed simp

definition trial_digit :: "mpdigit list \<Rightarrow> mpdigit list \<Rightarrow> mpdigit" where
  "trial_digit v win =
    (let vn = length v; qd = mpdigdiv (win ! vn) (win ! (vn - 1)) (v ! (vn - 1)) in
     if vn > 1 then mpdiv_trial (v ! (vn - 2)) (v ! (vn - 1)) (drop (vn - 2) win) qd else qd)"

lemma drop_last2: "length xs = Suc (Suc n) \<Longrightarrow> drop n xs = [xs ! n, xs ! Suc n]"
  by (simp add: Cons_nth_drop_Suc [symmetric])

lemma first_trial:
  assumes "length v = Suc n" "v ! n \<noteq> 0" "length win = Suc (Suc n)" "val win < radix * val v"
  defines "q0 \<equiv> mpdigdiv (win ! Suc n) (win ! n) (v ! n)"
  shows "val win div val v \<le> unat q0" and "n = 0 \<Longrightarrow> unat q0 = val win div val v"
proof -
  define p where "p = radix ^ n"
  have vh: "0 < unat (v ! n)" using assms(2) by (simp add: unat_gt_0)
  have dv: "drop n v = [v ! n]" using assms(1) by (simp add: Cons_nth_drop_Suc [symmetric])
  have dw: "drop n win = [win ! n, win ! Suc n]" using drop_last2 [OF assms(3)] .
  have v: "val v = val (take n v) + p * unat (v ! n)"
    using val_split [of n v] assms(1) unfolding dv p_def by simp
  have w: "val win = val (take n win) + p * (unat (win ! n) + radix * unat (win ! Suc n))"
    using val_split [of n win] assms(3) unfolding dw p_def by simp
  have tw: "val (take n win) < p" unfolding p_def by (rule val_take_bound)
  have v0: "0 < val v" using v vh by (simp add: p_def)
  show le: "val win div val v \<le> unat q0"
  proof (cases "win ! Suc n < v ! n")
    case True
    have "val win < (unat (win ! Suc n) * radix + unat (win ! n) + 1) * p"
      using tw unfolding w by (simp add: algebra_simps)
    moreover have "unat (v ! n) * p \<le> val v" unfolding v by simp
    ultimately have "val win div val v \<le> (unat (win ! Suc n) * radix + unat (win ! n)) div unat (v ! n)"
      by (rule trial_not_small) (use vh in \<open>simp_all add: p_def\<close>)
    then show ?thesis unfolding q0_def mpdigdiv_correct [OF True] by (simp add: algebra_simps)
  next
    case False
    then have "q0 = NOT 0" by (simp add: q0_def mpdigdiv_def not_less)
    then have "unat q0 = radix - 1" by (simp add: unsigned_minus_1_eq_mask mask_eq_exp_minus_1)
    moreover have "val win div val v < radix" using assms(4) v0 by (simp add: less_mult_imp_div_less)
    ultimately show ?thesis by simp
  qed
  show "unat q0 = val win div val v" if n: "n = 0"
  proof -
    have "p = 1" using n by (simp add: p_def)
    then have vv: "val v = unat (v ! n)" "val win = unat (win ! n) + radix * unat (win ! Suc n)" using v w n by simp_all
    have "radix * unat (win ! Suc n) < radix * unat (v ! n)" using assms(4) unfolding vv by linarith
    then have "win ! Suc n < v ! n" by (simp add: word_less_nat_alt)
    then show ?thesis unfolding q0_def vv by (rule mpdigdiv_correct)
  qed
qed

lemma trial_digit_correct:
  assumes "length v = Suc n" "v ! n \<noteq> 0" "length win = Suc (Suc n)" "val win < radix * val v"
  shows "val win div val v \<le> unat (trial_digit v win) \<and> unat (trial_digit v win) \<le> val win div val v + 1"
proof (cases n)
  case 0
  then show ?thesis
    using first_trial(2) [OF assms] assms(1) by (simp add: trial_digit_def)
next
  case (Suc m)
  define q0 where "q0 = mpdigdiv (win ! Suc n) (win ! n) (v ! n)"
  define u3 where "u3 = drop m win"
  define p where "p = radix ^ m"
  define v2 where "v2 = val [v ! m, v ! n]"
  define q where "q = val win div val v"
  have td: "trial_digit v win = mpdiv_trial (v ! m) (v ! n) u3 q0"
    using assms(1) Suc by (simp add: trial_digit_def q0_def u3_def)
  have vh: "0 < unat (v ! n)" using assms(2) by (simp add: unat_gt_0)
  have v: "val v = val (take m v) + p * v2"
    using val_split [of m v] drop_last2 [of v m] assms(1) Suc unfolding p_def v2_def by simp
  have w: "val win = val (take m win) + p * val u3"
    using val_split [of m win] assms(3) Suc unfolding p_def u3_def by simp
  have tb: "val (take m v) < p" "val (take m win) < p" unfolding p_def by (rule val_take_bound)+
  have v2: "radix \<le> v2" using vh unfolding v2_def by simp
  have v0: "0 < val v" using v v2 by (simp add: p_def)
  have qle: "q * v2 \<le> val u3"
  proof -
    have "q * (p * v2) \<le> q * val v" unfolding v by (intro mult_le_mono2) simp
    also have "\<dots> \<le> val win" unfolding q_def by simp
    also have "\<dots> < p * (val u3 + 1)" using tb(2) unfolding w by simp
    finally have "p * (q * v2) < p * (val u3 + 1)" by (simp only: mult.left_commute)
    then have "q * v2 < val u3 + 1" by (rule mult_less_cancel1 [THEN iffD1, THEN conjunct2])
    then show ?thesis by simp
  qed
  have q0: "q \<le> unat q0" using first_trial(1) [OF assms] by (simp add: q_def q0_def)
  note tr = mpdiv_trial_le [of q "v ! m" "v ! n" u3 q0, folded v2_def td, OF qle q0]
  have "unat (trial_digit v win) * p \<le> radix * p" using unat_digit [of "trial_digit v win"] by (intro mult_le_mono1) simp
  also have "\<dots> \<le> v2 * p" using v2 by (rule mult_le_mono1)
  also have "\<dots> \<le> val v" unfolding v by simp
  finally have "unat (trial_digit v win) \<le> q + 1"
    unfolding q_def using tr(2) tb v w v0 by (intro trial_not_large [of "val v" v2 p "val u3"]) (simp_all add: algebra_simps)
  then show ?thesis using tr(1) by (simp add: q_def)
qed

section \<open>One step\<close>

lemma mpdiv_digit_eq:
  assumes "length v = Suc n" "length win = Suc (Suc n)"
  shows "mpdiv_digit v (length low + Suc (Suc n)) (low @ win @ high) =
    (let qd = trial_digit v win; (w, sign) = mpvecdigmulsub v qd win in
     if sign < 0
     then cbind (vput (mpvecadd w v) (length low) (low @ win @ high)) (\<lambda>up. Inr (qd - 1, up))
     else cbind (vput w (length low) (low @ win @ high)) (\<lambda>up. Inr (qd, up)))"
proof -
  let ?up = "low @ win @ high" and ?j = "length low + Suc (Suc n)"
  have g: "(1 \<le> length v \<and> length v < ?j \<and> ?j \<le> length ?up) = True" using assms by simp
  have j: "?j - 1 - length v = length low" using assms(1) by simp
  have t: "take (length v + 1) (drop (length low) ?up) = win" using assms by simp
  have "take 3 (drop (?j - 3) ?up) = drop (n - 1) win" if "0 < n"
  proof -
    have "?j - 3 = length low + (n - 1)" using that by simp
    then show ?thesis using that assms(2) by simp
  qed
  then have q: "(if length v > 1 then mpdiv_trial (v ! (length v - 2)) (v ! (length v - 1)) (take 3 (drop (?j - 3) ?up))
        (mpdigdiv (?up ! (?j - 1)) (?up ! (?j - 2)) (v ! (length v - 1)))
      else mpdigdiv (?up ! (?j - 1)) (?up ! (?j - 2)) (v ! (length v - 1))) = trial_digit v win"
    using assms by (simp add: trial_digit_def Let_def nth_append)
  show ?thesis unfolding mpdiv_digit_def Let_def g q j t cguard_simps cbind_Inr ..
qed

lemma mpdiv_digit_correct:
  assumes "length v = Suc n" "v ! n \<noteq> 0" "length win = Suc (Suc n)" "val win < radix * val v" "high \<noteq> []"
  shows "\<exists>qd win' high'. mpdiv_digit v (length low + Suc (Suc n)) (low @ win @ high) = Inr (qd, low @ win' @ high') \<and>
    length win' = Suc (Suc n) \<and> length high' = length high \<and>
    unat qd = val win div val v \<and> val win' = val win mod val v"
proof -
  define qd where "qd = trial_digit v win"
  obtain w sign where ms: "mpvecdigmulsub v qd win = (w, sign)" by (cases "mpvecdigmulsub v qd win")
  have lw: "length v < length win" using assms by simp
  note w = val_mpvecdigmulsub [OF lw ms]
  have q: "val win div val v \<le> unat qd" "unat qd \<le> val win div val v + 1"
    using trial_digit_correct [OF assms(1-4)] by (auto simp: qd_def)
  define V where "V = val v"
  have dm: "val win = val win div V * V + val win mod V" by simp
  have V: "0 < V" using assms(4) by (auto simp: V_def)
  note mod = mod_less_divisor [OF V, of "val win"]
  have eq: "mpdiv_digit v (length low + Suc (Suc n)) (low @ win @ high) =
    (if sign < 0
     then cbind (vput (mpvecadd w v) (length low) (low @ win @ high)) (\<lambda>up. Inr (qd - 1, up))
     else cbind (vput w (length low) (low @ win @ high)) (\<lambda>up. Inr (qd, up)))"
    unfolding mpdiv_digit_eq [OF assms(1,3)] qd_def [symmetric] Let_def ms prod.case ..
  show ?thesis
  proof (cases "sign < 0")
    case False
    then have s: "sign = 1" using w(2) by auto
    then have vw: "val w + unat qd * V = val win" using w(3) by (simp add: V_def)
    then have "unat qd * V < (val win div V + 1) * V"
      using dm mod unfolding add_mult_distrib by linarith
    then have "unat qd < val win div V + 1" by (rule mult_less_cancel2 [THEN iffD1, THEN conjunct2])
    then have qd: "unat qd = val win div V" using q by (simp add: V_def)
    moreover have "val w = val win mod V" using vw [unfolded qd] dm by linarith
    moreover have "vput w (length low) (low @ win @ high) = Inr (low @ w @ high)" using w(1) by (simp add: vput_def)
    ultimately show ?thesis unfolding eq using False w(1) assms(3) by (auto simp: V_def)
  next
    case True
    then have s: "sign = -1" using w(2) by auto
    define R where "R = radix ^ (length v + 1)"
    have vw: "val w + unat qd * V = val win + R" using w(3) s by (simp add: V_def R_def)
    have wR: "val w < R" using val_bound [of w] w(1) assms by (simp add: R_def)
    have "unat qd \<noteq> val win div V"
    proof
      assume e: "unat qd = val win div V"
      show False using vw [unfolded e] dm wR by linarith
    qed
    then have qd: "unat qd = val win div V + 1" using q by (simp add: V_def)
    then have q1: "unat (qd - 1) = val win div V" by (subst unat_minus_one) auto
    have "val w + V = val win mod V + R" using vw [unfolded qd add_mult_distrib] dm by linarith
    define a where "a = mpvecadd w v"
    have a: "length a = Suc (Suc (Suc n))" "val a = val win mod V + R"
      using w(1) assms val_mpvecadd [of v w] \<open>val w + V = val win mod V + R\<close> by (simp_all add: a_def V_def)
    have VR: "V < R"
      using val_bound [of v] power_increasing [of "length v" "length v + 1" radix] unfolding V_def R_def by simp
    have "val a = val (take (length v + 1) a) + R * val (drop (length v + 1) a)"
      unfolding R_def using a(1) assms(1) by (intro val_split) simp
    moreover have "val (take (length v + 1) a) < R" unfolding R_def by (rule val_take_bound)
    ultimately have "val (take (length v + 1) a) = val a mod R" by simp
    also have "\<dots> = val win mod V" unfolding a(2) using mod VR by simp
    finally have lo: "val (take (Suc (Suc n)) a) = val win mod V" using assms(1) by simp
    obtain h hs where high: "high = h # hs" using assms(5) by (cases high) auto
    have "vput a (length low) (low @ win @ high) = Inr (low @ a @ hs)"
      using a(1) assms(3) by (simp add: vput_def high)
    moreover have "a = take (Suc (Suc n)) a @ drop (Suc (Suc n)) a" by simp
    then have "low @ a @ hs = low @ take (Suc (Suc n)) a @ (drop (Suc (Suc n)) a @ hs)" by (metis append.assoc)
    ultimately have "mpdiv_digit v (length low + Suc (Suc n)) (low @ win @ high) =
        Inr (qd - 1, low @ take (Suc (Suc n)) a @ (drop (Suc (Suc n)) a @ hs))"
      unfolding eq if_P [OF True] a_def [symmetric] by simp
    then show ?thesis
      using a(1) lo q1 by (intro exI [of _ "qd - 1"] exI [of _ "take (Suc (Suc n)) a"] exI [of _ "drop (Suc (Suc n)) a @ hs"])
        (simp add: V_def high)
  qed
qed

section \<open>The loop\<close>

lemma mpdiv_loop_correct:
  assumes "length v = Suc n" "v ! n \<noteq> 0"
  shows "length low = k \<Longrightarrow> length W = Suc n \<Longrightarrow> val W < val v \<Longrightarrow> high \<noteq> [] \<Longrightarrow>
    \<exists>qs W' high'. mpdiv_loop k v (low @ W @ high) = Inr (qs, W' @ high') \<and> length qs = k \<and> length W' = Suc n \<and>
      length high' = k + length high \<and> val W' < val v \<and> val (low @ W) = val qs * val v + val W'"
proof (induction k arbitrary: low W high)
  case 0
  then show ?case by (auto intro!: exI)
next
  case (Suc k)
  obtain low' d where low: "low = low' @ [d]" using Suc.prems(1) by (cases low rule: rev_cases) auto
  have ll: "length low' = k" using Suc.prems(1) low by simp
  have wb: "val (d # W) < radix * val v"
    using unat_digit [of d] digit_decides [of "val W" "val v" "unat d" radix 0] Suc.prems(3) by simp
  obtain qd win high' where st: "mpdiv_digit v (length low' + Suc (Suc n)) (low' @ (d # W) @ high) = Inr (qd, low' @ win @ high')"
      "length win = Suc (Suc n)" "length high' = length high" "unat qd = val (d # W) div val v" "val win = val (d # W) mod val v"
    using mpdiv_digit_correct [OF assms, of "d # W" high low'] Suc.prems(2,4) wb by auto
  have v0: "0 < val v" using Suc.prems(3) by simp
  have wv: "val win < val v" unfolding st(5) using v0 by simp
  also have "\<dots> < radix ^ Suc n" using val_bound [of v] assms(1) by simp
  finally have wr: "val win < radix ^ Suc n" .
  define W1 where "W1 = take (Suc n) win"
  have W1: "length W1 = Suc n" "val W1 = val win" using st(2) val_take_eq [OF wr] by (simp_all add: W1_def)
  have win: "win = W1 @ [0]"
    using nth_0_of_val [OF wr] st(2) take_Suc_conv_app_nth [of "Suc n" win] by (simp add: W1_def)
  have z: "(low' @ win @ high')[length v + k := 0] = low' @ W1 @ (0 # high')"
    using assms(1) ll W1(1) by (simp add: win list_update_append)
  obtain qs W2 high2 where ih: "mpdiv_loop k v (low' @ W1 @ (0 # high')) = Inr (qs, W2 @ high2)" "length qs = k" "length W2 = Suc n"
      "length high2 = k + length (0 # high')" "val W2 < val v" "val (low' @ W1) = val qs * val v + val W2"
    using Suc.IH [of low' W1 "0 # high'"] ll W1 wv by auto
  have "length v + Suc k = length low' + Suc (Suc n)" using assms(1) ll by simp
  then have "mpdiv_loop (Suc k) v (low @ W @ high) = Inr (qs @ [qd], W2 @ high2)"
    using st(1) z ih(1) by (simp add: low)
  moreover have "val (low @ W) = val (qs @ [qd]) * val v + val W2"
  proof -
    have "val (d # W) = unat qd * val v + val W1" unfolding st(4) W1(2) st(5) by simp
    then have "val (low @ W) = val low' + radix ^ k * (unat qd * val v + val W1)" by (simp add: low val_append ll)
    also have "\<dots> = val (low' @ W1) + radix ^ k * unat qd * val v" by (simp add: val_append ll algebra_simps)
    finally show ?thesis unfolding ih(6) using ih(2) by (simp add: val_append algebra_simps)
  qed
  ultimately show ?case using ih st(3) by (intro exI [of _ "qs @ [qd]"] exI [of _ W2] exI [of _ high2]) simp
qed

section \<open>The shift of D1\<close>

lemma and_mpdighi: "qd AND mpdighi = 0 \<longleftrightarrow> unat qd < 2 ^ 31"
proof -
  have "mpdighi = 2 ^ 31" by (simp add: mpdighi_def Dbits_def)
  then have "qd AND mpdighi = 0 \<longleftrightarrow> \<not> bit qd 31"
    by (simp only: bit_iff_and_push_bit_not_eq_0 push_bit_of_1 not_not)
  also have "bit qd 31 \<longleftrightarrow> bit (unat qd) 31" by (simp add: bit_unsigned_iff)
  also have "\<dots> \<longleftrightarrow> odd (unat qd div 2 ^ 31)" by (rule bit_iff_odd)
  also have "\<not> odd (unat qd div 2 ^ 31) \<longleftrightarrow> unat qd < 2 ^ 31"
  proof -
    have "unat qd div 2 ^ 31 < 2" using unat_digit [of qd] by (simp add: less_mult_imp_div_less)
    then have "\<not> odd (unat qd div 2 ^ 31) \<longleftrightarrow> unat qd div 2 ^ 31 = 0" by (auto simp: less_2_cases_iff)
    then show ?thesis by (simp add: div_eq_0_iff)
  qed
  finally show ?thesis .
qed

lemma mpdiv_shift_bound:
  "2 ^ (32 - k) \<le> unat qd \<Longrightarrow> 1 \<le> k \<Longrightarrow> k \<le> 32 \<Longrightarrow> \<exists>s'. mpdiv_shift k s qd = Inr s' \<and> s' < s + k"
proof (induction k s qd rule: mpdiv_shift.induct)
  case (2 k s qd)
  show ?case
  proof (cases "qd AND mpdighi = 0")
    case True
    then have lt: "unat qd < 2 ^ 31" by (simp add: and_mpdighi)
    have k: "1 \<le> k"
    proof (rule ccontr)
      assume "\<not> 1 \<le> k"
      then have "k = 0" by simp
      then show False using lt 2(2) by simp
    qed
    have "unat (push_bit 1 qd) = 2 * unat qd"
      using lt unat_push_bit_mod [of 1 qd] by simp
    moreover have "2 * 2 ^ (32 - Suc k) = (2 :: nat) ^ (32 - k)"
      using 2(4) by (simp flip: power_Suc add: Suc_diff_Suc)
    ultimately have "2 ^ (32 - k) \<le> unat (push_bit 1 qd)" using 2(2) by simp
    then show ?thesis using 2(1) [OF True _ k] 2(4) True by auto
  qed simp
qed simp

lemma mpdiv_shift_correct: "qd \<noteq> 0 \<Longrightarrow> \<exists>s<32. mpdiv_shift Dbits 0 qd = Inr s"
  using mpdiv_shift_bound [of 32 qd 0] by (auto simp: Dbits_def Suc_le_eq unat_gt_0)

end
