(* ===== verification/Mp_Div_Proofs.thy ===== *)
theory Mp_Div_Proofs
  imports Mp_Div
begin

text \<open>
  Division on the store: the temporaries of \<open>mpdiv\<close> are gone when it returns, and quotient and remainder
  are those of the magnitudes, with the signs that the code gives them.
\<close>

section \<open>Temporaries\<close>

text \<open>\<open>visible m T st\<close>: outside the temporaries \<open>T\<close>, which are new, the store is \<open>m\<close>.\<close>

definition visible :: "(mpaddr \<Rightarrow> mpint option) \<Rightarrow> mpaddr set \<Rightarrow> mpstate \<Rightarrow> bool" where
  "visible m T st \<longleftrightarrow> (\<forall>a. a \<notin> T \<longrightarrow> obj st a = m a) \<and> (\<forall>a\<in>T. m a = None) \<and> 1 \<le> mpmindigits st"

lemma visible_start: "1 \<le> mpmindigits st \<Longrightarrow> visible (obj st) {} st"
  by (simp add: visible_def)

lemma visible_new: "visible m T st \<Longrightarrow> obj st t = None \<Longrightarrow> updated st t X st' \<Longrightarrow> visible m (insert t T) st'"
  by (auto simp: visible_def updated_def)

lemma visible_tmp: "visible m T st \<Longrightarrow> t \<in> T \<Longrightarrow> updated st t X st' \<Longrightarrow> visible m T st'"
  by (auto simp: visible_def updated_def)

lemma visible_upd: "visible m T st \<Longrightarrow> a \<notin> T \<Longrightarrow> updated st a X st' \<Longrightarrow> visible (m(a \<mapsto> X)) T st'"
  by (auto simp: visible_def updated_def)

lemma visible_obj: "visible m T st \<Longrightarrow> m a = Some X \<Longrightarrow> obj st a = Some X \<and> a \<notin> T"
  by (cases "a \<in> T") (auto simp: visible_def)

lemma visible_free_post:
  assumes "visible m T st" "t \<in> T" "obj st t = Some X" "\<not> MPstatic X"
  shows "cpost (mpfree t st) E (\<lambda>st'. visible m (T - {t}) st' \<and> (\<forall>a. a \<noteq> t \<longrightarrow> obj st' a = obj st a))"
  by (rule cpost_mono [OF mpfree_post [OF assms(3,4)] subset_refl]) (use assms(1,2) in \<open>auto simp: visible_def\<close>)

lemma visible_new_post:
  assumes "visible m T st" "0 \<le> n" and that: "\<forall>t\<in>T. obj st t \<noteq> None"
  shows "cpost (mpnew n st) E (\<lambda>(t, st'). t \<notin> T \<and> (\<forall>a. a \<noteq> t \<longrightarrow> obj st' a = obj st a) \<and> visible m (insert t T) st' \<and>
    obj st t = None \<and> (\<exists>B. obj st' t = Some B \<and> mp_canon B \<and> mp_sign B = 1 \<and> \<not> MPstatic B \<and> DIGITS n \<le> mp_size B))"
proof -
  have "1 \<le> mpmindigits st" using assms(1) by (simp add: visible_def)
  from mpnew_post [OF assms(2) this] show ?thesis
  proof (rule cpost_mono [OF _ subset_refl])
    fix x
    assume "case x of (b, st') \<Rightarrow> obj st b = None \<and> (\<exists>B. updated st b B st' \<and> mp_canon B \<and> mag B = 0 \<and>
      mp_sign B = 1 \<and> mp_top B = 0 \<and> \<not> MPstatic B \<and> DIGITS n \<le> mp_size B \<and> mp_p B = replicate (mp_size B) 0)"
    then show "case x of (t, st') \<Rightarrow> t \<notin> T \<and> (\<forall>a. a \<noteq> t \<longrightarrow> obj st' a = obj st a) \<and> visible m (insert t T) st' \<and>
      obj st t = None \<and> (\<exists>B. obj st' t = Some B \<and> mp_canon B \<and> mp_sign B = 1 \<and> \<not> MPstatic B \<and> DIGITS n \<le> mp_size B)"
      using that visible_new [OF assms(1)] by (cases x) auto
  qed
qed

section \<open>The steps on the store\<close>

lemma canon_top_le:
  assumes "mp_canon X" "mag X < radix ^ n"
  shows "mp_top X \<le> n"
proof (rule ccontr)
  assume "\<not> mp_top X \<le> n"
  then have l: "n < length (digits X)" using assms(1) length_digits mp_canon_ok by simp
  have "val (drop n (digits X)) = 0" using assms(2) unfolding mag_def by (rule val_drop_0)
  moreover have "canon_digits (drop n (digits X))" using assms(1) l by (auto simp: mp_canon_def canon_digits_def)
  ultimately have "drop n (digits X) = []"
    by (cases "drop n (digits X)" rule: rev_cases) (auto simp: canon_digits_def val_append unat_eq_zero)
  with l show False by simp
qed

lemma canon_top_mono: "mp_canon X \<Longrightarrow> mp_canon Y \<Longrightarrow> mag X \<le> mag Y \<Longrightarrow> mp_top X \<le> mp_top Y"
  using canon_top_le [of X "mp_top Y"] val_bound [of "digits Y"] length_digits [OF mp_canon_ok, of Y] by (simp add: mag_def)

text \<open>What D1 leaves: the shifted copies, and the temporaries.\<close>

definition div_copied ::
    "(mpaddr \<Rightarrow> mpint option) \<Rightarrow> mpaddr \<Rightarrow> bool \<Rightarrow> mpint \<Rightarrow> mpint \<Rightarrow> nat \<Rightarrow> mpaddr \<Rightarrow> mpaddr \<Rightarrow> mpstate \<Rightarrow> bool" where
  "div_copied m divisor over A D s u v st' \<longleftrightarrow>
    (\<exists>U V T. visible m T st' \<and> u \<in> T \<and> obj st' u = Some U \<and> obj st' v = Some V \<and> mp_canon U \<and> mp_canon V \<and>
      mag U = mag A * 2 ^ s \<and> mag V = mag D * 2 ^ s \<and> mp_sign U = mp_sign A \<and> \<not> MPstatic U \<and>
      mp_top A + 2 + (if s = 0 then 0 else 1) \<le> mp_size U \<and>
      (if v = divisor then T = {u} \<and> \<not> over else T = {u, v} \<and> v \<noteq> u \<and> \<not> MPstatic V))"

lemma mpdiv_copy_post:
  assumes "1 \<le> mpmindigits st" "obj st dividend = Some A" "obj st divisor = Some D" "mp_canon A" "mp_canon D" "s < 32"
  shows "cpost (mpdiv_copy dividend divisor over s st) E (\<lambda>(u, v, st'). div_copied (obj st) divisor over A D s u v st')"
proof -
  define n where "n = int ((mp_top A + 2) * Dbits + s)"
  have dn: "DIGITS n = mp_top A + 2 + (if s = 0 then 0 else 1)"
    using assms(6) by (auto simp: n_def DIGITS_def Dbits_def)
  have n0: "0 \<le> n" by (simp add: n_def)
  note vis0 = visible_start [OF assms(1)]
  show ?thesis
    unfolding mpdiv_copy_def mpget_obj [OF assms(2)] mpget_obj [OF assms(3)] cbind_Inr n_def [symmetric]
  proof (rule cpost_seq [OF visible_new_post [OF vis0 n0]], simp, elim case_prodE conjE exE, hypsubst, unfold prod.case)
    fix u st1 U0
    assume u: "\<forall>a. a \<noteq> u \<longrightarrow> obj st1 a = obj st a" "visible (obj st) {u} st1" "obj st u = None" "obj st1 u = Some U0"
      "mp_canon U0" "\<not> MPstatic U0" "DIGITS n \<le> mp_size U0"
    have ne: "dividend \<noteq> u" "divisor \<noteq> u" using assms(2,3) u(3) by auto
    have o1: "obj st1 dividend = Some A" "obj st1 divisor = Some D" using u(1) ne assms(2,3) by simp_all
    show "cpost (if s = 0 \<and> \<not> over then cbind (mpassign dividend u st1) (\<lambda>st. Inr (u, divisor, st))
        else cbind (mpleft dividend (int s) u st1) (\<lambda>st. cbind (mpnew (int (mp_top D * Dbits)) st) (\<lambda>(v, st).
        cbind (mpleft divisor (int s) v st) (\<lambda>st. Inr (u, v, st))))) E
      (\<lambda>(u, v, st'). div_copied (obj st) divisor over A D s u v st')"
    proof (cases "s = 0 \<and> \<not> over")
      case True
      show ?thesis
        unfolding if_P [OF True]
      proof (rule cpost_seq [OF mpassign_canon [OF o1(1) u(4) assms(4) mp_canon_ok [OF u(5)]]], elim exE conjE)
        fix st2 U
        assume U: "updated st1 u U st2" "mp_canon U" "mag U = mag A" "mp_sign U = mp_sign A" "MPstatic U = MPstatic U0" "mp_size U0 \<le> mp_size U"
        have "visible (obj st) {u} st2" using visible_tmp [OF u(2) _ U(1)] by simp
        moreover have "obj st2 divisor = Some D" using U(1) ne(2) o1(2) by simp
        ultimately show "cpost (Inr (u, divisor, st2)) E (\<lambda>(u, v, st'). div_copied (obj st) divisor over A D s u v st')"
          using U u(6,7) dn True assms(5) by (auto simp: div_copied_def)
      qed
    next
      case False
      show ?thesis
        unfolding if_not_P [OF False]
      proof (rule cpost_seq [OF mpleft_post [OF o1(1) u(4) assms(4) mp_canon_ok [OF u(5)]]], simp, elim exE conjE)
        fix st2 U
        assume U: "updated st1 u U st2" "mp_canon U" "mag U = mag A * 2 ^ nat (int s)" "mp_sign U = mp_sign A"
          "MPstatic U = MPstatic U0" "mp_size U0 \<le> mp_size U"
        have vis2: "visible (obj st) {u} st2" using visible_tmp [OF u(2) _ U(1)] by simp
        have o2: "obj st2 divisor = Some D" using U(1) ne(2) o1(2) by simp
        show "cpost (cbind (mpnew (int (mp_top D * Dbits)) st2) (\<lambda>(v, st).
            cbind (mpleft divisor (int s) v st) (\<lambda>st. Inr (u, v, st)))) E
          (\<lambda>(u, v, st'). div_copied (obj st) divisor over A D s u v st')"
        proof (rule cpost_seq [OF visible_new_post [OF vis2]], simp, use U(1) in simp, elim case_prodE conjE exE, hypsubst, unfold prod.case)
          fix v st3 V0
          assume v: "v \<notin> {u}" "\<forall>a. a \<noteq> v \<longrightarrow> obj st3 a = obj st2 a" "visible (obj st) {v, u} st3" "obj st2 v = None"
            "obj st3 v = Some V0" "mp_canon V0" "\<not> MPstatic V0"
          have vd: "v \<noteq> divisor" using v(4) o2 by auto
          have o3: "obj st3 divisor = Some D" "obj st3 u = Some U" using v(1,2) vd o2 U(1) by auto
          show "cpost (cbind (mpleft divisor (int s) v st3) (\<lambda>st. Inr (u, v, st))) E
            (\<lambda>(u, v, st'). div_copied (obj st) divisor over A D s u v st')"
          proof (rule cpost_seq [OF mpleft_post [OF o3(1) v(5) assms(5) mp_canon_ok [OF v(6)]]], simp, elim exE conjE)
            fix st4 V
            assume V: "updated st3 v V st4" "mp_canon V" "mag V = mag D * 2 ^ nat (int s)" "MPstatic V = MPstatic V0"
            have "visible (obj st) {v, u} st4" using visible_tmp [OF v(3) _ V(1)] by simp
            moreover have "{v, u} = {u, v}" by auto
            moreover have "obj st4 u = Some U" using V(1) v(1) o3(2) by simp
            ultimately show "cpost (Inr (u, v, st4)) E (\<lambda>(u, v, st'). div_copied (obj st) divisor over A D s u v st')"
              using U V v(1,7) vd u(6,7) dn by (auto simp: div_copied_def intro!: exI [of _ U] exI [of _ V] exI [of _ "{u, v}"])
          qed
        qed
      qed
    qed
  qed
qed

lemma high_window_less:
  assumes "canon_digits v" "v \<noteq> []" "length W = length v" "last W < last v"
  shows "val W < val v"
proof -
  obtain xs x where v: "v = xs @ [x]" using assms(2) by (cases v rule: rev_cases) auto
  obtain ys y where w: "W = ys @ [y]" using assms(2,3) by (cases W rule: rev_cases) auto
  have "length ys = length xs" "unat y < unat x" using assms(3,4) v w by (auto simp: word_less_nat_alt)
  then show ?thesis
    using digit_decides [of "unat y" "unat x" "val ys" "radix ^ length xs" "val xs"] val_bound [of ys]
    by (simp add: v w val_append)
qed

lemma digits_last: "mp_ok X \<Longrightarrow> mp_top X \<noteq> 0 \<Longrightarrow> last (digits X) = mp_p X ! (mp_top X - 1) \<and> digits X \<noteq> []"
  using length_digits [of X] by (auto simp: last_conv_nth digits_def simp flip: length_0_conv)

lemma mpdiv_extend_post:
  assumes "obj st u = Some U" "obj st v = Some V" "mp_canon U" "mp_canon V" "mag V \<le> mag U" "mp_top V \<noteq> 0"
    and room: "mp_top U + 2 \<le> mp_size U"
  shows "cpost (mpdiv_extend u v st) E (\<lambda>st'. \<exists>U'. updated st u U' st' \<and> mp_ok U' \<and> mag U' = mag U \<and> mp_sign U' = mp_sign U \<and>
    MPstatic U' = MPstatic U \<and> mp_top U' < length (mp_p U') \<and> mp_top V \<le> mp_top U' \<and>
    val (drop (mp_top U' - mp_top V) (digits U')) < mag V)"
proof -
  note ok = mp_canon_ok [OF assms(3)] mp_canon_ok [OF assms(4)]
  have tops: "mp_top V \<le> mp_top U" using canon_top_mono [OF assms(4,3,5)] .
  note lv = digits_last [OF ok(2) assms(6)] and lu = digits_last [OF ok(1)]
  have U: "mp_size U = length (mp_p U)" "length (digits U) = mp_top U" using ok(1) length_digits by (auto simp: mp_ok_def)
  have V: "length (digits V) = mp_top V" "canon_digits (digits V)" using length_digits [OF ok(2)] assms(4) by (auto simp: mp_canon_def)
  have g: "cguard (1 \<le> mp_top U \<and> mp_top U \<le> length (mp_p U) \<and> 1 \<le> mp_top V \<and> mp_top V \<le> length (mp_p V)) = Inr ()"
    using tops assms(6) ok by (auto simp: mp_ok_def cguard_def)
  show ?thesis
  proof (cases "mp_p U ! (mp_top U - 1) \<ge> mp_p V ! (mp_top V - 1)")
    case True
    define U' where "U' = U\<lparr>mp_p := (mp_p U)[mp_top U := 0], mp_top := mp_top U + 1\<rparr>"
    have d: "digits U' = digits U @ [0]" using room U(1) by (simp add: U'_def digits_def take_Suc_conv_app_nth)
    have "mp_ok U'" "mag U' = mag U" "mp_sign U' = mp_sign U" "MPstatic U' = MPstatic U" "mp_top U' < length (mp_p U')" "mp_top V \<le> mp_top U'"
      using ok(1) room d tops by (auto simp: U'_def mp_ok_def mag_def val_append)
    moreover have "val (drop (mp_top U' - mp_top V) (digits U')) < mag V"
    proof -
      have "last (drop (mp_top U' - mp_top V) (digits U')) = 0"
        using U(2) tops assms(6) unfolding d by (simp add: U'_def)
      moreover have "last (digits V) \<noteq> 0" using V(2) lv by (simp add: canon_digits_def)
      ultimately show ?thesis
        unfolding mag_def using V U(2) tops lv d by (intro high_window_less) (auto simp: U'_def word_neq_0_conv)
    qed
    moreover have "cpost (mpset u U' st) E (\<lambda>st'. updated st u U' st')" by (rule cpost_mpset [OF assms(1)])
    moreover have "mpdiv_extend u v st = mpset u U' st"
      using True g room U(1) by (simp add: mpdiv_extend_def mpget_obj [OF assms(1)] mpget_obj [OF assms(2)] U'_def)
    ultimately show ?thesis by (auto elim!: cpost_mono)
  next
    case False
    have "updated st u U st" using assms(1) by (auto simp: updated_def)
    moreover have "mpdiv_extend u v st = Inr st"
      using False g by (simp add: mpdiv_extend_def mpget_obj [OF assms(1)] mpget_obj [OF assms(2)])
    moreover have "val (drop (mp_top U - mp_top V) (digits U)) < mag V"
      unfolding mag_def using V U(2) tops lv lu assms(6) False by (intro high_window_less) auto
    ultimately show ?thesis using ok(1) tops room U(1) by auto
  qed
qed

text \<open>The loop on whole vectors: quotient and remainder of the values.\<close>

lemma mpdiv_loop_value:
  assumes "canon_digits vd" "vd \<noteq> []" "length ud = k + length vd" "up = ud @ high" "high \<noteq> []" "val (drop k ud) < val vd"
  shows "\<exists>qs up'. mpdiv_loop k vd up = Inr (qs, up') \<and> length qs = k \<and> val qs = val ud div val vd \<and>
    val (take (length vd) up') = val ud mod val vd \<and> length up' = length up"
proof -
  obtain n where n: "length vd = Suc n" using assms(2) by (cases vd) auto
  have top: "vd ! n \<noteq> 0" using assms(1,2) n by (simp add: canon_digits_def last_conv_nth)
  have up: "up = take k ud @ drop k ud @ high" using assms(4) by simp
  obtain qs W' high' where l: "mpdiv_loop k vd up = Inr (qs, W' @ high')" "length qs = k" "length W' = Suc n"
      "length high' = k + length high" "val W' < val vd" "val (take k ud @ drop k ud) = val qs * val vd + val W'"
    unfolding up using mpdiv_loop_correct [OF n top, of "take k ud" k "drop k ud" high] assms(3,5,6) n by auto
  have "val ud = val qs * val vd + val W'" using l(6) by simp
  then have "val ud div val vd = val qs \<and> val ud mod val vd = val W'" using l(5) by simp
  then show ?thesis using l n assms(3,4) by auto
qed

section \<open>Quotient and remainder objects\<close>

lemma mpdiv_quotient_post:
  assumes "obj st q = Some Q" "mp_ok Q"
  shows "cpost (mpdiv_quotient q n st) E (\<lambda>st'. \<exists>Q'. updated st q Q' st' \<and> mp_ok Q' \<and> mp_top Q' = n \<and>
    mp_sign Q' = mp_sign Q \<and> MPstatic Q' = MPstatic Q)"
  unfolding mpdiv_quotient_def
proof (rule cpost_seq [OF mpbits_post [OF assms]], elim exE conjE, unfold DIGITS_nat)
  fix st1 Q1
  assume Q1: "updated st q Q1 st1" "mp_ok Q1" "mp_sign Q1 = mp_sign Q" "MPstatic Q1 = MPstatic Q" "mp_top Q1 = max (mp_top Q) n"
  define Q2 where "Q2 = Q1\<lparr>mp_top := n\<rparr>"
  have Q2: "mp_ok Q2" "mp_top Q2 = n" "mp_sign Q2 = mp_sign Q" "MPstatic Q2 = MPstatic Q" using Q1 by (auto simp: Q2_def mp_ok_def)
  show "cpost (cbind (mpget q st1) (\<lambda>Q. mpset q (Q\<lparr>mp_top := n\<rparr>) st1)) E (\<lambda>st'. \<exists>Q'. updated st q Q' st' \<and> mp_ok Q' \<and>
    mp_top Q' = n \<and> mp_sign Q' = mp_sign Q \<and> MPstatic Q' = MPstatic Q)"
    unfolding mpget_obj [OF updated_obj(1) [OF Q1(1)]] cbind_Inr Q2_def [symmetric]
    by (rule cpost_mpset [OF updated_obj(1) [OF Q1(1)]]) (use Q2 updated_trans [OF Q1(1)] in blast)
qed

lemma mpdiv_store_post:
  assumes "obj st q = Some Q" "mp_ok Q" "mp_top Q = length qs" "obj st dividend = Some A" "obj st divisor = Some D" "val qs \<noteq> 0"
  shows "cpost (mpdiv_store dividend divisor qs q st) E (\<lambda>st'. \<exists>Q'. updated st q Q' st' \<and> mp_canon Q' \<and> mag Q' = val qs \<and>
    mp_sign Q' = (if mp_sign A \<noteq> mp_sign D then -1 else mp_sign Q) \<and> MPstatic Q' = MPstatic Q)"
proof -
  define Q1 where "Q1 = Q\<lparr>mp_p := qs @ drop (length qs) (mp_p Q)\<rparr>"
  have Q1: "mp_ok Q1" "mag Q1 = val qs" "mp_sign Q1 = mp_sign Q" "MPstatic Q1 = MPstatic Q"
    using assms(2,3) by (auto simp: Q1_def mp_ok_def mag_def digits_def)
  have put: "vput qs 0 (mp_p Q) = Inr (qs @ drop (length qs) (mp_p Q))" using assms(2,3) by (simp add: vput_def mp_ok_def)
  show ?thesis
    unfolding mpdiv_store_def mpget_obj [OF assms(1)] cbind_Inr put Q1_def [symmetric]
  proof (rule cpost_seq [OF cpost_mpset [OF assms(1), where B = Q1 and Q = "updated st q Q1"]], assumption,
      rule cpost_seq [OF mpnorm_post [OF updated_obj(1) Q1(1)]], assumption, elim exE conjE)
    fix st1 st2 Q2
    assume u: "updated st q Q1 st1" "updated st1 q Q2 st2" and Q2: "mp_canon Q2" "mag Q2 = mag Q1"
      "mp_sign Q2 = (if mag Q1 = 0 then 1 else mp_sign Q1)" "MPstatic Q2 = MPstatic Q1"
    note u2 = updated_trans [OF u]
    have s2: "mp_sign Q2 = mp_sign Q" "mag Q2 = val qs" "MPstatic Q2 = MPstatic Q" using Q2 Q1 assms(6) by auto
    obtain A2 D2 where AD: "obj st2 dividend = Some A2" "mp_sign A2 = mp_sign A" "obj st2 divisor = Some D2" "mp_sign D2 = mp_sign D"
    proof -
      have "\<exists>X2. obj st2 x = Some X2 \<and> mp_sign X2 = mp_sign X" if "obj st x = Some X" for x X
        using that u2 s2(1) assms(1) by (cases "x = q") auto
      then show ?thesis using that assms(4,5) by blast
    qed
    have "cpost (cbind (mpget q st2) (\<lambda>Q. mpset q (Q\<lparr>mp_sign := -1\<rparr>) st2)) E (\<lambda>st'. \<exists>Q'. updated st q Q' st' \<and> mp_canon Q' \<and>
        mag Q' = val qs \<and> mp_sign Q' = -1 \<and> MPstatic Q' = MPstatic Q)"
      by (rule cpost_mono [OF set_sign_post [OF u2 Q2(1), of "-1"] subset_refl]) (use s2 assms(6) in auto)
    then show "cpost (cbind (mpget dividend st2) (\<lambda>A. cbind (mpget divisor st2) (\<lambda>D. cbind (mpget q st2) (\<lambda>Q.
        if mp_sign A \<noteq> mp_sign D then mpset q (Q\<lparr>mp_sign := -1\<rparr>) st2 else Inr st2)))) E
      (\<lambda>st'. \<exists>Q'. updated st q Q' st' \<and> mp_canon Q' \<and> mag Q' = val qs \<and>
        mp_sign Q' = (if mp_sign A \<noteq> mp_sign D then -1 else mp_sign Q) \<and> MPstatic Q' = MPstatic Q)"
      unfolding mpget_obj [OF AD(1)] mpget_obj [OF AD(3)] cbind_Inr mpget_obj [OF updated_obj(1) [OF u2]] AD(2,4)
      using u2 Q2(1) s2 by auto
  qed
qed

lemma mpdiv_remainder_post:
  assumes "obj st u = Some U" "mp_ok U" "mp_top U \<noteq> 0" "obj st r = Some R" "mp_ok R" "obj st dividend = Some A" "mp_ok A" "s < 32"
  shows "cpost (mpdiv_remainder dividend u s r st) E (\<lambda>st'. \<exists>R'. updated st r R' st' \<and> mp_ok R' \<and> canon_digits (digits R') \<and>
    mag R' = mag U div 2 ^ s \<and> mp_sign R' = (if dividend = r then if mag R' = 0 then 1 else mp_sign U else mp_sign A) \<and>
    MPstatic R' = MPstatic R)"
  unfolding mpdiv_remainder_def
proof (rule cpost_seq [OF mpright_post [OF assms(1,4,2,5)]], simp, elim exE conjE)
  fix st1 R1
  assume R1: "updated st r R1 st1" "mp_ok R1" "canon_digits (digits R1)" "mag R1 = mag U div 2 ^ nat (int s)"
    "mp_sign R1 = (if mag R1 = 0 \<and> nat (int s) div 32 < mp_top U then 1 else mp_sign U)" "MPstatic R1 = MPstatic R"
  define A1 where "A1 = (if dividend = r then R1 else A)"
  have A1: "obj st1 dividend = Some A1" using R1(1) assms(6) by (simp add: A1_def)
  define R2 where "R2 = R1\<lparr>mp_sign := mp_sign A1\<rparr>"
  have R2: "mp_ok R2" "canon_digits (digits R2)" "mag R2 = mag U div 2 ^ s" "MPstatic R2 = MPstatic R"
    "mp_sign R2 = (if dividend = r then if mag R2 = 0 then 1 else mp_sign U else mp_sign A)"
    using R1 assms(3,7,8) by (auto simp: R2_def A1_def mp_ok_def digits_def mag_def)
  show "cpost (cbind (mpget dividend st1) (\<lambda>A. cbind (mpget r st1) (\<lambda>R. mpset r (R\<lparr>mp_sign := mp_sign A\<rparr>) st1))) E
    (\<lambda>st'. \<exists>R'. updated st r R' st' \<and> mp_ok R' \<and> canon_digits (digits R') \<and>
      mag R' = mag U div 2 ^ s \<and> mp_sign R' = (if dividend = r then if mag R' = 0 then 1 else mp_sign U else mp_sign A) \<and>
      MPstatic R' = MPstatic R)"
    unfolding mpget_obj [OF A1] mpget_obj [OF updated_obj(1) [OF R1(1)]] cbind_Inr R2_def [symmetric]
    by (rule cpost_mpset [OF updated_obj(1) [OF R1(1)]]) (use R2 updated_trans [OF R1(1)] in metis)
qed

text \<open>The store after a division, in terms of the store \<open>m\<close> before it.\<close>

definition div_quot :: "mpint \<Rightarrow> mpint \<Rightarrow> mpint \<Rightarrow> mpint \<Rightarrow> bool" where
  "div_quot A D Q Q' \<longleftrightarrow> mp_canon Q' \<and> mag Q' = mag A div mag D \<and>
    mp_sign Q' = (if mp_sign A \<noteq> mp_sign D then -1 else mp_sign Q) \<and> MPstatic Q' = MPstatic Q"

definition div_rem :: "mpint \<Rightarrow> mpint \<Rightarrow> int \<Rightarrow> mpint \<Rightarrow> mpint \<Rightarrow> bool" where
  "div_rem A D sg R R' \<longleftrightarrow> mp_ok R' \<and> canon_digits (digits R') \<and> mag R' = mag A mod mag D \<and>
    mp_sign R' = sg \<and> MPstatic R' = MPstatic R"

definition quot_stored :: "(mpaddr \<Rightarrow> mpint option) \<Rightarrow> mpint \<Rightarrow> mpint \<Rightarrow> mpaddr option \<Rightarrow> (mpaddr \<Rightarrow> mpint option) \<Rightarrow> bool" where
  "quot_stored m A D quot m' \<longleftrightarrow>
    (case quot of None \<Rightarrow> m' = m | Some q \<Rightarrow> \<exists>Q Q'. m q = Some Q \<and> m' = m(q \<mapsto> Q') \<and> div_quot A D Q Q')"

text \<open>The remainder takes the sign the dividend object has then.\<close>

definition rem_stored :: "(mpaddr \<Rightarrow> mpint option) \<Rightarrow> mpaddr \<Rightarrow> mpint \<Rightarrow> mpint \<Rightarrow> mpaddr option \<Rightarrow> (mpaddr \<Rightarrow> mpint option) \<Rightarrow> bool" where
  "rem_stored m dividend A D rmd m' \<longleftrightarrow>
    (case rmd of None \<Rightarrow> m' = m | Some r \<Rightarrow> \<exists>R R' A'. m r = Some R \<and> m dividend = Some A' \<and> m' = m(r \<mapsto> R') \<and>
      div_rem A D (if dividend = r then if mag A mod mag D = 0 then 1 else mp_sign A else mp_sign A') R R')"

text \<open>The temporaries are freed.\<close>

lemma mpdiv_free_post:
  assumes "visible m (insert t T) st" "t \<notin> T" "obj st t = Some X" "\<not> MPstatic X" "obj st u = Some U" "\<not> MPstatic U"
    and T: "if v = divisor then T = {u} else T = {u, v} \<and> v \<noteq> u \<and> (\<exists>V. obj st v = Some V \<and> \<not> MPstatic V)"
  shows "cpost (cbind (mpfree t st) (\<lambda>st. cbind (mpfree u st) (\<lambda>st. if v \<noteq> divisor then mpfree v st else Inr st))) E
    (\<lambda>st'. obj st' = m \<and> 1 \<le> mpmindigits st')"
proof (rule cpost_seq [OF visible_free_post [OF assms(1) insertI1 assms(3,4)]], elim conjE)
  fix st1
  assume "visible m (insert t T - {t}) st1" and o: "\<forall>a. a \<noteq> t \<longrightarrow> obj st1 a = obj st a"
  then have v1: "visible m T st1" using assms(2) by simp
  have u: "u \<in> T" "u \<noteq> t" using T assms(2) by (auto split: if_splits)
  have u1: "obj st1 u = Some U" using o u(2) assms(5) by simp
  show "cpost (cbind (mpfree u st1) (\<lambda>st. if v \<noteq> divisor then mpfree v st else Inr st)) E (\<lambda>st'. obj st' = m \<and> 1 \<le> mpmindigits st')"
  proof (rule cpost_seq [OF visible_free_post [OF v1 u(1) u1 assms(6)]], elim conjE)
    fix st2
    assume v2: "visible m (T - {u}) st2" and o2: "\<forall>a. a \<noteq> u \<longrightarrow> obj st2 a = obj st1 a"
    show "cpost (if v \<noteq> divisor then mpfree v st2 else Inr st2) E (\<lambda>st'. obj st' = m \<and> 1 \<le> mpmindigits st')"
    proof (cases "v = divisor")
      case True
      then show ?thesis using v2 T by (auto simp: visible_def)
    next
      case False
      then obtain V where V: "T = {u, v}" "v \<noteq> u" "obj st v = Some V" "\<not> MPstatic V" using T by auto
      have "obj st2 v = Some V" using o o2 V assms(2) by auto
      moreover have "visible m {v} st2" using v2 V(1,2) by (simp add: insert_Diff_if)
      ultimately show ?thesis
        using False by (auto intro!: cpost_mono [OF visible_free_post [where T = "{v}" and m = m] subset_refl] simp: V(4) visible_def)
    qed
  qed
qed

definition quot_ready :: "(mpaddr \<Rightarrow> mpint option) \<Rightarrow> nat \<Rightarrow> mpaddr option \<Rightarrow> (mpaddr \<Rightarrow> mpint option) \<Rightarrow> bool" where
  "quot_ready m n quot m1 \<longleftrightarrow> (case quot of None \<Rightarrow> m1 = m | Some q \<Rightarrow> \<exists>Q Q1. m q = Some Q \<and> m1 = m(q \<mapsto> Q1) \<and> mp_ok Q1 \<and>
    mp_top Q1 = n \<and> mp_sign Q1 = mp_sign Q \<and> MPstatic Q1 = MPstatic Q)"

lemma quot_ready_sign:
  "quot_ready m n quot m1 \<Longrightarrow> m x = Some X \<Longrightarrow> \<exists>X1. m1 x = Some X1 \<and> mp_sign X1 = mp_sign X"
  by (cases quot; cases "quot = Some x") (auto simp: quot_ready_def)

lemma store_step_post:
  assumes "visible m1 T st" "quot_ready m (length qs) quot m1" "m dividend = Some A" "m divisor = Some D"
    and "val qs = mag A div mag D" "val qs \<noteq> 0"
  shows "cpost (if_some quot (mpdiv_store dividend divisor qs) st) E (\<lambda>st'. \<exists>mq. quot_stored m A D quot mq \<and>
    visible mq T st' \<and> (\<forall>a\<in>T. obj st' a = obj st a))"
proof (cases quot)
  case None
  then show ?thesis using assms(1,2) by (auto simp: if_some_def quot_stored_def quot_ready_def)
next
  case (Some q)
  then obtain Q Q1 where Q: "m q = Some Q" "m1 = m(q \<mapsto> Q1)" "mp_ok Q1" "mp_top Q1 = length qs" "mp_sign Q1 = mp_sign Q"
      "MPstatic Q1 = MPstatic Q"
    using assms(2) by (auto simp: quot_ready_def)
  obtain A1 D1 where AD: "m1 dividend = Some A1" "mp_sign A1 = mp_sign A" "m1 divisor = Some D1" "mp_sign D1 = mp_sign D"
    using quot_ready_sign [OF assms(2)] assms(3,4) by blast
  have o: "obj st q = Some Q1" "q \<notin> T" "obj st dividend = Some A1" "obj st divisor = Some D1"
    using visible_obj [OF assms(1)] AD Q(2) by auto
  have "cpost (mpdiv_store dividend divisor qs q st) E (\<lambda>st'. \<exists>mq. quot_stored m A D quot mq \<and>
    visible mq T st' \<and> (\<forall>a\<in>T. obj st' a = obj st a))"
  proof (rule cpost_mono [OF mpdiv_store_post [OF o(1) Q(3,4) o(3,4) assms(6)] subset_refl], elim exE conjE)
    fix st' Q'
    assume Q': "updated st q Q' st'" "mp_canon Q'" "mag Q' = val qs"
      "mp_sign Q' = (if mp_sign A1 \<noteq> mp_sign D1 then -1 else mp_sign Q1)" "MPstatic Q' = MPstatic Q1"
    have "quot_stored m A D quot (m1(q \<mapsto> Q'))"
      using Q Q' AD assms(5) Some by (auto simp: quot_stored_def div_quot_def)
    moreover have "visible (m1(q \<mapsto> Q')) T st'" by (rule visible_upd [OF assms(1) o(2) Q'(1)])
    moreover have "\<forall>a\<in>T. obj st' a = obj st a" using Q'(1) o(2) by (auto simp: updated_def)
    ultimately show "\<exists>mq. quot_stored m A D quot mq \<and> visible mq T st' \<and> (\<forall>a\<in>T. obj st' a = obj st a)" by blast
  qed
  then show ?thesis by (simp add: if_some_def Some)
qed

lemma rem_step_post:
  assumes "visible mq T st" "u \<in> T" "obj st u = Some U" "mp_ok U" "mp_top U \<noteq> 0" "mag U = mag A mod mag D * 2 ^ s"
    and "mp_sign U = mp_sign A" "s < 32" "mq dividend = Some A'" "mp_ok A'"
    and "case rmd of None \<Rightarrow> True | Some r \<Rightarrow> \<exists>R. mq r = Some R \<and> mp_ok R"
  shows "cpost (if_some rmd (mpdiv_remainder dividend u s) st) E (\<lambda>st'. \<exists>m'. rem_stored mq dividend A D rmd m' \<and>
    visible m' T st' \<and> (\<forall>a\<in>T. obj st' a = obj st a))"
proof (cases rmd)
  case None
  then show ?thesis using assms(1) by (auto simp: if_some_def rem_stored_def)
next
  case (Some r)
  then obtain R where R: "mq r = Some R" "mp_ok R" using assms(11) by auto
  have o: "obj st r = Some R" "r \<notin> T" "obj st dividend = Some A'" using visible_obj [OF assms(1)] R assms(9) by auto
  have "cpost (mpdiv_remainder dividend u s r st) E (\<lambda>st'. \<exists>m'. rem_stored mq dividend A D rmd m' \<and>
    visible m' T st' \<and> (\<forall>a\<in>T. obj st' a = obj st a))"
  proof (rule cpost_mono [OF mpdiv_remainder_post [OF assms(3-5) o(1) R(2) o(3) assms(10,8)] subset_refl], elim exE conjE)
    fix st' R'
    assume R': "updated st r R' st'" "mp_ok R'" "canon_digits (digits R')" "mag R' = mag U div 2 ^ s"
      "mp_sign R' = (if dividend = r then if mag R' = 0 then 1 else mp_sign U else mp_sign A')" "MPstatic R' = MPstatic R"
    have "mag R' = mag A mod mag D" unfolding R'(4) assms(6) by simp
    then have "rem_stored mq dividend A D rmd (mq(r \<mapsto> R'))"
      using R R' assms(7,9) Some by (auto simp: rem_stored_def div_rem_def)
    moreover have "visible (mq(r \<mapsto> R')) T st'" by (rule visible_upd [OF assms(1) o(2) R'(1)])
    moreover have "\<forall>a\<in>T. obj st' a = obj st a" using R'(1) o(2) by (auto simp: updated_def)
    ultimately show "\<exists>m'. rem_stored mq dividend A D rmd m' \<and> visible m' T st' \<and> (\<forall>a\<in>T. obj st' a = obj st a)" by blast
  qed
  then show ?thesis by (simp add: if_some_def Some)
qed

text \<open>What the results need: objects, apart from each other.\<close>

definition div_targets :: "(mpaddr \<Rightarrow> mpint option) \<Rightarrow> mpaddr option \<Rightarrow> mpaddr option \<Rightarrow> bool" where
  "div_targets m quot rmd \<longleftrightarrow> (quot = None \<or> quot \<noteq> rmd) \<and>
    (case quot of None \<Rightarrow> True | Some q \<Rightarrow> \<exists>Q. m q = Some Q \<and> mp_ok Q \<and> \<not> MPstatic Q) \<and>
    (case rmd of None \<Rightarrow> True | Some r \<Rightarrow> \<exists>R. m r = Some R \<and> mp_ok R \<and> \<not> MPstatic R)"

lemma quot_stored_obj:
  assumes "quot_stored m A D quot mq" "m x = Some X" "mp_ok X"
  shows "\<exists>X'. mq x = Some X' \<and> mp_ok X' \<and> (quot \<noteq> Some x \<longrightarrow> X' = X)"
  using assms mp_canon_ok by (cases quot; cases "quot = Some x") (auto simp: quot_stored_def div_quot_def)

lemma mpdiv_finish_post:
  assumes vis: "visible m1 (insert t T) st" "quot_ready m (length qs) quot m1" "m dividend = Some A" "mp_ok A" "m divisor = Some D"
    and qs: "val qs = mag A div mag D" "val qs \<noteq> 0"
    and U: "obj st u = Some U" "mp_ok U" "mp_top U \<noteq> 0" "mag U = mag A mod mag D * 2 ^ s" "mp_sign U = mp_sign A" "\<not> MPstatic U" "s < 32"
    and t: "t \<notin> T" "obj st t = Some X" "\<not> MPstatic X" and tg: "div_targets m quot rmd"
    and T: "if v = divisor then T = {u} else T = {u, v} \<and> v \<noteq> u \<and> (\<exists>V. obj st v = Some V \<and> \<not> MPstatic V)"
  shows "cpost (mpdiv_finish dividend divisor quot rmd s t u v qs st) E
    (\<lambda>st'. \<exists>mq. quot_stored m A D quot mq \<and> rem_stored mq dividend A D rmd (obj st') \<and> 1 \<le> mpmindigits st')"
  unfolding mpdiv_finish_def
proof (rule cpost_seq [OF store_step_post [OF vis(1,2,3,5) qs]], elim exE conjE)
  fix st1 mq
  assume mq: "quot_stored m A D quot mq" "visible mq (insert t T) st1" and o1: "\<forall>a\<in>insert t T. obj st1 a = obj st a"
  have uT: "u \<in> insert t T" using T by (auto split: if_splits)
  have u1: "obj st1 u = Some U" using bspec [OF o1 uT] U(1) by simp
  obtain A' where A': "mq dividend = Some A'" "mp_ok A'" using quot_stored_obj [OF mq(1) vis(3,4)] by blast
  have r1: "case rmd of None \<Rightarrow> True | Some r \<Rightarrow> \<exists>R. mq r = Some R \<and> mp_ok R"
    using tg quot_stored_obj [OF mq(1)] by (fastforce simp: div_targets_def split: option.splits)
  show "cpost (cbind (if_some rmd (mpdiv_remainder dividend u s) st1) (\<lambda>st. cbind (mpfree t st) (\<lambda>st.
      cbind (mpfree u st) (\<lambda>st. if v \<noteq> divisor then mpfree v st else Inr st)))) E
    (\<lambda>st'. \<exists>mq. quot_stored m A D quot mq \<and> rem_stored mq dividend A D rmd (obj st') \<and> 1 \<le> mpmindigits st')"
  proof (rule cpost_seq [OF rem_step_post [OF mq(2) uT u1 U(2-5,7) A' r1]], elim exE conjE)
    fix st2 m'
    assume m': "rem_stored mq dividend A D rmd m'" "visible m' (insert t T) st2" and o2: "\<forall>a\<in>insert t T. obj st2 a = obj st1 a"
    have o: "obj st2 a = obj st a" if "a \<in> insert t T" for a using bspec [OF o1 that] bspec [OF o2 that] by simp
    have "cpost (cbind (mpfree t st2) (\<lambda>st. cbind (mpfree u st) (\<lambda>st. if v \<noteq> divisor then mpfree v st else Inr st))) E
        (\<lambda>st'. obj st' = m' \<and> 1 \<le> mpmindigits st')"
      by (rule mpdiv_free_post [where X = X and U = U, OF m'(2) t(1)]) (use o t U(1,6) T uT in \<open>auto split: if_splits\<close>)
    then show "cpost (cbind (mpfree t st2) (\<lambda>st. cbind (mpfree u st) (\<lambda>st. if v \<noteq> divisor then mpfree v st else Inr st))) E
        (\<lambda>st'. \<exists>mq. quot_stored m A D quot mq \<and> rem_stored mq dividend A D rmd (obj st') \<and> 1 \<le> mpmindigits st')"
      by (rule cpost_mono [OF _ subset_refl]) (use mq(1) m'(1) in auto)
  qed
qed

lemma quot_ready_post:
  assumes "visible m T st" "div_targets m quot rmd"
  shows "cpost (if_some quot (\<lambda>q. mpdiv_quotient q n) st) E (\<lambda>st'. \<exists>m1. quot_ready m n quot m1 \<and> visible m1 T st' \<and>
    (\<forall>a. quot \<noteq> Some a \<longrightarrow> obj st' a = obj st a) \<and> (\<forall>a\<in>T. quot \<noteq> Some a))"
proof (cases quot)
  case None
  then show ?thesis using assms(1) by (auto simp: if_some_def quot_ready_def)
next
  case (Some q)
  then obtain Q where Q: "m q = Some Q" "mp_ok Q" using assms(2) by (auto simp: div_targets_def)
  have o: "obj st q = Some Q" "q \<notin> T" using visible_obj [OF assms(1) Q(1)] by auto
  have "cpost (mpdiv_quotient q n st) E (\<lambda>st'. \<exists>m1. quot_ready m n quot m1 \<and> visible m1 T st' \<and>
    (\<forall>a. quot \<noteq> Some a \<longrightarrow> obj st' a = obj st a) \<and> (\<forall>a\<in>T. quot \<noteq> Some a))"
  proof (rule cpost_mono [OF mpdiv_quotient_post [OF o(1) Q(2)] subset_refl], elim exE conjE)
    fix st' Q'
    assume Q': "updated st q Q' st'" "mp_ok Q'" "mp_top Q' = n" "mp_sign Q' = mp_sign Q" "MPstatic Q' = MPstatic Q"
    have "quot_ready m n quot (m(q \<mapsto> Q'))" using Q Q' Some by (auto simp: quot_ready_def)
    moreover have "visible (m(q \<mapsto> Q')) T st'" by (rule visible_upd [OF assms(1) o(2) Q'(1)])
    moreover have "\<forall>a. quot \<noteq> Some a \<longrightarrow> obj st' a = obj st a" using Q'(1) Some by (auto simp: updated_def)
    ultimately show "\<exists>m1. quot_ready m n quot m1 \<and> visible m1 T st' \<and>
      (\<forall>a. quot \<noteq> Some a \<longrightarrow> obj st' a = obj st a) \<and> (\<forall>a\<in>T. quot \<noteq> Some a)" using o(2) Some by blast
  qed
  then show ?thesis by (simp add: if_some_def Some)
qed

text \<open>From the loop on: \<open>U\<close> is the extended dividend, \<open>V\<close> the shifted divisor.\<close>

lemma mpdiv_from_loop:
  assumes vis: "visible m1 (insert t T) st" "quot_ready m (mp_top U - mp_top V) quot m1" "m dividend = Some A" "mp_ok A" "m divisor = Some D"
    and AD: "mag D \<noteq> 0" "mag D \<le> mag A"
    and U: "obj st u = Some U" "mp_ok U" "mag U = mag A * 2 ^ s" "mp_sign U = mp_sign A" "\<not> MPstatic U" "s < 32"
      "mp_top U < length (mp_p U)" "mp_top V \<le> mp_top U" "val (drop (mp_top U - mp_top V) (digits U)) < mag V"
    and V: "mp_canon V" "mag V = mag D * 2 ^ s"
    and t: "t \<notin> T" "obj st t = Some X" "\<not> MPstatic X" and tg: "div_targets m quot rmd"
    and T: "if v = divisor then T = {u} else T = {u, v} \<and> v \<noteq> u \<and> (\<exists>V. obj st v = Some V \<and> \<not> MPstatic V)"
  shows "cpost (cbind (vget 0 (mp_top V) (mp_p V)) (\<lambda>vd. cbind (mpdiv_loop (mp_top U - mp_top V) vd (mp_p U)) (\<lambda>(qs, up).
      cbind (mpset u (U\<lparr>mp_p := up, mp_top := mp_top V\<rparr>) st) (\<lambda>st. mpdiv_finish dividend divisor quot rmd s t u v qs st)))) E
    (\<lambda>st'. \<exists>mq. quot_stored m A D quot mq \<and> rem_stored mq dividend A D rmd (obj st') \<and> 1 \<le> mpmindigits st')"
proof -
  define k where "k = mp_top U - mp_top V"
  note okV = mp_canon_ok [OF V(1)]
  have dV: "canon_digits (digits V)" "digits V \<noteq> []" "length (digits V) = mp_top V" "mp_top V \<noteq> 0"
    using V AD(1) mag_0_iff [OF V(1)] length_digits [OF okV] by (auto simp: mp_canon_def mag_def)
  have dU: "length (digits U) = k + length (digits V)" "mp_p U = digits U @ drop (mp_top U) (mp_p U)" "drop (mp_top U) (mp_p U) \<noteq> []"
    using length_digits [OF U(2)] U(7,8) dV(3) by (auto simp: k_def digits_def)
  obtain qs up where l: "mpdiv_loop k (digits V) (mp_p U) = Inr (qs, up)" "length qs = k" "val qs = mag U div mag V"
      "val (take (mp_top V) up) = mag U mod mag V" "length up = length (mp_p U)"
    using mpdiv_loop_value [OF dV(1,2) dU(1,2,3)] U(9) dV(3) unfolding mag_def k_def [symmetric] by auto
  have q: "val qs = mag A div mag D" unfolding l(3) U(3) V(2) by simp
  then have q0: "val qs \<noteq> 0" using AD by (simp add: div_eq_0_iff)
  define U1 where "U1 = U\<lparr>mp_p := up, mp_top := mp_top V\<rparr>"
  have U1: "mp_ok U1" "mp_top U1 \<noteq> 0" "mag U1 = mag A mod mag D * 2 ^ s" "mp_sign U1 = mp_sign A" "\<not> MPstatic U1"
    using U(2,4,5,7,8) l(4,5) dV(4) unfolding U1_def mag_def mp_ok_def digits_def
    by (auto simp: U(3) [unfolded mag_def digits_def] V(2) [unfolded mag_def digits_def] mod_mult_mult2)
  have uT: "u \<in> insert t T" using T by (auto split: if_splits)
  have "cpost (cbind (mpset u U1 st) (\<lambda>st. mpdiv_finish dividend divisor quot rmd s t u v qs st)) E
    (\<lambda>st'. \<exists>mq. quot_stored m A D quot mq \<and> rem_stored mq dividend A D rmd (obj st') \<and> 1 \<le> mpmindigits st')"
  proof (rule cpost_seq [OF cpost_mpset [OF U(1), where B = U1 and Q = "updated st u U1"]])
    fix st1
    assume u1: "updated st u U1 st1"
    have "visible m1 (insert t T) st1" by (rule visible_tmp [OF vis(1) uT u1])
    moreover have "quot_ready m (length qs) quot m1" using vis(2) l(2) by (simp add: k_def)
    moreover have "u \<noteq> t" using t(1) T by (auto split: if_splits)
    ultimately show "cpost (mpdiv_finish dividend divisor quot rmd s t u v qs st1) E
      (\<lambda>st'. \<exists>mq. quot_stored m A D quot mq \<and> rem_stored mq dividend A D rmd (obj st') \<and> 1 \<le> mpmindigits st')"
      using u1 U1 U(6) t T by (intro mpdiv_finish_post [OF _ _ vis(3-5) q q0 _ U1 U(6) t(1) _ t(3) tg]) (auto split: if_splits)
  qed
  then show ?thesis unfolding vget_digits [OF okV] cbind_Inr k_def [symmetric] l(1) prod.case U1_def .
qed

lemma mpdiv_main_post:
  assumes "1 \<le> mpmindigits st" "obj st dividend = Some A" "obj st divisor = Some D" "mp_canon A" "mp_canon D" "s < 32"
    and AD: "mag D \<noteq> 0" "mag D \<le> mag A" and tg: "div_targets (obj st) quot rmd"
  shows "cpost (mpdiv_main dividend divisor quot rmd s st) E
    (\<lambda>st'. \<exists>mq. quot_stored (obj st) A D quot mq \<and> rem_stored mq dividend A D rmd (obj st') \<and> 1 \<le> mpmindigits st')"
  unfolding mpdiv_main_def
proof (rule cpost_seq [OF mpdiv_copy_post [OF assms(1-6)]], elim case_prodE, hypsubst, unfold prod.case, goal_cases)
  case (1 x u y v st1)
  define over where "over = (quot = Some divisor \<or> rmd = Some divisor)"
  obtain U V T where c: "visible (obj st) T st1" "u \<in> T" "obj st1 u = Some U" "obj st1 v = Some V" "mp_canon U" "mp_canon V"
      "mag U = mag A * 2 ^ s" "mag V = mag D * 2 ^ s" "mp_sign U = mp_sign A" "\<not> MPstatic U"
      "mp_top A + 2 + (if s = 0 then 0 else 1) \<le> mp_size U"
      "if v = divisor then T = {u} \<and> \<not> over else T = {u, v} \<and> v \<noteq> u \<and> \<not> MPstatic V"
    using 1 unfolding div_copied_def over_def by blast
  have VU: "mag V \<le> mag U" "mp_top V \<noteq> 0" using c(6-8) AD mag_0_iff [OF c(6)] by simp_all
  have "mp_top U \<le> mp_top A + (if s = 0 then 0 else 1)"
  proof (rule canon_top_le [OF c(5)])
    have a: "mag A < radix ^ mp_top A" using val_bound [of "digits A"] length_digits [OF mp_canon_ok [OF assms(4)]] by (simp add: mag_def)
    have "2 ^ s \<le> radix ^ (if s = 0 then 0 else 1)"
      using power_increasing [of s 32 "2 :: nat"] assms(6) by (cases "s = 0") simp_all
    with a have "mag A * 2 ^ s < radix ^ mp_top A * radix ^ (if s = 0 then 0 else 1)"
      by (intro mult_less_le_imp_less) simp_all
    then show "mag U < radix ^ (mp_top A + (if s = 0 then 0 else 1))" unfolding c(7) power_add .
  qed
  then have room: "mp_top U + 2 \<le> mp_size U" using c(11) by linarith
  show ?case
  proof (rule cpost_seq [OF mpdiv_extend_post [OF c(3-6) VU room]], elim exE conjE)
    fix st2 U'
    assume u2: "updated st1 u U' st2" and U': "mp_ok U'" "mag U' = mag U" "mp_sign U' = mp_sign U" "MPstatic U' = MPstatic U"
      "mp_top U' < length (mp_p U')" "mp_top V \<le> mp_top U'" "val (drop (mp_top U' - mp_top V) (digits U')) < mag V"
    have vu: "v \<noteq> u" using c(1,2,12) assms(3) visible_obj [OF c(1) assms(3)] by (auto split: if_splits)
    have v2: "visible (obj st) T st2" by (rule visible_tmp [OF c(1,2) u2])
    have o2: "obj st2 u = Some U'" "obj st2 v = Some V" using u2 vu c(4) by simp_all
    have T2: "\<forall>t\<in>T. obj st2 t \<noteq> None" using c(12) o2 by (auto split: if_splits)
    show "cpost (cbind (mpnew (int (4 * Dbits)) st2) (\<lambda>(t, st). cbind (mpget u st) (\<lambda>U. cbind (mpget v st) (\<lambda>V.
        cbind (if_some quot (\<lambda>q. mpdiv_quotient q (mp_top U - mp_top V)) st) (\<lambda>st. cbind (vget 0 (mp_top V) (mp_p V)) (\<lambda>vd.
        cbind (mpdiv_loop (mp_top U - mp_top V) vd (mp_p U)) (\<lambda>(qs, up). cbind (mpset u (U\<lparr>mp_p := up, mp_top := mp_top V\<rparr>) st)
        (\<lambda>st. mpdiv_finish dividend divisor quot rmd s t u v qs st)))))))) E
      (\<lambda>st'. \<exists>mq. quot_stored (obj st) A D quot mq \<and> rem_stored mq dividend A D rmd (obj st') \<and> 1 \<le> mpmindigits st')"
    proof (rule cpost_seq [OF visible_new_post [OF v2 _ T2]], simp, elim case_prodE conjE exE, hypsubst, unfold prod.case)
      fix t st3 X
      assume t: "t \<notin> T" "\<forall>a. a \<noteq> t \<longrightarrow> obj st3 a = obj st2 a" "visible (obj st) (insert t T) st3" "obj st2 t = None"
        "obj st3 t = Some X" "\<not> MPstatic X"
      have o3: "obj st3 u = Some U'" "obj st3 v = Some V" using t(2,4) o2 by (metis option.distinct(1))+
      show "cpost (cbind (mpget u st3) (\<lambda>U. cbind (mpget v st3) (\<lambda>V.
          cbind (if_some quot (\<lambda>q. mpdiv_quotient q (mp_top U - mp_top V)) st3) (\<lambda>st. cbind (vget 0 (mp_top V) (mp_p V)) (\<lambda>vd.
          cbind (mpdiv_loop (mp_top U - mp_top V) vd (mp_p U)) (\<lambda>(qs, up). cbind (mpset u (U\<lparr>mp_p := up, mp_top := mp_top V\<rparr>) st)
          (\<lambda>st. mpdiv_finish dividend divisor quot rmd s t u v qs st))))))) E
        (\<lambda>st'. \<exists>mq. quot_stored (obj st) A D quot mq \<and> rem_stored mq dividend A D rmd (obj st') \<and> 1 \<le> mpmindigits st')"
        unfolding mpget_obj [OF o3(1)] mpget_obj [OF o3(2)] cbind_Inr
      proof (rule cpost_seq [OF quot_ready_post [OF t(3) tg]], elim exE conjE)
        fix st4 m1
        assume q: "quot_ready (obj st) (mp_top U' - mp_top V) quot m1" "visible m1 (insert t T) st4"
          "\<forall>a. quot \<noteq> Some a \<longrightarrow> obj st4 a = obj st3 a" "\<forall>a\<in>insert t T. quot \<noteq> Some a"
        have o4: "obj st4 u = Some U'" "obj st4 t = Some X" "v \<noteq> divisor \<Longrightarrow> obj st4 v = Some V"
          using q(3,4) c(2,12) o3 t(5) by (auto split: if_splits)
        show "cpost (cbind (vget 0 (mp_top V) (mp_p V)) (\<lambda>vd.
            cbind (mpdiv_loop (mp_top U' - mp_top V) vd (mp_p U')) (\<lambda>(qs, up). cbind (mpset u (U'\<lparr>mp_p := up, mp_top := mp_top V\<rparr>) st4)
            (\<lambda>st. mpdiv_finish dividend divisor quot rmd s t u v qs st)))) E
          (\<lambda>st'. \<exists>mq. quot_stored (obj st) A D quot mq \<and> rem_stored mq dividend A D rmd (obj st') \<and> 1 \<le> mpmindigits st')"
          using U' c o4
          by (intro mpdiv_from_loop [OF q(2,1) assms(2) mp_canon_ok [OF assms(4)] assms(3) AD o4(1) U'(1) _ _ _ assms(6) U'(5-7) c(6,8) t(1) o4(2) t(6) tg])
            (auto split: if_splits)
      qed
    qed
  qed
qed

end
