(* ===== verification/Mp_Theorems.thy ===== *)
theory Mp_Theorems
  imports Mp_Div_Proofs
begin

text \<open>
  What the multiple precision library promises, as theorems on whole operations, and where the code
  does not keep the promise.
\<close>

section \<open>Binary operations as an interface\<close>

lemma cpost_none: "cpost m {} Q \<longleftrightarrow> (\<exists>x. m = Inr x \<and> Q x)"
  by (auto simp: cpost_def split: sum.splits cerr.splits)

text \<open>
  An operation of two operands and a result, on integers: it computes \<open>f\<close>, whatever objects the
  three addresses share. What follows holds of addition, subtraction and multiplication alike.
\<close>

locale mp_binop =
  fixes mop :: "mpaddr \<Rightarrow> mpaddr \<Rightarrow> mpaddr \<Rightarrow> mpstate \<Rightarrow> mpstate cres"
    and f :: "int \<Rightarrow> int \<Rightarrow> int"
  assumes mop_post: "mp_store st \<Longrightarrow> obj st b1 = Some B1 \<Longrightarrow> obj st b2 = Some B2 \<Longrightarrow> obj st r = Some S \<Longrightarrow>
    mp_canon B1 \<Longrightarrow> mp_canon B2 \<Longrightarrow> mp_ok S \<Longrightarrow>
    cpost (mop b1 b2 r st) E (\<lambda>st'. \<exists>R. updated st r R st' \<and> mp_canon R \<and>
      mpval R = f (mpval B1) (mpval B2) \<and> MPstatic R = MPstatic S)"
begin

lemma mop_value:
  assumes "mp_store st" "obj st b1 = Some B1" "obj st b2 = Some B2" "obj st r = Some S" "mp_canon B1" "mp_canon B2" "mp_ok S"
  shows "\<exists>st' R. mop b1 b2 r st = Inr st' \<and> obj st' = (obj st)(r \<mapsto> R) \<and> mp_canon R \<and> mpval R = f (mpval B1) (mpval B2)"
  using mop_post [OF assms, of "{}"] by (auto simp: cpost_none updated_def)

text \<open>The constants survive unless the result is one of them.\<close>

lemma mop_store:
  assumes "mp_store st" "obj st b1 = Some B1" "obj st b2 = Some B2" "obj st r = Some S" "mp_canon B1" "mp_canon B2" "mp_ok S"
    and "\<not> MPstatic S"
  shows "cpost (mop b1 b2 r st) E (\<lambda>st'. mp_store st' \<and> (\<exists>R. updated st r R st' \<and> mp_canon R \<and>
    mpval R = f (mpval B1) (mpval B2) \<and> \<not> MPstatic R))"
proof -
  have "r \<noteq> mpzero" "r \<noteq> mpone" "r \<noteq> mptwo"
    using assms(1,4,8) by (auto simp: mp_store_def mpzero_obj_def mpone_obj_def mptwo_obj_def)
  then have "mp_store st'" if "updated st r R st'" for st' R
    using assms(1) that by (simp add: mp_store_def updated_def)
  then show ?thesis
    by (intro cpost_mono [OF mop_post [OF assms(1-7)] subset_refl]) (use assms(8) in blast)
qed

text \<open>Accumulation: an operation whose first operand is its result, done for several operands.\<close>

fun accumulate :: "mpaddr \<Rightarrow> mpaddr list \<Rightarrow> mpstate \<Rightarrow> mpstate cres" where
  "accumulate r [] st = Inr st"
| "accumulate r (b # bs) st = cbind (mop r b r st) (accumulate r bs)"

lemma accumulate_value:
  assumes "mp_store st" "obj st r = Some S" "mp_canon S" "\<not> MPstatic S"
    and "\<forall>b\<in>set bs. b \<noteq> r \<and> (\<exists>B. obj st b = Some B \<and> mp_canon B)"
  shows "cpost (accumulate r bs st) E (\<lambda>st'. \<exists>R. updated st r R st' \<and> mp_canon R \<and>
    mpval R = foldl f (mpval S) (map (\<lambda>b. mpval (the (obj st b))) bs))"
  using assms
proof (induction bs arbitrary: st S)
  case Nil
  have "updated st r S st" using Nil.prems(2) by (auto simp: updated_def)
  with Nil.prems(3) show ?case by auto
next
  case (Cons b bs)
  then obtain B where B: "obj st b = Some B" "mp_canon B" "b \<noteq> r" by auto
  have eq: "accumulate r (b # bs) st = cbind (mop r b r st) (accumulate r bs)" by simp
  show ?case
    unfolding eq
  proof (rule cpost_seq [OF mop_store [OF Cons.prems(1,2) B(1) Cons.prems(2,3) B(2) mp_canon_ok [OF Cons.prems(3)] Cons.prems(4)]],
      elim conjE exE)
    fix st1 R
    assume R: "mp_store st1" "updated st r R st1" "mp_canon R" "mpval R = f (mpval S) (mpval B)" "\<not> MPstatic R"
    have same: "obj st1 c = obj st c" if "c \<in> set bs" for c using R(2) Cons.prems(5) that by auto
    have "cpost (accumulate r bs st1) E (\<lambda>st'. \<exists>R'. updated st1 r R' st' \<and> mp_canon R' \<and>
        mpval R' = foldl f (mpval R) (map (\<lambda>b. mpval (the (obj st1 b))) bs))"
      using Cons.prems(5) same by (intro Cons.IH [OF R(1) _ R(3,5)]) (use R(2) in auto)
    moreover have "map (\<lambda>b. mpval (the (obj st1 b))) bs = map (\<lambda>b. mpval (the (obj st b))) bs" using same by simp
    ultimately show "cpost (accumulate r bs st1) E (\<lambda>st'. \<exists>R. updated st r R st' \<and> mp_canon R \<and>
        mpval R = foldl f (mpval S) (map (\<lambda>b. mpval (the (obj st b))) (b # bs)))"
      using R(4) B(1) updated_trans [OF R(2)] by (auto elim!: cpost_mono)
  qed
qed

end

interpretation madd: mp_binop mpadd "(+)"
  by unfold_locales (rule mpadd_post)

interpretation msub: mp_binop mpsub "(-)"
  by unfold_locales (rule mpsub_post)

interpretation mmul: mp_binop mpmul "(*)"
  by unfold_locales (rule mpmul_post)

section \<open>Arithmetic\<close>

text \<open>A store with three numbers, for the witnesses.\<close>

definition mp_num :: "int \<Rightarrow> mpdigit list \<Rightarrow> mpint" where
  "mp_num s ds = \<lparr>mp_sign = s, mp_size = length ds, mp_top = mpnorm_loop (length ds) ds, mp_p = ds, MPstatic = False\<rparr>"

definition demo_mp :: mpstate where
  "demo_mp = mpinit\<lparr>objs := objs mpinit @ [Some (mp_num 1 [6, 1]), Some (mp_num (-1) [4]), Some (mp_num 1 [0])]\<rparr>"

lemma demo_mp_obj [simp]:
  "obj demo_mp 3 = Some (mp_num 1 [6, 1])" "obj demo_mp 4 = Some (mp_num (-1) [4])" "obj demo_mp 5 = Some (mp_num 1 [0])"
  by (simp_all add: demo_mp_def mpinit_def obj_def)

lemma demo_mp_store [simp]: "mp_store demo_mp"
  by (simp add: mp_store_def demo_mp_def mpinit_def obj_def mpzero_def mpone_def mptwo_def)

lemma demo_mp_canon [simp]: "mp_canon (mp_num 1 [6, 1])" "mp_canon (mp_num (-1) [4])" "mp_ok (mp_num 1 [0])"
  by (simp_all add: mp_num_def mp_canon_def mp_ok_def canon_digits_def digits_def)

lemma mp_num_sel [simp]: "mp_sign (mp_num s ds) = s" "\<not> MPstatic (mp_num s ds)" "mp_p (mp_num s ds) = ds"
  by (simp_all add: mp_num_def)

lemma demo_mp_val [simp]: "mpval (mp_num 1 [6, 1]) = 4294967302" "mpval (mp_num (-1) [4]) = -4"
  by (simp_all add: mp_num_def mpval_def mag_def digits_def)

text \<open>
  C35: \<open>mpadd\<close> computes the sum, for any two numbers and any result object, operands included,
  without touching another object, and leaves it in canonical form.
\<close>

theorem mpadd_value:
  assumes "mp_store st" "obj st b1 = Some B1" "obj st b2 = Some B2" "obj st r = Some S"
    and "mp_canon B1" "mp_canon B2" "mp_ok S"
  shows "\<exists>st' R. mpadd b1 b2 r st = Inr st' \<and> obj st' = (obj st)(r \<mapsto> R) \<and> mp_canon R \<and>
    mpval R = mpval B1 + mpval B2"
  by (rule madd.mop_value [OF assms])

theorem mpadd_value_witness:
  "\<exists>st' R. mpadd 3 4 5 demo_mp = Inr st' \<and> obj st' = (obj demo_mp)(5 \<mapsto> R) \<and> mp_canon R \<and> mpval R = 4294967298"
  using mpadd_value [of demo_mp 3 "mp_num 1 [6, 1]" 4 "mp_num (-1) [4]" 5 "mp_num 1 [0]"] by simp

text \<open>
  C16: \<open>mpmul\<close> computes the product, by the schoolbook method or by Karatsuba's, for any result
  object.
\<close>

theorem mpmul_value:
  assumes "mp_store st" "obj st b1 = Some B1" "obj st b2 = Some B2" "obj st r = Some S"
    and "mp_canon B1" "mp_canon B2" "mp_ok S"
  shows "\<exists>st' R. mpmul b1 b2 r st = Inr st' \<and> obj st' = (obj st)(r \<mapsto> R) \<and> mp_canon R \<and>
    mpval R = mpval B1 * mpval B2"
  by (rule mmul.mop_value [OF assms])

theorem mpmul_value_witness:
  "\<exists>st' R. mpmul 3 4 3 demo_mp = Inr st' \<and> obj st' = (obj demo_mp)(3 \<mapsto> R) \<and> mp_canon R \<and> mpval R = -17179869208"
  using mpmul_value [of demo_mp 3 "mp_num 1 [6, 1]" 4 "mp_num (-1) [4]" 3 "mp_num 1 [6, 1]"] mp_canon_ok by simp

text \<open>\<open>mpsub\<close> computes the difference, for any result object.\<close>

theorem mpsub_value:
  assumes "mp_store st" "obj st b1 = Some B1" "obj st b2 = Some B2" "obj st r = Some S"
    and "mp_canon B1" "mp_canon B2" "mp_ok S"
  shows "\<exists>st' R. mpsub b1 b2 r st = Inr st' \<and> obj st' = (obj st)(r \<mapsto> R) \<and> mp_canon R \<and>
    mpval R = mpval B1 - mpval B2"
  by (rule msub.mop_value [OF assms])

theorem mpsub_value_witness:
  "\<exists>st' R. mpsub 3 3 3 demo_mp = Inr st' \<and> obj st' = (obj demo_mp)(3 \<mapsto> R) \<and> mp_canon R \<and> mpval R = 0"
  using mpsub_value [of demo_mp 3 "mp_num 1 [6, 1]" 3 "mp_num 1 [6, 1]" 3 "mp_num 1 [6, 1]"] mp_canon_ok by simp

text \<open>
  C34: \<open>mpvecmul\<close>, which switches to Karatsuba's method for vectors of 32 digits and more,
  agrees with the reference: in a zeroed vector with room for the product it leaves the digits of the
  product, and stores nothing outside it.
\<close>

theorem mpvecmul_reference:
  assumes "length a + length b \<le> k"
  shows "\<exists>r. mpvecmul a b (replicate k 0) = Inr r \<and> length r = k \<and> val r = val a * val b"
  by (rule mpvecmul_correct [OF assms])

theorem mpvecmul_reference_witness:
  "\<exists>r. mpvecmul (replicate 40 7) [3, 5] (replicate 42 0) = Inr r \<and> length r = 42 \<and>
     val r = val (replicate 40 7) * val [3, 5]"
  by (rule mpvecmul_reference) simp

text \<open>
  \<open>mpcmp\<close> is negative, zero or positive as the first number is less than, equal to or greater
  than the second, when both are canonical.
\<close>

theorem mpcmp_order:
  assumes "obj st b1 = Some B1" "obj st b2 = Some B2" "mp_canon B1" "mp_canon B2"
  shows "\<exists>c. mpcmp b1 b2 st = Inr c \<and> sgn c = sgn (mpval B1 - mpval B2)"
  by (rule mpcmp_post [OF assms])

theorem mpcmp_order_witness: "\<exists>c. mpcmp 4 3 demo_mp = Inr c \<and> sgn c = -1"
  using mpcmp_order [of demo_mp 4 "mp_num (-1) [4]" 3 "mp_num 1 [6, 1]"] by simp

section \<open>Division\<close>

lemma mpdiv_large_post:
  assumes "mp_store st" "obj st dividend = Some A" "obj st divisor = Some D" "mp_canon A" "mp_canon D" "mag D \<noteq> 0"
    and "mag D \<le> mag A" "div_targets (obj st) quot rmd"
  shows "cpost (mpdiv dividend divisor quot rmd st) E
    (\<lambda>st'. \<exists>mq. quot_stored (obj st) A D quot mq \<and> rem_stored mq dividend A D rmd (obj st') \<and> 1 \<le> mpmindigits st')"
proof -
  obtain c where c: "mpmagcmp dividend divisor st = Inr c" "sgn c = sgn (int (mag A) - int (mag D))"
    using mpmagcmp_post [OF assms(2-5)] by blast
  have cn: "\<not> c < 0" using c(2) assms(7) by (auto simp: sgn_if split: if_splits)
  note okD = mp_canon_ok [OF assms(5)]
  have t: "mp_top D \<noteq> 0" using mag_0_iff [OF assms(5)] assms(6) by simp
  have "mp_p D ! (mp_top D - 1) \<noteq> 0"
    using digits_last [OF okD t] assms(5) by (auto simp: mp_canon_def canon_digits_def)
  then obtain s where s: "s < 32" "mpdiv_shift Dbits 0 (mp_p D ! (mp_top D - 1)) = Inr s" using mpdiv_shift_correct by blast
  have "mpdiv dividend divisor quot rmd st = mpdiv_main dividend divisor quot rmd s st"
    using t cn s(2) c(1) okD by (simp add: mpdiv_def mpget_obj [OF assms(3)] mp_ok_def)
  moreover have "1 \<le> mpmindigits st" using assms(1) by (simp add: mp_store_def)
  ultimately show ?thesis using mpdiv_main_post [OF _ assms(2-5) s(1) assms(6-8)] by simp
qed

lemma mpdiv_small_post:
  assumes "mp_store st" "obj st dividend = Some A" "obj st divisor = Some D" "mp_canon A" "mp_canon D"
    and "mag A < mag D" "div_targets (obj st) quot rmd"
  shows "cpost (mpdiv dividend divisor quot rmd st) E (\<lambda>st'. \<exists>mr.
    (case rmd of None \<Rightarrow> mr = obj st | Some r \<Rightarrow> \<exists>R. mr = (obj st)(r \<mapsto> R) \<and> mp_canon R \<and> mpval R = mpval A) \<and>
    (case quot of None \<Rightarrow> obj st' = mr | Some q \<Rightarrow> \<exists>Q. obj st' = mr(q \<mapsto> Q) \<and> mp_canon Q \<and> mpval Q = 0) \<and>
    1 \<le> mpmindigits st')"
proof -
  obtain c where c: "mpmagcmp dividend divisor st = Inr c" "sgn c = sgn (int (mag A) - int (mag D))"
    using mpmagcmp_post [OF assms(2-5)] by blast
  have cn: "c < 0" using c(2) assms(6) by (auto simp: sgn_if split: if_splits)
  have t: "mp_top D \<noteq> 0" using mag_0_iff [OF assms(5)] assms(6) by simp
  have mn: "1 \<le> mpmindigits st" using assms(1) by (simp add: mp_store_def)
  have z: "obj st mpzero = Some mpzero_obj" "MPstatic mpzero_obj" using assms(1) by (auto simp: mp_store_def mpzero_obj_def)
  have r: "cpost (if_some rmd (mpassign dividend) st) E (\<lambda>st1. obj st1 mpzero = Some mpzero_obj \<and> 1 \<le> mpmindigits st1 \<and>
      (case rmd of None \<Rightarrow> obj st1 = obj st | Some r \<Rightarrow> \<exists>R. obj st1 = (obj st)(r \<mapsto> R) \<and> mp_canon R \<and> mpval R = mpval A))"
  proof (cases rmd)
    case (Some r)
    then obtain R where R: "obj st r = Some R" "mp_ok R" "\<not> MPstatic R" using assms(7) by (auto simp: div_targets_def)
    have "r \<noteq> mpzero" using R z by auto
    then have "cpost (mpassign dividend r st) E (\<lambda>st1. obj st1 mpzero = Some mpzero_obj \<and> 1 \<le> mpmindigits st1 \<and>
        (\<exists>R. obj st1 = (obj st)(r \<mapsto> R) \<and> mp_canon R \<and> mpval R = mpval A))"
      using z(1) mn by (intro cpost_mono [OF mpassign_canon [OF assms(2) R(1) assms(4) R(2)] subset_refl])
        (auto simp: updated_def mpval_def)
    then show ?thesis by (simp add: if_some_def Some)
  qed (use mn in \<open>simp add: if_some_def z\<close>)
  have "mpdiv dividend divisor quot rmd st =
      cbind (if_some rmd (mpassign dividend) st) (\<lambda>st. if_some quot (mpassign mpzero) st)"
    using t cn c(1) by (simp add: mpdiv_def mpget_obj [OF assms(3)])
  moreover have "cpost \<dots> E (\<lambda>st'. \<exists>mr.
    (case rmd of None \<Rightarrow> mr = obj st | Some r \<Rightarrow> \<exists>R. mr = (obj st)(r \<mapsto> R) \<and> mp_canon R \<and> mpval R = mpval A) \<and>
    (case quot of None \<Rightarrow> obj st' = mr | Some q \<Rightarrow> \<exists>Q. obj st' = mr(q \<mapsto> Q) \<and> mp_canon Q \<and> mpval Q = 0) \<and>
    1 \<le> mpmindigits st')"
  proof (rule cpost_seq [OF r], elim conjE)
    fix st1
    assume z1: "obj st1 mpzero = Some mpzero_obj" and mn1: "1 \<le> mpmindigits st1"
      and m1: "case rmd of None \<Rightarrow> obj st1 = obj st | Some r \<Rightarrow> \<exists>R. obj st1 = (obj st)(r \<mapsto> R) \<and> mp_canon R \<and> mpval R = mpval A"
    show "cpost (if_some quot (mpassign mpzero) st1) E (\<lambda>st'. \<exists>mr.
      (case rmd of None \<Rightarrow> mr = obj st | Some r \<Rightarrow> \<exists>R. mr = (obj st)(r \<mapsto> R) \<and> mp_canon R \<and> mpval R = mpval A) \<and>
      (case quot of None \<Rightarrow> obj st' = mr | Some q \<Rightarrow> \<exists>Q. obj st' = mr(q \<mapsto> Q) \<and> mp_canon Q \<and> mpval Q = 0) \<and>
    1 \<le> mpmindigits st')"
    proof (cases quot)
      case (Some q)
      obtain Q where Q: "obj st1 q = Some Q" "mp_ok Q"
        using assms(7) m1 Some by (fastforce simp: div_targets_def split: option.splits)
      have "cpost (mpassign mpzero q st1) E (\<lambda>st'. (\<exists>Q. obj st' = (obj st1)(q \<mapsto> Q) \<and> mp_canon Q \<and> mpval Q = 0) \<and> 1 \<le> mpmindigits st')"
        by (rule cpost_mono [OF mpassign_canon [OF z1 Q(1) mp_consts(1) Q(2)] subset_refl]) (use mn1 in \<open>auto simp: updated_def mpval_def\<close>)
      then have "cpost (mpassign mpzero q st1) E (\<lambda>st'. \<exists>mr.
        (case rmd of None \<Rightarrow> mr = obj st | Some r \<Rightarrow> \<exists>R. mr = (obj st)(r \<mapsto> R) \<and> mp_canon R \<and> mpval R = mpval A) \<and>
        (\<exists>Q. obj st' = mr(q \<mapsto> Q) \<and> mp_canon Q \<and> mpval Q = 0) \<and> 1 \<le> mpmindigits st')"
        by (rule cpost_mono [OF _ subset_refl]) (use m1 in \<open>auto intro!: exI [of _ "obj st1"]\<close>)
      then show ?thesis by (simp add: if_some_def Some)
    qed (use m1 mn1 in \<open>simp add: if_some_def\<close>)
  qed
  ultimately show ?thesis by simp
qed




text \<open>A division by zero ends in \<open>sysfatal\<close>, before anything is changed.\<close>

theorem mpdiv_by_zero:
  assumes "obj st divisor = Some D" "mp_top D = 0"
  shows "mpdiv dividend divisor quot rmd st = Inl (Raise ''mpdiv: divide by zero'')"
  using assms by (simp add: mpdiv_def mpget_def)

theorem mpdiv_by_zero_witness: "mpdiv 3 5 (Some 4) None demo_mp = Inl (Raise ''mpdiv: divide by zero'')"
  by (rule mpdiv_by_zero [of _ _ "mp_num 1 [0]"]) (simp_all add: mp_num_def)

text \<open>
  When dividend and divisor have the same sign, \<open>mpdiv\<close> leaves the sign of the quotient
  object as it was: a quotient object that was negative makes the quotient negative.
\<close>

theorem mpdiv_stale_sign:
  assumes "mp_store st" "obj st dividend = Some A" "obj st divisor = Some D" "mp_canon A" "mp_canon D" "mpval D \<noteq> 0"
    and "mp_sign A = mp_sign D" "\<bar>mpval D\<bar> \<le> \<bar>mpval A\<bar>" "obj st q = Some Q" "mp_ok Q" "\<not> MPstatic Q" "mp_sign Q = -1"
  shows "\<exists>st' Q'. mpdiv dividend divisor (Some q) None st = Inr st' \<and> obj st' q = Some Q' \<and>
    mpval Q' = - (\<bar>mpval A\<bar> div \<bar>mpval D\<bar>) \<and> mpval Q' < 0"
proof -
  have tg: "div_targets (obj st) (Some q) None" using assms by (auto simp: div_targets_def)
  have d0: "mag D \<noteq> 0" using assms(6) by (auto simp: mpval_def)
  have ab: "\<bar>mpval A\<bar> = int (mag A)" "\<bar>mpval D\<bar> = int (mag D)"
    using canon_sign [OF assms(4)] canon_sign [OF assms(5)] by (auto simp: mpval_def abs_mult)
  then have le: "mag D \<le> mag A" using assms(8) by simp
  obtain st' mq where st': "mpdiv dividend divisor (Some q) None st = Inr st'" "quot_stored (obj st) A D (Some q) mq" "obj st' = mq"
    using mpdiv_large_post [OF assms(1-5) d0 le tg, where E = "{}"] unfolding cpost_none by (auto simp: rem_stored_def)
  obtain Q' where Q': "mq = (obj st)(q \<mapsto> Q')" "div_quot A D Q Q'" using st'(2) assms(9) by (auto simp: quot_stored_def)
  have "mpval Q' = - int (mag A div mag D)" using Q'(2) assms(7,12) by (auto simp: div_quot_def mpval_def)
  moreover have "0 < mag A div mag D" using le d0 by (simp add: div_greater_zero_iff)
  ultimately show ?thesis using st' Q'(1) by (simp add: ab flip: zdiv_int)
qed

theorem mpdiv_stale_sign_witness:
  "\<exists>st' Q'. mpdiv 3 2 (Some 4) None demo_mp = Inr st' \<and> obj st' 4 = Some Q' \<and> mpval Q' = -2147483651"
proof -
  have "obj demo_mp 2 = Some mptwo_obj" using demo_mp_store by (simp add: mp_store_def mptwo_def)
  moreover have "mpval mptwo_obj = 2" "mp_sign mptwo_obj = 1" by (simp_all add: mptwo_obj_def mpval_def mag_def digits_def)
  ultimately show ?thesis
    using mpdiv_stale_sign [of demo_mp 3 "mp_num 1 [6, 1]" 2 mptwo_obj 4 "mp_num (-1) [4]"] mp_canon_ok [of "mp_num (-1) [4]"] mp_consts
    by auto
qed

section \<open>Residues\<close>

lemma canon_eqI: "mp_canon B \<Longrightarrow> mp_canon C \<Longrightarrow> mpval B = mpval C \<Longrightarrow> mag B = mag C \<and> mp_sign B = mp_sign C"
  using canon_sign [of B] canon_sign [of C] mag_0_iff [of B] mag_0_iff [of C]
  by (auto simp: mpval_def mp_canon_def)

text \<open>The division \<open>mpmod\<close> starts with: the remainder has the sign of the dividend, even when it is zero.\<close>

lemma mpmod_div_post:
  assumes "mp_store st" "obj st b = Some A" "obj st m = Some D" "mp_canon A" "mp_canon D" "mag D \<noteq> 0"
    and "obj st r = Some R" "mp_ok R" "\<not> MPstatic R"
  shows "cpost (mpdiv b m None (Some r) st) E (\<lambda>st1. 1 \<le> mpmindigits st1 \<and> (\<exists>R'. obj st1 = (obj st)(r \<mapsto> R') \<and> mp_ok R' \<and>
    canon_digits (digits R') \<and> mag R' = mag A mod mag D \<and> mp_sign R' = (if mag A mod mag D = 0 \<and> b = r then 1 else mp_sign A)))"
proof -
  have tg: "div_targets (obj st) None (Some r)" using assms by (auto simp: div_targets_def)
  show ?thesis
  proof (cases "mag A < mag D")
    case True
    have s: "mag A = 0 \<Longrightarrow> mp_sign A = 1" using mag_0_iff [OF assms(4)] assms(4) by (simp add: mp_canon_def)
    show ?thesis
      by (rule cpost_mono [OF mpdiv_small_post [OF assms(1-5) True tg] subset_refl])
        (use True s canon_eqI [OF _ assms(4)] in \<open>fastforce simp: mp_canon_def\<close>)
  next
    case False
    then have le: "mag D \<le> mag A" by simp
    show ?thesis
      by (rule cpost_mono [OF mpdiv_large_post [OF assms(1-5,6) le tg] subset_refl])
        (use assms(2) in \<open>auto simp: quot_stored_def rem_stored_def div_rem_def\<close>)
  qed
qed

lemma mpadd_negative_zero:
  assumes "obj st m = Some D" "mp_canon D" "mp_sign D = 1" "mp_top D \<noteq> 0" "obj st r = Some R" "mp_ok R" "mp_top R = 0" "mp_sign R = -1"
  shows "cpost (mpadd m r r st) E (\<lambda>st'. \<exists>R'. updated st r R' st' \<and> mpval R' = mpval D)"
proof -
  have "cpost (cbind (mpassign m r st) (\<lambda>st. cbind (mpget r st) (\<lambda>D. mpset r (D\<lparr>mp_sign := 1\<rparr>) st))) E
    (\<lambda>st'. \<exists>R'. updated st r R' st' \<and> mpval R' = mpval D)"
  proof (rule cpost_seq [OF mpassign_canon [OF assms(1,5,2,6)]], elim exE conjE)
    fix st1 N
    assume N: "updated st r N st1" "mp_canon N" "mag N = mag D" "mp_sign N = mp_sign D"
    show "cpost (cbind (mpget r st1) (\<lambda>D. mpset r (D\<lparr>mp_sign := 1\<rparr>) st1)) E (\<lambda>st'. \<exists>R'. updated st r R' st' \<and> mpval R' = mpval D)"
      by (rule cpost_mono [OF set_sign_post [OF N(1,2), of 1] subset_refl]) (use N(3) assms(3) in \<open>auto simp: mpval_def\<close>)
  qed
  then show ?thesis
    using assms by (simp add: mpadd_def mpmagsub_def mpmagcmp_def mpget_obj Let_def)
qed

lemma mod_of_parts:
  assumes "mp_sign D = 1" "mag D \<noteq> 0" "mp_sign A = 1 \<or> mp_sign A = -1"
  shows "mpval A mod mpval D = (if mp_sign A = -1 \<and> mag A mod mag D \<noteq> 0 then mpval D - int (mag A mod mag D) else int (mag A mod mag D))"
  using assms by (auto simp: mpval_def zmod_zminus1_eq_if simp flip: zmod_int)

text \<open>
  For a positive modulus \<open>mpmod\<close> computes the least non-negative residue, unless the number is a
  negative multiple of the modulus and the result is stored elsewhere.
\<close>

theorem mpmod_value:
  assumes "mp_store st" "obj st b = Some A" "obj st m = Some D" "mp_canon A" "mp_canon D" "0 < mpval D"
    and "obj st r = Some R" "mp_ok R" "\<not> MPstatic R" "r \<noteq> m"
    and "0 \<le> mpval A \<or> \<not> mpval D dvd mpval A \<or> b = r"
  shows "\<exists>st' R'. mpmod b m r st = Inr st' \<and> obj st' = (obj st)(r \<mapsto> R') \<and> mpval R' = mpval A mod mpval D"
proof -
  have sD: "mp_sign D = 1" and d0: "mag D \<noteq> 0" using assms(6) canon_sign [OF assms(5)] by (auto simp: mpval_def)
  have sA: "mp_sign A = 1 \<or> mp_sign A = -1" using canon_sign [OF assms(4)] by auto
  note md = mod_of_parts [OF sD d0 sA]
  have "cpost (mpmod b m r st) {} (\<lambda>st'. \<exists>R'. obj st' = (obj st)(r \<mapsto> R') \<and> mpval R' = mpval A mod mpval D)"
    unfolding mpmod_def
  proof (rule cpost_seq [OF mpmod_div_post [OF assms(1-5) d0 assms(7-9)]], elim exE conjE)
    fix st1 R'
    assume mn: "1 \<le> mpmindigits st1" and R': "obj st1 = (obj st)(r \<mapsto> R')" "mp_ok R'" "canon_digits (digits R')"
      "mag R' = mag A mod mag D" "mp_sign R' = (if mag A mod mag D = 0 \<and> b = r then 1 else mp_sign A)"
    have nz: "mag A mod mag D \<noteq> 0" if "mp_sign R' = -1"
    proof
      assume z: "mag A mod mag D = 0"
      then have "b \<noteq> r" "mp_sign A = -1" using that R'(5) by (auto split: if_splits)
      moreover have "mpval D dvd mpval A" using md z by (simp add: dvd_eq_mod_eq_0)
      ultimately have "0 \<le> mpval A" using assms(11) by simp
      then have "mag A = 0" using \<open>mp_sign A = -1\<close> by (simp add: mpval_def)
      then show False using mag_0_iff [OF assms(4)] assms(4) \<open>mp_sign A = -1\<close> by (simp add: mp_canon_def)
    qed
    show "cpost (cbind (mpget r st1) (\<lambda>R. if mp_sign R < 0 then mpadd m r r st1 else Inr st1)) {}
      (\<lambda>st'. \<exists>R'. obj st' = (obj st)(r \<mapsto> R') \<and> mpval R' = mpval A mod mpval D)"
    proof (cases "mp_sign R' = -1")
      case True
      have "mag R' \<noteq> 0" using nz [OF True] R'(4) by simp
      then have c: "mp_canon R'" using R'(2,3) by (cases "mp_top R' = 0") (auto simp: mp_canon_def mag_def digits_def)
      have o: "obj st1 m = Some D" "obj st1 r = Some R'" using R'(1) assms(3,10) by auto
      have st: "mp_store st1"
        using assms(1,7,9) mn R'(1) by (auto simp: mp_store_def mpzero_obj_def mpone_obj_def mptwo_obj_def)
      have v: "mpval D + mpval R' = mpval A mod mpval D"
        using md nz [OF True] True R'(4,5) by (auto simp: mpval_def split: if_splits)
      have "cpost (mpadd m r r st1) {} (\<lambda>st'. \<exists>R'. obj st' = (obj st)(r \<mapsto> R') \<and> mpval R' = mpval A mod mpval D)"
        by (rule cpost_mono [OF mpadd_post [OF st o(1,2,2) assms(5) c R'(2)] subset_refl])
          (use R'(1) v in \<open>auto simp: updated_def\<close>)
      then show ?thesis using True by (simp add: mpget_obj [OF o(2)])
    next
      case False
      then have "mp_sign R' = 1" using R'(5) sA by (auto split: if_splits)
      then have "mpval R' = mpval A mod mpval D" using md R'(4,5) by (auto simp: mpval_def split: if_splits)
      then show ?thesis using R'(1) \<open>mp_sign R' = 1\<close> by (auto simp: mpget_def)
    qed
  qed
  then show ?thesis by (auto simp: cpost_none)
qed

theorem mpmod_value_witness:
  "\<exists>st' R'. mpmod 4 3 5 demo_mp = Inr st' \<and> obj st' = (obj demo_mp)(5 \<mapsto> R') \<and> mpval R' = 4294967298"
  using mpmod_value [of demo_mp 4 "mp_num (-1) [4]" 3 "mp_num 1 [6, 1]" 5 "mp_num 1 [0]"] by simp

text \<open>
  The exception: for a negative multiple of the modulus, stored elsewhere, the result is the
  modulus itself, which is no residue.
\<close>

theorem mpmod_negative_multiple:
  assumes "mp_store st" "obj st b = Some A" "obj st m = Some D" "mp_canon A" "mp_canon D" "0 < mpval D"
    and "obj st r = Some R" "mp_ok R" "\<not> MPstatic R" "r \<noteq> m" "r \<noteq> b" "mpval A < 0" "mpval D dvd mpval A"
  shows "\<exists>st' R'. mpmod b m r st = Inr st' \<and> obj st' r = Some R' \<and> mpval R' = mpval D"
proof -
  have sD: "mp_sign D = 1" and d0: "mag D \<noteq> 0" using assms(6) canon_sign [OF assms(5)] by (auto simp: mpval_def)
  have sA: "mp_sign A = -1" using canon_sign [OF assms(4)] assms(12) by (auto simp: mpval_def)
  have z: "mag A mod mag D = 0" using assms(13) sD sA by (auto simp: mpval_def)
  have "cpost (mpmod b m r st) {} (\<lambda>st'. \<exists>R'. obj st' r = Some R' \<and> mpval R' = mpval D)"
    unfolding mpmod_def
  proof (rule cpost_seq [OF mpmod_div_post [OF assms(1-5) d0 assms(7-9)]], elim exE conjE)
    fix st1 R'
    assume R': "obj st1 = (obj st)(r \<mapsto> R')" "mp_ok R'" "canon_digits (digits R')"
      "mag R' = mag A mod mag D" "mp_sign R' = (if mag A mod mag D = 0 \<and> b = r then 1 else mp_sign A)"
    have s: "mp_sign R' = -1" using R'(5) assms(11) sA by auto
    have t: "mp_top R' = 0"
      using mag_0_iff [of "R'\<lparr>mp_sign := 1\<rparr>"] R'(2-4) z by (simp add: mp_canon_def mp_ok_def mag_def digits_def)
    have o: "obj st1 m = Some D" "obj st1 r = Some R'" using R'(1) assms(3,10) by auto
    have "mp_top D \<noteq> 0" using mag_0_iff [OF assms(5)] d0 by simp
    then have "cpost (mpadd m r r st1) {} (\<lambda>st'. \<exists>R'. obj st' r = Some R' \<and> mpval R' = mpval D)"
      by (intro cpost_mono [OF mpadd_negative_zero [OF o(1) assms(5) sD _ o(2) R'(2) t s] subset_refl]) (auto simp: updated_def)
    then show "cpost (cbind (mpget r st1) (\<lambda>R. if mp_sign R < 0 then mpadd m r r st1 else Inr st1)) {}
      (\<lambda>st'. \<exists>R'. obj st' r = Some R' \<and> mpval R' = mpval D)"
      using s by (simp add: mpget_obj [OF o(2)])
  qed
  then show ?thesis by (auto simp: cpost_none)
qed

theorem mpmod_negative_multiple_witness:
  "\<exists>st' R'. mpmod 4 2 5 demo_mp = Inr st' \<and> obj st' 5 = Some R' \<and> mpval R' = 2"
proof -
  have "obj demo_mp 2 = Some mptwo_obj" using demo_mp_store by (simp add: mp_store_def mptwo_def)
  then show ?thesis using mpmod_negative_multiple [of demo_mp 4 "mp_num (-1) [4]" 2 mptwo_obj 5 "mp_num 1 [0]"] by simp
qed

end
