(* ===== verification/Dis_Machine.thy ===== *)
theory Dis_Machine
  imports Dis_Memory "HOL-Library.Signed_Division"
begin

text \<open>
  The registers and the memory of the Dis virtual machine on the amd64 host: \<open>struct REG\<close> of
  \<^verbatim>\<open>src/include/interp.h\<close> and the operand macros at the top of \<^verbatim>\<open>src/libinterp/xec.c\<close>. Memory
  is a map from 64-bit addresses to bytes, words in it are little-endian, and an operand register
  holds an address. The temporary \<open>R.t\<close> has an address of its own, as an immediate middle operand
  is stored in it and then referred to.
\<close>

section \<open>Memory\<close>

type_synonym ptr = u64
type_synonym dmem = "ptr \<Rightarrow> byte"

definition ld :: "nat \<Rightarrow> ptr \<Rightarrow> dmem \<Rightarrow> byte list" where
  "ld n a m = map (\<lambda>i. m (a + of_nat i)) [0..<n]"

definition st :: "ptr \<Rightarrow> byte list \<Rightarrow> dmem \<Rightarrow> dmem" where
  "st a bs m = (\<lambda>x. if unat (x - a) < length bs then bs ! unat (x - a) else m x)"

definition getw :: "ptr \<Rightarrow> dmem \<Rightarrow> u64" where "getw a m = dec_le (ld 8 a m)"
definition getw32 :: "ptr \<Rightarrow> dmem \<Rightarrow> u32" where "getw32 a m = dec_le (ld 4 a m)"
definition geth :: "ptr \<Rightarrow> dmem \<Rightarrow> u16" where "geth a m = dec_le (ld 2 a m)"
definition putw :: "ptr \<Rightarrow> u64 \<Rightarrow> dmem \<Rightarrow> dmem" where "putw a w = st a (enc_le 8 w)"
definition puth :: "ptr \<Rightarrow> u16 \<Rightarrow> dmem \<Rightarrow> dmem" where "puth a w = st a (enc_le 2 w)"

lemma length_ld [simp]: "length (ld n a m) = n"
  by (simp add: ld_def)

lemma st_outside: "length bs \<le> unat (x - a) \<Longrightarrow> st a bs m x = m x"
  by (simp add: st_def)

lemma ld_st: "length bs < 2 ^ 64 \<Longrightarrow> ld (length bs) a (st a bs m) = bs"
  by (intro nth_equalityI) (simp_all add: ld_def st_def unat_of_nat)

lemma unat_neg: "x \<noteq> 0 \<Longrightarrow> unat (- x :: 'a::len word) = 2 ^ LENGTH('a) - unat x"
proof -
  assume "x \<noteq> 0"
  then have "0 < uint x" by (metis order_le_less unsigned_greater_eq unsigned_eq_0_iff)
  moreover have "uint x < 2 ^ LENGTH('a)" by simp
  ultimately have "- uint x mod 2 ^ LENGTH('a) = 2 ^ LENGTH('a) - uint x"
    by (simp add: zmod_zminus1_eq_if)
  then have "uint (- x) = 2 ^ LENGTH('a) - uint x" by (simp add: uint_word_ariths)
  then have "int (unat (- x)) = int (2 ^ LENGTH('a)) - int (unat x)" by simp
  then show ?thesis by linarith
qed

lemma unat_add_less: "unat x + n < 2 ^ LENGTH('a) \<Longrightarrow> unat (x + of_nat n :: 'a::len word) = unat x + n"
  by (simp add: unat_word_ariths unat_of_nat)

lemma ld_st_outside:
  assumes "length bs \<le> unat (b - a)" "n \<le> unat (a - b)"
  shows "ld n b (st a bs m) = ld n b m"
proof -
  have "length bs \<le> unat (b + of_nat i - a)" if i: "i < n" for i
  proof -
    have "b - a \<noteq> 0" using assms(2) i by auto
    then have "unat (b - a) + i < 2 ^ LENGTH(64)" using unat_neg [of "b - a"] assms(2) i by simp
    then have "unat ((b - a) + of_nat i) = unat (b - a) + i" by (rule unat_add_less)
    then show ?thesis using assms(1) by (simp add: algebra_simps)
  qed
  then show ?thesis by (auto simp: ld_def st_outside)
qed

lemma getw_putw [simp]: "getw a (putw a w m) = w"
  using ld_st [of "enc_le 8 w" a m] by (simp add: getw_def putw_def)

lemma geth_puth [simp]: "geth a (puth a w m) = w"
  using ld_st [of "enc_le 2 w" a m] by (simp add: geth_def puth_def)

section \<open>Signed arithmetic of C\<close>

text \<open>
  Sums, differences, products and left shifts of signed operands wrap. A division traps for a zero
  divisor and for the one quotient that does not fit. A shift count must be less than the width.
\<close>

lemma sint_cases: "sint (x :: u64) = (if uint x < 2 ^ 63 then uint x else uint x - 2 ^ 64)"
proof (cases "uint x < 2 ^ 63")
  case True
  moreover have "- (2 ^ 63) \<le> uint x" by (rule order_trans [OF _ unsigned_greater_eq]) simp
  ultimately have "signed_take_bit 63 (uint x) = uint x" by (intro signed_take_bit_int_eq_self)
  then show ?thesis using True by (simp add: sint_uint)
next
  case False
  have l: "uint x < 2 ^ 64" using unsigned_less [of x, where 'a = int] by simp
  have "uint x div 2 ^ 63 = 1" by (rule int_div_pos_eq [of _ _ _ "uint x - 2 ^ 63"]) (use False l in simp_all)
  then have "bit (uint x) 63" by (simp add: bit_iff_odd)
  then show ?thesis using False l by (simp add: sint_uint signed_take_bit_eq_take_bit_minus take_bit_int_eq_self)
qed

text \<open>A comparison of unsigned words with a bound that is not negative rejects negative numbers too.\<close>

lemma unsigned_bound:
  assumes "0 \<le> sint (l :: u64)"
  shows "l \<le> i \<longleftrightarrow> \<not> (0 \<le> sint i \<and> sint i < sint l)"
  using assms unsigned_less [of l, where 'a = int] unsigned_less [of i, where 'a = int]
  unfolding sint_cases word_le_def by (auto split: if_splits)

definition c_div :: "u64 \<Rightarrow> u64 \<Rightarrow> u64 cres" where
  "c_div x y = cbind (cguard (y \<noteq> 0 \<and> \<not> (sint x = - (2 ^ 63) \<and> sint y = -1)))
    (\<lambda>_. Inr (word_of_int (sint x sdiv sint y)))"

definition c_mod :: "u64 \<Rightarrow> u64 \<Rightarrow> u64 cres" where
  "c_mod x y = cbind (cguard (y \<noteq> 0 \<and> \<not> (sint x = - (2 ^ 63) \<and> sint y = -1)))
    (\<lambda>_. Inr (word_of_int (sint x smod sint y)))"

definition c_shl :: "u64 \<Rightarrow> u64 \<Rightarrow> u64 cres" where
  "c_shl x n = cbind (cguard (n < 64)) (\<lambda>_. Inr (push_bit (unat n) x))"

definition c_shr :: "u64 \<Rightarrow> u64 \<Rightarrow> u64 cres" where
  "c_shr x n = cbind (cguard (n < 64)) (\<lambda>_. Inr (signed_drop_bit (unat n) x))"

definition c_lsr :: "u64 \<Rightarrow> u64 \<Rightarrow> u64 cres" where
  "c_lsr x n = cbind (cguard (n < 64)) (\<lambda>_. Inr (drop_bit (unat n) x))"

section \<open>Registers\<close>

record vm =
  PC :: ptr
  MP :: ptr
  FP :: ptr
  R_M :: ptr
  IC :: int
  R_s :: ptr
  R_d :: ptr
  R_m :: ptr
  Rt :: ptr
  mem :: dmem

abbreviation H :: ptr where "H \<equiv> - 1"

text \<open>The operand macros \<open>B\<close>, \<open>W\<close>, \<open>W32\<close>, \<open>V\<close>, \<open>SH\<close>, applied to an operand register.\<close>

definition opB :: "ptr \<Rightarrow> vm \<Rightarrow> byte" where "opB a r = mem r a"
definition opW :: "ptr \<Rightarrow> vm \<Rightarrow> u64" where "opW a r = getw a (mem r)"
definition opW32 :: "ptr \<Rightarrow> vm \<Rightarrow> u32" where "opW32 a r = getw32 a (mem r)"
definition opSH :: "ptr \<Rightarrow> vm \<Rightarrow> u16" where "opSH a r = geth a (mem r)"

definition setB :: "byte \<Rightarrow> vm \<Rightarrow> vm" where "setB x r = r\<lparr>mem := st (R_d r) [x] (mem r)\<rparr>"
definition setW :: "u64 \<Rightarrow> vm \<Rightarrow> vm" where "setW x r = r\<lparr>mem := putw (R_d r) x (mem r)\<rparr>"
definition setSH :: "u16 \<Rightarrow> vm \<Rightarrow> vm" where "setSH x r = r\<lparr>mem := puth (R_d r) x (mem r)\<rparr>"

text \<open>\<open>P(m) = x\<close> and \<open>JMP(d)\<close>.\<close>

definition setPm :: "ptr \<Rightarrow> vm \<Rightarrow> vm" where "setPm x r = r\<lparr>mem := putw (R_m r) x (mem r)\<rparr>"
definition JMP :: "vm \<Rightarrow> vm" where "JMP r = r\<lparr>PC := opW (R_d r) r\<rparr>"

text \<open>Fields of \<open>struct Modlink\<close>, \<open>struct Array\<close> and \<open>struct Type\<close>.\<close>

definition M_MP :: "vm \<Rightarrow> ptr" where "M_MP r = opW (R_M r) r"
definition M_compiled :: "vm \<Rightarrow> bool" where "M_compiled r \<longleftrightarrow> opW (R_M r + 16) r \<noteq> 0"
definition M_prog :: "vm \<Rightarrow> ptr" where "M_prog r = opW (R_M r + 24) r"
definition A_len :: "ptr \<Rightarrow> vm \<Rightarrow> u64" where "A_len a r = opW a r"
definition A_t :: "ptr \<Rightarrow> vm \<Rightarrow> ptr" where "A_t a r = opW (a + 8) r"
definition A_data :: "ptr \<Rightarrow> vm \<Rightarrow> ptr" where "A_data a r = opW (a + 24) r"
definition T_size :: "ptr \<Rightarrow> vm \<Rightarrow> u64" where "T_size t r = opW (t + 24) r"

definition sizeof_Inst :: ptr where "sizeof_Inst = 24"

end
