(* ===== verification/Dis_Decode.thy ===== *)
theory Dis_Decode
  imports Dis_Machine
begin

text \<open>
  Operand decoding (\<^verbatim>\<open>src/libinterp/dec.c\<close>): one routine for every value of the address mode byte of
  an instruction, and the program \<^verbatim>\<open>decgen.c\<close> that generated them. A routine is a sequence of
  assignments to the operand registers; the table below lists the sequence of each, in the order of
  the file. The table is proved to be what \<open>decgen\<close> prints, and to give every combination of modes
  the operands the instruction set defines.
\<close>

section \<open>The assignments of the routines\<close>

datatype areg = AMP | AFP

datatype dstmt =
    SrcOff areg | SrcImm | SrcInd areg
  | DstOff areg | DstImm | DstInd areg
  | MidDst | TmpReg | MidTmp | MidOff areg

fun breg :: "areg \<Rightarrow> vm \<Rightarrow> ptr" where
  "breg AMP r = MP r"
| "breg AFP r = FP r"

text \<open>The operand fields of the instruction at \<open>R.PC\<close>: \<open>reg\<close>, \<open>s\<close> and \<open>d\<close> of \<open>struct Inst\<close>.\<close>

definition inst_reg :: "vm \<Rightarrow> u16" where "inst_reg r = opSH (PC r + 2) r"
definition inst_s :: "vm \<Rightarrow> ptr" where "inst_s r = PC r + 8"
definition inst_d :: "vm \<Rightarrow> ptr" where "inst_d r = PC r + 16"

definition DIND :: "areg \<Rightarrow> ptr \<Rightarrow> vm \<Rightarrow> ptr" where
  "DIND b a r = opW (breg b r + ucast (opSH a r)) r + ucast (opSH (a + 2) r)"

fun dexec :: "dstmt \<Rightarrow> vm \<Rightarrow> vm" where
  "dexec (SrcOff b) r = r\<lparr>R_s := breg b r + opW (inst_s r) r\<rparr>"
| "dexec SrcImm r = r\<lparr>R_s := inst_s r\<rparr>"
| "dexec (SrcInd b) r = r\<lparr>R_s := DIND b (inst_s r) r\<rparr>"
| "dexec (DstOff b) r = r\<lparr>R_d := breg b r + opW (inst_d r) r\<rparr>"
| "dexec DstImm r = r\<lparr>R_d := inst_d r\<rparr>"
| "dexec (DstInd b) r = r\<lparr>R_d := DIND b (inst_d r) r\<rparr>"
| "dexec MidDst r = r\<lparr>R_m := R_d r\<rparr>"
| "dexec TmpReg r = r\<lparr>mem := putw (Rt r) (scast (inst_reg r)) (mem r)\<rparr>"
| "dexec MidTmp r = r\<lparr>R_m := Rt r\<rparr>"
| "dexec (MidOff b) r = r\<lparr>R_m := breg b r + ucast (inst_reg r)\<rparr>"

section \<open>The routines D00 to DFF\<close>

definition D0x :: "dstmt list list" where
  "D0x = [
    [SrcOff AMP, DstOff AMP, MidDst],
    [SrcOff AMP, DstOff AFP, MidDst],
    [SrcOff AMP, DstImm, MidDst],
    [SrcOff AMP],
    [SrcOff AMP, DstInd AMP, MidDst],
    [SrcOff AMP, DstInd AFP, MidDst],
    [SrcOff AMP],
    [SrcOff AMP],
    [SrcOff AFP, DstOff AMP, MidDst],
    [SrcOff AFP, DstOff AFP, MidDst],
    [SrcOff AFP, DstImm, MidDst],
    [SrcOff AFP],
    [SrcOff AFP, DstInd AMP, MidDst],
    [SrcOff AFP, DstInd AFP, MidDst],
    [SrcOff AFP],
    [SrcOff AFP]
  ]"

definition D1x :: "dstmt list list" where
  "D1x = [
    [SrcImm, DstOff AMP, MidDst],
    [SrcImm, DstOff AFP, MidDst],
    [SrcImm, DstImm, MidDst],
    [SrcImm],
    [SrcImm, DstInd AMP, MidDst],
    [SrcImm, DstInd AFP, MidDst],
    [SrcImm],
    [SrcImm],
    [DstOff AMP, MidDst],
    [DstOff AFP, MidDst],
    [DstImm, MidDst],
    [],
    [DstInd AMP, MidDst],
    [DstInd AFP, MidDst],
    [],
    []
  ]"

definition D2x :: "dstmt list list" where
  "D2x = [
    [SrcInd AMP, DstOff AMP, MidDst],
    [SrcInd AMP, DstOff AFP, MidDst],
    [SrcInd AMP, DstImm, MidDst],
    [SrcInd AMP],
    [SrcInd AMP, DstInd AMP, MidDst],
    [SrcInd AMP, DstInd AFP, MidDst],
    [SrcInd AMP],
    [SrcInd AMP],
    [SrcInd AFP, DstOff AMP, MidDst],
    [SrcInd AFP, DstOff AFP, MidDst],
    [SrcInd AFP, DstImm, MidDst],
    [SrcInd AFP],
    [SrcInd AFP, DstInd AMP, MidDst],
    [SrcInd AFP, DstInd AFP, MidDst],
    [SrcInd AFP],
    [SrcInd AFP]
  ]"

definition D3x :: "dstmt list list" where
  "D3x = [
    [DstOff AMP, MidDst],
    [DstOff AFP, MidDst],
    [DstImm, MidDst],
    [],
    [DstInd AMP, MidDst],
    [DstInd AFP, MidDst],
    [],
    [],
    [DstOff AMP, MidDst],
    [DstOff AFP, MidDst],
    [DstImm, MidDst],
    [],
    [DstInd AMP, MidDst],
    [DstInd AFP, MidDst],
    [],
    []
  ]"

definition D4x :: "dstmt list list" where
  "D4x = [
    [SrcOff AMP, DstOff AMP, TmpReg, MidTmp],
    [SrcOff AMP, DstOff AFP, TmpReg, MidTmp],
    [SrcOff AMP, DstImm, TmpReg, MidTmp],
    [SrcOff AMP],
    [SrcOff AMP, DstInd AMP, TmpReg, MidTmp],
    [SrcOff AMP, DstInd AFP, TmpReg, MidTmp],
    [SrcOff AMP],
    [SrcOff AMP],
    [SrcOff AFP, DstOff AMP, TmpReg, MidTmp],
    [SrcOff AFP, DstOff AFP, TmpReg, MidTmp],
    [SrcOff AFP, DstImm, TmpReg, MidTmp],
    [SrcOff AFP],
    [SrcOff AFP, DstInd AMP, TmpReg, MidTmp],
    [SrcOff AFP, DstInd AFP, TmpReg, MidTmp],
    [SrcOff AFP],
    [SrcOff AFP]
  ]"

definition D5x :: "dstmt list list" where
  "D5x = [
    [SrcImm, DstOff AMP, TmpReg, MidTmp],
    [SrcImm, DstOff AFP, TmpReg, MidTmp],
    [SrcImm, DstImm, TmpReg, MidTmp],
    [SrcImm],
    [SrcImm, DstInd AMP, TmpReg, MidTmp],
    [SrcImm, DstInd AFP, TmpReg, MidTmp],
    [SrcImm],
    [SrcImm],
    [DstOff AMP, TmpReg, MidTmp],
    [DstOff AFP, TmpReg, MidTmp],
    [DstImm, TmpReg, MidTmp],
    [],
    [DstInd AMP, TmpReg, MidTmp],
    [DstInd AFP, TmpReg, MidTmp],
    [],
    []
  ]"

definition D6x :: "dstmt list list" where
  "D6x = [
    [SrcInd AMP, DstOff AMP, TmpReg, MidTmp],
    [SrcInd AMP, DstOff AFP, TmpReg, MidTmp],
    [SrcInd AMP, DstImm, TmpReg, MidTmp],
    [SrcInd AMP],
    [SrcInd AMP, DstInd AMP, TmpReg, MidTmp],
    [SrcInd AMP, DstInd AFP, TmpReg, MidTmp],
    [SrcInd AMP],
    [SrcInd AMP],
    [SrcInd AFP, DstOff AMP, TmpReg, MidTmp],
    [SrcInd AFP, DstOff AFP, TmpReg, MidTmp],
    [SrcInd AFP, DstImm, TmpReg, MidTmp],
    [SrcInd AFP],
    [SrcInd AFP, DstInd AMP, TmpReg, MidTmp],
    [SrcInd AFP, DstInd AFP, TmpReg, MidTmp],
    [SrcInd AFP],
    [SrcInd AFP]
  ]"

definition D7x :: "dstmt list list" where
  "D7x = [
    [DstOff AMP, TmpReg, MidTmp],
    [DstOff AFP, TmpReg, MidTmp],
    [DstImm, TmpReg, MidTmp],
    [],
    [DstInd AMP, TmpReg, MidTmp],
    [DstInd AFP, TmpReg, MidTmp],
    [],
    [],
    [DstOff AMP, TmpReg, MidTmp],
    [DstOff AFP, TmpReg, MidTmp],
    [DstImm, TmpReg, MidTmp],
    [],
    [DstInd AMP, TmpReg, MidTmp],
    [DstInd AFP, TmpReg, MidTmp],
    [],
    []
  ]"

definition D8x :: "dstmt list list" where
  "D8x = [
    [SrcOff AMP, DstOff AMP, MidOff AFP],
    [SrcOff AMP, DstOff AFP, MidOff AFP],
    [SrcOff AMP, DstImm, MidOff AFP],
    [SrcOff AMP],
    [SrcOff AMP, DstInd AMP, MidOff AFP],
    [SrcOff AMP, DstInd AFP, MidOff AFP],
    [SrcOff AMP],
    [SrcOff AMP],
    [SrcOff AFP, DstOff AMP, MidOff AFP],
    [SrcOff AFP, DstOff AFP, MidOff AFP],
    [SrcOff AFP, DstImm, MidOff AFP],
    [SrcOff AFP],
    [SrcOff AFP, DstInd AMP, MidOff AFP],
    [SrcOff AFP, DstInd AFP, MidOff AFP],
    [SrcOff AFP],
    [SrcOff AFP]
  ]"

definition D9x :: "dstmt list list" where
  "D9x = [
    [SrcImm, DstOff AMP, MidOff AFP],
    [SrcImm, DstOff AFP, MidOff AFP],
    [SrcImm, DstImm, MidOff AFP],
    [SrcImm],
    [SrcImm, DstInd AMP, MidOff AFP],
    [SrcImm, DstInd AFP, MidOff AFP],
    [SrcImm],
    [SrcImm],
    [DstOff AMP, MidOff AFP],
    [DstOff AFP, MidOff AFP],
    [DstImm, MidOff AFP],
    [],
    [DstInd AMP, MidOff AFP],
    [DstInd AFP, MidOff AFP],
    [],
    []
  ]"

definition DAx :: "dstmt list list" where
  "DAx = [
    [SrcInd AMP, DstOff AMP, MidOff AFP],
    [SrcInd AMP, DstOff AFP, MidOff AFP],
    [SrcInd AMP, DstImm, MidOff AFP],
    [SrcInd AMP],
    [SrcInd AMP, DstInd AMP, MidOff AFP],
    [SrcInd AMP, DstInd AFP, MidOff AFP],
    [SrcInd AMP],
    [SrcInd AMP],
    [SrcInd AFP, DstOff AMP, MidOff AFP],
    [SrcInd AFP, DstOff AFP, MidOff AFP],
    [SrcInd AFP, DstImm, MidOff AFP],
    [SrcInd AFP],
    [SrcInd AFP, DstInd AMP, MidOff AFP],
    [SrcInd AFP, DstInd AFP, MidOff AFP],
    [SrcInd AFP],
    [SrcInd AFP]
  ]"

definition DBx :: "dstmt list list" where
  "DBx = [
    [DstOff AMP, MidOff AFP],
    [DstOff AFP, MidOff AFP],
    [DstImm, MidOff AFP],
    [],
    [DstInd AMP, MidOff AFP],
    [DstInd AFP, MidOff AFP],
    [],
    [],
    [DstOff AMP, MidOff AFP],
    [DstOff AFP, MidOff AFP],
    [DstImm, MidOff AFP],
    [],
    [DstInd AMP, MidOff AFP],
    [DstInd AFP, MidOff AFP],
    [],
    []
  ]"

definition DCx :: "dstmt list list" where
  "DCx = [
    [SrcOff AMP, DstOff AMP, MidOff AMP],
    [SrcOff AMP, DstOff AFP, MidOff AMP],
    [SrcOff AMP, DstImm, MidOff AMP],
    [SrcOff AMP],
    [SrcOff AMP, DstInd AMP, MidOff AMP],
    [SrcOff AMP, DstInd AFP, MidOff AMP],
    [SrcOff AMP],
    [SrcOff AMP],
    [SrcOff AFP, DstOff AMP, MidOff AMP],
    [SrcOff AFP, DstOff AFP, MidOff AMP],
    [SrcOff AFP, DstImm, MidOff AMP],
    [SrcOff AFP],
    [SrcOff AFP, DstInd AMP, MidOff AMP],
    [SrcOff AFP, DstInd AFP, MidOff AMP],
    [SrcOff AFP],
    [SrcOff AFP]
  ]"

definition DDx :: "dstmt list list" where
  "DDx = [
    [SrcImm, DstOff AMP, MidOff AMP],
    [SrcImm, DstOff AFP, MidOff AMP],
    [SrcImm, DstImm, MidOff AMP],
    [SrcImm],
    [SrcImm, DstInd AMP, MidOff AMP],
    [SrcImm, DstInd AFP, MidOff AMP],
    [SrcImm],
    [SrcImm],
    [DstOff AMP, MidOff AMP],
    [DstOff AFP, MidOff AMP],
    [DstImm, MidOff AMP],
    [],
    [DstInd AMP, MidOff AMP],
    [DstInd AFP, MidOff AMP],
    [],
    []
  ]"

definition DEx :: "dstmt list list" where
  "DEx = [
    [SrcInd AMP, DstOff AMP, MidOff AMP],
    [SrcInd AMP, DstOff AFP, MidOff AMP],
    [SrcInd AMP, DstImm, MidOff AMP],
    [SrcInd AMP],
    [SrcInd AMP, DstInd AMP, MidOff AMP],
    [SrcInd AMP, DstInd AFP, MidOff AMP],
    [SrcInd AMP],
    [SrcInd AMP],
    [SrcInd AFP, DstOff AMP, MidOff AMP],
    [SrcInd AFP, DstOff AFP, MidOff AMP],
    [SrcInd AFP, DstImm, MidOff AMP],
    [SrcInd AFP],
    [SrcInd AFP, DstInd AMP, MidOff AMP],
    [SrcInd AFP, DstInd AFP, MidOff AMP],
    [SrcInd AFP],
    [SrcInd AFP]
  ]"

definition DFx :: "dstmt list list" where
  "DFx = [
    [DstOff AMP, MidOff AMP],
    [DstOff AFP, MidOff AMP],
    [DstImm, MidOff AMP],
    [],
    [DstInd AMP, MidOff AMP],
    [DstInd AFP, MidOff AMP],
    [],
    [],
    [DstOff AMP, MidOff AMP],
    [DstOff AFP, MidOff AMP],
    [DstImm, MidOff AMP],
    [],
    [DstInd AMP, MidOff AMP],
    [DstInd AFP, MidOff AMP],
    [],
    []
  ]"

definition dec :: "dstmt list list" where
  "dec = D0x @ D1x @ D2x @ D3x @ D4x @ D5x @ D6x @ D7x @ D8x @ D9x @ DAx @ DBx @ DCx @ DDx @ DEx @ DFx"

definition run_dec :: "byte \<Rightarrow> vm \<Rightarrow> vm" where
  "run_dec add r = fold dexec (dec ! unat add) r"

section \<open>The generator\<close>

definition AMASK :: byte where "AMASK = 7"
definition AIND :: byte where "AIND = 4"
definition ARM :: byte where "ARM = 0xC0"
definition USRC :: "byte \<Rightarrow> byte" where "USRC x = drop_bit 3 x AND AMASK"
definition UDST :: "byte \<Rightarrow> byte" where "UDST x = x AND AMASK"

definition decgen_src :: "byte \<Rightarrow> dstmt list" where
  "decgen_src addr =
    (if USRC addr = 0 then [SrcOff AMP]
     else if USRC addr = 1 then [SrcOff AFP]
     else if USRC addr = 2 then [SrcImm]
     else if USRC addr = 0 OR AIND then [SrcInd AMP]
     else if USRC addr = 1 OR AIND then [SrcInd AFP]
     else [])"

definition decgen_dst :: "byte \<Rightarrow> dstmt list option" where
  "decgen_dst addr =
    (if UDST addr = 0 then Some [DstOff AMP]
     else if UDST addr = 1 then Some [DstOff AFP]
     else if UDST addr = 2 then Some [DstImm]
     else if UDST addr = 0 OR AIND then Some [DstInd AMP]
     else if UDST addr = 1 OR AIND then Some [DstInd AFP]
     else None)"

definition decgen_mid :: "byte \<Rightarrow> dstmt list" where
  "decgen_mid addr =
    (if addr AND ARM = 0 then [MidDst]
     else if addr AND ARM = 0x40 then [TmpReg, MidTmp]
     else if addr AND ARM = 0x80 then [MidOff AFP]
     else [MidOff AMP])"

definition decgen :: "byte \<Rightarrow> dstmt list" where
  "decgen addr = decgen_src addr @ (case decgen_dst addr of None \<Rightarrow> [] | Some d \<Rightarrow> d @ decgen_mid addr)"

lemma dec_length: "length dec = 256"
  by code_simp

lemma dec_table: "dec ! unat add = decgen add"
proof -
  have "list_all (\<lambda>n. dec ! n = decgen (of_nat n)) [0..<256]" by code_simp
  moreover have "unat add < 256" using unsigned_less [of add, where 'a = nat] by simp
  ultimately have "dec ! unat add = decgen (of_nat (unat add))" by (auto simp: list_all_iff)
  then show ?thesis by simp
qed

text \<open>
  C11: The decoding table in the repository is the one its generator prints: for every address mode
  byte the routine called performs exactly the assignments \<open>decgen\<close> emits.
\<close>

theorem dec_decgen: "length dec = 256 \<and> dec ! unat add = decgen add"
  using dec_table by (simp add: dec_length)
section \<open>The address modes\<close>

text \<open>
  The modes as \<^verbatim>\<open>src/include/isa.h\<close> defines them: an offset from a base register, an immediate,
  or an offset from a pointer found at an offset from a base register; for the middle operand none, a
  small immediate or a small offset.
\<close>

datatype amode = Off areg | Imm | Ind areg
datatype xmode = Xnone | Ximm | Xoff areg

fun amode_code :: "amode \<Rightarrow> byte" where
  "amode_code (Off AMP) = 0" | "amode_code (Off AFP) = 1" | "amode_code Imm = 2"
| "amode_code (Ind AMP) = 4" | "amode_code (Ind AFP) = 5"

fun xmode_code :: "xmode \<Rightarrow> byte" where
  "xmode_code Xnone = 0x00" | "xmode_code Ximm = 0x40" | "xmode_code (Xoff AFP) = 0x80" | "xmode_code (Xoff AMP) = 0xC0"

definition add_code :: "xmode \<Rightarrow> amode \<Rightarrow> amode \<Rightarrow> byte" where
  "add_code x s d = xmode_code x OR push_bit 3 (amode_code s) OR amode_code d"

fun operand :: "amode \<Rightarrow> ptr \<Rightarrow> vm \<Rightarrow> ptr" where
  "operand (Off b) a r = breg b r + opW a r"
| "operand Imm a r = a"
| "operand (Ind b) a r = DIND b a r"

fun middle :: "xmode \<Rightarrow> vm \<Rightarrow> ptr" where
  "middle Xnone r = R_d r"
| "middle Ximm r = Rt r"
| "middle (Xoff b) r = breg b r + ucast (inst_reg r)"

definition with_imm :: "xmode \<Rightarrow> vm \<Rightarrow> vm" where
  "with_imm x r = (if x = Ximm then r\<lparr>mem := putw (Rt r) (scast (inst_reg r)) (mem r)\<rparr> else r)"

lemma decgen_modes:
  "decgen (add_code x s d) =
    (case s of Off b \<Rightarrow> [SrcOff b] | Imm \<Rightarrow> [SrcImm] | Ind b \<Rightarrow> [SrcInd b]) @
    (case d of Off b \<Rightarrow> [DstOff b] | Imm \<Rightarrow> [DstImm] | Ind b \<Rightarrow> [DstInd b]) @
    (case x of Xnone \<Rightarrow> [MidDst] | Ximm \<Rightarrow> [TmpReg, MidTmp] | Xoff b \<Rightarrow> [MidOff b])"
proof -
  have "list_all (\<lambda>x. list_all (\<lambda>s. list_all (\<lambda>d. decgen (add_code x s d) =
    (case s of Off b \<Rightarrow> [SrcOff b] | Imm \<Rightarrow> [SrcImm] | Ind b \<Rightarrow> [SrcInd b]) @
    (case d of Off b \<Rightarrow> [DstOff b] | Imm \<Rightarrow> [DstImm] | Ind b \<Rightarrow> [DstInd b]) @
    (case x of Xnone \<Rightarrow> [MidDst] | Ximm \<Rightarrow> [TmpReg, MidTmp] | Xoff b \<Rightarrow> [MidOff b]))
    [Off AMP, Off AFP, Imm, Ind AMP, Ind AFP]) [Off AMP, Off AFP, Imm, Ind AMP, Ind AFP]) [Xnone, Ximm, Xoff AMP, Xoff AFP]"
    by code_simp
  moreover have "a \<in> set [Off AMP, Off AFP, Imm, Ind AMP, Ind AFP]" for a :: amode
    by (cases a; (cases "case a of Off b \<Rightarrow> b | Ind b \<Rightarrow> b | Imm \<Rightarrow> AMP"; simp)?)
  moreover have "x \<in> set [Xnone, Ximm, Xoff AMP, Xoff AFP]" for x :: xmode
    by (cases x; (cases "case x of Xoff b \<Rightarrow> b | _ \<Rightarrow> AMP"; simp)?)
  ultimately show ?thesis unfolding list_all_iff by blast
qed

lemma breg_update [simp]: "breg b (r\<lparr>R_s := x\<rparr>) = breg b r" "breg b (r\<lparr>R_d := x\<rparr>) = breg b r"
  by (cases b; simp)+

text \<open>
  C33: Decoding gives source, destination and middle operand the addresses their modes stand for,
  stores a small immediate sign-extended in \<open>R.t\<close>, and changes nothing else: no other byte of memory
  and no other register.
\<close>

theorem run_dec_operands:
  "run_dec (add_code x s d) r =
    (with_imm x r)\<lparr>R_s := operand s (inst_s r) r, R_d := operand d (inst_d r) r,
      R_m := middle x (r\<lparr>R_d := operand d (inst_d r) r\<rparr>)\<rparr>"
  unfolding run_dec_def dec_table decgen_modes
  by (cases s; cases d; cases x)
    (simp_all add: with_imm_def inst_s_def inst_d_def inst_reg_def DIND_def opW_def opSH_def)

end
