(* ===== verification/Dis_Alu.thy ===== *)
theory Dis_Alu
  imports Dis_Machine
begin

text \<open>
  The word instructions of the Dis virtual machine (\<^verbatim>\<open>src/libinterp/xec.c\<close>): moves and conversions
  between integers, arithmetic, shifts, branches, exponentiation, array indexing, fixed point
  arithmetic and the case tables. Operands are addressed by the registers \<open>R.s\<close>, \<open>R.m\<close> and \<open>R.d\<close>.
  Instructions on reals are left out.
\<close>

section \<open>Moves, arithmetic and shifts\<close>

definition runt :: "vm \<Rightarrow> vm cres" where "runt r = Inr r"
definition jmp :: "vm \<Rightarrow> vm cres" where "jmp r = Inr (JMP r)"
definition movpc :: "vm \<Rightarrow> vm cres" where "movpc r = Inr (setW (M_prog r + opW (R_s r) r * sizeof_Inst) r)"
definition movm :: "vm \<Rightarrow> vm cres" where "movm r = cbind (cguard (0 \<le> sint (opW (R_m r) r))) (\<lambda>_. Inr (r\<lparr>mem := st (R_d r) (ld (unat (opW (R_m r) r)) (R_s r) (mem r)) (mem r)\<rparr>))"
definition lea :: "vm \<Rightarrow> vm cres" where "lea r = Inr (setW (R_s r) r)"
definition movb :: "vm \<Rightarrow> vm cres" where "movb r = Inr (setB (opB (R_s r) r) r)"
definition movw :: "vm \<Rightarrow> vm cres" where "movw r = Inr (setW (opW (R_s r) r) r)"
definition movl :: "vm \<Rightarrow> vm cres" where "movl r = Inr (setW (opW (R_s r) r) r)"
definition cvtbw :: "vm \<Rightarrow> vm cres" where "cvtbw r = Inr (setW (ucast (opB (R_s r) r)) r)"
definition cvtwb :: "vm \<Rightarrow> vm cres" where "cvtwb r = Inr (setB (ucast (opW (R_s r) r)) r)"
definition cvtws :: "vm \<Rightarrow> vm cres" where "cvtws r = Inr (setSH (ucast (opW (R_s r) r)) r)"
definition cvtsw :: "vm \<Rightarrow> vm cres" where "cvtsw r = Inr (setW (scast (opSH (R_s r) r)) r)"
definition addb :: "vm \<Rightarrow> vm cres" where "addb r = Inr (setB (opB (R_m r) r + opB (R_s r) r) r)"
definition addw :: "vm \<Rightarrow> vm cres" where "addw r = Inr (setW (opW (R_m r) r + opW (R_s r) r) r)"
definition addl :: "vm \<Rightarrow> vm cres" where "addl r = Inr (setW (opW (R_m r) r + opW (R_s r) r) r)"
definition subb :: "vm \<Rightarrow> vm cres" where "subb r = Inr (setB (opB (R_m r) r - opB (R_s r) r) r)"
definition subw :: "vm \<Rightarrow> vm cres" where "subw r = Inr (setW (opW (R_m r) r - opW (R_s r) r) r)"
definition subl :: "vm \<Rightarrow> vm cres" where "subl r = Inr (setW (opW (R_m r) r - opW (R_s r) r) r)"
definition divb :: "vm \<Rightarrow> vm cres" where "divb r = cbind (cguard (opB (R_s r) r \<noteq> 0)) (\<lambda>_. Inr (setB (opB (R_m r) r div opB (R_s r) r) r))"
definition divw :: "vm \<Rightarrow> vm cres" where "divw r = cbind (c_div (opW (R_m r) r) (opW (R_s r) r)) (\<lambda>x. Inr (setW x r))"
definition divl :: "vm \<Rightarrow> vm cres" where "divl r = cbind (c_div (opW (R_m r) r) (opW (R_s r) r)) (\<lambda>x. Inr (setW x r))"
definition modb :: "vm \<Rightarrow> vm cres" where "modb r = cbind (cguard (opB (R_s r) r \<noteq> 0)) (\<lambda>_. Inr (setB (opB (R_m r) r mod opB (R_s r) r) r))"
definition modw :: "vm \<Rightarrow> vm cres" where "modw r = cbind (c_mod (opW (R_m r) r) (opW (R_s r) r)) (\<lambda>x. Inr (setW x r))"
definition modl :: "vm \<Rightarrow> vm cres" where "modl r = cbind (c_mod (opW (R_m r) r) (opW (R_s r) r)) (\<lambda>x. Inr (setW x r))"
definition mulb :: "vm \<Rightarrow> vm cres" where "mulb r = Inr (setB (opB (R_m r) r * opB (R_s r) r) r)"
definition mulw :: "vm \<Rightarrow> vm cres" where "mulw r = Inr (setW (opW (R_m r) r * opW (R_s r) r) r)"
definition mull :: "vm \<Rightarrow> vm cres" where "mull r = Inr (setW (opW (R_m r) r * opW (R_s r) r) r)"
definition andb :: "vm \<Rightarrow> vm cres" where "andb r = Inr (setB (opB (R_m r) r AND opB (R_s r) r) r)"
definition andw :: "vm \<Rightarrow> vm cres" where "andw r = Inr (setW (opW (R_m r) r AND opW (R_s r) r) r)"
definition andl :: "vm \<Rightarrow> vm cres" where "andl r = Inr (setW (opW (R_m r) r AND opW (R_s r) r) r)"
definition xorb :: "vm \<Rightarrow> vm cres" where "xorb r = Inr (setB (opB (R_m r) r XOR opB (R_s r) r) r)"
definition xorw :: "vm \<Rightarrow> vm cres" where "xorw r = Inr (setW (opW (R_m r) r XOR opW (R_s r) r) r)"
definition xorl :: "vm \<Rightarrow> vm cres" where "xorl r = Inr (setW (opW (R_m r) r XOR opW (R_s r) r) r)"
definition orb :: "vm \<Rightarrow> vm cres" where "orb r = Inr (setB (opB (R_m r) r OR opB (R_s r) r) r)"
definition orw :: "vm \<Rightarrow> vm cres" where "orw r = Inr (setW (opW (R_m r) r OR opW (R_s r) r) r)"
definition orl :: "vm \<Rightarrow> vm cres" where "orl r = Inr (setW (opW (R_m r) r OR opW (R_s r) r) r)"
definition shlb :: "vm \<Rightarrow> vm cres" where "shlb r = cbind (cguard (opW (R_s r) r < 32)) (\<lambda>_. Inr (setB (ucast (push_bit (unat (opW (R_s r) r)) (ucast (opB (R_m r) r) :: u32))) r))"
definition shlw :: "vm \<Rightarrow> vm cres" where "shlw r = cbind (c_shl (opW (R_m r) r) (opW (R_s r) r)) (\<lambda>x. Inr (setW x r))"
definition shll :: "vm \<Rightarrow> vm cres" where "shll r = cbind (c_shl (opW (R_m r) r) (opW (R_s r) r)) (\<lambda>x. Inr (setW x r))"
definition shrb :: "vm \<Rightarrow> vm cres" where "shrb r = cbind (cguard (opW (R_s r) r < 32)) (\<lambda>_. Inr (setB (ucast (drop_bit (unat (opW (R_s r) r)) (ucast (opB (R_m r) r) :: u32))) r))"
definition shrw :: "vm \<Rightarrow> vm cres" where "shrw r = cbind (c_shr (opW (R_m r) r) (opW (R_s r) r)) (\<lambda>x. Inr (setW x r))"
definition shrl :: "vm \<Rightarrow> vm cres" where "shrl r = cbind (c_shr (opW (R_m r) r) (opW (R_s r) r)) (\<lambda>x. Inr (setW x r))"
definition lsrw :: "vm \<Rightarrow> vm cres" where "lsrw r = cbind (c_lsr (opW (R_m r) r) (opW (R_s r) r)) (\<lambda>x. Inr (setW x r))"
definition lsrl :: "vm \<Rightarrow> vm cres" where "lsrl r = cbind (c_lsr (opW (R_m r) r) (opW (R_s r) r)) (\<lambda>x. Inr (setW x r))"

section \<open>Branches\<close>

definition beqb :: "vm \<Rightarrow> vm cres" where "beqb r = Inr (if opB (R_s r) r = opB (R_m r) r then JMP r else r)"
definition bneb :: "vm \<Rightarrow> vm cres" where "bneb r = Inr (if opB (R_s r) r \<noteq> opB (R_m r) r then JMP r else r)"
definition bltb :: "vm \<Rightarrow> vm cres" where "bltb r = Inr (if opB (R_s r) r < opB (R_m r) r then JMP r else r)"
definition bleb :: "vm \<Rightarrow> vm cres" where "bleb r = Inr (if opB (R_s r) r \<le> opB (R_m r) r then JMP r else r)"
definition bgtb :: "vm \<Rightarrow> vm cres" where "bgtb r = Inr (if opB (R_s r) r > opB (R_m r) r then JMP r else r)"
definition bgeb :: "vm \<Rightarrow> vm cres" where "bgeb r = Inr (if opB (R_s r) r \<ge> opB (R_m r) r then JMP r else r)"
definition beqw :: "vm \<Rightarrow> vm cres" where "beqw r = Inr (if sint (opW32 (R_s r) r) = sint (opW32 (R_m r) r) then JMP r else r)"
definition bnew :: "vm \<Rightarrow> vm cres" where "bnew r = Inr (if sint (opW32 (R_s r) r) \<noteq> sint (opW32 (R_m r) r) then JMP r else r)"
definition bltw :: "vm \<Rightarrow> vm cres" where "bltw r = Inr (if sint (opW32 (R_s r) r) < sint (opW32 (R_m r) r) then JMP r else r)"
definition blew :: "vm \<Rightarrow> vm cres" where "blew r = Inr (if sint (opW32 (R_s r) r) \<le> sint (opW32 (R_m r) r) then JMP r else r)"
definition bgtw :: "vm \<Rightarrow> vm cres" where "bgtw r = Inr (if sint (opW32 (R_s r) r) > sint (opW32 (R_m r) r) then JMP r else r)"
definition bgew :: "vm \<Rightarrow> vm cres" where "bgew r = Inr (if sint (opW32 (R_s r) r) \<ge> sint (opW32 (R_m r) r) then JMP r else r)"
definition beql :: "vm \<Rightarrow> vm cres" where "beql r = Inr (if sint (opW (R_s r) r) = sint (opW (R_m r) r) then JMP r else r)"
definition bnel :: "vm \<Rightarrow> vm cres" where "bnel r = Inr (if sint (opW (R_s r) r) \<noteq> sint (opW (R_m r) r) then JMP r else r)"
definition bltl :: "vm \<Rightarrow> vm cres" where "bltl r = Inr (if sint (opW (R_s r) r) < sint (opW (R_m r) r) then JMP r else r)"
definition blel :: "vm \<Rightarrow> vm cres" where "blel r = Inr (if sint (opW (R_s r) r) \<le> sint (opW (R_m r) r) then JMP r else r)"
definition bgtl :: "vm \<Rightarrow> vm cres" where "bgtl r = Inr (if sint (opW (R_s r) r) > sint (opW (R_m r) r) then JMP r else r)"
definition bgel :: "vm \<Rightarrow> vm cres" where "bgel r = Inr (if sint (opW (R_s r) r) \<ge> sint (opW (R_m r) r) then JMP r else r)"
definition iexit :: "vm \<Rightarrow> vm cres" where "iexit r = Inl (Raise '''')"
definition cvtwl :: "vm \<Rightarrow> vm cres" where "cvtwl r = Inr (setW (opW (R_s r) r) r)"
definition cvtlw :: "vm \<Rightarrow> vm cres" where "cvtlw r = Inr (setW (opW (R_s r) r) r)"

section \<open>Exponentiation\<close>

text \<open>The loop need not end, so its result is optional.\<close>

partial_function (option) iexp_loop :: "u64 \<Rightarrow> u64 \<Rightarrow> u64 \<Rightarrow> u64 option" where
  "iexp_loop y x n =
    (let y = (if n AND 1 \<noteq> 0 then y * x else y); n = signed_drop_bit 1 n in
     if n = 0 then Some y else iexp_loop y (x * x) n)"

definition iexpw :: "vm \<Rightarrow> vm cres option" where
  "iexpw r =
    (let x = opW (R_m r) r; n = opW (R_s r) r; inv = sint n < 0 in
     case iexp_loop 1 x (if inv then - n else n) of
       None \<Rightarrow> None
     | Some y \<Rightarrow> Some (cbind (if inv then c_div 1 y else Inr y) (\<lambda>y. Inr (setW y r))))"

definition iexpl :: "vm \<Rightarrow> vm cres option" where
  "iexpl r =
    (let x = opW (R_m r) r; n = opW (R_s r) r; inv = sint n < 0 in
     case iexp_loop 1 x (if inv then - n else n) of
       None \<Rightarrow> None
     | Some y \<Rightarrow> Some (cbind (if inv then c_div 1 y else Inr y) (\<lambda>y. Inr (setW y r))))"

section \<open>Array indexing\<close>

text \<open>
  The common part of the five instructions, by the element size. On a nil array the message printed
  before the error reads \<open>a->len\<close> through the nil pointer.
\<close>

definition ind_elem :: "(ptr \<Rightarrow> u64) \<Rightarrow> vm \<Rightarrow> vm cres" where
  "ind_elem width r =
    (let a = opW (R_s r) r; i = opW (R_d r) r in
     if a = H then Inl Undef
     else if i \<ge> A_len a r then Inl (Raise exBounds)
     else Inr (setPm (A_data a r + i * width a) r))"

definition indx :: "vm \<Rightarrow> vm cres" where "indx r = ind_elem (\<lambda>a. T_size (A_t a r) r) r"
definition indw :: "vm \<Rightarrow> vm cres" where "indw r = ind_elem (\<lambda>_. 8) r"
definition indf :: "vm \<Rightarrow> vm cres" where "indf r = ind_elem (\<lambda>_. 8) r"
definition indl :: "vm \<Rightarrow> vm cres" where "indl r = ind_elem (\<lambda>_. 8) r"
definition indb :: "vm \<Rightarrow> vm cres" where "indb r = ind_elem (\<lambda>_. 1) r"

definition lena :: "vm \<Rightarrow> vm cres" where
  "lena r = (let a = opW (R_s r) r in Inr (setW (if a = H then 0 else A_len a r) r))"

definition acheck :: "int \<Rightarrow> int \<Rightarrow> unit cres" where
  "acheck tsz sz =
    cbind (craise (sz < 0) exNegsize) (\<lambda>_. craise (c_int (32 + 32 + c_int (tsz * sz)) < sz \<and> tsz \<noteq> 0) exHeap)"

section \<open>Case tables\<close>

definition jump_to :: "u64 \<Rightarrow> vm \<Rightarrow> vm" where
  "jump_to target r = r\<lparr>PC := (if M_compiled r then target else M_prog r + target * sizeof_Inst)\<rparr>"

function icase_loop :: "vm \<Rightarrow> int \<Rightarrow> ptr \<Rightarrow> nat \<Rightarrow> u64 option" where
  "icase_loop r selector t n =
    (if n = 0 then None
     else let n2 = n div 2; l = t + of_nat (n2 * 24) in
       if selector < sint (opW32 l r) then icase_loop r selector t n2
       else if selector \<ge> sint (opW32 (l + 8) r) then icase_loop r selector (l + 24) (n - (n2 + 1))
       else Some (opW (l + 16) r))"
  by pat_completeness auto
termination by (relation "measure (\<lambda>(r, selector, t, n). n)") auto

definition icase :: "vm \<Rightarrow> vm cres" where
  "icase r =
    (let selector = sint (opW32 (R_s r) r); t = R_d r + 8; n = opW (R_d r) r; target = opW (t + n * 24) r in
     Inr (jump_to (case icase_loop r selector t (nat (sint n)) of None \<Rightarrow> target | Some d \<Rightarrow> d) r))"

function casel_loop :: "vm \<Rightarrow> int \<Rightarrow> ptr \<Rightarrow> nat \<Rightarrow> u64 option" where
  "casel_loop r v t n =
    (if n = 0 then None
     else let n2 = n div 2; l = t + of_nat (n2 * 48) in
       if v < sint (opW l r) then casel_loop r v t n2
       else if v \<ge> sint (opW (l + 8) r) then casel_loop r v (l + 48) (n - (n2 + 1))
       else Some (opW (l + 32) r))"
  by pat_completeness auto
termination by (relation "measure (\<lambda>(r, v, t, n). n)") auto

definition casel :: "vm \<Rightarrow> vm cres" where
  "casel r =
    (let v = sint (opW (R_s r) r); t = R_d r + 16; n = opW (R_d r) r; d = opW (t + n * 48) r in
     Inr (jump_to (case casel_loop r v t (nat (sint n)) of None \<Rightarrow> d | Some d \<Rightarrow> d) r))"

declare icase_loop.simps [simp del] casel_loop.simps [simp del]

definition igoto :: "vm \<Rightarrow> vm cres" where
  "igoto r = Inr (jump_to (opW (R_d r + scast (opW32 (R_s r) r) * 8) r) r)"

section \<open>Fixed point arithmetic\<close>

definition Stmp :: "vm \<Rightarrow> u64" where "Stmp r = opW (FP r + 40) r"
definition Dtmp :: "vm \<Rightarrow> u64" where "Dtmp r = opW (FP r + 56) r"

definition scale :: "u64 \<Rightarrow> u64 \<Rightarrow> u64 cres" where
  "scale v p = (if 0 \<le> sint p then c_shl v p else c_shr v (- p))"

definition mulx :: "vm \<Rightarrow> vm cres" where
  "mulx r = cbind (scale (opW (R_m r) r * opW (R_s r) r) (Dtmp r)) (\<lambda>v. Inr (setW v r))"

definition divx :: "vm \<Rightarrow> vm cres" where
  "divx r = cbind (scale (opW (R_m r) r) (Dtmp r)) (\<lambda>v. cbind (c_div v (opW (R_s r) r)) (\<lambda>v. Inr (setW v r)))"

definition cvtxx :: "vm \<Rightarrow> vm cres" where
  "cvtxx r = cbind (scale (opW (R_s r) r) (opW (R_m r) r)) (\<lambda>v. Inr (setW v r))"

definition mulx0 :: "vm \<Rightarrow> vm cres" where
  "mulx0 r =
    (let x = opW (R_m r) r; y = opW (R_s r) r; p = Dtmp r; a = Stmp r in
     if x = 0 \<or> y = 0 then Inr (setW 0 r)
     else cbind (scale (x * y) p) (\<lambda>v. cbind (c_div v a) (\<lambda>v. Inr (setW v r))))"

definition divx0 :: "vm \<Rightarrow> vm cres" where
  "divx0 r =
    (let x = opW (R_m r) r; y = opW (R_s r) r; p = Dtmp r; b = Stmp r in
     if x = 0 then Inr (setW 0 r)
     else cbind (scale (b * x) p) (\<lambda>v. cbind (c_div v y) (\<lambda>v. Inr (setW v r))))"

definition cvtxx0 :: "vm \<Rightarrow> vm cres" where
  "cvtxx0 r =
    (let x = opW (R_s r) r; p = opW (R_m r) r; a = Stmp r in
     if x = 0 then Inr (setW 0 r)
     else cbind (scale x p) (\<lambda>v. cbind (c_div v a) (\<lambda>v. Inr (setW v r))))"

text \<open>The roundings of the general case: \<open>v\<close> is added before the division, \<open>w\<close> before the shift.\<close>

definition low_mask :: "bool \<Rightarrow> u64 \<Rightarrow> u64 cres" where
  "low_mask on p = (if on then cbind (c_shl 1 (- p)) (\<lambda>x. Inr (x - 1)) else Inr 0)"

definition mulx1 :: "vm \<Rightarrow> vm cres" where
  "mulx1 r =
    (let x = opW (R_m r) r; y = opW (R_s r) r; p = Dtmp r; a = Stmp r in
     if x = 0 \<or> y = 0 then Inr (setW 0 r)
     else
       let vnz = p AND 2 \<noteq> 0; wnz = p AND 1 \<noteq> 0; p = signed_drop_bit 2 p;
           xs = sint x; ys = sint y;
           v = (if vnz then if 0 \<le> xs \<and> ys < 0 \<or> xs < 0 \<and> 0 \<le> ys then - (a - 1) else a - 1 else 0) in
       cbind (low_mask (wnz \<and> (\<not> vnz \<and> (0 < xs \<and> ys < 0 \<or> xs < 0 \<and> 0 < ys) \<or>
           vnz \<and> (0 < xs \<and> 0 < ys \<or> xs < 0 \<and> ys < 0))) p) (\<lambda>w.
       cbind (scale (x * y + w) p) (\<lambda>q.
       cbind (c_div (q + v) a) (\<lambda>q. Inr (setW q r)))))"

definition divx1 :: "vm \<Rightarrow> vm cres" where
  "divx1 r =
    (let x = opW (R_m r) r; y = opW (R_s r) r; p = Dtmp r; b = Stmp r in
     if x = 0 then Inr (setW 0 r)
     else
       let vnz = p AND 2 \<noteq> 0; wnz = p AND 1 \<noteq> 0; p = signed_drop_bit 2 p;
           xs = sint x; ys = sint y;
           v = (if vnz then if 0 \<le> xs \<and> ys < 0 \<or> xs < 0 \<and> 0 \<le> ys then - 1 else 1 else 0) in
       cbind (low_mask (wnz \<and> xs \<le> 0) p) (\<lambda>w.
       cbind (scale (b * x + w) p) (\<lambda>q.
       cbind (c_div q y) (\<lambda>q. Inr (setW (q + v) r)))))"

definition cvtxx1 :: "vm \<Rightarrow> vm cres" where
  "cvtxx1 r =
    (let x = opW (R_s r) r; p = opW (R_m r) r; a = Stmp r in
     if x = 0 then Inr (setW 0 r)
     else
       let vnz = p AND 2 \<noteq> 0; wnz = p AND 1 \<noteq> 0; p = signed_drop_bit 2 p;
           xs = sint x;
           v = (if vnz then if xs < 0 then - (a - 1) else a - 1 else 0) in
       cbind (low_mask (wnz \<and> (\<not> vnz \<and> xs < 0 \<or> vnz \<and> 0 < xs)) p) (\<lambda>w.
       cbind (scale (x + w) p) (\<lambda>q.
       cbind (c_div (q + v) a) (\<lambda>q. Inr (setW q r)))))"

section \<open>Calls, list heads and type checks\<close>

text \<open>A frame starts with \<open>lr\<close> and \<open>fp\<close>; a list cell is \<open>tail\<close>, \<open>t\<close> and the data.\<close>

definition call :: "vm \<Rightarrow> vm cres" where
  "call r =
    (let f = opW (R_s r) r; r = r\<lparr>mem := putw (f + 8) (FP r) (putw f (PC r) (mem r)), FP := f\<rparr> in Inr (JMP r))"

definition headb :: "vm \<Rightarrow> vm cres" where
  "headb r = (let l = opW (R_s r) r in cbind (cguard (l \<noteq> H)) (\<lambda>_. Inr (setB (opB (l + 16) r) r)))"

definition headw :: "vm \<Rightarrow> vm cres" where
  "headw r = (let l = opW (R_s r) r in cbind (cguard (l \<noteq> H)) (\<lambda>_. Inr (setW (opW (l + 16) r) r)))"

definition headl :: "vm \<Rightarrow> vm cres" where
  "headl r = (let l = opW (R_s r) r in cbind (cguard (l \<noteq> H)) (\<lambda>_. Inr (setW (opW (l + 16) r) r)))"

text \<open>The type of an object is in its heap header, 32 bytes in front of it.\<close>

definition tcmp :: "vm \<Rightarrow> vm cres" where
  "tcmp r =
    (let s = opW (R_s r) r; d = opW (R_d r) r in
     cbind (craise (s \<noteq> H \<and> (d = H \<or> opW (s - 32 + 16) r \<noteq> opW (d - 32 + 16) r)) ''type check'') (\<lambda>_. Inr r))"

definition badop :: "vm \<Rightarrow> vm cres" where "badop r = Inl (Raise ''illegal dis instruction'')"
definition eclr :: "vm \<Rightarrow> vm cres" where "eclr r = Inr r"

end
