(* ===== verification/Dis_Xec.thy ===== *)
theory Dis_Xec
  imports Dis_Decode Dis_Alu
begin

text \<open>
  The interpreter loop \<open>xec\<close> (\<^verbatim>\<open>src/libinterp/xec.c\<close>, \<^verbatim>\<open>optab.h\<close>) over the decoder and the word
  instructions, and what is proved of them. The instructions of the table that are not modelled here,
  those on reals, strings, the heap, channels and modules, are the argument \<open>ext\<close>.
\<close>

section \<open>The instruction table\<close>




section \<open>The loop\<close>





section \<open>What the instructions change\<close>



text \<open>At most one word, at the destination.\<close>

definition stores :: "vm \<Rightarrow> vm \<Rightarrow> bool" where
  "stores r r' \<longleftrightarrow> (\<exists>bs. length bs \<le> 8 \<and> r' = r\<lparr>mem := st (R_d r) bs (mem r)\<rparr>)"


lemma stores_set [simp]: "stores r (setB x r)" "stores r (setW y r)" "stores r (setSH z r)"
proof -
  show "stores r (setB x r)" unfolding stores_def setB_def by (intro exI [of _ "[x]"]) simp
  show "stores r (setW y r)" unfolding stores_def setW_def putw_def by (intro exI [of _ "enc_le 8 y"]) simp
  show "stores r (setSH z r)" unfolding stores_def setSH_def puth_def by (intro exI [of _ "enc_le 2 z"]) simp
qed






definition demo_vm :: vm where
  "demo_vm = \<lparr>PC = 0, MP = 1000, FP = 2000, R_M = 4000, IC = 10, R_s = 2000, R_d = 2016, R_m = 2008, Rt = 5000,
     mem = (\<lambda>_. 0)(2000 := 3, 2008 := 7)\<rparr>"


section \<open>Exponentiation\<close>

lemma halve_nonneg:
  assumes "0 \<le> sint (n :: u64)"
  shows "signed_drop_bit 1 n = drop_bit 1 n" "unat (drop_bit 1 n) = unat n div 2" "0 \<le> sint (drop_bit 1 n :: u64)"
proof -
  show "unat (drop_bit 1 n) = unat n div 2" by (simp add: drop_bit_eq_div unat_div)
  have s: "sint n = uint n" using assms unsigned_less [of n, where 'a = int] by (auto simp: sint_cases split: if_splits)
  have u: "uint n < 2 ^ 63" using s unsigned_less [of n, where 'a = int] by (auto simp: sint_cases split: if_splits)
  have d: "uint (drop_bit 1 n) = uint n div 2" by (simp add: drop_bit_eq_div uint_div)
  then have sd: "sint (drop_bit 1 n) = uint n div 2" using u by (simp only: sint_cases) simp
  then show "0 \<le> sint (drop_bit 1 n)" by simp
  show "signed_drop_bit 1 n = drop_bit 1 n"
  proof -
    have "sint (signed_drop_bit 1 n) = sint (drop_bit 1 n)" unfolding sd by (simp add: sint_signed_drop_bit_eq s drop_bit_Suc)
    then have "(word_of_int (sint (signed_drop_bit 1 n)) :: u64) = word_of_int (sint (drop_bit 1 n))" by (rule arg_cong)
    then show ?thesis by (simp add: scast_id)
  qed
qed

lemma iexp_loop_power: "0 \<le> sint n \<Longrightarrow> iexp_loop y x n = Some (y * x ^ unat n)"
proof (induction "unat n" arbitrary: y x n rule: less_induct)
  case less
  note h = halve_nonneg [OF less.prems]
  have odd: "n AND 1 \<noteq> 0 \<longleftrightarrow> odd (unat n)" by (simp add: and_one_eq odd_iff_mod_2_eq_one [symmetric] flip: bit_0) (simp add: bit_unsigned_iff)
  have e: "y * x ^ unat n = (if odd (unat n) then y * x else y) * (x * x) ^ (unat n div 2)"
    by (cases "odd (unat n)") (auto elim!: oddE evenE simp: power_mult power2_eq_square mult.assoc)
  show ?case
  proof (cases "drop_bit 1 n = 0")
    case True
    then have "unat n div 2 = 0" using h(2) by simp
    then show ?thesis using True e unfolding iexp_loop.simps [of y x n] h(1) odd by simp
  next
    case False
    have "unat n \<noteq> 0" using False by (auto simp: unat_eq_zero)
    then have "unat (drop_bit 1 n) < unat n" unfolding h(2) by simp
    from less.hyps [OF this h(3)] show ?thesis
      using False e unfolding iexp_loop.simps [of y x n] h(1) odd Let_def by (simp add: h(2) [unfolded One_nat_def])
  qed
qed

lemma iexp_loop_hangs:
  assumes "iexp_loop y x n = Some z"
  shows "\<not> sint n < 0"
proof (rule iexp_loop.raw_induct [where P = "\<lambda>y x n z. \<not> sint n < 0" and xa = "((y, x), n)", unfolded prod.case, OF _ assms])
  fix f :: "u64 \<Rightarrow> u64 \<Rightarrow> u64 \<Rightarrow> u64 option" and y x n z
  assume hyp: "\<And>y x n z. f y x n = Some z \<Longrightarrow> \<not> sint n < 0"
    and res: "(let y = if n AND 1 \<noteq> 0 then y * x else y; n = signed_drop_bit 1 n in if n = 0 then Some y else f y (x * x) n) = Some z"
  show "\<not> sint n < 0"
  proof
    assume neg: "sint n < 0"
    then have "sint (signed_drop_bit 1 n) < 0" by (simp add: sint_signed_drop_bit_eq)
    then have "signed_drop_bit 1 n \<noteq> 0" by auto
    then show False using res hyp \<open>sint (signed_drop_bit 1 n) < 0\<close> by (auto simp: Let_def)
  qed
qed

text \<open>
  For every exponent that is not negative, \<open>iexpw\<close> ends and stores the power, modulo the word size.
\<close>

theorem iexpw_power:
  assumes "0 \<le> sint (opW (R_s r) r)"
  shows "iexpw r = Some (Inr (setW (opW (R_m r) r ^ unat (opW (R_s r) r)) r))"
  using assms iexp_loop_power [OF assms] by (simp add: iexpw_def)

theorem iexpw_power_witness: "iexpw demo_vm = Some (Inr (setW 343 demo_vm))"
proof -
  have w: "opW (R_s demo_vm) demo_vm = 3" "opW (R_m demo_vm) demo_vm = 7" by code_simp+
  show ?thesis using iexpw_power [of demo_vm] unfolding w by simp
qed

text \<open>
  For the least exponent the loop of \<open>iexpw\<close> never ends: its negation is itself, and shifting a
  negative number right never gives zero.
\<close>

theorem iexpw_hangs:
  assumes "opW (R_s r) r = push_bit 63 1"
  shows "iexpw r = None"
proof -
  define n :: u64 where "n = push_bit 63 1"
  have n: "sint n < 0" "- n = n" unfolding n_def by code_simp+
  then have "iexp_loop 1 (opW (R_m r) r) n = None" using iexp_loop_hangs by (cases "iexp_loop 1 (opW (R_m r) r) n") auto
  moreover have "opW (R_s r) r = n" using assms by (simp add: n_def)
  ultimately show ?thesis using n(1) by (simp add: iexpw_def n(2))
qed

theorem iexpw_hangs_witness: "iexpw (demo_vm\<lparr>mem := (\<lambda>_. 0)(2007 := 128)\<rparr>) = None"
  by (rule iexpw_hangs) code_simp

section \<open>Array indexing\<close>



section \<open>Case tables\<close>

text \<open>Binary search over the ranges \<open>lo i .. hi i\<close>, as both case instructions do it.\<close>

function bsearch :: "(nat \<Rightarrow> int) \<Rightarrow> (nat \<Rightarrow> int) \<Rightarrow> int \<Rightarrow> nat \<Rightarrow> nat \<Rightarrow> nat option" where
  "bsearch lo hi v k n =
    (if n = 0 then None
     else let n2 = n div 2 in
       if v < lo (k + n2) then bsearch lo hi v k n2
       else if v \<ge> hi (k + n2) then bsearch lo hi v (k + n2 + 1) (n - (n2 + 1))
       else Some (k + n2))"
  by pat_completeness auto
termination by (relation "measure (\<lambda>(lo, hi, v, k, n). n)") auto

declare bsearch.simps [simp del]

lemma bsearch_range:
  assumes "\<forall>i < k + n. lo i \<le> hi i" "\<forall>j < k + n. \<forall>i < j. hi i \<le> lo j"
  shows "case bsearch lo hi v k n of
      None \<Rightarrow> \<forall>i. k \<le> i \<and> i < k + n \<longrightarrow> \<not> (lo i \<le> v \<and> v < hi i)
    | Some i \<Rightarrow> k \<le> i \<and> i < k + n \<and> lo i \<le> v \<and> v < hi i"
  using assms
proof (induction lo hi v k n rule: bsearch.induct)
  case (1 lo hi v k n)
  show ?case
  proof (cases "n = 0")
    case False
    define m where "m = k + n div 2"
    have m: "k \<le> m" "m < k + n" "k + n div 2 \<le> k + n" "m + 1 + (n - (n div 2 + 1)) = k + n" using False by (auto simp: m_def)
    have lh: "lo m \<le> hi m" using 1(3) m(2) by blast
    consider "v < lo m" | "lo m \<le> v" "hi m \<le> v" | "lo m \<le> v" "v < hi m" by linarith
    then show ?thesis
    proof cases
      case v: 1
      have "\<not> (lo i \<le> v \<and> v < hi i)" if i: "m \<le> i" "i < k + n" for i
      proof (cases "i = m")
        case False
        then have "hi m \<le> lo i" using 1(4) i by simp
        then show ?thesis using v lh by linarith
      qed (use v in simp)
      moreover have "case bsearch lo hi v k (n div 2) of None \<Rightarrow> \<forall>i. k \<le> i \<and> i < m \<longrightarrow> \<not> (lo i \<le> v \<and> v < hi i)
          | Some i \<Rightarrow> k \<le> i \<and> i < m \<and> lo i \<le> v \<and> v < hi i"
        using 1(1) [OF False refl _ ] v 1(3,4) m(2) unfolding m_def by simp
      ultimately show ?thesis
        using v False m(2) unfolding bsearch.simps [of lo hi v k n] Let_def m_def [symmetric]
        by (auto split: option.splits simp: not_le) (meson not_le_imp_less)
    next
      case v: 2
      have "\<not> (lo i \<le> v \<and> v < hi i)" if i: "i \<le> m" for i
      proof (cases "i = m")
        case False
        then have "hi i \<le> lo m" using 1(4) m(2) i by simp
        then show ?thesis using v lh by linarith
      qed (use v in simp)
      moreover have "case bsearch lo hi v (m + 1) (n - (n div 2 + 1)) of None \<Rightarrow> \<forall>i. m + 1 \<le> i \<and> i < k + n \<longrightarrow> \<not> (lo i \<le> v \<and> v < hi i)
          | Some i \<Rightarrow> m + 1 \<le> i \<and> i < k + n \<and> lo i \<le> v \<and> v < hi i"
        using 1(2) [OF False refl] v 1(3,4) unfolding m_def [symmetric] m(4) by (simp add: not_less)
      ultimately show ?thesis
        using v False m(1) unfolding bsearch.simps [of lo hi v k n] Let_def m_def [symmetric]
        by (auto split: option.splits simp: not_le not_less) (metis leD not_less_eq_eq)
    next
      case 3
      then show ?thesis using False m(1,2) unfolding bsearch.simps [of lo hi v k n] Let_def m_def [symmetric] by simp
    qed
  qed (simp add: bsearch.simps)
qed

text \<open>The table of \<open>icase\<close> at \<open>t\<close>: entries of three words, of which the low halves of the first two are the range.\<close>

definition case_lo :: "vm \<Rightarrow> ptr \<Rightarrow> nat \<Rightarrow> int" where "case_lo r t i = sint (opW32 (t + of_nat (24 * i)) r)"
definition case_hi :: "vm \<Rightarrow> ptr \<Rightarrow> nat \<Rightarrow> int" where "case_hi r t i = sint (opW32 (t + of_nat (24 * i) + 8) r)"
definition case_dest :: "vm \<Rightarrow> ptr \<Rightarrow> nat \<Rightarrow> u64" where "case_dest r t i = opW (t + of_nat (24 * i) + 16) r"

lemma icase_loop_bsearch:
  "icase_loop r v (t + of_nat (24 * k)) n =
    map_option (case_dest r t) (bsearch (case_lo r t) (case_hi r t) v k n)"
proof (induction "case_lo r t" "case_hi r t" v k n rule: bsearch.induct)
  case (1 v k n)
  define m where "m = k + n div 2"
  have e: "t + of_nat (24 * k) + of_nat (n div 2 * 24) = t + of_nat (24 * m)" "t + of_nat (24 * m) + 24 = t + of_nat (24 * (m + 1))"
    by (simp_all add: m_def algebra_simps)
  show ?case
    unfolding icase_loop.simps [of r v "t + of_nat (24 * k)" n] bsearch.simps [of _ _ v k n] Let_def e m_def [symmetric]
    unfolding case_lo_def [symmetric] case_hi_def [symmetric] case_dest_def [symmetric]
    using 1(1) [OF _ refl] 1(2) [OF _ refl] unfolding m_def [symmetric] by (auto simp: not_less)
qed

lemma icase_range:
  assumes "opW (R_d r) r = of_nat n" "n < 2 ^ 32" "t = R_d r + 8"
    and "\<forall>i<n. case_lo r t i \<le> case_hi r t i" "\<forall>j<n. \<forall>i<j. case_hi r t i \<le> case_lo r t j"
  shows "\<exists>d. icase r = Inr (jump_to d r) \<and>
    ((\<exists>i<n. case_lo r t i \<le> sint (opW32 (R_s r) r) \<and> sint (opW32 (R_s r) r) < case_hi r t i \<and> d = case_dest r t i) \<or>
     (\<forall>i<n. \<not> (case_lo r t i \<le> sint (opW32 (R_s r) r) \<and> sint (opW32 (R_s r) r) < case_hi r t i)) \<and>
       d = opW (t + of_nat (24 * n)) r)"
proof -
  define v where "v = sint (opW32 (R_s r) r)"
  have "uint (of_nat n :: u64) = int n" using assms(2) by (simp add: uint_nat unat_of_nat)
  then have n: "nat (sint (of_nat n :: u64)) = n" using assms(2) by (simp add: sint_cases)
  have t: "opW (R_d r) r * 24 = of_nat (24 * n)" using assms(1) by simp
  have "icase_loop r v t n = map_option (case_dest r t) (bsearch (case_lo r t) (case_hi r t) v 0 n)"
    using icase_loop_bsearch [of r v t 0 n] by simp
  then have "icase r = Inr (jump_to (case bsearch (case_lo r t) (case_hi r t) v 0 n of None \<Rightarrow> opW (t + of_nat (24 * n)) r
      | Some i \<Rightarrow> case_dest r t i) r)"
    unfolding icase_def Let_def t v_def [symmetric] assms(3) [symmetric] by (simp add: assms(1) n split: option.splits)
  moreover have "case bsearch (case_lo r t) (case_hi r t) v 0 n of None \<Rightarrow> \<forall>i<n. \<not> (case_lo r t i \<le> v \<and> v < case_hi r t i)
      | Some i \<Rightarrow> i < n \<and> case_lo r t i \<le> v \<and> v < case_hi r t i"
    using bsearch_range [of 0 n "case_lo r t" "case_hi r t" v] assms(4,5) by (simp split: option.splits)
  ultimately show ?thesis
    unfolding v_def [symmetric] by (cases "bsearch (case_lo r t) (case_hi r t) v 0 n") auto
qed

text \<open>
  C31: On a table whose ranges are in order and do not overlap, \<open>icase\<close> jumps to the target of the range
  that contains the selector, and to the default target when there is none.
\<close>

theorem icase_table:
  assumes "opW (R_d r) r = of_nat n" "n < 2 ^ 32" "t = R_d r + 8"
    and "\<forall>i<n. case_lo r t i \<le> case_hi r t i" "\<forall>j<n. \<forall>i<j. case_hi r t i \<le> case_lo r t j"
  shows "\<exists>d. icase r = Inr (jump_to d r) \<and>
    ((\<exists>i<n. case_lo r t i \<le> sint (opW32 (R_s r) r) \<and> sint (opW32 (R_s r) r) < case_hi r t i \<and> d = case_dest r t i) \<or>
     (\<forall>i<n. \<not> (case_lo r t i \<le> sint (opW32 (R_s r) r) \<and> sint (opW32 (R_s r) r) < case_hi r t i)) \<and>
       d = opW (t + of_nat (24 * n)) r)"
  by (rule icase_range [OF assms])

definition case_vm :: vm where
  "case_vm = demo_vm\<lparr>R_d := 3000, mem := (\<lambda>_. 0)(2000 := 5, 3000 := 2, 3008 := 1, 3016 := 3, 3024 := 10,
     3032 := 4, 3040 := 9, 3048 := 20, 3056 := 30)\<rparr>"

theorem icase_table_witness: "\<exists>d. icase case_vm = Inr (jump_to d case_vm) \<and> d = 20"
proof -
  have w: "opW (R_d case_vm) case_vm = of_nat 2" "3008 = R_d case_vm + 8" "sint (opW32 (R_s case_vm) case_vm) = 5"
    "case_lo case_vm 3008 0 = 1" "case_lo case_vm 3008 1 = 4" "case_hi case_vm 3008 0 = 3" "case_hi case_vm 3008 1 = 9"
    "case_dest case_vm 3008 1 = 20" by code_simp+
  have l: "i < 2 \<longleftrightarrow> i = 0 \<or> i = (1 :: nat)" for i by auto
  have "\<forall>i<2. case_lo case_vm 3008 i \<le> case_hi case_vm 3008 i" "\<forall>j<2. \<forall>i<j. case_hi case_vm 3008 i \<le> case_lo case_vm 3008 j"
    using w(4-7) by (auto simp: l)
  from icase_table [OF w(1) _ w(2) this] show ?thesis unfolding w(3) using w(4-8) by (auto simp: l)
qed

section \<open>The time slice\<close>



lemma IC_set [simp]: "IC (setB x r) = IC r" "IC (setW y r) = IC r" "IC (setSH z r) = IC r" "IC (setPm a r) = IC r"
    "IC (JMP r) = IC r" "IC (jump_to b r) = IC r"
  by (simp_all add: setB_def setW_def setSH_def setPm_def JMP_def jump_to_def)

lemma IC_dexec [simp]: "IC (dexec s r) = IC r"
  by (cases s) simp_all

lemma IC_run_dec [simp]: "IC (run_dec b r) = IC r"
  unfolding run_dec_def by (rule fold_invariant [where Q = "\<lambda>_. True" and P = "\<lambda>r'. IC r' = IC r"]) auto













end
