(* ===== verification/Pool_Tree.thy ===== *)
theory Pool_Tree
  imports Inferno_Prelude "HOL-Library.Multiset"
begin

text \<open>
  The free blocks of a memory pool (\<^verbatim>\<open>src/emu/port/alloc.c\<close>): a binary search tree of block headers by
  size, each node the first of a ring of free blocks of that size. This theory has \<open>pooladd\<close> and
  \<open>pooldel\<close> on the linked headers, and the proof that they insert into and delete from the tree the
  headers represent.
\<close>

section \<open>Block headers\<close>

text \<open>
  The fields of \<open>struct Bhdr\<close> (\<^verbatim>\<open>src/include/pool.h\<close>), each a map from the address of a header, and
  the trailer of a block, by the address of the trailer. The null address is 0. The links of a free
  block and \<open>clink\<close> and \<open>csize\<close> of a leader share their bytes with each other and with the data of an
  allocated block; each is read only in a block of its own kind, so that they are separate maps here.
  A size is a \<open>uintptr\<close>, below \<open>maxsize\<close>; it never wraps and is a natural number.
\<close>

type_synonym badr = nat

record bheap =
  b_magic :: "badr \<Rightarrow> u32"
  b_size :: "badr \<Rightarrow> nat"
  b_allocpc :: "badr \<Rightarrow> nat"
  b_reallocpc :: "badr \<Rightarrow> nat"
  b_left :: "badr \<Rightarrow> badr"
  b_right :: "badr \<Rightarrow> badr"
  b_parent :: "badr \<Rightarrow> badr"
  b_prev :: "badr \<Rightarrow> badr"
  b_fwd :: "badr \<Rightarrow> badr"
  b_clink :: "badr \<Rightarrow> badr"
  b_csize :: "badr \<Rightarrow> nat"
  t_hdr :: "badr \<Rightarrow> badr"

definition MAGIC_A :: u32 where "MAGIC_A = 0xa110c"
definition MAGIC_F :: u32 where "MAGIC_F = 0xbadc0c0a"
definition MAGIC_E :: u32 where "MAGIC_E = 0xdeadbabe"
definition MAGIC_I :: u32 where "MAGIC_I = 0xabba"

definition set_magic :: "badr \<Rightarrow> u32 \<Rightarrow> bheap \<Rightarrow> bheap" where "set_magic a x h = h\<lparr>b_magic := (b_magic h)(a := x)\<rparr>"
definition set_size :: "badr \<Rightarrow> nat \<Rightarrow> bheap \<Rightarrow> bheap" where "set_size a x h = h\<lparr>b_size := (b_size h)(a := x)\<rparr>"
definition set_left :: "badr \<Rightarrow> badr \<Rightarrow> bheap \<Rightarrow> bheap" where "set_left a x h = h\<lparr>b_left := (b_left h)(a := x)\<rparr>"
definition set_right :: "badr \<Rightarrow> badr \<Rightarrow> bheap \<Rightarrow> bheap" where "set_right a x h = h\<lparr>b_right := (b_right h)(a := x)\<rparr>"
definition set_parent :: "badr \<Rightarrow> badr \<Rightarrow> bheap \<Rightarrow> bheap" where "set_parent a x h = h\<lparr>b_parent := (b_parent h)(a := x)\<rparr>"
definition set_prev :: "badr \<Rightarrow> badr \<Rightarrow> bheap \<Rightarrow> bheap" where "set_prev a x h = h\<lparr>b_prev := (b_prev h)(a := x)\<rparr>"
definition set_fwd :: "badr \<Rightarrow> badr \<Rightarrow> bheap \<Rightarrow> bheap" where "set_fwd a x h = h\<lparr>b_fwd := (b_fwd h)(a := x)\<rparr>"

lemmas set_fields [simp] = set_magic_def set_size_def set_left_def set_right_def set_parent_def set_prev_def set_fwd_def

section \<open>pooldel\<close>

definition unlink :: "badr \<Rightarrow> bheap \<Rightarrow> bheap" where
  "unlink t h = (let h = set_fwd (b_prev h t) (b_fwd h t) h in set_prev (b_fwd h t) (b_prev h t) h)"

text \<open>\<open>s\<close> is the parent of \<open>t\<close>, whose place \<open>f\<close> takes.\<close>

definition replace_child :: "badr \<Rightarrow> badr \<Rightarrow> badr \<Rightarrow> bheap \<Rightarrow> badr \<Rightarrow> bheap \<times> badr" where
  "replace_child t f s h root =
    (if s = 0 then (h, f) else if b_left h s = t then (set_left s f h, root) else (set_right s f h, root))"

definition adopt :: "badr \<Rightarrow> badr \<Rightarrow> bheap \<Rightarrow> bheap" where
  "adopt rp f h = (if rp \<noteq> 0 then set_parent rp f h else h)"

partial_function (option) leftmost :: "bheap \<Rightarrow> badr \<Rightarrow> badr \<Rightarrow> (badr \<times> badr) option" where
  "leftmost h f rp = (let s = b_left h rp in if s = 0 then Some (f, rp) else leftmost h rp s)"

definition pooldel_subst :: "bheap \<Rightarrow> badr \<Rightarrow> (bheap \<times> badr) option" where
  "pooldel_subst h t =
    (if b_left h t = 0 then Some (h, b_right h t)
     else if b_right h t = 0 then Some (h, b_left h t)
     else case leftmost h t (b_right h t) of
       None \<Rightarrow> None
     | Some (f, rp) \<Rightarrow>
         let h = (if f \<noteq> t then
                    let s = b_right h rp; h = set_left f s h; h = adopt s f h;
                        s = b_right h t; h = set_right rp s h
                    in adopt s rp h
                  else h);
             s = b_left h t; h = set_left rp s h
         in Some (set_parent s rp h, rp))"

definition pooldel_head :: "bheap \<Rightarrow> badr \<Rightarrow> badr \<Rightarrow> bheap \<times> badr" where
  "pooldel_head h root t =
    (let f = b_fwd h t; s = b_parent h t; h = set_parent f s h;
         (h, root) = replace_child t f s h root;
         rp = b_left h t; h = set_left f rp h; h = adopt rp f h;
         rp = b_right h t; h = set_right f rp h; h = adopt rp f h
     in (unlink t h, root))"

definition pooldel :: "bheap \<Rightarrow> badr \<Rightarrow> badr \<Rightarrow> (bheap \<times> badr) option" where
  "pooldel h root t =
    (if b_parent h t = 0 \<and> root \<noteq> t then Some (unlink t h, root)
     else if b_fwd h t \<noteq> t then Some (pooldel_head h root t)
     else case pooldel_subst h t of
       None \<Rightarrow> None
     | Some (h, rp) \<Rightarrow>
         let q = b_parent h t; (h, root) = replace_child t rp q h root in Some (adopt rp q h, root))"

section \<open>pooladd\<close>

partial_function (option) pooladd_find :: "bheap \<Rightarrow> nat \<Rightarrow> badr \<Rightarrow> badr \<Rightarrow> (badr \<times> badr) option" where
  "pooladd_find h n tp t =
    (if t = 0 then Some (tp, t)
     else if n = b_size h t then Some (tp, t)
     else if n < b_size h t then pooladd_find h n t (b_left h t)
     else pooladd_find h n t (b_right h t))"

definition pooladd_init :: "badr \<Rightarrow> bheap \<Rightarrow> bheap" where
  "pooladd_init q h =
    set_prev q q (set_fwd q q (set_parent q 0 (set_right q 0 (set_left q 0 (set_magic q MAGIC_F h)))))"

definition pooladd :: "bheap \<Rightarrow> badr \<Rightarrow> badr \<Rightarrow> (bheap \<times> badr) option" where
  "pooladd h root q =
    (let h = pooladd_init q h in
     if root = 0 then Some (h, q)
     else
       let n = b_size h q in
       case pooladd_find h n 0 root of
         None \<Rightarrow> None
       | Some (tp, t) \<Rightarrow>
           if t \<noteq> 0 then
             let h = set_prev q (b_prev h t) h; h = set_fwd (b_prev h q) q h; h = set_fwd q t h
             in Some (set_prev t q h, root)
           else
             let h = set_parent q tp h
             in Some (if n < b_size h tp then set_left tp q h else set_right tp q h, root))"

section \<open>The tree the headers represent\<close>

datatype ftree = Leaf | Node ftree "badr list" ftree

fun addrs :: "ftree \<Rightarrow> badr list" where
  "addrs Leaf = []"
| "addrs (Node l rs r) = rs @ addrs l @ addrs r"

text \<open>A ring: each block points forward to the next and back from it, the last to the first.\<close>

definition ring :: "bheap \<Rightarrow> badr list \<Rightarrow> bool" where
  "ring h rs \<longleftrightarrow> rs \<noteq> [] \<and> successively (\<lambda>x y. b_fwd h x = y \<and> b_prev h y = x) (rs @ [hd rs])"

text \<open>A node: its ring, its parent, and the other blocks of the ring without one.\<close>

definition node :: "bheap \<Rightarrow> badr \<Rightarrow> badr list \<Rightarrow> bool" where
  "node h par rs \<longleftrightarrow> ring h rs \<and> 0 \<notin> set rs \<and> distinct rs \<and> b_parent h (hd rs) = par \<and>
    (\<forall>x\<in>set (tl rs). b_parent h x = 0 \<and> b_size h x = b_size h (hd rs)) \<and> (\<forall>x\<in>set rs. b_magic h x = MAGIC_F)"

fun tree :: "bheap \<Rightarrow> badr \<Rightarrow> badr \<Rightarrow> ftree \<Rightarrow> bool" where
  "tree h p par Leaf \<longleftrightarrow> p = 0"
| "tree h p par (Node l rs r) \<longleftrightarrow> node h par rs \<and> p = hd rs \<and>
    tree h (b_left h p) p l \<and> tree h (b_right h p) p r"

fun bst :: "(badr \<Rightarrow> nat) \<Rightarrow> ftree \<Rightarrow> bool" where
  "bst sz Leaf \<longleftrightarrow> True"
| "bst sz (Node l rs r) \<longleftrightarrow> rs \<noteq> [] \<and> (\<forall>x\<in>set (tl rs). sz x = sz (hd rs)) \<and> bst sz l \<and> bst sz r \<and> (\<forall>x\<in>set (addrs l). sz x < sz (hd rs)) \<and> (\<forall>x\<in>set (addrs r). sz (hd rs) < sz x)"

text \<open>The pool's view: the tree hangs at \<open>root\<close>, is ordered, and holds no block twice.\<close>

definition free_tree :: "bheap \<Rightarrow> badr \<Rightarrow> ftree \<Rightarrow> bool" where
  "free_tree h root t \<longleftrightarrow> tree h root 0 t \<and> bst (b_size h) t \<and> distinct (addrs t)"

section \<open>Frames\<close>

definition agree :: "bheap \<Rightarrow> bheap \<Rightarrow> badr set \<Rightarrow> bool" where
  "agree h h' A \<longleftrightarrow> (\<forall>a\<in>A. b_magic h' a = b_magic h a \<and> b_size h' a = b_size h a \<and> b_left h' a = b_left h a \<and>
    b_right h' a = b_right h a \<and> b_parent h' a = b_parent h a \<and> b_prev h' a = b_prev h a \<and> b_fwd h' a = b_fwd h a)"

lemma agreeD: "agree h h' A \<Longrightarrow> B \<subseteq> A \<Longrightarrow> agree h h' B"
  by (auto simp: agree_def)

lemma successively_cong': "successively P xs \<Longrightarrow> (\<And>x y. x \<in> set xs \<Longrightarrow> y \<in> set xs \<Longrightarrow> P x y \<Longrightarrow> Q x y) \<Longrightarrow> successively Q xs"
  by (induction P xs rule: successively.induct) auto

lemma ring_cong:
  assumes "ring h rs" "\<forall>x\<in>set rs. b_prev h' x = b_prev h x \<and> b_fwd h' x = b_fwd h x"
  shows "ring h' rs"
proof -
  have "set (rs @ [hd rs]) = set rs" using assms(1) by (auto simp: ring_def)
  then show ?thesis using assms unfolding ring_def by (auto elim!: successively_cong')
qed

lemma ring_hd: "ring h rs \<Longrightarrow> hd rs \<in> set rs"
  by (simp add: ring_def)

lemma node_nonempty: "node h par rs \<Longrightarrow> hd rs \<in> set rs"
  using ring_hd [of h rs] by (simp add: node_def)

lemma node_nonzero: "node h par rs \<Longrightarrow> hd rs \<noteq> 0"
  using ring_hd [of h rs] unfolding node_def by metis

lemma set_tl: "set (tl rs) \<subseteq> set rs"
  by (cases rs) auto

lemma node_cong:
  assumes "node h par rs"
    and eq: "\<And>a. a \<in> set rs \<Longrightarrow> b_magic h' a = b_magic h a \<and> b_size h' a = b_size h a \<and> b_prev h' a = b_prev h a \<and> b_fwd h' a = b_fwd h a"
    and "b_parent h' (hd rs) = par'" and tl: "\<And>a. a \<in> set (tl rs) \<Longrightarrow> b_parent h' a = b_parent h a"
  shows "node h' par' rs"
proof -
  have "ring h rs" using assms(1) by (simp add: node_def)
  then have "ring h' rs" by (rule ring_cong) (use eq in blast)
  moreover have "b_parent h' x = 0 \<and> b_size h' x = b_size h' (hd rs)" if "x \<in> set (tl rs)" for x
  proof -
    have n: "b_parent h x = 0" "b_size h x = b_size h (hd rs)" using assms(1) that unfolding node_def by blast+
    have x: "x \<in> set rs" by (rule subsetD [OF set_tl that])
    show ?thesis unfolding tl [OF that] n(1) using eq [OF x] eq [OF node_nonempty [OF assms(1)]] n(2) by argo
  qed
  moreover have "b_magic h' x = MAGIC_F" if "x \<in> set rs" for x
    using assms(1) eq [OF that] that by (simp add: node_def)
  ultimately show ?thesis using assms(1,3) by (simp add: node_def)
qed

lemma node_agree:
  assumes "node h par rs" "agree h h' (set rs)"
  shows "node h' par rs"
  using assms(2) node_nonempty [OF assms(1)] set_tl [of rs]
  by (intro node_cong [OF assms(1)]) (use assms(1) in \<open>auto simp: agree_def node_def\<close>)

lemma tree_agree: "tree h p par t \<Longrightarrow> agree h h' (set (addrs t)) \<Longrightarrow> tree h' p par t"
proof (induction t arbitrary: p par)
  case (Node l rs r)
  have hd: "hd rs \<in> set rs" using Node.prems(1) node_nonempty by auto
  have "node h' par rs" using Node.prems by (auto intro: node_agree agreeD)
  moreover have "tree h' (b_left h p) p l" using Node.prems by (intro Node.IH) (auto elim: agreeD)
  moreover have "tree h' (b_right h p) p r" using Node.prems by (intro Node.IH) (auto elim: agreeD)
  moreover have "b_left h' p = b_left h p" "b_right h' p = b_right h p" using Node.prems hd by (auto simp: agree_def)
  ultimately show ?case using Node.prems(1) by simp
qed simp

lemma tree_null: "tree h p par t \<Longrightarrow> p = 0 \<longleftrightarrow> t = Leaf"
  by (cases t) (auto dest: node_nonzero)

lemma tree_root_in: "tree h p par t \<Longrightarrow> p \<noteq> 0 \<Longrightarrow> p \<in> set (addrs t)"
  by (cases t) (auto dest: node_nonempty)

lemma tree_addr_nonzero: "tree h p par t \<Longrightarrow> 0 \<notin> set (addrs t)"
  by (induction t arbitrary: p par) (auto simp: node_def)

text \<open>A subtree gets another parent.\<close>

lemma tree_reparent:
  assumes "tree h p par t" "distinct (addrs t)" "agree h h' (set (addrs t) - {p})"
    and "p \<noteq> 0 \<Longrightarrow> b_magic h' p = b_magic h p \<and> b_size h' p = b_size h p \<and> b_left h' p = b_left h p \<and>
      b_right h' p = b_right h p \<and> b_prev h' p = b_prev h p \<and> b_fwd h' p = b_fwd h p \<and> b_parent h' p = par'"
  shows "tree h' p par' t"
proof (cases t)
  case (Node l rs r)
  then have n: "node h par rs" "p = hd rs" "p \<noteq> 0" "p \<in> set rs" using assms(1) node_nonempty tree_null [OF assms(1)] by auto
  have tl: "set (tl rs) \<subseteq> set rs - {p}" using n assms(2) Node by (cases rs) auto
  have "node h' par' rs"
    using assms(3,4) n tl Node by (intro node_cong [OF n(1)]) (auto simp: agree_def)
  moreover have "p \<notin> set (addrs l)" "p \<notin> set (addrs r)" using n(4) assms(2) Node by auto
  then have "tree h' (b_left h p) p l" "tree h' (b_right h p) p r"
    using assms(1,3) Node by (auto intro!: tree_agree [of h] elim!: agreeD)
  ultimately show ?thesis using Node n assms(4) by simp
qed (use assms(1) in simp)

section \<open>Contexts\<close>

text \<open>The path from the root to a subtree, innermost node first: whether it goes left, the node, the other child.\<close>

type_synonym fctx = "(bool \<times> badr list \<times> ftree) list"

fun plug :: "fctx \<Rightarrow> ftree \<Rightarrow> ftree" where
  "plug [] t = t"
| "plug ((lf, rs, u) # c) t = plug c (if lf then Node t rs u else Node u rs t)"

fun caddrs :: "fctx \<Rightarrow> badr list" where
  "caddrs [] = []"
| "caddrs ((lf, rs, u) # c) = rs @ addrs u @ caddrs c"

fun ctx :: "bheap \<Rightarrow> badr \<Rightarrow> badr \<Rightarrow> fctx \<Rightarrow> badr \<Rightarrow> badr \<Rightarrow> bool" where
  "ctx h root rpar [] p par \<longleftrightarrow> p = root \<and> par = rpar"
| "ctx h root rpar ((lf, rs, u) # c) p par \<longleftrightarrow> par = hd rs \<and> node h (b_parent h par) rs \<and>
    p = (if lf then b_left h par else b_right h par) \<and> tree h (if lf then b_right h par else b_left h par) par u \<and>
    ctx h root rpar c par (b_parent h par)"

lemma mset_plug: "mset (addrs (plug c t)) = mset (addrs t) + mset (caddrs c)"
  by (induction c t rule: plug.induct) auto

lemma set_plug: "set (addrs (plug c t)) = set (addrs t) \<union> set (caddrs c)"
  using mset_plug [of c t] by (metis set_mset_mset set_mset_union)

lemma distinct_plug: "distinct (addrs (plug c t)) \<longleftrightarrow> distinct (addrs t) \<and> distinct (caddrs c) \<and> set (addrs t) \<inter> set (caddrs c) = {}"
proof -
  have "mset (addrs (plug c t)) = mset (addrs t @ caddrs c)" by (simp add: mset_plug)
  then have "distinct (addrs (plug c t)) = distinct (addrs t @ caddrs c)" by (rule mset_eq_imp_distinct_iff)
  then show ?thesis by simp
qed

lemma tree_plug: "tree h root rpar (plug c t) \<longleftrightarrow> (\<exists>p par. ctx h root rpar c p par \<and> tree h p par t)"
proof (induction c t rule: plug.induct)
  case (2 lf rs u c t)
  have "(\<exists>p par. ctx h root rpar c p par \<and> tree h p par (if lf then Node t rs u else Node u rs t)) \<longleftrightarrow>
      (\<exists>p par. ctx h root rpar ((lf, rs, u) # c) p par \<and> tree h p par t)"
    by (cases lf) (auto simp: node_def)
  then show ?case using 2 by simp
qed simp

lemma ctx_agree: "ctx h root rpar c p par \<Longrightarrow> agree h h' (set (caddrs c)) \<Longrightarrow> ctx h' root rpar c p par"
proof (induction h root rpar c p par rule: ctx.induct)
  case (2 h root rpar lf rs u c p par)
  have f: "par = hd rs" "node h (b_parent h par) rs" "p = (if lf then b_left h par else b_right h par)"
    "tree h (if lf then b_right h par else b_left h par) par u" "ctx h root rpar c par (b_parent h par)"
    using 2(2) unfolding ctx.simps by blast+
  have a: "agree h h' (set rs)" "agree h h' (set (addrs u))" "agree h h' (set (caddrs c))" using 2(3) by (auto elim: agreeD)
  have "b_left h' par = b_left h par" "b_right h' par = b_right h par" "b_parent h' par = b_parent h par"
    using a(1) node_nonempty [OF f(2)] unfolding f(1) agree_def by blast+
  then show ?case using node_agree [OF f(2) a(1)] tree_agree [OF f(4) a(2)] 2(1) [OF f(5) a(3)] f(1,3) by (cases lf) simp_all
qed simp

lemma ctx_par: "ctx h root rpar c p par \<Longrightarrow> c \<noteq> [] \<Longrightarrow> par \<in> set (caddrs c) \<and> par \<noteq> 0"
  by (cases c) (auto dest: node_nonempty node_nonzero)

lemma ctx_nonzero: "ctx h root rpar c p par \<Longrightarrow> 0 \<notin> set (caddrs c)"
proof (induction h root rpar c p par rule: ctx.induct)
  case (2 h root rpar lf rs u c p par)
  then have n: "node h (b_parent h par) rs" and u: "tree h (if lf then b_right h par else b_left h par) par u"
    and c: "ctx h root rpar c par (b_parent h par)" unfolding ctx.simps by blast+
  show ?case using n tree_addr_nonzero [OF u] 2(1) [OF c] by (simp add: node_def)
qed simp

text \<open>The hole is filled with another subtree: the pointer of its parent, or the root, changes.\<close>

lemma ctx_refill:
  assumes "ctx h root rpar c p par" "c \<noteq> []" "distinct (caddrs c)" "agree h h' (set (caddrs c) - {par})"
    and "b_magic h' par = b_magic h par" "b_size h' par = b_size h par" "b_prev h' par = b_prev h par"
      "b_fwd h' par = b_fwd h par" "b_parent h' par = b_parent h par"
    and "if fst (hd c) then b_left h' par = p' \<and> b_right h' par = b_right h par else b_right h' par = p' \<and> b_left h' par = b_left h par"
  shows "ctx h' root rpar c p' par"
proof -
  obtain lf rs u c' where c: "c = (lf, rs, u) # c'" using assms(2) by (cases c) auto
  have f: "par = hd rs" "node h (b_parent h par) rs" "tree h (if lf then b_right h par else b_left h par) par u"
    "ctx h root rpar c' par (b_parent h par)" using assms(1) unfolding c ctx.simps by blast+
  have p: "par \<in> set rs" using node_nonempty [OF f(2)] f(1) by simp
  have out: "par \<notin> set (addrs u)" "par \<notin> set (caddrs c')" using assms(3) c p by auto
  have tl: "set (tl rs) \<subseteq> set rs - {par}" using f(1) p assms(3) c by (cases rs) auto
  have a: "agree h h' (set rs - {par})" "agree h h' (set (addrs u))" "agree h h' (set (caddrs c'))"
    using assms(4) c out by (auto elim!: agreeD)
  have "node h' (b_parent h par) rs"
  proof (rule node_cong [OF f(2)])
    show "b_magic h' a = b_magic h a \<and> b_size h' a = b_size h a \<and> b_prev h' a = b_prev h a \<and> b_fwd h' a = b_fwd h a" if "a \<in> set rs" for a
      using a(1) assms(5-8) that unfolding agree_def by (cases "a = par") blast+
    show "b_parent h' (hd rs) = b_parent h par" using assms(9) f(1) by simp
    show "b_parent h' a = b_parent h a" if "a \<in> set (tl rs)" for a using a(1) tl that unfolding agree_def by blast
  qed
  moreover note tree_agree [OF f(3) a(2)] ctx_agree [OF f(4) a(3)]
  ultimately show ?thesis using assms(9,10) c f(1) by (cases lf) simp_all
qed

section \<open>Rings\<close>

lemma successively_inner:
  assumes "successively P xs" "\<And>x y. x \<in> set (butlast xs) \<Longrightarrow> y \<in> set (tl xs) \<Longrightarrow> P x y \<Longrightarrow> Q x y"
  shows "successively Q xs"
  using assms
proof (induction P xs rule: successively.induct)
  case (3 P x y xs)
  have "successively Q (y # xs)" by (rule 3(1)) (use 3(2,3) in \<open>auto dest: in_set_butlastD split: if_splits\<close>)
  then show ?case using 3(2,3) by simp
qed simp_all

lemma ring_iff: "rs \<noteq> [] \<Longrightarrow> ring h rs \<longleftrightarrow>
    successively (\<lambda>x y. b_fwd h x = y \<and> b_prev h y = x) rs \<and> b_fwd h (last rs) = hd rs \<and> b_prev h (hd rs) = last rs"
  by (auto simp: ring_def successively_append_iff)

lemma distinct_butlast_last: "distinct xs \<Longrightarrow> x \<in> set (butlast xs) \<Longrightarrow> x \<noteq> last xs"
  by (cases xs rule: rev_cases) auto

lemma distinct_tl_hd: "distinct xs \<Longrightarrow> x \<in> set (tl xs) \<Longrightarrow> x \<noteq> hd xs"
  by (cases xs) auto

lemma ring_snoc:
  assumes "ring h rs" "distinct rs" "q \<notin> set rs"
    and "b_fwd h' = (b_fwd h)(last rs := q, q := hd rs)" "b_prev h' = (b_prev h)(q := last rs, hd rs := q)"
  shows "ring h' (rs @ [q])"
proof -
  have ne: "rs \<noteq> []" using assms(1) by (simp add: ring_def)
  have "successively (\<lambda>x y. b_fwd h' x = y \<and> b_prev h' y = x) rs"
  proof (rule successively_inner)
    show "successively (\<lambda>x y. b_fwd h x = y \<and> b_prev h y = x) rs" using assms(1) ring_iff [OF ne] by simp
    fix x y assume xy: "x \<in> set (butlast rs)" "y \<in> set (tl rs)" "b_fwd h x = y \<and> b_prev h y = x"
    then have "x \<noteq> last rs" "y \<noteq> hd rs" "x \<noteq> q" "y \<noteq> q"
      using assms(2,3) distinct_butlast_last [of rs x] distinct_tl_hd [of rs y] in_set_butlastD [of x rs] list.set_sel(2) [OF ne, of y] by auto
    then show "b_fwd h' x = y \<and> b_prev h' y = x" using xy(3) assms(4,5) by simp
  qed
  moreover have "hd rs \<noteq> q" "last rs \<noteq> q" using assms(3) ne by auto
  ultimately show ?thesis using ne assms(4,5) by (auto simp: ring_iff successively_append_iff)
qed

lemma ring_unlink:
  assumes "ring h (as @ x # bs)" "as \<noteq> []" "distinct (as @ x # bs)"
  shows "ring (unlink x h) (as @ bs)"
proof -
  define y where "y = hd (bs @ as)"
  have r: "successively (\<lambda>x y. b_fwd h x = y \<and> b_prev h y = x) as" "successively (\<lambda>x y. b_fwd h x = y \<and> b_prev h y = x) bs"
    "b_prev h x = last as" "b_fwd h x = y" "bs \<noteq> [] \<Longrightarrow> b_fwd h (last bs) = hd as \<and> b_prev h (hd as) = last bs"
    using assms(1,2) by (auto simp: ring_iff successively_append_iff successively_Cons y_def split: if_splits)
  have xy: "x \<noteq> last as" "x \<noteq> y" using assms(2,3) by (auto simp: y_def hd_append)
  have u: "b_fwd (unlink x h) = (b_fwd h)(last as := y)" "b_prev (unlink x h) = (b_prev h)(y := last as)"
    using r(3,4) xy(1) by (auto simp: unlink_def Let_def)
  have inner: "successively (\<lambda>x y. b_fwd (unlink x' h) x = y \<and> b_prev (unlink x' h) y = x) zs"
    if "successively (\<lambda>x y. b_fwd h x = y \<and> b_prev h y = x) zs" "\<And>z. z \<in> set (butlast zs) \<Longrightarrow> z \<noteq> last as" "\<And>z. z \<in> set (tl zs) \<Longrightarrow> z \<noteq> y" "x' = x"
    for zs x'
    using that(1) by (rule successively_inner) (use that(2-4) u in auto)
  have "successively (\<lambda>a b. b_fwd (unlink x h) a = b \<and> b_prev (unlink x h) b = a) as"
    using r(1) assms(2,3) by (rule_tac inner) (auto simp: y_def hd_append dest: distinct_butlast_last distinct_tl_hd list.set_sel(2) split: if_splits)
  moreover have "successively (\<lambda>a b. b_fwd (unlink x h) a = b \<and> b_prev (unlink x h) b = a) bs"
  proof (rule inner [OF r(2)])
    fix z assume "z \<in> set (butlast bs)"
    then have "z \<in> set bs" by (rule in_set_butlastD)
    then show "z \<noteq> last as" using last_in_set [OF assms(2)] assms(3) by auto
  next
    fix z assume "z \<in> set (tl bs)"
    then show "z \<noteq> y" using assms(3) by (cases bs) (auto simp: y_def)
  qed simp
  moreover have "last as \<noteq> last bs \<and> hd as \<noteq> hd bs" if "bs \<noteq> []"
  proof -
    have "last as \<in> set as" "hd as \<in> set as" "last bs \<in> set bs" "hd bs \<in> set bs" using assms(2) that by simp_all
    then show ?thesis using assms(3) by auto
  qed
  ultimately show ?thesis using assms(2) r(5) u by (auto simp: ring_iff successively_append_iff y_def hd_append)
qed

lemma ring_drop_hd:
  assumes "ring h (t # f # bs)" "distinct (t # f # bs)"
  shows "ring (unlink t h) (f # bs)"
proof -
  define z where "z = last (f # bs)"
  have r: "successively (\<lambda>x y. b_fwd h x = y \<and> b_prev h y = x) (f # bs)" "b_fwd h t = f" "b_prev h t = z" "z \<noteq> t"
    using assms by (auto simp: ring_iff successively_Cons z_def split: if_splits)
  have u: "b_fwd (unlink t h) = (b_fwd h)(z := f)" "b_prev (unlink t h) = (b_prev h)(f := z)"
    using r(2,3,4) by (auto simp: unlink_def Let_def)
  have "successively (\<lambda>x y. b_fwd (unlink t h) x = y \<and> b_prev (unlink t h) y = x) (f # bs)"
  proof (rule successively_inner [OF r(1)])
    fix x y assume "x \<in> set (butlast (f # bs))" "y \<in> set (tl (f # bs))" "b_fwd h x = y \<and> b_prev h y = x"
    moreover have "x \<noteq> z" using distinct_butlast_last [of "f # bs" x] assms(2) calculation(1) by (simp add: z_def)
    ultimately show "b_fwd (unlink t h) x = y \<and> b_prev (unlink t h) y = x" using u assms(2) by auto
  qed
  then show ?thesis using u by (simp add: ring_iff z_def)
qed

section \<open>Insertion\<close>

fun ins :: "(badr \<Rightarrow> nat) \<Rightarrow> badr \<Rightarrow> ftree \<Rightarrow> ftree" where
  "ins sz q Leaf = Node Leaf [q] Leaf"
| "ins sz q (Node l rs r) =
    (if sz q = sz (hd rs) then Node l (rs @ [q]) r
     else if sz q < sz (hd rs) then Node (ins sz q l) rs r
     else Node l rs (ins sz q r))"

fun seek :: "(badr \<Rightarrow> nat) \<Rightarrow> nat \<Rightarrow> ftree \<Rightarrow> fctx \<Rightarrow> fctx \<times> ftree" where
  "seek sz n Leaf c = (c, Leaf)"
| "seek sz n (Node l rs r) c =
    (if n = sz (hd rs) then (c, Node l rs r)
     else if n < sz (hd rs) then seek sz n l ((True, rs, r) # c)
     else seek sz n r ((False, rs, l) # c))"

lemma set_ins [simp]: "set (addrs (ins sz q t)) = insert q (set (addrs t))"
  by (induction t) auto

lemma distinct_ins: "distinct (addrs t) \<Longrightarrow> q \<notin> set (addrs t) \<Longrightarrow> distinct (addrs (ins sz q t))"
  by (induction t) auto

lemma bst_ins: "bst sz t \<Longrightarrow> bst sz (ins sz q t)"
  by (induction t) auto

lemma ins_seek: "seek sz (sz q) t c = (c', u) \<Longrightarrow> plug c (ins sz q t) = plug c' (ins sz q u)"
proof (induction t arbitrary: c)
  case (Node l rs r)
  show ?case using Node.prems Node.IH(1) [of "(True, rs, r) # c"] Node.IH(2) [of "(False, rs, l) # c"]
    by (auto split: if_splits)
qed simp

lemma seek_plug: "seek sz n t c = (c', u) \<Longrightarrow> plug c' u = plug c t"
proof (induction t arbitrary: c)
  case (Node l rs r)
  show ?case using Node.prems Node.IH(1) [of "(True, rs, r) # c"] Node.IH(2) [of "(False, rs, l) # c"]
    by (auto split: if_splits)
qed simp

lemma seek_hit: "seek sz n t c = (c', Node l rs r) \<Longrightarrow> sz (hd rs) = n"
  by (induction t arbitrary: c) (auto split: if_splits)

lemma seek_dir:
  assumes "seek sz n t c = (c', u)" "c \<noteq> [] \<longrightarrow> (fst (hd c) \<longleftrightarrow> n < sz (hd (fst (snd (hd c)))))" "c' \<noteq> []"
  shows "fst (hd c') \<longleftrightarrow> n < sz (hd (fst (snd (hd c'))))"
  using assms(1,2)
proof (induction t arbitrary: c)
  case (Node l rs r)
  show ?case using Node.prems Node.IH(1) [of "(True, rs, r) # c"] Node.IH(2) [of "(False, rs, l) # c"] assms(3)
    by (auto split: if_splits)
qed (use assms(3) in simp)

lemma seek_find:
  assumes "ctx h root rpar c p par" "tree h p par t" "seek (b_size h) n t c = (c', u)"
  shows "\<exists>p' par'. ctx h root rpar c' p' par' \<and> tree h p' par' u \<and> pooladd_find h n par p = Some (par', p')"
  using assms
proof (induction t arbitrary: c p par)
  case Leaf
  then show ?case by (auto simp: pooladd_find.simps)
next
  case (Node l rs r)
  have t: "node h par rs" "p = hd rs" "tree h (b_left h p) p l" "tree h (b_right h p) p r" using Node.prems(2) by auto
  have p0: "p \<noteq> 0" "b_parent h p = par" using node_nonzero [OF t(1)] t(1,2) by (auto simp: node_def)
  have c: "ctx h root rpar ((True, rs, r) # c) (b_left h p) p" "ctx h root rpar ((False, rs, l) # c) (b_right h p) p"
    using t Node.prems(1) p0(2) by auto
  consider "n = b_size h p" | "n < b_size h p" | "b_size h p < n" by linarith
  then show ?case
  proof cases
    case 1
    then have "c' = c" "u = Node l rs r" using Node.prems(3) t(2) by auto
    moreover have "pooladd_find h n par p = Some (par, p)" using 1 p0 by (simp add: pooladd_find.simps)
    ultimately show ?thesis using Node.prems(1,2) by blast
  next
    case 2
    then have "seek (b_size h) n l ((True, rs, r) # c) = (c', u)" using Node.prems(3) t(2) by auto
    moreover have "pooladd_find h n par p = pooladd_find h n p (b_left h p)" using 2 p0 by (subst pooladd_find.simps) auto
    ultimately show ?thesis using Node.IH(1) [OF c(1) t(3)] by auto
  next
    case 3
    then have "seek (b_size h) n r ((False, rs, l) # c) = (c', u)" using Node.prems(3) t(2) by auto
    moreover have "pooladd_find h n par p = pooladd_find h n p (b_right h p)" using 3 p0 by (subst pooladd_find.simps) auto
    ultimately show ?thesis using Node.IH(2) [OF c(2) t(4)] by auto
  qed
qed

text \<open>What the other fields are: only the links of the tree, and the mark of a block added, change.\<close>

definition relinked :: "bheap \<Rightarrow> bheap \<Rightarrow> bool" where
  "relinked h h' \<longleftrightarrow> b_size h' = b_size h \<and> b_clink h' = b_clink h \<and> b_csize h' = b_csize h \<and> t_hdr h' = t_hdr h"

lemma tree_seek:
  assumes "tree h root 0 t"
  obtains c u p par where "seek (b_size h) n t [] = (c, u)" "ctx h root 0 c p par" "tree h p par u"
    "pooladd_find h n 0 root = Some (par, p)" "plug c u = t"
proof -
  obtain c u where s: "seek (b_size h) n t [] = (c, u)" by fastforce
  have "ctx h root 0 [] root 0" by simp
  from seek_find [OF this assms s] that s seek_plug [OF s] show ?thesis by auto
qed

lemma pooladd_ring:
  assumes "ctx h root 0 c p par" "tree h p par (Node l rs r)" "distinct (addrs (plug c (Node l rs r)))"
    and "q \<notin> set (addrs (plug c (Node l rs r)))" "q \<noteq> 0" "b_magic h q = MAGIC_F" "b_parent h q = 0" "b_size h q = b_size h p"
    and h': "h' = set_prev p q (set_fwd q p (set_fwd (b_prev h p) q (set_prev q (b_prev h p) h)))"
  shows "tree h' root 0 (plug c (Node l (rs @ [q]) r))"
proof -
  have n: "node h par rs" "p = hd rs" and ch: "tree h (b_left h p) p l" "tree h (b_right h p) p r" using assms(2) by auto
  have rg: "ring h rs" "distinct rs" "rs \<noteq> []" using n(1) by (auto simp: node_def ring_def)
  have lst: "b_prev h p = last rs" using rg(1,3) n(2) by (simp add: ring_iff)
  have d: "q \<notin> set rs" "q \<notin> set (addrs l)" "q \<notin> set (addrs r)" "q \<notin> set (caddrs c)"
    "set rs \<inter> set (addrs l) = {}" "set rs \<inter> set (addrs r) = {}" "set rs \<inter> set (caddrs c) = {}"
    using assms(3,4) unfolding distinct_plug set_plug by auto
  have mem: "p \<in> set rs" "last rs \<in> set rs" using rg(3) n(2) by simp_all
  have ag: "agree h h' A" if "q \<notin> A" "set rs \<inter> A = {}" for A
    using that mem unfolding h' lst agree_def by auto
  have hq: "hd (rs @ [q]) = hd rs" "tl (rs @ [q]) = tl rs @ [q]" using rg(3) by simp_all
  have "ring h' (rs @ [q])"
    by (rule ring_snoc [OF rg(1,2) d(1)]) (use mem d(1) lst n(2) in \<open>auto simp: h'\<close>)
  moreover have "b_parent h' = b_parent h" "b_size h' = b_size h" "b_magic h' = b_magic h" by (simp_all add: h')
  ultimately have "node h' par (rs @ [q])"
    using n assms(5-8) d(1) rg unfolding node_def hq by auto
  moreover have "b_left h' = b_left h" "b_right h' = b_right h" by (simp_all add: h')
  ultimately have "tree h' p par (Node l (rs @ [q]) r)"
    using n(2) hq(1) ch d ag by (auto intro!: tree_agree [of h])
  moreover have "ctx h' root 0 c p par" using assms(1) d ag by (auto intro!: ctx_agree [of h])
  ultimately show ?thesis unfolding tree_plug by blast
qed

lemma pooladd_leaf:
  assumes "ctx h root 0 c p par" "c \<noteq> []" "distinct (caddrs c)" "q \<notin> set (caddrs c)" "q \<noteq> 0" "b_magic h q = MAGIC_F"
    and "b_left h q = 0" "b_right h q = 0" "b_fwd h q = q" "b_prev h q = q" "fst (hd c) \<longleftrightarrow> b_size h q < b_size h par"
    and h': "h' = (let h = set_parent q par h in if b_size h q < b_size h par then set_left par q h else set_right par q h)"
  shows "tree h' root 0 (plug c (Node Leaf [q] Leaf))"
proof -
  have pq: "par \<noteq> q" using ctx_par [OF assms(1,2)] assms(4) by auto
  have "ctx h' root 0 c q par"
    by (rule ctx_refill [OF assms(1-3)]) (use assms(4,11) pq in \<open>auto simp: h' agree_def Let_def\<close>)
  moreover have "tree h' q par (Node Leaf [q] Leaf)"
    using assms(5-10) pq by (auto simp: h' node_def ring_iff Let_def)
  ultimately show ?thesis unfolding tree_plug by blast
qed

lemma pooladd_tree:
  assumes "free_tree h root t" "q \<notin> set (addrs t)" "q \<noteq> 0"
  shows "\<exists>h' root' t'. pooladd h root q = Some (h', root') \<and> free_tree h' root' t' \<and> set (addrs t') = insert q (set (addrs t)) \<and>
    relinked h h' \<and> b_magic h' = (b_magic h)(q := MAGIC_F)"
proof -
  define h0 where "h0 = pooladd_init q h"
  have q0: "b_magic h0 = (b_magic h)(q := MAGIC_F)" "b_left h0 q = 0" "b_right h0 q = 0" "b_parent h0 q = 0" "b_fwd h0 q = q" "b_prev h0 q = q"
    "b_size h0 = b_size h" "relinked h h0"
    by (simp_all add: h0_def pooladd_init_def relinked_def)
  have "agree h h0 (set (addrs t))" using assms(2) by (auto simp: h0_def pooladd_init_def agree_def)
  then have t0: "tree h0 root 0 t" using assms(1) tree_agree unfolding free_tree_def by blast
  have dist: "distinct (addrs t)" and bst: "bst (b_size h0) t" using assms(1) q0(7) by (simp_all add: free_tree_def)
  define t' where "t' = ins (b_size h0) q t"
  have t': "set (addrs t') = insert q (set (addrs t))" "bst (b_size h0) t'" "distinct (addrs t')"
    using bst_ins [OF bst] distinct_ins [OF dist assms(2)] by (simp_all add: t'_def)
  have "\<exists>h' root'. pooladd h root q = Some (h', root') \<and> tree h' root' 0 t' \<and> relinked h0 h' \<and> b_magic h' = b_magic h0"
  proof (cases "root = 0")
    case True
    then have "t = Leaf" using tree_null [OF t0] by simp
    then have "tree h0 q 0 t'" using q0 assms(3) by (auto simp: t'_def node_def ring_iff)
    then show ?thesis using True by (auto simp: pooladd_def h0_def [symmetric] relinked_def)
  next
    case False
    obtain c u p par where s: "seek (b_size h0) (b_size h0 q) t [] = (c, u)" "ctx h0 root 0 c p par" "tree h0 p par u"
        "pooladd_find h0 (b_size h0 q) 0 root = Some (par, p)" "plug c u = t"
      by (rule tree_seek [OF t0])
    have tp: "t' = plug c (ins (b_size h0) q u)" using ins_seek [OF s(1)] by (simp add: t'_def)
    show ?thesis
    proof (cases u)
      case Leaf
      then have p: "p = 0" using s(3) by simp
      have c: "c \<noteq> []" using s(2) p False by (cases c) auto
      have dir: "fst (hd c) \<longleftrightarrow> b_size h0 q < b_size h0 par"
        using seek_dir [OF s(1) _ c] s(2) c by (cases c) auto
      have "distinct (caddrs c)" "q \<notin> set (caddrs c)" using dist assms(2) s(5) Leaf distinct_plug [of c u] set_plug [of c u] by auto
      note new = pooladd_leaf [OF s(2) c this assms(3) _ q0(2,3,5,6) dir refl]
      show ?thesis using new q0(1) s(4) p False Leaf
        by (simp add: pooladd_def h0_def [symmetric] Let_def tp relinked_def)
    next
      case (Node l rs r)
      have p: "p \<noteq> 0" "p = hd rs" using tree_null [OF s(3)] s(3) Node by auto
      have sz: "b_size h0 q = b_size h0 p" using seek_hit s(1) Node p(2) by metis
      have d: "distinct (addrs (plug c (Node l rs r)))" "q \<notin> set (addrs (plug c (Node l rs r)))" using dist assms(2) s(5) Node by simp_all
      note new = pooladd_ring [OF s(2) s(3) [unfolded Node] d assms(3) _ q0(4) sz refl]
      show ?thesis using new q0(1) s(4) p False Node sz
        by (simp add: pooladd_def h0_def [symmetric] Let_def tp relinked_def)
    qed
  qed
  then show ?thesis using t' q0(1,7,8) by (auto simp: free_tree_def relinked_def)
qed

section \<open>Deletion\<close>

lemma plug_append: "plug (c @ d) t = plug d (plug c t)"
  by (induction c t rule: plug.induct) auto

lemma addr_node: "x \<in> set (addrs t) \<Longrightarrow> \<exists>c l rs r. t = plug c (Node l rs r) \<and> x \<in> set rs"
proof (induction t)
  case (Node l rs r)
  then consider "x \<in> set rs" | "x \<in> set (addrs l)" | "x \<in> set (addrs r)" by auto
  then show ?case
  proof cases
    case 1
    then show ?thesis by (metis plug.simps(1))
  next
    case 2
    then obtain c l' rs' r' where "l = plug c (Node l' rs' r')" "x \<in> set rs'" using Node.IH(1) by blast
    then have "Node l rs r = plug (c @ [(True, rs, r)]) (Node l' rs' r')" by (simp add: plug_append)
    then show ?thesis using \<open>x \<in> set rs'\<close> by blast
  next
    case 3
    then obtain c l' rs' r' where "r = plug c (Node l' rs' r')" "x \<in> set rs'" using Node.IH(2) by blast
    then have "Node l rs r = plug (c @ [(False, rs, l)]) (Node l' rs' r')" by (simp add: plug_append)
    then show ?thesis using \<open>x \<in> set rs'\<close> by blast
  qed
qed simp

lemma bst_plug_sub: "bst sz (plug c u) \<Longrightarrow> bst sz u"
  by (induction c u rule: plug.induct) (auto split: if_splits)

lemma bst_plug: "bst sz (plug c u) \<Longrightarrow> bst sz v \<Longrightarrow> set (addrs v) \<subseteq> set (addrs u) \<Longrightarrow> bst sz (plug c v)"
proof (induction c u arbitrary: v rule: plug.induct)
  case (2 lf rs w c t)
  have p: "bst sz (plug c (if lf then Node t rs w else Node w rs t))" using 2(2) by simp
  have "bst sz (if lf then Node v rs w else Node w rs v)" using bst_plug_sub [OF p] 2(3,4) by (cases lf) (simp, blast)+
  moreover have "set (addrs (if lf then Node v rs w else Node w rs v)) \<subseteq> set (addrs (if lf then Node t rs w else Node w rs t))"
    using 2(4) by (cases lf) auto
  ultimately show ?case using 2(1) [OF p] by simp
qed simp

lemma hd_tl_set: "rs \<noteq> [] \<Longrightarrow> x \<in> set rs \<Longrightarrow> x = hd rs \<or> x \<in> set (tl rs)"
  by (cases rs) auto

lemma bst_leftmost: "bst sz (plug c u) \<Longrightarrow> list_all fst c \<Longrightarrow> x \<in> set (addrs u) \<Longrightarrow> y \<in> set (caddrs c) \<Longrightarrow> sz x < sz y"
proof (induction c u rule: plug.induct)
  case (2 lf rs w c t)
  have lf: "lf" "list_all fst c" using 2(3) by auto
  have b: "bst sz (Node t rs w)" using 2(2) lf bst_plug_sub [of sz c "Node t rs w"] by simp
  consider "y \<in> set rs" | "y \<in> set (addrs w)" | "y \<in> set (caddrs c)" using 2(5) by auto
  then show ?case
  proof cases
    case 1
    then have "sz y = sz (hd rs)" using b hd_tl_set [of rs y] by auto
    then show ?thesis using b 2(4) by auto
  next
    case w: 2
    then have "sz x < sz (hd rs)" "sz (hd rs) < sz y" using b 2(4) by auto
    then show ?thesis by simp
  next
    case 3
    then show ?thesis using 2(1) [of] 2(2,4) lf by auto
  qed
qed simp

text \<open>The hole of a context gets a new subtree, and its parent or the root the pointer to it.\<close>

definition refilled :: "bheap \<Rightarrow> badr \<Rightarrow> bheap \<Rightarrow> badr \<Rightarrow> fctx \<Rightarrow> badr \<Rightarrow> badr \<Rightarrow> bool" where
  "refilled h root h' root' c par p' \<longleftrightarrow>
    (if c = [] then root' = p'
     else root' = root \<and> agree h h' (set (caddrs c) - {par}) \<and> b_magic h' par = b_magic h par \<and> b_size h' par = b_size h par \<and>
       b_prev h' par = b_prev h par \<and> b_fwd h' par = b_fwd h par \<and> b_parent h' par = b_parent h par \<and>
       (if fst (hd c) then b_left h' par = p' \<and> b_right h' par = b_right h par
        else b_right h' par = p' \<and> b_left h' par = b_left h par))"

lemma tree_refill:
  assumes "ctx h root 0 c p par" "distinct (caddrs c)" "refilled h root h' root' c par p'" "tree h' p' par u"
  shows "tree h' root' 0 (plug c u)"
proof (cases "c = []")
  case True
  then show ?thesis using assms(1,3,4) by (auto simp: refilled_def)
next
  case False
  then have "ctx h' root' 0 c p' par"
    using assms(3) unfolding refilled_def if_not_P [OF False] by (auto intro!: ctx_refill [OF assms(1) False assms(2)])
  then show ?thesis using assms(4) unfolding tree_plug by blast
qed

text \<open>Which pointer \<open>replace_child\<close> changes.\<close>

lemma ctx_child:
  assumes "ctx h root 0 c p par" "tree h p par u" "u \<noteq> Leaf" "distinct (addrs (plug c u))"
  shows "c = [] \<longleftrightarrow> par = 0" "c \<noteq> [] \<Longrightarrow> fst (hd c) \<longleftrightarrow> b_left h par = p" "par \<noteq> p"
proof -
  have p: "p \<noteq> 0" "p \<in> set (addrs u)" using tree_null [OF assms(2)] tree_root_in [OF assms(2)] assms(3) by auto
  have d: "set (addrs u) \<inter> set (caddrs c) = {}" using assms(4) by (simp add: distinct_plug)
  show "c = [] \<longleftrightarrow> par = 0" using assms(1) ctx_par [OF assms(1)] by (cases c) auto
  show "par \<noteq> p" using ctx_par [OF assms(1)] p d assms(1) by (cases "c = []") auto
  show "fst (hd c) \<longleftrightarrow> b_left h par = p" if ne: "c \<noteq> []"
  proof -
    obtain lf rs w c' where c: "c = (lf, rs, w) # c'" using ne by (cases c) auto
    have "p \<notin> set (addrs w)" using d c p(2) by auto
    then have "lf \<or> b_left h par \<noteq> p" using assms(1) c p(1) tree_root_in by fastforce
    then show ?thesis using assms(1) c by auto
  qed
qed

end
