(* ===== verification/Pool_Del.thy ===== *)
theory Pool_Del
  imports Pool_Tree
begin

text \<open>
  Deletion from the free tree of a memory pool: \<open>pooldel\<close> on a block in the middle of a ring, at the head
  of a ring, and alone in its node, where a node with two children is replaced by its successor.
\<close>

section \<open>A block inside a ring\<close>

lemma pooldel_ring:
  assumes "ctx h root 0 c p par" "tree h p par (Node l (as @ x # bs) r)" "as \<noteq> []"
    and "distinct (addrs (plug c (Node l (as @ x # bs) r)))"
  shows "tree (unlink x h) root 0 (plug c (Node l (as @ bs) r))"
proof -
  define rs where "rs = as @ x # bs"
  have n: "node h par rs" "p = hd as" and ch: "tree h (b_left h p) p l" "tree h (b_right h p) p r" using assms(2,3) by (auto simp: rs_def)
  have d: "distinct rs" "set rs \<inter> set (addrs l) = {}" "set rs \<inter> set (addrs r) = {}" "set rs \<inter> set (caddrs c) = {}"
    using assms(4) unfolding distinct_plug rs_def by auto
  have rg: "ring h (as @ x # bs)" using n(1) by (simp add: node_def rs_def)
  have io: "b_prev h x \<in> set rs" "b_fwd h x \<in> set rs"
    using rg assms(3) by (auto simp: ring_iff rs_def successively_append_iff successively_Cons split: if_splits)
  have same: "b_left (unlink x h) = b_left h" "b_right (unlink x h) = b_right h" "b_parent (unlink x h) = b_parent h"
    "b_size (unlink x h) = b_size h" "b_magic (unlink x h) = b_magic h"
    by (simp_all add: unlink_def Let_def)
  have pf: "b_prev (unlink x h) a = b_prev h a" "b_fwd (unlink x h) a = b_fwd h a" if "a \<notin> set rs" for a
    using that io by (auto simp: unlink_def Let_def rs_def)
  have ag: "agree h (unlink x h) A" if "set rs \<inter> A = {}" for A
    using that pf same unfolding agree_def by auto
  have "ring (unlink x h) (as @ bs)" by (rule ring_unlink [OF rg assms(3)]) (use d(1) rs_def in simp)
  moreover have "tl (as @ x # bs) = tl as @ x # bs" "hd (as @ x # bs) = hd as" "hd (as @ bs) = hd as" "tl (as @ bs) = tl as @ bs" using assms(3) by simp_all
  ultimately have "node (unlink x h) par (as @ bs)"
    using n(1) d(1) unfolding node_def rs_def same by auto
  then have "tree (unlink x h) p par (Node l (as @ bs) r)"
    using n(2) assms(3) ch d(2,3) ag same by (auto intro!: tree_agree [of h])
  moreover have "ctx (unlink x h) root 0 c p par" using assms(1) d(4) ag by (auto intro!: ctx_agree [of h])
  ultimately show ?thesis unfolding tree_plug by blast
qed

section \<open>The head of a ring\<close>

lemma pooldel_head_tree:
  assumes "ctx h root 0 c x par" "tree h x par (Node l (x # f # bs) r)" "distinct (addrs (plug c (Node l (x # f # bs) r)))"
    and "pooldel_head h root x = (h', root')"
  shows "tree h' root' 0 (plug c (Node l (f # bs) r)) \<and> relinked h h' \<and> b_magic h' = b_magic h"
proof -
  define u where "u = Node l (x # f # bs) r"
  note cc = ctx_child [OF assms(1) assms(2) _ assms(3)]
  have n: "node h par (x # f # bs)" and ch: "tree h (b_left h x) x l" "tree h (b_right h x) x r" using assms(2) by auto
  have rg: "ring h (x # f # bs)" using n by (simp add: node_def)
  have par: "b_parent h x = par" using n by (simp add: node_def)
  define z where "z = last (f # bs)"
  have fz: "b_fwd h x = f" "b_prev h x = z" using rg by (auto simp: ring_iff z_def)
  have z: "z \<in> set (f # bs)" using last_in_set [of "f # bs"] by (simp add: z_def)
  define ll where "ll = b_left h x"
  define rr where "rr = b_right h x"
  have d: "distinct (x # f # bs)" "set (x # f # bs) \<inter> set (addrs l) = {}" "set (x # f # bs) \<inter> set (addrs r) = {}" "set (addrs l) \<inter> set (addrs r) = {}"
    "set (x # f # bs) \<inter> set (caddrs c) = {}" "set (addrs l) \<inter> set (caddrs c) = {}" "set (addrs r) \<inter> set (caddrs c) = {}"
    "distinct (caddrs c)" "distinct (addrs l)" "distinct (addrs r)"
    using assms(3) unfolding distinct_plug by auto
  have lr: "ll = 0 \<or> ll \<in> set (addrs l)" "rr = 0 \<or> rr \<in> set (addrs r)" using ch tree_root_in by (auto simp: ll_def rr_def)
  have nr: "0 \<notin> set (x # f # bs)" using n by (simp add: node_def)
  have nz: "x \<noteq> 0" "f \<noteq> 0" "0 \<notin> set (addrs l)" "0 \<notin> set (addrs r)" using nr tree_addr_nonzero [OF ch(1)] tree_addr_nonzero [OF ch(2)] by auto
  have pc: "par = 0 \<or> par \<in> set (caddrs c)" using ctx_par [OF assms(1)] cc(1) by auto
  have pne: "par \<noteq> x" "par \<noteq> f" "par \<noteq> z" using pc d(5) z nr by auto
  note hs = pooldel_head_def replace_child_def adopt_def unlink_def Let_def
  have L: "b_left h' = (if par \<noteq> 0 \<and> b_left h par = x then (b_left h)(par := f) else b_left h)(f := ll)"
    using assms(4) pne d(1) fz par unfolding ll_def by (auto simp: hs split: prod.splits if_splits)
  have R: "b_right h' = (if par \<noteq> 0 \<and> b_left h par \<noteq> x then (b_right h)(par := f) else b_right h)(f := rr)"
    using assms(4) pne d(1) fz par unfolding rr_def by (auto simp: hs split: prod.splits if_splits)
  have P: "b_parent h' = (let P = (b_parent h)(f := par); P = (if ll \<noteq> 0 then P(ll := f) else P) in if rr \<noteq> 0 then P(rr := f) else P)"
    using assms(4) pne d(1) fz par unfolding ll_def rr_def by (auto simp: hs split: prod.splits if_splits)
  have unl: "b_fwd h' = b_fwd (unlink x h)" "b_prev h' = b_prev (unlink x h)"
    using assms(4) by (auto simp: hs split: prod.splits if_splits)
  have rest: "relinked h h'" "b_magic h' = b_magic h" "b_size h' = b_size h" "root' = (if par = 0 then f else root)"
    using assms(4) fz par by (auto simp: relinked_def hs split: prod.splits if_splits)
  have pf: "b_prev h' a = b_prev h a" "b_fwd h' a = b_fwd h a" if "a \<notin> set (x # f # bs)" for a
    using that z fz unfolding unl by (auto simp: unlink_def Let_def)
  have out: "a \<noteq> par" "a \<noteq> f" "a \<noteq> z" "a \<notin> set (x # f # bs)" if "a \<in> set (addrs l) \<or> a \<in> set (addrs r)" for a
    using that d z pc nz by auto
  have "node h' par (f # bs)"
  proof -
    have "ring h' (f # bs)" by (rule ring_cong [OF ring_drop_hd [OF rg d(1)]]) (simp add: unl)
    moreover have "b_parent h' f = par" "\<forall>y\<in>set bs. b_parent h' y = 0"
      using n d(1-3) lr nz by (auto simp: P Let_def node_def)
    ultimately show ?thesis using n d(1) rest by (auto simp: node_def)
  qed
  moreover have "tree h' ll f l"
    by (rule tree_reparent [OF ch(1) [folded ll_def] d(9)])
      (use out pf lr nz d rest L R P in \<open>auto simp: agree_def Let_def\<close>)
  moreover have "tree h' rr f r"
    by (rule tree_reparent [OF ch(2) [folded rr_def] d(10)])
      (use out pf lr nz d rest L R P in \<open>auto simp: agree_def Let_def\<close>)
  ultimately have "tree h' f par (Node l (f # bs) r)" using L R pne by simp
  moreover have "refilled h root h' root' c par f"
  proof (cases "c = []")
    case True
    then show ?thesis using cc(1) rest(4) by (simp add: refilled_def)
  next
    case False
    have o: "a \<noteq> f" "a \<noteq> ll" "a \<noteq> rr" "a \<notin> set (x # f # bs)" if "a \<in> set (caddrs c)" for a using that d lr nz ctx_nonzero [OF assms(1)] by auto
    have "par \<in> set (caddrs c)" "par \<noteq> 0" using ctx_par [OF assms(1) False] by auto
    then show ?thesis using False cc(2) [OF _ False] rest o pf unfolding refilled_def by (auto simp: agree_def L R P Let_def)
  qed
  ultimately show ?thesis using tree_refill [OF assms(1) d(8)] rest by blast
qed

section \<open>A block alone in its node\<close>

text \<open>
  The last steps are common to all cases: the node \<open>rp\<close>, or no node, takes the place of \<open>x\<close>. \<open>h1\<close> is the
  heap after the subtree at \<open>rp\<close> has been put together; it differs from \<open>h\<close> outside the context only.
\<close>

lemma take_place:
  assumes "ctx h root 0 c x par" "tree h x par (Node l rs r)" "distinct (addrs (plug c (Node l rs r)))"
    and h1: "agree h h1 (set (caddrs c))" "b_left h1 par = b_left h par" "tree h1 rp q u" "distinct (addrs u)"
      "set (addrs u) \<inter> set (caddrs c) = {}"
    and h': "replace_child x rp par h1 root = (h2, root')" "h' = adopt rp par h2"
  shows "tree h' root' 0 (plug c u)" and "relinked h1 h'" and "b_magic h' = b_magic h1"
proof -
  note cc = ctx_child [OF assms(1,2) _ assms(3)]
  have dc: "distinct (caddrs c)" using assms(3) by (simp add: distinct_plug)
  have rp: "rp = 0 \<or> rp \<in> set (addrs u)" using tree_root_in [OF h1(3)] by blast
  have pc: "par = 0 \<or> par \<in> set (caddrs c)" using ctx_par [OF assms(1)] cc(1) by auto
  have pne: "rp \<noteq> 0 \<Longrightarrow> par \<noteq> rp" using pc rp h1(5) by auto
  have root': "root' = (if par = 0 then rp else root)" using h' by (auto simp: replace_child_def split: if_splits)
  have F: "b_left h' = (if par \<noteq> 0 \<and> b_left h par = x then (b_left h1)(par := rp) else b_left h1)"
    "b_right h' = (if par \<noteq> 0 \<and> b_left h par \<noteq> x then (b_right h1)(par := rp) else b_right h1)"
    "b_parent h' = (if rp \<noteq> 0 then (b_parent h1)(rp := par) else b_parent h1)"
    "b_prev h' = b_prev h1" "b_fwd h' = b_fwd h1" "b_magic h' = b_magic h1" "b_size h' = b_size h1"
    using h' h1(2) by (auto simp: replace_child_def adopt_def split: if_splits)
  show "relinked h1 h'" "b_magic h' = b_magic h1"
    using h' by (auto simp: relinked_def replace_child_def adopt_def split: if_splits)
  have pu: "par \<notin> set (addrs u)" using pc h1(5) tree_addr_nonzero [OF h1(3)] by auto
  have "tree h' rp par u"
    by (rule tree_reparent [OF h1(3,4)]) (use pu pne in \<open>auto simp: F agree_def\<close>)
  moreover have "refilled h root h' root' c par rp"
  proof (cases "c = []")
    case True
    then show ?thesis using cc(1) root' by (simp add: refilled_def)
  next
    case False
    have p: "par \<in> set (caddrs c)" "par \<noteq> 0" using ctx_par [OF assms(1) False] by auto
    have o: "a \<noteq> rp" if "a \<in> set (caddrs c)" for a using that rp h1(5) ctx_nonzero [OF assms(1)] by auto
    have a: "agree h1 h' (set (caddrs c) - {par})" using o by (simp add: agree_def F)
    have "b_magic h1 par = b_magic h par" "b_size h1 par = b_size h par" "b_prev h1 par = b_prev h par" "b_fwd h1 par = b_fwd h par"
      "b_parent h1 par = b_parent h par" "b_right h1 par = b_right h par" using h1(1) p(1) by (simp_all add: agree_def)
    moreover have "agree h h' (set (caddrs c) - {par})" using a h1(1) by (simp add: agree_def)
    ultimately show ?thesis
      using False cc(2) [OF _ False] p root' h1(2) o [OF p(1)] unfolding refilled_def by (simp add: F)
  qed
  ultimately show "tree h' root' 0 (plug c u)" using tree_refill [OF assms(1) dc] by blast
qed

text \<open>The successor: the node at the end of the left spine of the right subtree.\<close>

lemma leftmost_ctx:
  assumes "ctx h root rpar c p par" "tree h p par t" "t \<noteq> Leaf" "list_all fst c"
  shows "\<exists>c' ms mr p' par'. plug c' (Node Leaf ms mr) = plug c t \<and> ctx h root rpar c' p' par' \<and>
    tree h p' par' (Node Leaf ms mr) \<and> leftmost h par p = Some (par', p') \<and> list_all fst c'"
  using assms
proof (induction t arbitrary: c p par)
  case (Node l rs r)
  have t: "node h par rs" "p = hd rs" "tree h (b_left h p) p l" "tree h (b_right h p) p r" using Node.prems(2) by auto
  show ?case
  proof (cases "l = Leaf")
    case True
    then have "leftmost h par p = Some (par, p)" using t(3) by (simp add: leftmost.simps)
    then show ?thesis using Node.prems True by blast
  next
    case False
    have "b_left h p \<noteq> 0" using tree_null [OF t(3)] False by simp
    then have lm: "leftmost h par p = leftmost h p (b_left h p)" by (simp add: leftmost.simps [of h par p])
    have "b_parent h p = par" using t(1,2) by (simp add: node_def)
    then have "ctx h root rpar ((True, rs, r) # c) (b_left h p) p" using t Node.prems(1) by simp
    from Node.IH(1) [OF this t(3) False] show ?thesis using Node.prems(4) lm by simp
  qed
qed simp

end
