(* ===== verification/Pool_Subst.thy ===== *)
theory Pool_Subst
  imports Pool_Del
begin

text \<open>
  Deletion of a node of the free tree, ended: the subtree that takes the place of a block alone in its
  node, and the theorem that \<open>pooldel\<close> deletes any block of the tree and nothing else.
\<close>

section \<open>The subtree that takes the place of a node\<close>

text \<open>
  What \<open>pooldel_subst\<close> gives for a node \<open>x\<close> with the children \<open>l\<close> and \<open>r\<close>: a subtree \<open>u\<close> at \<open>rp\<close> of the
  blocks of both, in order when the node was; no header outside the two children has changed.
\<close>

definition subst_ok :: "bheap \<Rightarrow> badr \<Rightarrow> ftree \<Rightarrow> ftree \<Rightarrow> bheap \<Rightarrow> badr \<Rightarrow> badr \<Rightarrow> ftree \<Rightarrow> bool" where
  "subst_ok h x l r h1 rp q u \<longleftrightarrow> pooldel_subst h x = Some (h1, rp) \<and> tree h1 rp q u \<and> distinct (addrs u) \<and>
    set (addrs u) = set (addrs l) \<union> set (addrs r) \<and> agree h h1 (- (set (addrs l) \<union> set (addrs r))) \<and>
    (bst (b_size h) (Node l [x] r) \<longrightarrow> bst (b_size h) u) \<and> relinked h h1 \<and> b_magic h1 = b_magic h"

lemma subst_leaf:
  assumes "tree h (b_left h x) x l" "tree h (b_right h x) x r" "distinct (addrs (Node l [x] r))" "l = Leaf \<or> r = Leaf"
  shows "\<exists>h1 rp q u. subst_ok h x l r h1 rp q u"
proof (cases "l = Leaf")
  case True
  then have "subst_ok h x l r h (b_right h x) x r"
    using assms by (simp add: subst_ok_def pooldel_subst_def agree_def relinked_def)
  then show ?thesis by blast
next
  case False
  then have "subst_ok h x l r h (b_left h x) x l"
    using assms tree_null [OF assms(1)] by (auto simp: subst_ok_def pooldel_subst_def agree_def relinked_def)
  then show ?thesis by blast
qed

lemma subst_right:
  assumes "tree h (b_left h x) x l" "tree h (b_right h x) x (Node Leaf ms mr)" "distinct (addrs (Node l [x] (Node Leaf ms mr)))" "l \<noteq> Leaf"
    "leftmost h x (b_right h x) = Some (x, b_right h x)"
  shows "\<exists>h1 rp q u. subst_ok h x l (Node Leaf ms mr) h1 rp q u"
proof -
  define s where "s = b_left h x"
  define m where "m = b_right h x"
  define h1 where "h1 = set_parent s m (set_left m s h)"
  have s: "s \<noteq> 0" "s \<in> set (addrs l)" using tree_null [OF assms(1)] tree_root_in [OF assms(1)] assms(4) by (simp_all add: s_def)
  have m: "m \<noteq> 0" "m = hd ms" "node h x ms" "m \<in> set ms" "tree h (b_right h m) m mr"
    using tree_null [OF assms(2)] assms(2) node_nonempty by (auto simp: m_def)
  have d: "s \<notin> set ms" "s \<notin> set (addrs mr)" "m \<notin> set (addrs l)" "m \<notin> set (addrs mr)" using assms(3) s m(4) by auto
  have tl: "set (tl ms) \<subseteq> set ms" by (rule set_tl)
  have "node h1 x ms"
    by (rule node_cong [OF m(3)]) (use d m tl in \<open>auto simp: h1_def node_def\<close>)
  moreover have "tree h1 s m l"
    by (rule tree_reparent [OF assms(1) [folded s_def]]) (use assms(3) d s m(1) in \<open>auto simp: h1_def agree_def\<close>)
  moreover have "tree h1 (b_right h m) m mr"
    by (rule tree_agree [OF m(5)]) (use d in \<open>auto simp: h1_def agree_def\<close>)
  moreover have "b_left h1 m = s" "b_right h1 m = b_right h m" by (simp_all add: h1_def)
  ultimately have "tree h1 m x (Node l ms mr)" using m(2) by simp
  moreover have "pooldel_subst h x = Some (h1, m)"
    using s m(1) assms(5) by (simp add: pooldel_subst_def h1_def Let_def s_def [symmetric] m_def [symmetric])
  moreover have "agree h h1 (- (set (addrs l) \<union> set ms))" using s m(4) by (auto simp: h1_def agree_def)
  moreover have "bst (b_size h) (Node l ms mr)" if b: "bst (b_size h) (Node l [x] (Node Leaf ms mr))"
  proof -
    have "b_size h y < b_size h (hd ms)" if "y \<in> set (addrs l)" for y
      using b that m(2,4) by (auto intro: less_trans [of _ "b_size h x"])
    then show ?thesis using b by simp
  qed
  ultimately have "subst_ok h x l (Node Leaf ms mr) h1 m x (Node l ms mr)"
    using assms(3) by (auto simp: subst_ok_def relinked_def h1_def agree_def)
  then show ?thesis by blast
qed

text \<open>The successor further down the left spine: the subtree without it, in the heap before the last links are set.\<close>

lemma spine_refill:
  assumes "ctx h r0 x c m f" "c \<noteq> []" "list_all fst c" "tree h m f (Node Leaf ms mr)" "distinct (addrs (plug c (Node Leaf ms mr)))"
    and hA: "hA = adopt (b_right h m) f (set_left f (b_right h m) h)"
  shows "tree hA r0 x (plug c mr)" "agree h hA (- (set (caddrs c) \<union> set (addrs mr)))" "b_right hA = b_right h" "f \<noteq> m"
proof -
  define s where "s = b_right h m"
  have t: "node h f ms" "m = hd ms" "tree h s m mr" using assms(4) by (auto simp: s_def)
  have m: "m \<in> set ms" using node_nonempty [OF t(1)] t(2) by simp
  have d: "distinct (addrs mr)" "distinct (caddrs c)" "set ms \<inter> set (addrs mr) = {}" "set (addrs mr) \<inter> set (caddrs c) = {}" "set ms \<inter> set (caddrs c) = {}"
    using assms(5) unfolding distinct_plug by auto
  have f: "f \<in> set (caddrs c)" "f \<noteq> 0" using ctx_par [OF assms(1,2)] by auto
  have s: "s \<noteq> 0 \<Longrightarrow> s \<in> set (addrs mr)" using tree_root_in [OF t(3)] by blast
  have sc: "s \<notin> set (caddrs c) \<or> s = 0" using s d(4) by auto
  have F: "b_left hA = (b_left h)(f := s)" "b_parent hA = (if s \<noteq> 0 then (b_parent h)(s := f) else b_parent h)"
    "b_right hA = b_right h" "b_prev hA = b_prev h" "b_fwd hA = b_fwd h" "b_magic hA = b_magic h" "b_size hA = b_size h"
    by (simp_all add: hA adopt_def s_def)
  show "b_right hA = b_right h" by (rule F)
  show "f \<noteq> m" using f(1) m d(5) by auto
  show "agree h hA (- (set (caddrs c) \<union> set (addrs mr)))" using f(1) s by (auto simp: F agree_def)
  have nz: "0 \<notin> set (caddrs c)" by (rule ctx_nonzero [OF assms(1)])
  have fs: "f \<noteq> s" using f sc by auto
  have lf: "fst (hd c)" using assms(2,3) by (cases c) auto
  have "ctx hA r0 x c s f"
    by (rule ctx_refill [OF assms(1,2) d(2)]) (use lf fs sc nz f in \<open>auto simp: F agree_def\<close>)
  moreover have "tree hA s f mr"
    by (rule tree_reparent [OF t(3) d(1)]) (use fs f d(4) in \<open>auto simp: F agree_def\<close>)
  ultimately show "tree hA r0 x (plug c mr)" unfolding tree_plug by blast
qed

lemma ctx_root_in: "ctx h root rpar c p par \<Longrightarrow> c \<noteq> [] \<Longrightarrow> root \<in> set (caddrs c)"
proof (induction h root rpar c p par rule: ctx.induct)
  case (2 h root rpar lf rs u c p par)
  have n: "node h (b_parent h par) rs" "par = hd rs" "ctx h root rpar c par (b_parent h par)" using 2(2) unfolding ctx.simps by blast+
  show ?case using node_nonempty [OF n(1)] n(2,3) 2(1) [OF n(3)] by (cases "c = []") auto
qed simp

lemma bst_succ:
  assumes "bst sz (Node l [x] (plug c (Node Leaf ms mr)))" "list_all fst c"
  shows "bst sz (Node l ms (plug c mr))"
proof -
  have b: "bst sz (plug c (Node Leaf ms mr))" "bst sz l" using assms(1) by simp_all
  have m: "bst sz (Node Leaf ms mr)" by (rule bst_plug_sub [OF b(1)])
  have hd: "hd ms \<in> set ms" using m by simp
  have "bst sz (plug c mr)" by (rule bst_plug [OF b(1)]) (use m in auto)
  moreover have "sz (hd ms) < sz y" if "y \<in> set (addrs (plug c mr))" for y
    using that m hd bst_leftmost [OF b(1) assms(2), of "hd ms" y] by (auto simp: set_plug)
  moreover have "sz y < sz (hd ms)" if "y \<in> set (addrs l)" for y
    using that assms(1) hd by (auto simp: set_plug intro: less_trans [of _ "sz x"])
  ultimately show ?thesis using m b(2) by simp
qed

lemma subst_spine:
  assumes "tree h (b_left h x) x l" "ctx h (b_right h x) x c m f" "tree h m f (Node Leaf ms mr)"
    "distinct (addrs (Node l [x] (plug c (Node Leaf ms mr))))" "l \<noteq> Leaf" "c \<noteq> []" "list_all fst c" "x \<noteq> 0"
    "b_right h x \<noteq> 0" "leftmost h x (b_right h x) = Some (f, m)"
  shows "\<exists>h1 rp q u. subst_ok h x l (plug c (Node Leaf ms mr)) h1 rp q u"
proof -
  define s where "s = b_left h x"
  define r0 where "r0 = b_right h x"
  define hA where "hA = adopt (b_right h m) f (set_left f (b_right h m) h)"
  define hB where "hB = set_parent r0 m (set_right m r0 hA)"
  define h1 where "h1 = set_parent s m (set_left m s hB)"
  let ?C = "set (caddrs c)"
  have dr: "distinct (addrs (plug c (Node Leaf ms mr)))" using assms(4) by simp
  have d: "distinct (addrs l)" "distinct ms" "distinct (addrs mr)" "set ms \<inter> set (addrs mr) = {}" "set ms \<inter> ?C = {}" "set (addrs mr) \<inter> ?C = {}"
    "set (addrs l) \<inter> (set ms \<union> set (addrs mr) \<union> ?C) = {}" "x \<notin> set (addrs l)" "x \<notin> set ms \<union> set (addrs mr) \<union> ?C"
    "distinct (addrs (plug c mr))"
    using assms(4) by (auto simp: distinct_plug set_plug)
  note A = spine_refill [OF assms(2,6,7,3) dr hA_def, folded r0_def]
  have s: "s \<noteq> 0" "s \<in> set (addrs l)" using tree_null [OF assms(1)] tree_root_in [OF assms(1)] assms(5) by (simp_all add: s_def)
  have t: "node h f ms" "m = hd ms" "m \<in> set ms" using assms(3) node_nonempty by auto
  have f: "f \<in> ?C" "f \<noteq> x" using ctx_par [OF assms(2,6)] d(9) by auto
  have r0: "r0 \<in> ?C" using ctx_root_in [OF assms(2,6)] by (simp add: r0_def)
  have xm: "x \<noteq> m" using t(3) d(9) by auto
  have h1f: "b_left h1 = (b_left hA)(m := s)" "b_right h1 = (b_right hA)(m := r0)" "b_parent h1 = (b_parent hA)(r0 := m, s := m)"
    "b_prev h1 = b_prev hA" "b_fwd h1 = b_fwd hA" "b_magic h1 = b_magic hA" "b_size h1 = b_size hA"
    by (simp_all add: h1_def hB_def)
  have ne: "s \<noteq> r0" "m \<noteq> r0" "s \<noteq> m" using s(2) r0 t(3) d by auto
  have hA: "agree h hA (set ms)" "agree h hA (set (addrs l))" using A(2) d by (auto elim!: agreeD)
  have "node hA f ms" by (rule node_agree [OF t(1) hA(1)])
  then have "node h1 f ms"
    by (rule node_cong) (use t(2,3) s(2) r0 d set_tl [of ms] hA(1) t(1) in \<open>auto simp: h1f agree_def node_def\<close>)
  moreover have "tree h1 s m l"
    by (rule tree_reparent [OF tree_agree [OF assms(1) [folded s_def] hA(2)] d(1)]) (use d ne t(3) r0 in \<open>auto simp: h1f agree_def\<close>)
  moreover have "tree h1 r0 m (plug c mr)"
    by (rule tree_reparent [OF A(1) d(10)]) (use d ne t(3) s(2) in \<open>auto simp: h1f agree_def set_plug\<close>)
  ultimately have "tree h1 m f (Node l ms (plug c mr))" using t(2) by (simp add: h1f)
  moreover have "pooldel_subst h x = Some (h1, m)"
    using s assms(9,10) f(2) ne xm
    by (simp add: pooldel_subst_def Let_def h1_def hB_def hA_def s_def [symmetric] r0_def [symmetric] adopt_def)
  moreover have "agree h h1 (- (set (addrs l) \<union> (set ms \<union> set (addrs mr) \<union> ?C)))"
    using A(2) s(2) t(3) r0 by (auto simp: h1f agree_def)
  moreover have "relinked h h1" "b_magic h1 = b_magic h" by (auto simp: relinked_def h1_def hB_def hA_def adopt_def)
  ultimately have "subst_ok h x l (plug c (Node Leaf ms mr)) h1 m f (Node l ms (plug c mr))"
    using d bst_succ [OF _ assms(7)] by (auto simp: subst_ok_def set_plug distinct_plug Un_ac)
  then show ?thesis by blast
qed

text \<open>The three cases together.\<close>

lemma pooldel_subst_ok:
  assumes "tree h (b_left h x) x l" "tree h (b_right h x) x r" "distinct (addrs (Node l [x] r))" "x \<noteq> 0"
  shows "\<exists>h1 rp q u. subst_ok h x l r h1 rp q u"
proof (cases "l = Leaf \<or> r = Leaf")
  case True
  then show ?thesis by (rule subst_leaf [OF assms(1-3)])
next
  case False
  then have ne: "l \<noteq> Leaf" "r \<noteq> Leaf" by auto
  have "ctx h (b_right h x) x [] (b_right h x) x" by simp
  from leftmost_ctx [OF this assms(2) ne(2)] obtain c ms mr m f where r: "r = plug c (Node Leaf ms mr)"
    and c: "ctx h (b_right h x) x c m f" "tree h m f (Node Leaf ms mr)" "leftmost h x (b_right h x) = Some (f, m)" "list_all fst c"
    by auto
  have r0: "b_right h x \<noteq> 0" using tree_null [OF assms(2)] ne(2) by simp
  show ?thesis
  proof (cases "c = []")
    case True
    then show ?thesis using subst_right [OF assms(1)] assms(2,3) ne(1) c r by auto
  next
    case False
    then show ?thesis using subst_spine [OF assms(1) c(1,2) _ ne(1) False c(4) assms(4) r0 c(3)] assms(3) r by auto
  qed
qed

lemma pooldel_single:
  assumes "ctx h root 0 c x par" "tree h x par (Node l [x] r)" "distinct (addrs (plug c (Node l [x] r)))"
  shows "\<exists>h' root' u. pooldel h root x = Some (h', root') \<and> tree h' root' 0 (plug c u) \<and> distinct (addrs u) \<and>
    set (addrs u) = set (addrs l) \<union> set (addrs r) \<and> (bst (b_size h) (Node l [x] r) \<longrightarrow> bst (b_size h) u) \<and> relinked h h' \<and> b_magic h' = b_magic h"
proof -
  have n: "node h par [x]" and ch: "tree h (b_left h x) x l" "tree h (b_right h x) x r" using assms(2) by auto
  have x: "x \<noteq> 0" "b_fwd h x = x" "b_parent h x = par" using n by (auto simp: node_def ring_iff)
  have d: "distinct (addrs (Node l [x] r))" using assms(3) unfolding distinct_plug by simp
  obtain h1 rp q u where S: "subst_ok h x l r h1 rp q u" using pooldel_subst_ok [OF ch d x(1)] by blast
  then have S': "pooldel_subst h x = Some (h1, rp)" "tree h1 rp q u" "distinct (addrs u)" "set (addrs u) = set (addrs l) \<union> set (addrs r)"
    "agree h h1 (- (set (addrs l) \<union> set (addrs r)))" "relinked h h1" "b_magic h1 = b_magic h" by (simp_all add: subst_ok_def)
  obtain h2 root' where rc: "replace_child x rp par h1 root = (h2, root')" by fastforce
  have dj: "(set (addrs l) \<union> set (addrs r)) \<inter> set (caddrs c) = {}" "x \<notin> set (addrs l) \<union> set (addrs r)" using assms(3) unfolding distinct_plug by auto
  note cc = ctx_child [OF assms(1,2) _ assms(3)]
  have "par \<notin> set (addrs l) \<union> set (addrs r)"
    using ctx_par [OF assms(1)] cc(1) dj tree_addr_nonzero [OF ch(1)] tree_addr_nonzero [OF ch(2)] by (cases "c = []") auto
  then have "agree h h1 (set (caddrs c))" "b_left h1 par = b_left h par" "b_parent h1 x = par"
    using S'(5) dj x(3) by (auto simp: agree_def)
  note T = take_place [OF assms this(1,2) S'(2,3) _ rc refl]
  have "\<not> (b_parent h x = 0 \<and> root \<noteq> x)" using x(3) cc(1) assms(1) by (cases "c = []") auto
  then have "pooldel h root x = Some (adopt rp par h2, root')"
    using x(2) S'(1) rc \<open>b_parent h1 x = par\<close> by (auto simp: pooldel_def)
  then show ?thesis using T S S' dj by (auto simp: relinked_def subst_ok_def)
qed

section \<open>Deletion of any block\<close>

lemma bst_ring: "bst sz (Node l rs r) \<Longrightarrow> rs' \<noteq> [] \<Longrightarrow> set rs' \<subseteq> set rs \<Longrightarrow> bst sz (Node l rs' r)"
proof -
  assume b: "bst sz (Node l rs r)" and ne: "rs' \<noteq> []" and sub: "set rs' \<subseteq> set rs"
  have e: "sz y = sz (hd rs)" if "y \<in> set rs'" for y using b sub that hd_tl_set [of rs y] by auto
  have h: "sz (hd rs') = sz (hd rs)" using e ne by simp
  have "sz y = sz (hd rs)" if "y \<in> set (tl rs')" for y by (rule e [OF subsetD [OF set_tl that]])
  then show ?thesis using b ne h by simp
qed

lemma pooldel_node:
  assumes "ctx h root 0 c p par" "tree h p par (Node l rs r)" "distinct (addrs (plug c (Node l rs r)))" "x \<in> set rs"
  shows "\<exists>h' root' u. pooldel h root x = Some (h', root') \<and> tree h' root' 0 (plug c u) \<and> distinct (addrs u) \<and>
    set (addrs u) = set (addrs (Node l rs r)) - {x} \<and> (bst (b_size h) (Node l rs r) \<longrightarrow> bst (b_size h) u) \<and> relinked h h' \<and> b_magic h' = b_magic h"
proof -
  have n: "node h par rs" "p = hd rs" using assms(2) by auto
  have d: "distinct (addrs (Node l rs r))" using assms(3) unfolding distinct_plug by simp
  obtain as bs where rs: "rs = as @ x # bs" using split_list [OF assms(4)] by blast
  note cc = ctx_child [OF assms(1,2) _ assms(3)]
  consider "as \<noteq> []" | "as = []" "bs = []" | f bs' where "as = []" "bs = f # bs'" by (cases bs) auto
  then show ?thesis
  proof cases
    case 1
    have "x \<in> set (tl rs)" using 1 rs by (cases as) auto
    then have "b_parent h x = 0" using n(1) by (simp add: node_def)
    moreover have "root \<noteq> x"
    proof (cases "c = []")
      case True
      then show ?thesis using assms(1) n(2) rs d 1 by (cases as) auto
    next
      case False
      then show ?thesis using ctx_root_in [OF assms(1) False] assms(3,4) unfolding distinct_plug by auto
    qed
    ultimately have "pooldel h root x = Some (unlink x h, root)" by (simp add: pooldel_def)
    moreover have "tree (unlink x h) root 0 (plug c (Node l (as @ bs) r))"
      by (rule pooldel_ring [OF assms(1) _ 1]) (use assms(2,3) rs in auto)
    moreover have "bst (b_size h) (Node l rs r) \<Longrightarrow> bst (b_size h) (Node l (as @ bs) r)" by (erule bst_ring) (use 1 rs in auto)
    moreover have "relinked h (unlink x h)" "b_magic (unlink x h) = b_magic h" by (simp_all add: relinked_def unlink_def Let_def)
    moreover have "set (addrs (Node l (as @ bs) r)) = set (addrs (Node l rs r)) - {x}" "distinct (addrs (Node l (as @ bs) r))"
      using d unfolding rs by auto
    ultimately show ?thesis by blast
  next
    case w: 2
    then have "p = x" using n(2) rs by simp
    then have "\<exists>h' root' u. pooldel h root x = Some (h', root') \<and> tree h' root' 0 (plug c u) \<and> distinct (addrs u) \<and>
      set (addrs u) = set (addrs l) \<union> set (addrs r) \<and> (bst (b_size h) (Node l [x] r) \<longrightarrow> bst (b_size h) u) \<and> relinked h h' \<and> b_magic h' = b_magic h"
      using assms(1-3) w rs by (intro pooldel_single) auto
    moreover have "set (addrs (Node l rs r)) - {x} = set (addrs l) \<union> set (addrs r)" using d w rs by auto
    ultimately show ?thesis using w rs by simp
  next
    case 3
    have e: "rs = x # f # bs'" "p = x" using 3 rs n(2) by auto
    obtain h' root' where H: "pooldel_head h root x = (h', root')" by fastforce
    note T = pooldel_head_tree [OF assms(1-3) [unfolded e] H]
    have r: "ring h (x # f # bs')" using n(1) e by (simp add: node_def)
    have "b_fwd h x \<noteq> x" using r d e by (auto simp: ring_iff)
    moreover have "\<not> (b_parent h x = 0 \<and> root \<noteq> x)" using n cc(1) assms(1) e by (cases "c = []") (auto simp: node_def)
    ultimately have "pooldel h root x = Some (h', root')" using H by (auto simp: pooldel_def)
    moreover have "bst (b_size h) (Node l rs r) \<Longrightarrow> bst (b_size h) (Node l (f # bs') r)" by (erule bst_ring) (use e in auto)
    ultimately show ?thesis using T d e
      by - (rule exI [of _ h'], rule exI [of _ root'], rule exI [of _ "Node l (f # bs') r"], auto)
  qed
qed

lemma pooldel_tree:
  assumes "free_tree h root t" "x \<in> set (addrs t)"
  shows "\<exists>h' root' t'. pooldel h root x = Some (h', root') \<and> free_tree h' root' t' \<and> set (addrs t') = set (addrs t) - {x} \<and>
    relinked h h' \<and> b_magic h' = b_magic h"
proof -
  obtain c l rs r where t: "t = plug c (Node l rs r)" "x \<in> set rs" using addr_node [OF assms(2)] by blast
  have f: "tree h root 0 (plug c (Node l rs r))" "bst (b_size h) (plug c (Node l rs r))" "distinct (addrs (plug c (Node l rs r)))"
    using assms(1) t by (auto simp: free_tree_def)
  obtain p par where c: "ctx h root 0 c p par" "tree h p par (Node l rs r)" using f(1) unfolding tree_plug by blast
  obtain h' root' u where D: "pooldel h root x = Some (h', root')" "tree h' root' 0 (plug c u)" "distinct (addrs u)"
      "set (addrs u) = set (addrs (Node l rs r)) - {x}" "bst (b_size h) (Node l rs r) \<longrightarrow> bst (b_size h) u" "relinked h h'" "b_magic h' = b_magic h"
    using pooldel_node [OF c f(3) t(2)] by blast
  have "bst (b_size h) (plug c u)" by (rule bst_plug [OF f(2)]) (use D(4,5) bst_plug_sub [OF f(2)] in auto)
  moreover have "distinct (addrs (plug c u))" using f(3) D(3,4) unfolding distinct_plug by auto
  moreover have "set (addrs (plug c u)) = set (addrs t) - {x}" using D(4) t(2) f(3) unfolding distinct_plug t(1) set_plug by auto
  ultimately show ?thesis using D(1,2,6,7) by - (rule exI [of _ h'], rule exI [of _ root'], rule exI [of _ "plug c u"], auto simp: free_tree_def relinked_def)
qed

end
