(* ===== verification/Pool.thy ===== *)
theory Pool
  imports Pool_Subst
begin

text \<open>
  The memory pools of \<^verbatim>\<open>src/emu/port/alloc.c\<close>: arenas of boundary-tagged blocks, with the free ones in the
  tree of \<open>Pool_Tree\<close>. This theory has the operations. \<open>None\<close> is a call that does not return: a loop that
  goes on for ever, or \<open>poolfault\<close> and \<open>panic\<close>, which end the process. The pool's lock is held by one
  process at a time and is not in the model; nor are the monitor calls \<open>MM\<close> and \<open>ML\<close>, which do nothing
  until \<open>memmonitor\<close> is set.
\<close>

unbundle bit_operations_syntax

section \<open>The state\<close>

text \<open>
  \<open>struct Pool\<close> with the memory it manages: the headers, the data bytes, the pointer of the garbage
  collector's sweep (\<open>ptr\<close> of \<^verbatim>\<open>libinterp/gc.c\<close>), and the regions the host system has mapped for it.
\<close>

record pool =
  p_name :: string
  p_mem :: bheap
  p_data :: "nat \<Rightarrow> byte"
  p_maxsize :: nat
  p_quanta :: nat
  p_chunk :: nat
  p_ressize :: nat
  p_cursize :: nat
  p_arenasize :: nat
  p_hw :: nat
  p_root :: badr
  p_chain :: badr
  p_nalloc :: nat
  p_nfree :: nat
  p_nbrk :: nat
  p_lastfree :: nat
  p_move :: bool
  p_ptr :: badr
  p_maps :: "(nat \<times> nat) list"

text \<open>
  The host's \<open>mmap\<close>: what it answers for a length, when the given regions are mapped. It is a parameter.
\<close>

type_synonym host_mmap = "(nat \<times> nat) list \<Rightarrow> nat \<Rightarrow> badr option"

definition hdr_size :: nat where "hdr_size = 32"
definition tail_size :: nat where "tail_size = 8"
definition BHDRSIZE :: nat where "BHDRSIZE = hdr_size + tail_size"
definition RESERVED :: nat where "RESERVED = 512 * 1024"

definition B2D :: "badr \<Rightarrow> badr" where "B2D b = b + hdr_size"
definition B2NB :: "bheap \<Rightarrow> badr \<Rightarrow> badr" where "B2NB h b = b + b_size h b"
definition B2PT :: "badr \<Rightarrow> badr" where "B2PT b = b - tail_size"
definition B2T :: "bheap \<Rightarrow> badr \<Rightarrow> badr" where "B2T h b = b + b_size h b - tail_size"
definition B2LIMIT :: "bheap \<Rightarrow> badr \<Rightarrow> badr" where "B2LIMIT h b = b + b_csize h b"

definition in_use :: "bheap \<Rightarrow> badr \<Rightarrow> bool" where
  "in_use h b \<longleftrightarrow> b_magic h b = MAGIC_A \<or> b_magic h b = MAGIC_I"

text \<open>\<open>Balign\<close> before the data is the last word of the header, the one \<open>reallocpc\<close> has.\<close>

definition D2B :: "bheap \<Rightarrow> badr \<Rightarrow> badr option" where
  "D2B h v =
    (let b = v - hdr_size in
     if in_use h b then Some b
     else let b = b_reallocpc h b in if in_use h b then Some b else None)"

definition set_tail :: "badr \<Rightarrow> bheap \<Rightarrow> bheap" where
  "set_tail b h = h\<lparr>t_hdr := (t_hdr h)(B2T h b := b)\<rparr>"

definition set_clink :: "badr \<Rightarrow> badr \<Rightarrow> bheap \<Rightarrow> bheap" where "set_clink a x h = h\<lparr>b_clink := (b_clink h)(a := x)\<rparr>"
definition set_csize :: "badr \<Rightarrow> nat \<Rightarrow> bheap \<Rightarrow> bheap" where "set_csize a x h = h\<lparr>b_csize := (b_csize h)(a := x)\<rparr>"

definition on_mem :: "(bheap \<Rightarrow> bheap) \<Rightarrow> pool \<Rightarrow> pool" where "on_mem f p = p\<lparr>p_mem := f (p_mem p)\<rparr>"

text \<open>\<open>x & ~q\<close>\<close>

definition and_not :: "nat \<Rightarrow> nat \<Rightarrow> nat" where "and_not n q = nat (int n AND NOT (int q))"

definition pool_del :: "pool \<Rightarrow> badr \<Rightarrow> pool option" where
  "pool_del p t = map_option (\<lambda>(h, root). p\<lparr>p_mem := h, p_root := root\<rparr>) (pooldel (p_mem p) (p_root p) t)"

definition pool_add :: "pool \<Rightarrow> badr \<Rightarrow> pool option" where
  "pool_add p q = map_option (\<lambda>(h, root). p\<lparr>p_mem := h, p_root := root\<rparr>) (pooladd (p_mem p) (p_root p) q)"

section \<open>poolfree\<close>

definition join_forward :: "pool \<Rightarrow> badr \<Rightarrow> pool option" where
  "join_forward p b =
    (let c = B2NB (p_mem p) b in
     if b_magic (p_mem p) c = MAGIC_F then
       let p = (if c = p_ptr p then p\<lparr>p_ptr := b\<rparr> else p) in
       case pool_del p c of
         None \<Rightarrow> None
       | Some p \<Rightarrow>
           let h = set_magic c 0 (p_mem p); h = set_size b (b_size h b + b_size h c) h
           in Some (p\<lparr>p_mem := set_tail b h\<rparr>)
     else Some p)"

definition join_backward :: "pool \<Rightarrow> badr \<Rightarrow> (pool \<times> badr) option" where
  "join_backward p b =
    (let c = t_hdr (p_mem p) (B2PT b) in
     if b_magic (p_mem p) c = MAGIC_F then
       let p = (if b = p_ptr p then p\<lparr>p_ptr := c\<rparr> else p) in
       case pool_del p c of
         None \<Rightarrow> None
       | Some p \<Rightarrow>
           let h = set_magic b 0 (p_mem p); h = set_size c (b_size h c + b_size h b) h
           in Some (p\<lparr>p_mem := set_tail c h\<rparr>, c)
     else Some (p, b))"

definition poolfree :: "pool \<Rightarrow> badr \<Rightarrow> pool option" where
  "poolfree p v =
    (case D2B (p_mem p) v of
       None \<Rightarrow> None
     | Some b \<Rightarrow>
         let p = p\<lparr>p_nfree := p_nfree p + 1, p_cursize := p_cursize p - b_size (p_mem p) b\<rparr> in
         case join_forward p b of
           None \<Rightarrow> None
         | Some p \<Rightarrow>
             case join_backward p b of
               None \<Rightarrow> None
             | Some (p, b) \<Rightarrow> pool_add p b)"

section \<open>poolcompact\<close>

text \<open>
  \<open>memmove\<close> of a block takes its header, its data and its trailer, whose pointer stays the one to the old
  place. What \<open>pool->move\<close> does is outside the pool.
\<close>

definition move_block :: "badr \<Rightarrow> badr \<Rightarrow> pool \<Rightarrow> pool" where
  "move_block e b p =
    (let h = p_mem p; n = b_size h b in
     p\<lparr>p_mem := h\<lparr>b_magic := (b_magic h)(e := b_magic h b), b_size := (b_size h)(e := n),
         b_allocpc := (b_allocpc h)(e := b_allocpc h b), b_reallocpc := (b_reallocpc h)(e := b_reallocpc h b),
         t_hdr := (t_hdr h)(e + n - tail_size := t_hdr h (b + n - tail_size))\<rparr>,
       p_data := (\<lambda>a. if e + hdr_size \<le> a \<and> a < e + n - tail_size then p_data p (b + (a - e)) else p_data p a)\<rparr>)"

text \<open>The rest of an arena after the blocks moved to its start; \<open>abort\<close> when it is smaller than a block.\<close>

definition compact_rest :: "pool \<Rightarrow> badr \<Rightarrow> badr \<Rightarrow> pool option" where
  "compact_rest p e limit =
    (if e < limit then
       if limit - e < p_quanta p + 1 then None
       else pool_add (on_mem (\<lambda>h. set_tail e (set_size e (limit - e) h)) p) e
     else Some p)"

partial_function (option) compact_loop :: "pool \<Rightarrow> badr \<Rightarrow> badr \<Rightarrow> badr \<Rightarrow> badr \<Rightarrow> bool \<Rightarrow> (pool \<times> bool) option" where
  "compact_loop p base limit b e compacted =
    (let nxt = B2NB (p_mem p) b;
         (p, e, compacted) =
           (if in_use (p_mem p) b then
              let (p, compacted) = (if b \<noteq> e then (move_block e b p, True) else (p, compacted))
              in (p, B2NB (p_mem p) e, compacted)
            else (p, e, compacted))
     in if nxt \<ge> limit then
          case compact_rest p e limit of
            None \<Rightarrow> None
          | Some p \<Rightarrow>
              let base = b_clink (p_mem p) base in
              if base = 0 then Some (p, compacted)
              else let b = B2NB (p_mem p) base in compact_loop p base (B2LIMIT (p_mem p) base) b b compacted
        else compact_loop p base limit nxt e compacted)"

definition poolcompact :: "pool \<Rightarrow> (pool \<times> bool) option" where
  "poolcompact p =
    (if \<not> p_move p \<or> p_lastfree p = p_nfree p then Some (p, False)
     else
       let p = p\<lparr>p_lastfree := p_nfree p\<rparr>; base = p_chain p; b = B2NB (p_mem p) base;
           limit = B2LIMIT (p_mem p) base; p = p\<lparr>p_root := 0\<rparr>
       in compact_loop p base limit b b False)"

section \<open>dopoolalloc\<close>

definition alloc_size :: "pool \<Rightarrow> nat \<Rightarrow> nat" where
  "alloc_size p asize = and_not (asize + BHDRSIZE + p_quanta p) (p_quanta p)"

text \<open>The search: the node of the exact size, or the smallest larger one, in that order.\<close>

partial_function (option) alloc_find :: "bheap \<Rightarrow> nat \<Rightarrow> badr \<Rightarrow> badr \<Rightarrow> (badr \<times> badr) option" where
  "alloc_find h sz q t =
    (if t = 0 then Some (t, q)
     else if b_size h t = sz then Some (t, q)
     else if sz < b_size h t then alloc_find h sz t (b_left h t)
     else alloc_find h sz q (b_right h t))"

definition charge :: "pool \<Rightarrow> badr \<Rightarrow> pool" where
  "charge p b = (let c = p_cursize p + b_size (p_mem p) b in p\<lparr>p_cursize := c, p_hw := (if c > p_hw p then c else p_hw p)\<rparr>)"

definition alloc_exact :: "pool \<Rightarrow> badr \<Rightarrow> (pool \<times> badr) option" where
  "alloc_exact p t =
    (let t = b_fwd (p_mem p) t in
     case pool_del p t of
       None \<Rightarrow> None
     | Some p \<Rightarrow> Some (charge (on_mem (set_magic t MAGIC_A) p) t, B2D t))"

definition alloc_best :: "pool \<Rightarrow> badr \<Rightarrow> nat \<Rightarrow> (pool \<times> badr) option" where
  "alloc_best p q sz =
    (case pool_del p q of
       None \<Rightarrow> None
     | Some p \<Rightarrow>
         let p = on_mem (set_magic q MAGIC_A) p; frag = b_size (p_mem p) q - sz in
         if frag < sz div 4 \<and> frag < 0x8000 then Some (charge p q, B2D q)
         else
           let ns = b_size (p_mem p) q - sz;
               h = set_tail q (set_size q sz (p_mem p));
               t = B2NB h q;
               h = set_tail t (set_size t ns h)
           in case pool_add (p\<lparr>p_mem := h\<rparr>) t of
                None \<Rightarrow> None
              | Some p \<Rightarrow> Some (charge p q, B2D q))"

text \<open>How large the next arena may be: \<open>ns\<close> for its blocks and \<open>alloc\<close> in all, or none.\<close>

definition alloc_room :: "pool \<Rightarrow> nat \<Rightarrow> pool \<times> (nat \<times> nat) option" where
  "alloc_room p sz =
    (let ns = (if sz > p_chunk p then sz else p_chunk p); ldr = p_quanta p + 1; alloc = ns + ldr + ldr in
     if p_arenasize p + alloc > p_maxsize p then
       let ns = (int (p_maxsize p) - int (p_arenasize p) - int ldr - int ldr) AND NOT (int (p_quanta p)) in
       if ns < int sz then (p, None)
       else let ns = nat ns; alloc = ns + ldr + ldr in (p\<lparr>p_arenasize := p_arenasize p + alloc\<rparr>, Some (ns, alloc))
     else (p\<lparr>p_arenasize := p_arenasize p + alloc\<rparr>, Some (ns, alloc)))"

text \<open>A new region right after the last arena: its end mark becomes a block of the whole region.\<close>

definition merge_arena :: "pool \<Rightarrow> nat \<Rightarrow> pool \<times> badr" where
  "merge_arena p alloc =
    (let h = p_mem p; q = B2LIMIT h (p_chain p);
         h = set_tail q (set_size q alloc (set_magic q MAGIC_A h));
         t = B2NB h q;
         h = set_magic t MAGIC_E h;
         h = set_csize (p_chain p) (b_csize h (p_chain p) + alloc) h
     in (p\<lparr>p_mem := h, p_cursize := p_cursize p + alloc\<rparr>, q))"

definition new_arena :: "pool \<Rightarrow> badr \<Rightarrow> nat \<Rightarrow> nat \<Rightarrow> (pool \<times> badr) option" where
  "new_arena p t ns sz =
    (let ldr = p_quanta p + 1;
         h = set_clink t (p_chain p) (set_csize t (ns + ldr) (set_size t ldr (set_magic t MAGIC_E (p_mem p))));
         p = p\<lparr>p_mem := set_tail t h, p_chain := t\<rparr>;
         t = B2NB (p_mem p) t;
         p = on_mem (\<lambda>h. set_tail t (set_size t sz (set_magic t MAGIC_A h))) p;
         ns = ns - sz
     in case (if ns > 0 then
                let q = B2NB (p_mem p) t; p = on_mem (\<lambda>h. set_tail q (set_size q ns h)) p
                in map_option (\<lambda>p. (p, q)) (pool_add p q)
              else Some (p, t)) of
          None \<Rightarrow> None
        | Some (p, q) \<Rightarrow> Some (charge (on_mem (\<lambda>h. set_magic (B2NB h q) MAGIC_E h) p) t, B2D t))"

text \<open>\<open>poolalloc\<close> refuses memory above \<open>ressize\<close> to a program with \<open>Prestricted\<close> set; \<open>restricted\<close> says whether one runs.\<close>

definition refused :: "bool \<Rightarrow> pool \<Rightarrow> bool" where
  "refused restricted p \<longleftrightarrow> p_cursize p > p_ressize p \<and> restricted"

partial_function (option) dopoolalloc :: "host_mmap \<Rightarrow> bool \<Rightarrow> pool \<Rightarrow> nat \<Rightarrow> (pool \<times> badr) option" where
  "dopoolalloc mm restricted p asize =
    (if asize \<ge> 1024 * 1024 * 1024 then Some (p, 0)
     else
       let sz = alloc_size p asize; p = p\<lparr>p_nalloc := p_nalloc p + 1\<rparr> in
       case alloc_find (p_mem p) sz 0 (p_root p) of
         None \<Rightarrow> None
       | Some (t, q) \<Rightarrow>
           if t \<noteq> 0 then alloc_exact p t
           else if q \<noteq> 0 then alloc_best p q sz
           else case alloc_room p sz of
             (p, None) \<Rightarrow>
               (case poolcompact p of
                  None \<Rightarrow> None
                | Some (p, compacted) \<Rightarrow>
                    if compacted then if refused restricted p then Some (p, 0) else dopoolalloc mm restricted p asize
                    else Some (p, 0))
           | (p, Some (ns, alloc)) \<Rightarrow>
               (case mm (p_maps p) alloc of
                  None \<Rightarrow> Some (p, 0)
                | Some t \<Rightarrow>
                    let p = p\<lparr>p_nbrk := p_nbrk p + 1, p_maps := (t, alloc) # p_maps p\<rparr>; t = and_not (t + 7) 7 in
                    if p_chain p \<noteq> 0 \<and> int t - int (B2LIMIT (p_mem p) (p_chain p)) - int (p_quanta p + 1) = 0 then
                      let (p, q) = merge_arena p alloc in
                      case poolfree p (B2D q) of
                        None \<Rightarrow> None
                      | Some p \<Rightarrow> if refused restricted p then Some (p, 0) else dopoolalloc mm restricted p asize
                    else new_arena p t ns sz))"

definition poolalloc :: "host_mmap \<Rightarrow> bool \<Rightarrow> pool \<Rightarrow> nat \<Rightarrow> (pool \<times> badr) option" where
  "poolalloc mm restricted p asize = (if refused restricted p then Some (p, 0) else dopoolalloc mm restricted p asize)"

section \<open>The other operations\<close>

definition copy_data :: "badr \<Rightarrow> badr \<Rightarrow> nat \<Rightarrow> pool \<Rightarrow> pool" where
  "copy_data nv v n p = p\<lparr>p_data := (\<lambda>a. if nv \<le> a \<and> a < nv + n then p_data p (v + (a - nv)) else p_data p a)\<rparr>"

definition poolrealloc :: "host_mmap \<Rightarrow> bool \<Rightarrow> pool \<Rightarrow> badr \<Rightarrow> nat \<Rightarrow> (pool \<times> badr) option" where
  "poolrealloc mm restricted p v sz =
    (if sz \<ge> 1024 * 1024 * 1024 then Some (p, 0)
     else if sz = 0 then map_option (\<lambda>p. (p, 0)) (poolfree p v)
     else if v = 0 then poolalloc mm restricted p sz
     else case D2B (p_mem p) v of
       None \<Rightarrow> None
     | Some b \<Rightarrow>
         let osize = b_size (p_mem p) b - BHDRSIZE in
         if osize \<ge> sz then Some (p, v)
         else case poolalloc mm restricted p sz of
           None \<Rightarrow> None
         | Some (p, nv) \<Rightarrow>
             if nv \<noteq> 0 then map_option (\<lambda>p. (p, nv)) (poolfree (copy_data nv v osize p) v)
             else Some (p, nv))"

definition poolmsize :: "pool \<Rightarrow> badr \<Rightarrow> nat option" where
  "poolmsize p v = (if v = 0 then Some 0 else map_option (\<lambda>b. b_size (p_mem p) b - BHDRSIZE) (D2B (p_mem p) v))"

partial_function (option) rightmost :: "bheap \<Rightarrow> badr \<Rightarrow> badr option" where
  "rightmost h t = (if b_right h t \<noteq> 0 then rightmost h (b_right h t) else Some t)"

definition poolmax :: "pool \<Rightarrow> nat option" where
  "poolmax p =
    (let sz = p_maxsize p - p_cursize p;
         fin = (\<lambda>sz. if sz \<ge> BHDRSIZE then sz - BHDRSIZE else sz)
     in if p_root p \<noteq> 0 then
          map_option (\<lambda>t. fin (if sz < b_size (p_mem p) t then b_size (p_mem p) t else sz)) (rightmost (p_mem p) (p_root p))
        else Some (fin sz))"

definition poolimmutable :: "pool \<Rightarrow> badr \<Rightarrow> pool option" where
  "poolimmutable p v = map_option (\<lambda>b. on_mem (set_magic b MAGIC_I) p) (D2B (p_mem p) v)"

text \<open>\<open>poolmutable\<close> also gives the object at the start of the data the collector's current colour, its first word.\<close>

definition poolmutable :: "u64 \<Rightarrow> pool \<Rightarrow> badr \<Rightarrow> pool option" where
  "poolmutable mutator p v =
    map_option (\<lambda>b. (on_mem (set_magic b MAGIC_A) p)
      \<lparr>p_data := (\<lambda>a. if v \<le> a \<and> a < v + 8 then ucast (drop_bit (8 * (a - v)) mutator) else p_data p a)\<rparr>) (D2B (p_mem p) v)"

definition setmalloctag :: "badr \<Rightarrow> nat \<Rightarrow> pool \<Rightarrow> pool option" where
  "setmalloctag v pc p =
    (if v = 0 then Some p else map_option (\<lambda>b. on_mem (\<lambda>h. h\<lparr>b_allocpc := (b_allocpc h)(b := pc)\<rparr>) p) (D2B (p_mem p) v))"

definition setrealloctag :: "badr \<Rightarrow> nat \<Rightarrow> pool \<Rightarrow> pool option" where
  "setrealloctag v pc p =
    (if v = 0 then Some p else map_option (\<lambda>b. on_mem (\<lambda>h. h\<lparr>b_reallocpc := (b_reallocpc h)(b := pc)\<rparr>) p) (D2B (p_mem p) v))"

definition getmalloctag :: "pool \<Rightarrow> badr \<Rightarrow> nat option" where
  "getmalloctag p v = (if v = 0 then None else map_option (b_allocpc (p_mem p)) (D2B (p_mem p) v))"

definition getrealloctag :: "pool \<Rightarrow> badr \<Rightarrow> nat option" where
  "getrealloctag p v = (if v = 0 then None else map_option (b_reallocpc (p_mem p)) (D2B (p_mem p) v))"

definition mallocz :: "host_mmap \<Rightarrow> bool \<Rightarrow> nat \<Rightarrow> pool \<Rightarrow> nat \<Rightarrow> bool \<Rightarrow> (pool \<times> badr) option" where
  "mallocz mm restricted pc p sz clr =
    (case poolalloc mm restricted p sz of
       None \<Rightarrow> None
     | Some (p, v) \<Rightarrow>
         if v \<noteq> 0 then
           map_option (\<lambda>p. (if clr then p\<lparr>p_data := (\<lambda>a. if v \<le> a \<and> a < v + sz then 0 else p_data p a)\<rparr> else p, v))
             (Option.bind (setmalloctag v pc p) (setrealloctag v 0))
         else Some (p, v))"

definition kmalloc :: "host_mmap \<Rightarrow> bool \<Rightarrow> nat \<Rightarrow> pool \<Rightarrow> nat \<Rightarrow> (pool \<times> badr) option" where
  "kmalloc mm restricted pc p sz =
    (case poolalloc mm restricted p sz of
       None \<Rightarrow> None
     | Some (p, v) \<Rightarrow>
         if v \<noteq> 0 then
           map_option (\<lambda>p. (p\<lparr>p_data := (\<lambda>a. if v \<le> a \<and> a < v + sz then 0 else p_data p a)\<rparr>, v))
             (Option.bind (setmalloctag v pc p) (setrealloctag v 0))
         else Some (p, v))"

definition kfree :: "pool \<Rightarrow> badr \<Rightarrow> pool option" where
  "kfree p v = (if v \<noteq> 0 then Option.bind (D2B (p_mem p) v) (\<lambda>b. poolfree p v) else Some p)"

definition krealloc :: "host_mmap \<Rightarrow> bool \<Rightarrow> nat \<Rightarrow> pool \<Rightarrow> badr \<Rightarrow> nat \<Rightarrow> (pool \<times> badr) option" where
  "krealloc mm restricted pc p v sz =
    (if sz = 0 then kmalloc mm restricted pc p sz
     else case poolrealloc mm restricted p v sz of
       None \<Rightarrow> None
     | Some (p, nv) \<Rightarrow>
         if nv \<noteq> 0 then
           map_option (\<lambda>p. (p, nv)) (Option.bind (setrealloctag nv pc p) (\<lambda>p. if v = 0 then setmalloctag v pc p else Some p))
         else Some (p, nv))"

definition kcalloc :: "host_mmap \<Rightarrow> bool \<Rightarrow> nat \<Rightarrow> pool \<Rightarrow> nat \<Rightarrow> nat \<Rightarrow> (pool \<times> badr) option" where
  "kcalloc mm restricted pc p n szelem = kmalloc mm restricted pc p (n * szelem mod 2 ^ 64)"

section \<open>The table of pools\<close>

text \<open>The table, in the order of the source; \<open>mainmem\<close>, \<open>heapmem\<close> and \<open>imagmem\<close> are its first three pools.\<close>

definition no_headers :: bheap where
  "no_headers = \<lparr>b_magic = \<lambda>_. 0, b_size = \<lambda>_. 0, b_allocpc = \<lambda>_. 0, b_reallocpc = \<lambda>_. 0, b_left = \<lambda>_. 0, b_right = \<lambda>_. 0,
    b_parent = \<lambda>_. 0, b_prev = \<lambda>_. 0, b_fwd = \<lambda>_. 0, b_clink = \<lambda>_. 0, b_csize = \<lambda>_. 0, t_hdr = \<lambda>_. 0\<rparr>"

definition table_pool :: "string \<Rightarrow> nat \<Rightarrow> nat \<Rightarrow> nat \<Rightarrow> nat \<Rightarrow> pool" where
  "table_pool name maxsize quanta chunk ressize =
    \<lparr>p_name = name, p_mem = no_headers, p_data = \<lambda>_. 0, p_maxsize = maxsize, p_quanta = quanta, p_chunk = chunk, p_ressize = ressize,
     p_cursize = 0, p_arenasize = 0, p_hw = 0, p_root = 0, p_chain = 0, p_nalloc = 0, p_nfree = 0, p_nbrk = 0, p_lastfree = 0,
     p_move = False, p_ptr = 0, p_maps = []\<rparr>"

definition table :: "pool list" where
  "table =
    [table_pool ''main'' (32 * 1024 * 1024) 127 (512 * 1024) (31 * 1024 * 1024),
     table_pool ''heap'' (32 * 1024 * 1024) 127 (512 * 1024) (31 * 1024 * 1024),
     table_pool ''image'' (64 * 1024 * 1024 + 256) 127 (4 * 1024 * 1024) (63 * 1024 * 1024),
     table_pool [] 0 0 0 0]"

definition memusehigh :: "pool list \<Rightarrow> bool" where
  "memusehigh tab \<longleftrightarrow> p_cursize (tab ! 0) > p_ressize (tab ! 0) \<or> p_cursize (tab ! 1) > p_ressize (tab ! 1)"

definition memlow :: "pool list \<Rightarrow> bool" where
  "memlow tab \<longleftrightarrow> p_cursize (tab ! 1) > p_maxsize (tab ! 1) div 2"

fun poolsetsize :: "pool list \<Rightarrow> string \<Rightarrow> nat \<Rightarrow> (pool list \<times> bool) option" where
  "poolsetsize [] s sz = Some ([], False)"
| "poolsetsize (p # ps) s sz =
    (if p_name p = s then
       if sz < RESERVED then None
       else Some (p\<lparr>p_maxsize := sz, p_ressize := sz - RESERVED\<rparr> # ps, True)
     else map_option (\<lambda>(ps, ok). (p # ps, ok)) (poolsetsize ps s sz))"

definition poolmaxsize :: "pool list \<Rightarrow> nat" where
  "poolmaxsize tab = (\<Sum>p\<leftarrow>tab. p_maxsize p)"

section \<open>poolaudit\<close>

text \<open>The check of one header: its size, its magic, and the caller's \<open>audit\<close>.\<close>

definition audit_block :: "nat \<Rightarrow> (badr \<Rightarrow> string option) \<Rightarrow> bheap \<Rightarrow> badr \<Rightarrow> badr \<Rightarrow> string option" where
  "audit_block quanta audit h bc b =
    (if b_size h b = 0 \<or> b_size h b AND quanta \<noteq> 0 then Some ''bad size in bhdr''
     else if b_magic h b = MAGIC_E then if b \<noteq> bc then Some ''unexpected MAGIC_E'' else audit b
     else if b_magic h b = MAGIC_F \<or> b_magic h b = MAGIC_A \<or> b_magic h b = MAGIC_I then audit b
     else Some ''bad magic'')"

function audit_walk :: "nat \<Rightarrow> (badr \<Rightarrow> string option) \<Rightarrow> bheap \<Rightarrow> badr \<Rightarrow> badr \<Rightarrow> badr \<Rightarrow> string + badr" where
  "audit_walk quanta audit h bc ec b =
    (if b < ec then
       case audit_block quanta audit h bc b of
         Some r \<Rightarrow> Inl r
       | None \<Rightarrow> audit_walk quanta audit h bc ec (B2NB h b)
     else Inr b)"
  by auto
termination
  by (relation "measure (\<lambda>(quanta, audit, h, bc, ec, b). ec - b)") (auto simp: audit_block_def B2NB_def split: if_splits)

declare audit_walk.simps [simp del]

partial_function (option) audit_chain :: "nat \<Rightarrow> (badr \<Rightarrow> string option) \<Rightarrow> bheap \<Rightarrow> badr \<Rightarrow> string option option" where
  "audit_chain quanta audit h bc =
    (if bc = 0 then Some None
     else if b_magic h bc \<noteq> MAGIC_E then Some (Some ''bad chain hdr'')
     else
       let ec = B2LIMIT h bc in
       case audit_walk quanta audit h bc ec bc of
         Inl r \<Rightarrow> Some (Some r)
       | Inr b \<Rightarrow>
           if b \<noteq> ec \<or> b_magic h b \<noteq> MAGIC_E then Some (Some ''bad chain ending'')
           else audit_chain quanta audit h (b_clink h bc))"

text \<open>The pools of the table one after the other; \<open>audit\<close> gets the number of the pool.\<close>

fun poolaudit :: "nat \<Rightarrow> (nat \<Rightarrow> badr \<Rightarrow> string option) \<Rightarrow> pool list \<Rightarrow> string option option" where
  "poolaudit i audit [] = Some None"
| "poolaudit i audit (p # ps) =
    (case audit_chain (p_quanta p) (audit i) (p_mem p) (p_chain p) of
       None \<Rightarrow> None
     | Some (Some r) \<Rightarrow> Some (Some r)
     | Some None \<Rightarrow> poolaudit (Suc i) audit ps)"

end
