(* ===== verification/Pool_Layout.thy ===== *)
theory Pool_Layout
  imports Pool
begin

text \<open>
  How the blocks of a pool lie in its arenas: leaders \<open>L\<close>, blocks \<open>U\<close> and end marks \<open>E\<close>, each followed by
  the next, each block's trailer leading back to its header, and no two of them overlapping. Two
  neighbours may be joined, a block may be split, an arena may be added or made longer.
\<close>

section \<open>The layout\<close>

text \<open>\<open>u\<close> is \<open>quanta + 1\<close>, the unit of all sizes; an end mark takes one unit.\<close>

definition ext :: "nat \<Rightarrow> bheap \<Rightarrow> badr set \<Rightarrow> badr \<Rightarrow> nat" where
  "ext u h E x = (if x \<in> E then u else b_size h x)"

definition apart :: "nat \<Rightarrow> bheap \<Rightarrow> badr set \<Rightarrow> badr set \<Rightarrow> badr set \<Rightarrow> bool" where
  "apart u h L U E \<longleftrightarrow> L \<inter> U = {} \<and> L \<inter> E = {} \<and> U \<inter> E = {} \<and>
    (\<forall>x\<in>L \<union> U \<union> E. \<forall>y\<in>L \<union> U \<union> E. x < y \<longrightarrow> x + ext u h E x \<le> y)"

definition sized :: "nat \<Rightarrow> bheap \<Rightarrow> badr \<Rightarrow> bool" where
  "sized u h x \<longleftrightarrow> 0 < b_size h x \<and> u dvd b_size h x"

definition tiling :: "nat \<Rightarrow> bheap \<Rightarrow> badr set \<Rightarrow> badr set \<Rightarrow> badr set \<Rightarrow> bool" where
  "tiling u h L U E \<longleftrightarrow> 8 \<le> u \<and> apart u h L U E \<and>
    (\<forall>x\<in>L \<union> U. sized u h x \<and> x + b_size h x \<in> U \<union> E \<and> t_hdr h (x + b_size h x - 8) = x) \<and>
    (\<forall>x\<in>U \<union> E. \<exists>c\<in>L \<union> U. c + b_size h c = x)"

lemma sized_ge: "sized u h x \<Longrightarrow> u \<le> b_size h x"
  by (auto simp: sized_def intro: dvd_imp_le)

lemma tiling_ge: "tiling u h L U E \<Longrightarrow> x \<in> L \<union> U \<Longrightarrow> 8 \<le> b_size h x"
  using sized_ge by (fastforce simp: tiling_def)

lemma tiling_next: "tiling u h L U E \<Longrightarrow> x \<in> L \<union> U \<Longrightarrow> x + b_size h x \<in> U \<union> E"
  by (simp add: tiling_def)

lemma tiling_tail: "tiling u h L U E \<Longrightarrow> x \<in> L \<union> U \<Longrightarrow> t_hdr h (x + b_size h x - 8) = x"
  by (simp add: tiling_def)

lemma tiling_prev:
  assumes "tiling u h L U E" "x \<in> U \<union> E"
  shows "t_hdr h (x - 8) \<in> L \<union> U" "t_hdr h (x - 8) + b_size h (t_hdr h (x - 8)) = x"
proof -
  obtain c where c: "c \<in> L \<union> U" "c + b_size h c = x" using assms by (auto simp: tiling_def)
  have "t_hdr h (x - 8) = c" using tiling_tail [OF assms(1) c(1)] c(2) by simp
  then show "t_hdr h (x - 8) \<in> L \<union> U" "t_hdr h (x - 8) + b_size h (t_hdr h (x - 8)) = x" using c by simp_all
qed

lemma tiling_apart:
  assumes "tiling u h L U E" "x \<in> L \<union> U" "y \<in> L \<union> U \<union> E" "x < y"
  shows "x + b_size h x \<le> y"
proof -
  have "x + ext u h E x \<le> y" using assms unfolding tiling_def apart_def by blast
  moreover have "x \<notin> E" using assms(1,2) unfolding tiling_def apart_def by blast
  ultimately show ?thesis by (simp add: ext_def)
qed

lemma tiling_apart_end:
  assumes "tiling u h L U E" "x \<in> E" "y \<in> L \<union> U \<union> E" "x < y"
  shows "x + u \<le> y"
proof -
  have "x + ext u h E x \<le> y" using assms unfolding tiling_def apart_def by blast
  then show ?thesis using assms(2) by (simp add: ext_def)
qed

lemma tiling_unit: "tiling u h L U E \<Longrightarrow> x \<in> L \<union> U \<Longrightarrow> u \<le> b_size h x"
  by (auto simp: tiling_def intro: sized_ge)

lemma tiling_sets: "tiling u h L U E \<Longrightarrow> L \<inter> U = {} \<and> L \<inter> E = {} \<and> U \<inter> E = {}"
  by (simp add: tiling_def apart_def)

text \<open>Only sizes and trailers matter.\<close>

lemma tiling_cong:
  assumes "tiling u h L U E" "b_size h' = b_size h" "t_hdr h' = t_hdr h"
  shows "tiling u h' L U E"
proof -
  have "ext u h' E = ext u h E" "sized u h' = sized u h" using assms(2) by (simp_all add: ext_def sized_def fun_eq_iff)
  then show ?thesis using assms(1) unfolding tiling_def apart_def assms(2,3) by simp
qed

text \<open>The trailers of two blocks lie apart.\<close>

lemma tails_apart:
  assumes "tiling u h L U E" "x \<in> L \<union> U" "y \<in> L \<union> U" "x \<noteq> y"
  shows "x + b_size h x - 8 \<noteq> y + b_size h y - 8"
proof (cases "x < y")
  case True
  then show ?thesis using tiling_apart [OF assms(1,2) _ True] tiling_ge [OF assms(1,3)] assms(3) by auto
next
  case False
  then have yx: "y < x" using assms(4) by simp
  then show ?thesis using tiling_apart [OF assms(1,3) _ yx] tiling_ge [OF assms(1,2)] assms(2) by auto
qed

section \<open>Joining two neighbours\<close>

lemma tiling_merge:
  assumes T: "tiling u h L U E" and x: "x \<in> U" and y: "y \<in> U" "y = x + b_size h x"
    and h': "b_size h' = (b_size h)(x := b_size h x + b_size h y)" "t_hdr h' = (t_hdr h)(x + b_size h x + b_size h y - 8 := x)"
  shows "tiling u h' L (U - {y}) E"
proof -
  have xy: "x < y" using tiling_ge [OF T, of x] x y(2) by simp
  have s: "L \<inter> U = {}" "L \<inter> E = {}" "U \<inter> E = {}" using tiling_sets [OF T] by auto
  have xe: "x \<notin> E" "y \<notin> E" "x \<notin> L" "y \<notin> L" using s x y by auto
  have out: "b_size h' z = b_size h z" if "z \<noteq> x" for z using that h'(1) by simp
  have ny: "y + b_size h y \<in> U \<union> E" using tiling_next [OF T, of y] y by simp
  have nyy: "y + b_size h y \<noteq> y" using tiling_ge [OF T, of y] y by simp
  have "apart u h' L (U - {y}) E"
  proof -
    have "a + ext u h' E a \<le> b" if "a \<in> L \<union> (U - {y}) \<union> E" "b \<in> L \<union> (U - {y}) \<union> E" "a < b" for a b
    proof (cases "a = x")
      case True
      have xb: "y \<le> b" using tiling_apart [OF T, of x b] x that True y(2) by auto
      then have "y < b" using that s y(1) by (cases "b = y") auto
      then have "y + b_size h y \<le> b" using tiling_apart [OF T, of y b] y that by auto
      then show ?thesis using True xe y(2) h'(1) by (simp add: ext_def)
    next
      case False
      then have "ext u h' E a = ext u h E a" using out by (simp add: ext_def)
      then show ?thesis using T that unfolding tiling_def apart_def by auto
    qed
    then show ?thesis using s by (auto simp: apart_def)
  qed
  moreover have "sized u h' z \<and> z + b_size h' z \<in> (U - {y}) \<union> E \<and> t_hdr h' (z + b_size h' z - 8) = z" if z: "z \<in> L \<union> (U - {y})" for z
  proof (cases "z = x")
    case True
    have "sized u h x" "sized u h y" using T x y by (auto simp: tiling_def)
    then show ?thesis using True ny nyy h' y(2) by (auto simp: sized_def add.assoc)
  next
    case False
    have zU: "z \<in> L \<union> U" using z by auto
    have nz: "z + b_size h z \<in> U \<union> E" by (rule tiling_next [OF T zU])
    have "z + b_size h z \<noteq> y"
    proof
      assume "z + b_size h z = y"
      then have "z + b_size h z - 8 = x + b_size h x - 8" using y(2) by simp
      then show False using tails_apart [OF T zU _ False] x by auto
    qed
    moreover have "z + b_size h z - 8 \<noteq> y + b_size h y - 8" using tails_apart [OF T zU, of y] y z s by auto
    ultimately show ?thesis using False nz out h'(2) y(2) T zU by (auto simp: tiling_def sized_def)
  qed
  moreover have "\<exists>c\<in>L \<union> (U - {y}). c + b_size h' c = z" if z: "z \<in> (U - {y}) \<union> E" for z
  proof -
    have zy: "z \<noteq> y" "z \<in> U \<union> E" using z xe by auto
    obtain c where c: "c \<in> L \<union> U" "c + b_size h c = z" using T zy(2) unfolding tiling_def by blast
    show ?thesis
    proof (cases "c = y")
      case True
      then have "x + b_size h' x = z" using c(2) y(2) h'(1) by simp
      then show ?thesis using x xy by auto
    next
      case False
      then have "c \<noteq> x" using c(2) zy(1) y(2) by auto
      then show ?thesis using c out [of c] False by (intro bexI [of _ c]) auto
    qed
  qed
  ultimately show ?thesis using T unfolding tiling_def by blast
qed

section \<open>Splitting a block\<close>

lemma tiling_split:
  assumes T: "tiling u h L U E" and x: "x \<in> U" and n: "0 < n" "u dvd n" "n < b_size h x" and y: "y = x + n"
    and h': "b_size h' = (b_size h)(x := n, y := b_size h x - n)"
      "t_hdr h' = (t_hdr h)(y - 8 := x, x + b_size h x - 8 := y)"
  shows "tiling u h' L (insert y U) E" "y \<notin> L \<union> U \<union> E"
proof -
  have s: "L \<inter> U = {}" "L \<inter> E = {}" "U \<inter> E = {}" using tiling_sets [OF T] by auto
  show yn: "y \<notin> L \<union> U \<union> E"
  proof
    assume "y \<in> L \<union> U \<union> E"
    then show False using tiling_apart [OF T, of x y] x n y by simp
  qed
  have un: "u \<le> n" using n by (auto intro: dvd_imp_le)
  have u8: "8 \<le> u" using T by (simp add: tiling_def)
  have xe: "x \<notin> E" "x \<notin> L" using s x by auto
  have out: "b_size h' z = b_size h z" if "z \<noteq> x" "z \<noteq> y" for z using that h'(1) by simp
  have sx: "b_size h' x = n" "b_size h' y = b_size h x - n" "x \<noteq> y" using h'(1) y n by auto
  have dv: "u dvd b_size h x - n" using T x n by (auto simp: tiling_def sized_def intro: dvd_diff_nat)
  then have ul: "u \<le> b_size h x - n" using n(3) by (auto intro!: dvd_imp_le)
  have nx: "x + b_size h x \<in> U \<union> E" using tiling_next [OF T, of x] x by simp
  have "apart u h' L (insert y U) E"
  proof -
    have "a + ext u h' E a \<le> b" if ab: "a \<in> L \<union> insert y U \<union> E" "b \<in> L \<union> insert y U \<union> E" "a < b" for a b
    proof -
      consider "a = x" "b = y" | "a = x" "b \<noteq> y" | "a = y" | "a \<noteq> x" "a \<noteq> y" "b = y" | "a \<noteq> x" "a \<noteq> y" "b \<noteq> y" by blast
      then show ?thesis
      proof cases
        case 1
        then show ?thesis using sx xe y by (simp add: ext_def)
      next
        case w: 2
        then have "x + b_size h x \<le> b" using tiling_apart [OF T, of x b] x ab by auto
        then show ?thesis using w sx xe n by (simp add: ext_def)
      next
        case 3
        then have "b \<in> L \<union> U \<union> E" "x < b" using ab y by auto
        then have "x + b_size h x \<le> b" using tiling_apart [OF T, of x b] x by auto
        then show ?thesis using 3 sx yn y n by (simp add: ext_def)
      next
        case 4
        have ac: "a \<in> L \<union> U \<union> E" using 4 ab by auto
        have "a < x"
        proof (rule ccontr)
          assume "\<not> a < x"
          then have "x < a" using 4 by simp
          then have "x + b_size h x \<le> a" using tiling_apart [OF T, of x a] x ac by auto
          then show False using 4 ab(3) y n by simp
        qed
        then have "a + ext u h E a \<le> x" using T ac x unfolding tiling_def apart_def by auto
        then show ?thesis using 4 out [of a] y by (cases "a \<in> E") (simp_all add: ext_def)
      next
        case 5
        then have "a + ext u h E a \<le> b" using T ab unfolding tiling_def apart_def by auto
        then show ?thesis using 5 out [of a] by (cases "a \<in> E") (simp_all add: ext_def)
      qed
    qed
    then show ?thesis using s yn by (auto simp: apart_def)
  qed
  moreover have "sized u h' z \<and> z + b_size h' z \<in> insert y U \<union> E \<and> t_hdr h' (z + b_size h' z - 8) = z" if z: "z \<in> L \<union> insert y U" for z
  proof -
    consider "z = x" | "z = y" | "z \<noteq> x" "z \<noteq> y" by blast
    then show ?thesis
    proof cases
      case 1
      have "y - 8 \<noteq> x + b_size h x - 8" using ul u8 un y by simp
      then show ?thesis using 1 sx n y h'(2) by (simp add: sized_def)
    next
      case w: 2
      have "y + (b_size h x - n) = x + b_size h x" using y n by simp
      then show ?thesis using w sx dv n nx h'(2) by (simp add: sized_def)
    next
      case 3
      have zU: "z \<in> L \<union> U" using z 3 by auto
      have "z + b_size h z - 8 \<noteq> x + b_size h x - 8" using tails_apart [OF T zU, of x] x 3 by auto
      moreover have "z + b_size h z - 8 \<noteq> y - 8"
      proof (cases "z < x")
        case True
        have "z + b_size h z \<le> x" using tiling_apart [OF T zU, of x] x True by simp
        then show ?thesis using tiling_ge [OF T zU] y un u8 by simp
      next
        case False
        then have "x + b_size h x \<le> z" using tiling_apart [OF T, of x z] x zU 3 by auto
        then show ?thesis using tiling_ge [OF T zU] y n by simp
      qed
      ultimately show ?thesis using 3 out h'(2) T zU by (auto simp: tiling_def sized_def)
    qed
  qed
  moreover have "\<exists>c\<in>L \<union> insert y U. c + b_size h' c = z" if z: "z \<in> insert y U \<union> E" for z
  proof (cases "z = y")
    case True
    then show ?thesis using x sx y by auto
  next
    case False
    then have "z \<in> U \<union> E" using z by auto
    then obtain c where c: "c \<in> L \<union> U" "c + b_size h c = z" using T unfolding tiling_def by blast
    show ?thesis
    proof (cases "c = x")
      case True
      then have "y + b_size h' y = z" using c(2) sx n y by simp
      then show ?thesis by blast
    next
      case F: False
      have "c \<noteq> y" using c(1) yn by auto
      then show ?thesis using c out [OF F] by (intro bexI [of _ c]) auto
    qed
  qed
  ultimately show "tiling u h' L (insert y U) E" using T unfolding tiling_def by blast
qed

section \<open>A new arena and a longer one\<close>

text \<open>The cells of the pool keep clear of a region.\<close>

definition clear :: "nat \<Rightarrow> bheap \<Rightarrow> badr set \<Rightarrow> badr set \<Rightarrow> badr \<Rightarrow> nat \<Rightarrow> bool" where
  "clear u h E C a n \<longleftrightarrow> (\<forall>x\<in>C. x + ext u h E x \<le> a \<or> a + n \<le> x)"

lemma tiling_arena:
  assumes T: "tiling u h L U E" and n: "0 < n" "u dvd n" and b: "b = a + u" "e = b + n"
    and cl: "clear u h E (L \<union> U \<union> E) a (u + n + u)"
    and h': "b_size h' = (b_size h)(a := u, b := n)" "t_hdr h' = (t_hdr h)(b - 8 := a, e - 8 := b)"
  shows "tiling u h' (insert a L) (insert b U) (insert e E)"
proof -
  have u8: "8 \<le> u" "u \<le> n" using T n by (auto simp: tiling_def intro: dvd_imp_le)
  have s: "L \<inter> U = {}" "L \<inter> E = {}" "U \<inter> E = {}" using tiling_sets [OF T] by auto
  have pos: "8 \<le> ext u h E x" if "x \<in> L \<union> U \<union> E" for x using that tiling_ge [OF T] u8 by (auto simp: ext_def)
  have far: "x + ext u h E x \<le> a \<or> e + u \<le> x" if "x \<in> L \<union> U \<union> E" for x using cl that b unfolding clear_def by fastforce
  have new: "a \<notin> L \<union> U \<union> E" "b \<notin> L \<union> U \<union> E" "e \<notin> L \<union> U \<union> E"
    using far [of a] far [of b] far [of e] pos [of a] pos [of b] pos [of e] b u8 by auto
  have ne: "a \<noteq> b" "b \<noteq> e" "a \<noteq> e" "a < b" "b < e" using b n u8 by auto
  have out: "ext u h' (insert e E) x = ext u h E x" if "x \<in> L \<union> U \<union> E" for x
  proof -
    have "x \<noteq> a" "x \<noteq> b" "x \<noteq> e" using that new by auto
    then show ?thesis using h'(1) by (simp add: ext_def)
  qed
  have ex: "ext u h' (insert e E) a = u" "ext u h' (insert e E) b = n" "ext u h' (insert e E) e = u"
    using new ne h'(1) by (auto simp: ext_def)
  have "apart u h' (insert a L) (insert b U) (insert e E)"
  proof -
    have "x + ext u h' (insert e E) x \<le> y" if xy: "x \<in> insert a L \<union> insert b U \<union> insert e E" "y \<in> insert a L \<union> insert b U \<union> insert e E" "x < y" for x y
    proof -
      consider "x \<in> L \<union> U \<union> E" "y \<in> L \<union> U \<union> E" | "x \<in> L \<union> U \<union> E" "y \<in> {a, b, e}" | "x \<in> {a, b, e}" "y \<in> L \<union> U \<union> E" | "x \<in> {a, b, e}" "y \<in> {a, b, e}"
        using xy by blast
      then show ?thesis
      proof cases
        case 1
        then show ?thesis using out T xy(3) unfolding tiling_def apart_def by auto
      next
        case w: 2
        then show ?thesis using far [of x] out [of x] xy(3) ne by auto
      next
        case 3
        then show ?thesis using far [of y] pos [of y] ex xy(3) b by auto
      next
        case 4
        then show ?thesis using ex xy(3) ne b by auto
      qed
    qed
    then show ?thesis using s new ne unfolding apart_def by auto
  qed
  moreover have "sized u h' z \<and> z + b_size h' z \<in> insert b U \<union> insert e E \<and> t_hdr h' (z + b_size h' z - 8) = z" if z: "z \<in> insert a L \<union> insert b U" for z
  proof -
    consider "z = a" | "z = b" | "z \<in> L \<union> U" using z by auto
    then show ?thesis
    proof cases
      case 1
      have "b - 8 \<noteq> e - 8" using b u8 by simp
      then show ?thesis using 1 ne b n u8 h' by (simp add: sized_def)
    next
      case w: 2
      then show ?thesis using ne b n u8 h' by (simp add: sized_def)
    next
      case 3
      then have zc: "z \<in> L \<union> U \<union> E" by simp
      have zn: "z \<noteq> a" "z \<noteq> b" "z \<notin> E" using 3 new s by auto
      have "z + b_size h z \<le> a \<or> e + u \<le> z" using far [OF zc] zn by (simp add: ext_def)
      then have "z + b_size h z - 8 \<noteq> b - 8" "z + b_size h z - 8 \<noteq> e - 8" using tiling_ge [OF T 3] b u8 by auto
      then show ?thesis using 3 zn T h' by (auto simp: tiling_def sized_def)
    qed
  qed
  moreover have "\<exists>c\<in>insert a L \<union> insert b U. c + b_size h' c = z" if z: "z \<in> insert b U \<union> insert e E" for z
  proof -
    consider "z = b" | "z = e" | "z \<in> U \<union> E" using z by auto
    then show ?thesis
    proof cases
      case 1
      then show ?thesis using ne b h'(1) by (intro bexI [of _ a]) auto
    next
      case w: 2
      then show ?thesis using ne b h'(1) by (intro bexI [of _ b]) auto
    next
      case 3
      then obtain c where c: "c \<in> L \<union> U" "c + b_size h c = z" using T unfolding tiling_def by blast
      then have "c \<noteq> a" "c \<noteq> b" using new by auto
      then show ?thesis using c h'(1) by (intro bexI [of _ c]) auto
    qed
  qed
  ultimately show ?thesis using T unfolding tiling_def by blast
qed

lemma tiling_extend:
  assumes T: "tiling u h L U E" and q: "q \<in> E" and n: "0 < n" "u dvd n" and e: "e = q + n"
    and cl: "clear u h E (L \<union> U \<union> (E - {q})) q (n + u)"
    and h': "b_size h' = (b_size h)(q := n)" "t_hdr h' = (t_hdr h)(e - 8 := q)"
  shows "tiling u h' L (insert q U) (insert e (E - {q}))"
proof -
  have u8: "8 \<le> u" "u \<le> n" using T n by (auto simp: tiling_def intro: dvd_imp_le)
  have s: "L \<inter> U = {}" "L \<inter> E = {}" "U \<inter> E = {}" using tiling_sets [OF T] by auto
  have qs: "q \<notin> L" "q \<notin> U" using s q by auto
  have pos: "8 \<le> ext u h E x" if "x \<in> L \<union> U \<union> E" for x using that tiling_ge [OF T] u8 by (auto simp: ext_def)
  have far: "x + ext u h E x \<le> q \<or> e + u \<le> x" if "x \<in> L \<union> U \<union> (E - {q})" for x using cl that e unfolding clear_def by fastforce
  have new: "e \<notin> L \<union> U \<union> E" using far [of e] pos [of e] e n q u8 by auto
  have ne: "q < e" "q \<noteq> e" using e n by auto
  let ?E = "insert e (E - {q})"
  have out: "ext u h' ?E x = ext u h E x" if "x \<in> L \<union> U \<union> (E - {q})" for x
  proof -
    have "x \<noteq> q" "x \<noteq> e" using that new qs by auto
    then show ?thesis using h'(1) by (simp add: ext_def)
  qed
  have ex: "ext u h' ?E q = n" "ext u h' ?E e = u" using ne h'(1) by (auto simp: ext_def)
  have "apart u h' L (insert q U) ?E"
  proof -
    have "x + ext u h' ?E x \<le> y" if xy: "x \<in> L \<union> insert q U \<union> ?E" "y \<in> L \<union> insert q U \<union> ?E" "x < y" for x y
    proof -
      consider "x \<in> L \<union> U \<union> (E - {q})" "y \<in> L \<union> U \<union> (E - {q})" | "x \<in> L \<union> U \<union> (E - {q})" "y \<in> {q, e}"
        | "x \<in> {q, e}" "y \<in> L \<union> U \<union> (E - {q})" | "x \<in> {q, e}" "y \<in> {q, e}"
        using xy by blast
      then show ?thesis
      proof cases
        case 1
        then show ?thesis using out [of x] T xy(3) unfolding tiling_def apart_def by auto
      next
        case w: 2
        then show ?thesis using far [of x] out [of x] xy(3) ne by auto
      next
        case 3
        then show ?thesis using far [of y] pos [of y] ex xy(3) e by auto
      next
        case 4
        then show ?thesis using ex xy(3) ne e by auto
      qed
    qed
    then show ?thesis using s new ne qs unfolding apart_def by auto
  qed
  moreover have "sized u h' z \<and> z + b_size h' z \<in> insert q U \<union> ?E \<and> t_hdr h' (z + b_size h' z - 8) = z" if z: "z \<in> L \<union> insert q U" for z
  proof (cases "z = q")
    case True
    then show ?thesis using e n h' by (simp add: sized_def)
  next
    case False
    then have zc: "z \<in> L \<union> U" "z \<notin> E" using z s by auto
    have "z + b_size h z \<le> q \<or> e + u \<le> z" using far [of z] zc by (simp add: ext_def)
    then have "z + b_size h z - 8 \<noteq> e - 8" using tiling_ge [OF T zc(1)] e u8 by auto
    then show ?thesis using zc False T h' by (auto simp: tiling_def sized_def)
  qed
  moreover have "\<exists>c\<in>L \<union> insert q U. c + b_size h' c = z" if z: "z \<in> insert q U \<union> ?E" for z
  proof (cases "z = e")
    case True
    then show ?thesis using e h'(1) by (intro bexI [of _ q]) auto
  next
    case False
    then have "z \<in> U \<union> E" using z q by auto
    then obtain c where c: "c \<in> L \<union> U" "c + b_size h c = z" using T unfolding tiling_def by blast
    then have "c \<noteq> q" using qs by auto
    then show ?thesis using c h'(1) by (intro bexI [of _ c]) auto
  qed
  ultimately show ?thesis using T unfolding tiling_def by blast
qed

end
