(* ===== verification/Pool_Inv.thy ===== *)
theory Pool_Inv
  imports Pool_Layout
begin

text \<open>
  The invariant of a memory pool: its blocks tile its arenas, its tree holds the free ones, no two free
  blocks are neighbours, and the counts are right; and that \<open>poolfree\<close> keeps it and frees just its block.
\<close>

section \<open>The interface of the free blocks\<close>

text \<open>
  What the allocator relies on: a representation of a set of blocks by headers, which adding and deleting
  keep, and which other headers do not matter for.
\<close>

locale free_blocks =
  fixes rep :: "bheap \<Rightarrow> badr \<Rightarrow> badr set \<Rightarrow> bool"
    and add :: "bheap \<Rightarrow> badr \<Rightarrow> badr \<Rightarrow> (bheap \<times> badr) option"
    and del :: "bheap \<Rightarrow> badr \<Rightarrow> badr \<Rightarrow> (bheap \<times> badr) option"
  assumes add_law: "rep h root S \<Longrightarrow> q \<notin> S \<Longrightarrow> q \<noteq> 0 \<Longrightarrow> \<exists>h' root'. add h root q = Some (h', root') \<and>
      rep h' root' (insert q S) \<and> relinked h h' \<and> b_magic h' = (b_magic h)(q := MAGIC_F)"
    and del_law: "rep h root S \<Longrightarrow> x \<in> S \<Longrightarrow> \<exists>h' root'. del h root x = Some (h', root') \<and>
      rep h' root' (S - {x}) \<and> relinked h h' \<and> b_magic h' = b_magic h"
    and frame_law: "rep h root S \<Longrightarrow> agree h h' S \<Longrightarrow> rep h' root S"
begin

text \<open>A block is taken out and its header, and those of blocks in use, may then be changed.\<close>

lemma del_update:
  assumes "rep h root S" "x \<in> S"
  obtains h' root' where "del h root x = Some (h', root')" "relinked h h'" "b_magic h' = b_magic h"
    "\<And>h2. agree h' h2 (S - {x}) \<Longrightarrow> rep h2 root' (S - {x})"
  using del_law [OF assms] frame_law that by metis

text \<open>Headers of blocks not in the set are changed, then one of these blocks is added.\<close>

lemma update_add:
  assumes "rep h root S" "agree h h1 S" "q \<notin> S" "q \<noteq> 0"
  obtains h' root' where "add h1 root q = Some (h', root')" "rep h' root' (insert q S)" "relinked h1 h'"
    "b_magic h' = (b_magic h1)(q := MAGIC_F)"
  using add_law [OF frame_law [OF assms(1,2)] assms(3,4)] that by metis

end

definition frees :: "bheap \<Rightarrow> badr \<Rightarrow> badr set \<Rightarrow> bool" where
  "frees h root S \<longleftrightarrow> (\<exists>t. free_tree h root t \<and> set (addrs t) = S)"

lemma bst_cong: "(\<And>x. x \<in> set (addrs t) \<Longrightarrow> sz x = sz' x) \<Longrightarrow> bst sz t \<Longrightarrow> bst sz' t"
proof (induction t)
  case (Node l rs r)
  have b: "rs \<noteq> []" "bst sz l" "bst sz r" using Node.prems(2) by auto
  have hd: "sz (hd rs) = sz' (hd rs)" using Node.prems(1) b(1) by simp
  have tl: "sz x = sz' x" if "x \<in> set (tl rs)" for x using Node.prems(1) subsetD [OF set_tl that] by simp
  have sub: "sz x = sz' x" if "x \<in> set (addrs l) \<union> set (addrs r)" for x using Node.prems(1) that by auto
  have "bst sz' l" "bst sz' r" using Node.IH b sub by auto
  moreover have "\<forall>x\<in>set (tl rs). sz' x = sz' (hd rs)" using Node.prems(2) tl hd by simp
  ultimately show ?case using Node.prems(2) hd sub b(1) by simp
qed simp

interpretation tf: free_blocks frees pooladd pooldel
proof
  fix h :: bheap and root S q
  assume f: "frees h root S" and q: "q \<notin> S" "q \<noteq> 0"
  obtain t where t: "free_tree h root t" "set (addrs t) = S" using f by (auto simp: frees_def)
  show "\<exists>h' root'. pooladd h root q = Some (h', root') \<and> frees h' root' (insert q S) \<and> relinked h h' \<and> b_magic h' = (b_magic h)(q := MAGIC_F)"
    using pooladd_tree [OF t(1), of q] q t(2) unfolding frees_def by blast
next
  fix h :: bheap and root S x
  assume f: "frees h root S" and x: "x \<in> S"
  obtain t where t: "free_tree h root t" "set (addrs t) = S" using f by (auto simp: frees_def)
  show "\<exists>h' root'. pooldel h root x = Some (h', root') \<and> frees h' root' (S - {x}) \<and> relinked h h' \<and> b_magic h' = b_magic h"
    using pooldel_tree [OF t(1), of x] x t(2) unfolding frees_def by blast
next
  fix h :: bheap and root S and h' :: bheap
  assume f: "frees h root S" and a: "agree h h' S"
  obtain t where t: "free_tree h root t" "set (addrs t) = S" using f by (auto simp: frees_def)
  have "tree h' root 0 t" by (rule tree_agree [of h]) (use t a in \<open>auto simp: free_tree_def\<close>)
  moreover have "bst (b_size h') t" by (rule bst_cong [of t "b_size h"]) (use t a in \<open>auto simp: free_tree_def agree_def\<close>)
  ultimately show "frees h' root S" using t by (auto simp: frees_def free_tree_def)
qed

section \<open>The invariant\<close>

fun chain_list :: "bheap \<Rightarrow> badr \<Rightarrow> badr list \<Rightarrow> bool" where
  "chain_list h c [] \<longleftrightarrow> c = 0"
| "chain_list h c (b # bs) \<longleftrightarrow> c = b \<and> b \<noteq> 0 \<and> chain_list h (b_clink h b) bs"

text \<open>A leader's arena goes up to the first end mark after it.\<close>

definition arena :: "bheap \<Rightarrow> badr set \<Rightarrow> badr \<Rightarrow> bool" where
  "arena h E b \<longleftrightarrow> b + b_csize h b \<in> E \<and> (\<forall>e\<in>E. b \<le> e \<longrightarrow> b + b_csize h b \<le> e)"

definition marked :: "bheap \<Rightarrow> badr set \<Rightarrow> badr set \<Rightarrow> badr set \<Rightarrow> bool" where
  "marked h L U E \<longleftrightarrow> (\<forall>x\<in>L \<union> E. b_magic h x = MAGIC_E) \<and> (\<forall>x\<in>U. b_magic h x \<in> {MAGIC_A, MAGIC_I, MAGIC_F})"

definition chained :: "bheap \<Rightarrow> badr \<Rightarrow> badr set \<Rightarrow> badr set \<Rightarrow> bool" where
  "chained h c L E \<longleftrightarrow> (\<exists>cs. chain_list h c cs \<and> distinct cs \<and> set cs = L) \<and> (\<forall>b\<in>L. arena h E b)"

text \<open>All of it lies in the mapped memory \<open>M\<close>.\<close>

definition covered :: "nat set \<Rightarrow> nat \<Rightarrow> bheap \<Rightarrow> badr set \<Rightarrow> badr set \<Rightarrow> bool" where
  "covered M u h E C \<longleftrightarrow> (\<forall>x\<in>C. {x ..< x + ext u h E x} \<subseteq> M)"

definition geo :: "nat set \<Rightarrow> nat \<Rightarrow> bheap \<Rightarrow> badr \<Rightarrow> badr set \<Rightarrow> badr set \<Rightarrow> badr set \<Rightarrow> bool" where
  "geo M u h c L U E \<longleftrightarrow> tiling u h L U E \<and> finite U \<and> 0 \<notin> L \<union> U \<union> E \<and> marked h L U E \<and> chained h c L E \<and>
    covered M u h E (L \<union> U \<union> E)"

definition free_set :: "bheap \<Rightarrow> badr set \<Rightarrow> badr set" where "free_set h U = {x \<in> U. b_magic h x = MAGIC_F}"
definition live :: "bheap \<Rightarrow> badr set \<Rightarrow> badr set" where "live h U = {x \<in> U. b_magic h x \<noteq> MAGIC_F}"

text \<open>No two free blocks are neighbours.\<close>

definition joined :: "bheap \<Rightarrow> badr set \<Rightarrow> bool" where
  "joined h U \<longleftrightarrow> (\<forall>x\<in>U. b_magic h x = MAGIC_F \<longrightarrow> b_magic h (x + b_size h x) \<noteq> MAGIC_F)"

lemma magics [simp]:
  "MAGIC_A \<noteq> MAGIC_F" "MAGIC_I \<noteq> MAGIC_F" "MAGIC_E \<noteq> MAGIC_F" "MAGIC_F \<noteq> MAGIC_A" "MAGIC_F \<noteq> MAGIC_I" "MAGIC_F \<noteq> MAGIC_E"
  "MAGIC_E \<noteq> MAGIC_A" "MAGIC_E \<noteq> MAGIC_I" "MAGIC_A \<noteq> MAGIC_E" "MAGIC_I \<noteq> MAGIC_E" "MAGIC_A \<noteq> MAGIC_I"
  "MAGIC_A \<noteq> 0" "MAGIC_F \<noteq> 0" "MAGIC_E \<noteq> 0" "MAGIC_I \<noteq> 0" "0 \<noteq> MAGIC_F"
  by (simp_all add: MAGIC_A_def MAGIC_F_def MAGIC_E_def MAGIC_I_def)

lemma covered_cong: "covered M u h E C \<Longrightarrow> b_size h' = b_size h \<Longrightarrow> covered M u h' E C"
  by (subgoal_tac "ext u h' = ext u h") (simp_all add: covered_def ext_def fun_eq_iff)

lemma geo_tiling: "geo M u h c L U E \<Longrightarrow> tiling u h L U E"
  by (simp add: geo_def)

lemma live_in_use: "geo M u h c L U E \<Longrightarrow> x \<in> U \<Longrightarrow> x \<in> live h U \<longleftrightarrow> in_use h x"
  unfolding geo_def marked_def live_def in_use_def by auto

lemma chained_cong: "chained h c L E \<Longrightarrow> (\<And>b. b \<in> L \<Longrightarrow> b_clink h' b = b_clink h b \<and> b_csize h' b = b_csize h b) \<Longrightarrow> chained h' c L E"
proof -
  assume c: "chained h c L E" and e: "\<And>b. b \<in> L \<Longrightarrow> b_clink h' b = b_clink h b \<and> b_csize h' b = b_csize h b"
  have l: "chain_list h' c cs" if "chain_list h c cs" "set cs \<subseteq> L" for cs
    using that by (induction cs arbitrary: c) (auto simp: e)
  obtain cs where "chain_list h c cs" "distinct cs" "set cs = L" "\<forall>b\<in>L. arena h E b" using c by (auto simp: chained_def)
  moreover have "arena h' E b" if "b \<in> L" "arena h E b" for b using that e by (simp add: arena_def)
  ultimately show ?thesis using l unfolding chained_def by blast
qed

text \<open>What follows a block in use is a block or the end; a free one is never an end mark.\<close>

lemma geo_next_free:
  assumes "geo M u h c L U E" "b \<in> U" "b_magic h (b + b_size h b) = MAGIC_F"
  shows "b + b_size h b \<in> U"
  using assms tiling_next [OF geo_tiling [OF assms(1)], of b] by (auto simp: geo_def marked_def)

lemma geo_prev_free:
  assumes "geo M u h c L U E" "b \<in> U" "b_magic h (t_hdr h (b - 8)) = MAGIC_F"
  shows "t_hdr h (b - 8) \<in> U"
  using assms tiling_prev(1) [OF geo_tiling [OF assms(1)], of b] by (auto simp: geo_def marked_def)

lemma geo_mark:
  assumes "geo M u h c L U E" "x \<in> U" "m \<in> {MAGIC_A, MAGIC_I, MAGIC_F}" "b_magic h' = (b_magic h)(x := m)" "b_size h' = b_size h"
    "t_hdr h' = t_hdr h" "b_clink h' = b_clink h" "b_csize h' = b_csize h"
  shows "geo M u h' c L U E"
proof -
  have s: "x \<notin> L" "x \<notin> E" using tiling_sets [OF geo_tiling [OF assms(1)]] assms(2) by auto
  show ?thesis using assms s unfolding geo_def marked_def by (auto intro: tiling_cong chained_cong covered_cong)
qed

lemma geo_relinked:
  assumes "geo M u h c L U E" "relinked h h'" "b_magic h' = b_magic h"
  shows "geo M u h' c L U E"
  using assms unfolding geo_def relinked_def marked_def by (auto intro: tiling_cong chained_cong covered_cong)

section \<open>Joining free neighbours\<close>

text \<open>\<open>x\<close> swallows the block \<open>y\<close> after it, which is no longer in the tree.\<close>

lemma geo_merge:
  assumes G: "geo M u h c L U E" and x: "x \<in> U" and y: "y \<in> U" "y = x + b_size h x"
    and h': "b_size h' = (b_size h)(x := b_size h x + b_size h y)" "t_hdr h' = (t_hdr h)(x + b_size h x + b_size h y - 8 := x)"
      "b_clink h' = b_clink h" "b_csize h' = b_csize h" "b_magic h' = (b_magic h)(y := 0)"
  shows "geo M u h' c L (U - {y}) E"
proof -
  note T = geo_tiling [OF G]
  have "y \<notin> L" "y \<notin> E" using tiling_sets [OF T] y by auto
  then have "marked h' L (U - {y}) E" using G h'(5) by (auto simp: geo_def marked_def)
  moreover have "tiling u h' L (U - {y}) E" by (rule tiling_merge [OF T x y h'(1,2)])
  moreover have "covered M u h' E (L \<union> (U - {y}) \<union> E)"
  proof -
    have C: "covered M u h E (L \<union> U \<union> E)" using G by (simp add: geo_def)
    have xe: "x \<notin> E" "y \<notin> E" using tiling_sets [OF T] x y by auto
    have "{x ..< y} \<subseteq> M" "{y ..< y + b_size h y} \<subseteq> M" using C x y xe unfolding covered_def ext_def by fastforce+
    moreover have "{x ..< y + b_size h y} \<subseteq> {x ..< y} \<union> {y ..< y + b_size h y}" by auto
    ultimately have "{x ..< x + ext u h' E x} \<subseteq> M" using xe y(2) h'(1) by (auto simp: ext_def add.assoc)
    moreover have "ext u h' E z = ext u h E z" if "z \<noteq> x" for z using that h'(1) by (simp add: ext_def)
    ultimately show ?thesis using C unfolding covered_def by (metis DiffD1 UnE UnI1 UnI2)
  qed
  moreover have "chained h' c L E" using G h'(3,4) by (auto simp: geo_def intro: chained_cong)
  ultimately show ?thesis using G by (simp add: geo_def)
qed

definition joins :: "nat set \<Rightarrow> nat \<Rightarrow> badr \<Rightarrow> badr \<Rightarrow> badr set \<Rightarrow> badr set \<Rightarrow> badr set \<Rightarrow> bheap \<Rightarrow> badr \<Rightarrow> bheap \<Rightarrow> badr \<Rightarrow> badr set \<Rightarrow> bool" where
  "joins M u c b L U E h root h' root' U' \<longleftrightarrow> geo M u h' c L U' E \<and> frees h' root' (free_set h' U') \<and> joined h' U' \<and>
    b \<in> U' \<and> b_magic h' b = b_magic h b \<and> b_magic h' (b + b_size h' b) \<noteq> MAGIC_F \<and> live h' U' = live h U \<and>
    (\<forall>x\<in>live h U - {b}. b_size h' x = b_size h x) \<and> b_size h b \<le> b_size h' b"

lemma join_forward_ok:
  assumes G: "geo M u (p_mem p) c L U E" and F: "frees (p_mem p) (p_root p) (free_set (p_mem p) U)" and J: "joined (p_mem p) U"
    and b: "b \<in> U" "b_magic (p_mem p) b \<noteq> MAGIC_F"
  shows "\<exists>h' root' ptr' U'. join_forward p b = Some (p\<lparr>p_mem := h', p_root := root', p_ptr := ptr'\<rparr>) \<and>
    joins M u c b L U E (p_mem p) (p_root p) h' root' U'"
proof -
  define h where "h = p_mem p"
  define y where "y = b + b_size h b"
  show ?thesis
  proof (cases "b_magic h y = MAGIC_F")
    case False
    have "join_forward p b = Some (p\<lparr>p_mem := h, p_root := p_root p, p_ptr := p_ptr p\<rparr>)"
      using False by (simp add: join_forward_def B2NB_def y_def h_def Let_def)
    moreover have "joins M u c b L U E h (p_root p) h (p_root p) U"
      using G F J b False by (simp add: joins_def h_def y_def)
    ultimately show ?thesis unfolding h_def by blast
  next
    case True
    have yU: "y \<in> U" unfolding y_def by (rule geo_next_free [OF G [folded h_def] b(1)]) (use True y_def in simp)
    have yb: "y \<noteq> b" using b True by (auto simp: h_def)
    have yS: "y \<in> free_set h U" using yU True by (simp add: free_set_def)
    obtain h1 root1 where D: "pooldel h (p_root p) y = Some (h1, root1)" "relinked h h1" "b_magic h1 = b_magic h"
        "\<And>h2. agree h1 h2 (free_set h U - {y}) \<Longrightarrow> frees h2 root1 (free_set h U - {y})"
      by (rule tf.del_update [OF F [folded h_def] yS]) blast
    define h2 where "h2 = set_tail b (set_size b (b_size h b + b_size h y) (set_magic y 0 h1))"
    have r: "b_size h1 = b_size h" "t_hdr h1 = t_hdr h" "b_clink h1 = b_clink h" "b_csize h1 = b_csize h" using D(2) by (auto simp: relinked_def)
    have e: "b_size h2 = (b_size h)(b := b_size h b + b_size h y)" "t_hdr h2 = (t_hdr h)(b + b_size h b + b_size h y - 8 := b)"
      "b_clink h2 = b_clink h" "b_csize h2 = b_csize h" "b_magic h2 = (b_magic h)(y := 0)"
      using r D(3) by (simp_all add: h2_def set_tail_def B2T_def tail_size_def add.assoc)
    have eq: "join_forward p b = Some (p\<lparr>p_mem := h2, p_root := root1, p_ptr := (if y = p_ptr p then b else p_ptr p)\<rparr>)"
      using True D(1) r yb
      by (auto simp: join_forward_def B2NB_def y_def [symmetric] h_def [symmetric] Let_def pool_del_def h2_def intro!: pool.equality)
    have "geo M u h2 c L (U - {y}) E" by (rule geo_merge [OF G [folded h_def] b(1) yU y_def e])
    moreover have fs: "free_set h2 (U - {y}) = free_set h U - {y}" using e(5) by (auto simp: free_set_def)
    have "agree h1 h2 (free_set h U - {y})"
      using b by (auto simp: agree_def free_set_def h2_def set_tail_def h_def)
    then have "frees h2 root1 (free_set h2 (U - {y}))" using D(4) fs by simp
    moreover have "joined h2 (U - {y})"
      using J b e by (auto simp: joined_def h_def)
    moreover have "b_magic h2 (b + b_size h2 b) \<noteq> MAGIC_F"
      using J yU True e by (auto simp: joined_def h_def y_def add.assoc)
    moreover have "live h2 (U - {y}) = live h U" using e(5) True by (auto simp: live_def)
    ultimately have "joins M u c b L U E h (p_root p) h2 root1 (U - {y})" using b yb e by (auto simp: joins_def h_def)
    then show ?thesis using eq unfolding h_def by blast
  qed
qed

text \<open>
  Backwards, the free block before \<open>b\<close> swallows it. It stays out of the tree, marked free, until
  \<open>pooladd\<close> puts it back; otherwise the block to be put there is \<open>b\<close> itself.
\<close>

definition ready :: "nat set \<Rightarrow> nat \<Rightarrow> badr \<Rightarrow> badr \<Rightarrow> badr set \<Rightarrow> badr set \<Rightarrow> badr set \<Rightarrow> bheap \<Rightarrow> badr \<Rightarrow> bheap \<Rightarrow> badr \<Rightarrow> badr set \<Rightarrow> badr \<Rightarrow> bool" where
  "ready M u c b L U E h root h' root' U' d \<longleftrightarrow> geo M u h' c L U' E \<and> d \<in> U' \<and> frees h' root' (free_set h' U' - {d}) \<and>
    (\<forall>x\<in>U'. x = d \<or> b_magic h' x = MAGIC_F \<longrightarrow> x + b_size h' x \<noteq> d \<and> b_magic h' (x + b_size h' x) \<noteq> MAGIC_F) \<and>
    live h' U' - {d} = live h U - {b} \<and> (\<forall>x\<in>live h U - {b}. b_size h' x = b_size h x) \<and> b_size h b \<le> b_size h' d"

lemma prev_unique:
  assumes "tiling u h L U E" "x \<in> L \<union> U" "y \<in> L \<union> U" "x + b_size h x = y + b_size h y"
  shows "x = y"
  using tails_apart [OF assms(1-3)] assms(4) by auto

lemma join_backward_ok:
  assumes G: "geo M u (p_mem p) c L U E" and F: "frees (p_mem p) (p_root p) (free_set (p_mem p) U)" and J: "joined (p_mem p) U"
    and b: "b \<in> U" "b_magic (p_mem p) b \<noteq> MAGIC_F" "b_magic (p_mem p) (b + b_size (p_mem p) b) \<noteq> MAGIC_F"
  shows "\<exists>h' root' ptr' U' d. join_backward p b = Some (p\<lparr>p_mem := h', p_root := root', p_ptr := ptr'\<rparr>, d) \<and>
    ready M u c b L U E (p_mem p) (p_root p) h' root' U' d"
proof -
  define h where "h = p_mem p"
  define y where "y = t_hdr h (b - 8)"
  note T = geo_tiling [OF G [folded h_def]]
  have y: "y \<in> L \<union> U" "b = y + b_size h y" using tiling_prev [OF T, of b] b(1) by (auto simp: y_def)
  have bb: "b + b_size h b \<noteq> b" using tiling_ge [OF T, of b] b(1) by simp
  show ?thesis
  proof (cases "b_magic h y = MAGIC_F")
    case False
    have "join_backward p b = Some (p\<lparr>p_mem := h, p_root := p_root p, p_ptr := p_ptr p\<rparr>, b)"
      using False by (simp add: join_backward_def B2PT_def tail_size_def y_def h_def Let_def)
    moreover have "ready M u c b L U E h (p_root p) h (p_root p) U b"
    proof -
      have "free_set h U - {b} = free_set h U" using b(2) by (auto simp: free_set_def h_def)
      moreover have "x + b_size h x \<noteq> b" if "x \<in> U" "x = b \<or> b_magic h x = MAGIC_F" for x
        using prev_unique [OF T _ y(1), of x] y(2) that bb False by auto
      ultimately show ?thesis using G F J b unfolding ready_def joined_def h_def by auto
    qed
    ultimately show ?thesis unfolding h_def by blast
  next
    case True
    have yU: "y \<in> U" unfolding y_def by (rule geo_prev_free [OF G [folded h_def] b(1)]) (use True y_def in simp)
    have yb: "y \<noteq> b" using b True by (auto simp: h_def)
    have yS: "y \<in> free_set h U" using yU True by (simp add: free_set_def)
    obtain h1 root1 where D: "pooldel h (p_root p) y = Some (h1, root1)" "relinked h h1" "b_magic h1 = b_magic h"
        "\<And>h2. agree h1 h2 (free_set h U - {y}) \<Longrightarrow> frees h2 root1 (free_set h U - {y})"
      by (rule tf.del_update [OF F [folded h_def] yS]) blast
    define h2 where "h2 = set_tail y (set_size y (b_size h y + b_size h b) (set_magic b 0 h1))"
    have r: "b_size h1 = b_size h" "t_hdr h1 = t_hdr h" "b_clink h1 = b_clink h" "b_csize h1 = b_csize h" using D(2) by (auto simp: relinked_def)
    have e: "b_size h2 = (b_size h)(y := b_size h y + b_size h b)" "t_hdr h2 = (t_hdr h)(y + b_size h y + b_size h b - 8 := y)"
      "b_clink h2 = b_clink h" "b_csize h2 = b_csize h" "b_magic h2 = (b_magic h)(b := 0)"
      using r D(3) by (simp_all add: h2_def set_tail_def B2T_def tail_size_def add.assoc)
    have eq: "join_backward p b = Some (p\<lparr>p_mem := h2, p_root := root1, p_ptr := (if b = p_ptr p then y else p_ptr p)\<rparr>, y)"
      using True D(1) r yb
      by (auto simp: join_backward_def B2PT_def tail_size_def y_def [symmetric] h_def [symmetric] Let_def pool_del_def h2_def intro!: pool.equality)
    have g2: "geo M u h2 c L (U - {b}) E" by (rule geo_merge [OF G [folded h_def] yU b(1) y(2) e])
    moreover have fs: "free_set h2 (U - {b}) - {y} = free_set h U - {y}" using e(5) b(2) by (auto simp: free_set_def h_def)
    have "agree h1 h2 (free_set h U - {y})"
      using b(2) by (auto simp: agree_def free_set_def h2_def set_tail_def h_def)
    then have "frees h2 root1 (free_set h2 (U - {b}) - {y})" using D(4) fs by simp
    moreover have "x + b_size h2 x \<noteq> y \<and> b_magic h2 (x + b_size h2 x) \<noteq> MAGIC_F" if "x \<in> U - {b}" "x = y \<or> b_magic h2 x = MAGIC_F" for x
    proof (cases "x = y")
      case True
      then show ?thesis using e y(2) b(3) tiling_ge [OF T y(1)] by (simp add: h_def add.assoc)
    next
      case False
      then have x: "x \<in> U" "b_magic h x = MAGIC_F" "b_size h2 x = b_size h x" using that e by auto
      then have "b_magic h (x + b_size h x) \<noteq> MAGIC_F" using J by (auto simp: joined_def h_def)
      then show ?thesis using x e True by auto
    qed
    moreover have "live h2 (U - {b}) - {y} = live h U - {b}" using e(5) True by (auto simp: live_def)
    moreover have "\<forall>x\<in>live h U - {b}. b_size h2 x = b_size h x" using e(1) True by (auto simp: live_def)
    ultimately have "ready M u c b L U E h (p_root p) h2 root1 (U - {b}) y" using yU yb e(1) by (auto simp: ready_def)
    then show ?thesis using eq unfolding h_def by blast
  qed
qed

text \<open>The block is added to the tree.\<close>

lemma pool_add_ok:
  assumes "ready M u c b L U E h0 root0 (p_mem p) (p_root p) U' d"
  shows "\<exists>h' root'. pool_add p d = Some (p\<lparr>p_mem := h', p_root := root'\<rparr>) \<and> geo M u h' c L U' E \<and> frees h' root' (free_set h' U') \<and>
    joined h' U' \<and> live h' U' = live h0 U - {b} \<and> (\<forall>x\<in>live h0 U - {b}. b_size h' x = b_size h0 x) \<and>
    (\<exists>d\<in>free_set h' U'. b_size h0 b \<le> b_size h' d)"
proof -
  define h where "h = p_mem p"
  have G: "geo M u h c L U' E" and d: "d \<in> U'" and F: "frees h (p_root p) (free_set h U' - {d})"
    and J: "\<And>x. x \<in> U' \<Longrightarrow> x = d \<or> b_magic h x = MAGIC_F \<Longrightarrow> x + b_size h x \<noteq> d \<and> b_magic h (x + b_size h x) \<noteq> MAGIC_F"
    and l: "live h U' - {d} = live h0 U - {b}" "\<And>x. x \<in> live h0 U - {b} \<Longrightarrow> b_size h x = b_size h0 x"
    and sz: "b_size h0 b \<le> b_size h d"
    using assms unfolding ready_def h_def by auto
  have d0: "d \<noteq> 0" using G d by (cases "d = 0") (auto simp: geo_def)
  have ag: "agree h h (free_set h U' - {d})" by (simp add: agree_def)
  obtain h' root' where A: "pooladd h (p_root p) d = Some (h', root')" "frees h' root' (insert d (free_set h U' - {d}))" "relinked h h'"
      "b_magic h' = (b_magic h)(d := MAGIC_F)"
    by (rule tf.update_add [OF F ag _ d0]) auto
  have r: "b_size h' = b_size h" "t_hdr h' = t_hdr h" "b_clink h' = b_clink h" "b_csize h' = b_csize h" using A(3) by (auto simp: relinked_def)
  have "geo M u h' c L U' E" by (rule geo_mark [OF G d _ A(4) r]) simp
  moreover have "free_set h' U' = insert d (free_set h U' - {d})" using d A(4) by (auto simp: free_set_def)
  moreover have "joined h' U'" using J J [OF d] A(4) r(1) unfolding joined_def by (auto split: if_splits)
  moreover have "live h' U' = live h U' - {d}" using A(4) by (auto simp: live_def)
  moreover have "pool_add p d = Some (p\<lparr>p_mem := h', p_root := root'\<rparr>)" using A(1) by (simp add: pool_add_def h_def)
  ultimately show ?thesis using A(2) l r(1) sz by - (rule exI [of _ h'], rule exI [of _ root'], auto)
qed

section \<open>poolfree\<close>

definition region :: "(nat \<times> nat) list \<Rightarrow> nat set" where
  "region ms = (\<Union>(a, n)\<in>set ms. {a ..< a + n})"

text \<open>
  The whole invariant, for a pool without a \<open>move\<close> function: the shape of its blocks and tree, the memory in
  use, and how much memory is mapped.
\<close>

definition shape :: "pool \<Rightarrow> badr set \<Rightarrow> badr set \<Rightarrow> badr set \<Rightarrow> bool" where
  "shape p L U E \<longleftrightarrow> geo (region (p_maps p)) (p_quanta p + 1) (p_mem p) (p_chain p) L U E \<and>
    frees (p_mem p) (p_root p) (free_set (p_mem p) U) \<and> joined (p_mem p) U"

definition in_use_size :: "pool \<Rightarrow> badr set \<Rightarrow> nat" where
  "in_use_size p U = (\<Sum>x\<in>live (p_mem p) U. b_size (p_mem p) x)"

definition config :: "pool \<Rightarrow> bool" where
  "config p \<longleftrightarrow> (\<exists>k. 7 \<le> k \<and> p_quanta p + 1 = 2 ^ k) \<and> p_quanta p + 1 dvd p_chunk p \<and> 0 < p_chunk p \<and> \<not> p_move p"

definition accounts :: "pool \<Rightarrow> bool" where
  "accounts p \<longleftrightarrow> (\<Sum>(a, n)\<leftarrow>p_maps p. n) \<le> p_arenasize p \<and> p_arenasize p \<le> p_maxsize p"

definition pool_inv :: "pool \<Rightarrow> badr set \<Rightarrow> badr set \<Rightarrow> badr set \<Rightarrow> bool" where
  "pool_inv p L U E \<longleftrightarrow> shape p L U E \<and> p_cursize p = in_use_size p U \<and> p_cursize p \<le> p_hw p \<and> config p \<and> accounts p"

lemma D2B_live:
  assumes "shape p L U E" "b \<in> live (p_mem p) U"
  shows "D2B (p_mem p) (B2D b) = Some b"
proof -
  have "b \<in> U" using assms(2) by (simp add: live_def)
  then have "in_use (p_mem p) b" using assms live_in_use unfolding shape_def by blast
  then show ?thesis by (simp add: D2B_def B2D_def)
qed

text \<open>What freeing the block does to the shape, whatever the counts are.\<close>

lemma poolfree_shape:
  assumes S: "shape p L U E" and b: "b \<in> live (p_mem p) U"
  shows "\<exists>h' root' ptr' U'. poolfree p (B2D b) = Some (p\<lparr>p_mem := h', p_root := root', p_ptr := ptr', p_nfree := p_nfree p + 1,
      p_cursize := p_cursize p - b_size (p_mem p) b\<rparr>) \<and>
    shape (p\<lparr>p_mem := h', p_root := root'\<rparr>) L U' E \<and> live h' U' = live (p_mem p) U - {b} \<and>
    (\<forall>x\<in>live (p_mem p) U - {b}. b_size h' x = b_size (p_mem p) x) \<and>
    (\<exists>d\<in>free_set h' U'. b_size (p_mem p) b \<le> b_size h' d)"
proof -
  let ?M = "region (p_maps p)" and ?u = "p_quanta p + 1"
  define p1 where "p1 = p\<lparr>p_nfree := p_nfree p + 1, p_cursize := p_cursize p - b_size (p_mem p) b\<rparr>"
  have p1: "p_mem p1 = p_mem p" "p_root p1 = p_root p" by (simp_all add: p1_def)
  have bU: "b \<in> U" "b_magic (p_mem p) b \<noteq> MAGIC_F" using b by (auto simp: live_def)
  have "\<exists>h' root' ptr' U'. join_forward p1 b = Some (p1\<lparr>p_mem := h', p_root := root', p_ptr := ptr'\<rparr>) \<and>
      joins ?M ?u (p_chain p) b L U E (p_mem p1) (p_root p1) h' root' U'"
    by (rule join_forward_ok) (use S bU p1 in \<open>auto simp: shape_def\<close>)
  then obtain h2 root2 ptr2 U2 where f: "join_forward p1 b = Some (p1\<lparr>p_mem := h2, p_root := root2, p_ptr := ptr2\<rparr>)"
    and J: "joins ?M ?u (p_chain p) b L U E (p_mem p) (p_root p) h2 root2 U2" unfolding p1 by blast
  define p2 where "p2 = p1\<lparr>p_mem := h2, p_root := root2, p_ptr := ptr2\<rparr>"
  have "\<exists>h' root' ptr' U' d. join_backward p2 b = Some (p2\<lparr>p_mem := h', p_root := root', p_ptr := ptr'\<rparr>, d) \<and>
      ready ?M ?u (p_chain p) b L U2 E (p_mem p2) (p_root p2) h' root' U' d"
    by (rule join_backward_ok) (use J bU in \<open>auto simp: joins_def p2_def\<close>)
  then obtain h3 root3 ptr3 U3 d where k: "join_backward p2 b = Some (p2\<lparr>p_mem := h3, p_root := root3, p_ptr := ptr3\<rparr>, d)"
    and R: "ready ?M ?u (p_chain p) b L U2 E h2 root2 h3 root3 U3 d" by (auto simp: p2_def)
  define p3 where "p3 = p2\<lparr>p_mem := h3, p_root := root3, p_ptr := ptr3\<rparr>"
  have "p_mem p3 = h3" "p_root p3 = root3" by (simp_all add: p3_def)
  then obtain h4 root4 where A: "pool_add p3 d = Some (p3\<lparr>p_mem := h4, p_root := root4\<rparr>)" and
      E: "geo ?M ?u h4 (p_chain p) L U3 E" "frees h4 root4 (free_set h4 U3)" "joined h4 U3" "live h4 U3 = live h2 U2 - {b}"
      "\<forall>x\<in>live h2 U2 - {b}. b_size h4 x = b_size h2 x" "\<exists>d\<in>free_set h4 U3. b_size h2 b \<le> b_size h4 d"
    using pool_add_ok [of ?M ?u "p_chain p" b L U2 E h2 root2 p3 U3 d] R by auto
  have "poolfree p (B2D b) = Some (p3\<lparr>p_mem := h4, p_root := root4\<rparr>)"
    using D2B_live [OF S b] f k A unfolding p2_def [symmetric] p3_def [symmetric] by (simp only: poolfree_def p1_def [symmetric] Let_def option.case prod.case)
  moreover have "p3\<lparr>p_mem := h4, p_root := root4\<rparr> = p\<lparr>p_mem := h4, p_root := root4, p_ptr := ptr3, p_nfree := p_nfree p + 1,
      p_cursize := p_cursize p - b_size (p_mem p) b\<rparr>"
    by (simp add: p3_def p2_def p1_def)
  moreover have "shape (p\<lparr>p_mem := h4, p_root := root4\<rparr>) L U3 E" using E by (simp add: shape_def)
  moreover have "live h4 U3 = live (p_mem p) U - {b}" "\<forall>x\<in>live (p_mem p) U - {b}. b_size h4 x = b_size (p_mem p) x"
    using E(4,5) J by (auto simp: joins_def)
  moreover have "\<exists>d\<in>free_set h4 U3. b_size (p_mem p) b \<le> b_size h4 d" using E(6) J by (auto simp: joins_def intro: order_trans)
  ultimately show ?thesis by auto
qed

lemma finite_live: "shape p L U E \<Longrightarrow> finite (live (p_mem p) U)"
  by (simp add: shape_def geo_def live_def)

lemma poolfree_inv:
  assumes I: "pool_inv p L U E" and b: "b \<in> live (p_mem p) U"
  obtains p' U' where "poolfree p (B2D b) = Some p'" "pool_inv p' L U' E" "live (p_mem p') U' = live (p_mem p) U - {b}"
    "\<forall>x\<in>live (p_mem p) U - {b}. b_size (p_mem p') x = b_size (p_mem p) x"
    "p_data p' = p_data p" "p_maps p' = p_maps p" "p_ressize p' = p_ressize p" "p_quanta p' = p_quanta p"
    "p_cursize p' + b_size (p_mem p) b = p_cursize p"
proof -
  have S: "shape p L U E" using I by (simp add: pool_inv_def)
  obtain h' root' ptr' U' where F: "poolfree p (B2D b) = Some (p\<lparr>p_mem := h', p_root := root', p_ptr := ptr', p_nfree := p_nfree p + 1,
        p_cursize := p_cursize p - b_size (p_mem p) b\<rparr>)"
      "shape (p\<lparr>p_mem := h', p_root := root'\<rparr>) L U' E" "live h' U' = live (p_mem p) U - {b}"
      "\<forall>x\<in>live (p_mem p) U - {b}. b_size h' x = b_size (p_mem p) x"
    using poolfree_shape [OF S b] by blast
  have "in_use_size p U = b_size (p_mem p) b + (\<Sum>x\<in>live (p_mem p) U - {b}. b_size (p_mem p) x)"
    unfolding in_use_size_def by (rule sum.remove [OF finite_live [OF S] b])
  then have c: "p_cursize p = b_size (p_mem p) b + (\<Sum>x\<in>live h' U'. b_size h' x)" using I F(3,4) by (simp add: pool_inv_def)
  show thesis
    by (rule that [OF F(1)]) (use F I c in \<open>auto simp: pool_inv_def shape_def in_use_size_def config_def accounts_def\<close>)
qed

end
