(* ===== verification/Pool_Alloc.thy ===== *)
theory Pool_Alloc
  imports Pool_Inv
begin

text \<open>
  \<open>dopoolalloc\<close> keeps the pool's invariant: the search for the best fit, taking and splitting a block, a new
  arena, and an arena made longer.
\<close>

unbundle bit_operations_syntax

section \<open>Sizes\<close>

lemma int_and_not_mask: "(x :: int) AND NOT (mask k) = x div 2 ^ k * 2 ^ k"
proof -
  have "x AND NOT (mask k) = push_bit k (drop_bit k x)" by (rule bit_eqI) (auto simp: bit_simps)
  then show ?thesis by (simp add: push_bit_eq_mult drop_bit_eq_div)
qed

lemma int_and_not_quanta: "q + 1 = 2 ^ k \<Longrightarrow> (x :: int) AND NOT (int q) = x div 2 ^ k * 2 ^ k"
proof -
  assume "q + 1 = 2 ^ k"
  then have "int q + 1 = 2 ^ k" by (metis of_nat_1 of_nat_add of_nat_numeral of_nat_power)
  then have "int q = mask k" by (simp add: mask_eq_exp_minus_1)
  then show ?thesis by (simp only: int_and_not_mask)
qed

lemma and_not_quanta: "q + 1 = 2 ^ k \<Longrightarrow> and_not n q = n div 2 ^ k * 2 ^ k"
proof -
  assume "q + 1 = 2 ^ k"
  then have "int n AND NOT (int q) = int n div 2 ^ k * 2 ^ k" by (rule int_and_not_quanta)
  also have "\<dots> = int (n div 2 ^ k * 2 ^ k)" by (simp add: zdiv_int)
  finally show ?thesis unfolding and_not_def by (simp only: nat_int)
qed

lemma alloc_size_bounds:
  assumes "config p"
  shows "p_quanta p + 1 dvd alloc_size p n" "n + BHDRSIZE \<le> alloc_size p n" "alloc_size p n < n + BHDRSIZE + (p_quanta p + 1)" "0 < alloc_size p n"
proof -
  obtain k where k: "p_quanta p + 1 = 2 ^ k" using assms by (auto simp: config_def)
  define m where "m = n + BHDRSIZE + p_quanta p"
  have e: "alloc_size p n = m div 2 ^ k * 2 ^ k" unfolding alloc_size_def m_def by (rule and_not_quanta [OF k])
  have m: "m = m div 2 ^ k * 2 ^ k + m mod 2 ^ k" by (simp add: div_mult_mod_eq)
  have l: "m mod 2 ^ k < p_quanta p + 1" unfolding k by simp
  show "p_quanta p + 1 dvd alloc_size p n" unfolding e k by simp
  show b: "n + BHDRSIZE \<le> alloc_size p n" unfolding e using m l unfolding m_def by linarith
  show "alloc_size p n < n + BHDRSIZE + (p_quanta p + 1)" unfolding e using m unfolding m_def by linarith
  show "0 < alloc_size p n" using b by (simp add: BHDRSIZE_def hdr_size_def)
qed

section \<open>The search\<close>

lemma alloc_find_tree:
  assumes "tree h p par T" "bst (b_size h) T"
  shows "\<exists>t q'. alloc_find h n q p = Some (t, q') \<and>
    (t \<noteq> 0 \<longrightarrow> t \<in> set (addrs T) \<and> b_size h t = n \<and> b_fwd h t \<in> set (addrs T) \<and> b_size h (b_fwd h t) = n) \<and>
    (t = 0 \<longrightarrow> (q' = q \<and> (\<forall>x\<in>set (addrs T). b_size h x < n)) \<or>
      (q' \<in> set (addrs T) \<and> n < b_size h q' \<and> (\<forall>x\<in>set (addrs T). n \<le> b_size h x \<longrightarrow> b_size h q' \<le> b_size h x)))"
  using assms
proof (induction T arbitrary: p par q)
  case Leaf
  then show ?case by (simp add: alloc_find.simps)
next
  case (Node l rs r)
  have t: "node h par rs" "p = hd rs" "tree h (b_left h p) p l" "tree h (b_right h p) p r" using Node.prems(1) by auto
  have b: "bst (b_size h) l" "bst (b_size h) r" using Node.prems(2) by auto
  have p: "p \<noteq> 0" "p \<in> set rs" using node_nonzero [OF t(1)] node_nonempty [OF t(1)] t(2) by auto
  have rs: "b_size h x = b_size h p" if "x \<in> set rs" for x using that Node.prems(2) t(2) hd_tl_set [of rs x] by auto
  have lo: "b_size h x < b_size h p" if "x \<in> set (addrs l)" for x using that Node.prems(2) t(2) by auto
  have hi: "b_size h p < b_size h x" if "x \<in> set (addrs r)" for x using that Node.prems(2) t(2) by auto
  have f: "b_fwd h p \<in> set rs"
  proof -
    have "ring h rs" using t(1) by (simp add: node_def)
    then show ?thesis using t(2) p(2) by (cases rs) (auto simp: ring_iff successively_Cons split: if_splits)
  qed
  consider "b_size h p = n" | "n < b_size h p" | "b_size h p < n" by linarith
  then show ?case
  proof cases
    case 1
    then have "alloc_find h n q p = Some (p, q)" using p by (simp add: alloc_find.simps)
    then show ?thesis using 1 p f rs [OF f] by simp
  next
    case w: 2
    have e: "alloc_find h n q p = alloc_find h n p (b_left h p)" using w p by (subst alloc_find.simps) auto
    obtain t' q' where I: "alloc_find h n p (b_left h p) = Some (t', q')"
        "t' \<noteq> 0 \<Longrightarrow> t' \<in> set (addrs l) \<and> b_size h t' = n \<and> b_fwd h t' \<in> set (addrs l) \<and> b_size h (b_fwd h t') = n"
        "t' = 0 \<Longrightarrow> (q' = p \<and> (\<forall>x\<in>set (addrs l). b_size h x < n)) \<or> (q' \<in> set (addrs l) \<and> n < b_size h q' \<and> (\<forall>x\<in>set (addrs l). n \<le> b_size h x \<longrightarrow> b_size h q' \<le> b_size h x))"
      using Node.IH(1) [OF t(3) b(1), of p] by blast
    have m: "b_size h p \<le> b_size h x" if "x \<in> set rs \<or> x \<in> set (addrs r)" for x using that rs hi less_imp_le by auto
    have "q' \<in> set (addrs (Node l rs r)) \<and> n < b_size h q' \<and> (\<forall>x\<in>set (addrs (Node l rs r)). n \<le> b_size h x \<longrightarrow> b_size h q' \<le> b_size h x)" if "t' = 0"
      using I(3) [OF that]
    proof
      assume a: "q' = p \<and> (\<forall>x\<in>set (addrs l). b_size h x < n)"
      then show ?thesis using w p m by fastforce
    next
      assume a: "q' \<in> set (addrs l) \<and> n < b_size h q' \<and> (\<forall>x\<in>set (addrs l). n \<le> b_size h x \<longrightarrow> b_size h q' \<le> b_size h x)"
      then have "b_size h q' \<le> b_size h x" if "x \<in> set rs \<or> x \<in> set (addrs r)" for x using lo [of q'] m [OF that] by simp
      then show ?thesis using a by auto
    qed
    then show ?thesis using e I by auto
  next
    case 3
    have e: "alloc_find h n q p = alloc_find h n q (b_right h p)" using 3 p by (subst alloc_find.simps) auto
    obtain t' q' where I: "alloc_find h n q (b_right h p) = Some (t', q')"
        "t' \<noteq> 0 \<Longrightarrow> t' \<in> set (addrs r) \<and> b_size h t' = n \<and> b_fwd h t' \<in> set (addrs r) \<and> b_size h (b_fwd h t') = n"
        "t' = 0 \<Longrightarrow> (q' = q \<and> (\<forall>x\<in>set (addrs r). b_size h x < n)) \<or> (q' \<in> set (addrs r) \<and> n < b_size h q' \<and> (\<forall>x\<in>set (addrs r). n \<le> b_size h x \<longrightarrow> b_size h q' \<le> b_size h x))"
      using Node.IH(2) [OF t(4) b(2), of q] by blast
    have m: "b_size h x < n" if "x \<in> set rs \<or> x \<in> set (addrs l)" for x using that rs lo [of x] 3 by auto
    show ?thesis
    proof (cases "t' = 0")
      case False
      then show ?thesis using e I by auto
    next
      case True
      have in_r: "x \<in> set (addrs r)" if "x \<in> set (addrs (Node l rs r))" "n \<le> b_size h x" for x using that m [of x] by auto
      have "(q' = q \<and> (\<forall>x\<in>set (addrs (Node l rs r)). b_size h x < n)) \<or>
        (q' \<in> set (addrs (Node l rs r)) \<and> n < b_size h q' \<and> (\<forall>x\<in>set (addrs (Node l rs r)). n \<le> b_size h x \<longrightarrow> b_size h q' \<le> b_size h x))"
        using I(3) [OF True] in_r m by (auto simp: not_le [symmetric])
      then show ?thesis using e I(1) True by simp
    qed
  qed
qed

text \<open>The block found is the best: the exact size, or the smallest that is large enough, if there is one.\<close>

definition best_fit :: "bheap \<Rightarrow> badr set \<Rightarrow> nat \<Rightarrow> badr \<Rightarrow> badr \<Rightarrow> bool" where
  "best_fit h S n t q \<longleftrightarrow>
    (if t \<noteq> 0 then b_fwd h t \<in> S \<and> b_size h (b_fwd h t) = n
     else if q \<noteq> 0 then q \<in> S \<and> n < b_size h q \<and> (\<forall>x\<in>S. n \<le> b_size h x \<longrightarrow> b_size h q \<le> b_size h x)
     else \<forall>x\<in>S. b_size h x < n)"

lemma alloc_find_best:
  assumes "frees h root S"
  obtains t q where "alloc_find h n 0 root = Some (t, q)" "best_fit h S n t q"
proof -
  obtain T where T: "tree h root 0 T" "bst (b_size h) T" "set (addrs T) = S" using assms by (auto simp: frees_def free_tree_def)
  have z: "0 \<notin> S" using tree_addr_nonzero [OF T(1)] T(3) by simp
  obtain t q where A: "alloc_find h n 0 root = Some (t, q)"
      "t \<noteq> 0 \<longrightarrow> t \<in> S \<and> b_size h t = n \<and> b_fwd h t \<in> S \<and> b_size h (b_fwd h t) = n"
      "t = 0 \<longrightarrow> (q = 0 \<and> (\<forall>x\<in>S. b_size h x < n)) \<or> (q \<in> S \<and> n < b_size h q \<and> (\<forall>x\<in>S. n \<le> b_size h x \<longrightarrow> b_size h q \<le> b_size h x))"
    using alloc_find_tree [OF T(1,2), of n 0] unfolding T(3) by blast
  show thesis by (rule that [OF A(1)]) (use A(2,3) z in \<open>auto simp: best_fit_def\<close>)
qed

section \<open>Taking a free block\<close>

lemma take_shape:
  assumes S: "shape p L U E" and x: "x \<in> free_set (p_mem p) U"
  shows "\<exists>h' root'. pool_del p x = Some (p\<lparr>p_mem := h', p_root := root'\<rparr>) \<and> b_size h' = b_size (p_mem p) \<and>
    b_magic h' = b_magic (p_mem p) \<and>
    shape (p\<lparr>p_mem := set_magic x MAGIC_A h', p_root := root'\<rparr>) L U E \<and>
    live (set_magic x MAGIC_A h') U = insert x (live (p_mem p) U)"
proof -
  define h where "h = p_mem p"
  have G: "geo (region (p_maps p)) (p_quanta p + 1) h (p_chain p) L U E" and F: "frees h (p_root p) (free_set h U)" and J: "joined h U"
    using S by (auto simp: shape_def h_def)
  have xU: "x \<in> U" using x by (simp add: free_set_def)
  obtain h1 root1 where D: "pooldel h (p_root p) x = Some (h1, root1)" "relinked h h1" "b_magic h1 = b_magic h"
      "\<And>h2. agree h1 h2 (free_set h U - {x}) \<Longrightarrow> frees h2 root1 (free_set h U - {x})"
    by (rule tf.del_update [OF F x [folded h_def]]) blast
  define h2 where "h2 = set_magic x MAGIC_A h1"
  have r: "b_size h2 = b_size h" "t_hdr h2 = t_hdr h" "b_clink h2 = b_clink h" "b_csize h2 = b_csize h" "b_magic h2 = (b_magic h)(x := MAGIC_A)"
    using D(2,3) by (auto simp: relinked_def h2_def)
  have "geo (region (p_maps p)) (p_quanta p + 1) h2 (p_chain p) L U E" by (rule geo_mark [OF G xU _ r(5,1-4)]) simp
  moreover have "free_set h2 U = free_set h U - {x}" using r(5) by (auto simp: free_set_def)
  moreover have "agree h1 h2 (free_set h U - {x})" by (auto simp: agree_def h2_def)
  then have "frees h2 root1 (free_set h U - {x})" by (rule D(4))
  moreover have "joined h2 U" using J r(1,5) by (auto simp: joined_def)
  ultimately have "shape (p\<lparr>p_mem := h2, p_root := root1\<rparr>) L U E" by (simp add: shape_def)
  moreover have "live h2 U = insert x (live h U)" using r(5) xU by (auto simp: live_def)
  moreover have "b_size h1 = b_size h" using D(2) by (simp add: relinked_def)
  ultimately show ?thesis using D(1,3) unfolding h2_def h_def
    by - (rule exI [of _ h1], rule exI [of _ root1], simp add: pool_del_def)
qed

section \<open>Splitting a block in use\<close>

lemma covered_split:
  assumes "covered M u h E (L \<union> U \<union> E)" "x \<in> U" "x \<notin> E" "n < b_size h x" "y = x + n" "y \<notin> L \<union> U \<union> E"
    "b_size h' = (b_size h)(x := n, y := b_size h x - n)"
  shows "covered M u h' E (L \<union> insert y U \<union> E)"
proof -
  have c: "{z ..< z + ext u h E z} \<subseteq> M" if "z \<in> L \<union> U \<union> E" for z using assms(1) that unfolding covered_def by blast
  have X: "{x ..< x + b_size h x} \<subseteq> M" using c [of x] assms(2,3) by (simp add: ext_def)
  have "{z ..< z + ext u h' E z} \<subseteq> M" if z: "z \<in> L \<union> insert y U \<union> E" for z
  proof -
    consider "z = x" | "z = y" | "z \<noteq> x" "z \<noteq> y" "z \<in> L \<union> U \<union> E" using z by blast
    then show ?thesis
    proof cases
      case 1
      have "{x ..< x + n} \<subseteq> {x ..< x + b_size h x}" using assms(4) by auto
      then show ?thesis using 1 X assms(3-5,7) by (cases "n = 0") (auto simp: ext_def)
    next
      case w: 2
      have "{y ..< y + (b_size h x - n)} \<subseteq> {x ..< x + b_size h x}" using assms(4,5) by auto
      then show ?thesis using w X assms(6,7) by (auto simp: ext_def)
    next
      case 3
      then have "ext u h' E z = ext u h E z" using assms(7) by (simp add: ext_def)
      then show ?thesis using c [OF 3(3)] by simp
    qed
  qed
  then show ?thesis unfolding covered_def by blast
qed

definition split_heap :: "badr \<Rightarrow> nat \<Rightarrow> bheap \<Rightarrow> bheap" where
  "split_heap q n h = (let ns = b_size h q - n; h = set_tail q (set_size q n h); t = B2NB h q in set_tail t (set_size t ns h))"

lemma split_shape:
  assumes S: "shape p L U E" and q: "q \<in> live (p_mem p) U" and n: "0 < n" "p_quanta p + 1 dvd n" "n < b_size (p_mem p) q"
    and nx: "b_magic (p_mem p) (q + b_size (p_mem p) q) \<noteq> MAGIC_F"
  shows "\<exists>h' root'. pool_add (p\<lparr>p_mem := split_heap q n (p_mem p)\<rparr>) (q + n) = Some (p\<lparr>p_mem := h', p_root := root'\<rparr>) \<and>
    shape (p\<lparr>p_mem := h', p_root := root'\<rparr>) L (insert (q + n) U) E \<and> live h' (insert (q + n) U) = live (p_mem p) U \<and>
    b_size h' = (b_size (p_mem p))(q := n, q + n := b_size (p_mem p) q - n) \<and> q + n \<notin> L \<union> U \<union> E"
proof -
  define h where "h = p_mem p"
  define y where "y = q + n"
  define h1 where "h1 = split_heap q n h"
  let ?M = "region (p_maps p)" and ?u = "p_quanta p + 1"
  have G: "geo ?M ?u h (p_chain p) L U E" and F: "frees h (p_root p) (free_set h U)" and J: "joined h U"
    using S by (auto simp: shape_def h_def)
  note T = geo_tiling [OF G]
  have qU: "q \<in> U" "b_magic h q \<noteq> MAGIC_F" using q by (auto simp: live_def h_def)
  have qE: "q \<notin> E" using tiling_sets [OF T] qU by auto
  have ne: "y \<noteq> q" using n by (simp add: y_def)
  have s1: "b_size h1 = (b_size h)(q := n, y := b_size h q - n)" "t_hdr h1 = (t_hdr h)(y - 8 := q, q + b_size h q - 8 := y)"
    "b_magic h1 = b_magic h" "b_clink h1 = b_clink h" "b_csize h1 = b_csize h"
    using n(3) by (auto simp: h1_def split_heap_def y_def set_tail_def B2T_def B2NB_def tail_size_def Let_def h_def)
  note T1 = tiling_split [OF T qU(1) n(1,2) n(3) [folded h_def] y_def s1(1,2)]
  have y0: "y \<noteq> 0" using n by (simp add: y_def)
  have "agree h h1 (free_set h U)"
  proof -
    have "q \<notin> free_set h U" "y \<notin> free_set h U" using qU T1(2) by (auto simp: free_set_def)
    then show ?thesis unfolding agree_def s1(1,3)
      by (auto simp: h1_def split_heap_def set_tail_def Let_def)
  qed
  moreover have "y \<notin> free_set h U" using T1(2) by (auto simp: free_set_def)
  ultimately obtain h2 root2 where A: "pooladd h1 (p_root p) y = Some (h2, root2)" "frees h2 root2 (insert y (free_set h U))" "relinked h1 h2"
      "b_magic h2 = (b_magic h1)(y := MAGIC_F)"
    by (rule tf.update_add [OF F _ _ y0])
  have r: "b_size h2 = b_size h1" "t_hdr h2 = t_hdr h1" "b_clink h2 = b_clink h" "b_csize h2 = b_csize h" "b_magic h2 = (b_magic h)(y := MAGIC_F)"
    using A(3,4) s1 by (auto simp: relinked_def)
  have "tiling ?u h2 L (insert y U) E" by (rule tiling_cong [OF T1(1) r(1,2)])
  moreover have "marked h2 L (insert y U) E" using G T1(2) r(5) by (auto simp: geo_def marked_def)
  moreover have "chained h2 (p_chain p) L E" using G r by (auto simp: geo_def intro: chained_cong)
  moreover have "covered ?M ?u h1 E (L \<union> insert y U \<union> E)"
    by (rule covered_split [OF _ qU(1) qE n(3) [folded h_def] y_def T1(2) s1(1)]) (use G in \<open>simp add: geo_def\<close>)
  then have "covered ?M ?u h2 E (L \<union> insert y U \<union> E)" by (rule covered_cong) (rule r)
  ultimately have "geo ?M ?u h2 (p_chain p) L (insert y U) E" using G y0 by (auto simp: geo_def)
  moreover have "free_set h2 (insert y U) = insert y (free_set h U)" using r(5) T1(2) by (auto simp: free_set_def)
  moreover have "joined h2 (insert y U)"
  proof -
    have e: "y + b_size h2 y = q + b_size h q" using r(1) s1(1) n(3) by (simp add: y_def h_def)
    have "q + b_size h q \<noteq> y" using n(3) by (simp add: y_def h_def)
    then have "b_magic h2 (y + b_size h2 y) \<noteq> MAGIC_F" using e r(5) nx by (simp add: h_def)
    moreover have "b_magic h2 (x + b_size h2 x) \<noteq> MAGIC_F" if "x \<in> U" "b_magic h x = MAGIC_F" for x
    proof -
      have x: "x \<noteq> q" "x \<noteq> y" using that qU T1(2) by auto
      have "x + b_size h x \<in> U \<union> E" using tiling_next [OF T, of x] that by simp
      then have "x + b_size h x \<noteq> y" using T1(2) by auto
      then show ?thesis using x r s1(1) J that by (auto simp: joined_def)
    qed
    ultimately show ?thesis using r(5) unfolding joined_def by (auto split: if_splits)
  qed
  ultimately have "shape (p\<lparr>p_mem := h2, p_root := root2\<rparr>) L (insert y U) E" using A(2) by (simp add: shape_def)
  moreover have "live h2 (insert y U) = live h U" using r(5) T1(2) by (auto simp: live_def)
  moreover have "pool_add (p\<lparr>p_mem := h1\<rparr>) y = Some (p\<lparr>p_mem := h2, p_root := root2\<rparr>)" using A(1) by (simp add: pool_add_def)
  ultimately show ?thesis using r(1) s1(1) T1(2) unfolding y_def h1_def h_def
    by - (rule exI [of _ h2], rule exI [of _ root2], simp)
qed

section \<open>A block granted from the free ones\<close>

text \<open>
  What a successful call does: one block more is in use, which was not, is large enough for the header,
  the bytes asked for and the trailer; the blocks in use before keep their places and sizes.
\<close>

definition grants :: "pool \<Rightarrow> badr set \<Rightarrow> pool \<Rightarrow> badr set \<Rightarrow> nat \<Rightarrow> badr \<Rightarrow> bool" where
  "grants p U p' U' n v \<longleftrightarrow> (\<exists>b. v = B2D b \<and> b \<notin> live (p_mem p) U \<and> live (p_mem p') U' = insert b (live (p_mem p) U) \<and>
    n + BHDRSIZE \<le> b_size (p_mem p') b \<and> (\<forall>x\<in>live (p_mem p) U. b_size (p_mem p') x = b_size (p_mem p) x))"

lemma grantsI:
  assumes "b \<notin> live (p_mem p) U" "live (p_mem p') U' = insert b (live (p_mem p) U)" "n + BHDRSIZE \<le> b_size (p_mem p') b"
    "\<And>x. x \<in> live (p_mem p) U \<Longrightarrow> b_size (p_mem p') x = b_size (p_mem p) x"
  shows "grants p U p' U' n (B2D b)"
  using assms unfolding grants_def by blast

text \<open>The memory of a caller is not touched, and no memory is mapped.\<close>

definition same_memory :: "pool \<Rightarrow> pool \<Rightarrow> bool" where
  "same_memory p p' \<longleftrightarrow> p_data p' = p_data p \<and> p_maps p' = p_maps p \<and> p_ressize p' = p_ressize p \<and> p_quanta p' = p_quanta p"

lemma charge_sel [simp]:
  "p_mem (charge p b) = p_mem p" "p_data (charge p b) = p_data p" "p_maps (charge p b) = p_maps p" "p_ressize (charge p b) = p_ressize p"
  "p_quanta (charge p b) = p_quanta p" "p_root (charge p b) = p_root p" "p_chain (charge p b) = p_chain p"
  "p_cursize (charge p b) = p_cursize p + b_size (p_mem p) b" "p_chunk (charge p b) = p_chunk p" "p_move (charge p b) = p_move p"
  "p_arenasize (charge p b) = p_arenasize p" "p_maxsize (charge p b) = p_maxsize p"
  by (simp_all add: charge_def Let_def)

lemma charge_inv:
  assumes S: "shape p L U E" and b: "b \<in> live (p_mem p) U" and c: "p_cursize p = (\<Sum>x\<in>live (p_mem p) U - {b}. b_size (p_mem p) x)"
    and "config p" "accounts p"
  shows "pool_inv (charge p b) L U E"
proof -
  have "in_use_size p U = b_size (p_mem p) b + (\<Sum>x\<in>live (p_mem p) U - {b}. b_size (p_mem p) x)"
    unfolding in_use_size_def by (rule sum.remove [OF finite_live [OF S] b])
  then have "p_cursize (charge p b) = in_use_size (charge p b) U" using c by (simp add: in_use_size_def)
  moreover have "p_cursize (charge p b) \<le> p_hw (charge p b)" by (simp add: charge_def Let_def)
  ultimately show ?thesis using assms by (simp add: pool_inv_def shape_def config_def accounts_def)
qed

lemma inv_shape: "pool_inv p L U E \<Longrightarrow> shape p L U E"
  by (simp add: pool_inv_def)

lemma not_live: "x \<in> free_set h U \<Longrightarrow> x \<notin> live h U"
  by (simp add: free_set_def live_def)

lemma alloc_exact_ok:
  assumes I: "pool_inv p L U E" and t: "b_fwd (p_mem p) t \<in> free_set (p_mem p) U" "b_size (p_mem p) (b_fwd (p_mem p) t) = n" "m + BHDRSIZE \<le> n"
  shows "\<exists>p' v. alloc_exact p t = Some (p', v) \<and> pool_inv p' L U E \<and> grants p U p' U m v \<and> same_memory p p'"
proof -
  define x where "x = b_fwd (p_mem p) t"
  obtain h' root' where D: "pool_del p x = Some (p\<lparr>p_mem := h', p_root := root'\<rparr>)" "b_size h' = b_size (p_mem p)"
      "shape (p\<lparr>p_mem := set_magic x MAGIC_A h', p_root := root'\<rparr>) L U E" "live (set_magic x MAGIC_A h') U = insert x (live (p_mem p) U)"
    using take_shape [OF inv_shape [OF I] t(1)] unfolding x_def by blast
  define p1 where "p1 = p\<lparr>p_mem := set_magic x MAGIC_A h', p_root := root'\<rparr>"
  have e: "alloc_exact p t = Some (charge p1 x, B2D x)"
  proof -
    have "on_mem (set_magic x MAGIC_A) (p\<lparr>p_mem := h', p_root := root'\<rparr>) = p1" by (simp add: on_mem_def p1_def)
    then show ?thesis using D(1) by (simp only: alloc_exact_def x_def [symmetric] Let_def option.case)
  qed
  have nl: "x \<notin> live (p_mem p) U" using not_live t(1) by (simp add: x_def)
  have sz: "b_size (p_mem p1) = b_size (p_mem p)" using D(2) by (simp add: p1_def)
  have lv: "live (p_mem p1) U = insert x (live (p_mem p) U)" using D(4) by (simp add: p1_def)
  have "live (p_mem p1) U - {x} = live (p_mem p) U" using lv nl by auto
  then have "p_cursize p1 = (\<Sum>z\<in>live (p_mem p1) U - {x}. b_size (p_mem p1) z)" using I sz by (simp add: pool_inv_def in_use_size_def p1_def)
  then have "pool_inv (charge p1 x) L U E"
    by (intro charge_inv) (use D(3) lv I in \<open>auto simp: p1_def [symmetric]\<close>, auto simp: p1_def pool_inv_def config_def accounts_def)
  moreover have "grants p U (charge p1 x) U m (B2D x)" by (rule grantsI) (use nl lv sz t in \<open>auto simp: x_def\<close>)
  ultimately show ?thesis using e by (auto simp: same_memory_def p1_def)
qed

lemma alloc_best_ok:
  assumes I: "pool_inv p L U E" and q: "q \<in> free_set (p_mem p) U" "n < b_size (p_mem p) q" and n: "m + BHDRSIZE \<le> n" "p_quanta p + 1 dvd n"
  shows "\<exists>p' v U'. alloc_best p q n = Some (p', v) \<and> pool_inv p' L U' E \<and> grants p U p' U' m v \<and> same_memory p p'"
proof -
  have S: "shape p L U E" by (rule inv_shape [OF I])
  obtain h' root' where D: "pool_del p q = Some (p\<lparr>p_mem := h', p_root := root'\<rparr>)" "b_size h' = b_size (p_mem p)" "b_magic h' = b_magic (p_mem p)"
      "shape (p\<lparr>p_mem := set_magic q MAGIC_A h', p_root := root'\<rparr>) L U E" "live (set_magic q MAGIC_A h') U = insert q (live (p_mem p) U)"
    using take_shape [OF S q(1)] by blast
  define p1 where "p1 = p\<lparr>p_mem := set_magic q MAGIC_A h', p_root := root'\<rparr>"
  have nl: "q \<notin> live (p_mem p) U" using not_live q(1) by simp
  have sz: "b_size (p_mem p1) = b_size (p_mem p)" using D(2) by (simp add: p1_def)
  have lv: "live (p_mem p1) U = insert q (live (p_mem p) U)" using D(5) by (simp add: p1_def)
  have lq: "live (p_mem p1) U - {q} = live (p_mem p) U" using lv nl by auto
  have cs: "p_cursize p1 = (\<Sum>z\<in>live (p_mem p) U. b_size (p_mem p) z)" using I by (simp add: pool_inv_def in_use_size_def p1_def)
  have S1: "shape p1 L U E" using D(4) by (simp add: p1_def)
  have ca: "config p1" "accounts p1" using I by (auto simp: p1_def pool_inv_def config_def accounts_def)
  have n0: "0 < n" using n(1) by (simp add: BHDRSIZE_def hdr_size_def)
  have om: "on_mem (set_magic q MAGIC_A) (p\<lparr>p_mem := h', p_root := root'\<rparr>) = p1" by (simp add: on_mem_def p1_def)
  show ?thesis
  proof (cases "b_size (p_mem p) q - n < n div 4 \<and> b_size (p_mem p) q - n < 0x8000")
    case True
    have "alloc_best p q n = Some (charge p1 q, B2D q)"
      using True sz by (simp add: alloc_best_def D(1) om Let_def)
    moreover have "pool_inv (charge p1 q) L U E" by (rule charge_inv [OF S1 _ _ ca]) (use lv lq cs sz in auto)
    moreover have "grants p U (charge p1 q) U m (B2D q)" by (rule grantsI) (use nl lv sz q n in auto)
    ultimately show ?thesis by (auto simp: same_memory_def p1_def)
  next
    case False
    have J: "joined (p_mem p) U" using S by (simp add: shape_def)
    have nx: "b_magic (p_mem p1) (q + b_size (p_mem p1) q) \<noteq> MAGIC_F"
      using J q sz D(3) by (auto simp: p1_def joined_def free_set_def)
    obtain h2 root2 where P: "pool_add (p1\<lparr>p_mem := split_heap q n (p_mem p1)\<rparr>) (q + n) = Some (p1\<lparr>p_mem := h2, p_root := root2\<rparr>)"
        "shape (p1\<lparr>p_mem := h2, p_root := root2\<rparr>) L (insert (q + n) U) E" "live h2 (insert (q + n) U) = live (p_mem p1) U"
        "b_size h2 = (b_size (p_mem p1))(q := n, q + n := b_size (p_mem p1) q - n)" "q + n \<notin> L \<union> U \<union> E"
      using split_shape [OF S1 _ n0 _ _ nx] lv q(2) n(2) sz by (auto simp: p1_def)
    define p2 where "p2 = p1\<lparr>p_mem := h2, p_root := root2\<rparr>"
    have ne: "x \<noteq> q \<and> x \<noteq> q + n" if "x \<in> live (p_mem p) U" for x using that nl P(5) by (auto simp: live_def)
    have e: "alloc_best p q n = Some (charge p2 q, B2D q)"
      using False P(1) sz by (auto simp: alloc_best_def D(1) om split_heap_def Let_def B2NB_def set_tail_def p2_def)
    have lv2: "live (p_mem p2) (insert (q + n) U) = insert q (live (p_mem p) U)" using P(3) lv by (simp add: p2_def)
    have sz2: "b_size (p_mem p2) x = b_size (p_mem p) x" if "x \<in> live (p_mem p) U" for x using ne [OF that] P(4) sz by (simp add: p2_def)
    have "live (p_mem p2) (insert (q + n) U) - {q} = live (p_mem p) U" using lv2 nl by auto
    then have "pool_inv (charge p2 q) L (insert (q + n) U) E"
      by (intro charge_inv) (use P(2) lv2 cs sz2 ca in \<open>auto simp: p2_def config_def accounts_def\<close>)
    moreover have "grants p U (charge p2 q) (insert (q + n) U) m (B2D q)"
      by (rule grantsI) (use nl lv2 sz2 n P(4) n0 in \<open>auto simp: p2_def\<close>)
    ultimately show ?thesis using e by (auto simp: same_memory_def p2_def p1_def)
  qed
qed

end
