(* ===== verification/Pool_Arena.thy ===== *)
theory Pool_Arena
  imports Pool_Alloc
begin

text \<open>
  Memory from the host system: a new arena, and the last arena made longer by a region right behind it.
\<close>

section \<open>Arenas have no gaps\<close>

lemma geo_sets: "geo M u h c L U E \<Longrightarrow> L \<inter> U = {} \<and> L \<inter> E = {} \<and> U \<inter> E = {}"
  by (rule tiling_sets [OF geo_tiling])

lemma geo_covered: "geo M u h c L U E \<Longrightarrow> x \<in> L \<union> U \<union> E \<Longrightarrow> {x ..< x + ext u h E x} \<subseteq> M"
  unfolding geo_def covered_def by blast

lemma geo_ext_pos: "geo M u h c L U E \<Longrightarrow> x \<in> L \<union> U \<union> E \<Longrightarrow> 8 \<le> ext u h E x"
  using tiling_ge [OF geo_tiling] by (auto simp: ext_def geo_def tiling_def)

lemma geo_arena: "geo M u h c L U E \<Longrightarrow> b \<in> L \<Longrightarrow> b + b_csize h b \<in> E \<and> (\<forall>e\<in>E. b \<le> e \<longrightarrow> b + b_csize h b \<le> e)"
  by (simp add: geo_def chained_def arena_def)

lemma arena_filled:
  assumes G: "geo M u h c L U E" and b: "b \<in> L" and a: "b + k < b + b_csize h b"
  shows "\<exists>x\<in>L \<union> U. b \<le> x \<and> x \<le> b + k \<and> b + k < x + b_size h x"
  using a
proof (induction k)
  case 0
  then show ?case using tiling_ge [OF geo_tiling [OF G], of b] b by (intro bexI [of _ b]) auto
next
  case (Suc k)
  then obtain x where x: "x \<in> L \<union> U" "b \<le> x" "x \<le> b + k" "b + k < x + b_size h x" by auto
  show ?case
  proof (cases "b + Suc k < x + b_size h x")
    case True
    then show ?thesis using x by (intro bexI [of _ x]) auto
  next
    case False
    then have e: "x + b_size h x = b + Suc k" using x by simp
    have "x + b_size h x \<in> U \<union> E" by (rule tiling_next [OF geo_tiling [OF G] x(1)])
    moreover have "x + b_size h x \<notin> E" using geo_arena [OF G b] e Suc.prems by auto
    ultimately have "b + Suc k \<in> U" using e by simp
    then show ?thesis using tiling_ge [OF geo_tiling [OF G], of "b + Suc k"] by (intro bexI [of _ "b + Suc k"]) auto
  qed
qed

lemma arena_covered:
  assumes G: "geo M u h c L U E" and b: "b \<in> L"
  shows "{b ..< b + b_csize h b} \<subseteq> M"
proof
  fix a assume a: "a \<in> {b ..< b + b_csize h b}"
  then have "b + (a - b) < b + b_csize h b" by auto
  then obtain x where x: "x \<in> L \<union> U" "x \<le> a" "a < x + b_size h x" using arena_filled [OF G b] a by fastforce
  have "x \<notin> E" using geo_sets [OF G] x(1) by auto
  then have "{x ..< x + b_size h x} \<subseteq> M" using geo_covered [OF G, of x] x(1) by (auto simp: ext_def)
  then show "a \<in> M" using x by auto
qed

lemma limits_apart:
  assumes G: "geo M u h c L U E" and b: "b \<in> L" "b' \<in> L" "b < b'"
  shows "b + b_csize h b \<le> b'"
proof (rule ccontr)
  assume "\<not> ?thesis"
  then have "b + (b' - 1 - b) < b + b_csize h b" using b(3) by simp
  then obtain x where x: "x \<in> L \<union> U" "x \<le> b' - 1" "b' - 1 < x + b_size h x" using arena_filled [OF G b(1)] b(3) by fastforce
  have "x < b'" using x(2) b(3) by simp
  then have "x + b_size h x \<le> b'" using tiling_apart [OF geo_tiling [OF G] x(1)] b(2) by simp
  then have "x + b_size h x = b'" using x(3) by simp
  then have "b' \<in> U \<union> E" using tiling_next [OF geo_tiling [OF G] x(1)] by simp
  then show False using geo_sets [OF G] b(2) by auto
qed

lemma limits_inj:
  assumes G: "geo M u h c L U E" and b: "b \<in> L" "b' \<in> L" "b + b_csize h b = b' + b_csize h b'"
  shows "b = b'"
proof -
  have pos: "0 < b_csize h x" if "x \<in> L" for x
    using geo_arena [OF G that] geo_sets [OF G] that by (cases "b_csize h x = 0") auto
  show ?thesis using limits_apart [OF G b(1,2)] limits_apart [OF G b(2,1)] b pos by (cases b b' rule: linorder_cases) fastforce+
qed

text \<open>A region that the host gives is clear of all that the pool has.\<close>

lemma clear_region:
  assumes G: "geo M u h c L U E" and t: "{t ..< t + n} \<inter> M = {}" "0 < n"
  shows "clear u h E (L \<union> U \<union> E) t n"
proof -
  have "x + ext u h E x \<le> t \<or> t + n \<le> x" if x: "x \<in> L \<union> U \<union> E" for x
  proof (rule ccontr)
    assume "\<not> ?thesis"
    then have "max t x \<in> {x ..< x + ext u h E x}" "max t x \<in> {t ..< t + n}" using t(2) geo_ext_pos [OF G x] by auto
    then show False using geo_covered [OF G x] t(1) by blast
  qed
  then show ?thesis by (simp add: clear_def)
qed

text \<open>An address of the region is in no arena.\<close>

lemma arena_outside:
  assumes G: "geo M u h c L U E" and b: "b \<in> L" and e: "e \<notin> M" "b \<le> e"
  shows "b + b_csize h b \<le> e"
  using arena_covered [OF G b] e by (metis atLeastLessThan_iff not_le subsetD)

section \<open>How large an arena may be\<close>

unbundle bit_operations_syntax

lemma alloc_room_ok:
  assumes "config p" "accounts p" "p_quanta p + 1 dvd n" "0 < n" and r: "alloc_room p n = (p', Some (ns, alloc))"
  shows "p' = p\<lparr>p_arenasize := p_arenasize p + alloc\<rparr>" "n \<le> ns" "p_quanta p + 1 dvd ns" "alloc = ns + (p_quanta p + 1) + (p_quanta p + 1)"
    "p_arenasize p + alloc \<le> p_maxsize p"
proof -
  define u where "u = p_quanta p + 1"
  obtain k where k: "p_quanta p + 1 = 2 ^ k" using assms(1) by (auto simp: config_def)
  define X where "X = int (p_maxsize p) - int (p_arenasize p) - int u - int u"
  define ns0 where "ns0 = (if n > p_chunk p then n else p_chunk p)"
  have nq: "X AND NOT (int (p_quanta p)) = X div 2 ^ k * 2 ^ k" by (rule int_and_not_quanta [OF k])
  have uk: "int u = 2 ^ k" using k by (simp add: u_def flip: of_nat_Suc)
  have lim: "X div 2 ^ k * 2 ^ k \<le> X" using pos_mod_sign [of "2 ^ k" X] div_mult_mod_eq [of X "2 ^ k"] zero_less_power [of "2 :: int" k] by linarith
  consider "p_arenasize p + (ns0 + u + u) \<le> p_maxsize p" "p' = p\<lparr>p_arenasize := p_arenasize p + (ns0 + u + u)\<rparr>" "ns = ns0" "alloc = ns0 + u + u"
    | "int n \<le> X div 2 ^ k * 2 ^ k" "ns = nat (X div 2 ^ k * 2 ^ k)" "alloc = ns + u + u" "p' = p\<lparr>p_arenasize := p_arenasize p + alloc\<rparr>"
  proof (cases "p_arenasize p + (ns0 + u + u) > p_maxsize p")
    case True
    then have "alloc_room p n = (if X AND NOT (int (p_quanta p)) < int n then (p, None)
        else let ns = nat (X AND NOT (int (p_quanta p))); alloc = ns + u + u in (p\<lparr>p_arenasize := p_arenasize p + alloc\<rparr>, Some (ns, alloc)))"
      by (simp only: alloc_room_def Let_def ns0_def [symmetric] u_def [symmetric] X_def [symmetric] if_True)
    then show thesis using r that(2) unfolding nq Let_def by (cases "X div 2 ^ k * 2 ^ k < int n") simp_all
  next
    case False
    then have "alloc_room p n = (p\<lparr>p_arenasize := p_arenasize p + (ns0 + u + u)\<rparr>, Some (ns0, ns0 + u + u))"
      by (simp only: alloc_room_def Let_def ns0_def [symmetric] u_def [symmetric] if_False)
    then show thesis using r that(1) False by simp
  qed
  then have "p' = p\<lparr>p_arenasize := p_arenasize p + alloc\<rparr> \<and> n \<le> ns \<and> u dvd ns \<and> alloc = ns + u + u \<and> p_arenasize p + alloc \<le> p_maxsize p"
  proof cases
    case 1
    moreover have "u dvd ns0" "n \<le> ns0" using assms(1,3) by (auto simp: ns0_def u_def config_def)
    ultimately show ?thesis by simp
  next
    case w: 2
    have i: "int ns = X div 2 ^ k * 2 ^ k" using w by simp
    then have "int u dvd int ns" unfolding uk by simp
    then have "u dvd ns" by (simp only: int_dvd_int_iff)
    moreover have "int (p_arenasize p + alloc) \<le> int (p_maxsize p)" using i lim w(3) by (simp add: X_def)
    then have "p_arenasize p + alloc \<le> p_maxsize p" by (simp only: of_nat_le_iff)
    moreover have "int n \<le> int ns" using w(1) i by simp
    then have "n \<le> ns" by (simp only: of_nat_le_iff)
    ultimately show ?thesis using w(3,4) by blast
  qed
  then show "p' = p\<lparr>p_arenasize := p_arenasize p + alloc\<rparr>" "n \<le> ns" "p_quanta p + 1 dvd ns" "alloc = ns + (p_quanta p + 1) + (p_quanta p + 1)"
    "p_arenasize p + alloc \<le> p_maxsize p" unfolding u_def by blast+
qed

lemma alloc_room_none: "alloc_room p n = (p', None) \<Longrightarrow> p' = p"
  by (auto simp: alloc_room_def Let_def split: if_splits)

section \<open>The mark of the end\<close>

text \<open>\<open>pooladd\<close> reads no mark, so that the end may be marked before or after.\<close>

lemma find_magic1:
  assumes "pooladd_find h n tp t = Some r"
  shows "pooladd_find (h\<lparr>b_magic := m\<rparr>) n tp t = Some r"
  by (rule pooladd_find.raw_induct [where P = "\<lambda>h n tp t r. pooladd_find (h\<lparr>b_magic := m\<rparr>) n tp t = Some r", OF _ assms],
      subst pooladd_find.simps) (auto split: if_splits)

lemma find_magic: "pooladd_find (h\<lparr>b_magic := m\<rparr>) n tp t = pooladd_find h n tp t"
proof (cases "pooladd_find h n tp t")
  case None
  show ?thesis
  proof (cases "pooladd_find (h\<lparr>b_magic := m\<rparr>) n tp t")
    case (Some r)
    from find_magic1 [OF this, of "b_magic h"] show ?thesis using None by simp
  qed (use None in simp)
qed (simp add: find_magic1)

lemma pooladd_mark:
  assumes "e \<noteq> q"
  shows "pooladd (set_magic e m h) root q = map_option (\<lambda>(h, root). (set_magic e m h, root)) (pooladd h root q)"
proof -
  define h0 where "h0 = pooladd_init q h"
  have i: "pooladd_init q (set_magic e m h) = set_magic e m h0"
    using assms by (simp add: pooladd_init_def h0_def fun_upd_twist)
  have s: "b_size (set_magic e m h0) = b_size h0" "b_prev (set_magic e m h0) = b_prev h0" by simp_all
  have f: "pooladd_find (set_magic e m h0) n tp t = pooladd_find h0 n tp t" for n tp t by (simp add: find_magic)
  show ?thesis unfolding pooladd_def i h0_def [symmetric] Let_def s f
    by (auto split: option.splits prod.splits)
qed

section \<open>A new arena\<close>

lemma region_clear_facts:
  assumes G: "geo M0 u h c L U E" and t: "{t ..< t + n} \<inter> M0 = {}" and a: "t \<le> a" "a < t + n"
  shows "a \<notin> L \<union> U \<union> E"
proof
  assume x: "a \<in> L \<union> U \<union> E"
  then have "a \<in> {a ..< a + ext u h E a}" using geo_ext_pos [OF G x] by simp
  then have "a \<in> M0" using geo_covered [OF G x] by blast
  then show False using t a by auto
qed

lemma covered_arena:
  assumes G: "geo M0 u h c L U E" and "b = t + u" "e = b + n"
    and new: "t \<notin> L \<union> U \<union> E" "b \<notin> L \<union> U \<union> E" "e \<notin> L \<union> U \<union> E" "t < b" "b < e"
    and s: "b_size h' = (b_size h)(t := u, b := n)" and M: "M0 \<union> {t ..< t + (u + n + u)} \<subseteq> M"
  shows "covered M u h' (insert e E) (insert t L \<union> insert b U \<union> insert e E)"
proof -
  have "{x ..< x + ext u h' (insert e E) x} \<subseteq> M" if x: "x \<in> insert t L \<union> insert b U \<union> insert e E" for x
  proof -
    consider "x = t" | "x = b" | "x = e" | "x \<in> L \<union> U \<union> E" using x by blast
    then show ?thesis
    proof cases
      case 1
      then have "ext u h' (insert e E) x = u" using new s by (auto simp: ext_def)
      moreover have "{t ..< t + u} \<subseteq> {t ..< t + (u + n + u)}" by auto
      ultimately show ?thesis using 1 M by auto
    next
      case w: 2
      then have "ext u h' (insert e E) x = n" using new s by (auto simp: ext_def)
      moreover have "{b ..< b + n} \<subseteq> {t ..< t + (u + n + u)}" using assms(2) by auto
      ultimately show ?thesis using w M by auto
    next
      case 3
      moreover have "{e ..< e + u} \<subseteq> {t ..< t + (u + n + u)}" using assms(2,3) by auto
      ultimately show ?thesis using M by (auto simp: ext_def)
    next
      case 4
      then have "x \<noteq> t" "x \<noteq> b" "x \<noteq> e" using new by auto
      then have "ext u h' (insert e E) x = ext u h E x" using s by (simp add: ext_def)
      then show ?thesis using geo_covered [OF G 4] M by auto
    qed
  qed
  then show ?thesis unfolding covered_def by blast
qed

lemma arena_geo:
  assumes G: "geo M0 u h c L U E" and n: "0 < n" "u dvd n" and b: "b = t + u" "e = b + n" and t: "t \<noteq> 0" "{t ..< t + (u + n + u)} \<inter> M0 = {}"
    and M: "M0 \<union> {t ..< t + (u + n + u)} \<subseteq> M"
    and h': "b_size h' = (b_size h)(t := u, b := n)" "t_hdr h' = (t_hdr h)(b - 8 := t, e - 8 := b)"
      "b_magic h' = (b_magic h)(t := MAGIC_E, b := MAGIC_A, e := MAGIC_E)" "b_clink h' = (b_clink h)(t := c)" "b_csize h' = (b_csize h)(t := n + u)"
  shows "geo M u h' t (insert t L) (insert b U) (insert e E)" "t \<notin> L \<union> U \<union> E" "b \<notin> L \<union> U \<union> E" "e \<notin> L \<union> U \<union> E" "t < b" "b < e"
proof -
  have u8: "8 \<le> u" using G by (simp add: geo_def tiling_def)
  show lt: "t < b" "b < e" using b n u8 by auto
  show new: "t \<notin> L \<union> U \<union> E" "b \<notin> L \<union> U \<union> E" "e \<notin> L \<union> U \<union> E"
    by (rule region_clear_facts [OF G t(2)], use b u8 in simp, use b u8 in simp)+
  have "tiling u h' (insert t L) (insert b U) (insert e E)"
    by (rule tiling_arena [OF geo_tiling [OF G] n b clear_region [OF G t(2)] h'(1,2)]) (use u8 in simp)
  moreover have "marked h' (insert t L) (insert b U) (insert e E)"
    using G new lt h'(3) by (auto simp: geo_def marked_def)
  moreover have "chained h' t (insert t L) (insert e E)"
  proof -
    have "chained h c L E" using G by (simp add: geo_def)
    then have "chained h' c L E" by (rule chained_cong) (use new h' in auto)
    then obtain cs where cs: "chain_list h' c cs" "distinct cs" "set cs = L" by (auto simp: chained_def)
    then have "chain_list h' t (t # cs) \<and> distinct (t # cs) \<and> set (t # cs) = insert t L" using t(1) new h'(4) by auto
    moreover have "arena h' (insert e E) t"
    proof -
      have "t + b_csize h' t = e" using b h'(5) by simp
      moreover have "e \<le> x" if "x \<in> E" "t \<le> x" for x
      proof (rule ccontr)
        assume "\<not> e \<le> x"
        then have "x \<notin> L \<union> U \<union> E" using that b by (intro region_clear_facts [OF G t(2)]) auto
        then show False using that by simp
      qed
      ultimately show ?thesis by (auto simp: arena_def)
    qed
    moreover have "arena h' (insert e E) x" if x: "x \<in> L" for x
    proof -
      have "x \<noteq> t" using x new by auto
      then have cz: "b_csize h' x = b_csize h x" using h'(5) by simp
      have "e \<in> {t ..< t + (u + n + u)}" using b u8 by simp
      then have "e \<notin> M0" using t(2) by blast
      then have "x \<le> e \<Longrightarrow> x + b_csize h x \<le> e" using arena_outside [OF G x] by blast
      then show ?thesis using geo_arena [OF G x] cz by (simp add: arena_def)
    qed
    ultimately show ?thesis unfolding chained_def by blast
  qed
  moreover have "covered M u h' (insert e E) (insert t L \<union> insert b U \<union> insert e E)"
    by (rule covered_arena [OF G b new lt h'(1) M])
  ultimately show "geo M u h' t (insert t L) (insert b U) (insert e E)" using G t(1) lt by (auto simp: geo_def)
qed

lemma new_arena_whole:
  assumes G: "geo M0 (p_quanta p + 1) (p_mem p) (p_chain p) L U E" and F: "frees (p_mem p) (p_root p) (free_set (p_mem p) U)" and J: "joined (p_mem p) U"
    and u: "u = p_quanta p + 1" and n: "0 < n" "u dvd n" and b: "b = t + u" "e = b + n" and t: "t \<noteq> 0" "{t ..< t + (u + n + u)} \<inter> M0 = {}"
    and M: "region (p_maps p) = M0 \<union> {t ..< t + (u + n + u)}"
    and hX: "b_size hX = (b_size (p_mem p))(t := u, b := n)" "t_hdr hX = (t_hdr (p_mem p))(b - 8 := t, e - 8 := b)"
      "b_magic hX = (b_magic (p_mem p))(t := MAGIC_E, b := MAGIC_A, e := MAGIC_E)" "b_clink hX = (b_clink (p_mem p))(t := p_chain p)"
      "b_csize hX = (b_csize (p_mem p))(t := n + u)"
      "b_left hX = b_left (p_mem p)" "b_right hX = b_right (p_mem p)" "b_parent hX = b_parent (p_mem p)" "b_prev hX = b_prev (p_mem p)" "b_fwd hX = b_fwd (p_mem p)"
  shows "shape (p\<lparr>p_mem := hX, p_chain := t\<rparr>) (insert t L) (insert b U) (insert e E)"
    "live hX (insert b U) = insert b (live (p_mem p) U)" "b_magic hX (b + b_size hX b) = MAGIC_E"
    "b \<notin> live (p_mem p) U" "\<And>x. x \<in> live (p_mem p) U \<Longrightarrow> b_size hX x = b_size (p_mem p) x"
proof -
  let ?h = "p_mem p"
  have G': "geo M0 u ?h (p_chain p) L U E" using G u by simp
  have M': "M0 \<union> {t ..< t + (u + n + u)} \<subseteq> region (p_maps p)" using M by simp
  note A = arena_geo [OF G' n b t M' hX(1-5)]
  have out: "b_magic hX x = b_magic ?h x" "b_size hX x = b_size ?h x" if "x \<in> L \<union> U \<union> E" for x
  proof -
    have "x \<noteq> t" "x \<noteq> b" "x \<noteq> e" using that A(2-4) by auto
    then show "b_magic hX x = b_magic ?h x" "b_size hX x = b_size ?h x" using hX by auto
  qed
  have bm: "b_magic hX b = MAGIC_A" "b_magic hX e = MAGIC_E" "b_size hX b = n" using hX(1,3) A(5,6) by auto
  have fs: "free_set hX (insert b U) = free_set ?h U" using bm out by (auto simp: free_set_def)
  have "agree ?h hX (free_set ?h U)" using out hX(6-10) by (simp add: agree_def free_set_def)
  then have "frees hX (p_root p) (free_set ?h U)" by (rule tf.frame_law [OF F])
  moreover have "joined hX (insert b U)"
  proof -
    have "b_magic hX (x + b_size hX x) \<noteq> MAGIC_F" if x: "x \<in> U" "b_magic hX x = MAGIC_F" for x
    proof -
      have "x + b_size ?h x \<in> U \<union> E" using tiling_next [OF geo_tiling [OF G'], of x] x by simp
      then show ?thesis using x out J by (auto simp: joined_def)
    qed
    then show ?thesis using bm by (auto simp: joined_def)
  qed
  ultimately show "shape (p\<lparr>p_mem := hX, p_chain := t\<rparr>) (insert t L) (insert b U) (insert e E)"
    using A(1) fs u by (simp add: shape_def)
  show "live hX (insert b U) = insert b (live ?h U)" using bm out by (auto simp: live_def)
  show "b_magic hX (b + b_size hX b) = MAGIC_E" using bm b(2) by simp
  show "b \<notin> live ?h U" using A(3) by (auto simp: live_def)
  show "b_size hX x = b_size ?h x" if "x \<in> live ?h U" for x using that out by (simp add: live_def)
qed

lemma pool_add_Some:
  assumes "pool_add p q = Some p'"
  shows "pooladd (p_mem p) (p_root p) q = Some (p_mem p', p_root p')"
  using assms by (auto simp: pool_add_def)

text \<open>The code makes the block of the size asked for at once and the rest a free block.\<close>

lemma new_arena_ok:
  assumes G: "geo M0 (p_quanta p + 1) (p_mem p) (p_chain p) L U E" and F: "frees (p_mem p) (p_root p) (free_set (p_mem p) U)" and J: "joined (p_mem p) U"
    and u: "u = p_quanta p + 1" and ns: "0 < ns" "u dvd ns" and sz: "0 < sz" "u dvd sz" "sz \<le> ns"
    and t: "t \<noteq> 0" "{t ..< t + (u + ns + u)} \<inter> M0 = {}" and M: "region (p_maps p) = M0 \<union> {t ..< t + (u + ns + u)}"
  shows "\<exists>h' root' L' U' E'. new_arena p t ns sz = Some (charge (p\<lparr>p_mem := h', p_root := root', p_chain := t\<rparr>) (t + u), B2D (t + u)) \<and>
    shape (p\<lparr>p_mem := h', p_root := root', p_chain := t\<rparr>) L' U' E' \<and> live h' U' = insert (t + u) (live (p_mem p) U) \<and>
    t + u \<notin> live (p_mem p) U \<and> b_size h' (t + u) = sz \<and> (\<forall>x\<in>live (p_mem p) U. b_size h' x = b_size (p_mem p) x)"
proof -
  let ?h = "p_mem p"
  define b where "b = t + u"
  define e where "e = b + ns"
  define hA where "hA = set_tail t (set_clink t (p_chain p) (set_csize t (ns + u) (set_size t u (set_magic t MAGIC_E ?h))))"
  define hB where "hB = (\<lambda>k. set_tail b (set_size b k (set_magic b MAGIC_A hA)))"
  define hX where "hX = set_magic e MAGIC_E (hB ns)"
  have u8: "8 \<le> u" "t < b" "8 \<le> b" using G u by (simp_all add: geo_def tiling_def b_def)
  have nb: "B2NB hA t = b" "B2NB (hB k) b = b + k" for k by (simp_all add: B2NB_def hA_def hB_def b_def set_tail_def set_clink_def set_csize_def)
  have lt: "b < e" "b - 8 < e - 8" using ns u8 by (simp_all add: e_def)
  have X: "b_size hX = (b_size ?h)(t := u, b := ns)" "t_hdr hX = (t_hdr ?h)(b - 8 := t, e - 8 := b)"
      "b_magic hX = (b_magic ?h)(t := MAGIC_E, b := MAGIC_A, e := MAGIC_E)" "b_clink hX = (b_clink ?h)(t := p_chain p)"
      "b_csize hX = (b_csize ?h)(t := ns + u)"
      "b_left hX = b_left ?h" "b_right hX = b_right ?h" "b_parent hX = b_parent ?h" "b_prev hX = b_prev ?h" "b_fwd hX = b_fwd ?h"
    using u8 by (simp_all add: hX_def hB_def hA_def set_tail_def set_clink_def set_csize_def B2T_def tail_size_def b_def e_def)
  define pX where "pX = p\<lparr>p_mem := hX, p_chain := t\<rparr>"
  note W = new_arena_whole [OF G F J u ns b_def e_def t M X, folded pX_def]
  define pB where "pB = p\<lparr>p_mem := hB sz, p_chain := t\<rparr>"
  have code: "new_arena p t ns sz = (case (if ns - sz > 0 then
        map_option (\<lambda>p. (p, b + sz)) (pool_add (on_mem (\<lambda>h. set_tail (b + sz) (set_size (b + sz) (ns - sz) h)) pB) (b + sz)) else Some (pB, b)) of
      None \<Rightarrow> None | Some (p, q) \<Rightarrow> Some (charge (on_mem (\<lambda>h. set_magic (B2NB h q) MAGIC_E h) p) b, B2D b))"
  proof -
    have e1: "on_mem (\<lambda>h. set_tail b (set_size b sz (set_magic b MAGIC_A h))) (p\<lparr>p_mem := hA, p_chain := t\<rparr>) = pB"
      by (simp only: on_mem_def pB_def hB_def) simp
    have e2: "p_mem (p\<lparr>p_mem := hA, p_chain := t\<rparr>) = hA" "p_mem pB = hB sz" by (simp_all add: pB_def)
    show ?thesis by (simp only: new_arena_def Let_def u [symmetric] hA_def [symmetric] e2 nb e1)
  qed
  show ?thesis
  proof (cases "sz = ns")
    case True
    have "on_mem (\<lambda>h. set_magic (B2NB h b) MAGIC_E h) pB = p\<lparr>p_mem := hX, p_root := p_root p, p_chain := t\<rparr>"
      using True nb(2) [of ns] by (simp add: on_mem_def pB_def hX_def e_def)
    then have "new_arena p t ns sz = Some (charge (p\<lparr>p_mem := hX, p_root := p_root p, p_chain := t\<rparr>) b, B2D b)" using code True by simp
    moreover have "shape (p\<lparr>p_mem := hX, p_root := p_root p, p_chain := t\<rparr>) (insert t L) (insert b U) (insert e E)" using W(1) by (simp add: pX_def)
    moreover have "b_size hX b = sz" using True X(1) by simp
    ultimately show ?thesis using W(2,4,5) unfolding b_def [symmetric] by blast
  next
    case False
    define q where "q = b + sz"
    define hC where "hC = set_tail q (set_size q (ns - sz) (hB sz))"
    have S: "b \<in> live (p_mem pX) (insert b U)" "p_quanta pX + 1 dvd sz" "sz < b_size (p_mem pX) b" "b_magic (p_mem pX) (b + b_size (p_mem pX) b) \<noteq> MAGIC_F"
      using W(2,3) u sz False X(1) by (auto simp: pX_def)
    obtain h2 root2 where P: "pool_add (pX\<lparr>p_mem := split_heap b sz hX\<rparr>) q = Some (pX\<lparr>p_mem := h2, p_root := root2\<rparr>)"
        "shape (pX\<lparr>p_mem := h2, p_root := root2\<rparr>) (insert t L) (insert q (insert b U)) (insert e E)"
        "live h2 (insert q (insert b U)) = live hX (insert b U)" "b_size h2 = (b_size hX)(b := sz, q := b_size hX b - sz)"
        "q \<notin> insert t L \<union> insert b U \<union> insert e E"
      using split_shape [OF W(1) S(1) sz(1) S(2-4)] unfolding q_def by (auto simp: pX_def)
    have sC: "split_heap b sz hX = set_magic e MAGIC_E hC"
    proof (rule bheap.equality)
      show "t_hdr (split_heap b sz hX) = t_hdr (set_magic e MAGIC_E hC)"
        using sz(3) X(1,2) lt u8 by (auto simp: split_heap_def hC_def q_def Let_def B2NB_def set_tail_def B2T_def tail_size_def hB_def hA_def e_def
            set_clink_def set_csize_def b_def fun_eq_iff)
    qed (use X lt u8 sz(1) in \<open>simp_all add: split_heap_def hC_def q_def Let_def B2NB_def set_tail_def hB_def hA_def hX_def set_clink_def set_csize_def\<close>)
    have gt: "ns - sz > 0" using False sz(3) by simp
    have qe: "e \<noteq> q" using sz False by (auto simp: q_def e_def)
    have "pooladd (set_magic e MAGIC_E hC) (p_root p) q = Some (h2, root2)"
      using pool_add_Some [OF P(1)] unfolding sC by (simp add: pX_def)
    then obtain h1 where A: "pooladd hC (p_root p) q = Some (h1, root2)" "h2 = set_magic e MAGIC_E h1"
      unfolding pooladd_mark [OF qe] by auto
    have b1: "b_size h1 = b_size h2" using A(2) by simp
    then have "B2NB h1 q = e" using P(4) X(1) sz(3) by (simp add: B2NB_def q_def e_def)
    then have om: "on_mem (\<lambda>h. set_magic (B2NB h q) MAGIC_E h) (pB\<lparr>p_mem := h1, p_root := root2\<rparr>) = p\<lparr>p_mem := h2, p_root := root2, p_chain := t\<rparr>"
      by (simp add: on_mem_def pB_def A(2))
    have "on_mem (\<lambda>h. set_tail q (set_size q (ns - sz) h)) pB = pB\<lparr>p_mem := hC\<rparr>" by (simp add: on_mem_def pB_def hC_def)
    then have pa: "pool_add (on_mem (\<lambda>h. set_tail q (set_size q (ns - sz) h)) pB) q = Some (pB\<lparr>p_mem := h1, p_root := root2\<rparr>)"
      using A(1) by (simp add: pool_add_def pB_def)
    have "new_arena p t ns sz = Some (charge (p\<lparr>p_mem := h2, p_root := root2, p_chain := t\<rparr>) b, B2D b)"
      by (simp only: code if_P [OF gt] q_def [symmetric] pa option.map option.case prod.case om)
    moreover have "shape (p\<lparr>p_mem := h2, p_root := root2, p_chain := t\<rparr>) (insert t L) (insert q (insert b U)) (insert e E)"
      using P(2) by (simp add: pX_def shape_def)
    moreover have "live h2 (insert q (insert b U)) = insert b (live ?h U)" using P(3) W(2) by simp
    moreover have "b_size h2 b = sz" using P(4,5) by auto
    moreover have "b_size h2 x = b_size ?h x" if "x \<in> live ?h U" for x
    proof -
      have "x \<in> insert b U" "x \<noteq> b" using that W(4) by (auto simp: live_def)
      then show ?thesis using W(5) [OF that] P(4,5) by auto
    qed
    ultimately show ?thesis using W(4) unfolding b_def [symmetric] by blast
  qed
qed

section \<open>A longer arena\<close>

lemma extend_geo:
  assumes G: "geo M0 u h c L U E" and c: "c \<in> L" and q: "q = c + b_csize h c" and n: "0 < n" "u dvd n" and e: "e = q + n"
    and t: "{q + u ..< q + u + n} \<inter> M0 = {}" and M: "M0 \<union> {q + u ..< q + u + n} \<subseteq> M"
    and h': "b_size h' = (b_size h)(q := n)" "t_hdr h' = (t_hdr h)(e - 8 := q)"
      "b_magic h' = (b_magic h)(q := MAGIC_A, e := MAGIC_E)" "b_clink h' = b_clink h" "b_csize h' = (b_csize h)(c := b_csize h c + n)"
  shows "geo M u h' c L (insert q U) (insert e (E - {q}))" "q \<in> E" "e \<notin> L \<union> U \<union> E" "q < e"
proof -
  note T = geo_tiling [OF G]
  have u8: "8 \<le> u" "u \<le> n" using G n by (auto simp: geo_def tiling_def intro: dvd_imp_le)
  show qE: "q \<in> E" using geo_arena [OF G c] q by simp
  show lt: "q < e" using e n by simp
  have en: "e \<in> {q + u ..< q + u + n}" using e u8 by simp
  show new: "e \<notin> L \<union> U \<union> E" by (rule region_clear_facts [OF G t]) (use en in auto)
  have far: "x + ext u h E x \<le> q \<or> q + (n + u) \<le> x" if x: "x \<in> L \<union> U \<union> E" "x \<noteq> q" for x
  proof (cases "x < q")
    case True
    then show ?thesis using T x qE unfolding tiling_def apart_def by blast
  next
    case False
    then have "q + u \<le> x" using tiling_apart_end [OF T qE x(1)] x(2) by simp
    moreover have "x + ext u h E x \<le> q + u \<or> q + u + n \<le> x" using clear_region [OF G t] n(1) x(1) by (simp add: clear_def)
    ultimately show ?thesis using geo_ext_pos [OF G x(1)] by auto
  qed
  have s: "q \<notin> L" "q \<notin> U" using geo_sets [OF G] qE by auto
  have "clear u h E (L \<union> U \<union> (E - {q})) q (n + u)" unfolding clear_def by (intro ballI far) (use s in auto)
  then have "tiling u h' L (insert q U) (insert e (E - {q}))" by (rule tiling_extend [OF T qE n e _ h'(1,2)])
  moreover have "marked h' L (insert q U) (insert e (E - {q}))" using G new lt s h'(3) by (auto simp: geo_def marked_def)
  moreover have "chained h' c L (insert e (E - {q}))"
  proof -
    have "chained h c L E" using G by (simp add: geo_def)
    then obtain cs where cs: "chain_list h c cs" "distinct cs" "set cs = L" by (auto simp: chained_def)
    have "chain_list h' a cs \<longleftrightarrow> chain_list h a cs" for a cs using h'(4) by (induction cs arbitrary: a) auto
    then have "\<exists>cs. chain_list h' c cs \<and> distinct cs \<and> set cs = L" using cs by blast
    moreover have "arena h' (insert e (E - {q})) x" if x: "x \<in> L" for x
    proof (cases "x = c")
      case True
      have "e \<le> y" if "y \<in> E - {q}" "c \<le> y" for y
        using far [of y] that geo_arena [OF G c] q e geo_ext_pos [OF G, of y] by auto
      then show ?thesis using True h'(5) q e by (auto simp: arena_def add.assoc)
    next
      case False
      have l: "x + b_csize h x \<in> E" "x + b_csize h x \<noteq> q" using geo_arena [OF G x] limits_inj [OF G x c] False q by auto
      have "e \<notin> M0" using t en by blast
      then have "x \<le> e \<Longrightarrow> x + b_csize h x \<le> e" by (rule arena_outside [OF G x])
      then show ?thesis using False l geo_arena [OF G x] h'(5) by (auto simp: arena_def)
    qed
    ultimately show ?thesis unfolding chained_def by blast
  qed
  moreover have "covered M u h' (insert e (E - {q})) (L \<union> insert q U \<union> insert e (E - {q}))"
  proof -
    have "{x ..< x + ext u h' (insert e (E - {q})) x} \<subseteq> M" if x: "x \<in> L \<union> insert q U \<union> insert e (E - {q})" for x
    proof -
      consider "x = q" | "x = e" | "x \<noteq> q" "x \<noteq> e" "x \<in> L \<union> U \<union> E" using x by blast
      then show ?thesis
      proof cases
        case 1
        have "{q ..< q + u} \<subseteq> M0" using geo_covered [OF G, of q] qE by (simp add: ext_def)
        moreover have "{q ..< q + n} \<subseteq> {q ..< q + u} \<union> {q + u ..< q + u + n}" by auto
        moreover have "ext u h' (insert e (E - {q})) q = n" using lt h'(1) by (simp add: ext_def)
        ultimately show ?thesis using 1 M by auto
      next
        case w: 2
        have "{e ..< e + u} \<subseteq> {q + u ..< q + u + n}" using e u8 by auto
        then show ?thesis using w M by (auto simp: ext_def)
      next
        case 3
        then have "ext u h' (insert e (E - {q})) x = ext u h E x" using h'(1) by (simp add: ext_def)
        then show ?thesis using geo_covered [OF G 3(3)] M by auto
      qed
    qed
    then show ?thesis unfolding covered_def by blast
  qed
  moreover have "q \<noteq> 0" using G qE by (cases "q = 0") (auto simp: geo_def)
  ultimately show "geo M u h' c L (insert q U) (insert e (E - {q}))" using G lt by (auto simp: geo_def)
qed

lemma merge_arena_ok:
  assumes G: "geo M0 (p_quanta p + 1) (p_mem p) (p_chain p) L U E" and F: "frees (p_mem p) (p_root p) (free_set (p_mem p) U)" and J: "joined (p_mem p) U"
    and u: "u = p_quanta p + 1" and c: "p_chain p \<noteq> 0" and q: "q = p_chain p + b_csize (p_mem p) (p_chain p)" and n: "0 < n" "u dvd n"
    and t: "{q + u ..< q + u + n} \<inter> M0 = {}" and M: "region (p_maps p) = M0 \<union> {q + u ..< q + u + n}"
  shows "\<exists>h' E'. merge_arena p n = (p\<lparr>p_mem := h', p_cursize := p_cursize p + n\<rparr>, q) \<and> shape (p\<lparr>p_mem := h'\<rparr>) L (insert q U) E' \<and>
    live h' (insert q U) = insert q (live (p_mem p) U) \<and> q \<notin> live (p_mem p) U \<and> b_size h' = (b_size (p_mem p))(q := n)"
proof -
  let ?h = "p_mem p" and ?c = "p_chain p"
  define e where "e = q + n"
  define h1 where "h1 = set_csize ?c (b_csize ?h ?c + n) (set_magic e MAGIC_E (set_tail q (set_size q n (set_magic q MAGIC_A ?h))))"
  have G': "geo M0 u ?h ?c L U E" using G u by simp
  have "chained ?h ?c L E" using G by (simp add: geo_def)
  then obtain cs where "chain_list ?h ?c cs" "set cs = L" by (auto simp: chained_def)
  then have cL: "?c \<in> L" using c by (cases cs) auto
  have s: "b_size h1 = (b_size ?h)(q := n)" "t_hdr h1 = (t_hdr ?h)(e - 8 := q)"
      "b_magic h1 = (b_magic ?h)(q := MAGIC_A, e := MAGIC_E)" "b_clink h1 = b_clink ?h" "b_csize h1 = (b_csize ?h)(?c := b_csize ?h ?c + n)"
    by (simp_all add: h1_def set_csize_def set_tail_def B2T_def tail_size_def e_def)
  have M': "M0 \<union> {q + u ..< q + u + n} \<subseteq> region (p_maps p)" using M by simp
  note A = extend_geo [OF G' cL q n e_def t M' s]
  have qU: "q \<notin> U" using geo_sets [OF G'] A(2) by auto
  have out: "b_magic h1 x = b_magic ?h x" "b_size h1 x = b_size ?h x" if "x \<in> U \<union> E" "x \<noteq> q" for x
    using that A(3) s by auto
  have outU: "b_magic h1 x = b_magic ?h x \<and> b_size h1 x = b_size ?h x" if "x \<in> U" for x
    using that out [of x] qU by (cases "x = q") auto
  have qm: "b_magic h1 q = MAGIC_A" using s(3) A(4) by simp
  have fs: "free_set h1 (insert q U) = free_set ?h U" using qm outU by (auto simp: free_set_def)
  have "agree ?h h1 (free_set ?h U)"
    unfolding agree_def free_set_def using outU by (auto simp: h1_def set_csize_def set_tail_def)
  then have "frees h1 (p_root p) (free_set ?h U)" by (rule tf.frame_law [OF F])
  moreover have "joined h1 (insert q U)"
  proof -
    have "b_magic h1 (x + b_size h1 x) \<noteq> MAGIC_F" if x: "x \<in> U" "b_magic h1 x = MAGIC_F" for x
    proof -
      have xq: "x \<noteq> q" using x qU by auto
      have "x + b_size ?h x \<in> U \<union> E" using tiling_next [OF geo_tiling [OF G'], of x] x by simp
      then show ?thesis using x xq out J qm by (cases "x + b_size ?h x = q") (auto simp: joined_def)
    qed
    then show ?thesis using qm by (auto simp: joined_def)
  qed
  ultimately have "shape (p\<lparr>p_mem := h1\<rparr>) L (insert q U) (insert e (E - {q}))" using A(1) fs u by (simp add: shape_def)
  moreover have "live h1 (insert q U) = insert q (live ?h U)" using qm outU by (auto simp: live_def)
  moreover have "merge_arena p n = (p\<lparr>p_mem := h1, p_cursize := p_cursize p + n\<rparr>, q)"
    by (simp add: merge_arena_def Let_def B2LIMIT_def q [symmetric] B2NB_def e_def h1_def set_tail_def)
  moreover have "q \<notin> live ?h U" using qU by (simp add: live_def)
  ultimately show ?thesis using s(1) by blast
qed

end
