(* ===== verification/Pool_Theorems.thy ===== *)
theory Pool_Theorems
  imports Pool_Arena
begin

text \<open>
  The theorems on memory pools: what \<open>poolalloc\<close>, \<open>poolfree\<close> and \<open>poolrealloc\<close> do to the blocks in use, the
  invariant of every state a pool can get to, and that \<open>poolaudit\<close> finds no fault in any of them.
\<close>

section \<open>poolalloc\<close>

text \<open>
  What the host promises: a region it gives has a page-aligned, so also 8-aligned, address that is not
  null, and is apart from the regions it gave before.
\<close>

definition mmap_ok :: "host_mmap \<Rightarrow> bool" where
  "mmap_ok mm \<longleftrightarrow> (\<forall>ms n t. mm ms n = Some t \<longrightarrow> 0 < t \<and> 8 dvd t \<and> {t ..< t + n} \<inter> region ms = {})"

definition keeps :: "pool \<Rightarrow> badr set \<Rightarrow> pool \<Rightarrow> badr set \<Rightarrow> bool" where
  "keeps p U p' U' \<longleftrightarrow> live (p_mem p') U' = live (p_mem p) U \<and> (\<forall>x\<in>live (p_mem p) U. b_size (p_mem p') x = b_size (p_mem p) x)"

lemma keeps_refl: "p_mem p' = p_mem p \<Longrightarrow> keeps p U p' U"
  by (simp add: keeps_def)

lemma keeps_grants: "keeps p U p1 U1 \<Longrightarrow> grants p1 U1 p' U' n v \<Longrightarrow> grants p U p' U' n v"
  unfolding keeps_def grants_def by force

lemma grants_nonnull: "grants p U p' U' n v \<Longrightarrow> v \<noteq> 0"
  by (auto simp: grants_def B2D_def hdr_size_def)

lemma align_page: "8 dvd t \<Longrightarrow> and_not (t + 7) 7 = t"
  using and_not_quanta [of 7 3 "t + 7"] by (auto elim!: dvdE)

lemma inv_nalloc: "pool_inv p L U E \<Longrightarrow> pool_inv (p\<lparr>p_nalloc := k\<rparr>) L U E"
  by (simp add: pool_inv_def shape_def in_use_size_def config_def accounts_def)

lemma region_Cons: "region ((t, n) # ms) = region ms \<union> {t ..< t + n}"
  by (auto simp: region_def)

text \<open>The request is served from the free blocks when one is large enough.\<close>

definition fits :: "pool \<Rightarrow> badr set \<Rightarrow> nat \<Rightarrow> bool" where
  "fits p U n \<longleftrightarrow> (\<exists>x\<in>free_set (p_mem p) U. alloc_size p n \<le> b_size (p_mem p) x)"

lemma alloc_hit:
  assumes I: "pool_inv p L U E" and f: "fits p U n" and n: "n < 1024 * 1024 * 1024"
  shows "\<exists>p' v U'. dopoolalloc mm r p n = Some (p', v) \<and> pool_inv p' L U' E \<and> grants p U p' U' n v \<and> same_memory p p'"
proof -
  define sz where "sz = alloc_size p n"
  define p0 where "p0 = p\<lparr>p_nalloc := p_nalloc p + 1\<rparr>"
  have p0: "p_mem p0 = p_mem p" "p_root p0 = p_root p" "p_quanta p0 = p_quanta p" by (simp_all add: p0_def)
  have I0: "pool_inv p0 L U E" unfolding p0_def by (rule inv_nalloc [OF I])
  have g0: "grants p0 U p' U' n v \<Longrightarrow> grants p U p' U' n v" "same_memory p0 p' \<Longrightarrow> same_memory p p'" for p' U' v
    by (simp_all add: grants_def same_memory_def p0_def)
  have "config p" using I by (simp add: pool_inv_def)
  note sb = alloc_size_bounds [OF this, of n, folded sz_def]
  have F: "frees (p_mem p0) (p_root p0) (free_set (p_mem p0) U)" using inv_shape [OF I0] by (simp add: shape_def)
  obtain t q where A: "alloc_find (p_mem p0) sz 0 (p_root p0) = Some (t, q)" "best_fit (p_mem p0) (free_set (p_mem p0) U) sz t q"
    by (rule alloc_find_best [OF F, of sz])
  have code: "dopoolalloc mm r p n = (if t \<noteq> 0 then alloc_exact p0 t else alloc_best p0 q sz)" if "t \<noteq> 0 \<or> q \<noteq> 0"
    using n that A(1) by (subst dopoolalloc.simps) (auto simp: Let_def sz_def p0_def)
  have "t \<noteq> 0 \<or> q \<noteq> 0" using A(2) f p0 by (cases "t = 0"; cases "q = 0") (auto simp: best_fit_def fits_def sz_def not_less [symmetric])
  note code = code [OF this]
  show ?thesis
  proof (cases "t = 0")
    case False
    then have "\<exists>p' v. alloc_exact p0 t = Some (p', v) \<and> pool_inv p' L U E \<and> grants p0 U p' U n v \<and> same_memory p0 p'"
      using A(2) sb(2) by (intro alloc_exact_ok [OF I0]) (auto simp: best_fit_def)
    then show ?thesis unfolding code if_P [OF False] using g0 by blast
  next
    case True
    then have q: "q \<in> free_set (p_mem p0) U" "sz < b_size (p_mem p0) q" using A(2) \<open>t \<noteq> 0 \<or> q \<noteq> 0\<close> by (auto simp: best_fit_def)
    have "p_quanta p0 + 1 dvd sz" using sb(1) p0 by simp
    from alloc_best_ok [OF I0 q sb(2) this] show ?thesis using code True g0 by (simp only: simp_thms if_False) blast
  qed
qed

text \<open>Otherwise the host is asked, within the limit of the pool.\<close>

definition asks :: "pool \<Rightarrow> nat \<Rightarrow> (nat \<times> nat) option" where
  "asks p n = snd (alloc_room p (alloc_size p n))"

lemma alloc_miss:
  assumes I: "pool_inv p L U E" and f: "\<not> fits p U n" and n: "n < 1024 * 1024 * 1024"
  shows "dopoolalloc mm r p n = (let p0 = p\<lparr>p_nalloc := p_nalloc p + 1\<rparr>; sz = alloc_size p n in
    case alloc_room p0 sz of
      (p1, None) \<Rightarrow> Some (p0, 0)
    | (p1, Some (ns, alloc)) \<Rightarrow>
        (case mm (p_maps p1) alloc of
           None \<Rightarrow> Some (p1, 0)
         | Some t \<Rightarrow>
             let p2 = p1\<lparr>p_nbrk := p_nbrk p1 + 1, p_maps := (t, alloc) # p_maps p1\<rparr>; t = and_not (t + 7) 7 in
             if p_chain p2 \<noteq> 0 \<and> int t - int (B2LIMIT (p_mem p2) (p_chain p2)) - int (p_quanta p2 + 1) = 0 then
               let (p3, q) = merge_arena p2 alloc in
               case poolfree p3 (B2D q) of
                 None \<Rightarrow> None
               | Some p4 \<Rightarrow> if refused r p4 then Some (p4, 0) else dopoolalloc mm r p4 n
             else new_arena p2 t ns sz))"
proof -
  define p0 where "p0 = p\<lparr>p_nalloc := p_nalloc p + 1\<rparr>"
  have p0: "p_mem p0 = p_mem p" "p_root p0 = p_root p" by (simp_all add: p0_def)
  have F: "frees (p_mem p0) (p_root p0) (free_set (p_mem p0) U)" using inv_shape [OF I] p0 by (simp add: shape_def)
  obtain t q where A: "alloc_find (p_mem p0) (alloc_size p n) 0 (p_root p0) = Some (t, q)"
      "best_fit (p_mem p0) (free_set (p_mem p0) U) (alloc_size p n) t q"
    by (rule alloc_find_best [OF F, of "alloc_size p n"])
  have tq: "t = 0" "q = 0" using A(2) f p0 by (auto simp: best_fit_def fits_def split: if_splits)
  have code: "dopoolalloc mm r p n = (case alloc_room p0 (alloc_size p n) of
      (p1, None) \<Rightarrow>
        (case poolcompact p1 of
           None \<Rightarrow> None
         | Some (p, compacted) \<Rightarrow> if compacted then if refused r p then Some (p, 0) else dopoolalloc mm r p n else Some (p, 0))
    | (p1, Some (ns, alloc)) \<Rightarrow>
        (case mm (p_maps p1) alloc of
           None \<Rightarrow> Some (p1, 0)
         | Some t \<Rightarrow>
             let p2 = p1\<lparr>p_nbrk := p_nbrk p1 + 1, p_maps := (t, alloc) # p_maps p1\<rparr>; t = and_not (t + 7) 7 in
             if p_chain p2 \<noteq> 0 \<and> int t - int (B2LIMIT (p_mem p2) (p_chain p2)) - int (p_quanta p2 + 1) = 0 then
               let (p3, q) = merge_arena p2 alloc in
               case poolfree p3 (B2D q) of
                 None \<Rightarrow> None
               | Some p4 \<Rightarrow> if refused r p4 then Some (p4, 0) else dopoolalloc mm r p4 n
             else new_arena p2 t ns (alloc_size p n)))"
  proof -
    have nn: "\<not> n \<ge> 1024 * 1024 * 1024" using n by simp
    show ?thesis
      by (subst dopoolalloc.simps) (simp only: if_not_P [OF nn] Let_def p0_def [symmetric] A(1) tq option.case prod.case if_False simp_thms)
  qed
  show ?thesis
  proof (cases "snd (alloc_room p0 (alloc_size p n))")
    case None
    then have r: "alloc_room p0 (alloc_size p n) = (p0, None)" using alloc_room_none by (metis prod.collapse)
    have "poolcompact p0 = Some (p0, False)" using I by (simp add: poolcompact_def pool_inv_def config_def p0_def)
    then show ?thesis unfolding code Let_def p0_def [symmetric] r by simp
  next
    case (Some a)
    then have r: "alloc_room p0 (alloc_size p n) = (fst (alloc_room p0 (alloc_size p n)), Some (fst a, snd a))" by (metis prod.collapse)
    show ?thesis unfolding code Let_def p0_def [symmetric] by (subst (1 2) r) (simp only: prod.case option.case)
  qed
qed

lemma alloc_new_arena:
  assumes I: "pool_inv p L U E" and r: "alloc_room p (alloc_size p n) = (p1, Some (ns, alloc))"
    and t: "0 < t" "{t ..< t + alloc} \<inter> region (p_maps p) = {}"
    and p2: "p2 = p1\<lparr>p_nbrk := p_nbrk p1 + 1, p_maps := (t, alloc) # p_maps p1\<rparr>"
  shows "\<exists>p' v L' U' E'. new_arena p2 t ns (alloc_size p n) = Some (p', v) \<and> pool_inv p' L' U' E' \<and> grants p U p' U' n v \<and>
    p_data p' = p_data p"
proof -
  let ?u = "p_quanta p + 1" and ?sz = "alloc_size p n"
  have ca: "config p" "accounts p" using I by (auto simp: pool_inv_def)
  note sb = alloc_size_bounds [OF ca(1), of n]
  note R = alloc_room_ok [OF ca sb(1,4) r]
  have p2f: "p_mem p2 = p_mem p" "p_chain p2 = p_chain p" "p_root p2 = p_root p" "p_quanta p2 = p_quanta p"
    "p_maps p2 = (t, alloc) # p_maps p" "p_cursize p2 = p_cursize p" "p_data p2 = p_data p" by (simp_all add: p2 R(1))
  have ua: "?u + ns + ?u = alloc" using R(4) by simp
  have S: "shape p L U E" by (rule inv_shape [OF I])
  have "\<exists>h' root' L' U' E'. new_arena p2 t ns ?sz = Some (charge (p2\<lparr>p_mem := h', p_root := root', p_chain := t\<rparr>) (t + ?u), B2D (t + ?u)) \<and>
    shape (p2\<lparr>p_mem := h', p_root := root', p_chain := t\<rparr>) L' U' E' \<and> live h' U' = insert (t + ?u) (live (p_mem p2) U) \<and>
    t + ?u \<notin> live (p_mem p2) U \<and> b_size h' (t + ?u) = ?sz \<and> (\<forall>x\<in>live (p_mem p2) U. b_size h' x = b_size (p_mem p2) x)"
    by (rule new_arena_ok [where ?M0.0 = "region (p_maps p)"])
      (use S p2f R sb t ua in \<open>auto simp: shape_def region_Cons\<close>)
  then obtain h' root' L' U' E' where A: "new_arena p2 t ns ?sz = Some (charge (p2\<lparr>p_mem := h', p_root := root', p_chain := t\<rparr>) (t + ?u), B2D (t + ?u))"
    "shape (p2\<lparr>p_mem := h', p_root := root', p_chain := t\<rparr>) L' U' E'" "live h' U' = insert (t + ?u) (live (p_mem p) U)"
    "t + ?u \<notin> live (p_mem p) U" "b_size h' (t + ?u) = ?sz" "\<forall>x\<in>live (p_mem p) U. b_size h' x = b_size (p_mem p) x" unfolding p2f(1) by blast
  define p3 where "p3 = p2\<lparr>p_mem := h', p_root := root', p_chain := t\<rparr>"
  have "live (p_mem p3) U' - {t + ?u} = live (p_mem p) U" using A(3,4) by (auto simp: p3_def)
  then have "p_cursize p3 = (\<Sum>x\<in>live (p_mem p3) U' - {t + ?u}. b_size (p_mem p3) x)"
    using I A(6) p2f(6) by (simp add: p3_def pool_inv_def in_use_size_def)
  moreover have "config p3" "accounts p3" using ca R by (auto simp: p3_def p2 config_def accounts_def)
  ultimately have "pool_inv (charge p3 (t + ?u)) L' U' E'" by (intro charge_inv) (use A(2,3) in \<open>auto simp: p3_def\<close>)
  moreover have "grants p U (charge p3 (t + ?u)) U' n (B2D (t + ?u))" by (rule grantsI) (use A sb in \<open>auto simp: p3_def\<close>)
  ultimately show ?thesis using A(1) p2f(7) by (auto simp: p3_def [symmetric]) (auto simp: p3_def)
qed

lemma alloc_longer:
  assumes I: "pool_inv p L U E" and r: "alloc_room p (alloc_size p n) = (p1, Some (ns, alloc))"
    and t: "{t ..< t + alloc} \<inter> region (p_maps p) = {}"
    and p2: "p2 = p1\<lparr>p_nbrk := p_nbrk p1 + 1, p_maps := (t, alloc) # p_maps p1\<rparr>"
    and c: "p_chain p \<noteq> 0" "t = B2LIMIT (p_mem p) (p_chain p) + (p_quanta p + 1)"
  shows "\<exists>p3 q p4 E' U'. merge_arena p2 alloc = (p3, q) \<and> poolfree p3 (B2D q) = Some p4 \<and> pool_inv p4 L U' E' \<and> keeps p U p4 U' \<and> fits p4 U' n \<and>
    p_data p4 = p_data p \<and> p_ressize p4 = p_ressize p \<and> p_cursize p4 = p_cursize p"
proof -
  let ?u = "p_quanta p + 1" and ?sz = "alloc_size p n"
  have ca: "config p" "accounts p" using I by (auto simp: pool_inv_def)
  note sb = alloc_size_bounds [OF ca(1), of n]
  note R = alloc_room_ok [OF ca sb(1,4) r]
  have p2f: "p_mem p2 = p_mem p" "p_chain p2 = p_chain p" "p_root p2 = p_root p" "p_quanta p2 = p_quanta p"
    "p_maps p2 = (t, alloc) # p_maps p" "p_cursize p2 = p_cursize p" "p_data p2 = p_data p" "p_ressize p2 = p_ressize p" "p_chunk p2 = p_chunk p"
    "p_move p2 = p_move p" "p_hw p2 = p_hw p" by (simp_all add: p2 R(1))
  define q where "q = p_chain p2 + b_csize (p_mem p2) (p_chain p2)"
  have tq: "t = q + ?u" using c(2) p2f by (simp add: B2LIMIT_def q_def)
  have S: "shape p L U E" by (rule inv_shape [OF I])
  have a0: "0 < alloc" "?u dvd alloc" using R(4) dvd_add [OF dvd_add [OF R(3) dvd_refl] dvd_refl] by (auto simp del: add_Suc_right)
  have "\<exists>h' E'. merge_arena p2 alloc = (p2\<lparr>p_mem := h', p_cursize := p_cursize p2 + alloc\<rparr>, q) \<and> shape (p2\<lparr>p_mem := h'\<rparr>) L (insert q U) E' \<and>
    live h' (insert q U) = insert q (live (p_mem p2) U) \<and> q \<notin> live (p_mem p2) U \<and> b_size h' = (b_size (p_mem p2))(q := alloc)"
    by (rule merge_arena_ok [where ?M0.0 = "region (p_maps p)" and u = ?u, OF _ _ _ _ _ q_def a0])
      (use S p2f t tq c(1) in \<open>auto simp: shape_def region_Cons\<close>)
  then obtain h' E' where A: "merge_arena p2 alloc = (p2\<lparr>p_mem := h', p_cursize := p_cursize p + alloc\<rparr>, q)" "shape (p2\<lparr>p_mem := h'\<rparr>) L (insert q U) E'"
    "live h' (insert q U) = insert q (live (p_mem p) U)" "q \<notin> live (p_mem p) U" "b_size h' = (b_size (p_mem p))(q := alloc)" unfolding p2f(1,6) by blast
  define p3 where "p3 = p2\<lparr>p_mem := h', p_cursize := p_cursize p + alloc\<rparr>"
  have S3: "shape p3 L (insert q U) E'" using A(2) by (simp add: p3_def shape_def)
  have q3: "q \<in> live (p_mem p3) (insert q U)" using A(3) by (simp add: p3_def)
  obtain h4 root4 ptr4 U4 where P: "poolfree p3 (B2D q) = Some (p3\<lparr>p_mem := h4, p_root := root4, p_ptr := ptr4, p_nfree := p_nfree p3 + 1,
        p_cursize := p_cursize p3 - b_size (p_mem p3) q\<rparr>)"
      "shape (p3\<lparr>p_mem := h4, p_root := root4\<rparr>) L U4 E'" "live h4 U4 = live (p_mem p3) (insert q U) - {q}"
      "\<forall>x\<in>live (p_mem p3) (insert q U) - {q}. b_size h4 x = b_size (p_mem p3) x" "\<exists>d\<in>free_set h4 U4. b_size (p_mem p3) q \<le> b_size h4 d"
    using poolfree_shape [OF S3 q3] by blast
  define p4 where "p4 = p3\<lparr>p_mem := h4, p_root := root4, p_ptr := ptr4, p_nfree := p_nfree p3 + 1, p_cursize := p_cursize p3 - b_size (p_mem p3) q\<rparr>"
  have m4: "p_mem p4 = h4" "p_cursize p4 = p_cursize p" "p_quanta p4 = p_quanta p" using A(5) by (simp_all add: p4_def p3_def p2f)
  have lv: "live h4 U4 = live (p_mem p) U" using P(3) A(3,4) by (auto simp: p3_def)
  have sz: "b_size h4 x = b_size (p_mem p) x" if "x \<in> live (p_mem p) U" for x
  proof -
    have "x \<noteq> q" using that A(4) by auto
    then show ?thesis using P(4) that A(3,5) by (auto simp: p3_def)
  qed
  have "shape p4 L U4 E'" using P(2) by (simp add: p4_def shape_def)
  moreover have "config p4" "accounts p4" using ca R by (auto simp: p4_def p3_def p2 config_def accounts_def)
  moreover have "p_cursize p4 = in_use_size p4 U4" using I m4 lv sz by (simp add: pool_inv_def in_use_size_def)
  moreover have "p_cursize p4 \<le> p_hw p4" using I m4 p2f(11) by (simp add: pool_inv_def p4_def p3_def)
  ultimately have "pool_inv p4 L U4 E'" by (simp add: pool_inv_def)
  moreover have "keeps p U p4 U4" using lv sz m4 by (simp add: keeps_def)
  moreover have "fits p4 U4 n"
  proof -
    have "alloc_size p4 n = ?sz" using m4 by (simp add: alloc_size_def)
    moreover have "?sz \<le> b_size (p_mem p3) q" using R(2,4) A(5) by (simp add: p3_def)
    ultimately show ?thesis using P(5) m4 by (auto simp: fits_def intro: order_trans)
  qed
  moreover have "p_data p4 = p_data p" "p_ressize p4 = p_ressize p" by (simp_all add: p4_def p3_def p2f)
  ultimately show ?thesis using A(1) P(1) m4(2) unfolding p3_def [symmetric] p4_def [symmetric] by blast
qed

text \<open>When the host is asked, and when it says no.\<close>

definition no_memory :: "host_mmap \<Rightarrow> pool \<Rightarrow> badr set \<Rightarrow> nat \<Rightarrow> bool" where
  "no_memory mm p U n \<longleftrightarrow> \<not> fits p U n \<and> (case asks p n of None \<Rightarrow> True | Some (ns, alloc) \<Rightarrow> mm (p_maps p) alloc = None)"

lemma alloc_room_nalloc: "alloc_room (p\<lparr>p_nalloc := k\<rparr>) n = (fst (alloc_room p n)\<lparr>p_nalloc := k\<rparr>, snd (alloc_room p n))"
  by (simp add: alloc_room_def Let_def)

definition outcome :: "host_mmap \<Rightarrow> bool \<Rightarrow> pool \<Rightarrow> badr set \<Rightarrow> nat \<Rightarrow> pool \<Rightarrow> badr set \<Rightarrow> badr \<Rightarrow> bool" where
  "outcome mm r p U n p' U' v \<longleftrightarrow> p_data p' = p_data p \<and>
    (if v = 0 then keeps p U p' U' \<and> (n \<ge> 1024 * 1024 * 1024 \<or> refused r p \<or> no_memory mm p U n)
     else grants p U p' U' n v)"

lemma outcome_grants: "p_data p' = p_data p \<Longrightarrow> grants p U p' U' n v \<Longrightarrow> outcome mm r p U n p' U' v"
  using grants_nonnull [of p U p' U' n v] by (simp add: outcome_def)

lemma dopoolalloc_ok:
  assumes I: "pool_inv p L U E" and mm: "mmap_ok mm"
  shows "\<exists>p' v L' U' E'. dopoolalloc mm r p n = Some (p', v) \<and> pool_inv p' L' U' E' \<and> outcome mm r p U n p' U' v"
proof -
  consider "n \<ge> 1024 * 1024 * 1024" | "n < 1024 * 1024 * 1024" "fits p U n" | "n < 1024 * 1024 * 1024" "\<not> fits p U n" by linarith
  then show ?thesis
  proof cases
    case 1
    then have "dopoolalloc mm r p n = Some (p, 0)" by (simp add: dopoolalloc.simps)
    moreover have "outcome mm r p U n p U 0" using 1 by (simp add: outcome_def keeps_refl)
    ultimately show ?thesis using I by blast
  next
    case w: 2
    then show ?thesis using alloc_hit [OF I w(2,1), of mm r] outcome_grants unfolding same_memory_def by blast
  next
    case 3
    define p0 where "p0 = p\<lparr>p_nalloc := p_nalloc p + 1\<rparr>"
    have p0: "p_mem p0 = p_mem p" "p_maps p0 = p_maps p" "p_data p0 = p_data p" "p_quanta p0 = p_quanta p" "p_chain p0 = p_chain p" "alloc_size p0 n = alloc_size p n"
      "p_cursize p0 = p_cursize p" "p_ressize p0 = p_ressize p" by (simp_all add: p0_def alloc_size_def)
    have I0: "pool_inv p0 L U E" unfolding p0_def by (rule inv_nalloc [OF I])
    have k0: "keeps p U p0 U" by (rule keeps_refl) (rule p0)
    obtain p1 rm where r: "alloc_room p0 (alloc_size p n) = (p1, rm)" by fastforce
    have ask: "asks p n = rm" using r by (simp add: asks_def p0_def alloc_room_nalloc)
    note code = alloc_miss [OF I 3(2,1), of mm r, folded p0_def, unfolded Let_def r prod.case]
    show ?thesis
    proof (cases rm)
      case None
      then have "dopoolalloc mm r p n = Some (p0, 0)" using code by simp
      moreover have "outcome mm r p U n p0 U 0" using k0 3 ask None p0(3) by (simp add: outcome_def no_memory_def)
      ultimately show ?thesis using I0 by blast
    next
      case (Some a)
      obtain ns alloc where a: "a = (ns, alloc)" by fastforce
      have ca: "config p0" "accounts p0" using I0 by (auto simp: pool_inv_def)
      have rr: "alloc_room p0 (alloc_size p0 n) = (p1, Some (ns, alloc))" using r Some a p0(6) by simp
      note R = alloc_room_ok [OF ca alloc_size_bounds(1) [OF ca(1)] alloc_size_bounds(4) [OF ca(1)] rr]
      have p1: "p_mem p1 = p_mem p" "p_maps p1 = p_maps p" "p_data p1 = p_data p" by (simp_all add: R(1) p0)
      show ?thesis
      proof (cases "mm (p_maps p1) alloc")
        case None
        then have "dopoolalloc mm r p n = Some (p1, 0)" using code Some a by simp
        moreover have "pool_inv p1 L U E" using I0 R by (auto simp: pool_inv_def shape_def in_use_size_def config_def accounts_def)
        moreover have "outcome mm r p U n p1 U 0"
          using 3 ask Some a None p1 by (simp add: outcome_def no_memory_def keeps_refl)
        ultimately show ?thesis by blast
      next
        case t: (Some t)
        have tm: "0 < t" "8 dvd t" "{t ..< t + alloc} \<inter> region (p_maps p0) = {}"
          using mm t p1(2) p0(2) unfolding mmap_ok_def by metis+
        define p2 where "p2 = p1\<lparr>p_nbrk := p_nbrk p1 + 1, p_maps := (t, alloc) # p_maps p1\<rparr>"
        have p2f: "p_mem p2 = p_mem p" "p_chain p2 = p_chain p" "p_quanta p2 = p_quanta p" by (simp_all add: p2_def R(1) p0)
        note code2 = code [unfolded Some a option.case prod.case t, folded p2_def, unfolded p2f align_page [OF tm(2)]]
        show ?thesis
        proof (cases "p_chain p \<noteq> 0 \<and> int t - int (B2LIMIT (p_mem p) (p_chain p)) - int (p_quanta p + 1) = 0")
          case False
          then have "dopoolalloc mm r p n = new_arena p2 t ns (alloc_size p n)"
            using code2 by (simp only: if_False)
          moreover obtain p' v L' U' E' where N: "new_arena p2 t ns (alloc_size p n) = Some (p', v)" "pool_inv p' L' U' E'" "grants p0 U p' U' n v" "p_data p' = p_data p"
            using alloc_new_arena [OF I0 rr tm(1,3) p2_def] unfolding p0 by blast
          ultimately show ?thesis using outcome_grants [OF N(4) keeps_grants [OF k0 N(3)]] by auto
        next
          case True
          then have tl: "p_chain p0 \<noteq> 0" "t = B2LIMIT (p_mem p0) (p_chain p0) + (p_quanta p0 + 1)" using p0 by auto
          obtain p3 q p4 E' U' where A: "merge_arena p2 alloc = (p3, q)" "poolfree p3 (B2D q) = Some p4" "pool_inv p4 L U' E'" "keeps p0 U p4 U'" "fits p4 U' n"
              "p_data p4 = p_data p" "p_ressize p4 = p_ressize p" "p_cursize p4 = p_cursize p"
            using alloc_longer [OF I0 rr tm(3) p2_def tl] unfolding p0 by blast
          have k4: "keeps p U p4 U'" using A(4) p0(1) by (simp add: keeps_def)
          have c: "dopoolalloc mm r p n = (if refused r p4 then Some (p4, 0) else dopoolalloc mm r p4 n)"
            using code2 True by (simp only: if_True simp_thms A(1,2) prod.case option.case)
          show ?thesis
          proof (cases "refused r p4")
            case True
            then have "refused r p" using A(7,8) by (simp add: refused_def)
            then have "outcome mm r p U n p4 U' 0" using k4 A(6) by (simp add: outcome_def)
            then show ?thesis using c True A(3) by auto
          next
            case False
            obtain p' v U'' where H: "dopoolalloc mm r p4 n = Some (p', v)" "pool_inv p' L U'' E'" "grants p4 U' p' U'' n v" "p_data p' = p_data p"
              using alloc_hit [OF A(3,5) 3(1), of mm r] A(6) unfolding same_memory_def by auto
            show ?thesis using c False H(1,2) outcome_grants [OF H(4) keeps_grants [OF k4 H(3)]] by auto
          qed
        qed
      qed
    qed
  qed
qed

lemma poolalloc_ok:
  assumes "pool_inv p L U E" "mmap_ok mm"
  shows "\<exists>p' v L' U' E'. poolalloc mm r p n = Some (p', v) \<and> pool_inv p' L' U' E' \<and> outcome mm r p U n p' U' v"
proof (cases "refused r p")
  case True
  then have "outcome mm r p U n p U 0" by (simp add: outcome_def keeps_refl)
  then show ?thesis using assms(1) True by (auto simp: poolalloc_def)
next
  case False
  then show ?thesis using dopoolalloc_ok [OF assms] by (simp add: poolalloc_def)
qed

section \<open>poolrealloc\<close>

lemma inv_data: "pool_inv p L U E \<Longrightarrow> pool_inv (p\<lparr>p_data := d\<rparr>) L U E"
  by (simp add: pool_inv_def shape_def in_use_size_def config_def accounts_def)

lemma live_apart:
  assumes "pool_inv p L U E" "x \<in> live (p_mem p) U" "y \<in> live (p_mem p) U" "x < y"
  shows "x + b_size (p_mem p) x \<le> y"
  using assms tiling_apart [of "p_quanta p + 1" "p_mem p" L U E x y] by (auto simp: pool_inv_def shape_def geo_def live_def)

text \<open>
  A block that must grow moves: the new block takes the place of the old among those in use, the bytes of
  the old block are in it, and those of the other blocks are as they were.
\<close>

definition moves :: "pool \<Rightarrow> badr set \<Rightarrow> badr \<Rightarrow> pool \<Rightarrow> badr set \<Rightarrow> nat \<Rightarrow> badr \<Rightarrow> bool" where
  "moves p U b p' U' n v \<longleftrightarrow> (\<exists>b'. v = B2D b' \<and> b' \<notin> live (p_mem p) U \<and> live (p_mem p') U' = insert b' (live (p_mem p) U - {b}) \<and>
    n + BHDRSIZE \<le> b_size (p_mem p') b' \<and> (\<forall>x\<in>live (p_mem p) U - {b}. b_size (p_mem p') x = b_size (p_mem p) x) \<and>
    (\<forall>i < b_size (p_mem p) b - BHDRSIZE. p_data p' (v + i) = p_data p (B2D b + i)) \<and>
    (\<forall>x\<in>live (p_mem p) U - {b}. \<forall>a. x \<le> a \<and> a < x + b_size (p_mem p) x \<longrightarrow> p_data p' a = p_data p a))"

lemma poolrealloc_moves:
  assumes I: "pool_inv p L U E" and mm: "mmap_ok mm" and b: "b \<in> live (p_mem p) U"
    and n: "b_size (p_mem p) b < n + BHDRSIZE" "n < 1024 * 1024 * 1024"
  shows "\<exists>p' v L' U' E'. poolrealloc mm r p (B2D b) n = Some (p', v) \<and> pool_inv p' L' U' E' \<and>
    (if v = 0 then keeps p U p' U' \<and> p_data p' = p_data p else moves p U b p' U' n v)"
proof -
  let ?os = "b_size (p_mem p) b - BHDRSIZE"
  have S: "shape p L U E" by (rule inv_shape [OF I])
  have D: "D2B (p_mem p) (B2D b) = Some b" by (rule D2B_live [OF S b])
  have bs: "BHDRSIZE \<le> b_size (p_mem p) b"
  proof -
    have "p_quanta p + 1 \<le> b_size (p_mem p) b"
      using S b tiling_unit [of "p_quanta p + 1" "p_mem p" L U E b] by (auto simp: shape_def geo_def live_def)
    moreover obtain k where k: "7 \<le> k" "p_quanta p + 1 = 2 ^ k" using I by (auto simp: pool_inv_def config_def)
    moreover have "(2 :: nat) ^ 7 \<le> 2 ^ k" using k(1) by (intro power_increasing) auto
    ultimately show ?thesis by (simp add: BHDRSIZE_def hdr_size_def tail_size_def)
  qed
  have nz: "n \<noteq> 0" "\<not> n \<le> ?os" "B2D b \<noteq> 0" using n bs by (auto simp: B2D_def hdr_size_def)
  obtain p1 v L1 U1 E1 where A: "poolalloc mm r p n = Some (p1, v)" "pool_inv p1 L1 U1 E1" "outcome mm r p U n p1 U1 v"
    using poolalloc_ok [OF I mm] by blast
  have code: "poolrealloc mm r p (B2D b) n = (if v \<noteq> 0 then map_option (\<lambda>p. (p, v)) (poolfree (copy_data v (B2D b) ?os p1) (B2D b)) else Some (p1, v))"
    using n(2) nz D A(1) by (simp add: poolrealloc_def Let_def)
  show ?thesis
  proof (cases "v = 0")
    case True
    then show ?thesis using A code by (auto simp: outcome_def)
  next
    case False
    then have "grants p U p1 U1 n v" and d1: "p_data p1 = p_data p" using A(3) by (auto simp: outcome_def)
    then obtain b' where g: "v = B2D b'" "b' \<notin> live (p_mem p) U" "live (p_mem p1) U1 = insert b' (live (p_mem p) U)" "n + BHDRSIZE \<le> b_size (p_mem p1) b'"
      "\<And>x. x \<in> live (p_mem p) U \<Longrightarrow> b_size (p_mem p1) x = b_size (p_mem p) x" by (auto simp: grants_def)
    define p2 where "p2 = copy_data v (B2D b) ?os p1"
    have m2: "p_mem p2 = p_mem p1" by (simp add: p2_def copy_data_def)
    have I2: "pool_inv p2 L1 U1 E1" unfolding p2_def copy_data_def by (rule inv_data [OF A(2)])
    have b2: "b \<in> live (p_mem p2) U1" using m2 g(3) b by simp
    obtain p3 U3 where F: "poolfree p2 (B2D b) = Some p3" "pool_inv p3 L1 U3 E1" "live (p_mem p3) U3 = live (p_mem p2) U1 - {b}"
        "\<forall>x\<in>live (p_mem p2) U1 - {b}. b_size (p_mem p3) x = b_size (p_mem p2) x" "p_data p3 = p_data p2"
      by (rule poolfree_inv [OF I2 b2])
    have ne: "b' \<noteq> b" using g(2) b by auto
    have lv: "live (p_mem p3) U3 = insert b' (live (p_mem p) U - {b})" using F(3) m2 g(3) ne by auto
    have "b_size (p_mem p3) b' = b_size (p_mem p1) b'" using F(4) [rule_format, of b'] m2 g(3) ne by simp
    moreover have "b_size (p_mem p3) x = b_size (p_mem p) x" if "x \<in> live (p_mem p) U - {b}" for x
      using F(4) [rule_format, of x] m2 g(3) g(5) [of x] that by auto
    moreover have "p_data p3 (v + i) = p_data p (B2D b + i)" if "i < ?os" for i
    proof -
      have "v + i < v + b_size (p_mem p) b - BHDRSIZE" using that bs by linarith
      then show ?thesis using d1 F(5) by (simp add: p2_def copy_data_def)
    qed
    moreover have "p_data p3 a = p_data p a" if x: "x \<in> live (p_mem p) U - {b}" "x \<le> a" "a < x + b_size (p_mem p) x" for x a
    proof -
      have xn: "x \<in> live (p_mem p1) U1" "b' \<in> live (p_mem p1) U1" "x \<noteq> b'" "b_size (p_mem p1) x = b_size (p_mem p) x" using x g by auto
      have "?os + BHDRSIZE \<le> b_size (p_mem p1) b'" using g(4) n(1) bs by simp
      then have "\<not> (v \<le> a \<and> a < v + ?os)"
        using live_apart [OF A(2) xn(1,2)] live_apart [OF A(2) xn(2,1)] xn(3,4) x(2,3) g(1)
        by (cases x b' rule: linorder_cases) (simp_all add: B2D_def BHDRSIZE_def)
      then show ?thesis using d1 F(5) by (auto simp: p2_def copy_data_def)
    qed
    ultimately have "moves p U b p3 U3 n v" unfolding moves_def using g(1,2,4) lv by auto
    then show ?thesis using code False F(1,2) unfolding p2_def [symmetric] by auto
  qed
qed

end
