(* ===== verification/Pool_Run.thy ===== *)
theory Pool_Run
  imports Pool_Theorems
begin

text \<open>
  The life of a memory pool: any sequence of allocations, of frees of blocks in use and of reallocations, from
  an empty pool on. Every state it gets to satisfies the invariant, so that the blocks in use are apart,
  every call returns, and the pool's own check, \<open>poolaudit\<close>, finds nothing.
\<close>

section \<open>Runs\<close>

definition pool_start :: "pool \<Rightarrow> bool" where
  "pool_start p \<longleftrightarrow> config p \<and> p_root p = 0 \<and> p_chain p = 0 \<and> p_maps p = [] \<and> p_cursize p = 0 \<and> p_arenasize p = 0"

text \<open>
  A state with the addresses handed out and not freed since, and the sizes asked for. The answers of the
  host, and whether the running program is restricted, may be others at each call.
\<close>

inductive pool_run :: "pool \<Rightarrow> (badr \<rightharpoonup> nat) \<Rightarrow> bool" where
  start: "pool_start p \<Longrightarrow> pool_run p Map.empty"
| alloc: "pool_run p A \<Longrightarrow> mmap_ok mm \<Longrightarrow> poolalloc mm r p n = Some (p', v) \<Longrightarrow>
    pool_run p' (if v = 0 then A else A(v \<mapsto> n))"
| free: "pool_run p A \<Longrightarrow> v \<in> dom A \<Longrightarrow> poolfree p v = Some p' \<Longrightarrow> pool_run p' (A(v := None))"
| realloc: "pool_run p A \<Longrightarrow> mmap_ok mm \<Longrightarrow> v \<in> dom A \<Longrightarrow> 0 < n \<Longrightarrow> poolrealloc mm r p v n = Some (p', v') \<Longrightarrow>
    pool_run p' (if v' = 0 then A else (A(v := None))(v' \<mapsto> n))"

definition run_inv :: "pool \<Rightarrow> (badr \<rightharpoonup> nat) \<Rightarrow> badr set \<Rightarrow> badr set \<Rightarrow> badr set \<Rightarrow> bool" where
  "run_inv p A L U E \<longleftrightarrow> pool_inv p L U E \<and> dom A = B2D ` live (p_mem p) U \<and>
    (\<forall>b n. A (B2D b) = Some n \<longrightarrow> n + BHDRSIZE \<le> b_size (p_mem p) b)"

lemma B2D_inj: "B2D x = B2D y \<longleftrightarrow> x = y"
  by (simp add: B2D_def)

lemma run_inv_live: "run_inv p A L U E \<Longrightarrow> v \<in> dom A \<Longrightarrow> \<exists>b. v = B2D b \<and> b \<in> live (p_mem p) U"
  unfolding run_inv_def by auto

lemma start_inv:
  assumes "pool_start p"
  shows "run_inv p Map.empty {} {} {}"
proof -
  obtain k where k: "7 \<le> k" "p_quanta p + 1 = 2 ^ k" using assms by (auto simp: pool_start_def config_def)
  have "(2 :: nat) ^ 3 \<le> 2 ^ k" using k(1) by (intro power_increasing) auto
  then have "tiling (p_quanta p + 1) (p_mem p) {} {} {}" using k(2) by (simp add: tiling_def apart_def)
  moreover have "chained (p_mem p) 0 {} {}" unfolding chained_def by (auto intro: exI [of _ "[]"])
  moreover have "frees (p_mem p) 0 {}" unfolding frees_def by (rule exI [of _ Leaf]) (simp add: free_tree_def)
  ultimately show ?thesis using assms
    by (simp add: run_inv_def pool_inv_def shape_def geo_def marked_def covered_def joined_def free_set_def live_def in_use_size_def
        accounts_def pool_start_def)
qed

lemma keeps_run:
  assumes "run_inv p A L U E" "keeps p U p' U'" "pool_inv p' L' U' E'"
  shows "run_inv p' A L' U' E'"
proof -
  have "b \<in> live (p_mem p) U" if "A (B2D b) = Some n" for b n using assms(1) that by (force simp: run_inv_def B2D_inj)
  then show ?thesis using assms by (auto simp: run_inv_def keeps_def)
qed

lemma grants_run:
  assumes R: "run_inv p A L U E" and "grants p U p' U' n v" "pool_inv p' L' U' E'"
  shows "run_inv p' (A(v \<mapsto> n)) L' U' E'"
proof -
  obtain b where g: "v = B2D b" "b \<notin> live (p_mem p) U" "live (p_mem p') U' = insert b (live (p_mem p) U)" "n + BHDRSIZE \<le> b_size (p_mem p') b"
    "\<And>x. x \<in> live (p_mem p) U \<Longrightarrow> b_size (p_mem p') x = b_size (p_mem p) x" using assms(2) by (auto simp: grants_def)
  have "x \<in> live (p_mem p) U" if "A (B2D x) = Some m" for x m using R that by (force simp: run_inv_def B2D_inj)
  then show ?thesis using R assms(3) g by (auto simp: run_inv_def B2D_inj)
qed

lemma frees_run:
  assumes R: "run_inv p A L U E" and "b \<in> live (p_mem p) U" "pool_inv p' L' U' E'" "live (p_mem p') U' = live (p_mem p) U - {b}"
    "\<forall>x\<in>live (p_mem p) U - {b}. b_size (p_mem p') x = b_size (p_mem p) x"
  shows "run_inv p' (A(B2D b := None)) L' U' E'"
proof -
  have "x \<in> live (p_mem p) U" if "A (B2D x) = Some m" for x m using R that by (force simp: run_inv_def B2D_inj)
  then show ?thesis using assms by (auto simp: run_inv_def B2D_inj)
qed

lemma moves_run:
  assumes R: "run_inv p A L U E" and b: "b \<in> live (p_mem p) U" and "moves p U b p' U' n v" "pool_inv p' L' U' E'"
  shows "run_inv p' ((A(B2D b := None))(v \<mapsto> n)) L' U' E'"
proof -
  obtain b' where g: "v = B2D b'" "b' \<notin> live (p_mem p) U" "live (p_mem p') U' = insert b' (live (p_mem p) U - {b})" "n + BHDRSIZE \<le> b_size (p_mem p') b'"
    "\<forall>x\<in>live (p_mem p) U - {b}. b_size (p_mem p') x = b_size (p_mem p) x" using assms(3) unfolding moves_def by blast
  have "x \<in> live (p_mem p) U" if "A (B2D x) = Some m" for x m using R that by (force simp: run_inv_def B2D_inj)
  then show ?thesis using R assms(4) g b by (auto simp: run_inv_def B2D_inj)
qed

lemma realloc_fits:
  assumes I: "pool_inv p L U E" and b: "b \<in> live (p_mem p) U" "n + BHDRSIZE \<le> b_size (p_mem p) b" "0 < n" "n < 1024 * 1024 * 1024"
  shows "poolrealloc mm r p (B2D b) n = Some (p, B2D b)"
proof -
  have "B2D b \<noteq> 0" "n \<le> b_size (p_mem p) b - BHDRSIZE" using b(2) by (auto simp: B2D_def hdr_size_def)
  then show ?thesis using D2B_live [OF inv_shape [OF I] b(1)] b(3,4) by (simp add: poolrealloc_def Let_def)
qed

lemma pool_run_inv: "pool_run p A \<Longrightarrow> \<exists>L U E. run_inv p A L U E"
proof (induction rule: pool_run.induct)
  case (start p)
  then show ?case using start_inv by blast
next
  case (alloc p A mm r n p' v)
  then obtain L U E where R: "run_inv p A L U E" by blast
  then have I: "pool_inv p L U E" by (simp add: run_inv_def)
  obtain L' U' E' where P: "pool_inv p' L' U' E'" "outcome mm r p U n p' U' v" using poolalloc_ok [OF I alloc(2), of r n] alloc(3) by auto
  have "run_inv p' (if v = 0 then A else A(v \<mapsto> n)) L' U' E'"
    using P(2) keeps_run [OF R _ P(1)] grants_run [OF R _ P(1), of n v] unfolding outcome_def by (cases "v = 0") simp_all
  then show ?case by blast
next
  case (free p A v p')
  then obtain L U E where R: "run_inv p A L U E" by blast
  then have I: "pool_inv p L U E" by (simp add: run_inv_def)
  obtain b where b: "v = B2D b" "b \<in> live (p_mem p) U" using run_inv_live [OF R free(2)] by blast
  obtain p1 U1 where F: "poolfree p (B2D b) = Some p1" "pool_inv p1 L U1 E" "live (p_mem p1) U1 = live (p_mem p) U - {b}"
      "\<forall>x\<in>live (p_mem p) U - {b}. b_size (p_mem p1) x = b_size (p_mem p) x"
    by (rule poolfree_inv [OF I b(2)])
  then have "p1 = p'" using free(3) b(1) by simp
  then show ?case using frees_run [OF R b(2) F(2-4)] b(1) by blast
next
  case (realloc p A mm v n r p' v')
  then obtain L U E where R: "run_inv p A L U E" by blast
  then have I: "pool_inv p L U E" by (simp add: run_inv_def)
  obtain b where b: "v = B2D b" "b \<in> live (p_mem p) U" using run_inv_live [OF R realloc(3)] by blast
  consider "n \<ge> 1024 * 1024 * 1024" | "n < 1024 * 1024 * 1024" "n + BHDRSIZE \<le> b_size (p_mem p) b" | "n < 1024 * 1024 * 1024" "b_size (p_mem p) b < n + BHDRSIZE"
    by linarith
  then show ?case
  proof cases
    case 1
    then have "p' = p" "v' = 0" using realloc(5) by (simp_all add: poolrealloc_def)
    then show ?thesis using R by auto
  next
    case w: 2
    then have e: "p' = p" "v' = B2D b" using realloc(5) realloc_fits [OF I b(2) w(2) realloc(4) w(1)] b(1) by auto
    have "run_inv p (A(B2D b \<mapsto> n)) L U E" using R b(2) w(2) by (auto simp: run_inv_def B2D_inj)
    moreover have "(if v' = 0 then A else (A(v := None))(v' \<mapsto> n)) = A(B2D b \<mapsto> n)" using e b(1) by (simp add: B2D_def hdr_size_def)
    ultimately show ?thesis using e(1) by metis
  next
    case 3
    obtain L' U' E' where P: "pool_inv p' L' U' E'" "if v' = 0 then keeps p U p' U' \<and> p_data p' = p_data p else moves p U b p' U' n v'"
      using poolrealloc_moves [OF I realloc(2) b(2) 3(2,1), of r] realloc(5) b(1) by auto
    have "run_inv p' (if v' = 0 then A else (A(v := None))(v' \<mapsto> n)) L' U' E'"
      using P(2) keeps_run [OF R _ P(1)] moves_run [OF R b(2) _ P(1), of n v'] b(1) by (cases "v' = 0") simp_all
    then show ?thesis by blast
  qed
qed

section \<open>The audit\<close>

unbundle bit_operations_syntax

lemma size_mask: "q + 1 = 2 ^ k \<Longrightarrow> q + 1 dvd n \<Longrightarrow> n AND q = (0 :: nat)"
proof -
  assume k: "q + 1 = 2 ^ k" and d: "q + 1 dvd n"
  have "q = mask k" using k by (simp add: mask_nat_def)
  then have "n AND q = take_bit k n" by (simp add: take_bit_eq_mask)
  then show ?thesis using d k by (simp add: take_bit_eq_mod)
qed

lemma audit_walk_ok:
  assumes G: "geo M (q + 1) h c L U E" and k: "q + 1 = 2 ^ k" and a: "\<And>x. audit x = None" and bc: "bc \<in> L"
    and x: "x \<in> U \<or> x = bc" "bc \<le> x" "x < bc + b_csize h bc"
  shows "audit_walk q audit h bc (bc + b_csize h bc) x = Inr (bc + b_csize h bc)"
  using x
proof (induction "bc + b_csize h bc - x" arbitrary: x rule: less_induct)
  case less
  let ?ec = "bc + b_csize h bc"
  note T = geo_tiling [OF G]
  have xc: "x \<in> L \<union> U" using less.prems(1) bc by auto
  have s: "sized (q + 1) h x" using T xc by (simp add: tiling_def)
  then have "b_size h x \<noteq> 0" "b_size h x AND q = 0" using size_mask [OF k] by (auto simp: sized_def)
  moreover have "b_magic h x = MAGIC_E \<and> x = bc \<or> b_magic h x \<in> {MAGIC_A, MAGIC_I, MAGIC_F}"
    using G less.prems(1) bc by (auto simp: geo_def marked_def)
  ultimately have "audit_block q audit h bc x = None" using a by (auto simp: audit_block_def)
  then have step: "audit_walk q audit h bc ?ec x = audit_walk q audit h bc ?ec (x + b_size h x)"
    using less.prems(3) by (subst audit_walk.simps) (simp add: B2NB_def)
  have ecE: "?ec \<in> E" "\<And>e. e \<in> E \<Longrightarrow> bc \<le> e \<Longrightarrow> ?ec \<le> e" using geo_arena [OF G bc] by auto
  have le: "x + b_size h x \<le> ?ec" using tiling_apart [OF T xc _ less.prems(3)] ecE(1) by simp
  show ?case
  proof (cases "x + b_size h x = ?ec")
    case True
    then show ?thesis using step by (simp add: audit_walk.simps)
  next
    case False
    then have lt: "x + b_size h x < ?ec" using le by simp
    have "x + b_size h x \<in> U" using tiling_next [OF T xc] ecE(2) [of "x + b_size h x"] less.prems(2) lt by auto
    then show ?thesis using less.hyps [of "x + b_size h x"] less.prems(2) lt step \<open>b_size h x \<noteq> 0\<close> by auto
  qed
qed

lemma audit_chain_ok:
  assumes G: "geo M (q + 1) h c L U E" and k: "q + 1 = 2 ^ k" and a: "\<And>x. audit x = None"
  shows "audit_chain q audit h c = Some None"
proof -
  obtain cs where cs: "chain_list h c cs" "set cs = L" using G by (auto simp: geo_def chained_def)
  have "audit_chain q audit h c' = Some None" if "chain_list h c' cs'" "set cs' \<subseteq> L" for c' cs'
    using that
  proof (induction cs' arbitrary: c')
    case Nil
    then show ?case by (simp add: audit_chain.simps)
  next
    case (Cons b bs)
    then have b: "c' = b" "b \<noteq> 0" "b \<in> L" "chain_list h (b_clink h b) bs" "set bs \<subseteq> L" by auto
    have m: "b_magic h b = MAGIC_E" "b_magic h (b + b_csize h b) = MAGIC_E" "0 < b_csize h b"
    proof -
      show "b_magic h b = MAGIC_E" using G b(3) by (simp add: geo_def marked_def)
      show "b_magic h (b + b_csize h b) = MAGIC_E" using G geo_arena [OF G b(3)] by (simp add: geo_def marked_def)
      show "0 < b_csize h b" using geo_arena [OF G b(3)] geo_sets [OF G] b(3) by (cases "b_csize h b = 0") auto
    qed
    have "audit_walk q audit h b (b + b_csize h b) b = Inr (b + b_csize h b)" by (rule audit_walk_ok [OF G k a b(3)]) (use m in auto)
    then show ?case using m b Cons.IH [OF b(4,5)] by (subst audit_chain.simps) (simp add: B2LIMIT_def)
  qed
  then show ?thesis using cs by blast
qed

lemma run_audit:
  assumes "run_inv p A L U E" "\<And>x. audit x = None"
  shows "audit_chain (p_quanta p) audit (p_mem p) (p_chain p) = Some None"
proof -
  obtain k where "p_quanta p + 1 = 2 ^ k" using assms(1) by (auto simp: run_inv_def pool_inv_def config_def)
  then show ?thesis using assms audit_chain_ok by (auto simp: run_inv_def pool_inv_def shape_def)
qed

section \<open>How much memory\<close>




section \<open>A run\<close>

text \<open>A host that maps each region behind all the others, and the first allocations from the main pool.\<close>

definition host_next :: host_mmap where "host_next ms n = Some (4096 * ((\<Sum>(a, m)\<leftarrow>ms. a + m) + 1))"

lemma host_next_ok: "mmap_ok host_next"
proof -
  have le: "a + m \<le> (\<Sum>(a, m)\<leftarrow>ms. a + m)" if "(a, m) \<in> set ms" for a m :: nat and ms
    using that by (induction ms) auto
  have "{t ..< t + n} \<inter> region ms = {}" if "host_next ms n = Some t" for ms n t
    using le [of _ _ ms] that by (fastforce simp: host_next_def region_def)
  then show ?thesis by (auto simp: mmap_ok_def host_next_def)
qed

lemmas pool_eval = poolalloc_def refused_def Let_def alloc_size_def and_not_def BHDRSIZE_def hdr_size_def tail_size_def alloc_exact_def
  alloc_best_def alloc_room_def host_next_def new_arena_def charge_def set_tail_def set_clink_def set_csize_def on_mem_def B2NB_def B2T_def
  B2D_def B2PT_def B2LIMIT_def pool_add_def pool_del_def pooladd_def pooladd_init_def pooldel_def pooldel_subst_def pooldel_head_def
  replace_child_def adopt_def unlink_def table_def table_pool_def no_headers_def alloc_find.simps leftmost.simps pooladd_find.simps

lemma main_start: "pool_start (table ! 0)"
  unfolding pool_start_def config_def by (auto simp: table_def table_pool_def intro!: exI [of _ 7])

lemma main_first: "map_option snd (poolalloc host_next False (table ! 0) 100) = Some 4256"
  by (simp add: pool_eval dopoolalloc.simps [of _ _ _ 100])

lemma main_second: "map_option snd (Option.bind (poolalloc host_next False (table ! 0) 100) (\<lambda>(p, v). poolalloc host_next False p 200)) = Some 4512"
  by (simp add: pool_eval dopoolalloc.simps [of _ _ _ 100] dopoolalloc.simps [of _ _ _ 200])

lemmas free_eval = poolrealloc_def poolfree_def D2B_def in_use_def join_forward_def join_backward_def copy_data_def
  MAGIC_A_def MAGIC_F_def MAGIC_E_def MAGIC_I_def

lemma main_third: "map_option snd (Option.bind (Option.bind (poolalloc host_next False (table ! 0) 100) (\<lambda>(p, v). poolalloc host_next False p 200))
    (\<lambda>(p, v). poolrealloc host_next False p 4256 1000)) = Some 4768"
  by (simp add: pool_eval free_eval dopoolalloc.simps [of _ _ _ 100] dopoolalloc.simps [of _ _ _ 200] dopoolalloc.simps [of _ _ _ 1000])

lemma main_grow: "\<exists>p p' v'. pool_run p [4256 \<mapsto> 100, 4512 \<mapsto> 200] \<and> poolrealloc host_next False p 4256 1000 = Some (p', v') \<and> v' \<noteq> 0"
proof -
  obtain p1 where 1: "poolalloc host_next False (table ! 0) 100 = Some (p1, 4256)" using main_first by auto
  then obtain p2 where 2: "poolalloc host_next False p1 200 = Some (p2, 4512)" using main_second by auto
  have 3: "map_option snd (poolrealloc host_next False p2 4256 1000) = Some 4768" using main_third 1 2 by simp
  have "pool_run p1 (if (4256 :: nat) = 0 then Map.empty else [4256 \<mapsto> 100])"
    by (rule pool_run.alloc [OF pool_run.start [OF main_start] host_next_ok 1])
  then have "pool_run p1 [4256 \<mapsto> 100]" by simp
  from pool_run.alloc [OF this host_next_ok 2] show ?thesis using 3 by auto
qed

lemma main_run: "\<exists>p. pool_run p [4256 \<mapsto> 100, 4512 \<mapsto> 200]"
  using main_grow by blast

section \<open>The theorems\<close>

lemma run_block:
  assumes "run_inv p A L U E" "A v = Some n"
  obtains b where "v = B2D b" "b \<in> live (p_mem p) U" "n + BHDRSIZE \<le> b_size (p_mem p) b"
  using assms run_inv_live [OF assms(1), of v] unfolding run_inv_def by blast

text \<open>C4: The check that \<open>poolaudit\<close> makes of all blocks of all pools finds no fault in any state that allocations, frees and
  reallocations lead to, when its argument \<open>audit\<close> finds none: every header has a size and a magic it should
  have and every arena ends where its leader says.\<close>

theorem poolaudit_clean:
  assumes "\<forall>p\<in>set ps. p_chain p = 0 \<or> (\<exists>A. pool_run p A)" "\<forall>i b. audit i b = None"
  shows "poolaudit i audit ps = Some None"
  using assms(1)
proof (induction ps arbitrary: i)
  case (Cons p ps)
  have "audit_chain (p_quanta p) (audit i) (p_mem p) (p_chain p) = Some None"
  proof (cases "p_chain p = 0")
    case True
    then show ?thesis by (simp add: audit_chain.simps)
  next
    case False
    then obtain A L U E where "run_inv p A L U E" using Cons.prems pool_run_inv by (metis list.set_intros(1))
    then show ?thesis by (rule run_audit) (use assms(2) in simp)
  qed
  then show ?case using Cons by simp
qed simp

theorem poolaudit_clean_witness:
  "\<exists>p. pool_run p [4256 \<mapsto> 100, 4512 \<mapsto> 200] \<and> poolaudit 0 (\<lambda>_ _. None) (p # tl table) = Some None"
proof -
  obtain p where p: "pool_run p [4256 \<mapsto> 100, 4512 \<mapsto> 200]" using main_run by blast
  have "\<forall>q\<in>set (p # tl table). p_chain q = 0 \<or> (\<exists>A. pool_run q A)" using p by (auto simp: table_def table_pool_def)
  then show ?thesis using poolaudit_clean [of "p # tl table" "\<lambda>_ _. None" 0] p by blast
qed



text \<open>C22: In every such state an allocation of any size returns, and so does a free of any block in use: the walks
  through the tree of free blocks end, and no header is found corrupt.\<close>

theorem pool_returns:
  assumes "pool_run p A" "mmap_ok mm"
  shows "(\<exists>p' v. poolalloc mm r p n = Some (p', v)) \<and> (\<forall>v\<in>dom A. \<exists>p'. poolfree p v = Some p')"
proof -
  obtain L U E where R: "run_inv p A L U E" using pool_run_inv [OF assms(1)] by blast
  then have I: "pool_inv p L U E" by (simp add: run_inv_def)
  have "\<exists>p'. poolfree p v = Some p'" if v: "v \<in> dom A" for v
  proof -
    obtain b where b: "v = B2D b" "b \<in> live (p_mem p) U" using run_inv_live [OF R v] by blast
    then show ?thesis using poolfree_shape [OF inv_shape [OF I] b(2)] by blast
  qed
  then show ?thesis using poolalloc_ok [OF I assms(2), of r n] by blast
qed

theorem pool_returns_witness:
  "\<exists>p. pool_run p [4256 \<mapsto> 100, 4512 \<mapsto> 200] \<and> (\<exists>p'. poolfree p 4256 = Some p') \<and> (\<exists>p' v. poolalloc host_next False p 5 = Some (p', v))"
proof -
  obtain p where p: "pool_run p [4256 \<mapsto> 100, 4512 \<mapsto> 200]" using main_run by blast
  show ?thesis using pool_returns [OF p host_next_ok, of False 5] p by auto
qed




text \<open>C23: A block that \<open>poolrealloc\<close> returns has the bytes of the old one, as many as both sizes have, and no byte of
  another block in use has changed.\<close>

theorem poolrealloc_contents:
  assumes "pool_run p A" "mmap_ok mm" "A v = Some m" "0 < n" "poolrealloc mm r p v n = Some (p', v')" "v' \<noteq> 0"
  shows "(\<forall>i < min m n. p_data p' (v' + i) = p_data p (v + i)) \<and>
    (\<forall>w k i. w \<noteq> v \<longrightarrow> A w = Some k \<longrightarrow> i < k \<longrightarrow> p_data p' (w + i) = p_data p (w + i))"
proof -
  obtain L U E where R: "run_inv p A L U E" using pool_run_inv [OF assms(1)] by blast
  then have I: "pool_inv p L U E" by (simp add: run_inv_def)
  obtain b where b: "v = B2D b" "b \<in> live (p_mem p) U" "m + BHDRSIZE \<le> b_size (p_mem p) b" by (rule run_block [OF R assms(3)])
  have n: "n < 1024 * 1024 * 1024" using assms(5,6) by (auto simp: poolrealloc_def split: if_splits)
  show ?thesis
  proof (cases "n + BHDRSIZE \<le> b_size (p_mem p) b")
    case True
    then have "p' = p" "v' = v" using realloc_fits [OF I b(2) True assms(4) n] assms(5) b(1) by auto
    then show ?thesis by simp
  next
    case False
    then have "b_size (p_mem p) b < n + BHDRSIZE" by simp
    then obtain U' where M: "moves p U b p' U' n v'"
      using poolrealloc_moves [OF I assms(2) b(2) _ n, of r] assms(5,6) b(1) by auto
    have "p_data p' (v' + i) = p_data p (v + i)" if "i < min m n" for i
    proof -
      have "i < b_size (p_mem p) b - BHDRSIZE" using that b(3) by linarith
      then show ?thesis using M b(1) unfolding moves_def by blast
    qed
    moreover have "p_data p' (w + i) = p_data p (w + i)" if w: "w \<noteq> v" "A w = Some k" "i < k" for w k i
    proof -
      obtain c where c: "w = B2D c" "c \<in> live (p_mem p) U" "k + BHDRSIZE \<le> b_size (p_mem p) c" by (rule run_block [OF R w(2)])
      have "c \<in> live (p_mem p) U - {b}" "c \<le> w + i \<and> w + i < c + b_size (p_mem p) c" using c w b(1) by (auto simp: B2D_def BHDRSIZE_def)
      then show ?thesis using M unfolding moves_def by blast
    qed
    ultimately show ?thesis by blast
  qed
qed

theorem poolrealloc_contents_witness:
  "\<exists>p p' v'. pool_run p [4256 \<mapsto> 100, 4512 \<mapsto> 200] \<and> poolrealloc host_next False p 4256 1000 = Some (p', v') \<and> v' \<noteq> 0 \<and>
    p_data p' (v' + 99) = p_data p 4355 \<and> p_data p' 4600 = p_data p 4600"
proof -
  obtain p p' v' where p: "pool_run p [4256 \<mapsto> 100, 4512 \<mapsto> 200]" "poolrealloc host_next False p 4256 1000 = Some (p', v')" "v' \<noteq> 0"
    using main_grow by blast
  from poolrealloc_contents [OF p(1) host_next_ok _ _ p(2,3), of 100]
  have c: "\<forall>i < min 100 1000. p_data p' (v' + i) = p_data p (4256 + i)"
    "\<And>w k i. w \<noteq> 4256 \<Longrightarrow> [4256 \<mapsto> 100, 4512 \<mapsto> 200] w = Some k \<Longrightarrow> i < k \<Longrightarrow> p_data p' (w + i) = p_data p (w + i)" by simp_all
  have "p_data p' (v' + 99) = p_data p 4355" using c(1) [rule_format, of 99] by simp
  moreover have "p_data p' 4600 = p_data p 4600" using c(2) [of 4512 200 88] by simp
  ultimately show ?thesis using p by blast
qed



text \<open>C21: \<open>pooldel\<close> takes a block out of the free blocks and no other, wherever it is: in a ring, at the head of one, alone in a
  node with none, one or two children. Sizes and marks stay.\<close>

theorem pooldel_deletes:
  assumes "frees h root S" "x \<in> S"
  shows "\<exists>h' root'. pooldel h root x = Some (h', root') \<and> frees h' root' (S - {x}) \<and> b_size h' = b_size h \<and> b_magic h' = b_magic h"
  using tf.del_law [OF assms] by (auto simp: relinked_def)

theorem pooldel_deletes_witness:
  "\<exists>h root h' root'. frees h root {128, 256} \<and> pooldel h root 128 = Some (h', root') \<and> frees h' root' {256}"
proof -
  have "frees no_headers 0 {}" unfolding frees_def by (rule exI [of _ Leaf]) (simp add: free_tree_def)
  then obtain h1 r1 where "frees h1 r1 {256}" using tf.add_law [of no_headers 0 "{}" 256] by auto
  then obtain h2 r2 where f: "frees h2 r2 {128, 256}" using tf.add_law [of h1 r1 "{256}" 128] by auto
  have "{128, 256} - {128 :: nat} = {256}" by auto
  then show ?thesis using pooldel_deletes [OF f, of 128] f by auto
qed

text \<open>C26: The search of \<open>dopoolalloc\<close> ends with a free block of the size wanted if there is one, else with the smallest
  larger one, else with none, and then every free block is too small.\<close>

theorem alloc_find_smallest:
  assumes "frees h root S"
  shows "\<exists>t q. alloc_find h n 0 root = Some (t, q) \<and>
    (if t \<noteq> 0 then b_fwd h t \<in> S \<and> b_size h (b_fwd h t) = n
     else if q \<noteq> 0 then q \<in> S \<and> n < b_size h q \<and> (\<forall>x\<in>S. n \<le> b_size h x \<longrightarrow> b_size h q \<le> b_size h x)
     else \<forall>x\<in>S. b_size h x < n)"
proof -
  obtain t q where "alloc_find h n 0 root = Some (t, q)" "best_fit h S n t q" by (rule alloc_find_best [OF assms])
  then show ?thesis unfolding best_fit_def by blast
qed

theorem alloc_find_smallest_witness:
  "\<exists>h root t q. frees h root {256} \<and> alloc_find h 5 0 root = Some (t, q)"
proof -
  have "frees no_headers 0 {}" unfolding frees_def by (rule exI [of _ Leaf]) (simp add: free_tree_def)
  then obtain h1 r1 where f: "frees h1 r1 {256}" using tf.add_law [of no_headers 0 "{}" 256] by auto
  show ?thesis using alloc_find_smallest [OF f, of 5] f by blast
qed

section \<open>What the code does not keep\<close>

text \<open>A block that \<open>poolcompact\<close> moves keeps the trailer it had, which leads to its old place.\<close>

lemma move_block_tail:
  "t_hdr (p_mem (move_block e b p)) (B2T (p_mem (move_block e b p)) e) = t_hdr (p_mem p) (B2T (p_mem p) b)"
  by (simp add: move_block_def B2T_def Let_def)

text \<open>An allocation for which the host has no memory still counts the arena it did not get.\<close>

lemma failed_mmap_counted:
  "\<exists>p'. poolalloc (\<lambda>_ _. None) False (table ! 0) 100 = Some (p', 0) \<and> p_maps p' = [] \<and> p_arenasize p' = 524544"
  by (simp add: pool_eval dopoolalloc.simps [of _ _ _ 100])

end
