(* ===== verification/Dis_Chan.thy ===== *)
theory Dis_Chan
  imports Dis_Memory
begin

text \<open>
  Channels and alternation of the Dis virtual machine (the channel part of \<^verbatim>\<open>src/libinterp/xec.c\<close>, and
  \<^verbatim>\<open>alt.c\<close>), with the run queue of \<^verbatim>\<open>src/emu/port/dis.c\<close> as far as they use it.
\<close>

section \<open>The state\<close>

text \<open>
  A location holds one element of a channel's type, whole: a variable, a cell of a channel's buffer array, or
  the null pointer. A queue \<open>Progq\<close> is the list of the programs of its nodes; its first node is always there, with the null
  program (\<open>None\<close>) when nothing waits, and the empty list is a null pointer to a node. Channels and
  programs are numbered; \<open>H\<close>, the nil channel, is \<open>None\<close>.
\<close>

type_synonym elem = "byte list"
type_synonym cid = nat
type_synonym pid = nat
type_synonym progq = "pid option list"

datatype loc = Null | Var nat | Cell cid nat

datatype pstate = Palt | Psend | Precv | Pdebug | Pready | Prelease | Pexiting | Pbroken

record chan =
  c_buf :: "int option"
  c_send :: progq
  c_recv :: progq
  c_front :: nat
  c_size :: nat
  c_initmem :: "(elem \<Rightarrow> elem) option"

text \<open>
  \<open>c_buf\<close> is the length of the buffer array, \<open>c_initmem\<close> what \<open>initmem\<close> leaves of an element when its type
  has pointers. The arms of an alternation: senders first, then receivers, each from one channel or
  any of an array of channels.
\<close>

datatype chanref = Chan "cid option" | Arr "cid option list"

record alt =
  a_send :: "(cid option \<times> loc) list"
  a_recv :: "(chanref \<times> loc) list"

record prog =
  g_state :: pstate
  g_ptr :: loc
  g_chan :: "cid option"
  g_alt :: alt
  g_Rd :: loc
  g_kill :: "string option"
  g_killstr :: bool
  g_addrun :: bool

text \<open>
  \<open>g_killstr\<close> says whether the buffer for an exception's text is there, \<open>g_addrun\<close> whether a process of the
  emulator waits in \<open>cblock\<close> for the program (the callback is \<open>cwakeme\<close>, the only one there is). The
  world: channels, programs, memory, the run queue, whose head runs, the processes woken by \<open>cwakeme\<close>, the registers the instructions
  use, the state of the pseudo-random choice, and which of the next calls of \<open>malloc\<close> succeed.
\<close>

record world =
  w_chan :: "cid \<Rightarrow> chan"
  w_prog :: "pid \<Rightarrow> prog"
  w_mem :: "loc \<Rightarrow> elem"
  w_run :: "pid list"
  w_woken :: "pid list"
  w_Rs :: loc
  w_Rd :: loc
  w_IC :: int
  w_t :: int
  w_xrand :: u64
  w_malloc :: "bool list"

abbreviation exAlt :: string where "exAlt \<equiv> ''alt send/recv on same chan''"

definition set_chan :: "cid \<Rightarrow> chan \<Rightarrow> world \<Rightarrow> world" where "set_chan c x w = w\<lparr>w_chan := (w_chan w)(c := x)\<rparr>"
definition set_prog :: "pid \<Rightarrow> prog \<Rightarrow> world \<Rightarrow> world" where "set_prog p x w = w\<lparr>w_prog := (w_prog w)(p := x)\<rparr>"
definition set_send :: "cid \<Rightarrow> progq \<Rightarrow> world \<Rightarrow> world" where "set_send c q w = set_chan c ((w_chan w c)\<lparr>c_send := q\<rparr>) w"
definition set_recv :: "cid \<Rightarrow> progq \<Rightarrow> world \<Rightarrow> world" where "set_recv c q w = set_chan c ((w_chan w c)\<lparr>c_recv := q\<rparr>) w"

text \<open>A new channel, with a buffer when its length is positive.\<close>

definition cnewc :: "(elem \<Rightarrow> elem) option \<Rightarrow> int \<Rightarrow> chan" where
  "cnewc f len = \<lparr>c_buf = (if len > 0 then Some len else None), c_send = [None], c_recv = [None], c_front = 0, c_size = 0, c_initmem = f\<rparr>"

section \<open>The run queue\<close>

definition cwakeme :: "pid \<Rightarrow> world \<Rightarrow> world" where
  "cwakeme p w = (set_prog p ((w_prog w p)\<lparr>g_addrun := False\<rparr>) w)\<lparr>w_woken := w_woken w @ [p]\<rparr>"

definition addrun :: "pid \<Rightarrow> world \<Rightarrow> world" where
  "addrun p w =
    (if g_addrun (w_prog w p) then cwakeme p w
     else (set_prog p ((w_prog w p)\<lparr>g_state := Pready\<rparr>) w)\<lparr>w_run := w_run w @ [p]\<rparr>)"

definition delrun :: "pstate \<Rightarrow> world \<Rightarrow> (pid \<times> world) cres" where
  "delrun s w = (case w_run w of
     [] \<Rightarrow> Inl Undef
   | p # ps \<Rightarrow> Inr (p, (set_prog p ((w_prog w p)\<lparr>g_state := s\<rparr>) w)\<lparr>w_run := ps\<rparr>))"

definition delrunq :: "pid \<Rightarrow> world \<Rightarrow> world" where
  "delrunq p w = w\<lparr>w_run := remove1 p (w_run w)\<rparr>"

definition delruntail :: "pstate \<Rightarrow> world \<Rightarrow> (pid \<times> world) cres" where
  "delruntail s w =
    (if w_run w = [] then Inl Undef
     else let p = last (w_run w); w = delrunq p w in Inr (p, set_prog p ((w_prog w p)\<lparr>g_state := s\<rparr>) w))"

definition currun :: "world \<Rightarrow> pid cres" where
  "currun w = (case w_run w of [] \<Rightarrow> Inl Undef | p # _ \<Rightarrow> Inr p)"

section \<open>The buffer\<close>

text \<open>\<open>c->mover\<close>: the element at \<open>R.s\<close> goes to \<open>R.d\<close>.\<close>

definition mover :: "world \<Rightarrow> world" where
  "mover w = w\<lparr>w_mem := (w_mem w)(w_Rd w := w_mem w (w_Rs w))\<rparr>"

definition cgetb :: "cid \<Rightarrow> loc \<Rightarrow> world \<Rightarrow> world \<times> bool" where
  "cgetb c v w =
    (case c_buf (w_chan w c) of
       None \<Rightarrow> (w, False)
     | Some len \<Rightarrow>
         let ch = w_chan w c in
         if c_size ch > 0 then
           let cell = Cell c (c_front ch);
               front = c_front ch + 1;
               front = (if int front = len then 0 else front);
               w = set_chan c (ch\<lparr>c_front := front, c_size := c_size ch - 1\<rparr>) w;
               w = mover (w\<lparr>w_Rs := cell, w_Rd := v\<rparr>)
           in (case c_initmem ch of
                 None \<Rightarrow> w
               | Some f \<Rightarrow> w\<lparr>w_mem := (w_mem w)(cell := f (w_mem w cell))\<rparr>, True)
         else (w, False))"

definition cputb :: "cid \<Rightarrow> loc \<Rightarrow> world \<Rightarrow> world \<times> bool" where
  "cputb c v w =
    (case c_buf (w_chan w c) of
       None \<Rightarrow> (w, False)
     | Some len \<Rightarrow>
         let ch = w_chan w c in
         if int (c_size ch) < len then
           let r = c_front ch + c_size ch;
               r = (if int r \<ge> len then r - nat len else r);
               w = set_chan c (ch\<lparr>c_size := c_size ch + 1\<rparr>) w
           in (mover (w\<lparr>w_Rs := v, w_Rd := Cell c r\<rparr>), True)
         else (w, False))"

section \<open>The queues\<close>

definition qprog :: "progq \<Rightarrow> pid option cres" where
  "qprog q = (case q of [] \<Rightarrow> Inl Undef | x # _ \<Rightarrow> Inr x)"

definition cqadd :: "progq \<Rightarrow> pid \<Rightarrow> bool list \<Rightarrow> (progq \<times> bool list) cres" where
  "cqadd q p ms = cbind (qprog q) (\<lambda>x.
     if x = None then Inr (Some p # tl q, ms)
     else case ms of
       [] \<Rightarrow> Inl (Raise exNomem)
     | m # ms \<Rightarrow> if m then Inr (q @ [Some p], ms) else Inl (Raise exNomem))"

definition cqdel :: "progq \<Rightarrow> progq cres" where
  "cqdel q = cbind (qprog q) (\<lambda>x. if tl q = [] then Inr [None] else Inr (tl q))"

definition cqdelp :: "progq \<Rightarrow> pid \<Rightarrow> progq cres" where
  "cqdelp q p = cbind (qprog q) (\<lambda>x.
     if tl q = [] then if x = Some p then Inr [None] else Inr q
     else Inr (filter (\<lambda>y. y \<noteq> Some p) q))"

definition add_send :: "cid \<Rightarrow> pid \<Rightarrow> world \<Rightarrow> world cres" where
  "add_send c p w = cbind (cqadd (c_send (w_chan w c)) p (w_malloc w)) (\<lambda>(q, ms). Inr ((set_send c q w)\<lparr>w_malloc := ms\<rparr>))"

definition add_recv :: "cid \<Rightarrow> pid \<Rightarrow> world \<Rightarrow> world cres" where
  "add_recv c p w = cbind (cqadd (c_recv (w_chan w c)) p (w_malloc w)) (\<lambda>(q, ms). Inr ((set_recv c q w)\<lparr>w_malloc := ms\<rparr>))"

section \<open>Leaving an alternation\<close>

definition WORD_elem :: "nat \<Rightarrow> elem" where
  "WORD_elem n = map (\<lambda>i. ucast (drop_bit (8 * i) (word_of_nat n :: u64))) [0..<8]"

definition next_word :: "loc \<Rightarrow> loc" where "next_word l = (case l of Var a \<Rightarrow> Var (a + 1) | _ \<Rightarrow> Null)"

text \<open>\<open>p\<close> is told that its arm \<open>n\<close> is the one, with its data at \<open>ptr\<close>.\<close>

definition chosen :: "pid \<Rightarrow> loc \<Rightarrow> nat \<Rightarrow> world \<Rightarrow> world" where
  "chosen p ptr n w =
    (set_prog p ((w_prog w p)\<lparr>g_ptr := ptr\<rparr>) w)\<lparr>w_mem := (w_mem w)(g_Rd (w_prog w p) := WORD_elem n)\<rparr>"

definition unqueue_send :: "cid \<Rightarrow> pid \<Rightarrow> world \<Rightarrow> world cres" where
  "unqueue_send c p w = cbind (qprog (c_send (w_chan w c))) (\<lambda>x.
     if x \<noteq> None then cbind (cqdelp (c_send (w_chan w c)) p) (\<lambda>q. Inr (set_send c q w)) else Inr w)"

definition unqueue_recv :: "cid \<Rightarrow> pid \<Rightarrow> world \<Rightarrow> world cres" where
  "unqueue_recv c p w = cbind (qprog (c_recv (w_chan w c))) (\<lambda>x.
     if x \<noteq> None then cbind (cqdelp (c_recv (w_chan w c)) p) (\<lambda>q. Inr (set_recv c q w)) else Inr w)"

fun altunmark :: "cid option list \<Rightarrow> loc \<Rightarrow> pid \<Rightarrow> int \<Rightarrow> cid option \<Rightarrow> nat \<Rightarrow> nat \<Rightarrow> world \<Rightarrow> (cid option \<times> world) cres" where
  "altunmark [] ptr p sr sel dn n w = Inr (sel, w)"
| "altunmark (None # cs) ptr p sr sel dn n w = altunmark cs ptr p sr sel dn (n + 1) w"
| "altunmark (Some c # cs) ptr p sr sel dn n w = cbind (unqueue_recv c p w) (\<lambda>w.
     if sr = 1 \<and> sel = Some c then
       let w = chosen p (next_word ptr) dn w in
       altunmark cs ptr p sr None dn (n + 1) (w\<lparr>w_mem := (w_mem w)(ptr := WORD_elem n)\<rparr>)
     else altunmark cs ptr p sr sel dn (n + 1) w)"

fun altdone_send :: "(cid option \<times> loc) list \<Rightarrow> pid \<Rightarrow> int \<Rightarrow> cid option \<Rightarrow> nat \<Rightarrow> world \<Rightarrow> (cid option \<times> nat \<times> world) cres" where
  "altdone_send [] p sr sel n w = Inr (sel, n, w)"
| "altdone_send ((None, ptr) # as) p sr sel n w = altdone_send as p sr sel (n + 1) w"
| "altdone_send ((Some c, ptr) # as) p sr sel n w = cbind (unqueue_send c p w) (\<lambda>w.
     if sr = 0 \<and> sel = Some c then altdone_send as p sr None (n + 1) (chosen p ptr n w)
     else altdone_send as p sr sel (n + 1) w)"

fun altdone_recv :: "(chanref \<times> loc) list \<Rightarrow> pid \<Rightarrow> int \<Rightarrow> cid option \<Rightarrow> nat \<Rightarrow> world \<Rightarrow> world cres" where
  "altdone_recv [] p sr sel n w = Inr w"
| "altdone_recv ((Chan None, ptr) # as) p sr sel n w = altdone_recv as p sr sel (n + 1) w"
| "altdone_recv ((Chan (Some c), ptr) # as) p sr sel n w = cbind (unqueue_recv c p w) (\<lambda>w.
     if sr = 1 \<and> sel = Some c then altdone_recv as p sr None (n + 1) (chosen p ptr n w)
     else altdone_recv as p sr sel (n + 1) w)"
| "altdone_recv ((Arr cs, ptr) # as) p sr sel n w =
     cbind (altunmark cs ptr p sr sel n 0 w) (\<lambda>(sel, w). altdone_recv as p sr sel (n + 1) w)"

definition altdone :: "alt \<Rightarrow> pid \<Rightarrow> cid option \<Rightarrow> int \<Rightarrow> world \<Rightarrow> world cres" where
  "altdone a p sel sr w =
    cbind (altdone_send (a_send a) p sr sel 0 w) (\<lambda>(sel, n, w). altdone_recv (a_recv a) p sr sel n w)"

section \<open>Sending and receiving\<close>

definition wait_on :: "pstate \<Rightarrow> cid \<Rightarrow> loc \<Rightarrow> world \<Rightarrow> (pid \<times> world) cres" where
  "wait_on s c v w = cbind (delrun s w) (\<lambda>(p, w).
     Inr (p, (set_prog p ((w_prog w p)\<lparr>g_ptr := v, g_chan := Some c\<rparr>) w)\<lparr>w_IC := 1, w_t := 1\<rparr>))"

definition isend :: "cid option \<Rightarrow> world \<Rightarrow> world cres" where
  "isend d w =
    (case d of
       None \<Rightarrow> Inl (Raise exNilref)
     | Some c \<Rightarrow> cbind (qprog (c_recv (w_chan w c))) (\<lambda>x.
         case x of
           None \<Rightarrow>
             let (w1, ok) = (if c_buf (w_chan w c) \<noteq> None then cputb c (w_Rs w) w else (w, False)) in
             if ok then Inr w1
             else cbind (wait_on Psend c (w_Rs w) w) (\<lambda>(p, w). add_send c p w)
         | Some p \<Rightarrow>
             cbind (cqdel (c_recv (w_chan w c))) (\<lambda>q.
             let w = set_recv c q w in
             cbind (if g_state (w_prog w p) = Palt then altdone (g_alt (w_prog w p)) p (Some c) 1 w else Inr w) (\<lambda>w.
             let v = g_ptr (w_prog w p);
                 w = set_prog p ((w_prog w p)\<lparr>g_ptr := Null\<rparr>) (w\<lparr>w_Rd := v\<rparr>)
             in Inr ((addrun p (mover w))\<lparr>w_t := 0\<rparr>)))))"

definition irecv :: "cid option \<Rightarrow> world \<Rightarrow> world cres" where
  "irecv s w =
    (case s of
       None \<Rightarrow> Inl (Raise exNilref)
     | Some c \<Rightarrow> cbind (qprog (c_send (w_chan w c))) (\<lambda>x.
         case x of
           None \<Rightarrow>
             let (w1, ok) = (if c_buf (w_chan w c) \<noteq> None then cgetb c (w_Rd w) w else (w, False)) in
             if ok then Inr w1
             else cbind (wait_on Precv c (w_Rd w) w) (\<lambda>(p, w). add_recv c p w)
         | Some p \<Rightarrow>
             cbind (cqdel (c_send (w_chan w c))) (\<lambda>q.
             let w = set_send c q w in
             cbind (if g_state (w_prog w p) = Palt then altdone (g_alt (w_prog w p)) p (Some c) 0 w else Inr w) (\<lambda>w.
             let v = g_ptr (w_prog w p);
                 w = (if c_buf (w_chan w c) \<noteq> None
                      then let w = fst (cgetb c (w_Rd w) w) in set_prog p ((w_prog w p)\<lparr>g_ptr := Null\<rparr>) (fst (cputb c v w))
                      else mover (set_prog p ((w_prog w p)\<lparr>g_ptr := Null\<rparr>) (w\<lparr>w_Rs := v\<rparr>)))
             in Inr ((addrun p w)\<lparr>w_t := 0\<rparr>)))))"

text \<open>
  \<open>csendalt\<close>, for the emulator's devices: it never waits, and gives an unbuffered channel a buffer of the length
  the caller names; \<open>heaparray\<close> does not mind a negative length. The registers are saved around the send.
\<close>

definition csendalt :: "cid option \<Rightarrow> loc \<Rightarrow> int \<Rightarrow> world \<Rightarrow> (world \<times> bool) cres" where
  "csendalt d ip len w =
    (case d of
       None \<Rightarrow> Inl (Raise exNilref)
     | Some c \<Rightarrow> cbind (qprog (c_recv (w_chan w c))) (\<lambda>x.
         let send = (\<lambda>w. cbind (isend (Some c) (w\<lparr>w_Rs := ip\<rparr>)) (\<lambda>w1.
               Inr (w1\<lparr>w_Rs := w_Rs w, w_Rd := w_Rd w, w_IC := w_IC w, w_t := w_t w\<rparr>, True)))
         in if x = None \<and> (case c_buf (w_chan w c) of None \<Rightarrow> True | Some n \<Rightarrow> int (c_size (w_chan w c)) = n) then
              if c_buf (w_chan w c) \<noteq> None then Inr (w, False)
              else send (set_chan c ((w_chan w c)\<lparr>c_buf := Some len\<rparr>) w)
            else send w))"

section \<open>Alternation\<close>

definition CANGET :: "chan \<Rightarrow> bool" where "CANGET c \<longleftrightarrow> c_size c > 0"
definition CANPUT :: "chan \<Rightarrow> bool" where "CANPUT c \<longleftrightarrow> (case c_buf c of None \<Rightarrow> False | Some len \<Rightarrow> int (c_size c) < len)"

definition can_recv :: "cid \<Rightarrow> world \<Rightarrow> bool cres" where
  "can_recv c w = cbind (qprog (c_send (w_chan w c))) (\<lambda>x. Inr (x \<noteq> None \<or> CANGET (w_chan w c)))"

definition can_send :: "cid \<Rightarrow> world \<Rightarrow> bool cres" where
  "can_send c w = cbind (qprog (c_recv (w_chan w c))) (\<lambda>x. Inr (x \<noteq> None \<or> CANPUT (w_chan w c)))"

fun altmark :: "cid option list \<Rightarrow> pid \<Rightarrow> nat \<Rightarrow> world \<Rightarrow> (nat \<times> world) cres" where
  "altmark [] p nrdy w = Inr (nrdy, w)"
| "altmark (None # cs) p nrdy w = altmark cs p nrdy w"
| "altmark (Some c # cs) p nrdy w =
     cbind (can_recv c w) (\<lambda>rdy. cbind (add_recv c p w) (altmark cs p (if rdy then nrdy + 1 else nrdy)))"

fun altrdy_recv :: "(chanref \<times> loc) list \<Rightarrow> pid \<Rightarrow> string option \<Rightarrow> nat \<Rightarrow> world \<Rightarrow> (string option \<times> nat \<times> world) cres" where
  "altrdy_recv [] p e nrdy w = Inr (e, nrdy, w)"
| "altrdy_recv ((Chan None, ptr) # as) p e nrdy w = altrdy_recv as p (Some exNilref) nrdy w"
| "altrdy_recv ((Chan (Some c), ptr) # as) p e nrdy w =
     cbind (can_recv c w) (\<lambda>rdy. cbind (add_recv c p w) (altrdy_recv as p e (if rdy then nrdy + 1 else nrdy)))"
| "altrdy_recv ((Arr cs, ptr) # as) p e nrdy w = cbind (altmark cs p nrdy w) (\<lambda>(nrdy, w). altrdy_recv as p e nrdy w)"

fun altrdy_send :: "(cid option \<times> loc) list \<Rightarrow> pid \<Rightarrow> string option \<Rightarrow> nat \<Rightarrow> world \<Rightarrow> (string option \<times> nat \<times> world) cres" where
  "altrdy_send [] p e nrdy w = Inr (e, nrdy, w)"
| "altrdy_send ((None, ptr) # as) p e nrdy w = altrdy_send as p (Some exNilref) nrdy w"
| "altrdy_send ((Some c, ptr) # as) p e nrdy w =
     cbind (can_send c w) (\<lambda>rdy. cbind (qprog (c_recv (w_chan w c))) (\<lambda>x.
       if rdy \<and> x = Some p then altrdy_send as p (Some exAlt) nrdy w
       else cbind (add_send c p w) (altrdy_send as p e (if rdy then nrdy + 1 else nrdy))))"

text \<open>An error is raised after the program has left all queues again: the state is that with it.\<close>

definition altrdy :: "alt \<Rightarrow> pid \<Rightarrow> world \<Rightarrow> (string option \<times> nat \<times> world) cres" where
  "altrdy a p w =
    cbind (altrdy_recv (a_recv a) p None 0 w) (\<lambda>(e, nrdy, w).
    cbind (altrdy_send (a_send a) p e nrdy w) (\<lambda>(e, nrdy, w).
    if e \<noteq> None then cbind (altdone a p None (- 1) w) (\<lambda>w. Inr (e, nrdy, w)) else Inr (e, nrdy, w)))"

text \<open>\<open>Inl which\<close> is the number of ready arms still to pass, \<open>Inr\<close> the state after the communication.\<close>

fun altcomm_send :: "(cid option \<times> loc) list \<Rightarrow> nat \<Rightarrow> nat \<Rightarrow> world \<Rightarrow> (nat \<times> nat + world) cres" where
  "altcomm_send [] n which w = Inr (Inl (n, which))"
| "altcomm_send ((None, ptr) # as) n which w = Inl Undef"
| "altcomm_send ((Some c, ptr) # as) n which w = cbind (can_send c w) (\<lambda>rdy.
     if rdy then
       if which = 0 then
         cbind (isend (Some c) (w\<lparr>w_mem := (w_mem w)(w_Rd w := WORD_elem n), w_Rs := ptr\<rparr>)) (\<lambda>w. Inr (Inr w))
       else altcomm_send as (n + 1) (which - 1) w
     else altcomm_send as (n + 1) which w)"

fun altcomm_arr :: "cid option list \<Rightarrow> loc \<Rightarrow> nat \<Rightarrow> nat \<Rightarrow> nat \<Rightarrow> world \<Rightarrow> (nat + world) cres" where
  "altcomm_arr [] ptr n an which w = Inr (Inl which)"
| "altcomm_arr (None # cs) ptr n an which w = altcomm_arr cs ptr n (an + 1) which w"
| "altcomm_arr (Some c # cs) ptr n an which w = cbind (can_recv c w) (\<lambda>rdy.
     if rdy then
       if which = 0 then
         cbind (irecv (Some c) (w\<lparr>w_mem := (w_mem w)(w_Rd w := WORD_elem n, ptr := WORD_elem an), w_Rd := next_word ptr\<rparr>)) (\<lambda>w. Inr (Inr w))
       else altcomm_arr cs ptr n (an + 1) (which - 1) w
     else altcomm_arr cs ptr n (an + 1) which w)"

fun altcomm_recv :: "(chanref \<times> loc) list \<Rightarrow> nat \<Rightarrow> nat \<Rightarrow> world \<Rightarrow> world cres" where
  "altcomm_recv [] n which w = Inr w"
| "altcomm_recv ((Arr cs, ptr) # as) n which w = cbind (altcomm_arr cs ptr n 0 which w) (\<lambda>r.
     case r of Inl which \<Rightarrow> altcomm_recv as (n + 1) which w | Inr w \<Rightarrow> Inr w)"
| "altcomm_recv ((Chan None, ptr) # as) n which w = Inl Undef"
| "altcomm_recv ((Chan (Some c), ptr) # as) n which w = cbind (can_recv c w) (\<lambda>rdy.
     if rdy then
       if which = 0 then irecv (Some c) (w\<lparr>w_mem := (w_mem w)(w_Rd w := WORD_elem n), w_Rd := ptr\<rparr>)
       else altcomm_recv as (n + 1) (which - 1) w
     else altcomm_recv as (n + 1) which w)"

definition altcomm :: "alt \<Rightarrow> nat \<Rightarrow> world \<Rightarrow> world cres" where
  "altcomm a which w = cbind (altcomm_send (a_send a) 0 which w) (\<lambda>r.
     case r of Inl (n, which) \<Rightarrow> altcomm_recv (a_recv a) n which w | Inr w \<Rightarrow> Inr w)"

definition altgone :: "pid \<Rightarrow> world \<Rightarrow> world cres" where
  "altgone p w =
    (if g_state (w_prog w p) = Palt then
       cbind (altdone (g_alt (w_prog w p)) p None (- 1) w) (\<lambda>w.
       Inr (addrun p (set_prog p ((w_prog w p)\<lparr>g_kill := Some ''alt channel hungup''\<rparr>) w)))
     else Inr w)"

section \<open>Exceptions for waiting programs\<close>

text \<open>\<open>kstrcpy\<close>, on the bytes before the final zero.\<close>

definition ERRMAX :: nat where "ERRMAX = 128"

definition cont_byte :: "char \<Rightarrow> bool" where "cont_byte c \<longleftrightarrow> (of_char c :: byte) AND 0xC0 = 0x80"

fun kback :: "string \<Rightarrow> nat \<Rightarrow> nat" where
  "kback s 0 = 0"
| "kback s (Suc n) = (if cont_byte (s ! n) then kback s n else n)"

definition kstrcpy :: "string \<Rightarrow> nat \<Rightarrow> string" where
  "kstrcpy t ns =
    (if length t + 1 \<le> ns then t
     else if ns < 4 then take ns t
     else let s = take (ns - 4) t in take (kback s (ns - 4)) s @ ''...'')"

definition Enomem :: string where "Enomem = ''out of memory: kernel''"

definition exprog_kill :: "pid \<Rightarrow> string \<Rightarrow> world \<Rightarrow> world cres" where
  "exprog_kill p exc w =
    (if g_kill (w_prog w p) \<noteq> None then Inr w
     else if g_killstr (w_prog w p) then Inr (set_prog p ((w_prog w p)\<lparr>g_kill := Some (kstrcpy exc ERRMAX)\<rparr>) w)
     else case w_malloc w of
       [] \<Rightarrow> Inr (set_prog p ((w_prog w p)\<lparr>g_kill := Some Enomem\<rparr>) w)
     | m # ms \<Rightarrow>
         let w = w\<lparr>w_malloc := ms\<rparr> in
         if m then Inr (set_prog p ((w_prog w p)\<lparr>g_killstr := True, g_kill := Some (kstrcpy exc ERRMAX)\<rparr>) w)
         else Inr (set_prog p ((w_prog w p)\<lparr>g_kill := Some Enomem\<rparr>) w))"

text \<open>
  An exception for a program: if it waits it leaves its queues and runs again. \<open>swiprog\<close> interrupts a process of
  the host and changes nothing here; the result is whether the program takes the exception.
\<close>

definition exprog_leave :: "pid \<Rightarrow> world \<Rightarrow> world cres" where
  "exprog_leave p w =
    (case g_state (w_prog w p) of
       Palt \<Rightarrow> altdone (g_alt (w_prog w p)) p None (- 1) w
     | Psend \<Rightarrow> (case g_chan (w_prog w p) of
         None \<Rightarrow> Inl Undef
       | Some c \<Rightarrow> cbind (cqdelp (c_send (w_chan w c)) p) (\<lambda>q. Inr (set_send c q w)))
     | Precv \<Rightarrow> (case g_chan (w_prog w p) of
         None \<Rightarrow> Inl Undef
       | Some c \<Rightarrow> cbind (cqdelp (c_recv (w_chan w c)) p) (\<lambda>q. Inr (set_recv c q w)))
     | _ \<Rightarrow> Inr w)"

definition exprog :: "pid \<Rightarrow> string \<Rightarrow> world \<Rightarrow> (world \<times> bool) cres" where
  "exprog p exc w =
    (if g_state (w_prog w p) \<in> {Pexiting, Pbroken, Pdebug} then Inr (w, False)
     else cbind (exprog_leave p w) (\<lambda>w1.
       let w2 = (if g_state (w_prog w1 p) \<noteq> Pready \<and> g_state (w_prog w1 p) \<noteq> Prelease then addrun p w1 else w1)
       in cbind (exprog_kill p exc w2) (\<lambda>w3. Inr (w3, True))))"

section \<open>The instruction\<close>

text \<open>The alternation at \<open>R.s\<close>; \<open>Inl\<close> carries the exception with the state it is raised in.\<close>

definition xecalt :: "alt \<Rightarrow> bool \<Rightarrow> world \<Rightarrow> (string \<times> world + world) cres" where
  "xecalt a block w =
    cbind (currun w) (\<lambda>p.
    cbind (altrdy a p w) (\<lambda>(e, nrdy, w).
    case e of
      Some m \<Rightarrow> Inr (Inl (m, w))
    | None \<Rightarrow>
        if nrdy = 0 then
          if block then cbind (delrun Palt w) (\<lambda>(p, w).
            Inr (Inr ((set_prog p ((w_prog w p)\<lparr>g_alt := a, g_Rd := w_Rd w\<rparr>) w)\<lparr>w_IC := 1, w_t := 1\<rparr>)))
          else cbind (altdone a p None (- 1) (w\<lparr>w_mem := (w_mem w)(w_Rd w := WORD_elem (length (a_send a) + length (a_recv a)))\<rparr>))
            (\<lambda>w. Inr (Inr w))
        else
          let x = w_xrand w * 1103515245 + 12345;
              w = w\<lparr>w_xrand := x\<rparr>
          in cbind (altcomm a (unat (drop_bit 8 x) mod nrdy) w) (\<lambda>w. cbind (altdone a p None (- 1) w) (\<lambda>w. Inr (Inr w)))))"

end
