(* ===== verification/Dis_Chan_Inv.thy ===== *)
theory Dis_Chan_Inv
  imports Dis_Chan
begin

text \<open>
  The invariant of channels: well-formed queues, a buffer that is empty when a program waits to receive and full
  when one waits to send, and waiting programs that are not in the run queue and are queued just where
  their states say.
\<close>

section \<open>Queues\<close>

definition waits :: "progq \<Rightarrow> pid set" where "waits q = {p. Some p \<in> set q}"

definition q_ok :: "progq \<Rightarrow> bool" where
  "q_ok q \<longleftrightarrow> q = [None] \<or> (q \<noteq> [] \<and> None \<notin> set q \<and> distinct q)"

lemma waits_simps [simp]: "waits [] = {}" "waits [None] = {}" "waits (Some p # q) = insert p (waits q)" "waits (q @ [Some p]) = insert p (waits q)"
  by (auto simp: waits_def)

text \<open>The waiting programs in their order.\<close>

definition wlist :: "progq \<Rightarrow> pid list" where "wlist q = map the (filter (\<lambda>x. x \<noteq> None) q)"

lemma wlist_simps [simp]: "wlist [] = []" "wlist [None] = []" "wlist (Some p # q) = p # wlist q" "wlist (q @ [Some p]) = wlist q @ [p]"
  by (auto simp: wlist_def)

lemma set_wlist: "set (wlist q) = waits q"
  by (force simp: wlist_def waits_def)

lemma wlist_filter: "wlist (filter (\<lambda>y. y \<noteq> Some p) q) = filter (\<lambda>x. x \<noteq> p) (wlist q)"
proof (induction q)
  case (Cons y q)
  then show ?case by (cases y) (auto simp: wlist_def)
qed simp

lemma qprog_ok:
  assumes "q_ok q"
  shows "\<exists>x. qprog q = Inr x \<and> (x = None \<longleftrightarrow> waits q = {}) \<and> (\<forall>p. x = Some p \<longrightarrow> p \<in> waits q)"
  using assms by (cases q; cases "hd q") (auto simp: q_ok_def qprog_def waits_def)

lemma cqadd_ok:
  assumes "q_ok q" "p \<notin> waits q" "cqadd q p ms = Inr (q', ms')"
  shows "q_ok q' \<and> waits q' = insert p (waits q) \<and> wlist q' = wlist q @ [p]"
  using assms by (cases q) (auto simp: q_ok_def cqadd_def qprog_def waits_def split: if_splits list.splits)

lemma cqadd_not_undef: "q_ok q \<Longrightarrow> cqadd q p ms \<noteq> Inl Undef"
  by (cases q) (auto simp: q_ok_def cqadd_def qprog_def split: list.splits)

lemma cqdel_ok:
  assumes "q_ok q" "qprog q = Inr (Some p)"
  shows "\<exists>q'. cqdel q = Inr q' \<and> q_ok q' \<and> waits q' = waits q - {p} \<and> wlist q = p # wlist q' \<and> wlist q' = filter (\<lambda>x. x \<noteq> p) (wlist q)"
proof -
  obtain xs where q: "q = Some p # xs" using assms(2) by (cases q) (auto simp: qprog_def)
  have d: "None \<notin> set xs" "distinct xs" "Some p \<notin> set xs" using assms(1) q by (auto simp: q_ok_def)
  define q' where "q' = (if xs = [] then [None] else xs)"
  have "p \<notin> set (wlist xs)" using d(3) by (simp add: set_wlist waits_def)
  then have "filter (\<lambda>x. x \<noteq> p) (wlist xs) = wlist xs" by (auto intro: filter_True)
  then have "wlist q = p # wlist q'" "wlist q' = filter (\<lambda>x. x \<noteq> p) (wlist q)" using q by (auto simp: q'_def)
  moreover have "cqdel q = Inr q'" "q_ok q'" "waits q' = waits q - {p}" using q d by (auto simp: q'_def cqdel_def qprog_def q_ok_def waits_def)
  ultimately show ?thesis by blast
qed

lemma cqdelp_ok:
  assumes "q_ok q"
  shows "\<exists>q'. cqdelp q p = Inr q' \<and> q_ok q' \<and> waits q' = waits q - {p} \<and> wlist q' = filter (\<lambda>x. x \<noteq> p) (wlist q)"
proof -
  obtain x xs where q: "q = x # xs" using assms by (cases q) (auto simp: q_ok_def)
  show ?thesis
  proof (cases "xs = []")
    case True
    then show ?thesis using q assms by (cases x) (auto simp: cqdelp_def qprog_def q_ok_def waits_def)
  next
    case False
    then have d: "None \<notin> set q" "distinct q" using q assms by (auto simp: q_ok_def)
    obtain y where y: "y \<in> set q" "y \<noteq> Some p" using d q False by (cases xs) auto
    then have "filter (\<lambda>y. y \<noteq> Some p) q \<noteq> []" by (metis (mono_tags, lifting) filter_empty_conv)
    then have "q_ok (filter (\<lambda>y. y \<noteq> Some p) q)" using d by (auto simp: q_ok_def)
    moreover have "cqdelp q p = Inr (filter (\<lambda>y. y \<noteq> Some p) q)" using q False by (simp add: cqdelp_def qprog_def)
    ultimately show ?thesis by (auto simp: waits_def wlist_filter)
  qed
qed

section \<open>Leaving the queues\<close>

text \<open>
  \<open>p\<close> has left the send queues of \<open>S\<close> and the receive queues of \<open>R\<close>; its data pointer may have been set, nothing
  else of a channel or a program has changed.
\<close>

definition queues_ok :: "world \<Rightarrow> bool" where
  "queues_ok w \<longleftrightarrow> (\<forall>c. q_ok (c_send (w_chan w c)) \<and> q_ok (c_recv (w_chan w c)))"

definition same_buf :: "chan \<Rightarrow> chan \<Rightarrow> bool" where
  "same_buf ch ch' \<longleftrightarrow> c_buf ch' = c_buf ch \<and> c_front ch' = c_front ch \<and> c_size ch' = c_size ch \<and> c_initmem ch' = c_initmem ch"

definition same_prog :: "prog \<Rightarrow> prog \<Rightarrow> bool" where
  "same_prog g g' \<longleftrightarrow> g_state g' = g_state g \<and> g_chan g' = g_chan g \<and> g_alt g' = g_alt g \<and> g_Rd g' = g_Rd g"

definition left_queues :: "pid \<Rightarrow> cid set \<Rightarrow> cid set \<Rightarrow> world \<Rightarrow> world \<Rightarrow> bool" where
  "left_queues p S R w w' \<longleftrightarrow> queues_ok w' \<and> w_run w' = w_run w \<and> (\<forall>x. same_prog (w_prog w x) (w_prog w' x)) \<and>
    (\<forall>c. same_buf (w_chan w c) (w_chan w' c) \<and>
      waits (c_send (w_chan w' c)) = waits (c_send (w_chan w c)) - (if c \<in> S then {p} else {}) \<and>
      waits (c_recv (w_chan w' c)) = waits (c_recv (w_chan w c)) - (if c \<in> R then {p} else {}) \<and>
      wlist (c_send (w_chan w' c)) = (if c \<in> S then filter (\<lambda>x. x \<noteq> p) (wlist (c_send (w_chan w c))) else wlist (c_send (w_chan w c))))"

lemma left_queues_refl: "queues_ok w \<Longrightarrow> left_queues p {} {} w w"
  by (simp add: left_queues_def same_buf_def same_prog_def)

lemma left_queues_trans:
  assumes "left_queues p S R w w1" "left_queues p S' R' w1 w2"
  shows "left_queues p (S \<union> S') (R \<union> R') w w2"
proof -
  have "same_buf (w_chan w c) (w_chan w2 c)" for c using assms by (simp add: left_queues_def same_buf_def)
  moreover have "same_prog (w_prog w x) (w_prog w2 x)" for x using assms by (simp add: left_queues_def same_prog_def)
  moreover have "waits (c_send (w_chan w2 c)) = waits (c_send (w_chan w c)) - (if c \<in> S \<union> S' then {p} else {})" for c
    using assms by (auto simp: left_queues_def)
  moreover have "waits (c_recv (w_chan w2 c)) = waits (c_recv (w_chan w c)) - (if c \<in> R \<union> R' then {p} else {})" for c
    using assms by (auto simp: left_queues_def)
  moreover have "wlist (c_send (w_chan w2 c)) = (if c \<in> S \<union> S' then filter (\<lambda>x. x \<noteq> p) (wlist (c_send (w_chan w c))) else wlist (c_send (w_chan w c)))" for c
    using assms by (simp add: left_queues_def)
  ultimately show ?thesis using assms by (simp add: left_queues_def)
qed

lemma left_queues_all:
  assumes L: "left_queues p S R w w'" and M: "\<forall>c. (p \<in> waits (c_send (w_chan w c)) \<longrightarrow> c \<in> S) \<and> (p \<in> waits (c_recv (w_chan w c)) \<longrightarrow> c \<in> R)"
  shows "left_queues p UNIV UNIV w w'"
proof -
  have "wlist (c_send (w_chan w' c)) = filter (\<lambda>x. x \<noteq> p) (wlist (c_send (w_chan w c)))" for c
  proof (cases "c \<in> S")
    case False
    then have "p \<notin> set (wlist (c_send (w_chan w c)))" using M by (auto simp: set_wlist)
    then have "filter (\<lambda>x. x \<noteq> p) (wlist (c_send (w_chan w c))) = wlist (c_send (w_chan w c))" by (auto intro!: filter_True)
    then show ?thesis using L False unfolding left_queues_def by simp
  qed (use L in \<open>simp add: left_queues_def\<close>)
  then show ?thesis using L M unfolding left_queues_def by auto
qed

lemma left_queues_chosen: "left_queues p S R w w' \<Longrightarrow> left_queues p S R w (chosen p ptr n w')"
  by (auto simp: left_queues_def chosen_def set_prog_def same_prog_def queues_ok_def)

lemma left_queues_mem: "left_queues p S R w w' \<Longrightarrow> left_queues p S R w (w'\<lparr>w_mem := m\<rparr>)"
  by (auto simp: left_queues_def queues_ok_def)

lemma unqueue_send_ok:
  assumes "queues_ok w"
  shows "\<exists>w'. unqueue_send c p w = Inr w' \<and> left_queues p {c} {} w w'"
proof -
  have q: "q_ok (c_send (w_chan w c))" using assms by (simp add: queues_ok_def)
  obtain x where x: "qprog (c_send (w_chan w c)) = Inr x" "x = None \<longleftrightarrow> waits (c_send (w_chan w c)) = {}" using qprog_ok [OF q] by blast
  obtain q' where q': "cqdelp (c_send (w_chan w c)) p = Inr q'" "q_ok q'" "waits q' = waits (c_send (w_chan w c)) - {p}"
    "wlist q' = filter (\<lambda>x. x \<noteq> p) (wlist (c_send (w_chan w c)))" using cqdelp_ok [OF q] by blast
  show ?thesis
  proof (cases "x = None")
    case True
    then have "wlist (c_send (w_chan w c)) = []" using x(2) set_wlist [of "c_send (w_chan w c)"] by simp
    then show ?thesis using x assms True by (auto simp: unqueue_send_def left_queues_def same_buf_def same_prog_def)
  next
    case False
    then show ?thesis using x q' assms
      by (auto simp: unqueue_send_def left_queues_def same_buf_def same_prog_def set_send_def set_chan_def queues_ok_def)
  qed
qed

lemma unqueue_recv_ok:
  assumes "queues_ok w"
  shows "\<exists>w'. unqueue_recv c p w = Inr w' \<and> left_queues p {} {c} w w'"
proof -
  have q: "q_ok (c_recv (w_chan w c))" using assms by (simp add: queues_ok_def)
  obtain x where x: "qprog (c_recv (w_chan w c)) = Inr x" "x = None \<longleftrightarrow> waits (c_recv (w_chan w c)) = {}" using qprog_ok [OF q] by blast
  obtain q' where q': "cqdelp (c_recv (w_chan w c)) p = Inr q'" "q_ok q'" "waits q' = waits (c_recv (w_chan w c)) - {p}" using cqdelp_ok [OF q] by blast
  show ?thesis
  proof (cases "x = None")
    case True
    then show ?thesis using x assms by (auto simp: unqueue_recv_def left_queues_def same_buf_def same_prog_def)
  next
    case False
    then show ?thesis using x q' assms
      by (auto simp: unqueue_recv_def left_queues_def same_buf_def same_prog_def set_recv_def set_chan_def queues_ok_def)
  qed
qed

lemma left_queues_ok: "left_queues p S R w w' \<Longrightarrow> queues_ok w'"
  by (simp add: left_queues_def)

text \<open>The channels of an alternation.\<close>

definition arm_chans :: "cid option list \<Rightarrow> cid list" where "arm_chans cs = map the (filter (\<lambda>c. c \<noteq> None) cs)"

definition sends :: "alt \<Rightarrow> cid list" where "sends a = arm_chans (map fst (a_send a))"

definition ref_chans :: "chanref \<Rightarrow> cid list" where
  "ref_chans r = (case r of Chan c \<Rightarrow> arm_chans [c] | Arr cs \<Rightarrow> arm_chans cs)"

definition recvs :: "alt \<Rightarrow> cid list" where "recvs a = concat (map (\<lambda>a. ref_chans (fst a)) (a_recv a))"

lemma arm_chans_simps [simp]: "arm_chans [] = []" "arm_chans (None # cs) = arm_chans cs" "arm_chans (Some c # cs) = c # arm_chans cs"
  by (simp_all add: arm_chans_def)

lemma altunmark_ok:
  assumes "queues_ok w"
  shows "\<exists>sel' w'. altunmark cs ptr p sr sel dn n w = Inr (sel', w') \<and> left_queues p {} (set (arm_chans cs)) w w'"
  using assms
proof (induction cs arbitrary: sel n w)
  case Nil
  then show ?case by (auto intro: left_queues_refl)
next
  case (Cons x cs)
  show ?case
  proof (cases x)
    case None
    then show ?thesis using Cons by simp
  next
    case (Some c)
    obtain w1 where u: "unqueue_recv c p w = Inr w1" "left_queues p {} {c} w w1" using unqueue_recv_ok [OF Cons.prems] by blast
    define w2 where "w2 = (if sr = 1 \<and> sel = Some c then (chosen p (next_word ptr) dn w1)\<lparr>w_mem := (w_mem (chosen p (next_word ptr) dn w1))(ptr := WORD_elem n)\<rparr> else w1)"
    have l2: "left_queues p {} {c} w w2" using u(2) by (auto simp: w2_def intro: left_queues_mem left_queues_chosen)
    define sel2 where "sel2 = (if sr = 1 \<and> sel = Some c then None else sel)"
    have e: "altunmark (x # cs) ptr p sr sel dn n w = altunmark cs ptr p sr sel2 dn (n + 1) w2"
      using u(1) Some by (simp add: w2_def sel2_def Let_def)
    obtain sel' w' where r: "altunmark cs ptr p sr sel2 dn (n + 1) w2 = Inr (sel', w')" "left_queues p {} (set (arm_chans cs)) w2 w'"
      using Cons.IH [OF left_queues_ok [OF l2]] by blast
    show ?thesis using e r left_queues_trans [OF l2 r(2)] Some by auto
  qed
qed

lemma altdone_send_ok:
  assumes "queues_ok w"
  shows "\<exists>sel' n' w'. altdone_send as p sr sel n w = Inr (sel', n', w') \<and> left_queues p (set (arm_chans (map fst as))) {} w w'"
  using assms
proof (induction as arbitrary: sel n w)
  case Nil
  then show ?case by (auto intro: left_queues_refl)
next
  case (Cons x as)
  obtain c0 ptr where x: "x = (c0, ptr)" by fastforce
  show ?case
  proof (cases c0)
    case None
    then show ?thesis using Cons x by simp
  next
    case (Some c)
    obtain w1 where u: "unqueue_send c p w = Inr w1" "left_queues p {c} {} w w1" using unqueue_send_ok [OF Cons.prems] by blast
    define w2 where "w2 = (if sr = 0 \<and> sel = Some c then chosen p ptr n w1 else w1)"
    have l2: "left_queues p {c} {} w w2" using u(2) by (auto simp: w2_def intro: left_queues_chosen)
    define sel2 where "sel2 = (if sr = 0 \<and> sel = Some c then None else sel)"
    have e: "altdone_send (x # as) p sr sel n w = altdone_send as p sr sel2 (n + 1) w2"
      using u(1) Some x by (simp add: w2_def sel2_def)
    obtain sel' n' w' where r: "altdone_send as p sr sel2 (n + 1) w2 = Inr (sel', n', w')" "left_queues p (set (arm_chans (map fst as))) {} w2 w'"
      using Cons.IH [OF left_queues_ok [OF l2]] by blast
    show ?thesis using e r left_queues_trans [OF l2 r(2)] Some x by auto
  qed
qed

lemma altdone_recv_ok:
  assumes "queues_ok w"
  shows "\<exists>w'. altdone_recv as p sr sel n w = Inr w' \<and> left_queues p {} (set (concat (map (\<lambda>a. ref_chans (fst a)) as))) w w'"
  using assms
proof (induction as arbitrary: sel n w)
  case Nil
  then show ?case by (auto intro: left_queues_refl)
next
  case (Cons x as)
  obtain r ptr where x: "x = (r, ptr)" by fastforce
  consider "r = Chan None" | c where "r = Chan (Some c)" | cs where "r = Arr cs" by (metis chanref.exhaust option.exhaust)
  then show ?case
  proof cases
    case 1
    then show ?thesis using Cons x by (simp add: ref_chans_def)
  next
    case (2 c)
    obtain w1 where u: "unqueue_recv c p w = Inr w1" "left_queues p {} {c} w w1" using unqueue_recv_ok [OF Cons.prems] by blast
    define w2 where "w2 = (if sr = 1 \<and> sel = Some c then chosen p ptr n w1 else w1)"
    have l2: "left_queues p {} {c} w w2" using u(2) by (auto simp: w2_def intro: left_queues_chosen)
    define sel2 where "sel2 = (if sr = 1 \<and> sel = Some c then None else sel)"
    have e: "altdone_recv (x # as) p sr sel n w = altdone_recv as p sr sel2 (n + 1) w2"
      using u(1) 2 x by (simp add: w2_def sel2_def)
    obtain w' where r: "altdone_recv as p sr sel2 (n + 1) w2 = Inr w'" "left_queues p {} (set (concat (map (\<lambda>a. ref_chans (fst a)) as))) w2 w'"
      using Cons.IH [OF left_queues_ok [OF l2]] by blast
    show ?thesis using e r left_queues_trans [OF l2 r(2)] 2 x by (auto simp: ref_chans_def)
  next
    case (3 cs)
    obtain sel2 w2 where u: "altunmark cs ptr p sr sel n 0 w = Inr (sel2, w2)" "left_queues p {} (set (arm_chans cs)) w w2"
      using altunmark_ok [OF Cons.prems] by blast
    obtain w' where r: "altdone_recv as p sr sel2 (n + 1) w2 = Inr w'" "left_queues p {} (set (concat (map (\<lambda>a. ref_chans (fst a)) as))) w2 w'"
      using Cons.IH [OF left_queues_ok [OF u(2)]] by blast
    show ?thesis using u(1) r left_queues_trans [OF u(2) r(2)] 3 x by (auto simp: ref_chans_def)
  qed
qed

lemma altdone_ok:
  assumes "queues_ok w"
  shows "\<exists>w'. altdone a p sel sr w = Inr w' \<and> left_queues p (set (sends a)) (set (recvs a)) w w'"
proof -
  obtain sel1 n1 w1 where s: "altdone_send (a_send a) p sr sel 0 w = Inr (sel1, n1, w1)" "left_queues p (set (sends a)) {} w w1"
    using altdone_send_ok [OF assms] unfolding sends_def by blast
  obtain w2 where r: "altdone_recv (a_recv a) p sr sel1 n1 w1 = Inr w2" "left_queues p {} (set (recvs a)) w1 w2"
    using altdone_recv_ok [OF left_queues_ok [OF s(2)]] unfolding recvs_def by blast
  show ?thesis using s(1) r(1) left_queues_trans [OF s(2) r(2)] by (simp add: altdone_def)
qed

section \<open>The invariant\<close>

text \<open>
  While a program goes through an alternation it is in queues although it runs: \<open>Some (p, S, R)\<close> says that \<open>p\<close>
  may be in the send queues of \<open>S\<close> and the receive queues of \<open>R\<close>. It does not count as waiting then.
\<close>

type_synonym alting = "(pid \<times> cid set \<times> cid set) option"

definition ghost :: "alting \<Rightarrow> pid set" where "ghost m = (case m of None \<Rightarrow> {} | Some (p, S, R) \<Rightarrow> {p})"

definition full :: "chan \<Rightarrow> bool" where
  "full ch \<longleftrightarrow> (case c_buf ch of None \<Rightarrow> True | Some len \<Rightarrow> int (c_size ch) = len)"

definition buf_ok :: "chan \<Rightarrow> bool" where
  "buf_ok ch \<longleftrightarrow> (case c_buf ch of None \<Rightarrow> c_size ch = 0 \<and> c_front ch = 0 | Some len \<Rightarrow> int (c_front ch) < len \<and> int (c_size ch) \<le> len)"

definition chan_ok :: "pid set \<Rightarrow> chan \<Rightarrow> bool" where
  "chan_ok P ch \<longleftrightarrow> q_ok (c_send ch) \<and> q_ok (c_recv ch) \<and> buf_ok ch \<and>
    (waits (c_recv ch) - P \<noteq> {} \<longrightarrow> c_size ch = 0 \<and> waits (c_send ch) - P = {}) \<and>
    (waits (c_send ch) - P \<noteq> {} \<longrightarrow> full ch)"

definition linked :: "pid set \<Rightarrow> world \<Rightarrow> bool" where
  "linked P w \<longleftrightarrow> (\<forall>p c. p \<notin> P \<longrightarrow>
    (p \<in> waits (c_send (w_chan w c)) \<longrightarrow> p \<notin> set (w_run w) \<and>
      (g_state (w_prog w p) = Psend \<and> g_chan (w_prog w p) = Some c \<or> g_state (w_prog w p) = Palt \<and> c \<in> set (sends (g_alt (w_prog w p))))) \<and>
    (p \<in> waits (c_recv (w_chan w c)) \<longrightarrow> p \<notin> set (w_run w) \<and>
      (g_state (w_prog w p) = Precv \<and> g_chan (w_prog w p) = Some c \<or> g_state (w_prog w p) = Palt \<and> c \<in> set (recvs (g_alt (w_prog w p))))))"

definition marked :: "alting \<Rightarrow> world \<Rightarrow> bool" where
  "marked m w \<longleftrightarrow> (\<forall>p S R. m = Some (p, S, R) \<longrightarrow> p \<in> set (w_run w) \<and>
    (\<forall>c. (p \<in> waits (c_send (w_chan w c)) \<longrightarrow> c \<in> S) \<and> (p \<in> waits (c_recv (w_chan w c)) \<longrightarrow> c \<in> R)))"

definition waiting :: "pstate \<Rightarrow> bool" where "waiting s \<longleftrightarrow> s \<in> {Palt, Psend, Precv}"

definition run_ok :: "world \<Rightarrow> bool" where
  "run_ok w \<longleftrightarrow> distinct (w_run w) \<and> (\<forall>p\<in>set (w_run w). \<not> waiting (g_state (w_prog w p)))"

definition world_inv :: "alting \<Rightarrow> world \<Rightarrow> bool" where
  "world_inv m w \<longleftrightarrow> (\<forall>c. chan_ok (ghost m) (w_chan w c)) \<and> linked (ghost m) w \<and> marked m w \<and> run_ok w"

lemma world_inv_queues: "world_inv m w \<Longrightarrow> queues_ok w"
  by (simp add: world_inv_def chan_ok_def queues_ok_def)

lemma world_inv_cong:
  assumes "world_inv m w" "w_chan w' = w_chan w" "w_run w' = w_run w" "\<And>x. same_prog (w_prog w x) (w_prog w' x)"
  shows "world_inv m w'"
  using assms unfolding world_inv_def linked_def marked_def same_prog_def run_ok_def by simp

text \<open>A waiting program leaves all its queues.\<close>

lemma leave_all:
  assumes I: "world_inv m w" and L: "left_queues p UNIV UNIV w w'" and p: "p \<notin> ghost m"
  shows "world_inv m w'"
proof -
  have ws: "waits (c_send (w_chan w' c)) = waits (c_send (w_chan w c)) - {p}" "waits (c_recv (w_chan w' c)) = waits (c_recv (w_chan w c)) - {p}"
    "same_buf (w_chan w c) (w_chan w' c)" for c using L by (auto simp: left_queues_def)
  have rn: "w_run w' = w_run w" using L by (simp add: left_queues_def)
  have st: "g_state (w_prog w' x) = g_state (w_prog w x)" "g_chan (w_prog w' x) = g_chan (w_prog w x)" "g_alt (w_prog w' x) = g_alt (w_prog w x)" for x
    using L by (auto simp: left_queues_def same_prog_def)
  have "chan_ok (ghost m) (w_chan w' c)" for c
  proof -
    have "chan_ok (ghost m) (w_chan w c)" using I by (simp add: world_inv_def)
    moreover have "q_ok (c_send (w_chan w' c))" "q_ok (c_recv (w_chan w' c))" using L by (auto simp: left_queues_def queues_ok_def)
    moreover have "full (w_chan w' c) = full (w_chan w c)" "buf_ok (w_chan w' c) = buf_ok (w_chan w c)" "c_size (w_chan w' c) = c_size (w_chan w c)"
      using ws(3) [of c] by (simp_all add: same_buf_def buf_ok_def full_def split: option.split)
    ultimately show ?thesis unfolding chan_ok_def ws(1,2) by auto
  qed
  moreover have "linked (ghost m) w'"
    using I unfolding world_inv_def linked_def ws(1,2) rn st by blast
  moreover have "marked m w'" using I unfolding world_inv_def marked_def ws(1,2) rn by blast
  moreover have "run_ok w'" using I unfolding world_inv_def run_ok_def rn st by blast
  ultimately show ?thesis by (simp add: world_inv_def)
qed

definition out_of_queues :: "pid \<Rightarrow> world \<Rightarrow> bool" where
  "out_of_queues p w \<longleftrightarrow> (\<forall>c. p \<notin> waits (c_send (w_chan w c)) \<and> p \<notin> waits (c_recv (w_chan w c)))"

lemma left_all_out: "left_queues p UNIV UNIV w w' \<Longrightarrow> out_of_queues p w'"
  by (auto simp: left_queues_def out_of_queues_def)

lemma addrun_inv:
  assumes I: "world_inv m w" and p: "out_of_queues p w" "p \<notin> set (w_run w)"
  shows "world_inv m (addrun p w)"
proof -
  have f: "w_chan (addrun p w) = w_chan w" "x \<noteq> p \<Longrightarrow> w_prog (addrun p w) x = w_prog w x" for x
    by (simp_all add: addrun_def cwakeme_def set_prog_def)
  have r: "w_run (addrun p w) = w_run w \<or> w_run (addrun p w) = w_run w @ [p]" by (simp add: addrun_def cwakeme_def set_prog_def)
  have "linked (ghost m) (addrun p w)"
    unfolding linked_def
  proof (intro allI impI)
    fix x c assume x: "x \<notin> ghost m"
    show "(x \<in> waits (c_send (w_chan (addrun p w) c)) \<longrightarrow> x \<notin> set (w_run (addrun p w)) \<and>
        (g_state (w_prog (addrun p w) x) = Psend \<and> g_chan (w_prog (addrun p w) x) = Some c \<or> g_state (w_prog (addrun p w) x) = Palt \<and> c \<in> set (sends (g_alt (w_prog (addrun p w) x))))) \<and>
      (x \<in> waits (c_recv (w_chan (addrun p w) c)) \<longrightarrow> x \<notin> set (w_run (addrun p w)) \<and>
        (g_state (w_prog (addrun p w) x) = Precv \<and> g_chan (w_prog (addrun p w) x) = Some c \<or> g_state (w_prog (addrun p w) x) = Palt \<and> c \<in> set (recvs (g_alt (w_prog (addrun p w) x)))))"
    proof (cases "x = p")
      case True
      then show ?thesis using p(1) f(1) by (simp add: out_of_queues_def)
    next
      case False
      then show ?thesis using I x f r unfolding world_inv_def linked_def by auto
    qed
  qed
  moreover have "run_ok (addrun p w)"
    using I p f(2) unfolding world_inv_def run_ok_def by (auto simp: addrun_def cwakeme_def set_prog_def waiting_def)
  ultimately show ?thesis using I p f(1) r unfolding world_inv_def marked_def by auto
qed

lemma waiting_not_running:
  assumes "world_inv m w" "p \<notin> ghost m" "p \<in> waits (c_send (w_chan w c)) \<or> p \<in> waits (c_recv (w_chan w c))"
  shows "p \<notin> set (w_run w)"
  using assms unfolding world_inv_def linked_def by blast

text \<open>The first program of a queue is taken out, and out of all others when it is in an alternation.\<close>

lemma wake_recv:
  assumes I: "world_inv m w" and x: "qprog (c_recv (w_chan w c)) = Inr (Some p)" and p: "p \<notin> ghost m"
  shows "\<exists>q w'. cqdel (c_recv (w_chan w c)) = Inr q \<and>
    (if g_state (w_prog w p) = Palt then altdone (g_alt (w_prog w p)) p (Some c) 1 (set_recv c q w) else Inr (set_recv c q w)) = Inr w' \<and>
    left_queues p UNIV UNIV w w'"
proof -
  have q0: "q_ok (c_recv (w_chan w c))" "queues_ok w" using world_inv_queues [OF I] by (auto simp: queues_ok_def)
  obtain q where q: "cqdel (c_recv (w_chan w c)) = Inr q" "q_ok q" "waits q = waits (c_recv (w_chan w c)) - {p}" using cqdel_ok [OF q0(1) x] by blast
  have pw: "p \<in> waits (c_recv (w_chan w c))" using qprog_ok [OF q0(1)] x by auto
  define w1 where "w1 = set_recv c q w"
  have l1: "left_queues p {} {c} w w1" using q q0(2) by (auto simp: left_queues_def w1_def set_recv_def set_chan_def same_buf_def same_prog_def queues_ok_def)
  have k: "g_state (w_prog w p) = Precv \<and> g_chan (w_prog w p) = Some c \<or> g_state (w_prog w p) = Palt"
    using I p pw unfolding world_inv_def linked_def by blast
  have lk: "p \<in> waits (c_send (w_chan w d)) \<Longrightarrow> g_state (w_prog w p) = Palt \<and> d \<in> set (sends (g_alt (w_prog w p))) \<or> g_state (w_prog w p) = Psend"
    "p \<in> waits (c_recv (w_chan w d)) \<Longrightarrow> g_state (w_prog w p) = Palt \<and> d \<in> set (recvs (g_alt (w_prog w p))) \<or> g_chan (w_prog w p) = Some d \<and> g_state (w_prog w p) = Precv" for d
    using I p unfolding world_inv_def linked_def by blast+
  show ?thesis
  proof (cases "g_state (w_prog w p) = Palt")
    case True
    obtain w2 where a: "altdone (g_alt (w_prog w p)) p (Some c) 1 w1 = Inr w2" "left_queues p (set (sends (g_alt (w_prog w p)))) (set (recvs (g_alt (w_prog w p)))) w1 w2"
      using altdone_ok [OF left_queues_ok [OF l1]] by blast
    have l2: "left_queues p (set (sends (g_alt (w_prog w p)))) ({c} \<union> set (recvs (g_alt (w_prog w p)))) w w2" using left_queues_trans [OF l1 a(2)] by simp
    have "left_queues p UNIV UNIV w w2" by (rule left_queues_all [OF l2]) (use lk True in auto)
    then show ?thesis using True q(1) a(1) by (simp add: w1_def)
  next
    case False
    have "left_queues p UNIV UNIV w w1" by (rule left_queues_all [OF l1]) (use lk k False in auto)
    then show ?thesis using False q(1) by (simp add: w1_def)
  qed
qed

lemma wake_send:
  assumes I: "world_inv m w" and x: "qprog (c_send (w_chan w c)) = Inr (Some p)" and p: "p \<notin> ghost m"
  shows "\<exists>q w'. cqdel (c_send (w_chan w c)) = Inr q \<and>
    (if g_state (w_prog w p) = Palt then altdone (g_alt (w_prog w p)) p (Some c) 0 (set_send c q w) else Inr (set_send c q w)) = Inr w' \<and>
    left_queues p UNIV UNIV w w'"
proof -
  have q0: "q_ok (c_send (w_chan w c))" "queues_ok w" using world_inv_queues [OF I] by (auto simp: queues_ok_def)
  obtain q where q: "cqdel (c_send (w_chan w c)) = Inr q" "q_ok q" "waits q = waits (c_send (w_chan w c)) - {p}"
    "wlist q = filter (\<lambda>x. x \<noteq> p) (wlist (c_send (w_chan w c)))" using cqdel_ok [OF q0(1) x] by blast
  have pw: "p \<in> waits (c_send (w_chan w c))" using qprog_ok [OF q0(1)] x by auto
  define w1 where "w1 = set_send c q w"
  have l1: "left_queues p {c} {} w w1" using q q0(2) by (auto simp: left_queues_def w1_def set_send_def set_chan_def same_buf_def same_prog_def queues_ok_def)
  have k: "g_state (w_prog w p) = Psend \<and> g_chan (w_prog w p) = Some c \<or> g_state (w_prog w p) = Palt"
    using I p pw unfolding world_inv_def linked_def by blast
  have lk: "p \<in> waits (c_recv (w_chan w d)) \<Longrightarrow> g_state (w_prog w p) = Palt \<and> d \<in> set (recvs (g_alt (w_prog w p))) \<or> g_state (w_prog w p) = Precv"
    "p \<in> waits (c_send (w_chan w d)) \<Longrightarrow> g_state (w_prog w p) = Palt \<and> d \<in> set (sends (g_alt (w_prog w p))) \<or> g_chan (w_prog w p) = Some d \<and> g_state (w_prog w p) = Psend" for d
    using I p unfolding world_inv_def linked_def by blast+
  show ?thesis
  proof (cases "g_state (w_prog w p) = Palt")
    case True
    obtain w2 where a: "altdone (g_alt (w_prog w p)) p (Some c) 0 w1 = Inr w2" "left_queues p (set (sends (g_alt (w_prog w p)))) (set (recvs (g_alt (w_prog w p)))) w1 w2"
      using altdone_ok [OF left_queues_ok [OF l1]] by blast
    have l2: "left_queues p ({c} \<union> set (sends (g_alt (w_prog w p)))) (set (recvs (g_alt (w_prog w p)))) w w2" using left_queues_trans [OF l1 a(2)] by simp
    have "left_queues p UNIV UNIV w w2" by (rule left_queues_all [OF l2]) (use lk True in auto)
    then show ?thesis using True q(1) a(1) by (simp add: w1_def)
  next
    case False
    have "left_queues p UNIV UNIV w w1" by (rule left_queues_all [OF l1]) (use lk k False in auto)
    then show ?thesis using False q(1) by (simp add: w1_def)
  qed
qed

end
