(* ===== verification/Dis_Chan_Ops.thy ===== *)
theory Dis_Chan_Ops
  imports Dis_Chan_Inv
begin

text \<open>
  Sending and receiving keep the invariant of channels, on every branch: a waiting partner is woken, the buffer
  takes or gives an element, or the running program waits.
\<close>

section \<open>Buffers\<close>

lemma world_inv_buf:
  assumes I: "world_inv m w" and r: "w_run w' = w_run w" and g: "\<And>x. same_prog (w_prog w x) (w_prog w' x)"
    and s: "\<And>c. waits (c_send (w_chan w' c)) = waits (c_send (w_chan w c))" "\<And>c. waits (c_recv (w_chan w' c)) = waits (c_recv (w_chan w c))"
    and ok: "\<And>c. chan_ok (ghost m) (w_chan w' c)"
  shows "world_inv m w'"
proof -
  have st: "g_state (w_prog w' x) = g_state (w_prog w x)" "g_chan (w_prog w' x) = g_chan (w_prog w x)" "g_alt (w_prog w' x) = g_alt (w_prog w x)" for x
    using g by (auto simp: same_prog_def)
  show ?thesis using I ok unfolding world_inv_def linked_def marked_def run_ok_def s r st by blast
qed

lemma chan_ok_cong:
  assumes "chan_ok P ch" "c_send ch' = c_send ch" "c_recv ch' = c_recv ch" "buf_ok ch'"
    and "waits (c_recv ch) - P \<noteq> {} \<Longrightarrow> c_size ch' = 0" "waits (c_send ch) - P \<noteq> {} \<Longrightarrow> full ch'"
  shows "chan_ok P ch'"
  using assms unfolding chan_ok_def by auto

lemma buf_queue_simps [simp]:
  "buf_ok (ch\<lparr>c_send := q\<rparr>) = buf_ok ch" "buf_ok (ch\<lparr>c_recv := q\<rparr>) = buf_ok ch"
  "full (ch\<lparr>c_send := q\<rparr>) = full ch" "full (ch\<lparr>c_recv := q\<rparr>) = full ch"
  by (simp_all add: buf_ok_def full_def split: option.split)

lemma full_iff: "buf_ok ch \<Longrightarrow> full ch \<longleftrightarrow> \<not> CANPUT ch"
  by (auto simp: buf_ok_def full_def CANPUT_def split: option.splits)

definition put_cell :: "chan \<Rightarrow> nat" where
  "put_cell ch = (let r = c_front ch + c_size ch; len = nat (the (c_buf ch)) in if r \<ge> len then r - len else r)"

definition next_front :: "chan \<Rightarrow> nat" where
  "next_front ch = (if int (c_front ch + 1) = the (c_buf ch) then 0 else c_front ch + 1)"

lemma cputb_eq:
  assumes "CANPUT (w_chan w c)"
  shows "cputb c v w =
    (mover ((set_chan c ((w_chan w c)\<lparr>c_size := c_size (w_chan w c) + 1\<rparr>) w)\<lparr>w_Rs := v, w_Rd := Cell c (put_cell (w_chan w c))\<rparr>), True)"
proof -
  obtain len where b: "c_buf (w_chan w c) = Some len" "int (c_size (w_chan w c)) < len" using assms by (auto simp: CANPUT_def split: option.splits)
  have "int (c_front (w_chan w c) + c_size (w_chan w c)) \<ge> len \<longleftrightarrow> c_front (w_chan w c) + c_size (w_chan w c) \<ge> nat len" using b(2) by linarith
  then show ?thesis using b by (simp add: cputb_def put_cell_def Let_def)
qed

lemma cputb_full: "\<not> CANPUT (w_chan w c) \<Longrightarrow> cputb c v w = (w, False)"
  by (auto simp: cputb_def CANPUT_def split: option.splits)

text \<open>What \<open>cgetb\<close> leaves in memory.\<close>

definition taken :: "chan \<Rightarrow> loc \<Rightarrow> loc \<Rightarrow> (loc \<Rightarrow> elem) \<Rightarrow> loc \<Rightarrow> elem" where
  "taken ch cell v mem = (let mem = mem(v := mem cell) in case c_initmem ch of None \<Rightarrow> mem | Some f \<Rightarrow> mem(cell := f (mem cell)))"

lemma cgetb_eq:
  assumes "c_buf (w_chan w c) \<noteq> None" "CANGET (w_chan w c)"
  shows "cgetb c v w =
    ((set_chan c ((w_chan w c)\<lparr>c_front := next_front (w_chan w c), c_size := c_size (w_chan w c) - 1\<rparr>) w)
      \<lparr>w_Rs := Cell c (c_front (w_chan w c)), w_Rd := v, w_mem := taken (w_chan w c) (Cell c (c_front (w_chan w c))) v (w_mem w)\<rparr>, True)"
  using assms by (auto simp: cgetb_def CANGET_def next_front_def mover_def taken_def set_chan_def Let_def split: option.splits)

lemma buf_ok_put: "buf_ok ch \<Longrightarrow> CANPUT ch \<Longrightarrow> buf_ok (ch\<lparr>c_size := c_size ch + 1\<rparr>)"
  by (auto simp: buf_ok_def CANPUT_def split: option.splits)

lemma buf_ok_get: "buf_ok ch \<Longrightarrow> CANGET ch \<Longrightarrow> buf_ok (ch\<lparr>c_front := next_front ch, c_size := c_size ch - 1\<rparr>)"
  by (auto simp: buf_ok_def CANGET_def next_front_def split: option.splits)

lemma inv_chan_ok: "world_inv m w \<Longrightarrow> chan_ok (ghost m) (w_chan w c)"
  by (simp add: world_inv_def)

lemma qprog_waits:
  assumes "world_inv m w"
  shows "qprog (c_send (w_chan w c)) = Inr None \<longleftrightarrow> waits (c_send (w_chan w c)) = {}"
    "qprog (c_recv (w_chan w c)) = Inr None \<longleftrightarrow> waits (c_recv (w_chan w c)) = {}"
  using qprog_ok [of "c_send (w_chan w c)"] qprog_ok [of "c_recv (w_chan w c)"] world_inv_queues [OF assms] by (auto simp: queues_ok_def)

lemma qprog_wait:
  assumes "world_inv m w"
  shows "qprog (c_send (w_chan w c)) = Inr (Some p) \<Longrightarrow> p \<in> waits (c_send (w_chan w c))"
    "qprog (c_recv (w_chan w c)) = Inr (Some p) \<Longrightarrow> p \<in> waits (c_recv (w_chan w c))"
  using qprog_ok [of "c_send (w_chan w c)"] qprog_ok [of "c_recv (w_chan w c)"] world_inv_queues [OF assms] by (auto simp: queues_ok_def)

lemma put_inv:
  assumes I: "world_inv m w" and n: "qprog (c_recv (w_chan w c)) = Inr None" and C: "CANPUT (w_chan w c)"
  shows "world_inv m (fst (cputb c v w))"
proof (rule world_inv_buf [OF I])
  have k: "chan_ok (ghost m) (w_chan w c)" by (rule inv_chan_ok [OF I])
  have "chan_ok (ghost m) ((w_chan w c)\<lparr>c_size := c_size (w_chan w c) + 1\<rparr>)"
  proof (rule chan_ok_cong [OF k])
    show "buf_ok ((w_chan w c)\<lparr>c_size := c_size (w_chan w c) + 1\<rparr>)" using k C unfolding chan_ok_def by (blast intro: buf_ok_put)
    show "waits (c_send (w_chan w c)) - ghost m \<noteq> {} \<Longrightarrow> full ((w_chan w c)\<lparr>c_size := c_size (w_chan w c) + 1\<rparr>)"
      using k C full_iff by (auto simp: chan_ok_def)
  qed (use qprog_waits [OF I] n in auto)
  then show "chan_ok (ghost m) (w_chan (fst (cputb c v w)) d)" for d
    using inv_chan_ok [OF I] by (simp add: cputb_eq [OF C] mover_def set_chan_def)
qed (simp_all add: cputb_eq [OF C] mover_def set_chan_def same_prog_def)

lemma get_inv:
  assumes I: "world_inv m w" and n: "qprog (c_send (w_chan w c)) = Inr None" and b: "c_buf (w_chan w c) \<noteq> None" and C: "CANGET (w_chan w c)"
  shows "world_inv m (fst (cgetb c v w))"
proof (rule world_inv_buf [OF I])
  let ?ch = "(w_chan w c)\<lparr>c_front := next_front (w_chan w c), c_size := c_size (w_chan w c) - 1\<rparr>"
  have k: "chan_ok (ghost m) (w_chan w c)" by (rule inv_chan_ok [OF I])
  have "chan_ok (ghost m) ?ch"
  proof (rule chan_ok_cong [OF k])
    show "buf_ok ?ch" using k C unfolding chan_ok_def by (blast intro: buf_ok_get)
    show "waits (c_recv (w_chan w c)) - ghost m \<noteq> {} \<Longrightarrow> c_size ?ch = 0" using k by (simp add: chan_ok_def)
  qed (use qprog_waits [OF I] n in auto)
  then show "chan_ok (ghost m) (w_chan (fst (cgetb c v w)) d)" for d
    using inv_chan_ok [OF I] by (simp add: cgetb_eq [OF b C] set_chan_def)
qed (simp_all add: cgetb_eq [OF b C] set_chan_def same_prog_def)

text \<open>Around a full buffer: an element is taken and one put in its place.\<close>

lemma get_put_inv:
  assumes I: "world_inv m w" and n: "waits (c_recv (w_chan w c)) - ghost m = {}" and b: "c_buf (w_chan w c) \<noteq> None"
    and f: "full (w_chan w c)"
  shows "world_inv m (fst (cputb c v' (fst (cgetb c v w))))"
proof (rule world_inv_buf [OF I])
  let ?ch = "w_chan w c"
  have k: "chan_ok (ghost m) ?ch" by (rule inv_chan_ok [OF I])
  obtain len where len: "c_buf ?ch = Some len" using b by blast
  have C: "CANGET ?ch" using k f len by (simp add: chan_ok_def full_def buf_ok_def CANGET_def)
  have ch1: "w_chan (fst (cgetb c v w)) c = ?ch\<lparr>c_front := next_front ?ch, c_size := c_size ?ch - 1\<rparr>"
    by (simp add: cgetb_eq [OF b C] set_chan_def)
  have P: "CANPUT (w_chan (fst (cgetb c v w)) c)" using f len C unfolding ch1 by (simp add: full_def CANPUT_def CANGET_def)
  have ch2: "w_chan (fst (cputb c v' (fst (cgetb c v w)))) = (w_chan w)(c := ?ch\<lparr>c_front := next_front ?ch\<rparr>)"
    using C by (simp add: cputb_eq [OF P] mover_def ch1) (simp add: cgetb_eq [OF b C] set_chan_def CANGET_def)
  have "chan_ok (ghost m) (?ch\<lparr>c_front := next_front ?ch\<rparr>)"
  proof (rule chan_ok_cong [OF k])
    show "buf_ok (?ch\<lparr>c_front := next_front ?ch\<rparr>)" using k len by (auto simp: chan_ok_def buf_ok_def next_front_def)
    show "full (?ch\<lparr>c_front := next_front ?ch\<rparr>)" using f len by (simp add: full_def)
  qed (use n in auto)
  then show "chan_ok (ghost m) (w_chan (fst (cputb c v' (fst (cgetb c v w)))) d)" for d
    using inv_chan_ok [OF I] unfolding ch2 by simp
  show "waits (c_send (w_chan (fst (cputb c v' (fst (cgetb c v w)))) d)) = waits (c_send (w_chan w d))"
    "waits (c_recv (w_chan (fst (cputb c v' (fst (cgetb c v w)))) d)) = waits (c_recv (w_chan w d))" for d unfolding ch2 by simp_all
  show "w_run (fst (cputb c v' (fst (cgetb c v w)))) = w_run w"
    "same_prog (w_prog w x) (w_prog (fst (cputb c v' (fst (cgetb c v w)))) x)" for x
    by (simp_all add: cputb_eq [OF P] mover_def) (simp_all add: cgetb_eq [OF b C] set_chan_def same_prog_def)
qed

section \<open>Waking a partner\<close>

lemma set_queue_simps [simp]:
  "w_prog (set_recv c q w) = w_prog w" "w_prog (set_send c q w) = w_prog w" "w_run (set_recv c q w) = w_run w" "w_run (set_send c q w) = w_run w"
  by (simp_all add: set_recv_def set_send_def set_chan_def)

lemma mover_set_prog: "mover (set_prog p g w) = set_prog p g (mover w)"
  by (simp add: mover_def set_prog_def)

lemma mover_simps [simp]: "w_prog (mover w) = w_prog w" "w_run (mover w) = w_run w" "w_chan (mover w) = w_chan w"
  by (simp_all add: mover_def)

lemma isend_wake_eq:
  assumes "qprog (c_recv (w_chan w c)) = Inr (Some p)" "cqdel (c_recv (w_chan w c)) = Inr q"
    "(if g_state (w_prog w p) = Palt then altdone (g_alt (w_prog w p)) p (Some c) 1 (set_recv c q w) else Inr (set_recv c q w)) = Inr w1"
    "w2 = mover (w1\<lparr>w_Rd := g_ptr (w_prog w1 p)\<rparr>)"
  shows "isend (Some c) w = Inr ((addrun p (set_prog p ((w_prog w2 p)\<lparr>g_ptr := Null\<rparr>) w2))\<lparr>w_t := 0\<rparr>)"
  unfolding isend_def Let_def mover_set_prog assms(4) using assms(1,2,3) by (auto split: if_splits)

lemma irecv_wake_eq:
  assumes "qprog (c_send (w_chan w c)) = Inr (Some p)" "cqdel (c_send (w_chan w c)) = Inr q"
    "(if g_state (w_prog w p) = Palt then altdone (g_alt (w_prog w p)) p (Some c) 0 (set_send c q w) else Inr (set_send c q w)) = Inr w1"
    "w2 = (if c_buf (w_chan w1 c) \<noteq> None then fst (cputb c (g_ptr (w_prog w1 p)) (fst (cgetb c (w_Rd w1) w1)))
     else mover (w1\<lparr>w_Rs := g_ptr (w_prog w1 p)\<rparr>))"
    "w_prog (fst (cputb c (g_ptr (w_prog w1 p)) (fst (cgetb c (w_Rd w1) w1)))) = w_prog w1" "w_prog (fst (cgetb c (w_Rd w1) w1)) = w_prog w1"
  shows "irecv (Some c) w = Inr ((addrun p (set_prog p ((w_prog w2 p)\<lparr>g_ptr := Null\<rparr>) w2))\<lparr>w_t := 0\<rparr>)"
proof -
  have "irecv (Some c) w = cbind (if g_state (w_prog w p) = Palt then altdone (g_alt (w_prog w p)) p (Some c) 0 (set_send c q w) else Inr (set_send c q w)) (\<lambda>w.
       let v = g_ptr (w_prog w p);
           w = (if c_buf (w_chan w c) \<noteq> None
                then let w = fst (cgetb c (w_Rd w) w) in set_prog p ((w_prog w p)\<lparr>g_ptr := Null\<rparr>) (fst (cputb c v w))
                else mover (set_prog p ((w_prog w p)\<lparr>g_ptr := Null\<rparr>) (w\<lparr>w_Rs := v\<rparr>)))
       in Inr ((addrun p w)\<lparr>w_t := 0\<rparr>))"
    using assms(1,2) by (simp add: irecv_def Let_def)
  then show ?thesis unfolding assms(3,4) by (simp add: Let_def mover_set_prog assms(5,6))
qed

text \<open>The program that leaves its queues gets its data pointer cleared and is put into the run queue.\<close>

lemma wake_inv:
  assumes I: "world_inv m w" and p: "out_of_queues p w" "p \<notin> set (w_run w)"
  shows "world_inv m ((addrun p (set_prog p ((w_prog w p)\<lparr>g_ptr := v\<rparr>) w))\<lparr>w_t := t\<rparr>)"
proof -
  let ?w = "set_prog p ((w_prog w p)\<lparr>g_ptr := v\<rparr>) w"
  have "world_inv m ?w" by (rule world_inv_cong [OF I]) (simp_all add: set_prog_def same_prog_def)
  moreover have "out_of_queues p ?w" "p \<notin> set (w_run ?w)" using p by (simp_all add: out_of_queues_def set_prog_def)
  ultimately have "world_inv m (addrun p ?w)" by (rule addrun_inv)
  then show ?thesis by (rule world_inv_cong) (simp_all add: same_prog_def)
qed

lemma isend_wake:
  assumes I: "world_inv m w" and x: "qprog (c_recv (w_chan w c)) = Inr (Some p)" and p: "p \<notin> ghost m"
  shows "\<exists>w'. isend (Some c) w = Inr w' \<and> world_inv m w' \<and> set (w_run w) \<subseteq> set (w_run w')"
proof -
  obtain q w1 where w1: "cqdel (c_recv (w_chan w c)) = Inr q"
    "(if g_state (w_prog w p) = Palt then altdone (g_alt (w_prog w p)) p (Some c) 1 (set_recv c q w) else Inr (set_recv c q w)) = Inr w1"
    "left_queues p UNIV UNIV w w1" using wake_recv [OF I x p] by blast
  have I1: "world_inv m w1" by (rule leave_all [OF I w1(3) p])
  have r: "w_run w1 = w_run w" using w1(3) by (simp add: left_queues_def)
  have out: "out_of_queues p w1" "p \<notin> set (w_run w1)"
    using left_all_out [OF w1(3)] waiting_not_running [OF I p] qprog_wait(2) [OF I x] r by auto
  define w2 where "w2 = mover (w1\<lparr>w_Rd := g_ptr (w_prog w1 p)\<rparr>)"
  have I2: "world_inv m w2" by (rule world_inv_cong [OF I1]) (simp_all add: w2_def mover_def same_prog_def)
  have out2: "out_of_queues p w2" "p \<notin> set (w_run w2)" using out by (simp_all add: w2_def mover_def out_of_queues_def)
  have "isend (Some c) w = Inr ((addrun p (set_prog p ((w_prog w2 p)\<lparr>g_ptr := Null\<rparr>) w2))\<lparr>w_t := 0\<rparr>)"
    by (rule isend_wake_eq [OF x w1(1,2) w2_def])
  moreover have "w_run w2 = w_run w" using r by (simp add: w2_def mover_def)
  ultimately show ?thesis using wake_inv [OF I2 out2, where v = Null and t = 0] by (auto simp: addrun_def cwakeme_def set_prog_def)
qed

lemma irecv_wake:
  assumes I: "world_inv m w" and x: "qprog (c_send (w_chan w c)) = Inr (Some p)" and p: "p \<notin> ghost m"
  shows "\<exists>w'. irecv (Some c) w = Inr w' \<and> world_inv m w' \<and> set (w_run w) \<subseteq> set (w_run w')"
proof -
  obtain q w1 where w1: "cqdel (c_send (w_chan w c)) = Inr q"
    "(if g_state (w_prog w p) = Palt then altdone (g_alt (w_prog w p)) p (Some c) 0 (set_send c q w) else Inr (set_send c q w)) = Inr w1"
    "left_queues p UNIV UNIV w w1" using wake_send [OF I x p] by blast
  have I1: "world_inv m w1" by (rule leave_all [OF I w1(3) p])
  have r: "w_run w1 = w_run w" using w1(3) by (simp add: left_queues_def)
  have pw: "p \<in> waits (c_send (w_chan w c))" by (rule qprog_wait(1) [OF I x])
  have out: "out_of_queues p w1" "p \<notin> set (w_run w1)" using left_all_out [OF w1(3)] waiting_not_running [OF I p] pw r by auto
  have "full (w_chan w c)" "waits (c_recv (w_chan w c)) - ghost m = {}" using inv_chan_ok [OF I, of c] pw p unfolding chan_ok_def by blast+
  then have f: "full (w_chan w1 c)" "waits (c_recv (w_chan w1 c)) - ghost m = {}"
    using w1(3) by (auto simp: left_queues_def full_def same_buf_def split: option.splits)
  define w2 where "w2 = (if c_buf (w_chan w1 c) \<noteq> None then fst (cputb c (g_ptr (w_prog w1 p)) (fst (cgetb c (w_Rd w1) w1)))
     else mover (w1\<lparr>w_Rs := g_ptr (w_prog w1 p)\<rparr>))"
  have I2: "world_inv m w2"
  proof (cases "c_buf (w_chan w1 c) = None")
    case True
    then show ?thesis using world_inv_cong [OF I1, of w2] by (simp add: w2_def mover_def same_prog_def)
  next
    case False
    then show ?thesis using get_put_inv [OF I1 f(2) False f(1)] by (simp add: w2_def)
  qed
  have g: "w_prog (fst (cgetb d v u)) = w_prog u" "w_run (fst (cgetb d v u)) = w_run u" "w_prog (fst (cputb d v u)) = w_prog u" "w_run (fst (cputb d v u)) = w_run u"
    for d v u by (auto simp: cgetb_def cputb_def mover_def set_chan_def Let_def split: option.splits)
  have q2: "waits (c_send (w_chan w2 d)) = waits (c_send (w_chan w1 d))" "waits (c_recv (w_chan w2 d)) = waits (c_recv (w_chan w1 d))" for d
    by (auto simp: w2_def cgetb_def cputb_def mover_def set_chan_def Let_def split: option.splits)
  have w2: "w_prog w2 = w_prog w1" "w_run w2 = w_run w1" by (simp_all add: w2_def g mover_def)
  have out2: "out_of_queues p w2" "p \<notin> set (w_run w2)" using out q2 w2(2) by (simp_all add: out_of_queues_def)
  have "irecv (Some c) w = Inr ((addrun p (set_prog p ((w_prog w2 p)\<lparr>g_ptr := Null\<rparr>) w2))\<lparr>w_t := 0\<rparr>)"
    by (rule irecv_wake_eq [OF x w1(1,2) w2_def]) (simp_all add: g)
  then show ?thesis using wake_inv [OF I2 out2, where v = Null and t = 0] w2 r by (auto simp: addrun_def cwakeme_def set_prog_def)
qed

section \<open>Waiting\<close>

lemma running_out:
  assumes "world_inv None w" "p \<in> set (w_run w)"
  shows "out_of_queues p w"
  using assms waiting_not_running [OF assms(1), of p] unfolding out_of_queues_def ghost_def by auto

lemma isend_wait:
  assumes I: "world_inv None w" and r: "w_run w = p # ps" and n: "qprog (c_recv (w_chan w c)) = Inr None" and P: "\<not> CANPUT (w_chan w c)"
  shows "isend (Some c) w = Inl (Raise exNomem) \<or> (\<exists>w'. isend (Some c) w = Inr w' \<and> world_inv None w' \<and> w_run w' = ps)"
proof -
  define w1 where "w1 = (set_prog p ((w_prog w p)\<lparr>g_state := Psend, g_ptr := w_Rs w, g_chan := Some c\<rparr>) w)\<lparr>w_run := ps, w_IC := 1, w_t := 1\<rparr>"
  have "wait_on Psend c (w_Rs w) w = Inr (p, w1)" by (simp add: wait_on_def delrun_def r w1_def set_prog_def)
  then have e: "isend (Some c) w = add_send c p w1" using n cputb_full [OF P] by (simp add: isend_def)
  have o: "out_of_queues p w" using running_out [OF I] r by simp
  have q: "q_ok (c_send (w_chan w1 c))" "p \<notin> waits (c_send (w_chan w1 c))" "w_chan w1 = w_chan w"
    using world_inv_queues [OF I] o by (simp_all add: w1_def set_prog_def queues_ok_def out_of_queues_def)
  show ?thesis
  proof (cases "cqadd (c_send (w_chan w1 c)) p (w_malloc w1)")
    case (Inl e')
    then show ?thesis using e cqadd_not_undef [OF q(1)] by (auto simp: add_send_def cqadd_def cbind_eq_Inl_iff qprog_def split: if_splits list.splits)
  next
    case (Inr y)
    obtain q' ms where y: "y = (q', ms)" by fastforce
    have q': "q_ok q'" "waits q' = insert p (waits (c_send (w_chan w1 c)))" using cqadd_ok [OF q(1,2)] Inr y by auto
    define w' where "w' = (set_send c q' w1)\<lparr>w_malloc := ms\<rparr>"
    have f: "w_chan w' = (w_chan w)(c := (w_chan w c)\<lparr>c_send := q'\<rparr>)" "w_run w' = ps"
      "w_prog w' = (w_prog w)(p := (w_prog w p)\<lparr>g_state := Psend, g_ptr := w_Rs w, g_chan := Some c\<rparr>)"
      by (simp_all add: w'_def set_send_def set_chan_def w1_def set_prog_def)
    have d: "p \<notin> set ps" "distinct ps" using I r by (auto simp: world_inv_def run_ok_def)
    have k: "chan_ok {} (w_chan w c)" using inv_chan_ok [OF I] by (simp add: ghost_def)
    have "chan_ok {} ((w_chan w c)\<lparr>c_send := q'\<rparr>)"
      using k q' P n qprog_waits [OF I, of c] full_iff [of "w_chan w c"] unfolding chan_ok_def by simp
    then have c: "chan_ok {} (w_chan w' x)" for x using inv_chan_ok [OF I, of x] unfolding f by (simp add: ghost_def)
    have "linked {} w'"
      using I o d r q'(2) q(3) unfolding linked_def world_inv_def f ghost_def out_of_queues_def by auto
    moreover have "run_ok w'" using I d r unfolding world_inv_def run_ok_def f by auto
    ultimately have "world_inv None w'" using c by (simp add: world_inv_def ghost_def marked_def)
    moreover have "isend (Some c) w = Inr w'" using e Inr y by (simp add: add_send_def w'_def)
    ultimately show ?thesis using f by blast
  qed
qed

lemma irecv_wait:
  assumes I: "world_inv None w" and r: "w_run w = p # ps" and n: "qprog (c_send (w_chan w c)) = Inr None" and P: "\<not> CANGET (w_chan w c)"
  shows "irecv (Some c) w = Inl (Raise exNomem) \<or> (\<exists>w'. irecv (Some c) w = Inr w' \<and> world_inv None w' \<and> w_run w' = ps)"
proof -
  define w1 where "w1 = (set_prog p ((w_prog w p)\<lparr>g_state := Precv, g_ptr := w_Rd w, g_chan := Some c\<rparr>) w)\<lparr>w_run := ps, w_IC := 1, w_t := 1\<rparr>"
  have "wait_on Precv c (w_Rd w) w = Inr (p, w1)" by (simp add: wait_on_def delrun_def r w1_def set_prog_def)
  moreover have "cgetb c (w_Rd w) w = (w, False)" using P by (auto simp: cgetb_def CANGET_def split: option.splits)
  ultimately have e: "irecv (Some c) w = add_recv c p w1" using n by (simp add: irecv_def)
  have o: "out_of_queues p w" using running_out [OF I] r by simp
  have q: "q_ok (c_recv (w_chan w1 c))" "p \<notin> waits (c_recv (w_chan w1 c))" "w_chan w1 = w_chan w"
    using world_inv_queues [OF I] o by (simp_all add: w1_def set_prog_def queues_ok_def out_of_queues_def)
  show ?thesis
  proof (cases "cqadd (c_recv (w_chan w1 c)) p (w_malloc w1)")
    case (Inl e')
    then show ?thesis using e cqadd_not_undef [OF q(1)] by (auto simp: add_recv_def cqadd_def cbind_eq_Inl_iff qprog_def split: if_splits list.splits)
  next
    case (Inr y)
    obtain q' ms where y: "y = (q', ms)" by fastforce
    have q': "q_ok q'" "waits q' = insert p (waits (c_recv (w_chan w1 c)))" using cqadd_ok [OF q(1,2)] Inr y by auto
    define w' where "w' = (set_recv c q' w1)\<lparr>w_malloc := ms\<rparr>"
    have f: "w_chan w' = (w_chan w)(c := (w_chan w c)\<lparr>c_recv := q'\<rparr>)" "w_run w' = ps"
      "w_prog w' = (w_prog w)(p := (w_prog w p)\<lparr>g_state := Precv, g_ptr := w_Rd w, g_chan := Some c\<rparr>)"
      by (simp_all add: w'_def set_recv_def set_chan_def w1_def set_prog_def)
    have d: "p \<notin> set ps" "distinct ps" using I r by (auto simp: world_inv_def run_ok_def)
    have k: "chan_ok {} (w_chan w c)" using inv_chan_ok [OF I] by (simp add: ghost_def)
    have "chan_ok {} ((w_chan w c)\<lparr>c_recv := q'\<rparr>)"
      using k q' P n qprog_waits [OF I, of c] unfolding chan_ok_def by (simp add: CANGET_def)
    then have c: "chan_ok {} (w_chan w' x)" for x using inv_chan_ok [OF I, of x] unfolding f by (simp add: ghost_def)
    have "linked {} w'"
      using I o d r q'(2) q(3) unfolding linked_def world_inv_def f ghost_def out_of_queues_def by auto
    moreover have "run_ok w'" using I d r unfolding world_inv_def run_ok_def f by auto
    ultimately have "world_inv None w'" using c by (simp add: world_inv_def ghost_def marked_def)
    moreover have "irecv (Some c) w = Inr w'" using e Inr y by (simp add: add_recv_def w'_def)
    ultimately show ?thesis using f by blast
  qed
qed

section \<open>Every branch\<close>

lemma isend_ready:
  assumes I: "world_inv m w" and g: "waits (c_recv (w_chan w c)) \<inter> ghost m = {}" and R: "waits (c_recv (w_chan w c)) \<noteq> {} \<or> CANPUT (w_chan w c)"
  shows "\<exists>w'. isend (Some c) w = Inr w' \<and> world_inv m w' \<and> set (w_run w) \<subseteq> set (w_run w')"
proof -
  obtain x where x: "qprog (c_recv (w_chan w c)) = Inr x" using qprog_ok world_inv_queues [OF I] unfolding queues_ok_def by blast
  show ?thesis
  proof (cases x)
    case None
    then have C: "CANPUT (w_chan w c)" using R x qprog_waits [OF I, of c] by simp
    have "isend (Some c) w = Inr (fst (cputb c (w_Rs w) w))"
      using C x None by (auto simp: isend_def cputb_eq CANPUT_def split: option.splits)
    moreover have "w_run (fst (cputb c (w_Rs w) w)) = w_run w" by (simp add: cputb_eq [OF C] set_chan_def)
    ultimately show ?thesis using put_inv [OF I _ C] x None by simp
  next
    case (Some p)
    then have "p \<notin> ghost m" using g qprog_wait(2) [OF I] x by blast
    then show ?thesis using isend_wake [OF I] x Some by fastforce
  qed
qed

lemma irecv_ready:
  assumes I: "world_inv m w" and g: "waits (c_send (w_chan w c)) \<inter> ghost m = {}" and R: "waits (c_send (w_chan w c)) \<noteq> {} \<or> CANGET (w_chan w c)"
  shows "\<exists>w'. irecv (Some c) w = Inr w' \<and> world_inv m w' \<and> set (w_run w) \<subseteq> set (w_run w')"
proof -
  obtain x where x: "qprog (c_send (w_chan w c)) = Inr x" using qprog_ok world_inv_queues [OF I] unfolding queues_ok_def by blast
  show ?thesis
  proof (cases x)
    case None
    then have C: "CANGET (w_chan w c)" using R x qprog_waits [OF I, of c] by simp
    have b: "c_buf (w_chan w c) \<noteq> None" using C inv_chan_ok [OF I, of c] by (auto simp: CANGET_def chan_ok_def buf_ok_def split: option.splits)
    have "irecv (Some c) w = Inr (fst (cgetb c (w_Rd w) w))" using b C x None by (simp add: irecv_def cgetb_eq)
    moreover have "w_run (fst (cgetb c (w_Rd w) w)) = w_run w" by (simp add: cgetb_eq [OF b C] set_chan_def)
    ultimately show ?thesis using get_inv [OF I _ b C] x None by simp
  next
    case (Some p)
    then have "p \<notin> ghost m" using g qprog_wait(1) [OF I] x by blast
    then show ?thesis using irecv_wake [OF I] x Some by fastforce
  qed
qed

lemma isend_step:
  assumes I: "world_inv None w" and r: "w_run w \<noteq> []"
  shows "isend (Some c) w = Inl (Raise exNomem) \<or> (\<exists>w'. isend (Some c) w = Inr w' \<and> world_inv None w')"
proof (cases "waits (c_recv (w_chan w c)) \<noteq> {} \<or> CANPUT (w_chan w c)")
  case True
  then show ?thesis using isend_ready [OF I] by (auto simp: ghost_def)
next
  case False
  obtain p ps where p: "w_run w = p # ps" using r by (cases "w_run w") auto
  show ?thesis using isend_wait [OF I p] False qprog_waits [OF I] by blast
qed

lemma irecv_step:
  assumes I: "world_inv None w" and r: "w_run w \<noteq> []"
  shows "irecv (Some c) w = Inl (Raise exNomem) \<or> (\<exists>w'. irecv (Some c) w = Inr w' \<and> world_inv None w')"
proof (cases "waits (c_send (w_chan w c)) \<noteq> {} \<or> CANGET (w_chan w c)")
  case True
  then show ?thesis using irecv_ready [OF I] by (auto simp: ghost_def)
next
  case False
  obtain p ps where p: "w_run w = p # ps" using r by (cases "w_run w") auto
  show ?thesis using irecv_wait [OF I p] False qprog_waits [OF I] by blast
qed

end
