(* ===== verification/Dis_Chan_Alt.thy ===== *)
theory Dis_Chan_Alt
  imports Dis_Chan_Ops
begin

text \<open>
  Alternation keeps the invariant of channels. Its first pass enters the program into the queues of all arms and counts the
  ready ones, the second communicates on one of these, and the third takes the program out of all queues again.
\<close>

section \<open>Entering the queues\<close>

definition entered :: "pid \<Rightarrow> cid set \<Rightarrow> cid set \<Rightarrow> world \<Rightarrow> world \<Rightarrow> bool" where
  "entered p S R w w' \<longleftrightarrow> queues_ok w' \<and> w_run w' = w_run w \<and> w_prog w' = w_prog w \<and> w_mem w' = w_mem w \<and> w_Rd w' = w_Rd w \<and>
    (\<forall>c. same_buf (w_chan w c) (w_chan w' c) \<and>
      waits (c_send (w_chan w' c)) = waits (c_send (w_chan w c)) \<union> (if c \<in> S then {p} else {}) \<and>
      waits (c_recv (w_chan w' c)) = waits (c_recv (w_chan w c)) \<union> (if c \<in> R then {p} else {}))"

lemma entered_refl: "queues_ok w \<Longrightarrow> entered p {} {} w w"
  by (simp add: entered_def same_buf_def)

lemma entered_trans:
  assumes "entered p S R w w1" "entered p S' R' w1 w2"
  shows "entered p (S \<union> S') (R \<union> R') w w2"
proof -
  have "same_buf (w_chan w c) (w_chan w2 c)" for c using assms by (simp add: entered_def same_buf_def)
  moreover have "waits (c_send (w_chan w2 c)) = waits (c_send (w_chan w c)) \<union> (if c \<in> S \<union> S' then {p} else {})" for c
    using assms by (auto simp: entered_def)
  moreover have "waits (c_recv (w_chan w2 c)) = waits (c_recv (w_chan w c)) \<union> (if c \<in> R \<union> R' then {p} else {})" for c
    using assms by (auto simp: entered_def)
  ultimately show ?thesis using assms by (simp add: entered_def)
qed

lemma entered_ok: "entered p S R w w' \<Longrightarrow> queues_ok w'"
  by (simp add: entered_def)

lemma cqadd_error: "q_ok q \<Longrightarrow> cqadd q p ms = Inl e \<Longrightarrow> e = Raise exNomem"
  by (cases q) (auto simp: q_ok_def cqadd_def qprog_def split: if_splits list.splits)

lemma add_recv_ok:
  assumes "queues_ok w" "p \<notin> waits (c_recv (w_chan w c))"
  shows "add_recv c p w = Inl (Raise exNomem) \<or> (\<exists>w'. add_recv c p w = Inr w' \<and> entered p {} {c} w w')"
proof -
  have q: "q_ok (c_recv (w_chan w c))" using assms by (simp add: queues_ok_def)
  show ?thesis
  proof (cases "cqadd (c_recv (w_chan w c)) p (w_malloc w)")
    case (Inl e)
    then show ?thesis using cqadd_error [OF q] by (auto simp: add_recv_def)
  next
    case (Inr y)
    obtain q' ms where y: "y = (q', ms)" by fastforce
    have "q_ok q' \<and> waits q' = insert p (waits (c_recv (w_chan w c)))" using cqadd_ok [OF q assms(2)] Inr y by blast
    then show ?thesis using assms Inr y by (auto simp: add_recv_def entered_def same_buf_def set_recv_def set_chan_def queues_ok_def)
  qed
qed

lemma add_send_ok:
  assumes "queues_ok w" "p \<notin> waits (c_send (w_chan w c))"
  shows "add_send c p w = Inl (Raise exNomem) \<or> (\<exists>w'. add_send c p w = Inr w' \<and> entered p {c} {} w w')"
proof -
  have q: "q_ok (c_send (w_chan w c))" using assms by (simp add: queues_ok_def)
  show ?thesis
  proof (cases "cqadd (c_send (w_chan w c)) p (w_malloc w)")
    case (Inl e)
    then show ?thesis using cqadd_error [OF q] by (auto simp: add_send_def)
  next
    case (Inr y)
    obtain q' ms where y: "y = (q', ms)" by fastforce
    have "q_ok q' \<and> waits q' = insert p (waits (c_send (w_chan w c)))" using cqadd_ok [OF q assms(2)] Inr y by blast
    then show ?thesis using assms Inr y by (auto simp: add_send_def entered_def same_buf_def set_send_def set_chan_def queues_ok_def)
  qed
qed

section \<open>Ready arms\<close>

definition recv_ready :: "world \<Rightarrow> cid \<Rightarrow> bool" where "recv_ready w c \<longleftrightarrow> waits (c_send (w_chan w c)) \<noteq> {} \<or> CANGET (w_chan w c)"
definition send_ready :: "world \<Rightarrow> cid \<Rightarrow> bool" where "send_ready w c \<longleftrightarrow> waits (c_recv (w_chan w c)) \<noteq> {} \<or> CANPUT (w_chan w c)"

definition nready :: "(cid \<Rightarrow> bool) \<Rightarrow> cid list \<Rightarrow> nat" where "nready f cs = length (filter f cs)"

lemma nready_simps [simp]: "nready f [] = 0" "nready f (c # cs) = (if f c then 1 else 0) + nready f cs" "nready f (cs @ ds) = nready f cs + nready f ds"
  by (simp_all add: nready_def)

lemma nready_cong: "(\<And>c. c \<in> set cs \<Longrightarrow> f c = g c) \<Longrightarrow> nready f cs = nready g cs"
  unfolding nready_def by (metis filter_cong)

lemma can_recv_ok: "queues_ok w \<Longrightarrow> can_recv c w = Inr (recv_ready w c)"
  using qprog_ok [of "c_send (w_chan w c)"] by (auto simp: queues_ok_def can_recv_def recv_ready_def)

lemma can_send_ok: "queues_ok w \<Longrightarrow> can_send c w = Inr (send_ready w c)"
  using qprog_ok [of "c_recv (w_chan w c)"] by (auto simp: queues_ok_def can_send_def send_ready_def)

lemma entered_recv_ready: "entered p {} R w w' \<Longrightarrow> recv_ready w' c = recv_ready w c"
  unfolding entered_def recv_ready_def same_buf_def CANGET_def by simp

lemma entered_send_ready:
  assumes "entered p S R w w'" "c \<notin> R"
  shows "send_ready w' c = send_ready w c"
proof -
  have "c_buf (w_chan w' c) = c_buf (w_chan w c)" "c_size (w_chan w' c) = c_size (w_chan w c)" "waits (c_recv (w_chan w' c)) = waits (c_recv (w_chan w c))"
    using assms by (auto simp: entered_def same_buf_def)
  then show ?thesis by (simp add: send_ready_def CANPUT_def split: option.split)
qed

lemma altmark_ok:
  assumes "queues_ok w" "distinct (arm_chans cs)" "\<forall>c\<in>set (arm_chans cs). p \<notin> waits (c_recv (w_chan w c))"
  shows "altmark cs p k w = Inl (Raise exNomem) \<or>
    (\<exists>w'. altmark cs p k w = Inr (k + nready (recv_ready w) (arm_chans cs), w') \<and> entered p {} (set (arm_chans cs)) w w')"
  using assms
proof (induction cs arbitrary: k w)
  case Nil
  then show ?case by (auto intro: entered_refl)
next
  case (Cons x cs)
  show ?case
  proof (cases x)
    case None
    then show ?thesis using Cons by simp
  next
    case (Some c)
    note q = Cons.prems(1)
    show ?thesis
    proof (cases "add_recv c p w")
      case (Inl e)
      then show ?thesis using add_recv_ok [OF q, of p c] Cons.prems(3) Some by (auto simp: can_recv_ok [OF q])
    next
      case (Inr w1)
      then have e1: "entered p {} {c} w w1" using add_recv_ok [OF q, of p c] Cons.prems(3) Some by auto
      have d: "c \<notin> set (arm_chans cs)" "distinct (arm_chans cs)" using Cons.prems(2) Some by simp_all
      have o: "\<forall>d\<in>set (arm_chans cs). p \<notin> waits (c_recv (w_chan w1 d))" using Cons.prems(3) Some d(1) e1 by (auto simp: entered_def)
      have r: "recv_ready w1 = recv_ready w" using entered_recv_ready [OF e1] by blast
      show ?thesis
        using Cons.IH [OF entered_ok [OF e1] d(2) o, of "if recv_ready w c then k + 1 else k"] entered_trans [OF e1] Inr Some
        by (auto simp: can_recv_ok [OF q] r)
    qed
  qed
qed

definition nil_recv :: "(chanref \<times> loc) list \<Rightarrow> bool" where "nil_recv as \<longleftrightarrow> Chan None \<in> fst ` set as"
definition nil_send :: "(cid option \<times> loc) list \<Rightarrow> bool" where "nil_send as \<longleftrightarrow> None \<in> fst ` set as"

abbreviation recv_chans :: "(chanref \<times> loc) list \<Rightarrow> cid list" where "recv_chans as \<equiv> concat (map (\<lambda>a. ref_chans (fst a)) as)"
abbreviation send_chans :: "(cid option \<times> loc) list \<Rightarrow> cid list" where "send_chans as \<equiv> arm_chans (map fst as)"

lemma altrdy_recv_ok:
  assumes "queues_ok w" "distinct (recv_chans as)" "\<forall>c\<in>set (recv_chans as). p \<notin> waits (c_recv (w_chan w c))"
  shows "altrdy_recv as p e k w = Inl (Raise exNomem) \<or>
    (\<exists>w'. altrdy_recv as p e k w = Inr (if nil_recv as then Some exNilref else e, k + nready (recv_ready w) (recv_chans as), w') \<and>
      entered p {} (set (recv_chans as)) w w')"
  using assms
proof (induction as arbitrary: e k w)
  case Nil
  then show ?case by (auto simp: nil_recv_def intro: entered_refl)
next
  case (Cons x as)
  note q = Cons.prems(1)
  obtain r ptr where x: "x = (r, ptr)" by fastforce
  have step: ?case if m: "m = Inl (Raise exNomem) \<or> (\<exists>w1. m = Inr (k + nready (recv_ready w) (ref_chans r), w1) \<and> entered p {} (set (ref_chans r)) w w1)"
    and E: "altrdy_recv (x # as) p e k w = cbind m (\<lambda>(k, w). altrdy_recv as p e k w)" and nn: "r \<noteq> Chan None" for m
    using m
  proof
    assume "m = Inl (Raise exNomem)"
    then show ?thesis using E by simp
  next
    assume "\<exists>w1. m = Inr (k + nready (recv_ready w) (ref_chans r), w1) \<and> entered p {} (set (ref_chans r)) w w1"
    then obtain w1 where w1: "m = Inr (k + nready (recv_ready w) (ref_chans r), w1)" "entered p {} (set (ref_chans r)) w w1" by blast
    have d: "distinct (recv_chans as)" "set (ref_chans r) \<inter> set (recv_chans as) = {}" using Cons.prems(2) x by auto
    have o: "\<forall>c\<in>set (recv_chans as). p \<notin> waits (c_recv (w_chan w1 c))" using Cons.prems(3) w1(2) d(2) x by (auto simp: entered_def)
    have rr: "recv_ready w1 = recv_ready w" using entered_recv_ready [OF w1(2)] by blast
    have nr: "nil_recv ((r, ptr) # as) = nil_recv as" using nn by (auto simp: nil_recv_def)
    show ?thesis
      using Cons.IH [OF entered_ok [OF w1(2)] d(1) o, of e "k + nready (recv_ready w) (ref_chans r)"] entered_trans [OF w1(2)] E w1(1) x
      by (auto simp: rr nr add.assoc)
  qed
  consider "r = Chan None" | c where "r = Chan (Some c)" | cs where "r = Arr cs" by (metis chanref.exhaust option.exhaust)
  then show ?case
  proof cases
    case 1
    then show ?thesis using Cons.IH [of w "Some exNilref" k] Cons.prems x by (auto simp: ref_chans_def nil_recv_def)
  next
    case (2 c)
    have "p \<notin> waits (c_recv (w_chan w c))" using Cons.prems(3) 2 x by (simp add: ref_chans_def)
    then have "cbind (add_recv c p w) (\<lambda>w1. Inr (k + (if recv_ready w c then 1 else 0), w1)) = Inl (Raise exNomem) \<or>
      (\<exists>w1. cbind (add_recv c p w) (\<lambda>w1. Inr (k + (if recv_ready w c then 1 else 0), w1)) = Inr (k + (if recv_ready w c then 1 else 0), w1) \<and> entered p {} {c} w w1)"
      using add_recv_ok [OF q] by fastforce
    then show ?thesis using 2 x by (intro step [of "cbind (add_recv c p w) (\<lambda>w1. Inr (k + (if recv_ready w c then 1 else 0), w1))"])
        (simp_all add: ref_chans_def can_recv_ok [OF q] cbind_assoc)
  next
    case (3 cs)
    have "distinct (arm_chans cs)" "\<forall>c\<in>set (arm_chans cs). p \<notin> waits (c_recv (w_chan w c))" using Cons.prems(2,3) 3 x by (auto simp: ref_chans_def)
    then show ?thesis using altmark_ok [OF q, of cs p k] 3 x by (intro step [of "altmark cs p k w"]) (simp_all add: ref_chans_def)
  qed
qed

lemma altrdy_send_ok:
  assumes "queues_ok w" "distinct (send_chans as)" "\<forall>c\<in>set (send_chans as). p \<notin> waits (c_send (w_chan w c)) \<and> p \<notin> waits (c_recv (w_chan w c))"
  shows "altrdy_send as p e k w = Inl (Raise exNomem) \<or>
    (\<exists>w'. altrdy_send as p e k w = Inr (if nil_send as then Some exNilref else e, k + nready (send_ready w) (send_chans as), w') \<and>
      entered p (set (send_chans as)) {} w w')"
  using assms
proof (induction as arbitrary: e k w)
  case Nil
  then show ?case by (auto simp: nil_send_def intro: entered_refl)
next
  case (Cons x as)
  note q = Cons.prems(1)
  obtain r ptr where x: "x = (r, ptr)" by fastforce
  show ?case
  proof (cases r)
    case None
    then show ?thesis using Cons.IH [of w "Some exNilref" k] Cons.prems x by (auto simp: nil_send_def)
  next
    case (Some c)
    have p: "p \<notin> waits (c_send (w_chan w c))" "p \<notin> waits (c_recv (w_chan w c))" using Cons.prems(3) Some x by simp_all
    obtain y where y: "qprog (c_recv (w_chan w c)) = Inr y" "y \<noteq> Some p" using qprog_ok [of "c_recv (w_chan w c)"] q p(2) by (auto simp: queues_ok_def)
    have E: "altrdy_send (x # as) p e k w = cbind (add_send c p w) (altrdy_send as p e (k + (if send_ready w c then 1 else 0)))"
      using x Some y by (simp add: can_send_ok [OF q])
    show ?thesis
    proof (cases "add_send c p w")
      case (Inl e)
      then show ?thesis using add_send_ok [OF q p(1)] E by simp
    next
      case (Inr w1)
      then have e1: "entered p {c} {} w w1" using add_send_ok [OF q p(1)] by auto
      have d: "distinct (send_chans as)" "c \<notin> set (send_chans as)" using Cons.prems(2) x Some by auto
      have o: "\<forall>d\<in>set (send_chans as). p \<notin> waits (c_send (w_chan w1 d)) \<and> p \<notin> waits (c_recv (w_chan w1 d))"
        using Cons.prems(3) e1 d(2) x Some by (auto simp: entered_def)
      have rr: "send_ready w1 = send_ready w" using entered_send_ready [OF e1] by blast
      have nr: "nil_send ((Some c, ptr) # as) = nil_send as" by (auto simp: nil_send_def)
      show ?thesis
        using Cons.IH [OF entered_ok [OF e1] d(1) o, of e "k + (if send_ready w c then 1 else 0)"] entered_trans [OF e1] E Inr x Some
        by (auto simp: rr nr add.assoc)
    qed
  qed
qed

section \<open>The invariant within an alternation\<close>

lemma chan_ok_entered:
  assumes "chan_ok {} ch" "q_ok (c_send ch')" "q_ok (c_recv ch')" "same_buf ch ch'"
    "waits (c_send ch') - {p} \<subseteq> waits (c_send ch)" "waits (c_recv ch') - {p} \<subseteq> waits (c_recv ch)"
  shows "chan_ok {p} ch'"
proof -
  have "full ch' = full ch" "buf_ok ch' = buf_ok ch" "c_size ch' = c_size ch"
    using assms(4) by (simp_all add: same_buf_def buf_ok_def full_def split: option.split)
  moreover have "waits (c_send ch') - {p} \<noteq> {} \<Longrightarrow> waits (c_send ch) \<noteq> {}" "waits (c_recv ch') - {p} \<noteq> {} \<Longrightarrow> waits (c_recv ch) \<noteq> {}" using assms(5,6) by auto
  ultimately show ?thesis using assms(1,2,3) unfolding chan_ok_def by auto
qed

lemma entered_inv:
  assumes I: "world_inv None w" and p: "p \<in> set (w_run w)" and e: "entered p S R w w'"
  shows "world_inv (Some (p, S, R)) w'"
proof -
  have o: "out_of_queues p w" by (rule running_out [OF I p])
  have ws: "waits (c_send (w_chan w' c)) = waits (c_send (w_chan w c)) \<union> (if c \<in> S then {p} else {})"
    "waits (c_recv (w_chan w' c)) = waits (c_recv (w_chan w c)) \<union> (if c \<in> R then {p} else {})"
    "same_buf (w_chan w c) (w_chan w' c)" "q_ok (c_send (w_chan w' c))" "q_ok (c_recv (w_chan w' c))" for c
    using e unfolding entered_def queues_ok_def by blast+
  have rn: "w_run w' = w_run w" "w_prog w' = w_prog w" using e by (simp_all add: entered_def)
  have "chan_ok {p} (w_chan w' c)" for c
  proof (rule chan_ok_entered)
    show "chan_ok {} (w_chan w c)" using inv_chan_ok [OF I, of c] by (simp add: ghost_def)
  qed (use ws [of c] in auto)
  moreover have "linked {p} w'" using I unfolding world_inv_def linked_def ghost_def ws(1,2) rn by auto
  moreover have "marked (Some (p, S, R)) w'" using o p unfolding marked_def ws(1,2) rn out_of_queues_def by auto
  ultimately show ?thesis using I rn by (simp add: world_inv_def ghost_def run_ok_def)
qed

lemma unmark_inv:
  assumes I: "world_inv (Some (p, S, R)) w" and L: "left_queues p S R w w'"
  shows "world_inv None w'"
proof -
  have M: "p \<in> waits (c_send (w_chan w c)) \<Longrightarrow> c \<in> S" "p \<in> waits (c_recv (w_chan w c)) \<Longrightarrow> c \<in> R" for c
    using I unfolding world_inv_def marked_def by blast+
  have ws: "waits (c_send (w_chan w' c)) = waits (c_send (w_chan w c)) - {p}" "waits (c_recv (w_chan w' c)) = waits (c_recv (w_chan w c)) - {p}"
    "same_buf (w_chan w c) (w_chan w' c)" "q_ok (c_send (w_chan w' c))" "q_ok (c_recv (w_chan w' c))" for c
    using L M [of c] unfolding left_queues_def queues_ok_def by (auto split: if_splits)
  have rn: "w_run w' = w_run w" using L by (simp add: left_queues_def)
  have st: "g_state (w_prog w' x) = g_state (w_prog w x)" "g_chan (w_prog w' x) = g_chan (w_prog w x)" "g_alt (w_prog w' x) = g_alt (w_prog w x)" for x
    using L by (auto simp: left_queues_def same_prog_def)
  have "chan_ok {} (w_chan w' c)" for c
  proof -
    have "full (w_chan w' c) = full (w_chan w c)" "buf_ok (w_chan w' c) = buf_ok (w_chan w c)" "c_size (w_chan w' c) = c_size (w_chan w c)"
      using ws(3) [of c] by (simp_all add: same_buf_def buf_ok_def full_def split: option.split)
    then show ?thesis using inv_chan_ok [OF I, of c] ws(4,5) [of c] unfolding chan_ok_def ghost_def ws(1,2) by simp
  qed
  moreover have "linked {} w'" using I unfolding world_inv_def linked_def ghost_def ws(1,2) rn st by auto
  ultimately show ?thesis using I rn st by (simp add: world_inv_def ghost_def marked_def run_ok_def)
qed

text \<open>No arm is ready: the program waits in the queues of all of them.\<close>

lemma block_inv:
  assumes I: "world_inv (Some (p, set (sends a), set (recvs a))) w" and r: "w_run w = p # ps"
    and d: "set (sends a) \<inter> set (recvs a) = {}"
    and ns: "\<forall>c\<in>set (sends a). \<not> send_ready w c" and nr: "\<forall>c\<in>set (recvs a). \<not> recv_ready w c"
    and w': "w_run w' = ps" "w_chan w' = w_chan w" "w_prog w' = (w_prog w)(p := g)" "g_state g = Palt" "g_alt g = a"
  shows "world_inv None w'"
proof -
  have M: "p \<in> waits (c_send (w_chan w c)) \<Longrightarrow> c \<in> set (sends a)" "p \<in> waits (c_recv (w_chan w c)) \<Longrightarrow> c \<in> set (recvs a)" for c
    using I unfolding world_inv_def marked_def by blast+
  have "chan_ok {} (w_chan w c)" for c
  proof -
    have k: "chan_ok {p} (w_chan w c)" using inv_chan_ok [OF I, of c] by (simp add: ghost_def)
    consider "c \<in> set (sends a)" | "c \<in> set (recvs a)" | "c \<notin> set (sends a)" "c \<notin> set (recvs a)" by blast
    then show ?thesis
    proof cases
      case 1
      then have "waits (c_recv (w_chan w c)) = {}" "\<not> CANPUT (w_chan w c)" using ns by (auto simp: send_ready_def)
      then show ?thesis using k full_iff unfolding chan_ok_def by auto
    next
      case 2
      then have "waits (c_send (w_chan w c)) = {}" "c_size (w_chan w c) = 0" using nr by (auto simp: recv_ready_def CANGET_def)
      then show ?thesis using k unfolding chan_ok_def by auto
    next
      case 3
      then have "p \<notin> waits (c_send (w_chan w c))" "p \<notin> waits (c_recv (w_chan w c))" using M by blast+
      then show ?thesis using k unfolding chan_ok_def by simp
    qed
  qed
  moreover have "p \<notin> set ps" using I r by (simp add: world_inv_def run_ok_def)
  then have "linked {} w'"
    using I M r unfolding world_inv_def linked_def ghost_def w'(1,2,3) by (auto simp: w'(4,5))
  moreover have "run_ok w'" using I r unfolding world_inv_def run_ok_def w'(1,3) by auto
  ultimately show ?thesis using I r by (simp add: world_inv_def ghost_def marked_def w'(1,2))
qed

section \<open>The communication\<close>

text \<open>The second pass communicates on the ready arm whose number it is given.\<close>

lemma altcomm_send_ok:
  assumes "queues_ok w" "\<not> nil_send as"
  shows "if which < nready (send_ready w) (send_chans as)
    then \<exists>i<length as. \<exists>c ptr. as ! i = (Some c, ptr) \<and> send_ready w c \<and> altcomm_send as n which w =
      cbind (isend (Some c) (w\<lparr>w_mem := (w_mem w)(w_Rd w := WORD_elem (n + i)), w_Rs := ptr\<rparr>)) (\<lambda>w. Inr (Inr w))
    else altcomm_send as n which w = Inr (Inl (n + length as, which - nready (send_ready w) (send_chans as)))"
  using assms(2)
proof (induction as arbitrary: n which)
  case Nil
  then show ?case by simp
next
  case (Cons x as)
  obtain c ptr where x: "x = (Some c, ptr)" using Cons.prems by (cases x; cases "fst x") (auto simp: nil_send_def)
  have nn: "\<not> nil_send as" using Cons.prems by (simp add: nil_send_def)
  note s = can_send_ok [OF assms(1), of c]
  show ?case
  proof (cases "send_ready w c \<and> which = 0")
    case True
    then show ?thesis using x s by simp (rule exI [of _ 0], simp)
  next
    case False
    define k where "k = (if send_ready w c then which - 1 else which)"
    have e: "altcomm_send (x # as) n which w = altcomm_send as (n + 1) k w" using x s False by (auto simp: k_def)
    have l: "which < nready (send_ready w) (send_chans (x # as)) \<longleftrightarrow> k < nready (send_ready w) (send_chans as)"
      "which - nready (send_ready w) (send_chans (x # as)) = k - nready (send_ready w) (send_chans as)" using x False by (auto simp: k_def)
    show ?thesis
    proof (cases "k < nready (send_ready w) (send_chans as)")
      case True
      then obtain i d ptr' where i: "i < length as" "as ! i = (Some d, ptr')" "send_ready w d" "altcomm_send as (n + 1) k w =
        cbind (isend (Some d) (w\<lparr>w_mem := (w_mem w)(w_Rd w := WORD_elem (n + 1 + i)), w_Rs := ptr'\<rparr>)) (\<lambda>w. Inr (Inr w))"
        using Cons.IH [OF nn, of k "n + 1"] by auto
      show ?thesis unfolding l(1) e using True i by simp (rule exI [of _ "Suc i"], simp)
    next
      case k: False
      then show ?thesis unfolding l e using Cons.IH [OF nn, of k "n + 1"] by simp
    qed
  qed
qed

lemma altcomm_arr_ok:
  assumes "queues_ok w"
  shows "if which < nready (recv_ready w) (arm_chans cs)
    then \<exists>i<length cs. \<exists>c. cs ! i = Some c \<and> recv_ready w c \<and> altcomm_arr cs ptr n an which w =
      cbind (irecv (Some c) (w\<lparr>w_mem := (w_mem w)(w_Rd w := WORD_elem n, ptr := WORD_elem (an + i)), w_Rd := next_word ptr\<rparr>)) (\<lambda>w. Inr (Inr w))
    else altcomm_arr cs ptr n an which w = Inr (Inl (which - nready (recv_ready w) (arm_chans cs)))"
proof (induction cs arbitrary: an which)
  case Nil
  then show ?case by simp
next
  case (Cons x cs)
  show ?case
  proof (cases "\<exists>c. x = Some c \<and> recv_ready w c \<and> which = 0")
    case True
    then obtain c where "x = Some c" "recv_ready w c" "which = 0" by blast
    then show ?thesis using can_recv_ok [OF assms, of c] by simp (rule exI [of _ 0], simp)
  next
    case False
    define k where "k = (case x of Some c \<Rightarrow> if recv_ready w c then which - 1 else which | None \<Rightarrow> which)"
    have e: "altcomm_arr (x # cs) ptr n an which w = altcomm_arr cs ptr n (an + 1) k w"
      using False can_recv_ok [OF assms] by (cases x) (auto simp: k_def)
    have l: "which < nready (recv_ready w) (arm_chans (x # cs)) \<longleftrightarrow> k < nready (recv_ready w) (arm_chans cs)"
      "which - nready (recv_ready w) (arm_chans (x # cs)) = k - nready (recv_ready w) (arm_chans cs)" using False by (cases x; auto simp: k_def)+
    show ?thesis
    proof (cases "k < nready (recv_ready w) (arm_chans cs)")
      case True
      then obtain i d where i: "i < length cs" "cs ! i = Some d" "recv_ready w d" "altcomm_arr cs ptr n (an + 1) k w =
        cbind (irecv (Some d) (w\<lparr>w_mem := (w_mem w)(w_Rd w := WORD_elem n, ptr := WORD_elem (an + 1 + i)), w_Rd := next_word ptr\<rparr>)) (\<lambda>w. Inr (Inr w))"
        using Cons.IH [of k "an + 1"] by auto
      show ?thesis unfolding l(1) e using True i by simp (rule exI [of _ "Suc i"], simp)
    next
      case k: False
      then show ?thesis unfolding l e using Cons.IH [of k "an + 1"] by simp
    qed
  qed
qed

text \<open>A ready receiving arm \<open>i\<close>, numbered \<open>n\<close> in the alternation, and the state \<open>irecv\<close> is called in.\<close>

inductive recv_arm :: "(chanref \<times> loc) list \<Rightarrow> nat \<Rightarrow> world \<Rightarrow> cid \<Rightarrow> world \<Rightarrow> bool" for as n w where
  one: "i < length as \<Longrightarrow> as ! i = (Chan (Some c), ptr) \<Longrightarrow> recv_ready w c \<Longrightarrow>
    recv_arm as n w c (w\<lparr>w_mem := (w_mem w)(w_Rd w := WORD_elem (n + i)), w_Rd := ptr\<rparr>)"
| arr: "i < length as \<Longrightarrow> as ! i = (Arr cs, ptr) \<Longrightarrow> k < length cs \<Longrightarrow> cs ! k = Some c \<Longrightarrow> recv_ready w c \<Longrightarrow>
    recv_arm as n w c (w\<lparr>w_mem := (w_mem w)(w_Rd w := WORD_elem (n + i), ptr := WORD_elem k), w_Rd := next_word ptr\<rparr>)"

lemma recv_arm_Cons:
  assumes "recv_arm as (n + 1) w c w1"
  shows "recv_arm (x # as) n w c w1"
  using assms
proof cases
  case (one i ptr)
  then show ?thesis using recv_arm.one [of "Suc i" "x # as" c ptr w n] by simp
next
  case (arr i cs ptr k)
  then show ?thesis using recv_arm.arr [of "Suc i" "x # as" cs ptr k c w n] by simp
qed

lemma recv_arm_chan:
  assumes "recv_arm as n w c w1"
  shows "c \<in> set (recv_chans as) \<and> recv_ready w c"
  using assms
proof cases
  case (one i ptr)
  then show ?thesis using nth_mem [OF one(2)] by (auto simp: ref_chans_def intro!: bexI [of _ "as ! i"])
next
  case (arr i cs ptr k)
  have "Some c \<in> set cs" using arr by (metis nth_mem)
  then have "c \<in> set (arm_chans cs)" by (force simp: arm_chans_def)
  then show ?thesis using arr nth_mem [OF arr(2)] by (auto simp: ref_chans_def intro!: bexI [of _ "as ! i"])
qed

lemma altcomm_recv_ok:
  assumes "queues_ok w" "\<not> nil_recv as" "which < nready (recv_ready w) (recv_chans as)"
  shows "\<exists>c w1. recv_arm as n w c w1 \<and> altcomm_recv as n which w = irecv (Some c) w1"
  using assms(2,3)
proof (induction as arbitrary: n which)
  case Nil
  then show ?case by simp
next
  case (Cons x as)
  obtain r ptr where x: "x = (r, ptr)" by fastforce
  have nn: "\<not> nil_recv as" using Cons.prems by (simp add: nil_recv_def)
  have next_arm: ?case if "altcomm_recv (x # as) n which w = altcomm_recv as (n + 1) k w" "k < nready (recv_ready w) (recv_chans as)" for k
    using Cons.IH [OF nn that(2), of "n + 1"] that(1) recv_arm_Cons by metis
  consider c where "r = Chan (Some c)" | cs where "r = Arr cs" using Cons.prems(1) x by (cases r; cases "\<exists>c. r = Chan (Some c)") (auto simp: nil_recv_def)
  then show ?case
  proof cases
    case (1 c)
    show ?thesis
    proof (cases "recv_ready w c \<and> which = 0")
      case True
      then show ?thesis using recv_arm.one [of 0 "x # as" c ptr w n] 1 x can_recv_ok [OF assms(1), of c] by auto
    next
      case False
      have "altcomm_recv (x # as) n which w = altcomm_recv as (n + 1) (if recv_ready w c then which - 1 else which) w"
        using False 1 x can_recv_ok [OF assms(1), of c] by auto
      then show ?thesis by (rule next_arm) (use Cons.prems(2) False 1 x in \<open>auto simp: ref_chans_def split: if_splits\<close>)
    qed
  next
    case (2 cs)
    show ?thesis
    proof (cases "which < nready (recv_ready w) (arm_chans cs)")
      case True
      then obtain k c where k: "k < length cs" "cs ! k = Some c" "recv_ready w c" "altcomm_arr cs ptr n 0 which w =
        cbind (irecv (Some c) (w\<lparr>w_mem := (w_mem w)(w_Rd w := WORD_elem n, ptr := WORD_elem k), w_Rd := next_word ptr\<rparr>)) (\<lambda>w. Inr (Inr w))"
        using altcomm_arr_ok [OF assms(1), of which cs ptr n 0] by auto
      have "altcomm_recv (x # as) n which w = irecv (Some c) (w\<lparr>w_mem := (w_mem w)(w_Rd w := WORD_elem n, ptr := WORD_elem k), w_Rd := next_word ptr\<rparr>)"
        using k(4) 2 x by (simp add: cbind_assoc) (simp add: cbind_def split: sum.split)
      then show ?thesis using recv_arm.arr [of 0 "x # as" cs ptr k c w n] k(1-3) 2 x by auto
    next
      case False
      then have "altcomm_recv (x # as) n which w = altcomm_recv as (n + 1) (which - nready (recv_ready w) (arm_chans cs)) w"
        using altcomm_arr_ok [OF assms(1), of which cs ptr n 0] 2 x by simp
      then show ?thesis by (rule next_arm) (use Cons.prems(2) False 2 x in \<open>auto simp: ref_chans_def\<close>)
    qed
  qed
qed

text \<open>The arms of an alternation name distinct channels, and none both to send and to receive.\<close>

definition alt_ok :: "alt \<Rightarrow> bool" where
  "alt_ok a \<longleftrightarrow> distinct (sends a) \<and> distinct (recvs a) \<and> set (sends a) \<inter> set (recvs a) = {}"

definition alt_nil :: "alt \<Rightarrow> bool" where "alt_nil a \<longleftrightarrow> nil_recv (a_recv a) \<or> nil_send (a_send a)"

definition arms_ready :: "alt \<Rightarrow> world \<Rightarrow> nat" where
  "arms_ready a w = nready (recv_ready w) (recvs a) + nready (send_ready w) (sends a)"

inductive comm :: "alt \<Rightarrow> world \<Rightarrow> world \<Rightarrow> bool" for a w where
  send: "i < length (a_send a) \<Longrightarrow> a_send a ! i = (Some c, ptr) \<Longrightarrow> send_ready w c \<Longrightarrow>
    isend (Some c) (w\<lparr>w_mem := (w_mem w)(w_Rd w := WORD_elem i), w_Rs := ptr\<rparr>) = Inr w' \<Longrightarrow> comm a w w'"
| recv: "recv_arm (a_recv a) (length (a_send a)) w c w1 \<Longrightarrow> irecv (Some c) w1 = Inr w' \<Longrightarrow> comm a w w'"

lemma send_chan_mem:
  assumes "i < length as" "as ! i = (Some c, ptr)"
  shows "c \<in> set (send_chans as)"
proof -
  have "(Some c, ptr) \<in> set as" using assms by (metis nth_mem)
  then show ?thesis by (force simp: arm_chans_def)
qed

lemma altcomm_ok:
  assumes I: "world_inv (Some (p, S, R)) w" and nn: "\<not> alt_nil a" and SR: "S \<inter> R = {}" "set (sends a) = S" "set (recvs a) = R"
    and which: "which < arms_ready a w"
  shows "\<exists>w'. altcomm a which w = Inr w' \<and> world_inv (Some (p, S, R)) w' \<and> set (w_run w) \<subseteq> set (w_run w') \<and> comm a w w'"
proof -
  note q = world_inv_queues [OF I]
  have nil: "\<not> nil_send (a_send a)" "\<not> nil_recv (a_recv a)" using nn by (simp_all add: alt_nil_def)
  have M: "waits (c_recv (w_chan w c)) \<inter> ghost (Some (p, S, R)) = {}" if "c \<in> S" for c
    using I SR(1) that unfolding world_inv_def marked_def ghost_def by auto
  have M': "waits (c_send (w_chan w c)) \<inter> ghost (Some (p, S, R)) = {}" if "c \<in> R" for c
    using I SR(1) that unfolding world_inv_def marked_def ghost_def by auto
  note A = altcomm_send_ok [OF q nil(1), of which 0, folded sends_def]
  show ?thesis
  proof (cases "which < nready (send_ready w) (sends a)")
    case True
    then obtain i c ptr where i: "i < length (a_send a)" "a_send a ! i = (Some c, ptr)" "send_ready w c" "altcomm_send (a_send a) 0 which w =
      cbind (isend (Some c) (w\<lparr>w_mem := (w_mem w)(w_Rd w := WORD_elem i), w_Rs := ptr\<rparr>)) (\<lambda>w. Inr (Inr w))" using A by auto
    define w1 where "w1 = w\<lparr>w_mem := (w_mem w)(w_Rd w := WORD_elem i), w_Rs := ptr\<rparr>"
    have I1: "world_inv (Some (p, S, R)) w1" by (rule world_inv_cong [OF I]) (simp_all add: w1_def same_prog_def)
    have c: "c \<in> S" using send_chan_mem [OF i(1,2)] SR(2) by (simp add: sends_def)
    obtain w' where w': "isend (Some c) w1 = Inr w'" "world_inv (Some (p, S, R)) w'" "set (w_run w1) \<subseteq> set (w_run w')"
      using isend_ready [OF I1, of c] M [OF c] i(3) by (auto simp: w1_def send_ready_def)
    have "comm a w w'" using comm.send [OF i(1-3)] w'(1) by (simp add: w1_def)
    moreover have "altcomm a which w = Inr w'" using i(4) w'(1) by (simp add: altcomm_def w1_def)
    ultimately show ?thesis using w' by (simp add: w1_def)
  next
    case False
    define k where "k = which - nready (send_ready w) (sends a)"
    have "altcomm a which w = altcomm_recv (a_recv a) (length (a_send a)) k w" using A False by (simp add: altcomm_def k_def)
    moreover have "k < nready (recv_ready w) (recv_chans (a_recv a))" using which False by (simp add: arms_ready_def k_def recvs_def)
    ultimately obtain c w1 where r: "recv_arm (a_recv a) (length (a_send a)) w c w1" "altcomm a which w = irecv (Some c) w1"
      using altcomm_recv_ok [OF q nil(2)] by metis
    have c: "c \<in> R" "recv_ready w c" using recv_arm_chan [OF r(1)] SR(3) by (auto simp: recvs_def)
    have w1: "w_chan w1 = w_chan w" "w_run w1 = w_run w" "w_prog w1 = w_prog w" using r(1) by (cases; simp)+
    have I1: "world_inv (Some (p, S, R)) w1" by (rule world_inv_cong [OF I]) (simp_all add: w1 same_prog_def)
    obtain w' where w': "irecv (Some c) w1 = Inr w'" "world_inv (Some (p, S, R)) w'" "set (w_run w1) \<subseteq> set (w_run w')"
      using irecv_ready [OF I1, of c] M' [OF c(1)] c(2) by (auto simp: w1 recv_ready_def)
    show ?thesis using r(2) w' comm.recv [OF r(1) w'(1)] by (simp add: w1)
  qed
qed

lemma altrdy_ok:
  assumes I: "world_inv None w" and p: "p \<in> set (w_run w)" and a: "alt_ok a"
  shows "altrdy a p w = Inl (Raise exNomem) \<or>
    (alt_nil a \<and> (\<exists>k w'. altrdy a p w = Inr (Some exNilref, k, w') \<and> world_inv None w' \<and> w_run w' = w_run w)) \<or>
    (\<not> alt_nil a \<and> (\<exists>w'. altrdy a p w = Inr (None, arms_ready a w, w') \<and> entered p (set (sends a)) (set (recvs a)) w w'))"
proof -
  note q = world_inv_queues [OF I]
  have o: "p \<notin> waits (c_send (w_chan w c))" "p \<notin> waits (c_recv (w_chan w c))" for c
    using running_out [OF I p] by (auto simp: out_of_queues_def)
  have a': "distinct (recv_chans (a_recv a))" "distinct (send_chans (a_send a))" "set (send_chans (a_send a)) \<inter> set (recv_chans (a_recv a)) = {}"
    using a by (simp_all add: alt_ok_def sends_def recvs_def)
  consider "altrdy_recv (a_recv a) p None 0 w = Inl (Raise exNomem)"
    | w1 where "altrdy_recv (a_recv a) p None 0 w = Inr (if nil_recv (a_recv a) then Some exNilref else None, nready (recv_ready w) (recv_chans (a_recv a)), w1)"
      "entered p {} (set (recv_chans (a_recv a))) w w1"
    using altrdy_recv_ok [OF q a'(1), of p None 0] o(2) by auto
  then show ?thesis
  proof cases
    case 1
    then show ?thesis by (simp add: altrdy_def)
  next
    case (2 w1)
    note e1 = 2(2)
    let ?e = "if nil_recv (a_recv a) then Some exNilref else None" and ?k = "nready (recv_ready w) (recv_chans (a_recv a))"
    have o1: "\<forall>c\<in>set (send_chans (a_send a)). p \<notin> waits (c_send (w_chan w1 c)) \<and> p \<notin> waits (c_recv (w_chan w1 c))"
      using e1 o a'(3) unfolding entered_def by auto
    have sr: "nready (send_ready w1) (send_chans (a_send a)) = nready (send_ready w) (send_chans (a_send a))"
      by (rule nready_cong) (use entered_send_ready [OF e1] a'(3) in auto)
    consider "altrdy_send (a_send a) p ?e ?k w1 = Inl (Raise exNomem)"
      | w2 where "altrdy_send (a_send a) p ?e ?k w1 = Inr (if nil_send (a_send a) then Some exNilref else ?e, arms_ready a w, w2)"
        "entered p (set (send_chans (a_send a))) {} w1 w2"
      using altrdy_send_ok [OF entered_ok [OF e1] a'(2) o1, of ?e ?k] by (auto simp: sr arms_ready_def sends_def recvs_def)
    then show ?thesis
    proof cases
      case 1
      then show ?thesis using 2 by (simp add: altrdy_def)
    next
      case s: (2 w2)
      have e2: "entered p (set (sends a)) (set (recvs a)) w w2" using entered_trans [OF e1 s(2)] by (simp add: sends_def recvs_def)
      show ?thesis
      proof (cases "alt_nil a")
        case True
        obtain w3 where w3: "altdone a p None (- 1) w2 = Inr w3" "left_queues p (set (sends a)) (set (recvs a)) w2 w3"
          using altdone_ok [OF entered_ok [OF e2]] by blast
        have "world_inv None w3" by (rule unmark_inv [OF entered_inv [OF I p e2] w3(2)])
        moreover have "w_run w3 = w_run w" using w3(2) e2 by (simp add: left_queues_def entered_def)
        moreover have "altrdy a p w = Inr (Some exNilref, arms_ready a w, w3)" using 2 s w3 True by (auto simp: altrdy_def alt_nil_def)
        ultimately show ?thesis using True by blast
      next
        case False
        then show ?thesis using 2 s e2 by (simp add: altrdy_def alt_nil_def)
      qed
    qed
  qed
qed

section \<open>The instruction\<close>

lemma entered_arms_ready:
  assumes "entered p (set (sends a)) (set (recvs a)) w w'" "set (sends a) \<inter> set (recvs a) = {}"
  shows "c \<in> set (recvs a) \<Longrightarrow> recv_ready w' c = recv_ready w c" "c \<in> set (sends a) \<Longrightarrow> send_ready w' c = send_ready w c"
proof -
  show "send_ready w' c = send_ready w c" if "c \<in> set (sends a)" using entered_send_ready [OF assms(1)] assms(2) that by blast
  show "recv_ready w' c = recv_ready w c" if c: "c \<in> set (recvs a)"
  proof -
    have "c \<notin> set (sends a)" using assms(2) c by blast
    then show ?thesis using assms(1) unfolding entered_def recv_ready_def same_buf_def CANGET_def by simp
  qed
qed

lemma arms_ready_zero: "arms_ready a w = 0 \<longleftrightarrow> (\<forall>c\<in>set (recvs a). \<not> recv_ready w c) \<and> (\<forall>c\<in>set (sends a). \<not> send_ready w c)"
  by (auto simp: arms_ready_def nready_def filter_empty_conv)

lemma arms_ready_cong:
  assumes "\<forall>c\<in>set (recvs a). recv_ready w' c = recv_ready w c" "\<forall>c\<in>set (sends a). send_ready w' c = send_ready w c"
  shows "arms_ready a w' = arms_ready a w"
  using assms nready_cong [of "recvs a" "recv_ready w'" "recv_ready w"] nready_cong [of "sends a" "send_ready w'" "send_ready w"]
  by (simp add: arms_ready_def)

lemma xecalt_block:
  assumes I: "world_inv None w" and r: "w_run w = p # ps" and a: "alt_ok a" and z: "arms_ready a w = 0"
    and e: "entered p (set (sends a)) (set (recvs a)) w w1" "altrdy a p w = Inr (None, arms_ready a w, w1)"
  shows "\<exists>w'. xecalt a True w = Inr (Inr w') \<and> world_inv None w' \<and> w_run w' = ps"
proof -
  define w' where "w' = (set_prog p ((w_prog w1 p)\<lparr>g_state := Palt, g_alt := a, g_Rd := w_Rd w1\<rparr>) w1)\<lparr>w_run := ps, w_IC := 1, w_t := 1\<rparr>"
  have r1: "w_run w1 = p # ps" using e(1) r by (simp add: entered_def)
  have "xecalt a True w = Inr (Inr w')"
    using e(2) z r r1 by (simp add: xecalt_def currun_def delrun_def w'_def set_prog_def)
  moreover have "world_inv None w'"
  proof (rule block_inv [where g = "(w_prog w1 p)\<lparr>g_state := Palt, g_alt := a, g_Rd := w_Rd w1\<rparr>"])
    show "world_inv (Some (p, set (sends a), set (recvs a))) w1" using entered_inv [OF I _ e(1)] r by simp
    show "set (sends a) \<inter> set (recvs a) = {}" using a by (simp add: alt_ok_def)
    then show "\<forall>c\<in>set (sends a). \<not> send_ready w1 c" "\<forall>c\<in>set (recvs a). \<not> recv_ready w1 c"
      using entered_arms_ready [OF e(1)] z unfolding arms_ready_zero by blast+
  qed (simp_all add: w'_def set_prog_def r1)
  ultimately show ?thesis by (simp add: w'_def)
qed

lemma xecalt_poll:
  assumes I: "world_inv None w" and r: "w_run w = p # ps" and z: "arms_ready a w = 0"
    and e: "entered p (set (sends a)) (set (recvs a)) w w1" "altrdy a p w = Inr (None, arms_ready a w, w1)"
  shows "\<exists>w'. xecalt a False w = Inr (Inr w') \<and> world_inv None w' \<and> w_run w' = p # ps"
proof -
  let ?w = "w1\<lparr>w_mem := (w_mem w1)(w_Rd w1 := WORD_elem (length (a_send a) + length (a_recv a)))\<rparr>"
  have I1: "world_inv (Some (p, set (sends a), set (recvs a))) w1" using entered_inv [OF I _ e(1)] r by simp
  have I2: "world_inv (Some (p, set (sends a), set (recvs a))) ?w" by (rule world_inv_cong [OF I1]) (simp_all add: same_prog_def)
  obtain w' where w': "altdone a p None (- 1) ?w = Inr w'" "left_queues p (set (sends a)) (set (recvs a)) ?w w'"
    using altdone_ok [OF world_inv_queues [OF I2]] by blast
  have "xecalt a False w = Inr (Inr w')" using e(2) z r w'(1) by (simp add: xecalt_def currun_def)
  moreover have "w_run w' = p # ps" using w'(2) e(1) r by (simp add: left_queues_def entered_def)
  ultimately show ?thesis using unmark_inv [OF I2 w'(2)] by blast
qed

lemma xecalt_comm:
  assumes I: "world_inv None w" and r: "w_run w = p # ps" and a: "alt_ok a" "\<not> alt_nil a" and z: "arms_ready a w > 0"
    and e: "entered p (set (sends a)) (set (recvs a)) w w1" "altrdy a p w = Inr (None, arms_ready a w, w1)"
  shows "\<exists>w2 w'. xecalt a block w = Inr (Inr w') \<and> world_inv None w' \<and> p \<in> set (w_run w') \<and>
    comm a (w1\<lparr>w_xrand := w_xrand w1 * 1103515245 + 12345\<rparr>) w2 \<and> left_queues p (set (sends a)) (set (recvs a)) w2 w'"
proof -
  let ?x = "w_xrand w1 * 1103515245 + 12345"
  let ?w = "w1\<lparr>w_xrand := ?x\<rparr>" and ?m = "Some (p, set (sends a), set (recvs a))"
  have d: "set (sends a) \<inter> set (recvs a) = {}" using a by (simp add: alt_ok_def)
  have I1: "world_inv ?m w1" using entered_inv [OF I _ e(1)] r by simp
  have I2: "world_inv ?m ?w" by (rule world_inv_cong [OF I1]) (simp_all add: same_prog_def)
  have "arms_ready a ?w = arms_ready a w1" by (simp add: arms_ready_def recv_ready_def [abs_def] send_ready_def [abs_def])
  also have "\<dots> = arms_ready a w" by (rule arms_ready_cong) (use entered_arms_ready [OF e(1) d] in blast)+
  finally have "unat (drop_bit 8 ?x) mod arms_ready a w < arms_ready a ?w" using z by simp
  then obtain w2 where w2: "altcomm a (unat (drop_bit 8 ?x) mod arms_ready a w) ?w = Inr w2" "world_inv ?m w2" "set (w_run ?w) \<subseteq> set (w_run w2)" "comm a ?w w2"
    using altcomm_ok [OF I2 a(2) d] by blast
  obtain w' where w': "altdone a p None (- 1) w2 = Inr w'" "left_queues p (set (sends a)) (set (recvs a)) w2 w'"
    using altdone_ok [OF world_inv_queues [OF w2(2)]] by blast
  have "xecalt a block w = Inr (Inr w')" using e(2) z r w2(1) w'(1) by (simp add: xecalt_def currun_def Let_def)
  moreover have "p \<in> set (w_run w')" using w'(2) w2(3) e(1) r by (auto simp: left_queues_def entered_def)
  ultimately show ?thesis using unmark_inv [OF w2(2) w'(2)] w2(4) w'(2) by blast
qed

lemma xecalt_step:
  assumes I: "world_inv None w" and r: "w_run w = p # ps" and a: "alt_ok a"
  shows "xecalt a block w = Inl (Raise exNomem) \<or>
    (\<exists>w'. (xecalt a block w = Inr (Inl (exNilref, w')) \<and> alt_nil a \<or> xecalt a block w = Inr (Inr w') \<and> \<not> alt_nil a) \<and> world_inv None w' \<and>
      (arms_ready a w > 0 \<or> \<not> block \<or> alt_nil a \<longleftrightarrow> p \<in> set (w_run w')))"
proof -
  have p: "p \<in> set (w_run w)" "p \<notin> set ps" using r I by (auto simp: world_inv_def run_ok_def)
  consider "altrdy a p w = Inl (Raise exNomem)"
    | k w' where "alt_nil a" "altrdy a p w = Inr (Some exNilref, k, w')" "world_inv None w'" "w_run w' = w_run w"
    | w1 where "\<not> alt_nil a" "altrdy a p w = Inr (None, arms_ready a w, w1)" "entered p (set (sends a)) (set (recvs a)) w w1"
    using altrdy_ok [OF I p(1) a] by blast
  then show ?thesis
  proof cases
    case 1
    then show ?thesis using r by (simp add: xecalt_def currun_def)
  next
    case (2 k w')
    then show ?thesis using r by (simp add: xecalt_def currun_def)
  next
    case (3 w1)
    show ?thesis
    proof (cases "arms_ready a w = 0")
      case True
      then show ?thesis using xecalt_block [OF I r a True 3(3,2)] xecalt_poll [OF I r True 3(3,2)] 3(1) p(2) by (cases block) auto
    next
      case False
      then show ?thesis using xecalt_comm [OF I r a 3(1) _ 3(3,2)] 3(1) by blast
    qed
  qed
qed

end
