(* ===== verification/Dis_Chan_Run.thy ===== *)
theory Dis_Chan_Run
  imports Dis_Chan_Alt
begin

text \<open>
  The runs of the virtual machine as far as channels see them: programs send, receive and alternate, a device of the
  emulator sends, an exception takes a program out of its queues, and between these anything that neither
  touches channels nor the programs waiting on them.
\<close>

section \<open>The other operations keep the invariant\<close>

lemma csendalt_step:
  assumes I: "world_inv None w"
    and len: "waits (c_recv (w_chan w c)) = {} \<and> c_buf (w_chan w c) = None \<Longrightarrow> 0 < len \<and> waits (c_send (w_chan w c)) = {}"
  shows "\<exists>w' b. csendalt (Some c) ip len w = Inr (w', b) \<and> world_inv None w' \<and>
    (b \<longleftrightarrow> \<not> (waits (c_recv (w_chan w c)) = {} \<and> c_buf (w_chan w c) \<noteq> None \<and> full (w_chan w c)))"
proof -
  obtain x where x: "qprog (c_recv (w_chan w c)) = Inr x" "x = None \<longleftrightarrow> waits (c_recv (w_chan w c)) = {}"
    using qprog_ok [of "c_recv (w_chan w c)"] world_inv_queues [OF I] by (auto simp: queues_ok_def)
  have k: "chan_ok {} (w_chan w c)" using inv_chan_ok [OF I, of c] by (simp add: ghost_def)
  define send where "send = (\<lambda>w. cbind (isend (Some c) (w\<lparr>w_Rs := ip\<rparr>)) (\<lambda>w1.
    Inr (w1\<lparr>w_Rs := w_Rs w, w_Rd := w_Rd w, w_IC := w_IC w, w_t := w_t w\<rparr>, True)))"
  have S: "\<exists>w'. send u = Inr (w', True) \<and> world_inv None w'"
    if u: "world_inv None u" "waits (c_recv (w_chan u c)) \<noteq> {} \<or> CANPUT (w_chan u c)" for u
  proof -
    have "world_inv None (u\<lparr>w_Rs := ip\<rparr>)" by (rule world_inv_cong [OF u(1)]) (simp_all add: same_prog_def)
    then obtain u' where u': "isend (Some c) (u\<lparr>w_Rs := ip\<rparr>) = Inr u'" "world_inv None u'"
      using isend_ready [of None "u\<lparr>w_Rs := ip\<rparr>" c] u(2) by (auto simp: ghost_def)
    have "world_inv None (u'\<lparr>w_Rs := w_Rs u, w_Rd := w_Rd u, w_IC := w_IC u, w_t := w_t u\<rparr>)"
      by (rule world_inv_cong [OF u'(2)]) (simp_all add: same_prog_def)
    then show ?thesis using u'(1) by (simp add: send_def)
  qed
  have D: "csendalt (Some c) ip len w =
    (if x = None \<and> full (w_chan w c) then if c_buf (w_chan w c) \<noteq> None then Inr (w, False)
       else send (set_chan c ((w_chan w c)\<lparr>c_buf := Some len\<rparr>) w) else send w)"
    using x(1) by (simp add: csendalt_def send_def Let_def full_def)
  consider "x = None" "full (w_chan w c)" "c_buf (w_chan w c) \<noteq> None" | "x = None" "c_buf (w_chan w c) = None" | "x \<noteq> None \<or> \<not> full (w_chan w c)" by blast
  then show ?thesis
  proof cases
    case 1
    then show ?thesis using D x(2) I by (auto intro: exI [of _ False])
  next
    case 2
    let ?ch = "(w_chan w c)\<lparr>c_buf := Some len\<rparr>" and ?w = "set_chan c ((w_chan w c)\<lparr>c_buf := Some len\<rparr>) w"
    have l: "0 < len" "waits (c_send (w_chan w c)) = {}" "waits (c_recv (w_chan w c)) = {}" using len 2 x(2) by auto
    have "chan_ok {} ?ch" using k 2(2) l by (simp add: chan_ok_def buf_ok_def)
    then have "world_inv None ?w" using inv_chan_ok [OF I]
      by (intro world_inv_buf [OF I]) (auto simp: set_chan_def same_prog_def ghost_def)
    moreover have "CANPUT (w_chan ?w c)" using k 2(2) l(1) by (simp add: set_chan_def CANPUT_def chan_ok_def buf_ok_def)
    moreover have "full (w_chan w c)" using 2(2) by (simp add: full_def)
    ultimately show ?thesis using S [of ?w] D 2 by auto
  next
    case 3
    then have "waits (c_recv (w_chan w c)) \<noteq> {} \<or> CANPUT (w_chan w c)" using x(2) k full_iff unfolding chan_ok_def by blast
    then show ?thesis using S [OF I] D 3 x(2) by auto
  qed
qed

lemma exprog_leave_ok:
  assumes I: "world_inv None w" and c: "g_state (w_prog w p) \<in> {Psend, Precv} \<Longrightarrow> g_chan (w_prog w p) \<noteq> None"
  shows "\<exists>w'. exprog_leave p w = Inr w' \<and> left_queues p UNIV UNIV w w'"
proof -
  note q = world_inv_queues [OF I]
  have lk: "p \<in> waits (c_send (w_chan w d)) \<Longrightarrow> g_state (w_prog w p) = Psend \<and> g_chan (w_prog w p) = Some d \<or> g_state (w_prog w p) = Palt \<and> d \<in> set (sends (g_alt (w_prog w p)))"
    "p \<in> waits (c_recv (w_chan w d)) \<Longrightarrow> g_state (w_prog w p) = Precv \<and> g_chan (w_prog w p) = Some d \<or> g_state (w_prog w p) = Palt \<and> d \<in> set (recvs (g_alt (w_prog w p)))" for d
    using I unfolding world_inv_def linked_def ghost_def by auto
  consider "g_state (w_prog w p) = Palt" | d where "g_state (w_prog w p) = Psend" "g_chan (w_prog w p) = Some d"
    | d where "g_state (w_prog w p) = Precv" "g_chan (w_prog w p) = Some d" | "\<not> waiting (g_state (w_prog w p))"
    using c by (auto simp: waiting_def)
  then show ?thesis
  proof cases
    case 1
    obtain w' where w': "altdone (g_alt (w_prog w p)) p None (- 1) w = Inr w'" "left_queues p (set (sends (g_alt (w_prog w p)))) (set (recvs (g_alt (w_prog w p)))) w w'"
      using altdone_ok [OF q] by blast
    have "left_queues p UNIV UNIV w w'" by (rule left_queues_all [OF w'(2)]) (use lk 1 in auto)
    then show ?thesis using 1 w'(1) by (simp add: exprog_leave_def)
  next
    case (2 d)
    obtain q' where q': "cqdelp (c_send (w_chan w d)) p = Inr q'" "q_ok q'" "waits q' = waits (c_send (w_chan w d)) - {p}"
      "wlist q' = filter (\<lambda>x. x \<noteq> p) (wlist (c_send (w_chan w d)))" using cqdelp_ok q unfolding queues_ok_def by blast
    have l: "left_queues p {d} {} w (set_send d q' w)" using q q'(2-4)
      by (auto simp: left_queues_def set_send_def set_chan_def same_buf_def same_prog_def queues_ok_def)
    have "left_queues p UNIV UNIV w (set_send d q' w)" by (rule left_queues_all [OF l]) (use lk 2 in auto)
    then show ?thesis using 2 q'(1) by (simp add: exprog_leave_def)
  next
    case (3 d)
    obtain q' where q': "cqdelp (c_recv (w_chan w d)) p = Inr q'" "q_ok q'" "waits q' = waits (c_recv (w_chan w d)) - {p}"
      using cqdelp_ok q unfolding queues_ok_def by blast
    have l: "left_queues p {} {d} w (set_recv d q' w)" using q q'(2-3)
      by (auto simp: left_queues_def set_recv_def set_chan_def same_buf_def same_prog_def queues_ok_def)
    have "left_queues p UNIV UNIV w (set_recv d q' w)" by (rule left_queues_all [OF l]) (use lk 3 in auto)
    then show ?thesis using 3 q'(1) by (simp add: exprog_leave_def)
  next
    case 4
    have "left_queues p UNIV UNIV w w" by (rule left_queues_all [OF left_queues_refl [OF q]]) (use lk 4 in \<open>auto simp: waiting_def\<close>)
    then show ?thesis using 4 by (cases "g_state (w_prog w p)") (simp_all add: exprog_leave_def waiting_def)
  qed
qed

lemma exprog_kill_ok: "\<exists>w'. exprog_kill p e w = Inr w' \<and> w_chan w' = w_chan w \<and> w_run w' = w_run w \<and> w_mem w' = w_mem w \<and> (\<forall>x. same_prog (w_prog w x) (w_prog w' x))
    \<and> g_kill (w_prog w' p) \<noteq> None"
  by (auto simp: exprog_kill_def set_prog_def same_prog_def Let_def split: list.split)

lemma exprog_step:
  assumes I: "world_inv None w" and c: "g_state (w_prog w p) \<in> {Psend, Precv} \<Longrightarrow> g_chan (w_prog w p) \<noteq> None"
  shows "\<exists>w' b. exprog p e w = Inr (w', b) \<and> world_inv None w' \<and> (b \<longrightarrow> out_of_queues p w' \<and> g_kill (w_prog w' p) \<noteq> None)"
proof (cases "g_state (w_prog w p) \<in> {Pexiting, Pbroken, Pdebug}")
  case True
  then show ?thesis using I by (auto simp: exprog_def)
next
  case False
  obtain w1 where w1: "exprog_leave p w = Inr w1" "left_queues p UNIV UNIV w w1" using exprog_leave_ok [OF I c] by blast
  have I1: "world_inv None w1" using leave_all [OF I w1(2)] by (simp add: ghost_def)
  have st: "g_state (w_prog w1 p) = g_state (w_prog w p)" "w_run w1 = w_run w" using w1(2) by (auto simp: left_queues_def same_prog_def)
  have o: "out_of_queues p w1" by (rule left_all_out [OF w1(2)])
  define w2 where "w2 = (if g_state (w_prog w1 p) \<noteq> Pready \<and> g_state (w_prog w1 p) \<noteq> Prelease then addrun p w1 else w1)"
  have I2: "world_inv None w2"
  proof (cases "g_state (w_prog w1 p) \<noteq> Pready \<and> g_state (w_prog w1 p) \<noteq> Prelease")
    case True
    then have "waiting (g_state (w_prog w1 p))" using False st(1) by (cases "g_state (w_prog w1 p)") (auto simp: waiting_def)
    then have "p \<notin> set (w_run w1)" using I1 by (auto simp: world_inv_def run_ok_def)
    then show ?thesis using addrun_inv [OF I1 o] True by (simp add: w2_def)
  next
    case False
    then have "w2 = w1" by (auto simp: w2_def)
    then show ?thesis using I1 by simp
  qed
  have o2: "out_of_queues p w2" using o by (simp add: w2_def out_of_queues_def addrun_def cwakeme_def set_prog_def)
  obtain w3 where w3: "exprog_kill p e w2 = Inr w3" "w_chan w3 = w_chan w2" "w_run w3 = w_run w2" "\<forall>x. same_prog (w_prog w2 x) (w_prog w3 x)" "g_kill (w_prog w3 p) \<noteq> None"
    using exprog_kill_ok [of p e w2] by blast
  have "world_inv None w3" by (rule world_inv_cong [OF I2 w3(2,3)]) (use w3(4) in blast)
  moreover have "exprog p e w = Inr (w3, True)" using False w1(1) w3(1) by (simp add: exprog_def w2_def)
  moreover have "out_of_queues p w3" using o2 w3(2) by (simp add: out_of_queues_def)
  ultimately show ?thesis using w3(5) by blast
qed

section \<open>Runs\<close>

text \<open>
  A step \<open>other\<close> stands for everything else the machine does: it leaves the channels and the programs that wait on
  them alone. A device may give a channel a buffer only while nobody waits to send on it.
\<close>

definition kept :: "world \<Rightarrow> world \<Rightarrow> bool" where
  "kept w w' \<longleftrightarrow> w_chan w' = w_chan w \<and> run_ok w' \<and>
    (\<forall>p c. p \<in> waits (c_send (w_chan w c)) \<or> p \<in> waits (c_recv (w_chan w c)) \<longrightarrow> w_prog w' p = w_prog w p \<and> p \<notin> set (w_run w'))"

definition fresh_chans :: "world \<Rightarrow> bool" where
  "fresh_chans w \<longleftrightarrow> (\<forall>c. \<exists>f len. w_chan w c = cnewc f len)"

inductive chan_run :: "world \<Rightarrow> bool" where
  start: "fresh_chans w \<Longrightarrow> run_ok w \<Longrightarrow> chan_run w"
| newc: "chan_run w \<Longrightarrow> waits (c_send (w_chan w c)) = {} \<Longrightarrow> waits (c_recv (w_chan w c)) = {} \<Longrightarrow> chan_run (set_chan c (cnewc f len) w)"
| send: "chan_run w \<Longrightarrow> w_run w \<noteq> [] \<Longrightarrow> isend (Some c) w = Inr w' \<Longrightarrow> chan_run w'"
| recv: "chan_run w \<Longrightarrow> w_run w \<noteq> [] \<Longrightarrow> irecv (Some c) w = Inr w' \<Longrightarrow> chan_run w'"
| alt: "chan_run w \<Longrightarrow> w_run w \<noteq> [] \<Longrightarrow> alt_ok a \<Longrightarrow> xecalt a block w = Inr r \<Longrightarrow> chan_run (case r of Inl (e, w') \<Rightarrow> w' | Inr w' \<Rightarrow> w')"
| device: "chan_run w \<Longrightarrow> waits (c_recv (w_chan w c)) \<noteq> {} \<or> c_buf (w_chan w c) \<noteq> None \<or> 0 < len \<and> waits (c_send (w_chan w c)) = {} \<Longrightarrow>
    csendalt (Some c) ip len w = Inr (w', b) \<Longrightarrow> chan_run w'"
| exception: "chan_run w \<Longrightarrow> g_state (w_prog w p) \<in> {Psend, Precv} \<longrightarrow> g_chan (w_prog w p) \<noteq> None \<Longrightarrow> exprog p e w = Inr (w', b) \<Longrightarrow> chan_run w'"
| other: "chan_run w \<Longrightarrow> kept w w' \<Longrightarrow> chan_run w'"

inductive_cases chan_run_cases: "chan_run w"

lemma cnewc_ok: "chan_ok P (cnewc f len)" "waits (c_send (cnewc f len)) = {}" "waits (c_recv (cnewc f len)) = {}"
  by (auto simp: chan_ok_def cnewc_def q_ok_def buf_ok_def full_def)

lemma fresh_inv:
  assumes "fresh_chans w" "run_ok w"
  shows "world_inv None w"
proof -
  have "chan_ok {} (w_chan w c)" "waits (c_send (w_chan w c)) = {}" "waits (c_recv (w_chan w c)) = {}" for c
    using assms(1) cnewc_ok unfolding fresh_chans_def by metis+
  then show ?thesis using assms(2) by (simp add: world_inv_def ghost_def linked_def marked_def)
qed

lemma newc_inv:
  assumes I: "world_inv None w" and e: "waits (c_send (w_chan w c)) = {}" "waits (c_recv (w_chan w c)) = {}"
  shows "world_inv None (set_chan c (cnewc f len) w)"
  by (rule world_inv_buf [OF I]) (use e inv_chan_ok [OF I] in \<open>auto simp: set_chan_def same_prog_def cnewc_ok\<close>)

lemma kept_inv:
  assumes I: "world_inv None w" and k: "kept w w'"
  shows "world_inv None w'"
proof -
  have c: "w_chan w' = w_chan w" using k by (simp add: kept_def)
  have "linked {} w'" using I k unfolding world_inv_def linked_def ghost_def kept_def c by auto
  then show ?thesis using I k by (simp add: world_inv_def ghost_def kept_def marked_def)
qed

lemma chan_run_inv: "chan_run w \<Longrightarrow> world_inv None w"
proof (induction rule: chan_run.induct)
  case (send w c w')
  then show ?case using isend_step [of w c] by auto
next
  case (recv w c w')
  then show ?case using irecv_step [of w c] by auto
next
  case (alt w a block r)
  then obtain p ps where "w_run w = p # ps" by (cases "w_run w") auto
  then show ?case using alt xecalt_step [of w p ps a block] by auto
next
  case (device w c len ip w' b)
  then show ?case using csendalt_step [of w c len ip] by auto
next
  case (exception w p e w' b)
  then show ?case using exprog_step [of w p e] by auto
qed (auto intro: fresh_inv newc_inv kept_inv)

end
