(* ===== verification/Dis_Chan_Fifo.thy ===== *)
theory Dis_Chan_Fifo
  imports Dis_Chan_Run
begin

text \<open>
  A channel is a queue of values: those in its buffer, in a ring of cells that starts at \<open>front\<close>, and then those that waiting
  programs offer, in the order they came. Sending appends to the queue and receiving takes its head.
\<close>

section \<open>The ring\<close>

definition buffered :: "world \<Rightarrow> cid \<Rightarrow> elem list" where
  "buffered w c = (case c_buf (w_chan w c) of None \<Rightarrow> []
     | Some len \<Rightarrow> map (\<lambda>i. w_mem w (Cell c ((c_front (w_chan w c) + i) mod nat len))) [0..<c_size (w_chan w c)])"

lemma ring_inj:
  fixes f i j n :: nat
  assumes "i < n" "j < n" "(f + i) mod n = (f + j) mod n"
  shows "i = j"
proof -
  have "int n dvd int i - int j" using assms(3) by (metis add_diff_cancel_left int_ops(9) mod_eq_dvd_iff of_nat_add)
  moreover have "\<bar>int i - int j\<bar> < int n" using assms(1,2) by linarith
  ultimately have "int i - int j = 0" by (metis abs_ge_zero dvd_abs_iff mod_pos_pos_trivial abs_eq_0 dvd_imp_mod_0)
  then show ?thesis by simp
qed

lemma put_cell_ring:
  assumes "buf_ok ch" "CANPUT ch" "c_buf ch = Some len"
  shows "put_cell ch = (c_front ch + c_size ch) mod nat len"
proof -
  have "c_front ch < nat len" "c_size ch < nat len" using assms by (auto simp: buf_ok_def CANPUT_def)
  then have "(c_front ch + c_size ch) mod nat len = (if nat len \<le> c_front ch + c_size ch then c_front ch + c_size ch - nat len else c_front ch + c_size ch)"
    using le_mod_geq [of "nat len" "c_front ch + c_size ch"] by simp
  then show ?thesis using assms(3) by (simp add: put_cell_def)
qed

lemma next_front_ring:
  assumes "buf_ok ch" "c_buf ch = Some len"
  shows "next_front ch = (c_front ch + 1) mod nat len"
proof -
  have "int (c_front ch) < len" using assms by (simp add: buf_ok_def)
  then show ?thesis using assms(2) by (auto simp: next_front_def mod_if)
qed

lemma buffered_put:
  assumes ok: "buf_ok (w_chan w c)" and C: "CANPUT (w_chan w c)"
  shows "buffered (fst (cputb c v w)) c = buffered w c @ [w_mem w v]"
    and "l \<notin> range (Cell c) \<Longrightarrow> w_mem (fst (cputb c v w)) l = w_mem w l"
proof -
  obtain len where b: "c_buf (w_chan w c) = Some len" "c_size (w_chan w c) < nat len" using C by (auto simp: CANPUT_def split: option.splits)
  let ?f = "c_front (w_chan w c)" and ?n = "c_size (w_chan w c)"
  have m: "w_mem (fst (cputb c v w)) = (w_mem w)(Cell c ((?f + ?n) mod nat len) := w_mem w v)"
    by (simp add: cputb_eq [OF C] mover_def set_chan_def put_cell_ring [OF ok C b(1)])
  have "w_chan (fst (cputb c v w)) c = (w_chan w c)\<lparr>c_size := ?n + 1\<rparr>" by (simp add: cputb_eq [OF C] mover_def set_chan_def)
  moreover have "(?f + i) mod nat len \<noteq> (?f + ?n) mod nat len" if "i < ?n" for i using ring_inj [of i "nat len" ?n ?f] b(2) that by auto
  ultimately show "buffered (fst (cputb c v w)) c = buffered w c @ [w_mem w v]" using b by (simp add: buffered_def m)
  show "l \<notin> range (Cell c) \<Longrightarrow> w_mem (fst (cputb c v w)) l = w_mem w l" by (auto simp: m)
qed

lemma buffered_get:
  assumes ok: "buf_ok (w_chan w c)" and C: "CANGET (w_chan w c)" and v: "v \<notin> range (Cell c)"
  shows "buffered w c = w_mem (fst (cgetb c v w)) v # buffered (fst (cgetb c v w)) c"
    and "l \<notin> range (Cell c) \<Longrightarrow> l \<noteq> v \<Longrightarrow> w_mem (fst (cgetb c v w)) l = w_mem w l"
proof -
  let ?f = "c_front (w_chan w c)" and ?n = "c_size (w_chan w c)"
  obtain len where b: "c_buf (w_chan w c) = Some len" "?n \<le> nat len" "?f < nat len"
    using ok C by (auto simp: CANGET_def buf_ok_def split: option.splits)
  have b': "c_buf (w_chan w c) \<noteq> None" using b(1) by simp
  obtain k where n: "?n = Suc k" using C by (cases ?n) (auto simp: CANGET_def)
  let ?w = "fst (cgetb c v w)"
  have m: "w_mem ?w = taken (w_chan w c) (Cell c ?f) v (w_mem w)" by (simp add: cgetb_eq [OF b' C])
  have ch: "w_chan ?w c = (w_chan w c)\<lparr>c_front := (?f + 1) mod nat len, c_size := k\<rparr>"
    by (simp add: cgetb_eq [OF b' C] set_chan_def next_front_ring [OF ok b(1)] n)
  have x: "w_mem ?w v = w_mem w (Cell c ?f)" using v by (auto simp: m taken_def Let_def split: option.split)
  show o: "w_mem ?w l = w_mem w l" if "l \<notin> range (Cell c)" "l \<noteq> v" for l using that v by (auto simp: m taken_def Let_def split: option.split)
  have cell: "w_mem ?w (Cell c ((?f + Suc i) mod nat len)) = w_mem w (Cell c ((?f + Suc i) mod nat len))" if "i < k" for i
  proof -
    have "Suc i < nat len" "0 < nat len" using b(2) n that by linarith+
    then have "(?f + Suc i) mod nat len \<noteq> (?f + 0) mod nat len" using ring_inj [of "Suc i" "nat len" 0 ?f] by blast
    then have "Cell c ((?f + Suc i) mod nat len) \<noteq> Cell c ?f" using b(3) by simp
    then show ?thesis using v by (auto simp: m taken_def Let_def split: option.split)
  qed
  have "buffered w c = map (\<lambda>i. w_mem w (Cell c ((?f + i) mod nat len))) [0..<Suc k]" using b(1) n by (simp add: buffered_def)
  also have "\<dots> = w_mem w (Cell c (?f mod nat len)) # map (\<lambda>i. w_mem w (Cell c ((?f + Suc i) mod nat len))) [0..<k]"
    by (simp add: upt_conv_Cons map_Suc_upt [symmetric] del: upt_Suc)
  also have "map (\<lambda>i. w_mem w (Cell c ((?f + Suc i) mod nat len))) [0..<k] = buffered ?w c"
    using cell b(1) by (simp add: buffered_def ch mod_add_left_eq)
  finally show "buffered w c = w_mem ?w v # buffered ?w c" using x b(3) by simp
qed

text \<open>One value goes out of a full buffer and another in; without a buffer it is just handed over.\<close>

lemma exchange:
  assumes ok: "buf_ok (w_chan w c)" "full (w_chan w c)" and v: "v \<notin> range (Cell c)" "u \<notin> range (Cell c)" "u \<noteq> v" "w_Rd w = v"
    and w': "w' = (if c_buf (w_chan w c) \<noteq> None then fst (cputb c u (fst (cgetb c v w))) else mover (w\<lparr>w_Rs := u\<rparr>))"
  shows "buffered w c @ [w_mem w u] = w_mem w' v # buffered w' c" "l \<notin> range (Cell c) \<Longrightarrow> l \<noteq> v \<Longrightarrow> w_mem w' l = w_mem w l"
proof (atomize (full), cases "c_buf (w_chan w c)")
  case None
  then show "buffered w c @ [w_mem w u] = w_mem w' v # buffered w' c \<and> (l \<notin> range (Cell c) \<longrightarrow> l \<noteq> v \<longrightarrow> w_mem w' l = w_mem w l)"
    using v w' by (simp add: buffered_def mover_def)
next
  case (Some len)
  then have C: "CANGET (w_chan w c)" using ok by (simp add: full_def buf_ok_def CANGET_def)
  have b: "c_buf (w_chan w c) \<noteq> None" using Some by simp
  let ?u = "fst (cgetb c v w)"
  have ch: "w_chan ?u c = (w_chan w c)\<lparr>c_front := next_front (w_chan w c), c_size := c_size (w_chan w c) - 1\<rparr>" by (simp add: cgetb_eq [OF b C] set_chan_def)
  have P: "buf_ok (w_chan ?u c)" "CANPUT (w_chan ?u c)" using buf_ok_get [OF ok(1) C] ok(2) C Some unfolding ch by (simp_all add: full_def CANPUT_def CANGET_def)
  have "w' = fst (cputb c u ?u)" using Some w' by simp
  then show "buffered w c @ [w_mem w u] = w_mem w' v # buffered w' c \<and> (l \<notin> range (Cell c) \<longrightarrow> l \<noteq> v \<longrightarrow> w_mem w' l = w_mem w l)"
    using buffered_get [OF ok(1) C v(1)] buffered_put [OF P] v by simp
qed

section \<open>Offers\<close>

text \<open>Where a waiting sender has its value: at its data pointer, or at the first arm of its alternation for the channel.\<close>

definition offer :: "world \<Rightarrow> cid \<Rightarrow> pid \<Rightarrow> loc" where
  "offer w c p = (if g_state (w_prog w p) = Palt then the (map_of (a_send (g_alt (w_prog w p))) (Some c)) else g_ptr (w_prog w p))"

definition pending :: "world \<Rightarrow> cid \<Rightarrow> elem list" where
  "pending w c = buffered w c @ map (\<lambda>p. w_mem w (offer w c p)) (wlist (c_send (w_chan w c)))"

lemma unqueue_effect:
  "unqueue_send c p w = Inr w' \<Longrightarrow> w_mem w' = w_mem w \<and> w_prog w' = w_prog w \<and> w_Rd w' = w_Rd w"
  "unqueue_recv c p w = Inr w' \<Longrightarrow> w_mem w' = w_mem w \<and> w_prog w' = w_prog w \<and> w_Rd w' = w_Rd w"
  by (auto simp: unqueue_send_def unqueue_recv_def cbind_eq_Inr_iff set_send_def set_recv_def set_chan_def split: if_splits)

text \<open>Leaving an alternation tells the program of the selected arm and touches no other program and no other place.\<close>

definition told :: "pid \<Rightarrow> loc option \<Rightarrow> world \<Rightarrow> world \<Rightarrow> bool" where
  "told p l w w' \<longleftrightarrow> w_Rd w' = w_Rd w \<and> (\<forall>x. x \<noteq> p \<longrightarrow> w_prog w' x = w_prog w x) \<and> g_Rd (w_prog w' p) = g_Rd (w_prog w p) \<and>
    (case l of None \<Rightarrow> w_mem w' = w_mem w \<and> w_prog w' = w_prog w
     | Some v \<Rightarrow> g_ptr (w_prog w' p) = v \<and> (\<exists>k. w_mem w' = (w_mem w)(g_Rd (w_prog w p) := WORD_elem k)))"

lemma told_refl: "told p None w w"
  by (simp add: told_def)

lemma told_unqueue: "unqueue_send c p w = Inr w1 \<Longrightarrow> told p l w1 w' = told p l w w'" "unqueue_recv c p w = Inr w1 \<Longrightarrow> told p l w1 w' = told p l w w'"
  by (cases l; auto dest!: unqueue_effect simp: told_def)+

lemma altdone_send_told:
  assumes "altdone_send as p 0 sel n w = Inr (sel', n', w')"
  shows "told p (case sel of None \<Rightarrow> None | Some c \<Rightarrow> map_of as (Some c)) w w'"
  using assms
proof (induction as arbitrary: sel n w)
  case Nil
  then show ?case by (auto simp: told_refl split: option.split)
next
  case (Cons x as)
  obtain r ptr where x: "x = (r, ptr)" by fastforce
  show ?case
  proof (cases r)
    case None
    then show ?thesis using Cons.IH [of sel "n + 1" w] Cons.prems x by (auto split: option.split)
  next
    case (Some c)
    obtain w1 where u: "unqueue_send c p w = Inr w1" using Cons.prems x Some by (auto simp: cbind_eq_Inr_iff)
    show ?thesis
    proof (cases "sel = Some c")
      case True
      then have t: "told p None (chosen p ptr n w1) w'" using Cons.IH [of None "n + 1" "chosen p ptr n w1"] Cons.prems x Some u by simp
      have "told p (Some ptr) w1 w'" using t by (auto simp: told_def chosen_def set_prog_def)
      then show ?thesis using told_unqueue(1) [OF u] True x Some by simp
    next
      case False
      then have "told p (case sel of None \<Rightarrow> None | Some c \<Rightarrow> map_of as (Some c)) w1 w'" using Cons.IH [of sel "n + 1" w1] Cons.prems x Some u by simp
      then show ?thesis using told_unqueue(1) [OF u] False x Some by (auto split: option.split)
    qed
  qed
qed

lemma altunmark_told:
  assumes "altunmark cs ptr p sr sel dn n w = Inr (sel', w')" "sr \<noteq> 1"
  shows "told p None w w'"
  using assms(1)
proof (induction cs arbitrary: n w)
  case (Cons x cs)
  show ?case
  proof (cases x)
    case (Some c)
    then obtain w1 where u: "unqueue_recv c p w = Inr w1" "told p None w1 w'" using Cons assms(2) by (auto simp: cbind_eq_Inr_iff)
    then show ?thesis using told_unqueue(2) by simp
  qed (use Cons in simp)
qed (simp add: told_refl)

lemma altdone_recv_told:
  assumes "altdone_recv as p sr sel n w = Inr w'" "sr \<noteq> 1"
  shows "told p None w w'"
  using assms(1)
proof (induction as arbitrary: sel n w)
  case (Cons x as)
  obtain r ptr where x: "x = (r, ptr)" by fastforce
  consider "r = Chan None" | c where "r = Chan (Some c)" | cs where "r = Arr cs" by (metis chanref.exhaust option.exhaust)
  then show ?case
  proof cases
    case (2 c)
    then obtain w1 where u: "unqueue_recv c p w = Inr w1" "told p None w1 w'" using Cons x assms(2) by (auto simp: cbind_eq_Inr_iff)
    then show ?thesis using told_unqueue(2) by simp
  next
    case (3 cs)
    then obtain sel1 w1 where "altunmark cs ptr p sr sel n 0 w = Inr (sel1, w1)" "told p None w1 w'" using Cons x by (auto simp: cbind_eq_Inr_iff)
    then show ?thesis using altunmark_told [OF _ assms(2)] by (force simp: told_def)
  qed (use Cons x in auto)
qed (simp add: told_refl)

lemma altdone_told:
  assumes "altdone a p (Some c) 0 w = Inr w'" "map_of (a_send a) (Some c) = Some v"
  shows "told p (Some v) w w'"
proof -
  obtain sel1 n1 w1 where s: "altdone_send (a_send a) p 0 (Some c) 0 w = Inr (sel1, n1, w1)" "altdone_recv (a_recv a) p 0 sel1 n1 w1 = Inr w'"
    using assms(1) by (auto simp: altdone_def cbind_eq_Inr_iff)
  have "told p (Some v) w w1" using altdone_send_told [OF s(1)] assms(2) by simp
  moreover have "told p None w1 w'" using altdone_recv_told [OF s(2)] by simp
  ultimately show ?thesis by (auto simp: told_def)
qed

lemma sends_map_of: "c \<in> set (sends a) \<Longrightarrow> \<exists>v. map_of (a_send a) (Some c) = Some v"
proof -
  assume "c \<in> set (sends a)"
  then have "Some c \<in> fst ` set (a_send a)" by (force simp: sends_def arm_chans_def)
  then show ?thesis by (metis map_of_eq_None_iff not_None_eq)
qed

section \<open>Sending appends\<close>

lemma buffered_cong: "w_mem w' = w_mem w \<Longrightarrow> same_buf (w_chan w c) (w_chan w' c) \<Longrightarrow> buffered w' c = buffered w c"
  by (simp add: buffered_def same_buf_def split: option.split)

lemma isend_appends:
  assumes I: "world_inv None w" and r: "w_run w \<noteq> []" and n: "waits (c_recv (w_chan w c)) = {}" and s: "isend (Some c) w = Inr w'"
  shows "pending w' c = pending w c @ [w_mem w (w_Rs w)]"
proof -
  have q: "qprog (c_recv (w_chan w c)) = Inr None" using n qprog_waits [OF I] by simp
  have k: "chan_ok {} (w_chan w c)" using inv_chan_ok [OF I, of c] by (simp add: ghost_def)
  show ?thesis
  proof (cases "CANPUT (w_chan w c)")
    case True
    have w': "w' = fst (cputb c (w_Rs w) w)"
      using s True q by (auto simp: isend_def cputb_eq CANPUT_def split: option.splits)
    have "waits (c_send (w_chan w c)) = {}" using k full_iff True unfolding chan_ok_def by blast
    then have "wlist (c_send (w_chan w c)) = []" using set_wlist [of "c_send (w_chan w c)"] by simp
    moreover have "c_send (w_chan w' c) = c_send (w_chan w c)" by (simp add: w' cputb_eq [OF True] set_chan_def)
    ultimately show ?thesis using buffered_put(1) [of w c "w_Rs w"] True k by (simp add: pending_def w' chan_ok_def)
  next
    case False
    obtain p ps where p: "w_run w = p # ps" using r by (cases "w_run w") auto
    define w1 where "w1 = (set_prog p ((w_prog w p)\<lparr>g_state := Psend, g_ptr := w_Rs w, g_chan := Some c\<rparr>) w)\<lparr>w_run := ps, w_IC := 1, w_t := 1\<rparr>"
    have "wait_on Psend c (w_Rs w) w = Inr (p, w1)" by (simp add: wait_on_def delrun_def p w1_def set_prog_def)
    then have "add_send c p w1 = Inr w'" using s q cputb_full [OF False] by (simp add: isend_def split: if_splits)
    then obtain q' ms where q': "cqadd (c_send (w_chan w c)) p (w_malloc w) = Inr (q', ms)" "w' = (set_send c q' w1)\<lparr>w_malloc := ms\<rparr>"
      by (auto simp: add_send_def cbind_eq_Inr_iff w1_def set_prog_def)
    have o: "p \<notin> waits (c_send (w_chan w c))" using running_out [OF I, of p] p by (simp add: out_of_queues_def)
    have "wlist q' = wlist (c_send (w_chan w c)) @ [p]" using cqadd_ok [OF _ o q'(1)] k by (simp add: chan_ok_def)
    moreover have "w_mem w' = w_mem w" "c_send (w_chan w' c) = q'" "same_buf (w_chan w c) (w_chan w' c)"
      "w_prog w' = (w_prog w)(p := (w_prog w p)\<lparr>g_state := Psend, g_ptr := w_Rs w, g_chan := Some c\<rparr>)"
      by (simp_all add: q'(2) set_send_def set_chan_def w1_def set_prog_def same_buf_def)
    moreover have "offer w' c x = offer w c x" if "x \<in> set (wlist (c_send (w_chan w c)))" for x
      using that o calculation(5) by (auto simp: offer_def set_wlist)
    ultimately show ?thesis by (simp add: pending_def buffered_cong) (simp add: offer_def)
  qed
qed

section \<open>Receiving takes the head\<close>

text \<open>
  The places written are none of those that hold the channel's values: the receiver's, and for a waiting
  alternation the one for the number of its arm.
\<close>

definition holds :: "world \<Rightarrow> cid \<Rightarrow> loc set" where
  "holds w c = range (Cell c) \<union> offer w c ` waits (c_send (w_chan w c))"

definition separate :: "world \<Rightarrow> cid \<Rightarrow> bool" where
  "separate w c \<longleftrightarrow> w_Rd w \<notin> holds w c \<and> (\<forall>p\<in>waits (c_send (w_chan w c)).
     offer w c p \<notin> range (Cell c) \<and> (g_state (w_prog w p) = Palt \<longrightarrow> g_Rd (w_prog w p) \<notin> holds w c))"

lemma wake_send_told:
  assumes I: "world_inv None w" and p: "p \<in> waits (c_send (w_chan w c))" and sep: "separate w c"
    and w1: "(if g_state (w_prog w p) = Palt then altdone (g_alt (w_prog w p)) p (Some c) 0 (set_send c q w) else Inr (set_send c q w)) = Inr w1"
  shows "g_ptr (w_prog w1 p) = offer w c p \<and> w_Rd w1 = w_Rd w \<and> (\<forall>x. x \<noteq> p \<longrightarrow> w_prog w1 x = w_prog w x) \<and> (\<forall>l\<in>holds w c. w_mem w1 l = w_mem w l)"
proof (cases "g_state (w_prog w p) = Palt")
  case True
  have "g_state (w_prog w p) = Psend \<or> c \<in> set (sends (g_alt (w_prog w p)))" using I p unfolding world_inv_def linked_def ghost_def by auto
  then have "c \<in> set (sends (g_alt (w_prog w p)))" using True by simp
  then obtain v where v: "map_of (a_send (g_alt (w_prog w p))) (Some c) = Some v" using sends_map_of by blast
  have "told p (Some v) (set_send c q w) w1" using altdone_told [OF _ v] w1 True by simp
  moreover have "g_Rd (w_prog w p) \<notin> holds w c" using sep p True by (simp add: separate_def)
  moreover have "w_mem (set_send c q w) = w_mem w" "w_Rd (set_send c q w) = w_Rd w" by (simp_all add: set_send_def set_chan_def)
  ultimately show ?thesis using True v by (auto simp: told_def offer_def)
next
  case False
  then have "w1 = set_send c q w" using w1 by simp
  then show ?thesis using False by (simp add: set_send_def set_chan_def offer_def)
qed

lemma offer_cong: "w_prog w' p = w_prog w p \<Longrightarrow> offer w' c p = offer w c p"
  by (simp add: offer_def)

lemma buffered_holds: "same_buf (w_chan w c) (w_chan w' c) \<Longrightarrow> \<forall>l\<in>holds w c. w_mem w' l = w_mem w l \<Longrightarrow> buffered w' c = buffered w c"
  by (auto simp: buffered_def same_buf_def holds_def split: option.split)

lemma irecv_from_buffer:
  assumes I: "world_inv None w" and n: "waits (c_send (w_chan w c)) = {}" and C: "CANGET (w_chan w c)" and sep: "separate w c"
  shows "\<exists>w'. irecv (Some c) w = Inr w' \<and> pending w c = w_mem w' (w_Rd w) # pending w' c"
proof -
  have k: "buf_ok (w_chan w c)" using inv_chan_ok [OF I, of c] by (simp add: chan_ok_def)
  have b: "c_buf (w_chan w c) \<noteq> None" using C k by (auto simp: CANGET_def buf_ok_def split: option.splits)
  have wl: "wlist (c_send (w_chan w c)) = []" using n set_wlist [of "c_send (w_chan w c)"] by simp
  let ?w = "fst (cgetb c (w_Rd w) w)"
  have "irecv (Some c) w = Inr ?w" using b C n qprog_waits [OF I, of c] by (simp add: irecv_def cgetb_eq)
  moreover have "c_send (w_chan ?w c) = c_send (w_chan w c)" by (simp add: cgetb_eq [OF b C] set_chan_def)
  moreover have "w_Rd w \<notin> range (Cell c)" using sep by (simp add: separate_def holds_def)
  ultimately show ?thesis using buffered_get(1) [OF k C] wl by (simp add: pending_def)
qed

lemma irecv_from_sender:
  assumes I: "world_inv None w" and x: "qprog (c_send (w_chan w c)) = Inr (Some p)" and sep: "separate w c"
  shows "\<exists>w'. irecv (Some c) w = Inr w' \<and> pending w c = w_mem w' (w_Rd w) # pending w' c"
proof -
  have pg: "p \<notin> ghost None" by (simp add: ghost_def)
  obtain q w1 where w1: "cqdel (c_send (w_chan w c)) = Inr q"
    "(if g_state (w_prog w p) = Palt then altdone (g_alt (w_prog w p)) p (Some c) 0 (set_send c q w) else Inr (set_send c q w)) = Inr w1"
    "left_queues p UNIV UNIV w w1" using wake_send [OF I x pg] by blast
  have k: "chan_ok {} (w_chan w c)" using inv_chan_ok [OF I, of c] by (simp add: ghost_def)
  have pw: "p \<in> waits (c_send (w_chan w c))" by (rule qprog_wait(1) [OF I x])
  have t: "g_ptr (w_prog w1 p) = offer w c p" "w_Rd w1 = w_Rd w" "\<forall>x. x \<noteq> p \<longrightarrow> w_prog w1 x = w_prog w x" "\<forall>l\<in>holds w c. w_mem w1 l = w_mem w l"
    using wake_send_told [OF I pw sep w1(2)] by simp_all
  have sb: "same_buf (w_chan w c) (w_chan w1 c)" using w1(3) by (simp add: left_queues_def)
  have wl: "wlist (c_send (w_chan w c)) = p # wlist (c_send (w_chan w1 c))" "p \<notin> set (wlist (c_send (w_chan w1 c)))"
    using cqdel_ok [OF _ x] k w1(3) by (auto simp: chan_ok_def left_queues_def set_wlist)
  have pv: "offer w c p \<in> holds w c" "offer w c p \<notin> range (Cell c)" "w_Rd w \<notin> holds w c" using pw sep by (auto simp: separate_def holds_def)
  let ?v = "w_Rd w" and ?o = "offer w c p"
  define w2 where "w2 = (if c_buf (w_chan w1 c) \<noteq> None then fst (cputb c (g_ptr (w_prog w1 p)) (fst (cgetb c (w_Rd w1) w1)))
     else mover (w1\<lparr>w_Rs := g_ptr (w_prog w1 p)\<rparr>))"
  define w' where "w' = (addrun p (set_prog p ((w_prog w2 p)\<lparr>g_ptr := Null\<rparr>) w2))\<lparr>w_t := 0\<rparr>"
  have g: "w_prog (fst (cgetb d v u)) = w_prog u" "c_send (w_chan (fst (cgetb d v u)) e) = c_send (w_chan u e)"
    "w_prog (fst (cputb d v u)) = w_prog u" "c_send (w_chan (fst (cputb d v u)) e) = c_send (w_chan u e)"
    for d v u e by (auto simp: cgetb_def cputb_def mover_def set_chan_def Let_def split: option.splits)
  have ir: "irecv (Some c) w = Inr w'" unfolding w'_def by (rule irecv_wake_eq [OF x w1(1,2) w2_def]) (simp_all add: g)
  have cs: "c_send (w_chan w' c) = c_send (w_chan w1 c)" by (simp add: w'_def w2_def addrun_def cwakeme_def set_prog_def g)
  have off: "offer w' c y = offer w c y" if "y \<noteq> p" for y
    using that t(3) by (intro offer_cong) (simp add: w'_def w2_def addrun_def cwakeme_def set_prog_def g)
  have mc: "w_mem w' = w_mem w2" "w_chan w' = w_chan w2" by (simp_all add: w'_def addrun_def cwakeme_def set_prog_def)
  have b2: "buffered w' c = buffered w2 c" unfolding buffered_def mc ..
  have x2: "buffered w1 c @ [w_mem w1 ?o] = w_mem w2 ?v # buffered w2 c" "\<And>l. l \<notin> range (Cell c) \<Longrightarrow> l \<noteq> ?v \<Longrightarrow> w_mem w2 l = w_mem w1 l"
  proof -
    have "full (w_chan w c)" using k pw unfolding chan_ok_def by auto
    then have f: "buf_ok (w_chan w1 c)" "full (w_chan w1 c)"
      using sb k by (auto simp: chan_ok_def buf_ok_def full_def same_buf_def split: option.splits)
    have "?v \<notin> range (Cell c)" "?o \<noteq> ?v" using pv by (auto simp: holds_def)
    then show "buffered w1 c @ [w_mem w1 ?o] = w_mem w2 ?v # buffered w2 c" "\<And>l. l \<notin> range (Cell c) \<Longrightarrow> l \<noteq> ?v \<Longrightarrow> w_mem w2 l = w_mem w1 l"
      using exchange [OF f, of ?v ?o w2] pv(2) w2_def t(1,2) by auto
  qed
  have b1: "buffered w1 c = buffered w c" "w_mem w1 ?o = w_mem w ?o" using buffered_holds [OF sb t(4)] t(4) pv(1) by auto
  have mo: "w_mem w2 (offer w c y) = w_mem w (offer w c y)" if "y \<in> set (wlist (c_send (w_chan w1 c)))" for y
  proof -
    have "y \<in> waits (c_send (w_chan w c))" using that wl(1) set_wlist [of "c_send (w_chan w c)"] by auto
    then have "offer w c y \<in> holds w c" "offer w c y \<notin> range (Cell c)" using sep by (auto simp: holds_def separate_def)
    then show ?thesis using x2(2) t(4) pv(3) by metis
  qed
  have "map (\<lambda>y. w_mem w (offer w c y)) (wlist (c_send (w_chan w1 c))) = map (\<lambda>y. w_mem w' (offer w' c y)) (wlist (c_send (w_chan w' c)))"
    unfolding cs
  proof (rule map_cong [OF refl])
    show "w_mem w (offer w c y) = w_mem w' (offer w' c y)" if y: "y \<in> set (wlist (c_send (w_chan w1 c)))" for y
      using mo [OF y] off [of y] wl(2) y mc(1) by metis
  qed
  then have "pending w c = (buffered w1 c @ [w_mem w1 ?o]) @ map (\<lambda>y. w_mem w' (offer w' c y)) (wlist (c_send (w_chan w' c)))"
    using wl(1) b1 by (simp add: pending_def)
  then show ?thesis unfolding x2(1) using ir b2 mc(1) by (simp add: pending_def)
qed

lemma irecv_takes:
  assumes I: "world_inv None w" and ne: "pending w c \<noteq> []" and sep: "separate w c"
  shows "\<exists>w'. irecv (Some c) w = Inr w' \<and> pending w c = w_mem w' (w_Rd w) # pending w' c"
proof -
  obtain x where x: "qprog (c_send (w_chan w c)) = Inr x" "x = None \<longleftrightarrow> waits (c_send (w_chan w c)) = {}"
    using qprog_ok [of "c_send (w_chan w c)"] world_inv_queues [OF I] by (auto simp: queues_ok_def)
  show ?thesis
  proof (cases x)
    case None
    then have "buffered w c \<noteq> []" using ne x(2) set_wlist [of "c_send (w_chan w c)"] by (simp add: pending_def)
    then have "CANGET (w_chan w c)" by (auto simp: buffered_def CANGET_def split: option.splits)
    then show ?thesis using irecv_from_buffer [OF I _ _ sep] None x(2) by simp
  next
    case (Some p)
    then show ?thesis using irecv_from_sender [OF I _ sep] x(1) by simp
  qed
qed

section \<open>A waiting receiver\<close>

text \<open>Where a waiting receiver wants its value.\<close>

fun arm_target :: "(chanref \<times> loc) list \<Rightarrow> cid \<Rightarrow> loc option" where
  "arm_target [] c = None"
| "arm_target ((Chan r, ptr) # as) c = (if r = Some c then Some ptr else arm_target as c)"
| "arm_target ((Arr cs, ptr) # as) c = (if Some c \<in> set cs then Some (next_word ptr) else arm_target as c)"

definition target :: "world \<Rightarrow> cid \<Rightarrow> pid \<Rightarrow> loc" where
  "target w c p = (if g_state (w_prog w p) = Palt then the (arm_target (a_recv (g_alt (w_prog w p))) c) else g_ptr (w_prog w p))"

text \<open>The places at which an alternation is told the number of its arm and the index in an array of channels.\<close>

definition told_at :: "prog \<Rightarrow> loc set" where
  "told_at g = (if g_state g = Palt then insert (g_Rd g) (snd ` set (a_recv (g_alt g))) else {})"

definition touched :: "loc set \<Rightarrow> pid \<Rightarrow> world \<Rightarrow> world \<Rightarrow> bool" where
  "touched L p w w' \<longleftrightarrow> w_Rs w' = w_Rs w \<and> g_Rd (w_prog w' p) = g_Rd (w_prog w p) \<and> (\<forall>l. l \<notin> L \<longrightarrow> w_mem w' l = w_mem w l)"

lemma touched_trans: "touched L p w w1 \<Longrightarrow> touched L' p w1 w2 \<Longrightarrow> touched (L \<union> L') p w w2"
  by (simp add: touched_def)

lemma touched_mono: "touched L p w w' \<Longrightarrow> L \<subseteq> L' \<Longrightarrow> touched L' p w w'"
  by (auto simp: touched_def)

lemma unqueue_touched:
  "unqueue_send c p w = Inr w' \<Longrightarrow> touched {} p w w' \<and> w_prog w' = w_prog w"
  "unqueue_recv c p w = Inr w' \<Longrightarrow> touched {} p w w' \<and> w_prog w' = w_prog w"
  by (auto simp: touched_def unqueue_send_def unqueue_recv_def cbind_eq_Inr_iff set_send_def set_recv_def set_chan_def split: if_splits)

lemma altdone_send_skips:
  assumes "altdone_send as p sr sel n w = Inr (sel', n', w')" "sr \<noteq> 0"
  shows "sel' = sel \<and> touched {} p w w' \<and> w_prog w' = w_prog w"
  using assms(1)
proof (induction as arbitrary: n w)
  case (Cons x as)
  obtain r ptr where x: "x = (r, ptr)" by fastforce
  show ?case
  proof (cases r)
    case (Some c)
    obtain w1 where u: "unqueue_send c p w = Inr w1" "altdone_send as p sr sel (n + 1) w1 = Inr (sel', n', w')"
      using Cons.prems x Some assms(2) by (auto simp: cbind_eq_Inr_iff)
    show ?thesis using Cons.IH [OF u(2)] unqueue_touched(1) [OF u(1)] touched_trans [of "{}" p w w1 "{}" w'] by simp
  qed (use Cons x in auto)
qed (simp add: touched_def)

lemma altunmark_sel:
  assumes "altunmark cs ptr p 1 sel dn n w = Inr (sel', w')"
  shows "touched {g_Rd (w_prog w p), ptr} p w w' \<and>
    (if sel \<noteq> None \<and> sel \<in> set cs then sel' = None \<and> g_ptr (w_prog w' p) = next_word ptr else sel' = sel \<and> g_ptr (w_prog w' p) = g_ptr (w_prog w p))"
  using assms
proof (induction cs arbitrary: sel n w)
  case (Cons x cs)
  show ?case
  proof (cases x)
    case (Some c)
    obtain w1 where u: "unqueue_recv c p w = Inr w1" using Cons.prems Some by (auto simp: cbind_eq_Inr_iff)
    note t1 = unqueue_touched(2) [OF u]
    show ?thesis
    proof (cases "sel = Some c")
      case True
      define w2 where "w2 = (chosen p (next_word ptr) dn w1)\<lparr>w_mem := (w_mem (chosen p (next_word ptr) dn w1))(ptr := WORD_elem n)\<rparr>"
      have r: "altunmark cs ptr p 1 None dn (n + 1) w2 = Inr (sel', w')" using Cons.prems Some u True by (simp add: w2_def Let_def)
      have t2: "touched {g_Rd (w_prog w p), ptr} p w1 w2" "g_ptr (w_prog w2 p) = next_word ptr" "g_Rd (w_prog w2 p) = g_Rd (w_prog w p)"
        using t1 by (auto simp: w2_def chosen_def set_prog_def touched_def)
      then show ?thesis using Cons.IH [OF r] t1 touched_trans [of "{}" p w w1 _ w2] touched_trans [of _ p w w2 _ w'] True Some by fastforce
    next
      case False
      then have r: "altunmark cs ptr p 1 sel dn (n + 1) w1 = Inr (sel', w')" using Cons.prems Some u by simp
      show ?thesis using Cons.IH [OF r] t1 touched_trans [of "{}" p w w1 _ w'] False Some by auto
    qed
  next
    case None
    then show ?thesis using Cons.IH [of sel "n + 1" w] Cons.prems by auto
  qed
qed (simp add: touched_def)

lemma altdone_recv_sel:
  assumes "altdone_recv as p 1 sel n w = Inr w'"
  shows "touched (insert (g_Rd (w_prog w p)) (snd ` set as)) p w w' \<and>
    g_ptr (w_prog w' p) = (case Option.bind sel (arm_target as) of None \<Rightarrow> g_ptr (w_prog w p) | Some v \<Rightarrow> v)"
  using assms
proof (induction as arbitrary: sel n w)
  case Nil
  then show ?case by (cases sel) (simp_all add: touched_def)
next
  case (Cons x as)
  obtain r ptr where x: "x = (r, ptr)" by fastforce
  consider "r = Chan None" | c where "r = Chan (Some c)" | cs where "r = Arr cs" by (metis chanref.exhaust option.exhaust)
  then show ?case
  proof cases
    case 1
    then have "arm_target (x # as) = arm_target as" using x by auto
    then show ?thesis using Cons.IH [of sel "n + 1" w] Cons.prems 1 x by (auto intro: touched_mono)
  next
    case (2 c)
    obtain w1 where u: "unqueue_recv c p w = Inr w1" using Cons.prems 2 x by (auto simp: cbind_eq_Inr_iff)
    note t1 = unqueue_touched(2) [OF u]
    show ?thesis
    proof (cases "sel = Some c")
      case True
      have r: "altdone_recv as p 1 None (n + 1) (chosen p ptr n w1) = Inr w'" using Cons.prems 2 x u True by simp
      have t2: "touched {g_Rd (w_prog w p)} p w1 (chosen p ptr n w1)" "g_ptr (w_prog (chosen p ptr n w1) p) = ptr" "g_Rd (w_prog (chosen p ptr n w1) p) = g_Rd (w_prog w p)"
        using t1 by (auto simp: chosen_def set_prog_def touched_def)
      have "touched (insert (g_Rd (w_prog w p)) (snd ` set as)) p w w'"
        using touched_trans [OF touched_trans [OF conjunct1 [OF t1] t2(1)] conjunct1 [OF Cons.IH [OF r]]] t2(3) by simp
      then show ?thesis using Cons.IH [OF r] t2(2) True 2 x by (auto intro: touched_mono)
    next
      case False
      then have r: "altdone_recv as p 1 sel (n + 1) w1 = Inr w'" using Cons.prems 2 x u by simp
      have "touched (insert (g_Rd (w_prog w p)) (snd ` set as)) p w w'" using touched_trans [OF conjunct1 [OF t1] conjunct1 [OF Cons.IH [OF r]]] t1 by simp
      moreover have "Option.bind sel (arm_target (x # as)) = Option.bind sel (arm_target as)" using False 2 x by (cases sel) auto
      ultimately show ?thesis using Cons.IH [OF r] t1 x by (auto intro: touched_mono split: option.split)
    qed
  next
    case (3 cs)
    obtain sel1 w1 where u: "altunmark cs ptr p 1 sel n 0 w = Inr (sel1, w1)" "altdone_recv as p 1 sel1 (n + 1) w1 = Inr w'"
      using Cons.prems 3 x by (auto simp: cbind_eq_Inr_iff)
    note t1 = altunmark_sel [OF u(1)] and t2 = Cons.IH [OF u(2)]
    have "g_Rd (w_prog w1 p) = g_Rd (w_prog w p)" using t1 by (simp add: touched_def)
    then have "touched (insert (g_Rd (w_prog w p)) (snd ` set (x # as))) p w w'"
      using touched_trans [OF conjunct1 [OF t1] conjunct1 [OF t2]] x by (auto elim!: touched_mono)
    moreover have "g_ptr (w_prog w' p) = (case Option.bind sel (arm_target (x # as)) of None \<Rightarrow> g_ptr (w_prog w p) | Some v \<Rightarrow> v)"
      using t1 t2 3 x by (cases sel) (auto split: if_splits option.splits)
    ultimately show ?thesis by blast
  qed
qed

lemma arm_target_ex:
  assumes "c \<in> set (recv_chans as)"
  shows "\<exists>v. arm_target as c = Some v"
  using assms
proof (induction as)
  case (Cons x as)
  obtain r ptr where x: "x = (r, ptr)" by fastforce
  have m: "c \<in> set (arm_chans cs) \<Longrightarrow> Some c \<in> set cs" for cs by (force simp: arm_chans_def)
  show ?case
  proof (cases r)
    case (Chan y)
    then show ?thesis using Cons x m [of "[y]"] by (auto simp: ref_chans_def)
  next
    case (Arr cs)
    then show ?thesis using Cons x m [of cs] by (auto simp: ref_chans_def)
  qed
qed simp

lemma wake_recv_told:
  assumes I: "world_inv None w" and p: "p \<in> waits (c_recv (w_chan w c))"
    and w1: "(if g_state (w_prog w p) = Palt then altdone (g_alt (w_prog w p)) p (Some c) 1 (set_recv c q w) else Inr (set_recv c q w)) = Inr w1"
  shows "g_ptr (w_prog w1 p) = target w c p \<and> touched (told_at (w_prog w p)) p w w1"
proof (cases "g_state (w_prog w p) = Palt")
  case True
  have "g_state (w_prog w p) = Precv \<or> c \<in> set (recvs (g_alt (w_prog w p)))" using I p unfolding world_inv_def linked_def ghost_def by auto
  then obtain v where v: "arm_target (a_recv (g_alt (w_prog w p))) c = Some v" using True arm_target_ex by (auto simp: recvs_def)
  obtain sel n2 w2 where d: "altdone_send (a_send (g_alt (w_prog w p))) p 1 (Some c) 0 (set_recv c q w) = Inr (sel, n2, w2)"
    "altdone_recv (a_recv (g_alt (w_prog w p))) p 1 sel n2 w2 = Inr w1" using w1 True by (auto simp: altdone_def cbind_eq_Inr_iff)
  have t2: "sel = Some c" "touched {} p (set_recv c q w) w2" "w_prog w2 = w_prog w" using altdone_send_skips [OF d(1)] by simp_all
  have t3: "touched (told_at (w_prog w p)) p w2 w1" "g_ptr (w_prog w1 p) = v"
    using altdone_recv_sel [OF d(2)] t2(1,3) v True by (simp_all add: told_at_def)
  have "touched {} p w (set_recv c q w)" by (simp add: touched_def set_recv_def set_chan_def)
  then have "touched (told_at (w_prog w p)) p w w1" using touched_trans [OF touched_trans [OF _ t2(2)] t3(1), of "{}"] by simp
  then show ?thesis using t3(2) v True by (simp add: target_def)
next
  case False
  then have "w1 = set_recv c q w" using w1 by simp
  then show ?thesis using False by (simp add: set_recv_def set_chan_def target_def touched_def)
qed

lemma receiver_pending:
  assumes "world_inv None w" "waits (c_recv (w_chan w c)) \<noteq> {}"
  shows "pending w c = []"
proof -
  have "c_size (w_chan w c) = 0" "waits (c_send (w_chan w c)) = {}" using inv_chan_ok [OF assms(1), of c] assms(2) by (auto simp: chan_ok_def ghost_def)
  then show ?thesis using set_wlist [of "c_send (w_chan w c)"] by (simp add: pending_def buffered_def split: option.split)
qed

lemma isend_delivers:
  assumes I: "world_inv None w" and n: "waits (c_recv (w_chan w c)) \<noteq> {}"
  shows "\<exists>p ps w'. wlist (c_recv (w_chan w c)) = p # ps \<and> isend (Some c) w = Inr w' \<and> out_of_queues p w' \<and> pending w' c = [] \<and>
    (w_Rs w \<notin> told_at (w_prog w p) \<longrightarrow> w_mem w' (target w c p) = w_mem w (w_Rs w))"
proof -
  have q: "q_ok (c_recv (w_chan w c))" using world_inv_queues [OF I] by (simp add: queues_ok_def)
  obtain p where x: "qprog (c_recv (w_chan w c)) = Inr (Some p)" using qprog_ok [OF q] n by (metis not_None_eq)
  have pw: "p \<in> waits (c_recv (w_chan w c))" by (rule qprog_wait(2) [OF I x])
  obtain ps where ps: "wlist (c_recv (w_chan w c)) = p # ps" using cqdel_ok [OF q x] by blast
  obtain q' w1 where w1: "cqdel (c_recv (w_chan w c)) = Inr q'"
    "(if g_state (w_prog w p) = Palt then altdone (g_alt (w_prog w p)) p (Some c) 1 (set_recv c q' w) else Inr (set_recv c q' w)) = Inr w1"
    "left_queues p UNIV UNIV w w1" using wake_recv [OF I x] by (auto simp: ghost_def)
  define w2 where "w2 = mover (w1\<lparr>w_Rd := g_ptr (w_prog w1 p)\<rparr>)"
  define w' where "w' = (addrun p (set_prog p ((w_prog w2 p)\<lparr>g_ptr := Null\<rparr>) w2))\<lparr>w_t := 0\<rparr>"
  have s: "isend (Some c) w = Inr w'" unfolding w'_def by (rule isend_wake_eq [OF x w1(1,2) w2_def])
  have mc: "w_mem w' = w_mem w2" "w_chan w' = w_chan w1" by (simp_all add: w'_def w2_def addrun_def cwakeme_def set_prog_def)
  have sb: "same_buf (w_chan w c) (w_chan w1 c)" "wlist (c_send (w_chan w1 c)) = filter (\<lambda>x. x \<noteq> p) (wlist (c_send (w_chan w c)))"
    using w1(3) by (simp_all add: left_queues_def)
  have "c_size (w_chan w c) = 0" "waits (c_send (w_chan w c)) = {}" using inv_chan_ok [OF I, of c] n by (auto simp: chan_ok_def ghost_def)
  then have "pending w' c = []" using sb mc(2) set_wlist [of "c_send (w_chan w c)"]
    by (simp add: pending_def buffered_def same_buf_def split: option.split)
  moreover have "out_of_queues p w'" using left_all_out [OF w1(3)] mc(2) by (simp add: out_of_queues_def)
  moreover have "w_Rs w \<notin> told_at (w_prog w p) \<Longrightarrow> w_mem w' (target w c p) = w_mem w (w_Rs w)"
    using wake_recv_told [OF I pw w1(2)] mc(1) by (auto simp: w2_def mover_def touched_def)
  ultimately show ?thesis using ps s by blast
qed

end
