(* ===== verification/Dis_Chan_Theorems.thy ===== *)
theory Dis_Chan_Theorems
  imports Dis_Chan_Fifo
begin

text \<open>The properties of channels and alternation, on the states that runs of the virtual machine reach.\<close>

section \<open>Sample states\<close>

text \<open>Three programs run; channel 2 has a buffer for two values, the others none. Then the first one has sent on channel 3 and waits.\<close>

definition sample_prog :: prog where
  "sample_prog = \<lparr>g_state = Pready, g_ptr = Null, g_chan = None, g_alt = \<lparr>a_send = [], a_recv = []\<rparr>, g_Rd = Null, g_kill = None, g_killstr = False, g_addrun = False\<rparr>"

definition sample :: world where
  "sample = \<lparr>w_chan = (\<lambda>c. cnewc None (if c = 2 then 2 else 0)), w_prog = (\<lambda>p. sample_prog), w_mem = (\<lambda>l. if l = Var 7 then [1] else []),
    w_run = [6, 7, 8], w_woken = [], w_Rs = Var 7, w_Rd = Var 8, w_IC = 0, w_t = 0, w_xrand = 0x20342, w_malloc = [True]\<rparr>"

definition sample_sent :: world where
  "sample_sent = (case isend (Some 3) sample of Inl e \<Rightarrow> sample | Inr w \<Rightarrow> w)"

lemma sample_run: "chan_run sample"
  by (rule chan_run.start) (auto simp: fresh_chans_def run_ok_def sample_def sample_prog_def waiting_def)

lemmas sample_eval = sample_def sample_prog_def cnewc_def isend_def qprog_def wait_on_def delrun_def set_prog_def add_send_def cqadd_def
  set_send_def set_chan_def

lemma isend_sample: "isend (Some 3) sample = Inr sample_sent"
  by (simp add: sample_sent_def sample_eval)

lemma sample_sent_run: "chan_run sample_sent"
  using chan_run.send [OF sample_run _ isend_sample] by (simp add: sample_def)

lemma sample_sent_simps:
  "w_run sample_sent = [7, 8]" "w_chan sample_sent 3 = (cnewc None 0)\<lparr>c_send := [Some 6]\<rparr>" "w_Rd sample_sent = Var 8"
  "w_prog sample_sent 6 = sample_prog\<lparr>g_state := Psend, g_ptr := Var 7, g_chan := Some 3\<rparr>" "w_mem sample_sent (Var 7) = [1]"
  by (simp_all add: sample_sent_def sample_eval)

section \<open>The invariant\<close>



text \<open>C8:   A reachable state is well formed: sending, receiving and alternating (over distinct channels) never reach a null queue pointer or an empty run queue while a program
  runs; they return, or raise an exception of the virtual machine.
\<close>

theorem chan_not_stuck:
  assumes "chan_run w" "w_run w \<noteq> []"
  shows "isend d w \<noteq> Inl Undef \<and> irecv d w \<noteq> Inl Undef \<and> (alt_ok a \<longrightarrow> xecalt a block w \<noteq> Inl Undef)"
proof -
  note I = chan_run_inv [OF assms(1)]
  obtain p ps where p: "w_run w = p # ps" using assms(2) by (cases "w_run w") auto
  have "isend d w \<noteq> Inl Undef" using isend_step [OF I assms(2), of "the d"] by (cases d) (auto simp: isend_def [of None])
  moreover have "irecv d w \<noteq> Inl Undef" using irecv_step [OF I assms(2), of "the d"] by (cases d) (auto simp: irecv_def [of None])
  moreover have "xecalt a block w \<noteq> Inl Undef" if "alt_ok a" using xecalt_step [OF I p that, of block] by auto
  ultimately show ?thesis by blast
qed

theorem chan_not_stuck_witness:
  "chan_run sample_sent \<and> irecv (Some 3) sample_sent \<noteq> Inl Undef"
  using chan_not_stuck [OF sample_sent_run, of "Some 3"] sample_sent_run by (simp add: sample_sent_simps)

section \<open>First in, first out\<close>

text \<open>C7:   A channel refines a queue of values. When nobody waits to receive, a send that returns (at once or to wait) appends its value. When the
  queue is not empty a receive takes its head and leaves the rest, in order. When a program waits to receive, the queue is empty
  and stays so, and the value sent goes to the place the first waiting receiver, or the arm of its alternation, names.
\<close>

theorem chan_fifo:
  assumes "chan_run w" "w_run w \<noteq> []"
  shows "(waits (c_recv (w_chan w c)) = {} \<longrightarrow> isend (Some c) w = Inr w' \<longrightarrow> pending w' c = pending w c @ [w_mem w (w_Rs w)]) \<and>
    (separate w c \<longrightarrow> pending w c = x # xs \<longrightarrow> (\<exists>w'. irecv (Some c) w = Inr w' \<and> w_mem w' (w_Rd w) = x \<and> pending w' c = xs)) \<and>
    (waits (c_recv (w_chan w c)) \<noteq> {} \<longrightarrow> pending w c = [] \<and> (\<exists>p ps w'. wlist (c_recv (w_chan w c)) = p # ps \<and>
      isend (Some c) w = Inr w' \<and> pending w' c = [] \<and> (w_Rs w \<notin> told_at (w_prog w p) \<longrightarrow> w_mem w' (target w c p) = w_mem w (w_Rs w))))"
proof (intro conjI impI)
  note I = chan_run_inv [OF assms(1)]
  show "pending w' c = pending w c @ [w_mem w (w_Rs w)]" if "waits (c_recv (w_chan w c)) = {}" "isend (Some c) w = Inr w'"
    using isend_appends [OF I assms(2) that] .
  show "\<exists>w'. irecv (Some c) w = Inr w' \<and> w_mem w' (w_Rd w) = x \<and> pending w' c = xs" if "separate w c" "pending w c = x # xs"
    using irecv_takes [OF I _ that(1)] that(2) by auto
  assume n: "waits (c_recv (w_chan w c)) \<noteq> {}"
  show "pending w c = []" by (rule receiver_pending [OF I n])
  show "\<exists>p ps w'. wlist (c_recv (w_chan w c)) = p # ps \<and> isend (Some c) w = Inr w' \<and> pending w' c = [] \<and>
    (w_Rs w \<notin> told_at (w_prog w p) \<longrightarrow> w_mem w' (target w c p) = w_mem w (w_Rs w))" using isend_delivers [OF I n] by blast
qed

lemma sample_sent_pending: "pending sample_sent 3 = [[1]]" "separate sample_sent 3"
  by (auto simp: pending_def buffered_def sample_sent_simps cnewc_def offer_def sample_prog_def separate_def holds_def)

theorem chan_fifo_witness:
  "pending sample_sent 3 = [[1]] \<and> (\<exists>w'. irecv (Some 3) sample_sent = Inr w' \<and> w_mem w' (Var 8) = [1] \<and> pending w' 3 = [])"
  using chan_fifo [OF sample_sent_run, of 3 _ "[1]" "[]"] sample_sent_pending by (simp add: sample_sent_simps)

section \<open>Alternation\<close>





section \<open>Where the code relies on distinct channels\<close>

text \<open>
  Nothing keeps a program from naming a channel twice in one alternation. It is then twice in that channel's queue, \<open>cqdelp\<close> removes
  both nodes and leaves the null pointer, and the second arm of \<open>altdone\<close> reads through it.
\<close>

lemma alt_same_channel_null: "xecalt \<lparr>a_send = [], a_recv = [(Chan (Some 3), Var 3), (Chan (Some 3), Var 4)]\<rparr> False sample = Inl Undef"
  by (simp add: xecalt_def currun_def altrdy_def altdone_def sample_def sample_prog_def cnewc_def can_recv_def qprog_def CANGET_def add_recv_def
      cqadd_def set_recv_def set_chan_def unqueue_recv_def cqdelp_def)

text \<open>
  A device that asks for a buffer of negative length, as \<open>srvunblock\<close> does, gets one that takes nothing: its send, which should never wait, takes
  whichever program runs out of the run queue and lets it wait on the channel.
\<close>

lemma csendalt_negative_waits: "\<exists>w'. csendalt (Some 3) (Var 7) (- 1) sample = Inr (w', True) \<and> w_run w' = [7, 8] \<and> c_send (w_chan w' 3) = [Some 6]"
  by (simp add: csendalt_def sample_eval cputb_def)

end
