(* ===== verification/Dis_Object.thy ===== *)
theory Dis_Object
  imports Dis_Memory
begin

text \<open>
  The object format of the Dis virtual machine: how the Limbo compiler writes it (\<^verbatim>\<open>src/limbo/dis.c\<close>) and how the loader
  reads it (\<^verbatim>\<open>src/libinterp/load.c\<close>). This theory has the numbers of both and the instructions.
\<close>

section \<open>Numbers\<close>

text \<open>
  The compiler's \<open>long\<close>s are integers; \<open>Bputc\<close> writes their low eight bits. The reader takes bytes off the front of the
  rest of the file; there is no test against its end, so reading behind it is \<open>Undef\<close>.
\<close>

definition bputc :: "int \<Rightarrow> byte" where "bputc x = word_of_int x"

definition discon :: "int \<Rightarrow> byte list cres" where
  "discon val =
    (if val \<ge> -64 \<and> val \<le> 63 then Inr [bputc (val AND NOT 0x80)]
     else if val \<ge> -8192 \<and> val \<le> 8191 then Inr [bputc ((drop_bit 8 val AND NOT 0xC0) OR 0x80), bputc val]
     else if val < 0 \<and> (drop_bit 29 val AND 7) \<noteq> 7 \<or> val > 0 \<and> drop_bit 29 val \<noteq> 0 then Inl (Raise ''overflow in constant'')
     else Inr [bputc (drop_bit 24 val OR 0xC0), bputc (drop_bit 16 val), bputc (drop_bit 8 val), bputc val])"

definition disword :: "int \<Rightarrow> byte list" where
  "disword w = [bputc (drop_bit 24 w), bputc (drop_bit 16 w), bputc (drop_bit 8 w), bputc w]"

definition sext6 :: "int \<Rightarrow> int" where "sext6 c = (if c AND 0x20 \<noteq> 0 then c OR NOT 0x3F else c AND 0x3F)"

definition dis_operand :: "byte list \<Rightarrow> (int \<times> byte list) cres" where
  "dis_operand p =
    (case p of
       [] \<Rightarrow> Inl Undef
     | b # p1 \<Rightarrow>
         let c = uint b; k = c AND 0xC0 in
         if k = 0x00 then Inr (c, p1)
         else if k = 0x40 then Inr (c OR NOT 0x7F, p1)
         else if k = 0x80 then
           (case p1 of b1 # p2 \<Rightarrow> Inr (push_bit 8 (sext6 c) OR uint b1, p2) | _ \<Rightarrow> Inl Undef)
         else
           (case p1 of
              b1 # b2 # b3 # p2 \<Rightarrow> Inr (push_bit 24 (sext6 c) OR push_bit 16 (uint b1) OR push_bit 8 (uint b2) OR uint b3, p2)
            | _ \<Rightarrow> Inl Undef))"

definition disw :: "byte list \<Rightarrow> (int \<times> byte list) cres" where
  "disw p =
    (case p of
       c0 # c1 # c2 # c3 # p1 \<Rightarrow> Inr (signed_take_bit 31 (push_bit 24 (uint c0) OR push_bit 16 (uint c1) OR push_bit 8 (uint c2) OR uint c3), p1)
     | _ \<Rightarrow> Inl Undef)"

lemma bit_int_small: "- (2 ^ k) \<le> (v :: int) \<Longrightarrow> v < 2 ^ k \<Longrightarrow> k \<le> n \<Longrightarrow> bit v n \<longleftrightarrow> v < 0"
proof -
  assume v: "- (2 ^ k) \<le> v" "v < 2 ^ k" "k \<le> n"
  then have n: "- (2 ^ n) \<le> v" "v < 2 ^ n" using power_increasing [OF v(3), of "2::int"] by linarith+
  show ?thesis
  proof (cases "v < 0")
    case True
    then have "v div 2 ^ n = -1" using n by (intro int_div_pos_eq [where r = "v + 2 ^ n"]) simp_all
    then show ?thesis using True by (simp add: bit_iff_odd)
  next
    case False
    then have "v div 2 ^ n = 0" using n by simp
    then show ?thesis using False by (simp add: bit_iff_odd)
  qed
qed

lemma bit_consts:
  "bit (0x80 :: int) n \<longleftrightarrow> n = 7" "bit (0x40 :: int) n \<longleftrightarrow> n = 6" "bit (0xC0 :: int) n \<longleftrightarrow> n = 6 \<or> n = 7" "bit (0x20 :: int) n \<longleftrightarrow> n = 5"
  "bit (0x3F :: int) n \<longleftrightarrow> n < 6" "bit (0x7F :: int) n \<longleftrightarrow> n < 7" "bit (7 :: int) n \<longleftrightarrow> n < 3"
proof -
  have e: "(0x80 :: int) = push_bit 7 1" "(0x40 :: int) = push_bit 6 1" "(0xC0 :: int) = push_bit 6 (mask 2)" "(0x20 :: int) = push_bit 5 1"
    "(0x3F :: int) = mask 6" "(0x7F :: int) = mask 7" "(7 :: int) = mask 3" by (simp_all add: push_bit_eq_mult mask_eq_exp_minus_1)
  show "bit (0x80 :: int) n \<longleftrightarrow> n = 7" "bit (0x40 :: int) n \<longleftrightarrow> n = 6" "bit (0xC0 :: int) n \<longleftrightarrow> n = 6 \<or> n = 7" "bit (0x20 :: int) n \<longleftrightarrow> n = 5"
    unfolding e(1-4) bit_push_bit_iff_int bit_1_iff bit_mask_iff by auto
  show "bit (0x3F :: int) n \<longleftrightarrow> n < 6" "bit (0x7F :: int) n \<longleftrightarrow> n < 7" "bit (7 :: int) n \<longleftrightarrow> n < 3" unfolding e(5-7) bit_mask_iff by simp_all
qed

lemma bit_neg_consts:
  "bit (-129 :: int) n \<longleftrightarrow> n \<noteq> 7" "bit (-193 :: int) n \<longleftrightarrow> n \<noteq> 6 \<and> n \<noteq> 7" "bit (-64 :: int) n \<longleftrightarrow> 6 \<le> n" "bit (-128 :: int) n \<longleftrightarrow> 7 \<le> n"
proof -
  have e: "(-129 :: int) = NOT 0x80" "(-193 :: int) = NOT 0xC0" "(-64 :: int) = NOT 0x3F" "(-128 :: int) = NOT 0x7F" by simp_all
  show "bit (-129 :: int) n \<longleftrightarrow> n \<noteq> 7" "bit (-193 :: int) n \<longleftrightarrow> n \<noteq> 6 \<and> n \<noteq> 7" "bit (-64 :: int) n \<longleftrightarrow> 6 \<le> n" "bit (-128 :: int) n \<longleftrightarrow> 7 \<le> n"
    unfolding e bit_not_iff bit_consts by auto
qed

lemma bit_uint_bputc: "bit (uint (bputc x)) n \<longleftrightarrow> n < 8 \<and> bit x n"
  by (auto simp: bputc_def uint_word_of_int_eq bit_take_bit_iff)

lemmas obj_bits = bit_consts bit_neg_consts bit_uint_bputc bit_and_iff bit_or_iff bit_not_iff bit_push_bit_iff bit_drop_bit_eq

text \<open>The class of a first byte is its two high bits.\<close>

lemma and_C0:
  "(c :: int) AND 0xC0 = 0 \<longleftrightarrow> \<not> bit c 7 \<and> \<not> bit c 6" "c AND 0xC0 = 0x40 \<longleftrightarrow> \<not> bit c 7 \<and> bit c 6" "c AND 0xC0 = 0x80 \<longleftrightarrow> bit c 7 \<and> \<not> bit c 6"
  by (auto simp: bit_eq_iff [where 'a = int] obj_bits dest: spec [of _ 6] spec [of _ 7])

lemma operand_class:
  "\<not> bit (uint b) 7 \<Longrightarrow> \<not> bit (uint b) 6 \<Longrightarrow> dis_operand (b # p) = Inr (uint b, p)"
  "\<not> bit (uint b) 7 \<Longrightarrow> bit (uint b) 6 \<Longrightarrow> dis_operand (b # p) = Inr (uint b OR NOT 0x7F, p)"
  "bit (uint b) 7 \<Longrightarrow> \<not> bit (uint b) 6 \<Longrightarrow> dis_operand (b # b1 # p) = Inr (push_bit 8 (sext6 (uint b)) OR uint b1, p)"
  "bit (uint b) 7 \<Longrightarrow> bit (uint b) 6 \<Longrightarrow> dis_operand (b # b1 # b2 # b3 # p) =
    Inr (push_bit 24 (sext6 (uint b)) OR push_bit 16 (uint b1) OR push_bit 8 (uint b2) OR uint b3, p)"
  by (simp_all add: dis_operand_def Let_def and_C0)

lemma and_20: "(c :: int) AND 0x20 = 0 \<longleftrightarrow> \<not> bit c 5"
  by (auto simp: bit_eq_iff [where 'a = int] obj_bits)

lemma bit_sext6: "bit (sext6 c) n \<longleftrightarrow> (if n < 6 then bit c n else bit c 5)"
  by (auto simp: sext6_def and_20 obj_bits)

definition con_ok :: "int \<Rightarrow> bool" where "con_ok v \<longleftrightarrow> - (2 ^ 29) \<le> v \<and> v < 2 ^ 29"

lemma operand_discon1:
  assumes v: "-64 \<le> v" "v \<le> 63"
  shows "dis_operand (bputc (v AND NOT 0x80) # p) = Inr (v, p)"
proof -
  have b: "bit v n \<longleftrightarrow> v < 0" if "6 \<le> n" for n using bit_int_small [of 6 v n] v that by simp
  let ?c = "uint (bputc (v AND NOT 0x80))"
  have c: "bit ?c n \<longleftrightarrow> n < 7 \<and> bit v n" for n by (auto simp: obj_bits)
  show ?thesis
  proof (cases "v < 0")
    case True
    have "?c OR NOT 0x7F = v" by (rule bit_eqI) (use b True in \<open>auto simp: c obj_bits\<close>)
    then show ?thesis using operand_class(2) [of "bputc (v AND NOT 0x80)" p] c [of 6] c [of 7] b [of 6] True by simp
  next
    case False
    have "?c = v"
    proof (rule bit_eqI)
      show "bit ?c n = bit v n" for n :: nat unfolding c using b [of n] False by (cases "n < 7") auto
    qed
    then show ?thesis using operand_class(1) [of "bputc (v AND NOT 0x80)" p] c [of 6] c [of 7] b [of 6] False by simp
  qed
qed

lemma operand_discon2:
  assumes v: "-8192 \<le> v" "v \<le> 8191"
  shows "dis_operand (bputc ((drop_bit 8 v AND NOT 0xC0) OR 0x80) # bputc v # p) = Inr (v, p)"
proof -
  have b: "bit v n \<longleftrightarrow> v < 0" if "13 \<le> n" for n using bit_int_small [of 13 v n] v that by simp
  let ?c = "uint (bputc ((drop_bit 8 v AND NOT 0xC0) OR 0x80))"
  have c: "bit ?c n \<longleftrightarrow> n < 6 \<and> bit v (8 + n) \<or> n = 7" for n by (auto simp: obj_bits)
  have "push_bit 8 (sext6 ?c) OR uint (bputc v) = v"
  proof (rule bit_eqI)
    fix n :: nat
    consider "n < 8" | "8 \<le> n" "n < 14" | "14 \<le> n" by linarith
    then show "bit (push_bit 8 (sext6 ?c) OR uint (bputc v)) n = bit v n"
      by cases (use b [of 13] b [of n] in \<open>auto simp: obj_bits bit_sext6 c\<close>)
  qed
  then show ?thesis using operand_class(3) [of "bputc ((drop_bit 8 v AND NOT 0xC0) OR 0x80)" "bputc v" p] c [of 6] c [of 7] by simp
qed

lemma operand_discon4:
  assumes v: "con_ok v"
  shows "dis_operand (bputc (drop_bit 24 v OR 0xC0) # bputc (drop_bit 16 v) # bputc (drop_bit 8 v) # bputc v # p) = Inr (v, p)"
proof -
  have b: "bit v n \<longleftrightarrow> v < 0" if "29 \<le> n" for n using bit_int_small [of 29 v n] v that by (simp add: con_ok_def)
  let ?c = "uint (bputc (drop_bit 24 v OR 0xC0))"
  have c: "bit ?c n \<longleftrightarrow> n < 6 \<and> bit v (24 + n) \<or> n = 6 \<or> n = 7" for n by (auto simp: obj_bits)
  have "push_bit 24 (sext6 ?c) OR push_bit 16 (uint (bputc (drop_bit 16 v))) OR push_bit 8 (uint (bputc (drop_bit 8 v))) OR uint (bputc v) = v"
    (is "?l = v")
  proof (rule bit_eqI)
    fix n :: nat
    consider "n < 8" | "8 \<le> n" "n < 16" | "16 \<le> n" "n < 24" | "24 \<le> n" "n < 30" | "30 \<le> n" by linarith
    then show "bit ?l n = bit v n"
      by cases (use b [of 29] b [of n] in \<open>auto simp: obj_bits bit_sext6 c\<close>)
  qed
  then show ?thesis using operand_class(4) [of "bputc (drop_bit 24 v OR 0xC0)" "bputc (drop_bit 16 v)" "bputc (drop_bit 8 v)" "bputc v" p] c [of 6] c [of 7] by simp
qed

lemma discon_ok:
  assumes "con_ok v"
  shows "\<exists>bs. discon v = Inr bs \<and> bs \<noteq> [] \<and> length bs \<le> 4 \<and> (\<forall>p. dis_operand (bs @ p) = Inr (v, p))"
proof -
  have b: "bit v n \<longleftrightarrow> v < 0" if "29 \<le> n" for n using bit_int_small [of 29 v n] assms that by (simp add: con_ok_def)
  have n: "drop_bit 29 v AND 7 = 7" if "v < 0" by (rule bit_eqI) (use b that in \<open>auto simp: obj_bits\<close>)
  have p: "drop_bit 29 v = 0" if "v > 0" using assms that by (simp add: con_ok_def drop_bit_eq_div)
  consider "-64 \<le> v \<and> v \<le> 63" | "\<not> (-64 \<le> v \<and> v \<le> 63)" "-8192 \<le> v \<and> v \<le> 8191" | "\<not> (-64 \<le> v \<and> v \<le> 63)" "\<not> (-8192 \<le> v \<and> v \<le> 8191)" by blast
  then show ?thesis
  proof cases
    case 1
    then show ?thesis using operand_discon1 [of v] by (simp add: discon_def)
  next
    case 2
    then show ?thesis unfolding discon_def if_not_P [OF 2(1)] using operand_discon2 [of v] by simp
  next
    case 3
    have c: "\<not> (v < 0 \<and> (drop_bit 29 v AND 7) \<noteq> 7 \<or> v > 0 \<and> drop_bit 29 v \<noteq> 0)" using n p by auto
    show ?thesis unfolding discon_def if_not_P [OF 3(1)] if_not_P [OF 3(2)] if_not_P [OF c] by (simp add: operand_discon4 [OF assms])
  qed
qed

lemma disw_disword: "disw (disword v @ p) = Inr (signed_take_bit 31 v, p)"
proof -
  let ?x = "push_bit 24 (uint (bputc (drop_bit 24 v))) OR push_bit 16 (uint (bputc (drop_bit 16 v))) OR push_bit 8 (uint (bputc (drop_bit 8 v))) OR uint (bputc v)"
  have "bit ?x n \<longleftrightarrow> n < 32 \<and> bit v n" for n :: nat
  proof -
    consider "n < 8" | "8 \<le> n" "n < 16" | "16 \<le> n" "n < 24" | "24 \<le> n" "n < 32" | "32 \<le> n" by linarith
    then show ?thesis by cases (auto simp: obj_bits)
  qed
  then have "signed_take_bit 31 ?x = signed_take_bit 31 v" by (intro bit_eqI) (auto simp: bit_signed_take_bit_iff min_def)
  then show ?thesis by (simp add: disw_def disword_def)
qed

text \<open>The numbers are an unambiguous framing of the file.\<close>

definition operand_frame :: "byte list \<Rightarrow> (int \<times> byte list) option" where
  "operand_frame p = (case dis_operand p of Inl e \<Rightarrow> None | Inr r \<Rightarrow> Some r)"

definition discon_bytes :: "int \<Rightarrow> byte list" where "discon_bytes v = (case discon v of Inl e \<Rightarrow> [] | Inr bs \<Rightarrow> bs)"

lemma discon_eq: "con_ok v \<Longrightarrow> discon v = Inr (discon_bytes v)"
  using discon_ok [of v] by (auto simp: discon_bytes_def)

lemma discon_bytes: "con_ok v \<Longrightarrow> dis_operand (discon_bytes v @ p) = Inr (v, p)" "con_ok v \<Longrightarrow> discon_bytes v \<noteq> []" "con_ok v \<Longrightarrow> length (discon_bytes v) \<le> 4"
  using discon_ok [of v] by (auto simp: discon_bytes_def)

interpretation con: framing discon_bytes operand_frame con_ok
  by unfold_locales (simp_all add: operand_frame_def discon_bytes)

section \<open>Reading\<close>

text \<open>The loader's state: the rest of the file, and whether the next calls of \<open>malloc\<close> succeed. A failure is a message for \<open>kwerrstr\<close>; the loader then returns nil.\<close>

record lst =
  l_in :: "byte list"
  l_mem :: "nat \<Rightarrow> bool"

type_synonym 'a loader = "lst \<Rightarrow> ('a \<times> lst) cres"

definition lret :: "'a \<Rightarrow> 'a loader" where "lret x s = Inr (x, s)"
definition lbind :: "'a loader \<Rightarrow> ('a \<Rightarrow> 'b loader) \<Rightarrow> 'b loader" where "lbind m f s = cbind (m s) (\<lambda>(x, s). f x s)"
definition kwerrstr :: "string \<Rightarrow> 'a loader" where "kwerrstr e s = Inl (Raise e)"
definition lguard :: "bool \<Rightarrow> unit loader" where "lguard b s = (if b then Inr ((), s) else Inl Undef)"
definition lift_in :: "(byte list \<Rightarrow> ('a \<times> byte list) cres) \<Rightarrow> 'a loader" where
  "lift_in f s = cbind (f (l_in s)) (\<lambda>(x, p). Inr (x, s\<lparr>l_in := p\<rparr>))"
definition get_operand :: "int loader" where "get_operand = lift_in dis_operand"
definition get_disw :: "int loader" where "get_disw = lift_in disw"
definition get_byte :: "byte loader" where "get_byte = lift_in (\<lambda>p. case p of [] \<Rightarrow> Inl Undef | b # q \<Rightarrow> Inr (b, q))"
definition get_bytes :: "nat \<Rightarrow> byte list loader" where
  "get_bytes n = lift_in (\<lambda>p. if n \<le> length p then Inr (take n p, drop n p) else Inl Undef)"
definition malloc :: "bool loader" where "malloc s = Inr (l_mem s 0, s\<lparr>l_mem := (\<lambda>i. l_mem s (Suc i))\<rparr>)"
definition lneed :: "unit loader" where
  "lneed = lbind malloc (\<lambda>ok. if ok then lret () else kwerrstr exNomem)"

text \<open>A zero-terminated string in the file, and the loop that skips it.\<close>

fun cstring :: "byte list \<Rightarrow> (byte list \<times> byte list) cres" where
  "cstring [] = Inl Undef"
| "cstring (b # p) = (if b = 0 then Inr ([], p) else cbind (cstring p) (\<lambda>(s, q). Inr (b # s, q)))"

definition get_cstring :: "byte list loader" where "get_cstring = lift_in cstring"

text \<open>\<open>reads m bs x\<close>: from a file that begins with \<open>bs\<close> \<open>m\<close> reads \<open>x\<close> and leaves what comes after, when memory does not run out.\<close>

definition feed :: "byte list \<Rightarrow> lst" where "feed p = \<lparr>l_in = p, l_mem = (\<lambda>i. True)\<rparr>"

definition reads :: "'a loader \<Rightarrow> byte list \<Rightarrow> 'a \<Rightarrow> bool" where
  "reads m bs x \<longleftrightarrow> (\<forall>p. m (feed (bs @ p)) = Inr (x, feed p))"

named_theorems readsI \<open>what the readers of the loader take off the file\<close>

lemma reads_ret [readsI]: "reads (lret x) [] x"
  by (simp add: reads_def lret_def)

lemma reads_bind [readsI]: "reads m a x \<Longrightarrow> reads (f x) b y \<Longrightarrow> reads (lbind m f) (a @ b) y"
  by (simp add: reads_def lbind_def)

lemma reads_bind0: "reads m [] x \<Longrightarrow> reads (f x) b y \<Longrightarrow> reads (lbind m f) b y"
  using reads_bind [of m "[]" x f b y] by simp

lemma reads_operand [readsI]: "con_ok v \<Longrightarrow> reads get_operand (discon_bytes v) v"
  by (simp add: reads_def get_operand_def lift_in_def feed_def discon_bytes)

lemma reads_disw [readsI]: "reads get_disw (disword v) (signed_take_bit 31 v)"
  by (simp add: reads_def get_disw_def lift_in_def feed_def disw_disword)

lemma reads_byte [readsI]: "reads get_byte [b] b"
  by (simp add: reads_def get_byte_def lift_in_def feed_def)

lemma reads_bytes [readsI]: "n = length bs \<Longrightarrow> reads (get_bytes n) bs bs"
  by (simp add: reads_def get_bytes_def lift_in_def feed_def)

lemma reads_need: "reads lneed [] ()"
  by (simp add: reads_def lneed_def lbind_def malloc_def lret_def feed_def)

lemma reads_guard: "b \<Longrightarrow> reads (lguard b) [] ()"
  by (simp add: reads_def lguard_def)

lemma cstring_append: "0 \<notin> set s \<Longrightarrow> cstring (s @ 0 # p) = Inr (s, p)"
  by (induction s) auto

lemma reads_cstring [readsI]: "0 \<notin> set s \<Longrightarrow> reads get_cstring (s @ [0]) s"
  by (simp add: reads_def get_cstring_def lift_in_def feed_def cstring_append)

end
