(* ===== verification/Dis_Object_Inst.thy ===== *)
theory Dis_Object_Inst
  imports Dis_Object
begin

text \<open>Instructions: \<open>disinst\<close> of the compiler and the first loop of \<open>parsemod\<close>.\<close>

section \<open>The compiler\<close>

datatype cmode = Aimm | Amp | Ampind | Afp | Afpind | Apc | Adesc | Aoff | Anoff | Aerr | Anone | Aldt

text \<open>An operand; \<open>ad_iface\<close> is \<open>decl->iface->offset\<close>.\<close>

record addr =
  ad_reg :: int
  ad_offset :: int
  ad_iface :: int

record cinst =
  n_op :: int
  n_sm :: cmode
  n_mm :: cmode
  n_dm :: cmode
  n_s :: addr
  n_m :: addr
  n_d :: addr

definition INOOP :: int where "INOOP = 177"

fun dismode :: "cmode \<Rightarrow> int" where
  "dismode Aimm = 2" | "dismode Amp = 0" | "dismode Ampind = 4" | "dismode Afp = 1" | "dismode Afpind = 5" | "dismode Apc = 2"
| "dismode Adesc = 2" | "dismode Aoff = 2" | "dismode Anoff = 2" | "dismode Aerr = 3" | "dismode Anone = 3" | "dismode Aldt = 2"

fun disregmode :: "cmode \<Rightarrow> int" where
  "disregmode Aimm = 0x40" | "disregmode Amp = 0xC0" | "disregmode Ampind = 0" | "disregmode Afp = 0x80" | "disregmode Afpind = 0" | "disregmode Apc = 0x40"
| "disregmode Adesc = 0x40" | "disregmode Aoff = 0x40" | "disregmode Anoff = 0x40" | "disregmode Aerr = 0" | "disregmode Anone = 0" | "disregmode Aldt = 0x40"

text \<open>\<open>disbcon\<close> is \<open>discon\<close> into the instruction buffer. The constants \<open>disaddr\<close> writes, in their order:\<close>

definition disbcon :: "int \<Rightarrow> byte list cres" where "disbcon val = discon val"

fun addr_cons :: "cmode \<Rightarrow> addr \<Rightarrow> int list" where
  "addr_cons Aimm a = [ad_offset a]" | "addr_cons Apc a = [ad_offset a]" | "addr_cons Adesc a = [ad_offset a]"
| "addr_cons Aoff a = [ad_iface a]" | "addr_cons Anoff a = [- (ad_iface a + 1)]"
| "addr_cons Afp a = [ad_reg a]" | "addr_cons Amp a = [ad_reg a]" | "addr_cons Aldt a = [ad_reg a]"
| "addr_cons Afpind a = [ad_reg a, ad_offset a]" | "addr_cons Ampind a = [ad_reg a, ad_offset a]"
| "addr_cons Anone a = [0]" | "addr_cons Aerr a = [0]"

fun discons :: "int list \<Rightarrow> byte list cres" where
  "discons [] = Inr []"
| "discons (v # vs) = cbind (disbcon v) (\<lambda>b. cbind (discons vs) (\<lambda>bs. Inr (b @ bs)))"

definition disaddr :: "cmode \<Rightarrow> addr \<Rightarrow> byte list cres" where "disaddr m a = discons (addr_cons m a)"

definition disoperand :: "cmode \<Rightarrow> addr \<Rightarrow> byte list cres" where
  "disoperand m a = (if m \<noteq> Anone then disaddr m a else Inr [])"

definition add_byte :: "cinst \<Rightarrow> byte" where
  "add_byte n = bputc (push_bit 3 (dismode (n_sm n)) OR dismode (n_dm n) OR disregmode (n_mm n))"

definition disinst1 :: "cinst \<Rightarrow> byte list cres" where
  "disinst1 n =
    cbind (disoperand (n_mm n) (n_m n)) (\<lambda>bm.
    cbind (disoperand (n_sm n) (n_s n)) (\<lambda>bs.
    cbind (disoperand (n_dm n) (n_d n)) (\<lambda>bd.
    Inr ([bputc (n_op n), add_byte n] @ bm @ bs @ bd))))"

definition MAXCON :: nat where "MAXCON = 4"
definition MAXADDR :: nat where "MAXADDR = 2 * MAXCON"
definition MAXINST :: nat where "MAXINST = 3 * MAXADDR + 2"
definition NIBUF :: nat where "NIBUF = 1024"

text \<open>The instruction buffer is an array of \<open>NIBUF\<close> bytes; more are undefined.\<close>

fun disinst :: "cinst list \<Rightarrow> byte list \<Rightarrow> byte list \<Rightarrow> byte list cres" where
  "disinst [] out ibuf = Inr (out @ ibuf)"
| "disinst (n # ns) out ibuf =
    (if n_op n = INOOP then disinst ns out ibuf
     else let (out, ibuf) = (if length ibuf \<ge> NIBUF - MAXINST then (out @ ibuf, []) else (out, ibuf)) in
       cbind (disinst1 n) (\<lambda>bs.
       cbind (cguard (length (ibuf @ bs) \<le> NIBUF)) (\<lambda>_. disinst ns out (ibuf @ bs))))"

section \<open>The loader\<close>

text \<open>An operand field of \<open>struct Inst\<close>: a word, the two halves \<open>i.f\<close> and \<open>i.s\<close> of one, or the instruction a branch was patched to.\<close>

datatype adr = AWord u64 | AInst nat

record dinst =
  i_op :: byte
  i_add :: byte
  i_reg :: u16
  i_s :: adr
  i_d :: adr

definition ind_word :: "int \<Rightarrow> int \<Rightarrow> adr" where
  "ind_word f s = AWord (ucast (word_of_int f :: u16) OR push_bit 16 (ucast (word_of_int s :: u16)))"

text \<open>\<open>ICALL\<close>, \<open>ISPAWN\<close>, \<open>IJMP\<close> and the branches on bytes, words, reals, strings and bigs.\<close>

definition branch_op :: "byte \<Rightarrow> bool" where
  "branch_op op \<longleftrightarrow> (let o' = unat op in o' = 4 \<or> o' = 6 \<or> o' = 13 \<or> 87 \<le> o' \<and> o' \<le> 110 \<or> 129 \<le> o' \<and> o' \<le> 134)"

definition brpatch :: "byte \<Rightarrow> int \<Rightarrow> int \<Rightarrow> adr option" where
  "brpatch op imm nprog =
    (if branch_op op then if imm < 0 \<or> imm \<ge> nprog then None else Some (AInst (nat imm))
     else Some (AWord (word_of_int imm)))"

definition parse_reg :: "byte \<Rightarrow> u16 loader" where
  "parse_reg add = (if add AND 0xC0 \<in> {0x40, 0x80, 0xC0} then lbind get_operand (\<lambda>v. lret (word_of_int v)) else lret 0)"

definition parse_src :: "byte \<Rightarrow> adr loader" where
  "parse_src add =
    (let k = add AND 0x38 in
     if k = 0x08 \<or> k = 0x00 \<or> k = 0x10 then lbind get_operand (\<lambda>v. lret (AWord (word_of_int v)))
     else if k = 0x28 \<or> k = 0x20 then lbind get_operand (\<lambda>f. lbind get_operand (\<lambda>s. lret (ind_word f s)))
     else lret (AWord 0))"

definition parse_dst :: "byte \<Rightarrow> byte \<Rightarrow> int \<Rightarrow> adr loader" where
  "parse_dst op add nprog =
    (let k = add AND 0x07 in
     if k = 0x01 \<or> k = 0x00 then lbind get_operand (\<lambda>v. lret (AWord (word_of_int v)))
     else if k = 0x02 then lbind get_operand (\<lambda>v. case brpatch op v nprog of None \<Rightarrow> kwerrstr ''bad branch addr'' | Some a \<Rightarrow> lret a)
     else if k = 0x05 \<or> k = 0x04 then lbind get_operand (\<lambda>f. lbind get_operand (\<lambda>s. lret (ind_word f s)))
     else lret (AWord 0))"

definition parse_inst :: "int \<Rightarrow> dinst loader" where
  "parse_inst nprog =
    lbind get_byte (\<lambda>op. lbind get_byte (\<lambda>add.
    lbind (parse_reg add) (\<lambda>reg. lbind (parse_src add) (\<lambda>s. lbind (parse_dst op add nprog) (\<lambda>d.
    lret \<lparr>i_op = op, i_add = add, i_reg = reg, i_s = s, i_d = d\<rparr>)))))"

fun repeat :: "nat \<Rightarrow> 'a loader \<Rightarrow> 'a list loader" where
  "repeat 0 m = lret []"
| "repeat (Suc n) m = lbind m (\<lambda>x. lbind (repeat n m) (\<lambda>xs. lret (x # xs)))"

section \<open>What the compiler writes the loader reads\<close>

definition cons_ok :: "cmode \<Rightarrow> addr \<Rightarrow> bool" where "cons_ok m a \<longleftrightarrow> (\<forall>v\<in>set (addr_cons m a). con_ok v)"

text \<open>Instructions as the compiler makes them: the middle operand is not indirect, and branches stay in the module.\<close>

definition inst_ok :: "int \<Rightarrow> cinst \<Rightarrow> bool" where
  "inst_ok nprog n \<longleftrightarrow> cons_ok (n_sm n) (n_s n) \<and> cons_ok (n_mm n) (n_m n) \<and> cons_ok (n_dm n) (n_d n) \<and>
    n_mm n \<notin> {Ampind, Afpind, Aerr} \<and> n_sm n \<noteq> Aerr \<and> n_dm n \<noteq> Aerr \<and>
    (dismode (n_dm n) = 2 \<and> branch_op (bputc (n_op n)) \<longrightarrow> 0 \<le> hd (addr_cons (n_dm n) (n_d n)) \<and> hd (addr_cons (n_dm n) (n_d n)) < nprog)"

text \<open>The instruction that is meant.\<close>

definition loaded_adr :: "cmode \<Rightarrow> addr \<Rightarrow> adr" where
  "loaded_adr m a =
    (if m = Anone then AWord 0 else case addr_cons m a of [v] \<Rightarrow> AWord (word_of_int v) | f # s # _ \<Rightarrow> ind_word f s | [] \<Rightarrow> AWord 0)"

definition loaded :: "cinst \<Rightarrow> dinst" where
  "loaded n =
    \<lparr>i_op = bputc (n_op n), i_add = add_byte n,
     i_reg = (if n_mm n = Anone then 0 else word_of_int (hd (addr_cons (n_mm n) (n_m n)))),
     i_s = loaded_adr (n_sm n) (n_s n),
     i_d = (if dismode (n_dm n) = 2 \<and> branch_op (bputc (n_op n)) then AInst (nat (hd (addr_cons (n_dm n) (n_d n)))) else loaded_adr (n_dm n) (n_d n))\<rparr>"

lemma discons_eq: "\<forall>v\<in>set vs. con_ok v \<Longrightarrow> discons vs = Inr (concat (map discon_bytes vs))"
  by (induction vs) (simp_all add: disbcon_def discon_eq)

definition opnd_bytes :: "cmode \<Rightarrow> addr \<Rightarrow> byte list" where
  "opnd_bytes m a = (if m \<noteq> Anone then concat (map discon_bytes (addr_cons m a)) else [])"

lemma disoperand_eq: "cons_ok m a \<Longrightarrow> disoperand m a = Inr (opnd_bytes m a)"
  by (simp add: disoperand_def disaddr_def opnd_bytes_def cons_ok_def discons_eq)

lemma length_opnd_bytes:
  assumes "cons_ok m a"
  shows "length (opnd_bytes m a) \<le> MAXADDR"
proof -
  have "length (discon_bytes v) \<le> 4" if "v \<in> set (addr_cons m a)" for v using assms discon_bytes(3) that by (auto simp: cons_ok_def)
  then show ?thesis by (cases m) (auto simp: opnd_bytes_def MAXADDR_def MAXCON_def intro: order_trans [OF add_mono [of _ 4 _ 4]])
qed

definition inst_bytes :: "cinst \<Rightarrow> byte list" where
  "inst_bytes n = [bputc (n_op n), add_byte n] @ opnd_bytes (n_mm n) (n_m n) @ opnd_bytes (n_sm n) (n_s n) @ opnd_bytes (n_dm n) (n_d n)"

lemma disinst1_eq: "inst_ok k n \<Longrightarrow> disinst1 n = Inr (inst_bytes n) \<and> length (inst_bytes n) \<le> MAXINST"
  using length_opnd_bytes [of "n_mm n" "n_m n"] length_opnd_bytes [of "n_sm n" "n_s n"] length_opnd_bytes [of "n_dm n" "n_d n"]
  by (simp add: inst_ok_def disinst1_def disoperand_eq inst_bytes_def MAXINST_def)

lemma disinst_eq:
  assumes "list_all (inst_ok k) ns" "length ibuf \<le> NIBUF"
  shows "disinst ns out ibuf = Inr (out @ ibuf @ concat (map inst_bytes (filter (\<lambda>n. n_op n \<noteq> INOOP) ns)))"
  using assms
proof (induction ns arbitrary: out ibuf)
  case (Cons n ns)
  show ?case
  proof (cases "n_op n = INOOP")
    case True
    then show ?thesis using Cons by simp
  next
    case False
    have i: "disinst1 n = Inr (inst_bytes n)" "length (inst_bytes n) \<le> MAXINST" using disinst1_eq [of k n] Cons.prems(1) by simp_all
    obtain out' ibuf' where f: "(if length ibuf \<ge> NIBUF - MAXINST then (out @ ibuf, []) else (out, ibuf)) = (out', ibuf')" by fastforce
    have l: "length (ibuf' @ inst_bytes n) \<le> NIBUF" "out' @ ibuf' = out @ ibuf"
      using f i(2) by (auto simp: NIBUF_def MAXINST_def MAXADDR_def MAXCON_def split: if_splits)
    have "disinst (n # ns) out ibuf = disinst ns out' (ibuf' @ inst_bytes n)" using False i(1) l(1) by (simp add: f)
    then show ?thesis using Cons.IH [of "ibuf' @ inst_bytes n" out'] Cons.prems(1) l False by (simp flip: append_assoc)
  qed
qed simp

lemma mode_values: "dismode m \<in> {0, 1, 2, 3, 4, 5}" "disregmode m \<in> {0, 0x40, 0x80, 0xC0}"
  by (cases m; simp)+

lemma add_fields:
  assumes "s \<in> {0, 1, 2, 3, 4, 5}" "d \<in> {0, 1, 2, 3, 4, 5}" "r \<in> {0, 0x40, 0x80, 0xC0}"
  shows "(bputc (push_bit 3 s OR d OR r) AND 0xC0 :: byte) = bputc r \<and> bputc (push_bit 3 s OR d OR r) AND 0x38 = bputc (push_bit 3 s) \<and> bputc (push_bit 3 s OR d OR r) AND 0x07 = bputc d"
  using assms unfolding bputc_def by (elim insertE emptyE; simp)

lemma add_byte_fields:
  "add_byte n AND 0xC0 = bputc (disregmode (n_mm n))" "add_byte n AND 0x38 = bputc (push_bit 3 (dismode (n_sm n)))" "add_byte n AND 0x07 = bputc (dismode (n_dm n))"
  unfolding add_byte_def using add_fields [OF mode_values(1) mode_values(1) mode_values(2)] by blast+

text \<open>An operand is absent, one constant, or two when it is indirect.\<close>

lemma addr_shape:
  assumes "m \<noteq> Aerr"
  obtains "m = Anone" "dismode m = 3" | v where "m \<noteq> Anone" "addr_cons m a = [v]" "dismode m \<in> {0, 1, 2}"
    | f v where "m \<noteq> Anone" "addr_cons m a = [f, v]" "dismode m \<in> {4, 5}"
  using assms by (cases m) auto

lemma reg_shape:
  assumes "m \<notin> {Ampind, Afpind, Aerr}"
  obtains "m = Anone" "disregmode m = 0" | v where "m \<noteq> Anone" "addr_cons m a = [v]" "disregmode m \<in> {0x40, 0x80, 0xC0}"
  using assms by (cases m) auto

lemma reads_last: "con_ok v \<Longrightarrow> reads (f v) [] y \<Longrightarrow> reads (lbind get_operand f) (discon_bytes v) y"
  using reads_bind [of get_operand "discon_bytes v" v f "[]" y] reads_operand by simp

lemma reads_map: "con_ok v \<Longrightarrow> reads (lbind get_operand (\<lambda>v. lret (g v))) (discon_bytes v) (g v)"
  by (rule reads_last) (simp_all add: reads_ret)

lemma reads_map2:
  assumes "con_ok f" "con_ok v"
  shows "reads (lbind get_operand (\<lambda>f. lbind get_operand (\<lambda>s. lret (g f s)))) (discon_bytes f @ discon_bytes v) (g f v)"
  by (rule reads_bind [OF reads_operand [OF assms(1)]]) (rule reads_map [OF assms(2)])

lemma reads_reg:
  assumes "inst_ok k n"
  shows "reads (parse_reg (add_byte n)) (opnd_bytes (n_mm n) (n_m n)) (if n_mm n = Anone then 0 else word_of_int (hd (addr_cons (n_mm n) (n_m n))))"
proof -
  have ok: "cons_ok (n_mm n) (n_m n)" "n_mm n \<notin> {Ampind, Afpind, Aerr}" using assms by (simp_all add: inst_ok_def)
  show ?thesis
  proof (cases rule: reg_shape [where a = "n_m n", OF ok(2)])
    case 1
    then show ?thesis by (simp add: parse_reg_def add_byte_fields bputc_def opnd_bytes_def reads_ret)
  next
    case (2 v)
    then have "parse_reg (add_byte n) = lbind get_operand (\<lambda>v. lret (word_of_int v))" by (auto simp: parse_reg_def add_byte_fields bputc_def)
    then show ?thesis using 2 ok(1) by (simp add: opnd_bytes_def cons_ok_def reads_map)
  qed
qed

lemma reads_src:
  assumes "inst_ok k n"
  shows "reads (parse_src (add_byte n)) (opnd_bytes (n_sm n) (n_s n)) (loaded_adr (n_sm n) (n_s n))"
proof -
  have ok: "cons_ok (n_sm n) (n_s n)" "n_sm n \<noteq> Aerr" using assms by (simp_all add: inst_ok_def)
  show ?thesis
  proof (cases rule: addr_shape [where a = "n_s n", OF ok(2)])
    case 1
    then show ?thesis by (simp add: parse_src_def add_byte_fields bputc_def opnd_bytes_def reads_ret loaded_adr_def)
  next
    case (2 v)
    then have "parse_src (add_byte n) = lbind get_operand (\<lambda>v. lret (AWord (word_of_int v)))" by (auto simp: parse_src_def add_byte_fields bputc_def)
    then show ?thesis using 2 ok(1) by (simp add: opnd_bytes_def cons_ok_def reads_map [of v "\<lambda>v. AWord (word_of_int v)"] loaded_adr_def)
  next
    case (3 f v)
    then have "parse_src (add_byte n) = lbind get_operand (\<lambda>f. lbind get_operand (\<lambda>s. lret (ind_word f s)))" by (auto simp: parse_src_def add_byte_fields bputc_def)
    then show ?thesis using 3 ok(1) by (simp add: opnd_bytes_def cons_ok_def reads_map2 loaded_adr_def)
  qed
qed

lemma reads_branch:
  assumes "con_ok v" "branch_op op \<longrightarrow> 0 \<le> v \<and> v < k"
  shows "reads (lbind get_operand (\<lambda>v. case brpatch op v k of None \<Rightarrow> kwerrstr ''bad branch addr'' | Some a \<Rightarrow> lret a)) (discon_bytes v)
    (if branch_op op then AInst (nat v) else AWord (word_of_int v))"
proof -
  have "reads (case brpatch op v k of None \<Rightarrow> kwerrstr ''bad branch addr'' | Some a \<Rightarrow> lret a) [] (if branch_op op then AInst (nat v) else AWord (word_of_int v))"
    using assms(2) by (auto simp: brpatch_def reads_ret)
  then show ?thesis by (rule reads_last [OF assms(1)])
qed

lemma reads_dst:
  assumes "inst_ok k n"
  shows "reads (parse_dst (bputc (n_op n)) (add_byte n) k) (opnd_bytes (n_dm n) (n_d n))
    (if dismode (n_dm n) = 2 \<and> branch_op (bputc (n_op n)) then AInst (nat (hd (addr_cons (n_dm n) (n_d n)))) else loaded_adr (n_dm n) (n_d n))"
proof -
  let ?op = "bputc (n_op n)"
  have ok: "cons_ok (n_dm n) (n_d n)" "n_dm n \<noteq> Aerr"
    "dismode (n_dm n) = 2 \<and> branch_op ?op \<longrightarrow> 0 \<le> hd (addr_cons (n_dm n) (n_d n)) \<and> hd (addr_cons (n_dm n) (n_d n)) < k"
    using assms by (simp_all add: inst_ok_def)
  define op where "op = ?op"
  have f: "add_byte n AND 0x07 = word_of_int (dismode (n_dm n))" using add_byte_fields(3) by (simp add: bputc_def)
  show ?thesis
    unfolding op_def [symmetric]
  proof (cases rule: addr_shape [where a = "n_d n", OF ok(2)])
    case 1
    then show "reads (parse_dst op (add_byte n) k) (opnd_bytes (n_dm n) (n_d n))
      (if dismode (n_dm n) = 2 \<and> branch_op op then AInst (nat (hd (addr_cons (n_dm n) (n_d n)))) else loaded_adr (n_dm n) (n_d n))"
      by (simp add: parse_dst_def f opnd_bytes_def reads_ret loaded_adr_def)
  next
    case (2 v)
    show "reads (parse_dst op (add_byte n) k) (opnd_bytes (n_dm n) (n_d n))
      (if dismode (n_dm n) = 2 \<and> branch_op op then AInst (nat (hd (addr_cons (n_dm n) (n_d n)))) else loaded_adr (n_dm n) (n_d n))"
    proof (cases "dismode (n_dm n) = 2")
      case True
      then have "parse_dst op (add_byte n) k = lbind get_operand (\<lambda>v. case brpatch op v k of None \<Rightarrow> kwerrstr ''bad branch addr'' | Some a \<Rightarrow> lret a)"
        by (simp add: parse_dst_def f)
      then show ?thesis using reads_branch [of v op k] 2 ok True by (simp add: opnd_bytes_def cons_ok_def loaded_adr_def op_def split: if_splits)
    next
      case False
      then have "parse_dst op (add_byte n) k = lbind get_operand (\<lambda>v. lret (AWord (word_of_int v)))" using 2 by (auto simp: parse_dst_def f)
      then show ?thesis using 2 ok(1) False by (simp add: opnd_bytes_def cons_ok_def reads_map [of v "\<lambda>v. AWord (word_of_int v)"] loaded_adr_def)
    qed
  next
    case (3 g v)
    then have "parse_dst op (add_byte n) k = lbind get_operand (\<lambda>f. lbind get_operand (\<lambda>s. lret (ind_word f s)))" by (auto simp: parse_dst_def f)
    moreover have "dismode (n_dm n) \<noteq> 2" using 3 by auto
    ultimately show "reads (parse_dst op (add_byte n) k) (opnd_bytes (n_dm n) (n_d n))
      (if dismode (n_dm n) = 2 \<and> branch_op op then AInst (nat (hd (addr_cons (n_dm n) (n_d n)))) else loaded_adr (n_dm n) (n_d n))"
      using 3 ok(1) by (simp add: opnd_bytes_def cons_ok_def reads_map2 loaded_adr_def)
  qed
qed

lemma reads_inst:
  assumes "inst_ok k n"
  shows "reads (parse_inst k) (inst_bytes n) (loaded n)"
proof -
  have "reads (parse_inst k) ([bputc (n_op n)] @ [add_byte n] @ opnd_bytes (n_mm n) (n_m n) @ opnd_bytes (n_sm n) (n_s n) @ opnd_bytes (n_dm n) (n_d n) @ []) (loaded n)"
    unfolding parse_inst_def loaded_def
    by (rule reads_bind [OF reads_byte], rule reads_bind [OF reads_byte], rule reads_bind [OF reads_reg [OF assms]], rule reads_bind [OF reads_src [OF assms]],
        rule reads_bind [OF reads_dst [OF assms]], rule reads_ret)
  then show ?thesis by (simp add: inst_bytes_def)
qed

lemma reads_repeat:
  assumes "\<forall>x\<in>set xs. reads m (enc x) (f x)"
  shows "reads (repeat (length xs) m) (concat (map enc xs)) (map f xs)"
  using assms
proof (induction xs)
  case (Cons x xs)
  have "reads (repeat (length xs) m) (concat (map enc xs)) (map f xs)" using Cons by simp
  then have "reads (lbind (repeat (length xs) m) (\<lambda>xs. lret (f x # xs))) (concat (map enc xs) @ []) (f x # map f xs)" by (rule reads_bind) (rule reads_ret)
  then show ?case using reads_bind [of m "enc x" "f x" "\<lambda>y. lbind (repeat (length xs) m) (\<lambda>xs. lret (y # xs))"] Cons.prems by simp
qed (simp add: reads_ret)

end
