(* ===== verification/Dis_Object_Data.thy ===== *)
theory Dis_Object_Data
  imports Dis_Object_Inst
begin

text \<open>
  Type descriptors and the initial data of a module: \<open>disdesc\<close>, \<open>disvar\<close> and the cache of \<open>disflush\<close> on one side, the
  second and third loop of \<open>parsemod\<close> on the other.
\<close>

section \<open>Types\<close>

record dtyp =
  t_size :: int
  t_map :: "byte list"

text \<open>\<open>t->np\<close> is the length of the map. The table of types is an array of pointers, nil at first.\<close>

type_synonym dtypes = "dtyp option list"

record cdesc =
  d_id :: int
  d_size :: int
  d_map :: "byte list"

fun disdesc :: "cdesc list \<Rightarrow> byte list cres" where
  "disdesc [] = Inr []"
| "disdesc (d # ds) =
    cbind (discon (d_id d)) (\<lambda>b1. cbind (discon (d_size d)) (\<lambda>b2. cbind (discon (int (length (d_map d)))) (\<lambda>b3.
    cbind (disdesc ds) (\<lambda>bs. Inr (b1 @ b2 @ b3 @ d_map d @ bs)))))"

definition dtype :: "int \<Rightarrow> byte list \<Rightarrow> dtyp loader" where
  "dtype sz m = lbind lneed (\<lambda>_. lret \<lparr>t_size = sz, t_map = m\<rparr>)"

definition parse_type :: "int \<Rightarrow> dtypes \<Rightarrow> dtypes loader" where
  "parse_type hsize ts =
    lbind get_operand (\<lambda>id.
    if id > hsize then kwerrstr ''heap id range''
    else lbind get_operand (\<lambda>tsz. lbind get_operand (\<lambda>tnp.
      if tsz < 0 \<or> tnp < 0 \<or> tnp > 128 * 1024 then kwerrstr ''implausible Dis file''
      else lbind (get_bytes (nat tnp)) (\<lambda>m. lbind (dtype tsz m) (\<lambda>pt.
        lbind (lguard (0 \<le> id \<and> id < int (length ts))) (\<lambda>_. lret (ts[nat id := Some pt])))))))"

fun parse_types :: "nat \<Rightarrow> int \<Rightarrow> dtypes \<Rightarrow> dtypes loader" where
  "parse_types 0 hsize ts = lret ts"
| "parse_types (Suc n) hsize ts = lbind (parse_type hsize ts) (parse_types n hsize)"

text \<open>\<open>m->type[i]\<close>, which must be inside the array, and what it points to.\<close>

definition type_at :: "dtypes \<Rightarrow> int \<Rightarrow> dtyp option loader" where
  "type_at ts i = lbind (lguard (0 \<le> i \<and> i < int (length ts))) (\<lambda>_. lret (ts ! nat i))"

definition lopt :: "'a option \<Rightarrow> 'a loader" where
  "lopt x s = (case x of None \<Rightarrow> Inl Undef | Some y \<Rightarrow> Inr (y, s))"

section \<open>Data\<close>

text \<open>
  Data memory: a cell is a byte or belongs to a pointer of eight bytes. \<open>H\<close> is the nil pointer of the virtual machine. \<open>dd_mp\<close> is
  the module's data, \<open>None\<close> when it has none; \<open>dd_obj\<close> the strings and arrays made so far, the latter with their
  elements; \<open>dd_addr\<close> and \<open>dd_stack\<close> are \<open>addr\<close> and \<open>dastack\<close>.
\<close>

datatype dptr = H | Str nat | Ary nat
datatype dcell = Byte byte | Ptr dptr | Rest
datatype area = Mp | Elems nat
datatype dobj = OStr "byte list" | OArr dtyp int "dcell list"

record ddata =
  dd_mp :: "dcell list option"
  dd_obj :: "dobj list"
  dd_addr :: "area \<times> int"
  dd_stack :: "(area \<times> int) list"

definition ptr_cells :: "dptr \<Rightarrow> dcell list" where "ptr_cells p = Ptr p # replicate 7 Rest"

definition put_cells :: "int \<Rightarrow> dcell list \<Rightarrow> dcell list \<Rightarrow> dcell list option" where
  "put_cells off cs m =
    (if cs = [] then Some m
     else if 0 \<le> off \<and> off + int (length cs) \<le> int (length m)
     then Some (take (nat off) m @ cs @ drop (nat off + length cs) m) else None)"

text \<open>\<open>initmem\<close>: the words with a bit in the map are set to \<open>H\<close>.\<close>

definition ptr_words :: "byte list \<Rightarrow> nat list" where
  "ptr_words m = concat (map (\<lambda>j. map (\<lambda>k. 8 * j + k) (filter (\<lambda>k. bit (m ! j) (7 - k)) [0..<8])) [0..<length m])"

fun init_words :: "nat list \<Rightarrow> int \<Rightarrow> dcell list \<Rightarrow> dcell list option" where
  "init_words [] base m = Some m"
| "init_words (w # ws) base m = Option.bind (put_cells (base + 8 * int w) (ptr_cells H) m) (init_words ws base)"

definition initmem :: "dtyp \<Rightarrow> int \<Rightarrow> dcell list \<Rightarrow> dcell list option" where "initmem t = init_words (ptr_words (t_map t))"

fun initarray :: "dtyp \<Rightarrow> nat \<Rightarrow> int \<Rightarrow> dcell list \<Rightarrow> dcell list option" where
  "initarray t 0 p m = Some m"
| "initarray t (Suc n) p m = Option.bind (initmem t p m) (initarray t n (p + t_size t))"

definition zeros :: "int \<Rightarrow> dcell list" where "zeros n = replicate (nat n) (Byte 0)"

definition heapz :: "dtyp \<Rightarrow> dcell list option" where "heapz t = initmem t 0 (zeros (t_size t))"

definition halloc :: "unit loader" where
  "halloc = lbind malloc (\<lambda>ok. if ok then lret () else kwerrstr exHeap)"

definition area_cells :: "area \<Rightarrow> ddata \<Rightarrow> dcell list option" where
  "area_cells a d = (case a of Mp \<Rightarrow> dd_mp d
    | Elems k \<Rightarrow> if k < length (dd_obj d) then (case dd_obj d ! k of OArr t n cs \<Rightarrow> Some cs | OStr s \<Rightarrow> None) else None)"

definition set_area :: "area \<Rightarrow> dcell list \<Rightarrow> ddata \<Rightarrow> ddata" where
  "set_area a cs d = (case a of Mp \<Rightarrow> d\<lparr>dd_mp := Some cs\<rparr>
    | Elems k \<Rightarrow> (case dd_obj d ! k of OArr t n _ \<Rightarrow> d\<lparr>dd_obj := (dd_obj d)[k := OArr t n cs]\<rparr> | OStr s \<Rightarrow> d))"

text \<open>A write at \<open>addr + v\<close> and a read of a pointer there.\<close>

definition dstore :: "int \<Rightarrow> dcell list \<Rightarrow> ddata \<Rightarrow> ddata option" where
  "dstore v cs d = (if cs = [] then Some d else
    Option.bind (area_cells (fst (dd_addr d)) d) (\<lambda>m. Option.bind (put_cells (snd (dd_addr d) + v) cs m) (\<lambda>m. Some (set_area (fst (dd_addr d)) m d))))"

definition load_ptr :: "int \<Rightarrow> ddata \<Rightarrow> dptr option" where
  "load_ptr v d = Option.bind (area_cells (fst (dd_addr d)) d) (\<lambda>m.
     let o' = snd (dd_addr d) + v in
     if 0 \<le> o' \<and> o' + 8 \<le> int (length m) then (case m ! nat o' of Ptr p \<Rightarrow> Some p | _ \<Rightarrow> None) else None)"

section \<open>The items\<close>

definition word_cells :: "int \<Rightarrow> dcell list" where "word_cells v = map Byte (enc_le 8 (word_of_int v :: u64))"

definition long_cells :: "int \<Rightarrow> int \<Rightarrow> dcell list" where
  "long_cells hi lo = word_cells (push_bit 32 hi OR take_bit 32 lo)"

definition DEFB :: int where "DEFB = 1"
definition DEFW :: int where "DEFW = 2"
definition DEFS :: int where "DEFS = 3"
definition DEFF :: int where "DEFF = 4"
definition DEFA :: int where "DEFA = 5"
definition DIND_item :: int where "DIND_item = 6"
definition DAPOP :: int where "DAPOP = 7"
definition DEFL :: int where "DEFL = 8"
definition DADEPTH :: nat where "DADEPTH = 4"

lemmas kinds = DEFB_def DEFW_def DEFS_def DEFF_def DEFA_def DIND_item_def DAPOP_def DEFL_def

text \<open>One value of an item of scalars. \<open>canontod\<close> gives the real whose high word comes first, as for bigs.\<close>

definition unit_cells :: "int \<Rightarrow> dcell list loader" where
  "unit_cells kind =
    (if kind = DEFB then lbind get_byte (\<lambda>b. lret [Byte b])
     else if kind = DEFW then lbind get_disw (\<lambda>v. lret (word_cells v))
     else lbind get_disw (\<lambda>hi. lbind get_disw (\<lambda>lo. lret (long_cells hi lo))))"

definition payload :: "int \<Rightarrow> nat \<Rightarrow> dcell list loader" where
  "payload kind n = lbind (repeat n (unit_cells kind)) (\<lambda>cs. lret (concat cs))"

definition parse_scalars :: "int \<Rightarrow> int \<Rightarrow> int \<Rightarrow> ddata \<Rightarrow> ddata loader" where
  "parse_scalars kind n v d = lbind (payload kind (nat n)) (\<lambda>cs. lopt (dstore v cs d))"

definition parse_string :: "int \<Rightarrow> int \<Rightarrow> ddata \<Rightarrow> ddata loader" where
  "parse_string n v d =
    lbind (lguard (0 \<le> n)) (\<lambda>_. lbind (get_bytes (nat n)) (\<lambda>bs. lbind halloc (\<lambda>_.
    lopt (dstore v (ptr_cells (Str (length (dd_obj d)))) (d\<lparr>dd_obj := dd_obj d @ [OStr bs]\<rparr>)))))"

definition parse_array :: "dtypes \<Rightarrow> int \<Rightarrow> ddata \<Rightarrow> ddata loader" where
  "parse_array ts v d =
    lbind get_disw (\<lambda>tid.
    if tid < 0 \<or> tid > int (length ts) then kwerrstr ''bad array type''
    else lbind (type_at ts tid) (\<lambda>p. lbind (lopt p) (\<lambda>pt. lbind get_disw (\<lambda>len.
      lbind (lguard (0 \<le> len)) (\<lambda>_. lbind halloc (\<lambda>_.
      lbind (lopt (initarray pt (nat len) 0 (zeros (t_size pt * len)))) (\<lambda>cs.
      lopt (dstore v (ptr_cells (Ary (length (dd_obj d)))) (d\<lparr>dd_obj := dd_obj d @ [OArr pt len cs]\<rparr>)))))))))"

definition parse_ind :: "int \<Rightarrow> ddata \<Rightarrow> ddata loader" where
  "parse_ind v d =
    lbind (lopt (load_ptr v d)) (\<lambda>p. case p of
      Ary k \<Rightarrow> (case dd_obj d ! k of
        OArr t len cs \<Rightarrow> lbind get_disw (\<lambda>i.
          if i > len \<or> i < 0 \<or> length (dd_stack d) \<ge> DADEPTH then kwerrstr ''array init range''
          else lret (d\<lparr>dd_stack := dd_addr d # dd_stack d, dd_addr := (Elems k, i * t_size t)\<rparr>))
      | OStr s \<Rightarrow> kwerrstr ''ind not array'')
    | _ \<Rightarrow> kwerrstr ''ind not array'')"

definition parse_pop :: "ddata \<Rightarrow> ddata loader" where
  "parse_pop d = (case dd_stack d of [] \<Rightarrow> kwerrstr ''pop range'' | a # as \<Rightarrow> lret (d\<lparr>dd_addr := a, dd_stack := as\<rparr>))"

definition DLEN :: "byte \<Rightarrow> int" where "DLEN x = uint (x AND 15)"
definition DTYPE :: "byte \<Rightarrow> int" where "DTYPE x = uint (drop_bit 4 x)"

definition parse_kind :: "dtypes \<Rightarrow> int \<Rightarrow> int \<Rightarrow> int \<Rightarrow> ddata \<Rightarrow> ddata loader" where
  "parse_kind ts k n v d =
    (if k = DEFS then parse_string n v d
     else if k = DEFB \<or> k = DEFW \<or> k = DEFL \<or> k = DEFF then parse_scalars k n v d
     else if k = DEFA then parse_array ts v d
     else if k = DIND_item then parse_ind v d
     else if k = DAPOP then parse_pop d
     else kwerrstr ''bad data item'')"

definition parse_item :: "dtypes \<Rightarrow> ddata \<Rightarrow> (int \<times> ddata) option loader" where
  "parse_item ts d =
    lbind get_byte (\<lambda>sm.
    if sm = 0 then lret None
    else lbind (if DLEN sm = 0 then get_operand else lret (DLEN sm)) (\<lambda>n.
      lbind get_operand (\<lambda>v. lbind (parse_kind ts (DTYPE sm) n v d) (\<lambda>d. lret (Some (n, d))))))"

text \<open>The loop; every item takes a byte, so the length of the file bounds it. The variable \<open>n\<close> keeps its last value, which is tested later.\<close>

fun parse_items :: "nat \<Rightarrow> dtypes \<Rightarrow> int \<Rightarrow> ddata \<Rightarrow> (int \<times> ddata) loader" where
  "parse_items 0 ts n d = (\<lambda>s. Inl Undef)"
| "parse_items (Suc f) ts n d = lbind (parse_item ts d) (\<lambda>r. case r of None \<Rightarrow> lret (n, d) | Some (n, d) \<Rightarrow> parse_items f ts n d)"

definition parse_data :: "dtypes \<Rightarrow> int \<Rightarrow> ddata \<Rightarrow> (int \<times> ddata) loader" where
  "parse_data ts n d s = parse_items (length (l_in s)) ts n d s"

section \<open>The compiler's cache\<close>

text \<open>
  The static variables of \<^verbatim>\<open>dis.c\<close>; the output so far is \<open>k_out\<close>. Neighbouring values of one kind are gathered in \<open>cache\<close>
  and written as one item when a value of another kind or at another place comes. The loop at the end of \<open>disflush\<close> makes
  room for the value; its body does the same each time, so it ends after one round or, for a value of 1024 bytes and more, never,
  which is \<open>Undef\<close> here, as is a write behind the end of the cache.
\<close>

record dcache =
  k_out :: "byte list"
  k_cache :: "byte list"
  k_ndatum :: int
  k_startoff :: int
  k_lastoff :: int
  k_lastkind :: int
  k_lencache :: int

definition disdata :: "int \<Rightarrow> int \<Rightarrow> byte list cres" where
  "disdata kind n = (if n < 16 \<and> n \<noteq> 0 then Inr [bputc (push_bit 4 kind OR n)]
    else cbind (discon n) (\<lambda>b. Inr (bputc (push_bit 4 kind OR 0) # b)))"

definition disitem :: "dcache \<Rightarrow> dcache cres" where
  "disitem k =
    (if k_lastkind k \<noteq> -1 \<and> k_cache k \<noteq> [] then
       cbind (disdata (k_lastkind k) (k_ndatum k)) (\<lambda>b1. cbind (discon (k_startoff k)) (\<lambda>b2. Inr (k\<lparr>k_out := k_out k @ b1 @ b2 @ k_cache k\<rparr>)))
     else Inr k)"

definition disroom :: "int \<Rightarrow> int \<Rightarrow> dcache \<Rightarrow> dcache cres" where
  "disroom kind sz k =
    (if kind \<ge> 0 \<and> int (length (k_cache k)) + sz \<ge> k_lencache k
     then cbind (cguard (sz < 1024)) (\<lambda>_. Inr (k\<lparr>k_lencache := int (length (k_cache k)) + 1024\<rparr>))
     else Inr k)"

definition disstart :: "int \<Rightarrow> int \<Rightarrow> dcache \<Rightarrow> dcache cres" where
  "disstart kind off k =
    (if kind \<noteq> k_lastkind k \<or> off \<noteq> k_lastoff k then
       cbind (disitem k) (\<lambda>k. Inr (k\<lparr>k_startoff := off, k_lastkind := kind, k_cache := [], k_ndatum := 0\<rparr>))
     else Inr k)"

definition disflush :: "int \<Rightarrow> int \<Rightarrow> int \<Rightarrow> dcache \<Rightarrow> dcache cres" where
  "disflush kind off sz k = cbind (disstart kind off k) (\<lambda>k. disroom kind sz (k\<lparr>k_lastoff := off + sz\<rparr>))"

definition cache_add :: "byte list \<Rightarrow> int \<Rightarrow> dcache \<Rightarrow> dcache cres" where
  "cache_add bs n k = cbind (cguard (int (length (k_cache k)) + int (length bs) \<le> k_lencache k)) (\<lambda>_.
     Inr (k\<lparr>k_cache := k_cache k @ bs, k_ndatum := k_ndatum k + n\<rparr>))"

definition disbyte :: "int \<Rightarrow> int \<Rightarrow> dcache \<Rightarrow> dcache cres" where
  "disbyte off v k = cbind (disflush DEFB off 1 k) (cache_add [bputc v] 1)"

definition disbytes :: "int \<Rightarrow> byte list \<Rightarrow> dcache \<Rightarrow> dcache cres" where
  "disbytes off v k = cbind (disflush DEFB off (int (length v)) k) (cache_add v (int (length v)))"

definition disint :: "int \<Rightarrow> int \<Rightarrow> dcache \<Rightarrow> dcache cres" where
  "disint off v k = cbind (disflush DEFW off 8 k) (cache_add (disword v) 1)"

definition disbig :: "int \<Rightarrow> int \<Rightarrow> dcache \<Rightarrow> dcache cres" where
  "disbig off v k = cbind (disflush DEFL off 8 k) (cache_add (disword (drop_bit 32 v) @ disword v) 1)"

text \<open>A real is given by the two words \<open>dtocanon\<close> makes of it.\<close>

definition disreal :: "int \<Rightarrow> int \<Rightarrow> int \<Rightarrow> dcache \<Rightarrow> dcache cres" where
  "disreal off hi lo k = cbind (disflush DEFF off 8 k) (cache_add (disword hi @ disword lo) 1)"

definition emit :: "byte list \<Rightarrow> dcache \<Rightarrow> dcache" where "emit bs k = k\<lparr>k_out := k_out k @ bs\<rparr>"

definition disstring :: "int \<Rightarrow> byte list \<Rightarrow> dcache \<Rightarrow> dcache cres" where
  "disstring off v k = cbind (disflush (-1) (-1) 0 k) (\<lambda>k. cbind (disdata DEFS (int (length v))) (\<lambda>b1. cbind (discon off) (\<lambda>b2.
     Inr (emit (b1 @ b2 @ v) k))))"

text \<open>The case \<open>Tarray\<close> of \<open>disdatum\<close>, before and after the elements.\<close>

definition disarray :: "int \<Rightarrow> int \<Rightarrow> int \<Rightarrow> bool \<Rightarrow> dcache \<Rightarrow> dcache cres" where
  "disarray off tid n elems k = cbind (disflush (-1) (-1) 0 k) (\<lambda>k. cbind (disdata DEFA 1) (\<lambda>b1. cbind (discon off) (\<lambda>b2.
     let k = emit (b1 @ b2 @ disword tid @ disword n) k in
     if elems then cbind (disdata DIND_item 1) (\<lambda>b3. Inr (emit (b3 @ b2 @ disword 0) k)) else Inr k)))"

definition disapop :: "dcache \<Rightarrow> dcache cres" where
  "disapop k = cbind (disflush (-1) (-1) 0 k) (\<lambda>k. cbind (disdata DAPOP 1) (\<lambda>b1. cbind (discon 0) (\<lambda>b2. Inr (emit (b1 @ b2) k))))"

section \<open>The compiler's values\<close>

text \<open>
  The initialisers \<open>disdatum\<close> knows, by the kind of their type, with what it takes of them: for a tuple the offsets of the fields; for a
  case the labels with start, stop and pc, and the pc of the wild card; for an array the descriptor of its elements, the length, the
  size of an element and the labels; for the interface of a module the signatures and names. \<open>NBad\<close> is any other; the
  compiler complains about it and writes nothing.
\<close>

datatype cnode =
    NByte int | NInt int | NBig int | NString "byte list" | NReal int int | NTuple "(int \<times> cnode) list" | NAny
  | NCase "(int \<times> int \<times> int) list" "int option" | NCasel "(int \<times> int \<times> int) list" "int option"
  | NCasec "(byte list \<times> byte list option \<times> int) list" "int option" | NGoto int "int list" "int option"
  | NArray int int int "((int \<times> int \<times> cnode) list \<times> cnode option) option"
  | NIface int "(int \<times> byte list option \<times> byte list) list" | NBad

text \<open>The calls of \<open>disdatum\<close>, in their order.\<close>

datatype datum = DByte int int | DBytes int "byte list" | DInt int int | DBig int int | DReal int int int
  | DString int "byte list" | DArray int int int bool | DPop

definition wild_pc :: "int option \<Rightarrow> int" where "wild_pc w = (case w of None \<Rightarrow> -1 | Some pc \<Rightarrow> pc)"

fun case_calls :: "int \<Rightarrow> (int \<times> int \<times> int) list \<Rightarrow> int option \<Rightarrow> datum list" where
  "case_calls off [] w = [DInt off (wild_pc w)]"
| "case_calls off ((s, t, pc) # ls) w = DInt off s # DInt (off + 8) (t + 1) # DInt (off + 16) pc # case_calls (off + 24) ls w"

fun casel_calls :: "int \<Rightarrow> (int \<times> int \<times> int) list \<Rightarrow> int option \<Rightarrow> datum list" where
  "casel_calls off [] w = [DInt off (wild_pc w)]"
| "casel_calls off ((s, t, pc) # ls) w = DBig off s # DBig (off + 8) (t + 1) # DInt (off + 16) pc # casel_calls (off + 32) ls w"

fun casec_calls :: "int \<Rightarrow> (byte list \<times> byte list option \<times> int) list \<Rightarrow> int option \<Rightarrow> datum list" where
  "casec_calls off [] w = [DInt off (wild_pc w)]"
| "casec_calls off ((s, t, pc) # ls) w =
    DString off s # (case t of None \<Rightarrow> [] | Some t \<Rightarrow> [DString (off + 8) t]) @ DInt (off + 16) pc # casec_calls (off + 24) ls w"

fun goto_calls :: "int \<Rightarrow> int list \<Rightarrow> int option \<Rightarrow> datum list" where
  "goto_calls off [] w = (case w of None \<Rightarrow> [] | Some pc \<Rightarrow> [DInt off pc])"
| "goto_calls off (pc # ls) w = DInt off pc # goto_calls (off + 8) ls w"

text \<open>The loop of \<open>align\<close> in \<^verbatim>\<open>types.c\<close>, for words.\<close>

function align8 :: "int \<Rightarrow> int" where
  "align8 off = (if off mod 8 = 0 then off else align8 (off + 1))"
  by pat_completeness auto

termination align8
proof (relation "measure (\<lambda>off. nat (- off mod 8))")
  show "(off + 1, off) \<in> measure (\<lambda>off. nat (- off mod 8))" if "off mod 8 \<noteq> 0" for off :: int
    using that by (simp, presburger)
qed simp

declare align8.simps [simp del]

fun iface_calls :: "int \<Rightarrow> (int \<times> byte list option \<times> byte list) list \<Rightarrow> datum list" where
  "iface_calls off [] = []"
| "iface_calls off ((sig, adt, nm) # ids) =
    (let off = align8 off; o1 = off + 8;
         (dot, o2) = (case adt of None \<Rightarrow> ([], o1) | Some a \<Rightarrow> ([DBytes o1 a, DByte (o1 + int (length a)) 46], o1 + int (length a) + 1)) in
     DInt off sig # dot @ DBytes o2 nm # DByte (o2 + int (length nm)) 0 # iface_calls (o2 + int (length nm) + 1) ids)"

text \<open>The elements of an array: those that no label names are the wild card's.\<close>

definition elem_calls :: "int \<Rightarrow> (int \<Rightarrow> datum list) \<Rightarrow> int \<Rightarrow> int \<Rightarrow> datum list" where
  "elem_calls esz f a b = concat (map (\<lambda>i. f (esz * i)) [a..b - 1])"

fun array_calls :: "int \<Rightarrow> (int \<times> int \<times> (int \<Rightarrow> datum list)) list \<Rightarrow> (int \<Rightarrow> datum list) option \<Rightarrow> int \<Rightarrow> int \<Rightarrow> datum list" where
  "array_calls esz [] wild l0 n = (case wild of None \<Rightarrow> [] | Some w \<Rightarrow> elem_calls esz w l0 n)"
| "array_calls esz ((s, t, f) # ls) wild l0 n =
    (case wild of None \<Rightarrow> [] | Some w \<Rightarrow> elem_calls esz w l0 s) @ elem_calls esz f s (t + 1) @ array_calls esz ls wild (max s (t + 1)) n"

primrec datum_calls :: "cnode \<Rightarrow> int \<Rightarrow> datum list" where
  "datum_calls (NByte v) = (\<lambda>off. [DByte off v])"
| "datum_calls (NInt v) = (\<lambda>off. [DInt off v])"
| "datum_calls (NBig v) = (\<lambda>off. [DBig off v])"
| "datum_calls (NString s) = (\<lambda>off. [DString off s])"
| "datum_calls (NReal hi lo) = (\<lambda>off. [DReal off hi lo])"
| "datum_calls (NTuple fs) = (\<lambda>off. concat (map (\<lambda>(o', f). f (off + o')) (map (map_prod id datum_calls) fs)))"
| "datum_calls NAny = (\<lambda>off. [])"
| "datum_calls (NCase ls w) = (\<lambda>off. DInt off (int (length ls)) # case_calls (off + 8) ls w)"
| "datum_calls (NCasel ls w) = (\<lambda>off. DInt off (int (length ls)) # casel_calls (off + 16) ls w)"
| "datum_calls (NCasec ls w) = (\<lambda>off. DInt off (int (length ls)) # casec_calls (off + 8) ls w)"
| "datum_calls (NGoto sz ls w) = (\<lambda>off. DInt off (sz div 8 - 1) # goto_calls (off + 8) ls w)"
| "datum_calls (NArray tid n esz r) = (\<lambda>off. DArray off tid n (r \<noteq> None) #
    (case map_option (map_prod (map (map_prod id (map_prod id datum_calls))) (map_option datum_calls)) r of
       None \<Rightarrow> [] | Some (ls, wild) \<Rightarrow> array_calls esz ls wild 0 n @ [DPop]))"
| "datum_calls (NIface v ids) = (\<lambda>off. DInt off v # iface_calls (off + 8) ids)"
| "datum_calls NBad = (\<lambda>off. [])"

fun discall :: "datum \<Rightarrow> dcache \<Rightarrow> dcache cres" where
  "discall (DByte off v) = disbyte off v" | "discall (DBytes off v) = disbytes off v" | "discall (DInt off v) = disint off v"
| "discall (DBig off v) = disbig off v" | "discall (DReal off hi lo) = disreal off hi lo" | "discall (DString off v) = disstring off v"
| "discall (DArray off tid n e) = disarray off tid n e" | "discall DPop = disapop"

fun discalls :: "datum list \<Rightarrow> dcache \<Rightarrow> dcache cres" where
  "discalls [] k = Inr k"
| "discalls (x # xs) k = cbind (discall x k) (discalls xs)"

definition disdatum :: "int \<Rightarrow> cnode \<Rightarrow> dcache \<Rightarrow> dcache cres" where "disdatum off n = discalls (datum_calls n off)"

record vdecl =
  v_global :: bool
  v_offset :: int
  v_init :: "cnode option"

fun disdecls :: "vdecl list \<Rightarrow> dcache \<Rightarrow> dcache cres" where
  "disdecls [] k = Inr k"
| "disdecls (d # ds) k =
    cbind (if v_global d then case v_init d of None \<Rightarrow> Inr k | Some n \<Rightarrow> disdatum (v_offset d) n k else Inr k) (disdecls ds)"

text \<open>\<open>startoff\<close>, \<open>lastoff\<close> and the room of the cache are whatever they were, here zero as at the start of the compiler.\<close>

definition disvar :: "vdecl list \<Rightarrow> byte list cres" where
  "disvar ds =
    cbind (disdecls ds \<lparr>k_out = [], k_cache = [], k_ndatum = 0, k_startoff = 0, k_lastoff = 0, k_lastkind = -1, k_lencache = 0\<rparr>) (\<lambda>k.
    cbind (disflush (-1) (-1) 0 k) (\<lambda>k. Inr (k_out k @ [0])))"

end
