(* ===== verification/Dis_Object_Vars.thy ===== *)
theory Dis_Object_Vars
  imports Dis_Object_Data
begin

text \<open>The initial data: what \<open>disvar\<close> writes puts the values where they belong when \<open>parsemod\<close> reads it.\<close>

section \<open>What the items do\<close>

text \<open>Storing the values directly, in the order of the calls.\<close>

definition new_string :: "int \<Rightarrow> byte list \<Rightarrow> ddata \<Rightarrow> ddata option" where
  "new_string off bs d = dstore off (ptr_cells (Str (length (dd_obj d)))) (d\<lparr>dd_obj := dd_obj d @ [OStr bs]\<rparr>)"

definition new_array :: "dtypes \<Rightarrow> int \<Rightarrow> int \<Rightarrow> int \<Rightarrow> ddata \<Rightarrow> ddata option" where
  "new_array ts off tid n d =
    (if 0 \<le> tid \<and> tid < int (length ts) \<and> 0 \<le> n then
       Option.bind (ts ! nat tid) (\<lambda>pt. Option.bind (initarray pt (nat n) 0 (zeros (t_size pt * n))) (\<lambda>cs.
       dstore off (ptr_cells (Ary (length (dd_obj d)))) (d\<lparr>dd_obj := dd_obj d @ [OArr pt n cs]\<rparr>)))
     else None)"

definition enter_array :: "int \<Rightarrow> ddata \<Rightarrow> ddata option" where
  "enter_array off d =
    (case load_ptr off d of
       Some (Ary j) \<Rightarrow> (case dd_obj d ! j of
           OArr t n cs \<Rightarrow> if 0 \<le> n \<and> length (dd_stack d) < DADEPTH then Some (d\<lparr>dd_stack := dd_addr d # dd_stack d, dd_addr := (Elems j, 0)\<rparr>) else None
         | OStr s \<Rightarrow> None)
     | _ \<Rightarrow> None)"

definition leave_array :: "ddata \<Rightarrow> ddata option" where
  "leave_array d = (case dd_stack d of [] \<Rightarrow> None | a # as \<Rightarrow> Some (d\<lparr>dd_addr := a, dd_stack := as\<rparr>))"

fun put_datum :: "dtypes \<Rightarrow> datum \<Rightarrow> ddata \<Rightarrow> ddata option" where
  "put_datum ts (DByte off v) = dstore off [Byte (bputc v)]"
| "put_datum ts (DBytes off v) = dstore off (map Byte v)"
| "put_datum ts (DInt off v) = dstore off (word_cells (signed_take_bit 31 v))"
| "put_datum ts (DBig off v) = dstore off (word_cells v)"
| "put_datum ts (DReal off hi lo) = dstore off (long_cells hi lo)"
| "put_datum ts (DString off v) = new_string off v"
| "put_datum ts (DArray off tid n e) = (\<lambda>d. Option.bind (new_array ts off tid n d) (if e then enter_array off else Some))"
| "put_datum ts DPop = leave_array"

fun put_data :: "dtypes \<Rightarrow> datum list \<Rightarrow> ddata \<Rightarrow> ddata option" where
  "put_data ts [] d = Some d"
| "put_data ts (x # xs) d = Option.bind (put_datum ts x d) (put_data ts xs)"

section \<open>Stores\<close>

lemma put_cells_append:
  assumes "put_cells off a m = Some m1" "put_cells (off + int (length a)) b m1 = Some m2"
  shows "put_cells off (a @ b) m = Some m2"
proof (cases "a = [] \<or> b = []")
  case True
  then show ?thesis using assms by (auto simp: put_cells_def split: if_splits)
next
  case False
  define o' where "o' = nat off"
  have f: "0 \<le> off" "off + int (length a) \<le> int (length m)" "m1 = take o' m @ a @ drop (o' + length a) m" "off = int o'"
    using False assms(1) by (auto simp: put_cells_def o'_def split: if_splits)
  have l2: "o' + length a \<le> length m" using f(2,4) by linarith
  then have l: "length m1 = length m" "o' + length a \<le> length m" using f(3) by simp_all
  have g: "off + int (length a) + int (length b) \<le> int (length m)" "m2 = take (o' + length a) m1 @ b @ drop (o' + length a + length b) m1"
    using False assms(2) l f by (auto simp: put_cells_def nat_add_distrib split: if_splits)
  have "take (o' + length a) m1 = take o' m @ a" "drop (o' + length a + length b) m1 = drop (o' + length a + length b) m"
    using l(2) by (simp_all add: f(3) ac_simps)
  then show ?thesis using False f g by (simp add: put_cells_def ac_simps)
qed

lemma put_cells_length: "put_cells off a m = Some m1 \<Longrightarrow> length m1 = length m"
  by (auto simp: put_cells_def nat_le_iff split: if_splits)

lemma area_set_area:
  assumes "area_cells a d = Some m"
  shows "area_cells a (set_area a m' d) = Some m'" "dd_addr (set_area a m' d) = dd_addr d" "set_area a m2 (set_area a m' d) = set_area a m2 d"
  using assms by (auto simp: area_cells_def set_area_def split: area.splits if_splits dobj.splits)

lemma store_append:
  assumes "dstore v a d = Some d1" "dstore (v + int (length a)) b d1 = Some d2"
  shows "dstore v (a @ b) d = Some d2"
proof (cases "a = [] \<or> b = []")
  case True
  then show ?thesis using assms by (auto simp: dstore_def)
next
  case False
  let ?a = "fst (dd_addr d)"
  obtain m m1 where 1: "area_cells ?a d = Some m" "put_cells (snd (dd_addr d) + v) a m = Some m1" "d1 = set_area ?a m1 d"
    using False assms(1) by (auto simp: dstore_def bind_eq_Some_conv)
  note s = area_set_area [OF 1(1)]
  obtain m2 where 2: "put_cells (snd (dd_addr d) + (v + int (length a))) b m1 = Some m2" "d2 = set_area ?a m2 d"
    using False assms(2) by (auto simp: dstore_def bind_eq_Some_conv 1(3) s)
  have "put_cells (snd (dd_addr d) + v) (a @ b) m = Some m2" by (rule put_cells_append [OF 1(2)]) (use 2 in \<open>simp add: ac_simps\<close>)
  then show ?thesis using False 1(1) 2(2) by (simp add: dstore_def)
qed

section \<open>Reading several items\<close>

lemma lbind_ret [simp]: "lbind (lret x) f = f x" "lbind m lret = m"
  by (rule ext, simp add: lbind_def lret_def cbind_def split: sum.splits prod.splits)+

lemma lbind_assoc: "lbind (lbind m f) g = lbind m (\<lambda>x. lbind (f x) g)"
  by (rule ext) (simp add: lbind_def cbind_def split: sum.splits prod.splits)

lemma repeat_add: "repeat (n + k) u = lbind (repeat n u) (\<lambda>xs. lbind (repeat k u) (\<lambda>ys. lret (xs @ ys)))"
  by (induction n) (simp_all add: lbind_assoc)

lemma payload_add: "payload kind (n + k) = lbind (payload kind n) (\<lambda>a. lbind (payload kind k) (\<lambda>b. lret (a @ b)))"
  by (simp add: payload_def repeat_add lbind_assoc)

lemma reads_payload_add:
  assumes "reads (payload kind n) a x" "reads (payload kind k) b y"
  shows "reads (payload kind (n + k)) (a @ b) (x @ y)"
  unfolding payload_add using reads_bind [OF assms(1)] reads_bind [OF assms(2) reads_ret] by fastforce

lemma reads_payload1: "reads (unit_cells kind) a x \<Longrightarrow> reads (payload kind 1) a x"
  using reads_bind [of "unit_cells kind" a x "\<lambda>x. lret (concat [x])" "[]" x] by (simp add: payload_def reads_ret lbind_assoc)

lemma reads_payload_bytes: "reads (payload DEFB (length bs)) bs (map Byte bs)"
proof -
  have "reads (lbind get_byte (\<lambda>b. lret [Byte b])) ([b] @ []) [Byte b]" for b by (rule reads_bind [OF reads_byte reads_ret])
  then have "reads (repeat (length bs) (unit_cells DEFB)) (concat (map (\<lambda>b. [b]) bs)) (map (\<lambda>b. [Byte b]) bs)"
    by (intro reads_repeat) (simp add: unit_cells_def)
  then have "reads (payload DEFB (length bs)) (concat (map (\<lambda>b. [b]) bs) @ []) (concat (map (\<lambda>b. [Byte b]) bs))"
    unfolding payload_def by (rule reads_bind) (rule reads_ret)
  moreover have "concat (map (\<lambda>b. [b]) bs) = bs" "concat (map (\<lambda>b. [Byte b]) bs) = map Byte bs" by (induction bs) simp_all
  ultimately show ?thesis by simp
qed

text \<open>\<open>runs ts bs d d'\<close>: the items \<open>bs\<close> lead from \<open>d\<close> to \<open>d'\<close>; there are at most as many as there are bytes.\<close>

definition runs :: "dtypes \<Rightarrow> byte list \<Rightarrow> ddata \<Rightarrow> ddata \<Rightarrow> bool" where
  "runs ts bs d d' \<longleftrightarrow> (\<exists>m\<le>length bs. \<forall>n. n \<noteq> -1 \<longrightarrow> (\<exists>n'. n' \<noteq> -1 \<and>
     (\<forall>f p. parse_items (m + f) ts n d (feed (bs @ p)) = parse_items f ts n' d' (feed p))))"

lemma runsE:
  assumes "runs ts bs d d'"
  obtains m where "m \<le> length bs"
    "\<And>n. n \<noteq> -1 \<Longrightarrow> \<exists>n'. n' \<noteq> -1 \<and> (\<forall>f p. parse_items (m + f) ts n d (feed (bs @ p)) = parse_items f ts n' d' (feed p))"
  using assms unfolding runs_def by blast

lemma runs_Nil: "runs ts [] d d"
  unfolding runs_def by (rule exI [of _ 0]) auto

lemma runs_append:
  assumes "runs ts a d d1" "runs ts b d1 d2"
  shows "runs ts (a @ b) d d2"
proof -
  obtain m where m: "m \<le> length a" "\<And>n. n \<noteq> -1 \<Longrightarrow> \<exists>n'. n' \<noteq> -1 \<and> (\<forall>f p. parse_items (m + f) ts n d (feed (a @ p)) = parse_items f ts n' d1 (feed p))"
    using runsE [OF assms(1)] by blast
  obtain k where k: "k \<le> length b" "\<And>n. n \<noteq> -1 \<Longrightarrow> \<exists>n'. n' \<noteq> -1 \<and> (\<forall>f p. parse_items (k + f) ts n d1 (feed (b @ p)) = parse_items f ts n' d2 (feed p))"
    using runsE [OF assms(2)] by blast
  have "\<exists>n'. n' \<noteq> -1 \<and> (\<forall>f p. parse_items ((m + k) + f) ts n d (feed ((a @ b) @ p)) = parse_items f ts n' d2 (feed p))" if n: "n \<noteq> -1" for n
  proof -
    obtain n1 where n1: "n1 \<noteq> -1" "\<And>f p. parse_items (m + f) ts n d (feed (a @ p)) = parse_items f ts n1 d1 (feed p)" using m(2) [OF n] by blast
    obtain n2 where n2: "n2 \<noteq> -1" "\<And>f p. parse_items (k + f) ts n1 d1 (feed (b @ p)) = parse_items f ts n2 d2 (feed p)" using k(2) [OF n1(1)] by blast
    have "parse_items ((m + k) + f) ts n d (feed ((a @ b) @ p)) = parse_items f ts n2 d2 (feed p)" for f p
      using n1(2) [of "k + f" "b @ p"] n2(2) [of f p] by (simp add: ac_simps)
    with n2(1) show ?thesis by blast
  qed
  then show ?thesis unfolding runs_def using m(1) k(1) by (intro exI [of _ "m + k"]) simp
qed

lemma runs_item: "reads (parse_item ts d) bs (Some (n', d')) \<Longrightarrow> n' \<noteq> -1 \<Longrightarrow> bs \<noteq> [] \<Longrightarrow> runs ts bs d d'"
  unfolding runs_def by (rule exI [of _ "Suc 0"]) (cases bs, auto simp: reads_def lbind_def intro!: exI [of _ n'])

lemma runs_data:
  assumes "runs ts bs d d'" "n \<noteq> -1"
  shows "\<exists>n'. n' \<noteq> -1 \<and> reads (parse_data ts n d) (bs @ [0]) (n', d')"
proof -
  obtain m where m: "m \<le> length bs" "\<And>n. n \<noteq> -1 \<Longrightarrow> \<exists>n'. n' \<noteq> -1 \<and> (\<forall>f p. parse_items (m + f) ts n d (feed (bs @ p)) = parse_items f ts n' d' (feed p))"
    using runsE [OF assms(1)] by blast
  obtain n' where n': "n' \<noteq> -1" "\<And>f p. parse_items (m + f) ts n d (feed (bs @ p)) = parse_items f ts n' d' (feed p)" using m(2) [OF assms(2)] by blast
  have "parse_data ts n d (feed ((bs @ [0]) @ p)) = Inr ((n', d'), feed p)" for p
  proof -
    obtain f where f: "length (bs @ 0 # p) = m + Suc f" using m(1) by (metis add_Suc_right le_iff_add length_append length_Cons add.assoc)
    have e: "parse_item ts d' (feed (0 # p)) = Inr (None, feed p)" by (simp add: parse_item_def lbind_def lret_def get_byte_def lift_in_def feed_def)
    have "parse_items (m + Suc f) ts n d (feed (bs @ 0 # p)) = Inr ((n', d'), feed p)" unfolding n'(2) by (simp add: lbind_def e lret_def)
    then show ?thesis using f by (simp add: parse_data_def feed_def)
  qed
  then show ?thesis using n'(1) by (auto simp: reads_def)
qed

section \<open>The items one by one\<close>

definition data_bytes :: "int \<Rightarrow> int \<Rightarrow> byte list" where
  "data_bytes kind n = (if n < 16 \<and> n \<noteq> 0 then [bputc (push_bit 4 kind OR n)] else bputc (push_bit 4 kind) # discon_bytes n)"

lemma disdata_eq: "con_ok n \<Longrightarrow> disdata kind n = Inr (data_bytes kind n)"
  by (simp add: disdata_def data_bytes_def discon_eq)

lemma dbyte_fields:
  assumes "1 \<le> kind" "kind < 16" "0 \<le> n" "n < 16"
  shows "bputc (push_bit 4 kind OR n) \<noteq> 0" "DLEN (bputc (push_bit 4 kind OR n)) = n" "DTYPE (bputc (push_bit 4 kind OR n)) = kind"
proof -
  let ?x = "push_bit 4 kind OR n"
  have n: "n = take_bit 4 n" and k: "kind = take_bit 4 kind" using assms by (simp_all add: take_bit_eq_mod)
  have nb: "i < 4" if "bit n i" for i using that bit_take_bit_iff [of 4 n i] n by auto
  have kb: "i < 4" if "bit kind i" for i using that bit_take_bit_iff [of 4 kind i] k by auto
  have u: "uint (bputc ?x) = ?x"
  proof (rule bit_eqI)
    show "bit (uint (bputc ?x)) i = bit ?x i" for i using kb [of "i - 4"] nb [of i] by (auto simp: bit_uint_bputc bit_or_iff bit_push_bit_iff)
  qed
  have m: "uint (15 :: byte) = mask 4" by (simp add: mask_eq_exp_minus_1)
  have "uint (bputc ?x) AND uint (15 :: byte) = n" unfolding u m
    by (rule bit_eqI) (auto simp: bit_and_iff bit_or_iff bit_push_bit_iff bit_mask_iff dest: nb)
  then show "DLEN (bputc ?x) = n" by (simp add: DLEN_def uint_and)
  have "drop_bit 4 ?x = kind" by (rule bit_eqI) (auto simp: bit_drop_bit_eq bit_or_iff bit_push_bit_iff dest: nb)
  then have "drop_bit 4 (uint (bputc ?x)) = kind" by (simp only: u)
  then show t: "DTYPE (bputc ?x) = kind" by (simp only: DTYPE_def unsigned_drop_bit_eq bintr_uint [OF order_refl])
  show "bputc ?x \<noteq> 0" using t assms by (auto simp: DTYPE_def)
qed

lemma reads_item:
  assumes "1 \<le> kind" "kind < 16" "0 \<le> n" "con_ok n" "con_ok v" and body: "reads (parse_kind ts kind n v d) bs d'"
  shows "reads (parse_item ts d) (data_bytes kind n @ discon_bytes v @ bs) (Some (n, d'))"
proof -
  have rest: "reads (lbind get_operand (\<lambda>v. lbind (parse_kind ts kind n v d) (\<lambda>d. lret (Some (n, d))))) (discon_bytes v @ bs) (Some (n, d'))"
    by (rule reads_bind [OF reads_operand [OF assms(5)]], rule reads_bind [of _ bs _ _ "[]", simplified, OF body]) (rule reads_ret)
  show ?thesis
  proof (cases "n < 16 \<and> n \<noteq> 0")
    case True
    note f = dbyte_fields [OF assms(1,2,3), simplified True]
    have "reads (parse_item ts d) ([bputc (push_bit 4 kind OR n)] @ discon_bytes v @ bs) (Some (n, d'))"
      unfolding parse_item_def by (rule reads_bind [OF reads_byte]) (use f True rest in simp)
    then show ?thesis using True by (simp add: data_bytes_def)
  next
    case False
    note f = dbyte_fields [OF assms(1,2), of 0, simplified]
    have "reads (lbind get_operand (\<lambda>n. lbind get_operand (\<lambda>v. lbind (parse_kind ts kind n v d) (\<lambda>d. lret (Some (n, d)))))) (discon_bytes n @ discon_bytes v @ bs) (Some (n, d'))"
      by (rule reads_bind [OF reads_operand [OF assms(4)]]) (rule rest)
    then have "reads (parse_item ts d) ([bputc (push_bit 4 kind)] @ discon_bytes n @ discon_bytes v @ bs) (Some (n, d'))"
      unfolding parse_item_def by (intro reads_bind [OF reads_byte]) (simp add: f)
    then show ?thesis unfolding data_bytes_def if_not_P [OF False] by simp
  qed
qed

lemma data_bytes_ne: "data_bytes kind n \<noteq> []"
  by (simp add: data_bytes_def)

lemma runs_kind:
  assumes "1 \<le> kind" "kind < 16" "0 \<le> n" "con_ok n" "con_ok v" "reads (parse_kind ts kind n v d) bs d'"
  shows "runs ts (data_bytes kind n @ discon_bytes v @ bs) d d'"
  by (rule runs_item [OF reads_item [OF assms]]) (use assms(3) in \<open>simp_all add: data_bytes_ne\<close>)

lemma reads_lopt: "x = Some y \<Longrightarrow> reads (lopt x) [] y"
  by (simp add: reads_def lopt_def)

lemma reads_halloc: "reads halloc [] ()"
  by (simp add: reads_def halloc_def lbind_def malloc_def lret_def feed_def)

text \<open>The four kinds that are gathered.\<close>

definition scalar_kind :: "int \<Rightarrow> bool" where "scalar_kind k \<longleftrightarrow> k = DEFB \<or> k = DEFW \<or> k = DEFL \<or> k = DEFF"

lemma scalar_bounds: "scalar_kind k \<Longrightarrow> 1 \<le> k \<and> k < 16 \<and> k \<noteq> DEFS \<and> k \<noteq> -1 \<and> 0 \<le> k"
  by (auto simp: scalar_kind_def kinds)

lemma runs_scalars:
  assumes "scalar_kind k" "0 \<le> n" "con_ok n" "con_ok v" "reads (payload k (nat n)) bs cs" "dstore v cs d = Some d'"
  shows "runs ts (data_bytes k n @ discon_bytes v @ bs) d d'"
proof (rule runs_kind)
  have "reads (parse_scalars k n v d) (bs @ []) d'" unfolding parse_scalars_def
    by (rule reads_bind [OF assms(5)]) (rule reads_lopt [OF assms(6)])
  then show "reads (parse_kind ts k n v d) bs d'" using assms(1) scalar_bounds [OF assms(1)] by (simp add: parse_kind_def scalar_kind_def)
qed (use assms scalar_bounds in auto)

lemma runs_string:
  assumes "con_ok (int (length bs))" "con_ok off" "new_string off bs d = Some d'"
  shows "runs ts (data_bytes DEFS (int (length bs)) @ discon_bytes off @ bs) d d'"
proof (rule runs_kind)
  have "reads (parse_string (int (length bs)) off d) (bs @ []) d'" unfolding parse_string_def
    by (rule reads_bind0 [OF reads_guard], simp, rule reads_bind [OF reads_bytes], simp, rule reads_bind0 [OF reads_halloc])
      (rule reads_lopt, use assms(3) in \<open>simp add: new_string_def\<close>)
  then show "reads (parse_kind ts DEFS (int (length bs)) off d) bs d'" by (simp add: parse_kind_def)
qed (use assms in \<open>simp_all add: kinds\<close>)

lemma small_disw: "0 \<le> v \<Longrightarrow> v < 2 ^ 31 \<Longrightarrow> signed_take_bit 31 v = (v :: int)"
  by (simp add: signed_take_bit_int_eq_self_iff)

lemma runs_array:
  assumes "con_ok off" "tid < 2 ^ 31" "n < 2 ^ 31" "new_array ts off tid n d = Some d'"
  shows "runs ts (data_bytes DEFA 1 @ discon_bytes off @ disword tid @ disword n) d d'"
proof (rule runs_kind)
  have b: "0 \<le> tid" "tid < int (length ts)" "0 \<le> n" using assms(4) by (auto simp: new_array_def split: if_splits)
  obtain pt cs where pt: "ts ! nat tid = Some pt" "initarray pt (nat n) 0 (zeros (t_size pt * n)) = Some cs"
    and st: "dstore off (ptr_cells (Ary (length (dd_obj d)))) (d\<lparr>dd_obj := dd_obj d @ [OArr pt n cs]\<rparr>) = Some d'"
    using assms(4) b by (auto simp: new_array_def bind_eq_Some_conv)
  have t: "reads (type_at ts tid) [] (Some pt)" unfolding type_at_def
    by (rule reads_bind0 [OF reads_guard]) (use b pt reads_ret in auto)
  have "reads (parse_array ts off d) (disword tid @ disword n @ []) d'" unfolding parse_array_def
    apply (rule reads_bind [OF reads_disw])
    using b assms(2) small_disw [of tid]
    apply simp
    apply (rule reads_bind0 [OF t], rule reads_bind0 [OF reads_lopt [OF refl]])
    apply (rule reads_bind [of get_disw "disword n" _ _ "[]", simplified, OF reads_disw])
    using small_disw [OF b(3) assms(3)]
    apply simp
    by (rule reads_bind0 [OF reads_guard], use b in simp, rule reads_bind0 [OF reads_halloc], rule reads_bind0 [OF reads_lopt [OF pt(2)]]) (rule reads_lopt [OF st])
  then show "reads (parse_kind ts DEFA 1 off d) (disword tid @ disword n) d'" by (simp add: parse_kind_def kinds)
qed (use assms in \<open>simp_all add: kinds con_ok_def\<close>)

lemma runs_index:
  assumes "con_ok off" "enter_array off d = Some d'"
  shows "runs ts (data_bytes DIND_item 1 @ discon_bytes off @ disword 0) d d'"
proof (rule runs_kind)
  obtain j t n cs where e: "load_ptr off d = Some (Ary j)" "dd_obj d ! j = OArr t n cs" "0 \<le> n" "length (dd_stack d) < DADEPTH"
      "d' = d\<lparr>dd_stack := dd_addr d # dd_stack d, dd_addr := (Elems j, 0)\<rparr>"
    using assms(2) by (auto simp: enter_array_def split: option.splits dptr.splits dobj.splits if_splits)
  have "reads (parse_ind off d) (disword 0 @ []) d'" unfolding parse_ind_def
    by (rule reads_bind0 [OF reads_lopt [OF e(1)]], simp only: dptr.case e(2) dobj.case, rule reads_bind [OF reads_disw]) (use e reads_ret in simp)
  then show "reads (parse_kind ts DIND_item 1 off d) (disword 0) d'" by (simp add: parse_kind_def kinds)
qed (use assms in \<open>simp_all add: kinds con_ok_def\<close>)

lemma runs_pop: "leave_array d = Some d' \<Longrightarrow> runs ts (data_bytes DAPOP 1 @ discon_bytes 0) d d'"
proof -
  assume l: "leave_array d = Some d'"
  have "reads (parse_kind ts DAPOP 1 0 d) [] d'"
    using l by (auto simp: parse_kind_def kinds parse_pop_def leave_array_def reads_ret split: list.splits)
  then show ?thesis using runs_kind [of DAPOP 1 0 ts d "[]" d'] by (simp add: kinds con_ok_def)
qed

section \<open>The cache\<close>

lemma reads_int: "reads (unit_cells DEFW) (disword v) (word_cells (signed_take_bit 31 v))"
proof -
  have "reads (lbind get_disw (\<lambda>v. lret (word_cells v))) (disword v @ []) (word_cells (signed_take_bit 31 v))" by (rule reads_bind [OF reads_disw]) (rule reads_ret)
  then show ?thesis by (simp add: unit_cells_def kinds)
qed

lemma reads_pair:
  assumes "kind = DEFL \<or> kind = DEFF"
  shows "reads (unit_cells kind) (disword hi @ disword lo) (long_cells (signed_take_bit 31 hi) (signed_take_bit 31 lo))"
proof -
  have "reads (lbind get_disw (\<lambda>hi. lbind get_disw (\<lambda>lo. lret (long_cells hi lo)))) (disword hi @ disword lo @ []) (long_cells (signed_take_bit 31 hi) (signed_take_bit 31 lo))"
    by (rule reads_bind [OF reads_disw], rule reads_bind [OF reads_disw], rule reads_ret)
  then show ?thesis using assms by (auto simp: unit_cells_def kinds)
qed

lemma bit_low_half: "n < 32 \<Longrightarrow> bit (signed_take_bit 31 (x :: int)) n \<longleftrightarrow> bit x n"
  by (cases "n = 31") (auto simp: bit_signed_take_bit_iff min_def)

lemma long_cells_halves:
  "long_cells (signed_take_bit 31 hi) (signed_take_bit 31 lo) = long_cells hi lo" "long_cells (drop_bit 32 v) v = word_cells v"
proof -
  have "(word_of_int (push_bit 32 (signed_take_bit 31 hi) OR take_bit 32 (signed_take_bit 31 lo)) :: u64) = word_of_int (push_bit 32 hi OR take_bit 32 lo)"
    by (rule bit_word_eqI) (auto simp: bit_or_iff bit_push_bit_iff bit_take_bit_iff bit_word_of_int_iff bit_low_half)
  then show "long_cells (signed_take_bit 31 hi) (signed_take_bit 31 lo) = long_cells hi lo" by (simp add: long_cells_def word_cells_def)
  have "push_bit 32 (drop_bit 32 v) OR take_bit 32 v = v" by (rule bit_eqI) (auto simp: bit_or_iff bit_push_bit_iff bit_take_bit_iff bit_drop_bit_eq)
  then show "long_cells (drop_bit 32 v) v = word_cells v" by (simp only: long_cells_def)
qed

lemma cells_length [simp]: "length (word_cells v) = 8" "length (long_cells hi lo) = 8" "length (disword v) = 4"
  by (simp_all add: word_cells_def long_cells_def disword_def)

text \<open>What is pending: \<open>d1\<close> is what the items already written give, \<open>d\<close> what there will be after those in the cache.\<close>

definition gathered :: "dcache \<Rightarrow> ddata \<Rightarrow> ddata \<Rightarrow> dcell list \<Rightarrow> bool" where
  "gathered k d1 d cs \<longleftrightarrow> scalar_kind (k_lastkind k) \<and> con_ok (k_startoff k) \<and> 0 \<le> k_ndatum k \<and>
    reads (payload (k_lastkind k) (nat (k_ndatum k))) (k_cache k) cs \<and> dstore (k_startoff k) cs d1 = Some d \<and> (k_cache k = [] \<longrightarrow> cs = [])"

definition winv :: "dtypes \<Rightarrow> ddata \<Rightarrow> dcache \<Rightarrow> ddata \<Rightarrow> int \<Rightarrow> bool" where
  "winv ts d0 k d b \<longleftrightarrow> k_ndatum k \<le> b \<and> (\<exists>d1. runs ts (k_out k) d0 d1 \<and>
    (k_lastkind k = -1 \<and> k_cache k = [] \<and> d = d1 \<or> (\<exists>cs. gathered k d1 d cs \<and> k_lastoff k = k_startoff k + int (length cs))))"

lemma winvE:
  assumes "winv ts d0 k d b"
  obtains "k_lastkind k = -1" "k_cache k = []" "runs ts (k_out k) d0 d" "k_ndatum k \<le> b"
    | d1 cs where "runs ts (k_out k) d0 d1" "gathered k d1 d cs" "k_lastoff k = k_startoff k + int (length cs)" "k_ndatum k \<le> b"
  using assms by (auto simp: winv_def)

lemma winvI: "k_lastkind k = -1 \<Longrightarrow> k_cache k = [] \<Longrightarrow> runs ts (k_out k) d0 d \<Longrightarrow> k_ndatum k \<le> b \<Longrightarrow> winv ts d0 k d b"
  by (auto simp: winv_def)

lemma disitem_runs:
  assumes "winv ts d0 k d b" "b < 2 ^ 29"
  shows "\<exists>bs. disitem k = Inr (k\<lparr>k_out := k_out k @ bs\<rparr>) \<and> runs ts (k_out k @ bs) d0 d"
  using assms(1)
proof (cases rule: winvE)
  case 1
  then show ?thesis by (intro exI [of _ "[]"]) (simp add: disitem_def)
next
  case (2 d1 cs)
  note g = 2(2) [unfolded gathered_def]
  have n: "con_ok (k_ndatum k)" using g 2(4) assms(2) by (simp add: con_ok_def)
  show ?thesis
  proof (cases "k_cache k = []")
    case True
    then have "cs = []" "d = d1" using g by (auto simp: dstore_def)
    then show ?thesis using 2(1) True by (intro exI [of _ "[]"]) (simp add: disitem_def)
  next
    case False
    have "runs ts (data_bytes (k_lastkind k) (k_ndatum k) @ discon_bytes (k_startoff k) @ k_cache k) d1 d" by (rule runs_scalars) (use g n in auto)
    then have "runs ts (k_out k @ data_bytes (k_lastkind k) (k_ndatum k) @ discon_bytes (k_startoff k) @ k_cache k) d0 d" by (rule runs_append [OF 2(1)])
    moreover have "k_lastkind k \<noteq> -1" using g scalar_bounds by blast
    ultimately show ?thesis using False n g
      by (intro exI [of _ "data_bytes (k_lastkind k) (k_ndatum k) @ discon_bytes (k_startoff k) @ k_cache k"]) (simp add: disitem_def disdata_eq discon_eq)
  qed
qed

lemma disflush_end:
  assumes "winv ts d0 k d b" "b < 2 ^ 29" "0 \<le> b"
  shows "\<exists>k'. disflush (-1) (-1) 0 k = Inr k' \<and> runs ts (k_out k') d0 d \<and> k_lastkind k' = -1 \<and> k_cache k' = [] \<and> k_ndatum k' \<le> b"
proof (cases "k_lastkind k = -1 \<and> k_lastoff k = -1")
  case True
  from assms(1) show ?thesis
  proof (cases rule: winvE)
    case 1
    then show ?thesis using True by (simp add: disflush_def disstart_def disroom_def)
  next
    case (2 d1 cs)
    then show ?thesis using True scalar_bounds [of "-1"] by (simp add: gathered_def)
  qed
next
  case False
  obtain bs where "disitem k = Inr (k\<lparr>k_out := k_out k @ bs\<rparr>)" "runs ts (k_out k @ bs) d0 d" using disitem_runs [OF assms(1,2)] by blast
  then show ?thesis using False assms(3) by (auto simp: disflush_def disstart_def disroom_def)
qed

lemma disroom_ok:
  assumes "0 \<le> kind" "sz < 1024"
  shows "\<exists>l. disroom kind sz k = Inr (k\<lparr>k_lencache := l\<rparr>) \<and> int (length (k_cache k)) + sz \<le> l"
proof (cases "int (length (k_cache k)) + sz \<ge> k_lencache k")
  case True
  then show ?thesis using assms by (intro exI [of _ "int (length (k_cache k)) + 1024"]) (simp add: disroom_def)
next
  case False
  then show ?thesis using assms by (intro exI [of _ "k_lencache k"]) (simp add: disroom_def)
qed

text \<open>A scalar: the cache continues at its place or starts there.\<close>

lemma disflush_scalar:
  assumes w: "winv ts d0 k d b" "b < 2 ^ 29" "0 \<le> b" and kind: "scalar_kind kind" "con_ok off" "sz < 1024"
  shows "\<exists>k' d1 cs. disflush kind off sz k = Inr k' \<and> runs ts (k_out k') d0 d1 \<and> gathered k' d1 d cs \<and> off = k_startoff k' + int (length cs) \<and>
    k_lastkind k' = kind \<and> k_lastoff k' = off + sz \<and> k_ndatum k' \<le> b \<and> int (length (k_cache k')) + sz \<le> k_lencache k'"
proof -
  have "\<exists>k1 d1 cs. disstart kind off k = Inr k1 \<and> runs ts (k_out k1) d0 d1 \<and> gathered k1 d1 d cs \<and> off = k_startoff k1 + int (length cs) \<and> k_lastkind k1 = kind \<and> k_ndatum k1 \<le> b"
  proof (cases "kind \<noteq> k_lastkind k \<or> off \<noteq> k_lastoff k")
    case True
    obtain bs where i: "disitem k = Inr (k\<lparr>k_out := k_out k @ bs\<rparr>)" "runs ts (k_out k @ bs) d0 d" using disitem_runs [OF w(1,2)] by blast
    let ?k = "k\<lparr>k_out := k_out k @ bs, k_startoff := off, k_lastkind := kind, k_cache := [], k_ndatum := 0\<rparr>"
    have "gathered ?k d d []" using kind by (simp add: gathered_def payload_def reads_ret dstore_def)
    then show ?thesis using True i w(3) by (intro exI [of _ ?k] exI [of _ d] exI [of _ "[]"]) (simp add: disstart_def)
  next
    case False
    from w(1) show ?thesis
    proof (cases rule: winvE)
      case 1
      then show ?thesis using False scalar_bounds [OF kind(1)] by simp
    next
      case (2 d1 cs)
      then show ?thesis using False by (intro exI [of _ k] exI [of _ d1] exI [of _ cs]) (simp add: disstart_def)
    qed
  qed
  then obtain k1 d1 cs where k1: "disstart kind off k = Inr k1" and g: "runs ts (k_out k1) d0 d1" "gathered k1 d1 d cs" "off = k_startoff k1 + int (length cs)" "k_lastkind k1 = kind" "k_ndatum k1 \<le> b" by blast
  obtain l where l: "disroom kind sz (k1\<lparr>k_lastoff := off + sz\<rparr>) = Inr (k1\<lparr>k_lastoff := off + sz, k_lencache := l\<rparr>)" "int (length (k_cache k1)) + sz \<le> l"
    using disroom_ok [of kind sz "k1\<lparr>k_lastoff := off + sz\<rparr>"] kind scalar_bounds by auto
  let ?k = "k1\<lparr>k_lastoff := off + sz, k_lencache := l\<rparr>"
  have "disflush kind off sz k = Inr ?k" by (simp add: disflush_def k1 l(1))
  moreover have "gathered ?k d1 d cs" using g(2) by (simp add: gathered_def)
  ultimately show ?thesis using g l(2) by (intro exI [of _ ?k] exI [of _ d1] exI [of _ cs]) simp
qed

lemma put_scalar:
  assumes w: "winv ts d0 k d b" "b < 2 ^ 29" "0 \<le> b" and kind: "scalar_kind kind" "con_ok off" "sz < 1024"
    and u: "reads (payload kind (nat n)) bs c" "0 \<le> n" "int (length bs) \<le> sz" "int (length c) = sz" "bs = [] \<longrightarrow> c = []"
    and st: "dstore off c d = Some d'"
  shows "\<exists>k'. cbind (disflush kind off sz k) (cache_add bs n) = Inr k' \<and> winv ts d0 k' d' (b + n)"
proof -
  obtain k1 d1 cs where f: "disflush kind off sz k = Inr k1" "runs ts (k_out k1) d0 d1" "gathered k1 d1 d cs" "off = k_startoff k1 + int (length cs)"
    "k_lastkind k1 = kind" "k_lastoff k1 = off + sz" "k_ndatum k1 \<le> b" "int (length (k_cache k1)) + sz \<le> k_lencache k1"
    using disflush_scalar [OF w kind] by blast
  note g = f(3) [unfolded gathered_def]
  let ?k = "k1\<lparr>k_cache := k_cache k1 @ bs, k_ndatum := k_ndatum k1 + n\<rparr>"
  have "reads (payload kind (nat (k_ndatum k1) + nat n)) (k_cache k1 @ bs) (cs @ c)" by (rule reads_payload_add) (use g f u in simp_all)
  moreover have "nat (k_ndatum k1) + nat n = nat (k_ndatum k1 + n)" using g u(2) by (simp add: nat_add_distrib)
  moreover have "dstore (k_startoff k1) (cs @ c) d1 = Some d'" by (rule store_append [of _ _ _ d]) (use g f st in simp_all)
  ultimately have "gathered ?k d1 d' (cs @ c)" using g u f by (auto simp: gathered_def)
  then have "winv ts d0 ?k d' (b + n)" unfolding winv_def
    by (intro conjI exI [of _ d1] disjI2 exI [of _ "cs @ c"]) (use f u(4) in simp_all)
  moreover have "cache_add bs n k1 = Inr ?k" using f u by (simp add: cache_add_def)
  ultimately show ?thesis using f(1) by simp
qed

section \<open>All values\<close>

text \<open>What the format can hold: offsets and lengths of thirty bits, indices of descriptors of 31, byte strings below the limit of \<open>disflush\<close>.\<close>

fun datum_ok :: "datum \<Rightarrow> bool" where
  "datum_ok (DByte off v) = con_ok off"
| "datum_ok (DBytes off v) = (con_ok off \<and> length v < 1024)"
| "datum_ok (DInt off v) = con_ok off"
| "datum_ok (DBig off v) = con_ok off"
| "datum_ok (DReal off hi lo) = con_ok off"
| "datum_ok (DString off v) = (con_ok off \<and> con_ok (int (length v)))"
| "datum_ok (DArray off tid n e) = (con_ok off \<and> tid < 2 ^ 31 \<and> n < 2 ^ 31)"
| "datum_ok DPop = True"

fun weight :: "datum \<Rightarrow> int" where
  "weight (DBytes off v) = int (length v)"
| "weight (DString off v) = 0" | "weight (DArray off tid n e) = 0" | "weight DPop = 0"
| "weight _ = 1"

lemma weight_nonneg: "0 \<le> weight x"
  by (cases x) simp_all

text \<open>A value that is not gathered comes after the cache has been written.\<close>

lemma put_item:
  assumes "winv ts d0 k d b" "b < 2 ^ 29" "0 \<le> b" and it: "runs ts bs d d'"
  shows "\<exists>k'. cbind (disflush (-1) (-1) 0 k) (\<lambda>k. Inr (emit bs k)) = Inr k' \<and> winv ts d0 k' d' b"
proof -
  obtain k1 where k1: "disflush (-1) (-1) 0 k = Inr k1" "runs ts (k_out k1) d0 d" "k_lastkind k1 = -1" "k_cache k1 = []" "k_ndatum k1 \<le> b"
    using disflush_end [OF assms(1-3)] by blast
  have "runs ts (k_out k1 @ bs) d0 d'" by (rule runs_append [OF k1(2) it])
  then have "winv ts d0 (emit bs k1) d' b" using k1 by (intro winvI) (simp_all add: emit_def)
  then show ?thesis using k1(1) by simp
qed

lemma disstring_eq: "con_ok off \<Longrightarrow> con_ok (int (length v)) \<Longrightarrow>
    disstring off v k = cbind (disflush (-1) (-1) 0 k) (\<lambda>k. Inr (emit (data_bytes DEFS (int (length v)) @ discon_bytes off @ v) k))"
  by (simp add: disstring_def disdata_eq discon_eq)

lemma disapop_eq: "disapop k = cbind (disflush (-1) (-1) 0 k) (\<lambda>k. Inr (emit (data_bytes DAPOP 1 @ discon_bytes 0) k))"
  by (simp add: disapop_def disdata_eq discon_eq con_ok_def)

definition array_bytes :: "int \<Rightarrow> int \<Rightarrow> int \<Rightarrow> bool \<Rightarrow> byte list" where
  "array_bytes off tid n e = (data_bytes DEFA 1 @ discon_bytes off @ disword tid @ disword n) @
     (if e then data_bytes DIND_item 1 @ discon_bytes off @ disword 0 else [])"

lemma disarray_eq: "con_ok off \<Longrightarrow> disarray off tid n e k = cbind (disflush (-1) (-1) 0 k) (\<lambda>k. Inr (emit (array_bytes off tid n e) k))"
  by (simp add: disarray_def disdata_eq discon_eq con_ok_def array_bytes_def emit_def Let_def)

lemma runs_array_bytes:
  assumes "datum_ok (DArray off tid n e)" "put_datum ts (DArray off tid n e) d = Some d'"
  shows "runs ts (array_bytes off tid n e) d d'"
proof -
  obtain d1 where d1: "new_array ts off tid n d = Some d1" "(if e then enter_array off else Some) d1 = Some d'" using assms(2) by (auto simp: bind_eq_Some_conv)
  have "runs ts (if e then data_bytes DIND_item 1 @ discon_bytes off @ disword 0 else []) d1 d'"
    using d1(2) runs_index [of off d1 d' ts] assms(1) by (auto simp: runs_Nil)
  moreover have "runs ts (data_bytes DEFA 1 @ discon_bytes off @ disword tid @ disword n) d d1" by (rule runs_array [OF _ _ _ d1(1)]) (use assms(1) in simp_all)
  ultimately show ?thesis unfolding array_bytes_def by (rule runs_append [rotated])
qed

lemma discall_ok:
  assumes w: "winv ts d0 k d b" "b < 2 ^ 29" "0 \<le> b" and x: "datum_ok x" "put_datum ts x d = Some d'"
  shows "\<exists>k'. discall x k = Inr k' \<and> winv ts d0 k' d' (b + weight x)"
proof (cases x)
  case (DByte off v)
  have "reads (payload DEFB (nat 1)) [bputc v] [Byte (bputc v)]" using reads_payload_bytes [of "[bputc v]"] by simp
  then show ?thesis using put_scalar [OF w, of DEFB off 1 1 "[bputc v]"] x DByte by (simp add: disbyte_def scalar_kind_def)
next
  case (DBytes off v)
  have "reads (payload DEFB (nat (int (length v)))) v (map Byte v)" using reads_payload_bytes [of v] by simp
  then show ?thesis using put_scalar [OF w, of DEFB off "int (length v)" "int (length v)" v "map Byte v"] x DBytes by (simp add: disbytes_def scalar_kind_def)
next
  case (DInt off v)
  have "reads (payload DEFW (nat 1)) (disword v) (word_cells (signed_take_bit 31 v))" using reads_payload1 [OF reads_int [of v]] by simp
  then show ?thesis using put_scalar [OF w, of DEFW off 8 1 "disword v"] x DInt by (simp add: disint_def scalar_kind_def disword_def)
next
  case (DBig off v)
  have "reads (payload DEFL (nat 1)) (disword (drop_bit 32 v) @ disword v) (word_cells v)"
    using reads_payload1 [OF reads_pair [of DEFL "drop_bit 32 v" v]] by (simp add: long_cells_halves)
  then show ?thesis using put_scalar [OF w, of DEFL off 8 1 "disword (drop_bit 32 v) @ disword v" "word_cells v"] x DBig by (simp add: disbig_def scalar_kind_def disword_def)
next
  case (DReal off hi lo)
  have "reads (payload DEFF (nat 1)) (disword hi @ disword lo) (long_cells hi lo)"
    using reads_payload1 [OF reads_pair [of DEFF hi lo]] by (simp add: long_cells_halves)
  then show ?thesis using put_scalar [OF w, of DEFF off 8 1 "disword hi @ disword lo" "long_cells hi lo"] x DReal by (simp add: disreal_def scalar_kind_def disword_def)
next
  case (DString off v)
  then show ?thesis using put_item [OF w runs_string [of v off d d']] x by (simp add: disstring_eq)
next
  case (DArray off tid n e)
  then show ?thesis using put_item [OF w runs_array_bytes [of off tid n e ts d d']] x by (simp add: disarray_eq)
next
  case DPop
  then show ?thesis using put_item [OF w runs_pop [of d d' ts]] x by (simp add: disapop_eq)
qed

definition data_ok :: "datum list \<Rightarrow> bool" where "data_ok xs \<longleftrightarrow> list_all datum_ok xs \<and> sum_list (map weight xs) < 2 ^ 29"

lemma discalls_ok:
  assumes "winv ts d0 k d b" "0 \<le> b" "list_all datum_ok xs" "b + sum_list (map weight xs) < 2 ^ 29" "put_data ts xs d = Some d'"
  shows "\<exists>k'. discalls xs k = Inr k' \<and> winv ts d0 k' d' (b + sum_list (map weight xs))"
  using assms
proof (induction xs arbitrary: k d b)
  case (Cons x xs)
  obtain d1 where d1: "put_datum ts x d = Some d1" "put_data ts xs d1 = Some d'" using Cons.prems(5) by (auto simp: bind_eq_Some_conv)
  have s: "0 \<le> sum_list (map weight xs)" by (rule sum_list_nonneg) (auto simp: weight_nonneg)
  have b: "b < 2 ^ 29" "0 \<le> b + weight x" using s weight_nonneg [of x] Cons.prems(2,4) by simp_all
  obtain k1 where k1: "discall x k = Inr k1" "winv ts d0 k1 d1 (b + weight x)" using discall_ok [OF Cons.prems(1) b(1) Cons.prems(2) _ d1(1)] Cons.prems(3) by auto
  then show ?case using Cons.IH [OF k1(2) b(2) _ _ d1(2)] Cons.prems(3,4) by (simp add: add.assoc)
qed simp

definition decl_calls :: "vdecl list \<Rightarrow> datum list" where
  "decl_calls ds = concat (map (\<lambda>d. if v_global d then case v_init d of None \<Rightarrow> [] | Some n \<Rightarrow> datum_calls n (v_offset d) else []) ds)"

lemma discalls_append: "discalls (xs @ ys) k = cbind (discalls xs k) (discalls ys)"
  by (induction xs arbitrary: k) (simp_all add: cbind_def split: sum.splits)

lemma disdecls_eq: "disdecls ds k = discalls (decl_calls ds) k"
proof (induction ds arbitrary: k)
  case (Cons d ds)
  have "disdecls ds = discalls (decl_calls ds)" using Cons by blast
  then show ?case by (simp add: decl_calls_def discalls_append disdatum_def split: option.split)
qed (simp add: decl_calls_def)

lemma disvar_ok:
  assumes "data_ok (decl_calls ds)" "put_data ts (decl_calls ds) d = Some d'" "n \<noteq> -1"
  shows "\<exists>bs n'. disvar ds = Inr bs \<and> n' \<noteq> -1 \<and> reads (parse_data ts n d) bs (n', d')"
proof -
  let ?k = "\<lparr>k_out = [], k_cache = [], k_ndatum = 0, k_startoff = 0, k_lastoff = 0, k_lastkind = -1, k_lencache = 0\<rparr>"
  let ?b = "sum_list (map weight (decl_calls ds))"
  have w: "winv ts d ?k d 0" by (rule winvI) (simp_all add: runs_Nil)
  have b: "0 \<le> ?b" by (rule sum_list_nonneg) (auto simp: weight_nonneg)
  obtain k1 where k1: "discalls (decl_calls ds) ?k = Inr k1" "winv ts d k1 d' ?b"
    using discalls_ok [OF w order_refl _ _ assms(2)] assms(1) by (auto simp: data_ok_def)
  obtain k2 where "disflush (-1) (-1) 0 k1 = Inr k2" "runs ts (k_out k2) d d'" using disflush_end [OF k1(2) _ b] assms(1) by (auto simp: data_ok_def)
  then show ?thesis using k1(1) runs_data [of ts "k_out k2" d d' n] assms(3) by (simp add: disvar_def disdecls_eq)
qed

end
