(* ===== verification/Dis_Object_Mod.thy ===== *)
theory Dis_Object_Mod
  imports Dis_Object_Vars
begin

text \<open>Whole modules: the order of the parts in \<^verbatim>\<open>com.c\<close>, the linkage, and \<open>parsemod\<close>.\<close>

section \<open>The compiler\<close>

text \<open>
  The functions of the module (\<open>LFn\<close>: pc, descriptor, signature, adt and name) and its data (\<open>LGlobal\<close>); \<open>LBad\<close> is a declaration
  of any other kind. A name is a C string, so it has no zero.
\<close>

datatype clink = LGlobal int | LFn int int int "byte list option" "byte list" | LBad

definition NAMELEN :: nat where "NAMELEN = 64"

definition adt_name :: "byte list option \<Rightarrow> byte list \<Rightarrow> byte list" where
  "adt_name adt nm = (case adt of None \<Rightarrow> nm | Some a \<Rightarrow> a @ 46 # nm)"

fun dislink :: "clink \<Rightarrow> byte list cres" where
  "dislink (LGlobal sig) = cbind (discon (-1)) (\<lambda>b1. cbind (discon (-1)) (\<lambda>b2. Inr (b1 @ b2 @ disword sig @ [46, 109, 112, 0])))"
| "dislink (LFn pc tid sig adt nm) = cbind (discon pc) (\<lambda>b1. cbind (discon tid) (\<lambda>b2. Inr (b1 @ b2 @ disword sig @ adt_name adt nm @ [0])))"
| "dislink LBad = Inl (Raise ''unknown kind in dismod'')"

fun dismap :: "('a \<Rightarrow> byte list cres) \<Rightarrow> 'a list \<Rightarrow> byte list cres" where
  "dismap f [] = Inr []"
| "dismap f (x # xs) = cbind (f x) (\<lambda>b. cbind (dismap f xs) (\<lambda>bs. Inr (b @ bs)))"

definition dismod :: "byte list \<Rightarrow> clink list \<Rightarrow> byte list cres" where
  "dismod nm ls = cbind (dismap dislink ls) (\<lambda>bs. Inr (take (NAMELEN - 1) nm @ [0] @ bs))"

definition disentry :: "(int \<times> int) option \<Rightarrow> byte list cres" where
  "disentry e =
    (case e of
       None \<Rightarrow> cbind (discon (-1)) (\<lambda>b1. cbind (discon (-1)) (\<lambda>b2. Inr (b1 @ b2)))
     | Some (pc, tid) \<Rightarrow> cbind (discon pc) (\<lambda>b1. cbind (discon tid) (\<lambda>b2. Inr (b1 @ b2))))"

text \<open>The linkage descriptors: for every module that is used \<open>n->val\<close> and the signatures and names of its functions.\<close>

record cldt =
  g_val :: int
  g_ids :: "(int \<times> byte list option \<times> byte list) list"

definition disimport :: "int \<times> byte list option \<times> byte list \<Rightarrow> byte list cres" where
  "disimport i = (case i of (sig, adt, nm) \<Rightarrow> Inr (disword sig @ adt_name adt nm @ [0]))"

definition disldt1 :: "cldt \<Rightarrow> byte list cres" where
  "disldt1 g = cbind (discon (g_val g)) (\<lambda>b. cbind (dismap disimport (g_ids g)) (\<lambda>bs. Inr (b @ bs)))"

definition disldt :: "cldt list \<Rightarrow> byte list cres" where
  "disldt gs = cbind (discon (int (length gs))) (\<lambda>b1. cbind (dismap disldt1 gs) (\<lambda>b2. cbind (discon 0) (\<lambda>b3. Inr (b1 @ b2 @ b3))))"

text \<open>An exception handler, the labels with their names and pcs; \<open>x_reach\<close> is \<open>e->p1->reach || e->p2->reach\<close>.\<close>

record cexc =
  x_reach :: bool
  x_off :: int
  x_pc1 :: int
  x_pc2 :: int
  x_desc :: "int option"
  x_ne :: int
  x_labs :: "(byte list \<times> int) list"
  x_wild :: "int option"

definition disexclab :: "byte list \<times> int \<Rightarrow> byte list cres" where
  "disexclab l = cbind (discon (snd l)) (\<lambda>b. Inr (fst l @ [0] @ b))"

definition disexc1 :: "cexc \<Rightarrow> byte list cres" where
  "disexc1 e =
    cbind (discon (x_off e)) (\<lambda>b1. cbind (discon (x_pc1 e)) (\<lambda>b2. cbind (discon (x_pc2 e)) (\<lambda>b3.
    cbind (discon (wild_pc (x_desc e))) (\<lambda>b4. cbind (discon (int (length (x_labs e)) OR push_bit 16 (x_ne e))) (\<lambda>b5.
    cbind (dismap disexclab (x_labs e)) (\<lambda>bs. cbind (discon (wild_pc (x_wild e))) (\<lambda>b6. Inr (b1 @ b2 @ b3 @ b4 @ b5 @ bs @ b6))))))))"

definition disexc :: "cexc list \<Rightarrow> byte list cres" where
  "disexc es =
    (let rs = filter x_reach es in
     cbind (discon (int (length rs))) (\<lambda>b1. cbind (dismap disexc1 rs) (\<lambda>b2. cbind (discon 0) (\<lambda>b3. Inr (b1 @ b2 @ b3)))))"

text \<open>The flags and magic numbers of \<^verbatim>\<open>isa.h\<close>.\<close>

definition XMAGIC :: int where "XMAGIC = 819248"
definition SMAGIC :: int where "SMAGIC = 923426"
definition MUSTCOMPILE :: int where "MUSTCOMPILE = 1"
definition DONTCOMPILE :: int where "DONTCOMPILE = 2"
definition HASLDT0 :: int where "HASLDT0 = 16"
definition HASEXCEPT :: int where "HASEXCEPT = 32"
definition HASLDT :: int where "HASLDT = 64"

lemmas flags = MUSTCOMPILE_def DONTCOMPILE_def HASLDT0_def HASEXCEPT_def HASLDT_def

record cmodule =
  c_must :: bool
  c_dont :: bool
  c_maxstack :: int
  c_ninst :: int
  c_size :: int
  c_ndesc :: int
  c_nlink :: int
  c_entry :: "(int \<times> int) option"
  c_inst :: "cinst list"
  c_desc :: "cdesc list"
  c_vars :: "vdecl list"
  c_name :: "byte list"
  c_links :: "clink list"
  c_ldts :: "cldt list"
  c_excs :: "cexc list"
  c_src :: "byte list"

definition hints :: "cmodule \<Rightarrow> int" where
  "hints c = (if c_must c then MUSTCOMPILE else 0) OR (if c_dont c then DONTCOMPILE else 0) OR HASLDT OR (if c_excs c \<noteq> [] then HASEXCEPT else 0)"

definition dishead :: "cmodule \<Rightarrow> byte list cres" where
  "dishead c = dismap discon [XMAGIC, hints c, c_maxstack c, c_ninst c, c_size c, c_ndesc c, c_nlink c]"

text \<open>The branch of \<open>modcom\<close> that writes the object file.\<close>

definition modcom :: "cmodule \<Rightarrow> byte list cres" where
  "modcom c =
    cbind (dishead c) (\<lambda>b1.
    cbind (disentry (c_entry c)) (\<lambda>b2.
    cbind (disinst (c_inst c) [] []) (\<lambda>b3.
    cbind (disdesc (c_desc c)) (\<lambda>b4.
    cbind (disvar (c_vars c)) (\<lambda>b5.
    cbind (dismod (c_name c) (c_links c)) (\<lambda>b6.
    cbind (disldt (c_ldts c)) (\<lambda>b7.
    cbind (if c_excs c \<noteq> [] then disexc (c_excs c) else Inr []) (\<lambda>b8.
    Inr (b1 @ b2 @ b3 @ b4 @ b5 @ b6 @ b7 @ b8 @ c_src c @ [0])))))))))"

section \<open>The loader\<close>

record dlink =
  k_name :: "byte list"
  k_sig :: int
  k_pc :: int
  k_frame :: "dtyp option"

record dhandler =
  h_pc1 :: int
  h_pc2 :: int
  h_eoff :: int
  h_ne :: int
  h_t :: "dtyp option"
  h_etab :: "(byte list \<times> int) list"
  h_wild :: int

text \<open>\<open>struct Module\<close>; \<open>m_entry\<close> is the index of the entry in \<open>prog\<close>, and \<open>m_origmp\<close> is the data with the strings and arrays it refers to.\<close>

record dmodule =
  m_rt :: int
  m_ss :: int
  m_prog :: "dinst list"
  m_type :: dtypes
  m_origmp :: ddata
  m_name :: "byte list"
  m_ext :: "dlink list"
  m_ldt :: "(int \<times> byte list) list list option"
  m_htab :: "dhandler list option"
  m_entry :: int
  m_entryt :: "dtyp option"
  m_path :: "byte list"

definition parse_name :: "byte list loader" where
  "parse_name s =
    (if 0 \<in> set (take 128 (l_in s)) then lbind lneed (\<lambda>_. get_cstring) s
     else if length (l_in s) < 128 then Inl Undef else kwerrstr ''bad module name'' s)"

text \<open>\<open>mlink\<close>; the descriptor of a link is not tested.\<close>

definition parse_link :: "dtypes \<Rightarrow> dlink loader" where
  "parse_link ts =
    lbind get_operand (\<lambda>pc. lbind get_operand (\<lambda>de. lbind get_disw (\<lambda>v.
    lbind (if de \<noteq> -1 then type_at ts de else lret None) (\<lambda>pt. lbind lneed (\<lambda>_. lbind get_cstring (\<lambda>nm.
    lret \<lparr>k_name = nm, k_sig = v, k_pc = pc, k_frame = pt\<rparr>))))))"

definition parse_import :: "(int \<times> byte list) loader" where
  "parse_import = lbind get_disw (\<lambda>sig. lbind lneed (\<lambda>_. lbind get_cstring (\<lambda>nm. lret (sig, nm))))"

text \<open>A count below \<open>-1\<close> would make the size for \<open>malloc\<close> wrap.\<close>

definition parse_ldt1 :: "(int \<times> (int \<times> byte list) list) loader" where
  "parse_ldt1 = lbind get_operand (\<lambda>n. lbind (lguard (-1 \<le> n)) (\<lambda>_. lbind lneed (\<lambda>_. lbind (repeat (nat n) parse_import) (\<lambda>is. lret (n, is)))))"

text \<open>The variable \<open>n\<close> is used for the count.\<close>

definition parse_ldt :: "int \<Rightarrow> (int \<times> (int \<times> byte list) list list) loader" where
  "parse_ldt n =
    lbind get_operand (\<lambda>nl. lbind (lguard (-1 \<le> nl)) (\<lambda>_. lbind lneed (\<lambda>_. lbind (repeat (nat nl) parse_ldt1) (\<lambda>gs.
    lbind get_byte (\<lambda>_. lret (if gs = [] then n else fst (last gs), map snd gs))))))"

definition parse_except :: "(byte list \<times> int) loader" where
  "parse_except = lbind lneed (\<lambda>_. lbind get_cstring (\<lambda>s. lbind get_operand (\<lambda>pc. lret (s, pc))))"

text \<open>The test before the descriptor is looked up is of the old \<open>n\<close>, not of \<open>descid\<close>.\<close>

definition parse_handler :: "dtypes \<Rightarrow> int \<Rightarrow> (int \<times> dhandler) loader" where
  "parse_handler ts n =
    lbind get_operand (\<lambda>eoff. lbind get_operand (\<lambda>pc1. lbind get_operand (\<lambda>pc2. lbind get_operand (\<lambda>descid.
    lbind (if n \<noteq> -1 then type_at ts descid else lret None) (\<lambda>t. lbind get_operand (\<lambda>n.
    let ne = drop_bit 16 n; n = n AND 0xffff in
    lbind lneed (\<lambda>_. lbind (repeat (nat n) parse_except) (\<lambda>es. lbind get_operand (\<lambda>w.
    lret (n, \<lparr>h_pc1 = pc1, h_pc2 = pc2, h_eoff = eoff, h_ne = ne, h_t = t, h_etab = es, h_wild = w\<rparr>))))))))))"

fun parse_handlers :: "nat \<Rightarrow> dtypes \<Rightarrow> int \<Rightarrow> dhandler list loader" where
  "parse_handlers 0 ts n = lret []"
| "parse_handlers (Suc k) ts n = lbind (parse_handler ts n) (\<lambda>(n, h). lbind (parse_handlers k ts n) (\<lambda>hs. lret (h # hs)))"

definition parse_htab :: "dtypes \<Rightarrow> int \<Rightarrow> dhandler list loader" where
  "parse_htab ts n =
    lbind get_operand (\<lambda>nh. lbind (lguard (-1 \<le> nh)) (\<lambda>_. lbind lneed (\<lambda>_. lbind (parse_handlers (nat nh) ts n) (\<lambda>hs.
    lbind get_byte (\<lambda>_. lret hs)))))"

text \<open>
  What \<open>parsemod\<close> calls outside the loader: the signature check of \<^verbatim>\<open>devsign.c\<close>, whether unsigned modules are refused, the just-in-time compiler
  (\<open>None\<close> when it fails) and the flags that select it. \<open>e_n\<close> is what the variable \<open>n\<close> holds before it is set.
\<close>

record lenv =
  e_verifysigner :: "byte list \<Rightarrow> int \<Rightarrow> int \<Rightarrow> int \<Rightarrow> int \<Rightarrow> bool"
  e_mustbesigned :: bool
  e_cflag :: bool
  e_dontcompile :: bool
  e_compile :: "dmodule \<Rightarrow> dmodule option"
  e_n :: int

text \<open>The signature: \<open>code\<close> is the whole file. A negative length moves the reader back.\<close>

definition parse_magic :: "lenv \<Rightarrow> byte list \<Rightarrow> int loader" where
  "parse_magic ev code =
    lbind get_operand (\<lambda>magic.
    if magic = SMAGIC then
      lbind get_operand (\<lambda>siglen. \<lambda>s.
        let n = int (length (l_in s)); pos = int (length code) - n in
        if siglen > n then kwerrstr ''corrupt signature'' s
        else if \<not> e_verifysigner ev code pos siglen (pos + siglen) (n - siglen) then kwerrstr ''security violation'' s
        else lbind (lguard (0 \<le> pos + siglen)) (\<lambda>_ s. Inr (n, s\<lparr>l_in := drop (nat (pos + siglen)) code\<rparr>)) s)
    else if magic = XMAGIC then
      (if e_mustbesigned ev then kwerrstr ''security violation: not signed'' else lret (e_n ev))
    else kwerrstr ''bad magic'')"

definition parse_origmp :: "dtypes \<Rightarrow> int \<Rightarrow> ddata loader" where
  "parse_origmp ts dsize =
    (if dsize \<noteq> 0 then
       lbind (type_at ts 0) (\<lambda>p. case p of
         None \<Rightarrow> kwerrstr ''bad desc for mp''
       | Some pt \<Rightarrow>
           if t_size pt \<noteq> dsize then kwerrstr ''bad desc for mp''
           else lbind halloc (\<lambda>_. lbind (lopt (heapz pt)) (\<lambda>cs. lret \<lparr>dd_mp = Some cs, dd_obj = [], dd_addr = (Mp, 0), dd_stack = []\<rparr>)))
     else lret \<lparr>dd_mp = None, dd_obj = [], dd_addr = (Mp, 0), dd_stack = []\<rparr>)"

definition parse_entry :: "dtypes \<Rightarrow> int \<Rightarrow> int \<Rightarrow> int \<Rightarrow> (int \<times> dtyp option) loader" where
  "parse_entry ts isize entry entryt =
    (if entry < isize \<and> entryt < int (length ts) then lbind (type_at ts entryt) (\<lambda>t. lret (entry, t)) else lret (0, None))"

definition jit :: "lenv \<Rightarrow> dmodule \<Rightarrow> dmodule loader" where
  "jit ev m =
    (if e_cflag ev then
       if m_rt m AND DONTCOMPILE = 0 \<and> \<not> e_dontcompile ev then lret (case e_compile ev m of None \<Rightarrow> m | Some m \<Rightarrow> m) else lret m
     else if m_rt m AND MUSTCOMPILE \<noteq> 0 \<and> \<not> e_dontcompile ev then
       (case e_compile ev m of None \<Rightarrow> kwerrstr ''compiler required'' | Some m \<Rightarrow> lret m)
     else lret m)"

definition parse_rest :: "lenv \<Rightarrow> byte list \<Rightarrow> int \<Rightarrow> int \<Rightarrow> int \<Rightarrow> int \<Rightarrow> int \<Rightarrow> int \<Rightarrow> int \<Rightarrow> int \<Rightarrow> int \<Rightarrow> dmodule loader" where
  "parse_rest ev path n rt ss isize dsize hsize lsize entry entryt =
    (if isize < 0 \<or> dsize < 0 \<or> hsize < 0 \<or> lsize < 0 then kwerrstr ''implausible Dis file''
     else lbind lneed (\<lambda>_. lbind (repeat (nat isize) (parse_inst isize)) (\<lambda>prog.
       lbind lneed (\<lambda>_. lbind (parse_types (nat hsize) hsize (replicate (nat hsize) None)) (\<lambda>ts.
       lbind (parse_origmp ts dsize) (\<lambda>d. lbind (parse_data ts n d) (\<lambda>(n, d).
       lbind parse_name (\<lambda>nm. lbind lneed (\<lambda>_. lbind (repeat (nat lsize) (parse_link ts)) (\<lambda>ext.
       if rt AND HASLDT0 \<noteq> 0 then kwerrstr ''obsolete dis''
       else lbind (if rt AND HASLDT \<noteq> 0 then lbind (parse_ldt n) (\<lambda>(n, gs). lret (n, Some gs)) else lret (n, None)) (\<lambda>(n, ldt).
         lbind (if rt AND HASEXCEPT \<noteq> 0 then lbind (parse_htab ts n) (\<lambda>hs. lret (Some hs)) else lret None) (\<lambda>htab.
         lbind (parse_entry ts isize entry entryt) (\<lambda>(e, et).
         lbind (jit ev \<lparr>m_rt = rt, m_ss = ss, m_prog = prog, m_type = ts, m_origmp = d, m_name = nm, m_ext = ext, m_ldt = ldt, m_htab = htab,
                        m_entry = e, m_entryt = et, m_path = []\<rparr>) (\<lambda>m.
         lbind lneed (\<lambda>_. lret (m\<lparr>m_path := path\<rparr>))))))))))))))))"

text \<open>The module is put in front of \<open>modules\<close>, so the result is the new list. When there is no room for \<open>m\<close> itself nil is returned with no message.\<close>

definition parsemod :: "lenv \<Rightarrow> byte list \<Rightarrow> byte list \<Rightarrow> dmodule list \<Rightarrow> dmodule list loader" where
  "parsemod ev path code modules =
    lbind malloc (\<lambda>ok. if \<not> ok then kwerrstr [] else
    lbind (parse_magic ev code) (\<lambda>n.
    lbind get_operand (\<lambda>rt. lbind get_operand (\<lambda>ss. lbind get_operand (\<lambda>isize. lbind get_operand (\<lambda>dsize. lbind get_operand (\<lambda>hsize.
    lbind get_operand (\<lambda>lsize. lbind get_operand (\<lambda>entry. lbind get_operand (\<lambda>entryt.
    lbind (parse_rest ev path n rt ss isize dsize hsize lsize entry entryt) (\<lambda>m. lret (m # modules))))))))))))"

end
