(* ===== verification/Dis_Object_Link.thy ===== *)
theory Dis_Object_Link
  imports Dis_Object_Mod
begin

text \<open>What the compiler writes of a module the loader reads back: descriptors, linkage, handlers, and the whole file.\<close>

section \<open>Descriptors\<close>

definition loaded_types :: "cdesc list \<Rightarrow> dtypes" where
  "loaded_types ds = map (\<lambda>d. Some \<lparr>t_size = d_size d, t_map = d_map d\<rparr>) ds"

text \<open>As \<open>resolvedesc\<close> numbers them.\<close>

definition desc_ok :: "cdesc list \<Rightarrow> bool" where
  "desc_ok ds \<longleftrightarrow> con_ok (int (length ds)) \<and> map d_id ds = map int [0..<length ds] \<and>
    list_all (\<lambda>d. 0 \<le> d_size d \<and> con_ok (d_size d) \<and> length (d_map d) \<le> 128 * 1024) ds"

definition desc_bytes :: "cdesc \<Rightarrow> byte list" where
  "desc_bytes d = discon_bytes (d_id d) @ discon_bytes (d_size d) @ discon_bytes (int (length (d_map d))) @ d_map d"

lemma disdesc_eq:
  assumes "list_all (\<lambda>d. con_ok (d_id d) \<and> con_ok (d_size d) \<and> con_ok (int (length (d_map d)))) ds"
  shows "disdesc ds = Inr (concat (map desc_bytes ds))"
  using assms by (induction ds) (simp_all add: discon_eq desc_bytes_def)

lemma reads_type:
  assumes "con_ok (d_id d)" "con_ok (d_size d)" "length (d_map d) \<le> 128 * 1024" "0 \<le> d_size d" "d_id d \<le> hsize" "0 \<le> d_id d" "d_id d < int (length ts)"
  shows "reads (parse_type hsize ts) (desc_bytes d) (ts[nat (d_id d) := Some \<lparr>t_size = d_size d, t_map = d_map d\<rparr>])"
proof -
  have n: "con_ok (int (length (d_map d)))" using assms(3) by (simp add: con_ok_def)
  have t: "reads (dtype (d_size d) (d_map d)) [] \<lparr>t_size = d_size d, t_map = d_map d\<rparr>" unfolding dtype_def by (rule reads_bind0 [OF reads_need reads_ret])
  have "reads (parse_type hsize ts) (discon_bytes (d_id d) @ discon_bytes (d_size d) @ discon_bytes (int (length (d_map d))) @ d_map d @ [])
    (ts[nat (d_id d) := Some \<lparr>t_size = d_size d, t_map = d_map d\<rparr>])"
    unfolding parse_type_def
    apply (rule reads_bind [OF reads_operand [OF assms(1)]])
    apply (subst if_not_P, use assms(5) in simp)
    apply (rule reads_bind [OF reads_operand [OF assms(2)]], rule reads_bind [OF reads_operand [OF n]])
    apply (subst if_not_P, use assms(3,4) in simp)
    by (rule reads_bind [OF reads_bytes], simp, rule reads_bind0 [OF t], rule reads_bind0 [OF reads_guard], use assms in simp) (rule reads_ret)
  then show ?thesis by (simp add: desc_bytes_def)
qed

lemma reads_types_from:
  assumes "map d_id ds = map int [k..<k + length ds]" "k = length done" "int (k + length ds) \<le> hsize" "con_ok hsize"
    "list_all (\<lambda>d. 0 \<le> d_size d \<and> con_ok (d_size d) \<and> length (d_map d) \<le> 128 * 1024) ds"
  shows "reads (parse_types (length ds) hsize (done @ replicate (length ds) None)) (concat (map desc_bytes ds)) (done @ loaded_types ds)"
  using assms
proof (induction ds arbitrary: k "done")
  case (Cons d ds)
  have u: "[k..<k + length (d # ds)] = k # [Suc k..<Suc k + length ds]" using upt_conv_Cons [of k "k + length (d # ds)"] by simp
  have d: "d_id d = int k" "map d_id ds = map int [Suc k..<Suc k + length ds]" using Cons.prems(1) unfolding u by simp_all
  let ?t = "Some \<lparr>t_size = d_size d, t_map = d_map d\<rparr>"
  have "reads (parse_type hsize (done @ None # replicate (length ds) None)) (desc_bytes d) ((done @ None # replicate (length ds) None)[nat (d_id d) := ?t])"
    by (rule reads_type) (use Cons.prems d in \<open>auto simp: con_ok_def\<close>)
  moreover have "(done @ None # replicate (length ds) None)[nat (d_id d) := ?t] = (done @ [?t]) @ replicate (length ds) None"
    using d(1) Cons.prems(2) by simp
  ultimately have 1: "reads (parse_type hsize (done @ None # replicate (length ds) None)) (desc_bytes d) ((done @ [?t]) @ replicate (length ds) None)" by simp
  have 2: "reads (parse_types (length ds) hsize ((done @ [?t]) @ replicate (length ds) None)) (concat (map desc_bytes ds)) ((done @ [?t]) @ loaded_types ds)"
    by (rule Cons.IH [OF d(2)]) (use Cons.prems in auto)
  show ?case using reads_bind [OF 1, of "parse_types (length ds) hsize"] 2 by (simp add: loaded_types_def)
qed (simp add: loaded_types_def reads_ret)

lemma reads_types:
  assumes "desc_ok ds"
  shows "reads (parse_types (length ds) (int (length ds)) (replicate (length ds) None)) (concat (map desc_bytes ds)) (loaded_types ds)"
  using reads_types_from [of ds 0 "[]" "int (length ds)"] assms by (simp add: desc_ok_def)

lemma disdesc_ok:
  assumes "desc_ok ds"
  shows "disdesc ds = Inr (concat (map desc_bytes ds))"
proof (rule disdesc_eq)
  have "con_ok (d_id d) \<and> con_ok (d_size d) \<and> con_ok (int (length (d_map d)))" if "d \<in> set ds" for d
  proof -
    have "d_id d \<in> set (map int [0..<length ds])" using assms that by (metis desc_ok_def image_eqI list.set_map)
    then show ?thesis using assms that by (auto simp: desc_ok_def con_ok_def list_all_iff)
  qed
  then show "list_all (\<lambda>d. con_ok (d_id d) \<and> con_ok (d_size d) \<and> con_ok (int (length (d_map d)))) ds" by (simp add: list_all_iff)
qed

lemma reads_type_at: "0 \<le> i \<Longrightarrow> i < int (length ts) \<Longrightarrow> reads (type_at ts i) [] (ts ! nat i)"
  unfolding type_at_def by (rule reads_bind0 [OF reads_guard]) (use reads_ret in auto)

section \<open>Linkage\<close>

lemma dismap_eq: "(\<And>x. x \<in> set xs \<Longrightarrow> f x = Inr (g x)) \<Longrightarrow> dismap f xs = Inr (concat (map g xs))"
  by (induction xs) simp_all

definition name_ok :: "byte list option \<Rightarrow> byte list \<Rightarrow> bool" where "name_ok adt nm \<longleftrightarrow> 0 \<notin> set (adt_name adt nm)"

fun link_ok :: "dtypes \<Rightarrow> clink \<Rightarrow> bool" where
  "link_ok ts (LGlobal sig) = True"
| "link_ok ts (LFn pc tid sig adt nm) = (con_ok pc \<and> con_ok tid \<and> 0 \<le> tid \<and> tid < int (length ts) \<and> name_ok adt nm)"
| "link_ok ts LBad = False"

fun loaded_link :: "dtypes \<Rightarrow> clink \<Rightarrow> dlink" where
  "loaded_link ts (LGlobal sig) = \<lparr>k_name = [46, 109, 112], k_sig = signed_take_bit 31 sig, k_pc = -1, k_frame = None\<rparr>"
| "loaded_link ts (LFn pc tid sig adt nm) = \<lparr>k_name = adt_name adt nm, k_sig = signed_take_bit 31 sig, k_pc = pc, k_frame = ts ! nat tid\<rparr>"
| "loaded_link ts LBad = \<lparr>k_name = [], k_sig = 0, k_pc = 0, k_frame = None\<rparr>"

fun link_bytes :: "clink \<Rightarrow> byte list" where
  "link_bytes (LGlobal sig) = discon_bytes (-1) @ discon_bytes (-1) @ disword sig @ [46, 109, 112, 0]"
| "link_bytes (LFn pc tid sig adt nm) = discon_bytes pc @ discon_bytes tid @ disword sig @ adt_name adt nm @ [0]"
| "link_bytes LBad = []"

lemma con_ok_small: "con_ok (-1)" "con_ok 0" "con_ok 1"
  by (simp_all add: con_ok_def)

lemma dislink_eq: "link_ok ts l \<Longrightarrow> dislink l = Inr (link_bytes l)"
  by (cases l) (simp_all add: discon_eq con_ok_small)

lemma reads_bind_last: "reads m a x \<Longrightarrow> reads (f x) [] y \<Longrightarrow> reads (lbind m f) a y"
  using reads_bind [of m a x f "[]" y] by simp

lemma reads_named:
  assumes "0 \<notin> set nm" "reads (f nm) [] x"
  shows "reads (lbind lneed (\<lambda>_. lbind get_cstring f)) (nm @ [0]) x"
  by (rule reads_bind0 [OF reads_need], rule reads_bind_last [OF reads_cstring [OF assms(1)]], rule assms(2))

lemma reads_link_parts:
  assumes "con_ok pc" "con_ok de" "0 \<notin> set nm" "reads (if de \<noteq> -1 then type_at ts de else lret None) [] pt"
  shows "reads (parse_link ts) (discon_bytes pc @ discon_bytes de @ disword sig @ nm @ [0]) \<lparr>k_name = nm, k_sig = signed_take_bit 31 sig, k_pc = pc, k_frame = pt\<rparr>"
  unfolding parse_link_def
  by (rule reads_bind [OF reads_operand [OF assms(1)]], rule reads_bind [OF reads_operand [OF assms(2)]], rule reads_bind [OF reads_disw],
      rule reads_bind0 [OF assms(4)], rule reads_named [OF assms(3)], rule reads_ret)

lemma reads_link:
  assumes "link_ok ts l"
  shows "reads (parse_link ts) (link_bytes l) (loaded_link ts l)"
proof (cases l)
  case (LGlobal sig)
  then show ?thesis using reads_link_parts [of "-1" "-1" "[46, 109, 112]" ts None sig] by (simp add: con_ok_small reads_ret)
next
  case (LFn pc tid sig adt nm)
  then show ?thesis using reads_link_parts [of pc tid "adt_name adt nm" ts "ts ! nat tid" sig] assms by (simp add: name_ok_def reads_type_at)
next
  case LBad
  then show ?thesis using assms by simp
qed

lemma reads_name:
  assumes "0 \<notin> set nm"
  shows "reads parse_name (take (NAMELEN - 1) nm @ [0]) (take (NAMELEN - 1) nm)"
  unfolding reads_def
proof
  fix p
  let ?nm = "take (NAMELEN - 1) nm"
  have z: "0 \<notin> set ?nm" using assms set_take_subset by fastforce
  have r: "reads (lbind lneed (\<lambda>_. lbind get_cstring lret)) (?nm @ [0]) ?nm" by (rule reads_named [OF z reads_ret])
  have "length ?nm < 128" by (simp add: NAMELEN_def)
  then have "take 128 (?nm @ 0 # p) = ?nm @ 0 # take (127 - length ?nm) p" by (simp add: take_Cons' NAMELEN_def)
  then have "0 \<in> set (take 128 (?nm @ 0 # p))" by simp
  then show "parse_name (feed ((?nm @ [0]) @ p)) = Inr (?nm, feed p)" using r by (simp add: parse_name_def feed_def reads_def)
qed

definition import_bytes :: "int \<times> byte list option \<times> byte list \<Rightarrow> byte list" where
  "import_bytes i = disword (fst i) @ adt_name (fst (snd i)) (snd (snd i)) @ [0]"

definition loaded_import :: "int \<times> byte list option \<times> byte list \<Rightarrow> int \<times> byte list" where
  "loaded_import i = (signed_take_bit 31 (fst i), adt_name (fst (snd i)) (snd (snd i)))"

definition ldt_ok :: "cldt \<Rightarrow> bool" where
  "ldt_ok g \<longleftrightarrow> g_val g = int (length (g_ids g)) \<and> con_ok (g_val g) \<and> (\<forall>i\<in>set (g_ids g). name_ok (fst (snd i)) (snd (snd i)))"

definition ldt_bytes :: "cldt \<Rightarrow> byte list" where "ldt_bytes g = discon_bytes (g_val g) @ concat (map import_bytes (g_ids g))"

lemma disimport_eq: "disimport i = Inr (import_bytes i)"
  by (simp add: disimport_def import_bytes_def split: prod.split)

lemma reads_import:
  assumes "name_ok (fst (snd i)) (snd (snd i))"
  shows "reads parse_import (import_bytes i) (loaded_import i)"
  unfolding parse_import_def import_bytes_def loaded_import_def
  by (rule reads_bind [OF reads_disw], rule reads_named, use assms in \<open>simp add: name_ok_def\<close>, rule reads_ret)

lemma reads_ldt1:
  assumes "ldt_ok g"
  shows "reads parse_ldt1 (ldt_bytes g) (g_val g, map loaded_import (g_ids g))"
proof -
  have "reads (repeat (length (g_ids g)) parse_import) (concat (map import_bytes (g_ids g))) (map loaded_import (g_ids g))"
    by (rule reads_repeat) (use assms reads_import in \<open>auto simp: ldt_ok_def\<close>)
  then have r: "reads (repeat (nat (g_val g)) parse_import) (concat (map import_bytes (g_ids g))) (map loaded_import (g_ids g))" using assms by (simp add: ldt_ok_def)
  have g: "con_ok (g_val g)" "-1 \<le> g_val g" using assms by (auto simp: ldt_ok_def)
  show ?thesis unfolding parse_ldt1_def ldt_bytes_def
    by (rule reads_bind [OF reads_operand [OF g(1)]], rule reads_bind0 [OF reads_guard [OF g(2)]], rule reads_bind0 [OF reads_need], rule reads_bind_last [OF r], rule reads_ret)
qed

lemma disldt1_eq: "ldt_ok g \<Longrightarrow> disldt1 g = Inr (ldt_bytes g)"
  by (auto simp: disldt1_def ldt_ok_def discon_eq dismap_eq [of _ disimport import_bytes] disimport_eq ldt_bytes_def)

definition ldts_bytes :: "cldt list \<Rightarrow> byte list" where
  "ldts_bytes gs = discon_bytes (int (length gs)) @ concat (map ldt_bytes gs) @ [0]"

lemma discon_bytes_0: "discon_bytes 0 = [0]"
  by (simp add: discon_bytes_def discon_def bputc_def)

lemma disldt_eq: "list_all ldt_ok gs \<Longrightarrow> con_ok (int (length gs)) \<Longrightarrow> disldt gs = Inr (ldts_bytes gs)"
  by (simp add: disldt_def discon_eq con_ok_small dismap_eq [of _ disldt1 ldt_bytes] disldt1_eq list_all_iff ldts_bytes_def discon_bytes_0)

lemma reads_ldt:
  assumes "list_all ldt_ok gs" "con_ok (int (length gs))" "n \<noteq> -1"
  shows "\<exists>n'. n' \<noteq> -1 \<and> reads (parse_ldt n) (ldts_bytes gs) (n', map (\<lambda>g. map loaded_import (g_ids g)) gs)"
proof -
  let ?r = "map (\<lambda>g. (g_val g, map loaded_import (g_ids g))) gs"
  let ?n = "if ?r = [] then n else fst (last ?r)"
  have r: "reads (repeat (length gs) parse_ldt1) (concat (map ldt_bytes gs)) ?r" by (rule reads_repeat) (use assms reads_ldt1 in \<open>auto simp: list_all_iff\<close>)
  have r2: "reads (parse_ldt n) (ldts_bytes gs) (?n, map snd ?r)"
    unfolding parse_ldt_def ldts_bytes_def
    by (rule reads_bind [OF reads_operand [OF assms(2)]], rule reads_bind0 [OF reads_guard], simp, rule reads_bind0 [OF reads_need], unfold nat_int,
        rule reads_bind [OF r], rule reads_bind_last [OF reads_byte], rule reads_ret)
  have n: "?n \<noteq> -1" using assms(1,3) by (cases gs rule: rev_cases) (auto simp: ldt_ok_def)
  have e: "map snd ?r = map (\<lambda>g. map loaded_import (g_ids g)) gs" by simp
  show ?thesis by (rule exI [of _ ?n], rule conjI, rule n, rule r2 [unfolded e])
qed

section \<open>Handlers\<close>

definition exc_n :: "cexc \<Rightarrow> int" where "exc_n e = int (length (x_labs e)) OR push_bit 16 (x_ne e)"

definition exc_ok :: "dtypes \<Rightarrow> cexc \<Rightarrow> bool" where
  "exc_ok ts e \<longleftrightarrow> con_ok (x_off e) \<and> con_ok (x_pc1 e) \<and> con_ok (x_pc2 e) \<and> con_ok (exc_n e) \<and> con_ok (wild_pc (x_wild e)) \<and>
    (case x_desc e of None \<Rightarrow> False | Some tid \<Rightarrow> 0 \<le> tid \<and> tid < int (length ts) \<and> con_ok tid) \<and>
    length (x_labs e) < 2 ^ 16 \<and> (\<forall>l\<in>set (x_labs e). 0 \<notin> set (fst l) \<and> con_ok (snd l))"

definition exc_bytes :: "cexc \<Rightarrow> byte list" where
  "exc_bytes e = discon_bytes (x_off e) @ discon_bytes (x_pc1 e) @ discon_bytes (x_pc2 e) @ discon_bytes (wild_pc (x_desc e)) @ discon_bytes (exc_n e) @
    concat (map (\<lambda>l. fst l @ [0] @ discon_bytes (snd l)) (x_labs e)) @ discon_bytes (wild_pc (x_wild e))"

definition loaded_exc :: "dtypes \<Rightarrow> cexc \<Rightarrow> dhandler" where
  "loaded_exc ts e = \<lparr>h_pc1 = x_pc1 e, h_pc2 = x_pc2 e, h_eoff = x_off e, h_ne = x_ne e, h_t = ts ! nat (wild_pc (x_desc e)), h_etab = x_labs e, h_wild = wild_pc (x_wild e)\<rparr>"

lemma disexc1_eq: "exc_ok ts e \<Longrightarrow> disexc1 e = Inr (exc_bytes e)"
proof -
  assume e: "exc_ok ts e"
  have "dismap disexclab (x_labs e) = Inr (concat (map (\<lambda>l. fst l @ [0] @ discon_bytes (snd l)) (x_labs e)))"
    by (rule dismap_eq) (use e in \<open>auto simp: disexclab_def exc_ok_def discon_eq\<close>)
  moreover have "con_ok (wild_pc (x_desc e))" using e by (auto simp: exc_ok_def wild_pc_def split: option.splits)
  moreover have "discon (int (length (x_labs e)) OR push_bit 16 (x_ne e)) = Inr (discon_bytes (exc_n e))" using e discon_eq [of "exc_n e"] by (simp add: exc_ok_def exc_n_def)
  ultimately show ?thesis using e by (simp add: disexc1_def exc_bytes_def exc_ok_def discon_eq)
qed

lemma exc_n_fields:
  assumes "length (x_labs e) < 2 ^ 16"
  shows "drop_bit 16 (exc_n e) = x_ne e" "exc_n e AND 0xffff = int (length (x_labs e))"
proof -
  let ?n = "int (length (x_labs e))"
  have "?n < 2 ^ 16" using assms by (metis of_nat_less_numeral_power_cancel_iff)
  then have "take_bit 16 ?n = ?n" by (simp add: take_bit_int_eq_self_iff)
  then have b: "i < 16" if "bit ?n i" for i using that by (metis bit_take_bit_iff)
  have m: "(0xffff :: int) = mask 16" by (simp add: mask_eq_exp_minus_1)
  show "drop_bit 16 (exc_n e) = x_ne e" unfolding exc_n_def by (rule bit_eqI) (auto simp: bit_drop_bit_eq bit_or_iff bit_push_bit_iff dest: b)
  show "exc_n e AND 0xffff = ?n" unfolding exc_n_def m by (rule bit_eqI) (auto simp: bit_and_iff bit_or_iff bit_push_bit_iff bit_mask_iff dest: b)
qed

lemma reads_except:
  assumes "0 \<notin> set s" "con_ok pc"
  shows "reads parse_except (s @ [0] @ discon_bytes pc) (s, pc)"
proof -
  have "reads parse_except ((s @ [0]) @ discon_bytes pc) (s, pc)" unfolding parse_except_def
    by (rule reads_bind0 [OF reads_need], rule reads_bind [OF reads_cstring [OF assms(1)]], rule reads_map [OF assms(2)])
  then show ?thesis by simp
qed

lemma reads_handler:
  assumes e: "exc_ok ts e" and n: "n \<noteq> -1"
  shows "reads (parse_handler ts n) (exc_bytes e) (int (length (x_labs e)), loaded_exc ts e)"
proof -
  obtain tid where tid: "x_desc e = Some tid" "0 \<le> tid" "tid < int (length ts)" "con_ok tid" using e by (auto simp: exc_ok_def split: option.splits)
  have c: "con_ok (x_off e)" "con_ok (x_pc1 e)" "con_ok (x_pc2 e)" "con_ok (wild_pc (x_desc e))" "con_ok (exc_n e)" "con_ok (wild_pc (x_wild e))"
    using e tid by (simp_all add: exc_ok_def wild_pc_def)
  have t: "reads (if n \<noteq> -1 then type_at ts (wild_pc (x_desc e)) else lret None) [] (ts ! nat (wild_pc (x_desc e)))"
    using n tid reads_type_at [of tid ts] by (simp add: wild_pc_def)
  note f = exc_n_fields [of e]
  have l: "length (x_labs e) < 2 ^ 16" using e by (simp add: exc_ok_def)
  have "reads (repeat (length (x_labs e)) parse_except) (concat (map (\<lambda>l. fst l @ [0] @ discon_bytes (snd l)) (x_labs e))) (map (\<lambda>l. (fst l, snd l)) (x_labs e))"
    by (rule reads_repeat) (use e reads_except in \<open>auto simp: exc_ok_def\<close>)
  then have r: "reads (repeat (nat (exc_n e AND 0xffff)) parse_except) (concat (map (\<lambda>l. fst l @ [0] @ discon_bytes (snd l)) (x_labs e))) (x_labs e)"
    using f(2) [OF l] by simp
  have "reads (parse_handler ts n) (exc_bytes e) (exc_n e AND 0xffff, \<lparr>h_pc1 = x_pc1 e, h_pc2 = x_pc2 e, h_eoff = x_off e, h_ne = drop_bit 16 (exc_n e),
      h_t = ts ! nat (wild_pc (x_desc e)), h_etab = x_labs e, h_wild = wild_pc (x_wild e)\<rparr>)"
    unfolding parse_handler_def exc_bytes_def Let_def
    by (rule reads_bind [OF reads_operand [OF c(1)]], rule reads_bind [OF reads_operand [OF c(2)]], rule reads_bind [OF reads_operand [OF c(3)]],
        rule reads_bind [OF reads_operand [OF c(4)]], rule reads_bind0 [OF t], rule reads_bind [OF reads_operand [OF c(5)]], rule reads_bind0 [OF reads_need],
        rule reads_bind [OF r], rule reads_bind_last [OF reads_operand [OF c(6)]], rule reads_ret)
  then show ?thesis using f [OF l] by (simp add: loaded_exc_def)
qed

lemma reads_handlers:
  assumes "list_all (exc_ok ts) es" "n \<noteq> -1"
  shows "reads (parse_handlers (length es) ts n) (concat (map exc_bytes es)) (map (loaded_exc ts) es)"
  using assms
proof (induction es arbitrary: n)
  case (Cons e es)
  have 1: "reads (parse_handler ts n) (exc_bytes e) (int (length (x_labs e)), loaded_exc ts e)" by (rule reads_handler) (use Cons.prems in auto)
  have 2: "reads (parse_handlers (length es) ts (int (length (x_labs e)))) (concat (map exc_bytes es)) (map (loaded_exc ts) es)" by (rule Cons.IH) (use Cons.prems in auto)
  have 3: "reads (lbind (parse_handlers (length es) ts (int (length (x_labs e)))) (\<lambda>hs. lret (loaded_exc ts e # hs))) (concat (map exc_bytes es)) (map (loaded_exc ts) (e # es))"
    by (rule reads_bind_last [OF 2]) (simp add: reads_ret)
  show ?case by (simp, rule reads_bind [OF 1]) (use 3 in simp)
qed (simp add: reads_ret)

definition excs_bytes :: "cexc list \<Rightarrow> byte list" where
  "excs_bytes es = discon_bytes (int (length (filter x_reach es))) @ concat (map exc_bytes (filter x_reach es)) @ [0]"

definition excs_ok :: "dtypes \<Rightarrow> cexc list \<Rightarrow> bool" where
  "excs_ok ts es \<longleftrightarrow> list_all (exc_ok ts) (filter x_reach es) \<and> con_ok (int (length (filter x_reach es)))"

lemma disexc_eq: "excs_ok ts es \<Longrightarrow> disexc es = Inr (excs_bytes es)"
  using dismap_eq [of "filter x_reach es" disexc1 exc_bytes] disexc1_eq [of ts]
  by (simp add: disexc_def excs_ok_def Let_def discon_eq con_ok_small list_all_iff excs_bytes_def discon_bytes_0)

lemma reads_htab:
  assumes "excs_ok ts es" "n \<noteq> -1"
  shows "reads (parse_htab ts n) (excs_bytes es) (map (loaded_exc ts) (filter x_reach es))"
proof -
  have a: "con_ok (int (length (filter x_reach es)))" "list_all (exc_ok ts) (filter x_reach es)" using assms(1) by (simp_all add: excs_ok_def)
  show ?thesis unfolding parse_htab_def excs_bytes_def
    by (rule reads_bind [OF reads_operand [OF a(1)]], rule reads_bind0 [OF reads_guard], simp, rule reads_bind0 [OF reads_need], unfold nat_int,
        rule reads_bind [OF reads_handlers [OF a(2) assms(2)]], rule reads_bind_last [OF reads_byte], rule reads_ret)
qed

end
