(* ===== verification/Dis_Object_Whole.thy ===== *)
theory Dis_Object_Whole
  imports Dis_Object_Link
begin

text \<open>The whole file: \<open>modcom\<close> followed by \<open>parsemod\<close>; and what a loaded module promises whatever the file was.\<close>

section \<open>The module that is meant\<close>

abbreviation data0 :: "dcell list option \<Rightarrow> ddata" where "data0 mp \<equiv> \<lparr>dd_mp = mp, dd_obj = [], dd_addr = (Mp, 0), dd_stack = []\<rparr>"

definition initial_data :: "dtypes \<Rightarrow> int \<Rightarrow> ddata option" where
  "initial_data ts sz =
    (if sz = 0 then Some (data0 None)
     else case ts of Some pt # _ \<Rightarrow> if t_size pt = sz then Option.bind (heapz pt) (\<lambda>cs. Some (data0 (Some cs))) else None | _ \<Rightarrow> None)"

text \<open>The data as the initialisers say, without the object file between.\<close>

definition module_data :: "cmodule \<Rightarrow> ddata option" where
  "module_data c = (let ts = loaded_types (c_desc c) in Option.bind (initial_data ts (c_size c)) (put_data ts (decl_calls (c_vars c))))"

definition real_insts :: "cmodule \<Rightarrow> cinst list" where "real_insts c = filter (\<lambda>n. n_op n \<noteq> INOOP) (c_inst c)"

definition entry_ok :: "cmodule \<Rightarrow> bool" where
  "entry_ok c \<longleftrightarrow> (case c_entry c of None \<Rightarrow> False
     | Some (pc, tid) \<Rightarrow> 0 \<le> pc \<and> pc < c_ninst c \<and> 0 \<le> tid \<and> tid < int (length (c_desc c)))"

text \<open>What the compiler guarantees of what it writes, except for the last two lines: it writes modules without entry, and handlers without descriptor.\<close>

definition mod_ok :: "cmodule \<Rightarrow> bool" where
  "mod_ok c \<longleftrightarrow>
    c_ninst c = int (length (real_insts c)) \<and> c_ndesc c = int (length (c_desc c)) \<and> c_nlink c = int (length (c_links c)) \<and>
    con_ok (c_ninst c) \<and> con_ok (c_nlink c) \<and> con_ok (c_maxstack c) \<and> 0 \<le> c_size c \<and> con_ok (c_size c) \<and>
    list_all (inst_ok (c_ninst c)) (c_inst c) \<and> desc_ok (c_desc c) \<and> data_ok (decl_calls (c_vars c)) \<and>
    0 \<notin> set (c_name c) \<and> list_all (link_ok (loaded_types (c_desc c))) (c_links c) \<and>
    list_all ldt_ok (c_ldts c) \<and> con_ok (int (length (c_ldts c))) \<and>
    excs_ok (loaded_types (c_desc c)) (c_excs c) \<and> entry_ok c"

lemma mod_okD:
  assumes "mod_ok c"
  shows "c_ninst c = int (length (real_insts c))" "c_ndesc c = int (length (c_desc c))" "c_nlink c = int (length (c_links c))"
    "con_ok (c_ninst c)" "con_ok (c_nlink c)" "con_ok (c_maxstack c)" "0 \<le> c_size c" "con_ok (c_size c)"
    "list_all (inst_ok (c_ninst c)) (c_inst c)" "desc_ok (c_desc c)" "data_ok (decl_calls (c_vars c))"
    "0 \<notin> set (c_name c)" "list_all (link_ok (loaded_types (c_desc c))) (c_links c)"
    "list_all ldt_ok (c_ldts c)" "con_ok (int (length (c_ldts c)))" "excs_ok (loaded_types (c_desc c)) (c_excs c)" "entry_ok c"
  using assms unfolding mod_ok_def by blast+

definition loaded_module :: "cmodule \<Rightarrow> byte list \<Rightarrow> ddata \<Rightarrow> dmodule" where
  "loaded_module c path d = (let ts = loaded_types (c_desc c) in
    \<lparr>m_rt = hints c, m_ss = c_maxstack c, m_prog = map loaded (real_insts c), m_type = ts, m_origmp = d,
     m_name = take (NAMELEN - 1) (c_name c), m_ext = map (loaded_link ts) (c_links c),
     m_ldt = Some (map (\<lambda>g. map loaded_import (g_ids g)) (c_ldts c)),
     m_htab = (if c_excs c = [] then None else Some (map (loaded_exc ts) (filter x_reach (c_excs c)))),
     m_entry = fst (the (c_entry c)), m_entryt = ts ! nat (snd (the (c_entry c))), m_path = path\<rparr>)"

text \<open>The virtual machine interprets the module.\<close>

definition interprets :: "lenv \<Rightarrow> cmodule \<Rightarrow> bool" where
  "interprets ev c \<longleftrightarrow> e_dontcompile ev \<or> \<not> e_cflag ev \<and> \<not> c_must c"

section \<open>Round trip\<close>

lemma hints_bits:
  "hints c AND HASLDT0 = 0" "hints c AND HASLDT \<noteq> 0" "hints c AND HASEXCEPT \<noteq> 0 \<longleftrightarrow> c_excs c \<noteq> []" "hints c AND MUSTCOMPILE \<noteq> 0 \<longleftrightarrow> c_must c" "con_ok (hints c)"
  by (cases "c_must c"; cases "c_dont c"; cases "c_excs c = []"; simp add: hints_def flags con_ok_def)+

lemma length_loaded_types [simp]: "length (loaded_types ds) = length ds"
  by (simp add: loaded_types_def)

lemma reads_origmp:
  assumes "initial_data ts sz = Some d"
  shows "reads (parse_origmp ts sz) [] d"
proof (cases "sz = 0")
  case True
  then show ?thesis using assms by (simp add: parse_origmp_def initial_data_def reads_ret)
next
  case False
  obtain pt r cs where ts: "ts = Some pt # r" "t_size pt = sz" "heapz pt = Some cs" "d = data0 (Some cs)"
    using assms False by (auto simp: initial_data_def bind_eq_Some_conv split: list.splits option.splits if_splits)
  have t: "reads (type_at ts 0) [] (Some pt)" using reads_type_at [of 0 ts] ts(1) by simp
  have "reads (lbind halloc (\<lambda>_. lbind (lopt (heapz pt)) (\<lambda>cs. lret (data0 (Some cs))))) [] d"
    by (rule reads_bind0 [OF reads_halloc], rule reads_bind0 [OF reads_lopt [OF ts(3)]]) (simp add: ts(4) reads_ret)
  then show ?thesis unfolding parse_origmp_def if_P [OF False] by (intro reads_bind0 [OF t]) (simp add: ts(2))
qed

lemma reads_jit: "interprets ev c \<Longrightarrow> m_rt m = hints c \<Longrightarrow> reads (jit ev m) [] m"
  using hints_bits(4) [of c] by (auto simp: jit_def interprets_def reads_ret)

lemma reads_entry: "entry_ok c \<Longrightarrow> isize = c_ninst c \<Longrightarrow> ts = loaded_types (c_desc c) \<Longrightarrow>
    reads (parse_entry ts isize (fst (the (c_entry c))) (snd (the (c_entry c)))) [] (fst (the (c_entry c)), ts ! nat (snd (the (c_entry c))))"
  by (auto simp: entry_ok_def parse_entry_def reads_ret split: option.splits intro!: reads_bind0 [OF reads_type_at])

definition rest_bytes :: "cmodule \<Rightarrow> byte list \<Rightarrow> byte list" where
  "rest_bytes c bv = concat (map inst_bytes (real_insts c)) @ concat (map desc_bytes (c_desc c)) @ bv @
     (take (NAMELEN - 1) (c_name c) @ [0]) @ concat (map link_bytes (c_links c)) @ ldts_bytes (c_ldts c) @
     (if c_excs c \<noteq> [] then excs_bytes (c_excs c) else [])"

lemma reads_rest:
  assumes ok: "mod_ok c" and init: "initial_data (loaded_types (c_desc c)) (c_size c) = Some d0"
    and var: "reads (parse_data (loaded_types (c_desc c)) n d0) bv (n', d)" "n' \<noteq> -1" and ev: "interprets ev c"
  shows "reads (parse_rest ev path n (hints c) (c_maxstack c) (c_ninst c) (c_size c) (c_ndesc c) (c_nlink c) (fst (the (c_entry c))) (snd (the (c_entry c))))
    (rest_bytes c bv) (loaded_module c path d)"
proof -
  let ?ts = "loaded_types (c_desc c)" and ?e = "fst (the (c_entry c))" and ?et = "snd (the (c_entry c))"
  note m = mod_okD [OF ok]
  have s: "\<not> (c_ninst c < 0 \<or> c_size c < 0 \<or> c_ndesc c < 0 \<or> c_nlink c < 0)" using m(1-3,7) by simp
  have prog: "reads (repeat (nat (c_ninst c)) (parse_inst (c_ninst c))) (concat (map inst_bytes (real_insts c))) (map loaded (real_insts c))"
    using reads_repeat [of "real_insts c" "parse_inst (c_ninst c)" inst_bytes loaded] reads_inst [of "c_ninst c"] m(9) unfolding m(1)
    by (simp add: real_insts_def list_all_iff)
  have types: "reads (parse_types (nat (c_ndesc c)) (c_ndesc c) (replicate (nat (c_ndesc c)) None)) (concat (map desc_bytes (c_desc c))) ?ts"
    using reads_types [OF m(10)] by (simp add: m(2))
  have name: "reads parse_name (take (NAMELEN - 1) (c_name c) @ [0]) (take (NAMELEN - 1) (c_name c))" using reads_name [OF m(12)] .
  have links: "reads (repeat (nat (c_nlink c)) (parse_link ?ts)) (concat (map link_bytes (c_links c))) (map (loaded_link ?ts) (c_links c))"
    using reads_repeat [of "c_links c" "parse_link ?ts" link_bytes "loaded_link ?ts"] m(13) reads_link [of ?ts] by (simp add: list_all_iff m(3))
  obtain n2 where n2: "n2 \<noteq> -1" "reads (parse_ldt n') (ldts_bytes (c_ldts c)) (n2, map (\<lambda>g. map loaded_import (g_ids g)) (c_ldts c))"
    using reads_ldt [OF m(14,15) var(2)] by blast
  have ldt: "reads (if hints c AND HASLDT \<noteq> 0 then lbind (parse_ldt n') (\<lambda>(n, gs). lret (n, Some gs)) else lret (n', None)) (ldts_bytes (c_ldts c))
      (n2, Some (map (\<lambda>g. map loaded_import (g_ids g)) (c_ldts c)))"
    using reads_bind_last [OF n2(2), of "\<lambda>(n, gs). lret (n, Some gs)"] hints_bits(2) [of c] by (simp add: reads_ret)
  have htab: "reads (if hints c AND HASEXCEPT \<noteq> 0 then lbind (parse_htab ?ts n2) (\<lambda>hs. lret (Some hs)) else lret None) (if c_excs c \<noteq> [] then excs_bytes (c_excs c) else [])
      (if c_excs c = [] then None else Some (map (loaded_exc ?ts) (filter x_reach (c_excs c))))"
    using reads_bind_last [OF reads_htab [OF m(16) n2(1)], of "\<lambda>hs. lret (Some hs)"] hints_bits(3) [of c] by (auto simp: reads_ret)
  have entry: "reads (parse_entry ?ts (c_ninst c) ?e ?et) [] (?e, ?ts ! nat ?et)" using reads_entry [OF m(17)] by blast
  show ?thesis unfolding parse_rest_def rest_bytes_def if_not_P [OF s]
    apply (rule reads_bind0 [OF reads_need], rule reads_bind [OF prog], rule reads_bind0 [OF reads_need], rule reads_bind [OF types])
    apply (rule reads_bind0 [OF reads_origmp [OF init]], rule reads_bind [OF var(1)], unfold prod.case)
    apply (rule reads_bind [OF name], rule reads_bind0 [OF reads_need], rule reads_bind [OF links])
    apply (subst if_not_P, simp add: hints_bits)
    apply (rule reads_bind [OF ldt], unfold prod.case, rule reads_bind_last [OF htab])
    apply (rule reads_bind0 [OF entry], unfold prod.case, rule reads_bind0 [OF reads_jit [OF ev]], simp, rule reads_bind0 [OF reads_need])
    by (simp add: loaded_module_def Let_def reads_ret)
qed

definition head_bytes :: "cmodule \<Rightarrow> byte list" where
  "head_bytes c = discon_bytes XMAGIC @ discon_bytes (hints c) @ discon_bytes (c_maxstack c) @ discon_bytes (c_ninst c) @ discon_bytes (c_size c) @ discon_bytes (c_ndesc c) @
     discon_bytes (c_nlink c) @ discon_bytes (fst (the (c_entry c))) @ discon_bytes (snd (the (c_entry c)))"

lemma reads_module:
  assumes ok: "mod_ok c" and init: "initial_data (loaded_types (c_desc c)) (c_size c) = Some d0"
    and var: "reads (parse_data (loaded_types (c_desc c)) (e_n ev) d0) bv (n', d)" "n' \<noteq> -1" and ev: "interprets ev c" "\<not> e_mustbesigned ev"
  shows "reads (parsemod ev path code modules) (head_bytes c @ rest_bytes c bv) (loaded_module c path d # modules)"
proof -
  have mg: "reads (parse_magic ev code) (discon_bytes XMAGIC) (e_n ev)"
    unfolding parse_magic_def by (rule reads_bind_last [OF reads_operand]) (use ev(2) in \<open>simp_all add: con_ok_def XMAGIC_def SMAGIC_def reads_ret\<close>)
  have mal: "reads malloc [] True" by (simp add: reads_def malloc_def feed_def)
  note m = mod_okD [OF ok]
  have e: "con_ok (fst (the (c_entry c)))" "con_ok (snd (the (c_entry c)))" "con_ok (c_ndesc c)"
    using m(2,4,10,17) by (auto simp: entry_ok_def con_ok_def desc_ok_def split: option.splits)
  have c: "con_ok (c_maxstack c)" "con_ok (c_ninst c)" "con_ok (c_size c)" "con_ok (c_nlink c)" using m by auto
  show ?thesis unfolding parsemod_def head_bytes_def append_assoc
    apply (rule reads_bind0 [OF mal], subst if_not_P, simp)
    apply (rule reads_bind [OF mg], rule reads_bind [OF reads_operand [OF hints_bits(5)]], rule reads_bind [OF reads_operand [OF c(1)]])
    apply (rule reads_bind [OF reads_operand [OF c(2)]], rule reads_bind [OF reads_operand [OF c(3)]], rule reads_bind [OF reads_operand [OF e(3)]])
    apply (rule reads_bind [OF reads_operand [OF c(4)]], rule reads_bind [OF reads_operand [OF e(1)]], rule reads_bind [OF reads_operand [OF e(2)]])
    by (rule reads_bind_last [OF reads_rest [OF ok init var ev(1)]]) (rule reads_ret)
qed

lemma modcom_eq:
  assumes ok: "mod_ok c" and bv: "disvar (c_vars c) = Inr bv"
  shows "modcom c = Inr ((head_bytes c @ rest_bytes c bv) @ c_src c @ [0])"
proof -
  note m = mod_okD [OF ok]
  obtain pc tid where e: "c_entry c = Some (pc, tid)" "con_ok pc" "con_ok tid"
    using m(2,4,10,17) by (auto simp: entry_ok_def con_ok_def desc_ok_def split: option.splits)
  have nd: "con_ok XMAGIC" "con_ok (c_ndesc c)" using m(2,10) by (auto simp: con_ok_def XMAGIC_def desc_ok_def)
  then have h: "dishead c = Inr (discon_bytes XMAGIC @ discon_bytes (hints c) @ discon_bytes (c_maxstack c) @ discon_bytes (c_ninst c) @ discon_bytes (c_size c) @
      discon_bytes (c_ndesc c) @ discon_bytes (c_nlink c))"
    using m(4-6,8) hints_bits(5) [of c] by (simp add: dishead_def discon_eq)
  have "dismap dislink (c_links c) = Inr (concat (map link_bytes (c_links c)))" by (rule dismap_eq) (use m(13) dislink_eq in \<open>auto simp: list_all_iff\<close>)
  then have l: "dismod (c_name c) (c_links c) = Inr (take (NAMELEN - 1) (c_name c) @ [0] @ concat (map link_bytes (c_links c)))" by (simp add: dismod_def)
  have i: "disinst (c_inst c) [] [] = Inr (concat (map inst_bytes (real_insts c)))" using disinst_eq [of "c_ninst c" "c_inst c" "[]" "[]"] m(9) by (simp add: real_insts_def)
  have x: "(if c_excs c \<noteq> [] then disexc (c_excs c) else Inr []) = Inr (if c_excs c \<noteq> [] then excs_bytes (c_excs c) else [])" using disexc_eq [OF m(16)] by auto
  have g: "disldt (c_ldts c) = Inr (ldts_bytes (c_ldts c))" using disldt_eq [OF m(14,15)] .
  show ?thesis
    by (simp only: modcom_def h l i x g bv disdesc_ok [OF m(10)] cbind_Inr disentry_def e option.case prod.case discon_eq head_bytes_def rest_bytes_def option.sel fst_conv snd_conv append_assoc)
qed

lemma modcom_parsemod_ok:
  assumes "mod_ok c" "module_data c = Some d" "interprets ev c" "\<not> e_mustbesigned ev" "e_n ev \<noteq> -1"
  shows "\<exists>bs. modcom c = Inr bs \<and> parsemod ev path bs modules (feed bs) = Inr (loaded_module c path d # modules, feed (c_src c @ [0]))"
proof -
  let ?ts = "loaded_types (c_desc c)"
  obtain d0 where d0: "initial_data ?ts (c_size c) = Some d0" "put_data ?ts (decl_calls (c_vars c)) d0 = Some d"
    using assms(2) by (auto simp: module_data_def bind_eq_Some_conv Let_def)
  have "data_ok (decl_calls (c_vars c))" using mod_okD(11) [OF assms(1)] .
  then obtain bv n' where bv: "disvar (c_vars c) = Inr bv" "n' \<noteq> -1" "reads (parse_data ?ts (e_n ev) d0) bv (n', d)"
    using disvar_ok [OF _ d0(2) assms(5)] by blast
  let ?bs = "head_bytes c @ rest_bytes c bv"
  have "reads (parsemod ev path (?bs @ c_src c @ [0]) modules) ?bs (loaded_module c path d # modules)"
    by (rule reads_module [OF assms(1) d0(1) bv(3,2) assms(3,4)])
  then have "parsemod ev path (?bs @ c_src c @ [0]) modules (feed (?bs @ c_src c @ [0])) = Inr (loaded_module c path d # modules, feed (c_src c @ [0]))"
    unfolding reads_def by blast
  then show ?thesis using modcom_eq [OF assms(1) bv(1)] by blast
qed

end
