(* ===== verification/Dis_Object_Theorems.thy ===== *)
theory Dis_Object_Theorems
  imports Dis_Object_Whole
begin

text \<open>The properties of object files: what the compiler writes is read back, and what the loader guarantees of any file it accepts.\<close>

section \<open>Any file\<close>

text \<open>\<open>lpost m P\<close>: what \<open>m\<close> returns, when it returns, satisfies \<open>P\<close>.\<close>

definition lpost :: "'a loader \<Rightarrow> ('a \<Rightarrow> bool) \<Rightarrow> bool" where
  "lpost m P \<longleftrightarrow> (\<forall>s x s'. m s = Inr (x, s') \<longrightarrow> P x)"

lemma lbindE:
  assumes "lbind m f s = Inr r"
  obtains x s1 where "m s = Inr (x, s1)" "f x s1 = Inr r"
  using assms by (auto simp: lbind_def cbind_def split: sum.splits prod.splits)

lemma lpost_bind: "lpost m Q \<Longrightarrow> (\<And>x. Q x \<Longrightarrow> lpost (f x) P) \<Longrightarrow> lpost (lbind m f) P"
  by (fastforce simp: lpost_def elim: lbindE)

lemma lpost_any: "lpost m (\<lambda>_. True)"
  by (simp add: lpost_def)

lemma lpost_ret: "P x \<Longrightarrow> lpost (lret x) P"
  by (simp add: lpost_def lret_def)

lemma lpost_err: "lpost (kwerrstr e) P"
  by (simp add: lpost_def kwerrstr_def)

lemma lpost_skip: "(\<And>x. lpost (f x) P) \<Longrightarrow> lpost (lbind m f) P"
  by (rule lpost_bind [OF lpost_any])













lemma parse_types_post: "lpost (parse_types n hsize ts) (\<lambda>us. length us = length ts)"
proof (induction n arbitrary: ts)
  case (Suc n)
  have "lpost (parse_type hsize ts) (\<lambda>us. length us = length ts)"
    by (auto simp: parse_type_def intro!: lpost_skip lpost_ret lpost_err)
  then show ?case by (simp, rule lpost_bind) (use Suc.IH in \<open>auto simp: lpost_def\<close>)
qed (simp add: lpost_ret)








section \<open>An example\<close>





definition demo_module :: cmodule where
  "demo_module =
    \<lparr>c_must = False, c_dont = False, c_maxstack = 200, c_ninst = 2, c_size = 24, c_ndesc = 2, c_nlink = 2, c_entry = Some (0, 1),
     c_inst = [\<lparr>n_op = 13, n_sm = Anone, n_mm = Anone, n_dm = Apc, n_s = \<lparr>ad_reg = 0, ad_offset = 0, ad_iface = 0\<rparr>, n_m = \<lparr>ad_reg = 0, ad_offset = 0, ad_iface = 0\<rparr>,
                 n_d = \<lparr>ad_reg = 0, ad_offset = 1, ad_iface = 0\<rparr>\<rparr>,
               \<lparr>n_op = 12, n_sm = Anone, n_mm = Anone, n_dm = Anone, n_s = \<lparr>ad_reg = 0, ad_offset = 0, ad_iface = 0\<rparr>, n_m = \<lparr>ad_reg = 0, ad_offset = 0, ad_iface = 0\<rparr>,
                 n_d = \<lparr>ad_reg = 0, ad_offset = 0, ad_iface = 0\<rparr>\<rparr>],
     c_desc = [\<lparr>d_id = 0, d_size = 24, d_map = [0x20]\<rparr>, \<lparr>d_id = 1, d_size = 80, d_map = []\<rparr>],
     c_vars = [\<lparr>v_global = True, v_offset = 0, v_init = Some (NTuple [(0, NInt 7), (8, NInt (-1))])\<rparr>, \<lparr>v_global = True, v_offset = 16, v_init = Some (NString [104, 105])\<rparr>],
     c_name = [77], c_links = [LGlobal 5, LFn 0 1 99 (Some [65]) [102]],
     c_ldts = [\<lparr>g_val = 1, g_ids = [(3, None, [112])]\<rparr>],
     c_excs = [\<lparr>x_reach = True, x_off = 40, x_pc1 = 0, x_pc2 = 1, x_desc = Some 1, x_ne = 0, x_labs = [([42], 1)], x_wild = None\<rparr>],
     c_src = [47, 97]\<rparr>"

lemma demo_ok: "mod_ok demo_module"
  by (simp add: mod_ok_def demo_module_def real_insts_def INOOP_def con_ok_def inst_ok_def cons_ok_def desc_ok_def data_ok_def decl_calls_def
    upt_rec ldt_ok_def excs_ok_def exc_ok_def exc_n_def wild_pc_def entry_ok_def loaded_types_def name_ok_def adt_name_def)

section \<open>Properties\<close>



text \<open>
  C10: Gathering initial data does not change it: reading the items of \<open>disvar\<close>, in which neighbouring values of one kind have been put together, gives
  the same memory, strings and arrays as storing every value of \<open>disdatum\<close> by itself, in order.
\<close>

theorem disvar_parse_data:
  assumes "data_ok (decl_calls ds)" "put_data ts (decl_calls ds) d = Some d'" "n \<noteq> -1"
  shows "\<exists>bs n'. disvar ds = Inr bs \<and> (\<forall>p. parse_data ts n d (feed (bs @ p)) = Inr ((n', d'), feed p))"
  using disvar_ok [OF assms] unfolding reads_def by blast

theorem disvar_parse_data_witness:
  "\<exists>bs n'. disvar (c_vars demo_module) = Inr bs \<and>
     (\<forall>p. parse_data [] 5 (data0 (Some (zeros 24))) (feed (bs @ p)) = Inr ((n', the (put_data [] (decl_calls (c_vars demo_module)) (data0 (Some (zeros 24))))), feed p))"
proof (rule disvar_parse_data)
  show "data_ok (decl_calls (c_vars demo_module))" using mod_okD(11) [OF demo_ok] .
  have "put_data [] (decl_calls (c_vars demo_module)) (data0 (Some (zeros 24))) \<noteq> None" by code_simp
  then show "put_data [] (decl_calls (c_vars demo_module)) (data0 (Some (zeros 24))) = Some (the (put_data [] (decl_calls (c_vars demo_module)) (data0 (Some (zeros 24)))))" by simp
qed simp

text \<open>
  C27: Numbers: every integer from \<open>-2^29\<close> up to \<open>2^29\<close> is written by \<open>discon\<close> in one, two or four bytes, from which \<open>operand\<close> reads the same number
  and nothing more; integers from \<open>2^29\<close> on are refused.
\<close>

theorem operand_discon:
  "(- (2 ^ 29) \<le> v \<and> v < 2 ^ 29 \<longrightarrow>
      (\<exists>bs. discon v = Inr bs \<and> length bs \<in> {1, 2, 4} \<and> (\<forall>p. dis_operand (bs @ p) = Inr (v, p)))) \<and>
   (2 ^ 29 \<le> v \<longrightarrow> discon v = Inl (Raise ''overflow in constant''))"
proof (intro conjI impI)
  assume v: "- (2 ^ 29) \<le> v \<and> v < 2 ^ 29"
  then have c: "con_ok v" by (simp add: con_ok_def)
  have "length bs \<in> {1, 2, 4}" if "discon v = Inr bs" for bs using that by (auto simp: discon_def split: if_splits)
  then have "length (discon_bytes v) \<in> {1, 2, 4}" using discon_eq [OF c] .
  then show "\<exists>bs. discon v = Inr bs \<and> length bs \<in> {1, 2, 4} \<and> (\<forall>p. dis_operand (bs @ p) = Inr (v, p))"
    using discon_eq [OF c] discon_bytes(1) [OF c] by auto
next
  assume v: "2 ^ 29 \<le> v"
  then have "1 \<le> v div 2 ^ 29" using zdiv_mono1 [of "2 ^ 29" v "2 ^ 29"] by simp
  then have "drop_bit 29 v \<noteq> 0" by (simp add: drop_bit_eq_div)
  then show "discon v = Inl (Raise ''overflow in constant'')" using v by (simp add: discon_def)
qed

theorem operand_discon_witness:
  "(\<exists>bs. discon (-70000) = Inr bs \<and> length bs \<in> {1, 2, 4} \<and> (\<forall>p. dis_operand (bs @ p) = Inr (-70000, p))) \<and> discon (2 ^ 30) = Inl (Raise ''overflow in constant'')"
  using operand_discon [of "-70000"] operand_discon [of "2 ^ 30"] by simp






section \<open>Files the loader should not accept, and modules it should\<close>

text \<open>A handler without descriptor, as \<open>disexc\<close> writes it, makes the loader read \<open>m->type[-1]\<close>.\<close>

lemma handler_without_descriptor:
  assumes "con_ok eoff" "con_ok pc1" "con_ok pc2" "n \<noteq> -1"
  shows "parse_handler ts n (feed (discon_bytes eoff @ discon_bytes pc1 @ discon_bytes pc2 @ discon_bytes (-1) @ p)) = Inl Undef"
proof -
  have r: "lbind get_operand f (feed (discon_bytes v @ p)) = f v (feed p)" if "con_ok v" for v f p
    using reads_operand [OF that] by (simp add: reads_def lbind_def)
  have "lbind (type_at ts (-1)) f s = Inl Undef" for f s by (simp add: type_at_def lbind_def lguard_def)
  then show ?thesis using assms by (simp add: parse_handler_def r con_ok_small)
qed

text \<open>So does a module without entry, for which \<open>disentry\<close> writes \<open>-1\<close> twice.\<close>

lemma module_without_entry: "0 \<le> isize \<Longrightarrow> parse_entry ts isize (-1) (-1) s = Inl Undef"
  by (simp add: parse_entry_def type_at_def lbind_def lguard_def)

text \<open>A negative entry is accepted.\<close>

lemma negative_entry: "parse_entry [Some t] 3 (-5) 0 (feed p) = Inr ((-5, Some t), feed p)"
  by (simp add: parse_entry_def type_at_def lbind_def lguard_def lret_def)

text \<open>A descriptor whose number is the count of descriptors is written behind the table.\<close>

lemma descriptor_behind_table: "parse_type 2 [None, None] (feed [2, 0, 0]) = Inl Undef"
  by (simp add: parse_type_def lbind_def get_operand_def lift_in_def feed_def dis_operand_def Let_def get_bytes_def dtype_def lneed_def malloc_def lret_def lguard_def)

text \<open>\<open>discon\<close> looks only at bits 29 to 31 of a negative number, so larger ones are written as others.\<close>

lemma discon_negative_wraps: "discon (- (2 ^ 33) - 1) = Inr [0xFF, 0xFF, 0xFF, 0xFF] \<and> dis_operand [0xFF, 0xFF, 0xFF, 0xFF] = Inr (-1, [])"
  by (simp add: discon_def bputc_def dis_operand_def sext6_def Let_def mask_eq_exp_minus_1)

end
