(* ===== verification/Dis_Object_Linkmod.thy ===== *)
theory Dis_Object_Linkmod
  imports Dis_Object_Theorems
begin

text \<open>Linking a loaded module to the imports of another: \<open>linkm\<close> and the loop of \<open>linkmod\<close> in \<^verbatim>\<open>libinterp/link.c\<close>.\<close>











section \<open>What is linked\<close>



















end
