(* ===== verification/Dis_Object_Case.thy ===== *)
theory Dis_Object_Case
  imports Dis_Object_Vars Dis_Xec
begin

text \<open>
  Case tables from the compiler to the interpreter: \<open>disdatum\<close> lays them out, \<open>parsemod\<close> puts them in the module's data, and \<open>icase\<close> and \<open>casel\<close> of
  \<^verbatim>\<open>xec.c\<close> search them.
\<close>

section \<open>Words in the data\<close>


definition int_cells :: "int list \<Rightarrow> dcell list" where "int_cells vs = concat (map (\<lambda>v. word_cells (signed_take_bit 31 v)) vs)"

lemma length_int_cells [simp]: "length (int_cells vs) = 8 * length vs"
  by (induction vs) (simp_all add: int_cells_def)








section \<open>Integer cases\<close>












definition case_data :: ddata where
  "case_data = \<lparr>dd_mp = Some (zeros 80), dd_obj = [], dd_addr = (Mp, 0), dd_stack = []\<rparr>"

definition cell_byte :: "dcell \<Rightarrow> byte" where "cell_byte c = (case c of Byte b \<Rightarrow> b | _ \<Rightarrow> 0)"

definition data_vm :: "dcell list \<Rightarrow> int \<Rightarrow> ptr \<Rightarrow> vm" where
  "data_vm m off v = demo_vm\<lparr>R_d := 1000 + word_of_int off, mem := st 1000 (map cell_byte m) (putw (R_s demo_vm) v (\<lambda>_. 0))\<rparr>"





text \<open>The end of a range is stored plus one as 32 bits, so a range up to the largest integer is never found: with the label from 0 to it the selector 7 goes to the wild card.\<close>

definition max_mem :: "dcell list" where
  "max_mem = the (dd_mp (the (put_data [] (datum_calls (NCase [(0, 0x7FFFFFFF, 10)] (Some 30)) 8) case_data)))"

lemma case_max_label: "icase (data_vm max_mem 8 7) = Inr (jump_to 30 (data_vm max_mem 8 7))"
proof -
  let ?r = "data_vm max_mem 8 7"
  have w: "sint (opW32 (R_s ?r) ?r) = 7" "opW (R_d ?r) ?r = 1" by code_simp+
  have "icase_loop ?r 7 (R_d ?r + 8) 1 = None" "opW (R_d ?r + 8 + 1 * 24) ?r = 30" by code_simp+
  then show ?thesis by (simp only: icase_def w Let_def) (simp add: w)
qed

section \<open>Cases on bigs\<close>

text \<open>
  The table for a case on bigs is laid out by the compiler with 32 bytes for a label, but searched with six words, 48 bytes, for each: with one label for 5, a machine whose
  selector is 5 goes to the wild card's instruction, which stands where the instruction of the label is expected.
\<close>

definition casel_mem :: "dcell list" where
  "casel_mem = the (dd_mp (the (put_data [] (datum_calls (NCasel [(5, 5, 10)] (Some 30)) 8) case_data)))"

lemma casel_layout: "casel (data_vm casel_mem 8 5) = Inr (jump_to 30 (data_vm casel_mem 8 5))"
proof -
  let ?r = "data_vm casel_mem 8 5"
  have w: "sint (opW (R_s ?r) ?r) = 5" "opW (R_d ?r) ?r = 1" by code_simp+
  have "casel_loop ?r 5 (R_d ?r + 16) 1 = Some 30" by code_simp
  then show ?thesis by (simp add: casel_def w Let_def)
qed

end
