(* ===== verification/Spec2Isabelle.thy ===== *)
theory Spec2Isabelle
  imports Styx_Dir Utf_String Dis_String_Values Mp_Theorems Dis_Xec Pool_Run
    Dis_Chan_Theorems Dis_Object_Linkmod Dis_Object_Case
begin

text \<open>
  A verification development for Inferno64NG, a 64-bit port of the Inferno operating system: the Dis
  virtual machine (\<^verbatim>\<open>src/libinterp\<close>) hosted by the emulator (\<^verbatim>\<open>src/emu\<close>), programs for it in Limbo
  (\<^verbatim>\<open>src/limbo\<close>, \<^verbatim>\<open>src/appl\<close>), resources named and served by the Styx protocol (\<^verbatim>\<open>src/lib9\<close>,
  \<^verbatim>\<open>src/emu/port\<close>), and C libraries below both. The models follow the amd64 build: words and
  pointers of 64 bits, \<open>int\<close> of 32, little-endian memory, runes and \<open>mpdigit\<close>s of 32 bits.

  \<^bold>\<open>Conventions.\<close> C code that can fail is a function into \<open>'a cres\<close> (theory \<open>Inferno_Prelude\<close>): a value, an
  error with its message, or \<open>Undef\<close> for what C leaves undefined, such as an access outside an object.
  That no input leads to \<open>Undef\<close> is then a theorem, and where one does, that is one too. Loops
  are recursive functions over the index or the data left, with termination proved; a loop that may
  not end has an optional result. Comments in front of the definitions say where their shape
  departs from the C text.

  \<^bold>\<open>Styx.\<close> \<open>Styx_Wire\<close> models \<^verbatim>\<open>lib9/convS2M.c\<close> and \<^verbatim>\<open>convM2S.c\<close>: \<open>sizeS2M\<close>, \<open>convS2M\<close> and \<open>convM2S\<close> on
  an \<open>fcall\<close> record with the fields of \<open>Fcall\<close>, the message buffer being a byte list with a cursor.
  \<open>Styx_Dir\<close> models the directory entries of \<^verbatim>\<open>convD2M.c\<close> and \<^verbatim>\<open>convM2D.c\<close>. Proved: what is
  stored is the encoding of the protocol and is read back, message streams are unambiguous, and no
  input makes the readers leave their buffers. The 32-bit size computation of \<open>sizeS2M\<close> wraps for huge
  messages; this is proved as well.

  \<^bold>\<open>Text.\<close> \<open>Rune\<close> models \<^verbatim>\<open>lib9/rune.c\<close>, \<open>Utf_String\<close> the routines over zero-terminated UTF-8.
  The coder is proved equal to RFC 3629 stated on numbers, and the decoder inverse to it and
  strict. The locale \<open>framing\<close> of the prelude, an encoding read off the front of a stream, is
  interpreted by the Styx messages and by UTF-8.

  \<^bold>\<open>Dis strings.\<close> \<open>Dis_String\<close> models \<^verbatim>\<open>libinterp/string.c\<close> over a store of string objects with reference
  counts and raw data bytes (\<open>Dis_Memory\<close>): creation, copy on write, in-place append, slicing,
  comparison, conversion from and to UTF-8. Allocation is an argument that may fail. \<open>Dis_String_Proofs\<close>
  has the store invariant and the operations on it, \<open>Dis_String_Values\<close> the refinement: each instruction has
  the effect of an assignment to a mutable variable of sequences of characters. The four conditions
  under which the code fails to do so are theorems.

  \<^bold>\<open>Dis execution.\<close> \<open>Dis_Machine\<close> has the registers \<open>REG\<close>, a flat memory and the operand macros. \<open>Dis_Decode\<close>
  lists the 256 operand decoding routines of \<^verbatim>\<open>libinterp/dec.c\<close> and models their generator
  \<^verbatim>\<open>decgen.c\<close>; the routines are proved to be what it prints and to realise the address modes of
  \<^verbatim>\<open>include/isa.h\<close>. \<open>Dis_Alu\<close> models the integer, branch, indexing, case, fixed point, call and
  list head instructions of \<^verbatim>\<open>libinterp/xec.c\<close>, \<open>Dis_Xec\<close> the table \<^verbatim>\<open>optab.h\<close> and the loop \<open>xec\<close>. Proved: an
  instruction stores only at its destination, indexing is in bounds or raises the error, the binary
  search of case tables finds the range, powers are computed and the loop ends except for one
  exponent, and a time slice ends. Instructions that are not modelled are an argument of the loop.
  Signed overflow is read as wrap-around.

  \<^bold>\<open>Channels.\<close> \<open>Dis_Chan\<close> models the channels of \<^verbatim>\<open>libinterp/xec.c\<close> (\<open>cnewc\<close>, \<open>cgetb\<close>, \<open>cputb\<close>, \<open>cqadd\<close>, \<open>cqdel\<close>, \<open>cqdelp\<close>, \<open>isend\<close>,
  \<open>irecv\<close>, \<open>csendalt\<close>), alternation (\<^verbatim>\<open>alt.c\<close>) and the run queue and \<open>exprog\<close> of \<^verbatim>\<open>emu/port/dis.c\<close> over a record \<open>world\<close> of channels,
  programs, memory and registers; a null queue pointer is the empty list, and \<open>malloc\<close> answers from a list. \<open>Dis_Chan_Inv\<close> has
  the invariant and the third pass of alternation, \<open>Dis_Chan_Ops\<close> sending and receiving, \<open>Dis_Chan_Alt\<close> the passes that enter the
  queues and communicate, \<open>Dis_Chan_Run\<close> the reachable states as an inductive predicate over sends, receives, alternations, sends of devices, exceptions
  and other steps, \<open>Dis_Chan_Fifo\<close> the view of a channel as a queue of values, and \<open>Dis_Chan_Theorems\<close> the results: waiting programs are
  where they should be, nothing gets stuck, channels are first in first out, and an alternation with a ready arm communicates. They are
  for alternations over distinct channels; with one named twice the code follows a null pointer, which is a lemma.

  \<^bold>\<open>Object files.\<close> The compiler writes modules (\<^verbatim>\<open>limbo/dis.c\<close>, \<open>modcom\<close> of \<^verbatim>\<open>com.c\<close>), the loader reads them (\<open>parsemod\<close> of \<^verbatim>\<open>libinterp/load.c\<close>);
  both sides are modelled. \<open>Dis_Object\<close> has their numbers and the loader as functions of the rest of the file and of the answers of \<open>malloc\<close>, with
  \<open>reads m bs x\<close>, that \<open>m\<close> takes \<open>bs\<close> off the file and gives \<open>x\<close>, which composes along the parts of the file; the numbers interpret \<open>framing\<close> again. \<open>Dis_Object_Inst\<close> has
  the instructions, \<open>Dis_Object_Data\<close> the type descriptors and the initial data, with the compiler's cache and the loader's data
  memory of bytes and pointers, \<open>Dis_Object_Vars\<close> the proof that the cache is transparent, \<open>Dis_Object_Mod\<close> linkage, handlers and the whole file,
  \<open>Dis_Object_Link\<close> and \<open>Dis_Object_Whole\<close> their round trips, and \<open>Dis_Object_Theorems\<close> the results: a module that is written is read back, and of any file that is
  accepted the branches and types stay in the module and the signature was verified. \<open>Dis_Object_Linkmod\<close> has \<^verbatim>\<open>link.c\<close>: imports are linked to the function of their name and signature. The loop over the data is given the length of the file as fuel,
  enough because every item takes a byte. The round trip is for modules with an entry and handlers with a descriptor; without them the loader
  reads outside the table of types, which is proved as well. \<open>Dis_Object_Case\<close> joins the three sides: case tables on integers, written, loaded and searched by
  \<open>icase\<close>, lead to the right instruction; those on bigs do not, because \<open>casel\<close> expects another layout.

  \<^bold>\<open>Multiple precision integers.\<close> \<open>Mp_Vec\<close> models the digit vectors of \<^verbatim>\<open>libmp/port\<close>, \<open>Mp_Mul\<close> the product with
  Karatsuba's method, \<open>Mp_Int\<close> the objects and their operations, \<open>Mp_Shift\<close> the shifts, \<open>Mp_Div\<close> Knuth's
  division. Objects live in a store, so that a result may be an operand. \<open>Mp_Arith\<close> and
  \<open>Mp_Div_Proofs\<close> have the lemmas, \<open>Mp_Theorems\<close> the results: sum, difference, product, quotient, remainder and
  order are those of the integers, for every aliasing the header permits. The locale \<open>mp_binop\<close>, an
  operation of two operands on the store, is interpreted by addition, subtraction and multiplication.
  Exceptions the code makes, in signs of quotients and of zero remainders, are theorems.

  \<^bold>\<open>Memory pools.\<close> \<open>Pool_Tree\<close> and \<open>Pool\<close> model \<^verbatim>\<open>emu/port/alloc.c\<close> and \<^verbatim>\<open>include/pool.h\<close>: block headers as maps from
  addresses, the tree of free blocks with its rings (\<open>pooladd\<close>, \<open>pooldel\<close>), \<open>dopoolalloc\<close> with splitting, new and
  extended arenas, \<open>poolfree\<close> with joining, \<open>poolrealloc\<close>, \<open>poolcompact\<close>, \<open>poolaudit\<close> and the \<open>malloc\<close> layer. The host's
  \<open>mmap\<close> is a parameter that may give any address apart from those it gave before (\<open>mmap_ok\<close>). \<open>Pool_Tree\<close>,
  \<open>Pool_Del\<close> and \<open>Pool_Subst\<close> prove the pointer code of the tree against binary search trees with contexts;
  the locale \<open>free_blocks\<close> of \<open>Pool_Inv\<close> is what the allocator uses of it, interpreted by \<open>pooladd\<close> and \<open>pooldel\<close>.
  \<open>Pool_Layout\<close> has the layout of the arenas under joining, splitting and growth, \<open>Pool_Inv\<close>, \<open>Pool_Alloc\<close>,
  \<open>Pool_Arena\<close> and \<open>Pool_Theorems\<close> the invariant, \<open>Pool_Run\<close> the runs of a pool as an inductive relation: blocks in
  use are apart, every call returns, \<open>poolaudit\<close> is content, limits are kept. The invariant is that of pools
  without a \<open>move\<close> function, the main and the heap pool; compaction, which only the image pool has, is
  modelled but leaves stale trailers behind, so that no invariant is claimed for it.

  \<^bold>\<open>Bounds.\<close> The normalising shift of the division is given 32 steps of fuel, the number of bits of a digit;
  \<open>mpdiv_shift_correct\<close> shows that they are enough for every divisor. Allocation of multiple
  precision integers does not fail, and their bit counts are not reduced to \<open>int\<close>.

  \<^bold>\<open>Not modelled.\<close> Instructions on reals and modules, the collector, groups of programs and host threads;
  the compilers to machine code, and the Limbo compiler before its output; number theory and conversions of the multiple
  precision library; formatted printing; cryptography, graphics, Tk and the devices of the emulator.
  Vendored code (SQLite) and retired sources (\<^verbatim>\<open>src/recycle\<close>) are left aside.
\<close>

end
